(* ===== verification/WebsPrelude.thy ===== *)
theory WebsPrelude
  imports Main "HOL-Library.Word" "HOL-Library.Monad_Syntax"
begin

text \<open>
  Shared vocabulary of the development: bytes and C strings, checked memory access,
  the memory allocator as an environment, and the generic list lemmas the component
  theories use.

  \<^item> A C \<^verbatim>\<open>char\<close> / \<^verbatim>\<open>unsigned char\<close> is a HOL \<open>char\<close> (eight bits). Reading it as an
    \<^verbatim>\<open>int\<close> depends on the signedness of plain \<^verbatim>\<open>char\<close> on the target, which is the
    boolean argument of \<open>c_char\<close>.
  \<^item> A C string is the list of its characters before the terminating NUL.
  \<^item> A memory block is a list; \<open>mem_read\<close>, \<open>mem_write\<close>, \<open>mem_copy\<close> and \<open>mem_slice\<close>
    return \<open>None\<close> for an access outside the block, so that a theorem that an operation
    returns \<open>Some\<close> includes that it stays inside its buffers.
  \<^item> \<^verbatim>\<open>balloc\<close> is \<^verbatim>\<open>malloc\<close> in this build (\<^verbatim>\<open>NO_BALLOC\<close> in \<^verbatim>\<open>uemf.h\<close>): an environment
    \<open>balloc_env\<close> says for each requested size whether the call succeeds and with what
    indeterminate contents.
\<close>

section \<open>Collections of rewrite rules\<close>

named_theorems mem_simps \<open>evaluation of checked memory accesses\<close>
named_theorems inv_intros \<open>introduction rules for component invariants\<close>

section \<open>Characters and C strings\<close>

type_synonym byte = char
type_synonym cstring = string

text \<open>Conversion of a plain \<^verbatim>\<open>char\<close> to \<^verbatim>\<open>int\<close>; the flag says whether \<^verbatim>\<open>char\<close> is signed.\<close>

definition c_char :: "bool \<Rightarrow> char \<Rightarrow> int" where
  "c_char sc c =
     (let v = (of_char c :: int) in if sc \<and> 128 \<le> v then v - 256 else v)"

definition c_uchar :: "char \<Rightarrow> int" where
  "c_uchar c = (of_char c :: int)"

text \<open>The character a C \<^verbatim>\<open>(char)\<close> cast makes of an integer: its low eight bits.\<close>

definition to_char :: "int \<Rightarrow> char" where
  "to_char i = char_of (nat (i mod 256))"

text \<open>\<^verbatim>\<open>isspace\<close> in the C locale.\<close>

definition c_isspace :: "char \<Rightarrow> bool" where
  "c_isspace c \<longleftrightarrow> c_uchar c = 32 \<or> 9 \<le> c_uchar c \<and> c_uchar c \<le> 13"

lemma of_char_bounds: "0 \<le> (of_char c :: int)" "(of_char c :: int) < 256"
proof -
  have "(of_char c :: int) = int (of_char c)" by (simp add: of_nat_of_char)
  moreover have "(of_char c :: nat) < 256" by (rule nat_of_char_less_256)
  ultimately show "0 \<le> (of_char c :: int)" "(of_char c :: int) < 256" by linarith+
qed

lemma c_uchar_range [simp]: "0 \<le> c_uchar c" "c_uchar c < 256"
  by (simp_all add: c_uchar_def of_char_bounds)

lemma to_char_c_uchar [simp]: "to_char (c_uchar c) = c"
proof -
  have "c_uchar c mod 256 = c_uchar c" by simp
  moreover have "nat (c_uchar c) = of_char c"
    using of_nat_of_char [of c, where ?'a = int] by (simp add: c_uchar_def nat_eq_iff)
  ultimately show ?thesis by (simp add: to_char_def)
qed

lemma c_uchar_to_char [simp]: "c_uchar (to_char i) = i mod 256"
proof -
  have "c_uchar (to_char i) = int (of_char (to_char i))" by (simp add: c_uchar_def of_nat_of_char)
  also have "\<dots> = int (nat (i mod 256) mod 256)" by (simp add: to_char_def)
  finally show ?thesis by (simp add: zmod_int)
qed

lemma c_uchar_inject [simp]: "c_uchar a = c_uchar b \<longleftrightarrow> a = b"
  by (metis to_char_c_uchar)

section \<open>The C string library\<close>

text \<open>Whether \<^verbatim>\<open>strstr\<close> finds a string.\<close>

fun c_has :: "cstring \<Rightarrow> cstring \<Rightarrow> bool" where
  "c_has s sub = (take (length sub) s = sub \<or> (case s of [] \<Rightarrow> False | _ # r \<Rightarrow> c_has r sub))"

declare c_has.simps [simp del]

text \<open>The tokens \<^verbatim>\<open>strtok\<close> returns one after the other.\<close>

function c_tokens :: "char \<Rightarrow> cstring \<Rightarrow> cstring list" where
  "c_tokens d s =
     (case dropWhile (\<lambda>c. c = d) s of
        [] \<Rightarrow> []
      | c # r \<Rightarrow> (c # takeWhile (\<lambda>c. c \<noteq> d) r) # c_tokens d (dropWhile (\<lambda>c. c \<noteq> d) r))"
  by pat_completeness auto
termination
proof (relation "measure (\<lambda>(d, s). length s)")
  fix d :: char and s c r
  assume e: "dropWhile (\<lambda>c. c = d) s = c # r"
  have "length (dropWhile (\<lambda>c. c \<noteq> d) r) < length (dropWhile (\<lambda>c. c = d) s)"
    unfolding e using length_dropWhile_le[of "\<lambda>c. c \<noteq> d" r] by simp
  also have "\<dots> \<le> length s" by (rule length_dropWhile_le)
  finally show "((d, dropWhile (\<lambda>c. c \<noteq> d) r), d, s) \<in> measure (\<lambda>(d, s). length s)" by simp
qed simp

declare c_tokens.simps [simp del]

lemma c_tokens_skip: "c_tokens d (d # r) = c_tokens d r"
  by (simp add: c_tokens.simps[of d "d # r"] c_tokens.simps[of d r])

section \<open>Checked memory access\<close>

definition mem_read :: "'a list \<Rightarrow> int \<Rightarrow> 'a option" where
  "mem_read b i = (if 0 \<le> i \<and> i < int (length b) then Some (b ! nat i) else None)"

definition mem_write :: "'a list \<Rightarrow> int \<Rightarrow> 'a \<Rightarrow> 'a list option" where
  "mem_write b i x = (if 0 \<le> i \<and> i < int (length b) then Some (b[nat i := x]) else None)"

text \<open>\<open>mem_copy dst off src n\<close> is \<^verbatim>\<open>memcpy(dst + off, src, n)\<close>.\<close>

definition mem_copy :: "'a list \<Rightarrow> int \<Rightarrow> 'a list \<Rightarrow> int \<Rightarrow> 'a list option" where
  "mem_copy dst off src n =
     (if 0 \<le> off \<and> 0 \<le> n \<and> off + n \<le> int (length dst) \<and> n \<le> int (length src)
      then Some (take (nat off) dst @ take (nat n) src @ drop (nat off + nat n) dst)
      else None)"

text \<open>\<open>mem_slice b off n\<close> are the \<open>n\<close> bytes a \<^verbatim>\<open>memcpy\<close> reads from \<^verbatim>\<open>b + off\<close>.\<close>

definition mem_slice :: "'a list \<Rightarrow> int \<Rightarrow> int \<Rightarrow> 'a list option" where
  "mem_slice b off n =
     (if 0 \<le> off \<and> 0 \<le> n \<and> off + n \<le> int (length b)
      then Some (take (nat n) (drop (nat off) b)) else None)"

lemma mem_read_Some [mem_simps]:
  "0 \<le> i \<Longrightarrow> i < int (length b) \<Longrightarrow> mem_read b i = Some (b ! nat i)"
  by (simp add: mem_read_def)

lemma mem_write_Some [mem_simps]:
  "0 \<le> i \<Longrightarrow> i < int (length b) \<Longrightarrow> mem_write b i x = Some (b[nat i := x])"
  by (simp add: mem_write_def)

lemma mem_slice_Some [mem_simps]:
  "0 \<le> off \<Longrightarrow> 0 \<le> n \<Longrightarrow> off + n \<le> int (length b) \<Longrightarrow>
     mem_slice b off n = Some (take (nat n) (drop (nat off) b))"
  by (simp add: mem_slice_def)

lemma mem_copy_Some [mem_simps]:
  "0 \<le> off \<Longrightarrow> 0 \<le> n \<Longrightarrow> off + n \<le> int (length dst) \<Longrightarrow> n \<le> int (length src) \<Longrightarrow>
     mem_copy dst off src n =
       Some (take (nat off) dst @ take (nat n) src @ drop (nat off + nat n) dst)"
  by (simp add: mem_copy_def)

section \<open>The allocator\<close>

type_synonym balloc_env = "int \<Rightarrow> (nat \<Rightarrow> byte) option"

text \<open>The block \<^verbatim>\<open>balloc(B_L, n)\<close> returns: \<open>None\<close> is the null pointer.\<close>

definition balloc :: "balloc_env \<Rightarrow> int \<Rightarrow> byte list option" where
  "balloc m n = map_option (\<lambda>junk. map junk [0..<nat n]) (m n)"

lemma balloc_length: "balloc m n = Some b \<Longrightarrow> length b = nat n"
  by (auto simp: balloc_def)

lemma balloc_None [simp]: "balloc m n = None \<longleftrightarrow> m n = None"
  by (simp add: balloc_def)

section \<open>Signed 32-bit arithmetic\<close>

text \<open>
  The target is an ILP32 machine (the sources store pointers in \<^verbatim>\<open>int\<close> cells). Signed
  overflow is undefined behaviour: \<open>c_int r\<close> is \<open>None\<close> when the exact result \<open>r\<close> does not
  fit an \<^verbatim>\<open>int\<close>.
\<close>

definition c_int :: "int \<Rightarrow> int option" where
  "c_int r = (if - (2 ^ 31) \<le> r \<and> r < 2 ^ 31 then Some r else None)"

lemma c_int_Some [mem_simps]: "- (2 ^ 31) \<le> r \<Longrightarrow> r < 2 ^ 31 \<Longrightarrow> c_int r = Some r"
  by (simp add: c_int_def)

text \<open>The conversion to \<^verbatim>\<open>short\<close>, which is also the type \<^verbatim>\<open>bool_t\<close>, and from \<^verbatim>\<open>unsigned\<close> to \<^verbatim>\<open>int\<close>.\<close>

definition c_short :: "int \<Rightarrow> int" where
  "c_short i = (i + 2 ^ 15) mod 2 ^ 16 - 2 ^ 15"

definition c_wrap :: "int \<Rightarrow> int" where
  "c_wrap i = (i + 2 ^ 31) mod 2 ^ 32 - 2 ^ 31"

lemma c_wrap_id: "- (2 ^ 31) \<le> i \<Longrightarrow> i < 2 ^ 31 \<Longrightarrow> c_wrap (i mod 2 ^ 32) = i"
  unfolding c_wrap_def by (simp add: mod_add_left_eq)

section \<open>Generic lemmas\<close>

lemma bind_fst [simp]: "Option.bind r (\<lambda>(a, _). Some a) = map_option fst r"
  by (cases r) auto

lemma take_drop_append_mid:
  "i \<le> length xs \<Longrightarrow> length ys = n \<Longrightarrow>
     take k (drop i (take i xs @ ys @ zs)) = take k (ys @ zs)"
  by simp

lemma drop_take_split: "i \<le> j \<Longrightarrow> drop i (take j xs) = take (j - i) (drop i xs)"
  by (simp add: drop_take)

lemma take_Suc_drop_nth:
  "i < length xs \<Longrightarrow> drop i xs = xs ! i # drop (Suc i) xs"
  by (rule Cons_nth_drop_Suc [symmetric])

lemma drop_update_here: "i < length xs \<Longrightarrow> drop i (xs[i := x]) = x # drop (Suc i) xs"
  by (simp flip: Cons_nth_drop_Suc)

lemma take_list_update_at: "k \<le> i \<Longrightarrow> take k (xs[i := x]) = take k xs"
  by simp

lemma drop_list_update_before: "i < k \<Longrightarrow> drop k (xs[i := x]) = drop k xs"
  by simp

text \<open>Storing a block inside a buffer leaves what lies beyond it.\<close>

lemma drop_splice:
  assumes "i \<le> length xs" "i + length ys \<le> n"
  shows "drop n (take i xs @ ys @ drop (i + length ys) xs) = drop n xs"
  using assms by (simp add: min_absorb2)

end
