(* ===== verification/Ringq.thy ===== *)
theory Ringq
  imports WebsPrelude
begin

text \<open>
  The ring queue module, \<^verbatim>\<open>webs/src/src/ringq.c\<close>. A queue is a record with the fields of
  \<^verbatim>\<open>ringq_t\<close>; the pointers \<^verbatim>\<open>servp\<close>, \<^verbatim>\<open>endp\<close> and \<^verbatim>\<open>endbuf\<close> are offsets from \<^verbatim>\<open>buf\<close>. A freed or
  missing buffer is the empty block, so that every later access to it faults.

  Results are in the option monad: \<open>None\<close> is undefined behaviour (an access outside the
  buffer, a signed overflow) or a loop that does not finish; the C return codes are
  ordinary values. \<^verbatim>\<open>ringqPutBlk\<close> and \<^verbatim>\<open>ringqGrow\<close> call each other; the model gives them fuel,
  and \<open>ringqPutBlk_spec\<close> shows that the fuel used is enough on every valid queue.
\<close>

section \<open>State\<close>

record ringq =
  buf :: "byte list"
  servp :: int
  endp :: int
  endbuf :: int
  buflen :: int
  maxsize :: int
  increment :: int

definition RINGQ_LEN :: "ringq \<Rightarrow> int" where
  "RINGQ_LEN rq =
     (if servp rq > endp rq then buflen rq + (endp rq - servp rq) else endp rq - servp rq)"

definition ringqLen :: "ringq \<Rightarrow> int" where
  "ringqLen rq =
     (if servp rq > endp rq then buflen rq + endp rq - servp rq else endp rq - servp rq)"

section \<open>Block sizes\<close>

text \<open>The loop of \<^verbatim>\<open>getBinBlockSize\<close>: the number of shifts until \<^verbatim>\<open>size\<close> is zero.\<close>

fun bin_shifts :: "nat \<Rightarrow> nat" where
  "bin_shifts sz = (if sz = 0 then 0 else Suc (bin_shifts (sz div 2)))"

declare bin_shifts.simps [simp del]

text \<open>
  A negative size never shifts to zero (the loop does not end), and \<^verbatim>\<open>1 << 31\<close> or more does
  not fit an \<^verbatim>\<open>int\<close>: both are \<open>None\<close>.
\<close>

definition getBinBlockSize :: "int \<Rightarrow> int option" where
  "getBinBlockSize sz =
     (if sz < 0 then None
      else c_int (2 ^ (4 + bin_shifts (nat (sz div 2 ^ 4)))))"

section \<open>Operations\<close>

definition ringqOpen :: "balloc_env \<Rightarrow> ringq \<Rightarrow> int \<Rightarrow> int \<Rightarrow> (ringq \<times> int) option" where
  "ringqOpen m rq initSize maxsz = do {
     incr \<leftarrow> getBinBlockSize initSize;
     (case balloc m incr of
        None \<Rightarrow> Some (rq\<lparr>buf := []\<rparr>, -1)
      | Some b \<Rightarrow> do {
          b' \<leftarrow> mem_write b 0 (CHR 0x00);
          Some (\<lparr>buf = b', servp = 0, endp = 0, endbuf = incr, buflen = incr,
                 maxsize = maxsz, increment = incr\<rparr>, 0) }) }"

text \<open>An empty block stands for the null pointer.\<close>

definition ringqFlush :: "ringq \<Rightarrow> ringq option" where
  "ringqFlush rq = do {
     b \<leftarrow> (if buf rq = [] then Some [] else mem_write (buf rq) 0 (CHR 0x00));
     Some (rq\<lparr>servp := 0, endp := 0, buf := b\<rparr>) }"

definition ringqClose :: "ringq \<Rightarrow> ringq option" where
  "ringqClose rq = do {
     rq1 \<leftarrow> ringqFlush rq;
     Some (rq1\<lparr>buf := []\<rparr>) }"

definition ringqPutBlkMax :: "ringq \<Rightarrow> int" where
  "ringqPutBlkMax rq =
     (let space = buflen rq - RINGQ_LEN rq - 1;
          in_a_line = endbuf rq - endp rq
      in min in_a_line space)"

definition ringqGetBlkMax :: "ringq \<Rightarrow> int" where
  "ringqGetBlkMax rq =
     (let len = RINGQ_LEN rq;
          in_a_line = endbuf rq - servp rq
      in min in_a_line len)"

definition ringqGetc :: "ringq \<Rightarrow> (ringq \<times> int) option" where
  "ringqGetc rq =
     (if servp rq = endp rq then Some (rq, -1)
      else do {
        c \<leftarrow> mem_read (buf rq) (servp rq);
        let s = servp rq + 1;
        Some (rq\<lparr>servp := (if s \<ge> endbuf rq then 0 else s)\<rparr>, c_uchar c) })"

text \<open>The body of the loop of \<^verbatim>\<open>ringqGetBlk\<close>: one straight-line copy out of the queue.\<close>

definition ringq_copy_out :: "ringq \<Rightarrow> int \<Rightarrow> (ringq \<times> byte list) option" where
  "ringq_copy_out rq this = do {
     d \<leftarrow> mem_slice (buf rq) (servp rq) this;
     let s = servp rq + this;
     Some (rq\<lparr>servp := (if s \<ge> endbuf rq then 0 else s)\<rparr>, d) }"

function ringqGetBlk :: "ringq \<Rightarrow> int \<Rightarrow> (ringq \<times> byte list) option" where
  "ringqGetBlk rq sz =
     (if sz > 0 then
        let this = min (ringqGetBlkMax rq) sz in
        if this \<le> 0 then Some (rq, [])
        else do {
          (rq1, d) \<leftarrow> ringq_copy_out rq this;
          (rq2, d2) \<leftarrow> ringqGetBlk rq1 (sz - this);
          Some (rq2, d @ d2) }
      else Some (rq, []))"
  by pat_completeness auto
termination
  by (relation "measure (\<lambda>(rq, sz). nat sz)") auto

declare ringqGetBlk.simps [simp del]

text \<open>The body of the loop of \<^verbatim>\<open>ringqPutBlk\<close>: one straight-line copy into the queue.\<close>

definition ringq_copy_in :: "ringq \<Rightarrow> byte list \<Rightarrow> int \<Rightarrow> ringq option" where
  "ringq_copy_in rq src this = do {
     b \<leftarrow> mem_copy (buf rq) (endp rq) src this;
     let e = endp rq + this;
     Some (rq\<lparr>buf := b, endp := (if e \<ge> endbuf rq then 0 else e)\<rparr>) }"

fun ringqPutBlk_fuel :: "nat \<Rightarrow> balloc_env \<Rightarrow> ringq \<Rightarrow> byte list \<Rightarrow> (ringq \<times> int) option"
  and ringqGrow_fuel :: "nat \<Rightarrow> balloc_env \<Rightarrow> ringq \<Rightarrow> (ringq \<times> bool) option"
where
  "ringqPutBlk_fuel 0 m rq src = None"
| "ringqPutBlk_fuel (Suc f) m rq src =
     (if src = [] then Some (rq, 0)
      else let this = min (ringqPutBlkMax rq) (int (length src)) in
        if this \<le> 0 then do {
          (rq1, grown) \<leftarrow> ringqGrow_fuel f m rq;
          if \<not> grown then Some (rq1, 0)
          else do {
            let this' = min (ringqPutBlkMax rq1) (int (length src));
            rq2 \<leftarrow> ringq_copy_in rq1 src this';
            (rq3, put) \<leftarrow> ringqPutBlk_fuel f m rq2 (drop (nat this') src);
            Some (rq3, this' + put) } }
        else do {
          rq2 \<leftarrow> ringq_copy_in rq src this;
          (rq3, put) \<leftarrow> ringqPutBlk_fuel f m rq2 (drop (nat this) src);
          Some (rq3, this + put) })"
| "ringqGrow_fuel 0 m rq = None"
| "ringqGrow_fuel (Suc f) m rq =
     (if maxsize rq \<ge> 0 \<and> buflen rq \<ge> maxsize rq then Some (rq, False)
      else do {
        let len = ringqLen rq;
        newlen \<leftarrow> c_int (buflen rq + increment rq);
        (case balloc m newlen of
           None \<Rightarrow> Some (rq, False)
         | Some newbuf \<Rightarrow> do {
             (rq1, d) \<leftarrow> ringqGetBlk rq (ringqLen rq);
             nb \<leftarrow> mem_copy newbuf 0 d (int (length d));
             let rq2 = rq1\<lparr>buflen := newlen, endp := 0, servp := 0, buf := nb,
                           endbuf := newlen\<rparr>;
             (rq3, put) \<leftarrow> ringqPutBlk_fuel f m rq2 (take (nat len) nb);
             twice \<leftarrow> c_int (2 * increment rq3);
             incr \<leftarrow> getBinBlockSize twice;
             Some (rq3\<lparr>increment := incr\<rparr>, True) }) })"

text \<open>
  Fuel: one unit per loop iteration, each of which copies at least one byte, one for the
  final test, and three for the copy inside \<^verbatim>\<open>ringqGrow\<close>.
\<close>

definition ringqPutBlk :: "balloc_env \<Rightarrow> ringq \<Rightarrow> byte list \<Rightarrow> (ringq \<times> int) option" where
  "ringqPutBlk m rq src = ringqPutBlk_fuel (length src + 4) m rq src"

definition ringqGrow :: "balloc_env \<Rightarrow> ringq \<Rightarrow> (ringq \<times> bool) option" where
  "ringqGrow m rq = ringqGrow_fuel 4 m rq"

definition ringqPutc :: "balloc_env \<Rightarrow> ringq \<Rightarrow> byte \<Rightarrow> (ringq \<times> int) option" where
  "ringqPutc m rq c = do {
     (rq1, ok) \<leftarrow> (if ringqPutBlkMax rq < 1 then ringqGrow m rq else Some (rq, True));
     if \<not> ok then Some (rq1, -1)
     else do {
       b \<leftarrow> mem_write (buf rq1) (endp rq1) c;
       let e = endp rq1 + 1;
       Some (rq1\<lparr>buf := b, endp := (if e \<ge> endbuf rq1 then 0 else e)\<rparr>, 0) } }"

definition ringqInsertc :: "balloc_env \<Rightarrow> ringq \<Rightarrow> byte \<Rightarrow> (ringq \<times> int) option" where
  "ringqInsertc m rq c = do {
     (rq1, ok) \<leftarrow> (if ringqPutBlkMax rq < 1 then ringqGrow m rq else Some (rq, True));
     if \<not> ok then Some (rq1, -1)
     else do {
       let s = (if servp rq1 \<le> 0 then endbuf rq1 else servp rq1) - 1;
       b \<leftarrow> mem_write (buf rq1) s c;
       Some (rq1\<lparr>buf := b, servp := s\<rparr>, 0) } }"

definition ringqAddNull :: "ringq \<Rightarrow> ringq option" where
  "ringqAddNull rq = do {
     b \<leftarrow> mem_write (buf rq) (endp rq) (CHR 0x00);
     Some (rq\<lparr>buf := b\<rparr>) }"

definition ringqPutStr :: "balloc_env \<Rightarrow> ringq \<Rightarrow> cstring \<Rightarrow> (ringq \<times> int) option" where
  "ringqPutStr m rq str = do {
     (rq1, rc) \<leftarrow> ringqPutBlk m rq str;
     b \<leftarrow> mem_write (buf rq1) (endp rq1) (CHR 0x00);
     Some (rq1\<lparr>buf := b\<rparr>, rc) }"

definition ringqPutBlkAdj :: "ringq \<Rightarrow> int \<Rightarrow> ringq option" where
  "ringqPutBlkAdj rq sz =
     (let e = endp rq + sz;
          e' = (if e \<ge> endbuf rq then e - buflen rq else e);
          rq1 = rq\<lparr>endp := e'\<rparr>
      in if e' \<ge> endbuf rq then ringqFlush rq1 else Some rq1)"

definition ringqGetBlkAdj :: "ringq \<Rightarrow> int \<Rightarrow> ringq option" where
  "ringqGetBlkAdj rq sz =
     (let s = servp rq + sz;
          s' = (if s \<ge> endbuf rq then s - buflen rq else s);
          rq1 = rq\<lparr>servp := s'\<rparr>
      in if s' \<ge> endbuf rq then ringqFlush rq1 else Some rq1)"

section \<open>Abstraction and invariant\<close>

text \<open>The bytes a queue holds, in the order \<^verbatim>\<open>ringqGetc\<close> delivers them.\<close>

definition rq_data :: "ringq \<Rightarrow> byte list" where
  "rq_data rq =
     (if servp rq \<le> endp rq
      then take (nat (endp rq - servp rq)) (drop (nat (servp rq)) (buf rq))
      else drop (nat (servp rq)) (buf rq) @ take (nat (endp rq)) (buf rq))"

text \<open>
  A valid queue: \<^verbatim>\<open>buflen\<close> is the size of the buffer, both pointers are inside it, and the
  growth increment is a power of two. The bounds keep every \<^verbatim>\<open>int\<close> computation of
  \<^verbatim>\<open>ringqGrow\<close> in range.
\<close>

definition rq_inv :: "ringq \<Rightarrow> bool" where
  "rq_inv rq \<longleftrightarrow>
     int (length (buf rq)) = buflen rq \<and> endbuf rq = buflen rq \<and>
     0 \<le> servp rq \<and> servp rq < buflen rq \<and> 0 \<le> endp rq \<and> endp rq < buflen rq \<and>
     buflen rq \<le> 2 ^ 28 \<and> (\<exists>k\<in>{4..30::nat}. increment rq = 2 ^ k)"

text \<open>The allocator never hands out a block of more than 256 MiB.\<close>

definition small_heap :: "balloc_env \<Rightarrow> bool" where
  "small_heap m \<longleftrightarrow> (\<forall>n. m n \<noteq> None \<longrightarrow> n \<le> 2 ^ 28)"

text \<open>Growing is impossible: the size limit is reached or memory is exhausted.\<close>

definition rq_full :: "balloc_env \<Rightarrow> ringq \<Rightarrow> bool" where
  "rq_full m rq \<longleftrightarrow>
     maxsize rq \<ge> 0 \<and> buflen rq \<ge> maxsize rq \<or> m (buflen rq + increment rq) = None"

text \<open>The fields only \<^verbatim>\<open>ringqGrow\<close> writes.\<close>

definition rq_same_shape :: "ringq \<Rightarrow> ringq \<Rightarrow> bool" where
  "rq_same_shape rq rq' \<longleftrightarrow>
     buflen rq' = buflen rq \<and> endbuf rq' = endbuf rq \<and> maxsize rq' = maxsize rq \<and>
     increment rq' = increment rq"

lemma rq_inv_ptrs:
  assumes "rq_inv rq"
  obtains s e where "servp rq = int s" "endp rq = int e" "s < length (buf rq)"
    "e < length (buf rq)" "buflen rq = int (length (buf rq))" "endbuf rq = int (length (buf rq))"
proof -
  from assms have "0 \<le> servp rq" "0 \<le> endp rq" by (auto simp: rq_inv_def)
  then obtain s e where "servp rq = int s" "endp rq = int e"
    using nonneg_int_cases by metis
  with assms that show thesis by (auto simp: rq_inv_def)
qed

lemma rq_inv_dims:
  "rq_inv rq \<Longrightarrow> 0 < buflen rq \<and> buflen rq \<le> 2 ^ 28 \<and> 16 \<le> increment rq \<and> increment rq \<le> 2 ^ 30"
proof -
  assume i: "rq_inv rq"
  then obtain k :: nat where k: "4 \<le> k" "k \<le> 30" "increment rq = 2 ^ k"
    by (auto simp: rq_inv_def)
  from k(1) have "(2::int) ^ 4 \<le> 2 ^ k" by (rule power_increasing) simp
  moreover from k(2) have "(2::int) ^ k \<le> 2 ^ 30" by (rule power_increasing) simp
  ultimately show ?thesis using i k(3) by (auto simp: rq_inv_def)
qed

lemma rq_data_increment [simp]: "rq_data (rq\<lparr>increment := n\<rparr>) = rq_data rq"
  by (simp add: rq_data_def)

lemma RINGQ_LEN_data: "rq_inv rq \<Longrightarrow> RINGQ_LEN rq = int (length (rq_data rq))"
  by (erule rq_inv_ptrs) (auto simp: RINGQ_LEN_def rq_data_def)

lemma ringqLen_data: "rq_inv rq \<Longrightarrow> ringqLen rq = int (length (rq_data rq))"
  by (erule rq_inv_ptrs) (auto simp: ringqLen_def rq_data_def)

lemma rq_data_less: "rq_inv rq \<Longrightarrow> int (length (rq_data rq)) < buflen rq"
  by (erule rq_inv_ptrs) (auto simp: rq_data_def)

section \<open>Straight-line copies\<close>

lemma ring_put_linear:
  assumes "s \<le> e" "e + length xs \<le> length b"
  shows "take (e + length xs - s) (drop s (take e b @ xs @ zs)) = take (e - s) (drop s b) @ xs"
proof -
  have "drop s (take e b @ xs @ zs) = take (e - s) (drop s b) @ xs @ zs"
    using assms by (simp add: drop_take)
  moreover have "e + length xs - s = length (take (e - s) (drop s b) @ xs)"
    using assms by (auto simp: min_def)
  ultimately show ?thesis by (metis append.assoc append_eq_conv_conj)
qed

lemma ring_put_wrapped:
  assumes "e + length xs < s" "s \<le> length b"
  shows "drop s (take e b @ xs @ drop (e + length xs) b) = drop s b"
    and "take (e + length xs) (take e b @ xs @ drop (e + length xs) b) = take e b @ xs"
  using assms by (simp_all add: min_def)

lemma ringq_copy_in_spec:
  assumes i: "rq_inv rq" and n: "0 \<le> n" "n \<le> ringqPutBlkMax rq" "n \<le> int (length src)"
  shows "\<exists>rq'. ringq_copy_in rq src n = Some rq' \<and> rq_inv rq' \<and>
           rq_data rq' = rq_data rq @ take (nat n) src \<and> rq_same_shape rq rq'"
proof -
  from i obtain s e where p: "servp rq = int s" "endp rq = int e" "s < length (buf rq)"
    "e < length (buf rq)" "buflen rq = int (length (buf rq))" "endbuf rq = int (length (buf rq))"
    by (rule rq_inv_ptrs)
  obtain k where k: "n = int k" using n(1) nonneg_int_cases by blast
  define xs where "xs = take k src"
  have lx: "length xs = k" using n k by (simp add: xs_def)
  have len: "RINGQ_LEN rq = (if e < s then int (length (buf rq)) + int e - int s else int e - int s)"
    using p by (simp add: RINGQ_LEN_def)
  have bnd: "e + length xs \<le> length (buf rq)" "s \<le> e \<Longrightarrow> e - s + length xs < length (buf rq)"
    "e < s \<Longrightarrow> e + length xs < s"
    using n(2) p k lx len by (auto simp: ringqPutBlkMax_def split: if_splits)
  define b' where "b' = take e (buf rq) @ xs @ drop (e + length xs) (buf rq)"
  define e' where "e' = (if e + k \<ge> length (buf rq) then 0 else e + k)"
  have cp: "ringq_copy_in rq src n = Some (rq\<lparr>buf := b', endp := int e'\<rparr>)"
    using p n k bnd(1) lx by (simp add: ringq_copy_in_def mem_copy_def b'_def e'_def xs_def Let_def)
  have lb: "length b' = length (buf rq)" using bnd(1) by (simp add: b'_def)
  have "rq_inv (rq\<lparr>buf := b', endp := int e'\<rparr>)"
    using i p lb by (auto simp: rq_inv_def e'_def)
  moreover have "rq_data (rq\<lparr>buf := b', endp := int e'\<rparr>) = rq_data rq @ xs"
  proof (cases "s \<le> e")
    case True
    note l = ring_put_linear[OF True bnd(1)]
    show ?thesis
    proof (cases "e + k = length (buf rq)")
      case True
      then have e0: "e' = 0" "0 < s" using bnd(2) \<open>s \<le> e\<close> lx by (auto simp: e'_def)
      have "drop s b' = take (e + length xs - s) (drop s b')" using True lx lb by simp
      then show ?thesis using l p \<open>s \<le> e\<close> e0 by (simp add: rq_data_def b'_def nat_diff_distrib')
    next
      case False
      then have "e' = e + k" using bnd(1) lx by (simp add: e'_def)
      then show ?thesis using l p \<open>s \<le> e\<close> lx by (simp add: rq_data_def b'_def nat_diff_distrib')
    qed
  next
    case False
    then have "e' = e + k" using bnd(3) p lx by (simp add: e'_def)
    then show ?thesis
      using False bnd(3) p lx ring_put_wrapped[of e xs s "buf rq"]
      by (simp add: rq_data_def b'_def)
  qed
  ultimately show ?thesis using cp k by (auto simp: rq_same_shape_def xs_def)
qed

lemma ringq_copy_out_spec:
  assumes i: "rq_inv rq" and n: "0 \<le> n" "n \<le> ringqGetBlkMax rq"
  shows "\<exists>s'. ringq_copy_out rq n = Some (rq\<lparr>servp := s'\<rparr>, take (nat n) (rq_data rq)) \<and>
           rq_inv (rq\<lparr>servp := s'\<rparr>) \<and> rq_data (rq\<lparr>servp := s'\<rparr>) = drop (nat n) (rq_data rq)"
proof -
  from i obtain s e where p: "servp rq = int s" "endp rq = int e" "s < length (buf rq)"
    "e < length (buf rq)" "buflen rq = int (length (buf rq))" "endbuf rq = int (length (buf rq))"
    by (rule rq_inv_ptrs)
  obtain k where k: "n = int k" using n(1) nonneg_int_cases by blast
  have bnd: "s + k \<le> length (buf rq)" "s \<le> e \<Longrightarrow> s + k \<le> e"
    using n(2) p k by (auto simp: ringqGetBlkMax_def RINGQ_LEN_def split: if_splits)
  define s' where "s' = (if s + k \<ge> length (buf rq) then 0 else s + k)"
  have "ringq_copy_out rq n = Some (rq\<lparr>servp := int s'\<rparr>, take k (drop s (buf rq)))"
    using p k bnd by (simp add: ringq_copy_out_def mem_slice_def s'_def Let_def)
  moreover have "take k (drop s (buf rq)) = take k (rq_data rq)"
    using p bnd by (auto simp: rq_data_def min_def nat_diff_distrib')
  moreover have "rq_inv (rq\<lparr>servp := int s'\<rparr>)" using i p by (auto simp: rq_inv_def s'_def)
  moreover have "rq_data (rq\<lparr>servp := int s'\<rparr>) = drop k (rq_data rq)"
    using p bnd by (auto simp: rq_data_def s'_def drop_take nat_diff_distrib' add.commute)
  ultimately show ?thesis using k by auto
qed

section \<open>Block sizes are powers of two\<close>

lemma bin_shifts_bounds: "n < 2 ^ bin_shifts n \<and> (0 < n \<longrightarrow> 2 ^ bin_shifts n \<le> 2 * n)"
proof (induction n rule: bin_shifts.induct)
  case (1 n)
  show ?case
  proof (cases "n = 0")
    case True
    then show ?thesis by (simp add: bin_shifts.simps)
  next
    case False
    then have sh: "bin_shifts n = Suc (bin_shifts (n div 2))" by (subst bin_shifts.simps) simp
    have IH: "n div 2 < 2 ^ bin_shifts (n div 2)"
      "0 < n div 2 \<longrightarrow> 2 ^ bin_shifts (n div 2) \<le> 2 * (n div 2)"
      using "1.IH"[OF False] by auto
    show ?thesis
    proof (cases "n = 1")
      case True
      then show ?thesis by (simp add: bin_shifts.simps)
    next
      case False
      then show ?thesis using IH sh \<open>n \<noteq> 0\<close> by auto
    qed
  qed
qed

lemma bin_shifts_pow2: "bin_shifts (2 ^ j) = Suc j"
proof (induction j)
  case 0
  show ?case by (simp add: bin_shifts.simps)
next
  case (Suc j)
  then show ?case by (subst bin_shifts.simps) simp
qed

lemma getBinBlockSize_pow2:
  assumes "4 \<le> j" "j \<le> 29"
  shows "getBinBlockSize (2 ^ j) = Some (2 ^ Suc j)"
proof -
  obtain i where j: "j = 4 + i" using assms(1) le_Suc_ex by blast
  then have "nat ((2::int) ^ j div 2 ^ 4) = 2 ^ i" by (simp add: power_add nat_power_eq)
  then have "bin_shifts (nat ((2::int) ^ j div 2 ^ 4)) = Suc i" by (simp only: bin_shifts_pow2)
  then have "getBinBlockSize (2 ^ j) = c_int (2 ^ Suc j)"
    using j by (simp add: getBinBlockSize_def)
  moreover have "(2::int) ^ Suc j \<le> 2 ^ 30" using assms(2) by (intro power_increasing) auto
  then have "(2::int) ^ Suc j < 2 ^ 31" by (rule order_le_less_trans) simp
  moreover have "- (2 ^ 31) \<le> (2::int) ^ Suc j" by (rule order_trans[of _ 0]) simp_all
  ultimately show ?thesis by (simp only: c_int_Some)
qed

section \<open>Getting blocks\<close>

lemma ringqGetBlkMax_pos: "rq_inv rq \<Longrightarrow> ringqGetBlkMax rq \<le> 0 \<longleftrightarrow> rq_data rq = []"
  by (auto simp: ringqGetBlkMax_def RINGQ_LEN_data rq_inv_def min_def Let_def split: if_splits)

lemma ringqGetBlk_spec:
  "rq_inv rq \<Longrightarrow> 0 \<le> n \<Longrightarrow>
     \<exists>s'. ringqGetBlk rq n = Some (rq\<lparr>servp := s'\<rparr>, take (nat n) (rq_data rq)) \<and>
          rq_inv (rq\<lparr>servp := s'\<rparr>) \<and> rq_data (rq\<lparr>servp := s'\<rparr>) = drop (nat n) (rq_data rq)"
proof (induction rq n rule: ringqGetBlk.induct)
  case (1 rq n)
  define this where "this = min (ringqGetBlkMax rq) n"
  have same: "rq\<lparr>servp := servp rq\<rparr> = rq" by simp
  show ?case
  proof (cases "0 < n \<and> 0 < this")
    case False
    then have "n = 0 \<or> rq_data rq = []"
      using "1.prems" ringqGetBlkMax_pos[of rq] by (auto simp: this_def)
    moreover have "ringqGetBlk rq n = Some (rq, [])"
      using False by (subst ringqGetBlk.simps) (auto simp: this_def Let_def)
    ultimately show ?thesis
      using same "1.prems"(1) by (intro exI[of _ "servp rq"]) auto
  next
    case True
    have le: "0 \<le> this" "this \<le> ringqGetBlkMax rq" "this \<le> n" using True by (auto simp: this_def)
    obtain s1 where out: "ringq_copy_out rq this = Some (rq\<lparr>servp := s1\<rparr>, take (nat this) (rq_data rq))"
      "rq_inv (rq\<lparr>servp := s1\<rparr>)" "rq_data (rq\<lparr>servp := s1\<rparr>) = drop (nat this) (rq_data rq)"
      using ringq_copy_out_spec[OF "1.prems"(1) le(1,2)] by blast
    obtain s2 where rest: "ringqGetBlk (rq\<lparr>servp := s1\<rparr>) (n - this) =
        Some (rq\<lparr>servp := s2\<rparr>, take (nat (n - this)) (drop (nat this) (rq_data rq)))"
      "rq_inv (rq\<lparr>servp := s2\<rparr>)"
      "rq_data (rq\<lparr>servp := s2\<rparr>) = drop (nat (n - this)) (drop (nat this) (rq_data rq))"
      using "1.IH"[OF _ this_def _ _ refl, of "rq\<lparr>servp := s1\<rparr>" "take (nat this) (rq_data rq)"]
        True out le by auto
    have "nat n = nat this + nat (n - this)" using le by (simp add: nat_diff_distrib)
    then have "take (nat n) (rq_data rq) =
        take (nat this) (rq_data rq) @ take (nat (n - this)) (drop (nat this) (rq_data rq))"
      by (simp add: take_add)
    moreover have "ringqGetBlk rq n = Some (rq\<lparr>servp := s2\<rparr>,
        take (nat this) (rq_data rq) @ take (nat (n - this)) (drop (nat this) (rq_data rq)))"
      using True out(1) rest(1)
      by (subst ringqGetBlk.simps) (simp add: this_def [symmetric] Let_def)
    ultimately show ?thesis using rest le by (auto simp: nat_diff_distrib)
  qed
qed

section \<open>Putting blocks and growing\<close>

lemma rq_same_shape_refl [simp]: "rq_same_shape rq rq"
  by (simp add: rq_same_shape_def)

lemma ringqPutBlkMax_pos:
  "rq_inv rq \<Longrightarrow> ringqPutBlkMax rq \<le> 0 \<longleftrightarrow> int (length (rq_data rq)) = buflen rq - 1"
  using rq_data_less[of rq]
  by (auto simp: ringqPutBlkMax_def RINGQ_LEN_data rq_inv_def min_def Let_def split: if_splits)

text \<open>Into an empty, unwrapped queue a block that fits is put by a single copy.\<close>

lemma ringqPutBlk_empty:
  assumes i: "rq_inv rq" and z: "servp rq = 0" "endp rq = 0" and l: "int (length src) < buflen rq"
  shows "\<exists>rq'. ringqPutBlk_fuel (Suc (Suc f)) m rq src = Some (rq', int (length src)) \<and>
           rq_inv rq' \<and> rq_data rq' = src \<and> rq_same_shape rq rq'"
proof (cases "src = []")
  case True
  then show ?thesis using i z by (simp add: rq_data_def)
next
  case False
  have mx: "ringqPutBlkMax rq = buflen rq - 1"
    using z i by (simp add: ringqPutBlkMax_def RINGQ_LEN_def rq_inv_def)
  have d0: "rq_data rq = []" using z by (simp add: rq_data_def)
  obtain rq' where "ringq_copy_in rq src (int (length src)) = Some rq'" "rq_inv rq'"
    "rq_data rq' = src" "rq_same_shape rq rq'"
    using ringq_copy_in_spec[OF i, of "int (length src)" src] mx l d0 by auto
  moreover have "min (ringqPutBlkMax rq) (int (length src)) = int (length src)"
    using mx l by simp
  ultimately show ?thesis using False by (simp add: Let_def)
qed

lemma ringqGrow_spec:
  assumes i: "rq_inv rq" and m: "small_heap m" and f: "3 \<le> f"
  shows "\<exists>rq' g. ringqGrow_fuel f m rq = Some (rq', g) \<and> rq_inv rq' \<and> rq_data rq' = rq_data rq \<and>
           maxsize rq' = maxsize rq \<and>
           (if g then buflen rq' = buflen rq + increment rq \<and> increment rq' = 4 * increment rq
            else rq' = rq \<and> rq_full m rq)"
proof -
  obtain f' f1 where f1: "f = Suc f1" and f': "f1 = Suc (Suc f')"
    using f by (metis Suc_le_D numeral_3_eq_3 Suc_le_mono)
  obtain k :: nat where k: "4 \<le> k" "k \<le> 30" "increment rq = 2 ^ k"
    using i by (auto simp: rq_inv_def)
  have dims: "0 < buflen rq" "buflen rq \<le> 2 ^ 28" "16 \<le> increment rq" "increment rq \<le> 2 ^ 30"
    using rq_inv_dims[OF i] by auto
  define newlen where "newlen = buflen rq + increment rq"
  have nl: "c_int newlen = Some newlen" using dims by (simp add: newlen_def c_int_def)
  show ?thesis
  proof (cases "maxsize rq \<ge> 0 \<and> buflen rq \<ge> maxsize rq \<or> m newlen = None")
    case True
    then have "ringqGrow_fuel f m rq = Some (rq, False)"
      using f1 nl by (auto simp: newlen_def Let_def balloc_def)
    then show ?thesis using i True by (auto simp: rq_full_def newlen_def)
  next
    case False
    then obtain newbuf where nb: "balloc m newlen = Some newbuf"
      by (cases "balloc m newlen") auto
    have lim: "newlen \<le> 2 ^ 28" using False m by (auto simp: small_heap_def)
    have lnb: "int (length newbuf) = newlen" using balloc_length[OF nb] dims by (simp add: newlen_def)
    define d where "d = rq_data rq"
    have dl: "int (length d) < buflen rq" using rq_data_less[OF i] by (simp add: d_def)
    obtain s' where get: "ringqGetBlk rq (ringqLen rq) = Some (rq\<lparr>servp := s'\<rparr>, d)"
      using ringqGetBlk_spec[OF i, of "ringqLen rq"] ringqLen_data[OF i] by (auto simp: d_def)
    define nb' where "nb' = d @ drop (length d) newbuf"
    have cp: "mem_copy newbuf 0 d (int (length d)) = Some nb'"
      using dl lnb dims by (simp add: mem_copy_def nb'_def newlen_def)
    define rq2 where "rq2 = rq\<lparr>servp := 0, buflen := newlen, endp := 0, buf := nb', endbuf := newlen\<rparr>"
    have lnb': "int (length nb') = newlen" using dl lnb dims by (simp add: nb'_def newlen_def)
    have i2: "rq_inv rq2"
      using k lim dims lnb' by (auto simp: rq2_def rq_inv_def newlen_def)
    have tk: "take (nat (ringqLen rq)) nb' = d"
      using ringqLen_data[OF i] by (simp add: nb'_def d_def)
    obtain rq3 where put: "ringqPutBlk_fuel f1 m rq2 d = Some (rq3, int (length d))"
      "rq_inv rq3" "rq_data rq3 = d" "rq_same_shape rq2 rq3"
      using ringqPutBlk_empty[OF i2, of d f' m] dl dims f' by (auto simp: rq2_def newlen_def)
    have inc3: "increment rq3 = 2 ^ k" using put(4) k(3) by (simp add: rq_same_shape_def rq2_def)
    have "(2::int) ^ k < 2 ^ 28" using lim dims k(3) by (simp add: newlen_def)
    then have k27: "k < 28" by (rule power_less_imp_less_exp[rotated]) simp
    have bin: "getBinBlockSize (2 * 2 ^ k) = Some (4 * 2 ^ k)"
      using getBinBlockSize_pow2[of "Suc k"] k k27 by simp
    have tw: "c_int (2 * 2 ^ k) = Some (2 * 2 ^ k)"
    proof (rule c_int_Some)
      show "- (2 ^ 31) \<le> 2 * (2::int) ^ k" by (rule order_trans[of _ 0]) simp_all
      show "2 * (2::int) ^ k < 2 ^ 31" using \<open>(2::int) ^ k < 2 ^ 28\<close> by simp
    qed
    have rqe: "rq\<lparr>servp := s', buflen := newlen, endp := 0, servp := 0, buf := nb', endbuf := newlen\<rparr> = rq2"
      by (simp add: rq2_def)
    have res: "ringqGrow_fuel f m rq = Some (rq3\<lparr>increment := 4 * 2 ^ k\<rparr>, True)"
      using False f1 nl nb get cp put(1) inc3 bin tw tk rqe
      by (simp add: newlen_def [symmetric] Let_def)
    have "4 * 2 ^ k = (2::int) ^ (k + 2)" by simp
    then have "rq_inv (rq3\<lparr>increment := 4 * 2 ^ k\<rparr>)"
      using put(2) k k27 by (auto simp: rq_inv_def intro!: bexI[of _ "k + 2"])
    moreover have "rq_data (rq3\<lparr>increment := 4 * 2 ^ k\<rparr>) = d" using put(3) by simp
    ultimately show ?thesis
      using res put(4) k(3) by (auto simp: rq_same_shape_def rq2_def d_def newlen_def)
  qed
qed

lemma ringqGrow_total:
  "rq_inv rq \<Longrightarrow> small_heap m \<Longrightarrow>
     \<exists>rq' g. ringqGrow m rq = Some (rq', g) \<and> rq_inv rq' \<and> rq_data rq' = rq_data rq \<and>
       maxsize rq' = maxsize rq \<and>
       (if g then buflen rq' = buflen rq + increment rq \<and> increment rq' = 4 * increment rq
        else rq' = rq \<and> rq_full m rq)"
  unfolding ringqGrow_def by (rule ringqGrow_spec) simp_all

text \<open>
  The specification of \<^verbatim>\<open>ringqPutBlk\<close>: enough fuel, no fault, a prefix of the block is
  appended, and the block is cut short only when the queue can grow no further.
\<close>

definition put_post :: "balloc_env \<Rightarrow> ringq \<Rightarrow> byte list \<Rightarrow> ringq \<times> int \<Rightarrow> bool" where
  "put_post m rq src = (\<lambda>(rq', n).
     rq_inv rq' \<and> maxsize rq' = maxsize rq \<and> 0 \<le> n \<and> n \<le> int (length src) \<and>
     rq_data rq' = rq_data rq @ take (nat n) src \<and>
     (n < int (length src) \<longrightarrow> rq_full m rq' \<and> int (length (rq_data rq')) = buflen rq' - 1))"

lemma put_post_cong: "rq_data a = rq_data b \<Longrightarrow> maxsize a = maxsize b \<Longrightarrow> put_post m a src = put_post m b src"
  by (simp add: put_post_def)

lemma put_post_step:
  assumes cp: "rq_data rq2 = rq_data rq @ take (nat t) src" "maxsize rq2 = maxsize rq"
    and t: "0 < t" "t \<le> int (length src)"
    and rest: "put_post m rq2 (drop (nat t) src) (rq3, put)"
  shows "put_post m rq src (rq3, t + put)"
proof -
  have "0 \<le> put" using rest by (simp add: put_post_def)
  then have "take (nat (t + put)) src = take (nat t) src @ take (nat put) (drop (nat t) src)"
    using t by (simp add: nat_add_distrib take_add)
  then show ?thesis using assms by (auto simp: put_post_def of_nat_diff)
qed

lemma ringqPutBlk_fuel_spec:
  "rq_inv rq \<Longrightarrow> small_heap m \<Longrightarrow> length src + 4 \<le> f \<Longrightarrow>
     \<exists>r. ringqPutBlk_fuel f m rq src = Some r \<and> put_post m rq src r"
proof (induction f arbitrary: rq src)
  case 0
  then show ?case by simp
next
  case (Suc f)
  show ?case
  proof (cases "src = []")
    case True
    then show ?thesis using Suc.prems by (simp add: put_post_def)
  next
    case False
    have copy: "\<exists>rq2 rq3 put. ringq_copy_in q src t = Some rq2 \<and>
        ringqPutBlk_fuel f m rq2 (drop (nat t) src) = Some (rq3, put) \<and> put_post m q src (rq3, t + put)"
      if q: "rq_inv q" and t: "0 < t" "t = min (ringqPutBlkMax q) (int (length src))" for q t
    proof -
      obtain rq2 where c: "ringq_copy_in q src t = Some rq2" "rq_inv rq2"
        "rq_data rq2 = rq_data q @ take (nat t) src" "rq_same_shape q rq2"
        using ringq_copy_in_spec[OF q, of t src] t by auto
      have "1 \<le> nat t" "1 \<le> length src" using t(1) False by (simp_all add: Suc_le_eq)
      then have l: "length (drop (nat t) src) + 4 \<le> f" using Suc.prems(3) by simp
      obtain rq3 put where r: "ringqPutBlk_fuel f m rq2 (drop (nat t) src) = Some (rq3, put)"
        "put_post m rq2 (drop (nat t) src) (rq3, put)"
        using Suc.IH[OF c(2) Suc.prems(2) l] by fastforce
      have "put_post m q src (rq3, t + put)"
        using put_post_step[OF c(3) _ t(1) _ r(2)] t c(4) by (simp add: rq_same_shape_def)
      then show ?thesis using c(1) r(1) by blast
    qed
    define this where "this = min (ringqPutBlkMax rq) (int (length src))"
    show ?thesis
    proof (cases "0 < this")
      case True
      obtain rq2 rq3 put where "ringq_copy_in rq src this = Some rq2"
        "ringqPutBlk_fuel f m rq2 (drop (nat this) src) = Some (rq3, put)"
        "put_post m rq src (rq3, this + put)"
        using copy[OF Suc.prems(1) True this_def] by blast
      then show ?thesis
        using False True by (simp add: this_def [symmetric] Let_def)
    next
      case nospace: False
      have full: "int (length (rq_data rq)) = buflen rq - 1"
        using nospace False ringqPutBlkMax_pos[OF Suc.prems(1)] by (simp add: this_def min_def split: if_splits)
      have "3 \<le> f" using Suc.prems(3) by simp
      then obtain rq1 g where g: "ringqGrow_fuel f m rq = Some (rq1, g)" "rq_inv rq1"
        "rq_data rq1 = rq_data rq" "maxsize rq1 = maxsize rq"
        "if g then buflen rq1 = buflen rq + increment rq \<and> increment rq1 = 4 * increment rq
         else rq1 = rq \<and> rq_full m rq"
        using ringqGrow_spec[OF Suc.prems(1,2)] by blast
      show ?thesis
      proof (cases g)
        case False
        then have "ringqPutBlk_fuel (Suc f) m rq src = Some (rq, 0)"
          using g nospace \<open>src \<noteq> []\<close> by (simp add: this_def [symmetric] Let_def)
        then show ?thesis using False g Suc.prems(1) full by (simp add: put_post_def)
      next
        case True
        define t where "t = min (ringqPutBlkMax rq1) (int (length src))"
        have "ringqPutBlkMax rq1 > 0"
          using ringqPutBlkMax_pos[OF g(2)] g(3,5) True full rq_inv_dims[OF Suc.prems(1)] by auto
        then have "0 < t" using \<open>src \<noteq> []\<close> by (simp add: t_def)
        then obtain rq2 rq3 put where "ringq_copy_in rq1 src t = Some rq2"
          "ringqPutBlk_fuel f m rq2 (drop (nat t) src) = Some (rq3, put)"
          "put_post m rq1 src (rq3, t + put)"
          using copy[OF g(2) _ t_def] by blast
        moreover from this(3) have "put_post m rq src (rq3, t + put)"
          using put_post_cong[OF g(3,4)] by simp
        ultimately show ?thesis
          using \<open>src \<noteq> []\<close> nospace g(1) True
          by (simp add: this_def [symmetric] t_def [symmetric] Let_def)
      qed
    qed
  qed
qed

lemma ringqPutBlk_spec:
  "rq_inv rq \<Longrightarrow> small_heap m \<Longrightarrow> \<exists>r. ringqPutBlk m rq src = Some r \<and> put_post m rq src r"
  unfolding ringqPutBlk_def by (rule ringqPutBlk_fuel_spec) simp_all

section \<open>Single characters\<close>

lemma ringqGrow_if_full:
  assumes "rq_inv rq" "small_heap m"
  shows "\<exists>rq1 ok. (if ringqPutBlkMax rq < 1 then ringqGrow m rq else Some (rq, True)) = Some (rq1, ok) \<and>
     rq_inv rq1 \<and> rq_data rq1 = rq_data rq \<and> maxsize rq1 = maxsize rq \<and>
     (if ok then 0 < ringqPutBlkMax rq1
      else rq1 = rq \<and> rq_full m rq \<and> int (length (rq_data rq)) = buflen rq - 1)"
proof (cases "ringqPutBlkMax rq < 1")
  case True
  then have full: "int (length (rq_data rq)) = buflen rq - 1"
    using ringqPutBlkMax_pos[OF assms(1)] by simp
  obtain rq1 g where g: "ringqGrow m rq = Some (rq1, g)" "rq_inv rq1"
    "rq_data rq1 = rq_data rq" "maxsize rq1 = maxsize rq"
    "if g then buflen rq1 = buflen rq + increment rq \<and> increment rq1 = 4 * increment rq
     else rq1 = rq \<and> rq_full m rq"
    using ringqGrow_total[OF assms] by blast
  have "g \<Longrightarrow> 0 < ringqPutBlkMax rq1"
    using ringqPutBlkMax_pos[OF g(2)] g(3,5) full rq_inv_dims[OF assms(1)] by auto
  then show ?thesis using True g full by auto
next
  case False
  then show ?thesis using assms by auto
qed

lemma ringq_write_end:
  assumes i: "rq_inv rq" and s: "0 < ringqPutBlkMax rq"
  shows "\<exists>b e'. mem_write (buf rq) (endp rq) c = Some b \<and>
     (if endp rq + 1 \<ge> endbuf rq then 0 else endp rq + 1) = e' \<and>
     rq_inv (rq\<lparr>buf := b, endp := e'\<rparr>) \<and> rq_data (rq\<lparr>buf := b, endp := e'\<rparr>) = rq_data rq @ [c]"
proof -
  obtain rq' where r: "ringq_copy_in rq [c] 1 = Some rq'" "rq_inv rq'" "rq_data rq' = rq_data rq @ [c]"
    using ringq_copy_in_spec[OF i, of 1 "[c]"] s by auto
  from i obtain e where p: "endp rq = int e" "e < length (buf rq)" by (rule rq_inv_ptrs)
  then have "mem_copy (buf rq) (endp rq) [c] 1 = mem_write (buf rq) (endp rq) c"
    by (simp add: mem_copy_def mem_write_def upd_conv_take_nth_drop)
  then show ?thesis using r by (auto simp: ringq_copy_in_def Let_def bind_eq_Some_conv)
qed

lemma ringqPutc_spec:
  assumes i: "rq_inv rq" and m: "small_heap m"
  shows "\<exists>rq' rc. ringqPutc m rq c = Some (rq', rc) \<and> rq_inv rq' \<and> maxsize rq' = maxsize rq \<and>
     (rc = 0 \<and> rq_data rq' = rq_data rq @ [c] \<or>
      rc = -1 \<and> rq' = rq \<and> rq_full m rq \<and> int (length (rq_data rq)) = buflen rq - 1)"
proof -
  obtain rq1 ok where g: "(if ringqPutBlkMax rq < 1 then ringqGrow m rq else Some (rq, True)) = Some (rq1, ok)"
    "rq_inv rq1" "rq_data rq1 = rq_data rq" "maxsize rq1 = maxsize rq"
    "if ok then 0 < ringqPutBlkMax rq1
     else rq1 = rq \<and> rq_full m rq \<and> int (length (rq_data rq)) = buflen rq - 1"
    using ringqGrow_if_full[OF i m] by blast
  show ?thesis
  proof (cases ok)
    case True
    then show ?thesis
      using g ringq_write_end[OF g(2), of c] by (auto simp: ringqPutc_def Let_def)
  next
    case False
    then show ?thesis using g i by (auto simp: ringqPutc_def)
  qed
qed

lemma ringqGetc_spec:
  assumes i: "rq_inv rq"
  shows "case rq_data rq of
     [] \<Rightarrow> ringqGetc rq = Some (rq, -1)
   | c # cs \<Rightarrow> \<exists>rq'. ringqGetc rq = Some (rq', c_uchar c) \<and> rq_inv rq' \<and> rq_data rq' = cs \<and>
                rq_same_shape rq rq'"
proof (cases "rq_data rq")
  case Nil
  then have "servp rq = endp rq"
    using RINGQ_LEN_data[OF i] i by (auto simp: RINGQ_LEN_def rq_inv_def split: if_splits)
  then show ?thesis using Nil by (simp add: ringqGetc_def)
next
  case (Cons c cs)
  then have ne: "servp rq \<noteq> endp rq" by (auto simp: rq_data_def)
  have "0 < ringqGetBlkMax rq" using ringqGetBlkMax_pos[OF i] Cons by force
  then obtain s' where o: "ringq_copy_out rq 1 = Some (rq\<lparr>servp := s'\<rparr>, [c])"
    "rq_inv (rq\<lparr>servp := s'\<rparr>)" "rq_data (rq\<lparr>servp := s'\<rparr>) = cs"
    using ringq_copy_out_spec[OF i, of 1] Cons by auto
  from i obtain s where p: "servp rq = int s" "s < length (buf rq)" by (rule rq_inv_ptrs)
  have "mem_slice (buf rq) (servp rq) 1 = Some [buf rq ! s]"
    using p by (simp add: mem_slice_def take_Suc_conv_app_nth hd_drop_conv_nth take_Suc)
  then have "buf rq ! s = c" "s' = (if servp rq + 1 \<ge> endbuf rq then 0 else servp rq + 1)"
    using o(1) by (auto simp: ringq_copy_out_def Let_def dest: arg_cong[where f = servp])
  then have "ringqGetc rq = Some (rq\<lparr>servp := s'\<rparr>, c_uchar c)"
    using ne p by (simp add: ringqGetc_def mem_read_def Let_def)
  then show ?thesis using o Cons by (auto simp: rq_same_shape_def)
qed

lemma ringqInsertc_spec:
  assumes i: "rq_inv rq" and m: "small_heap m"
  shows "\<exists>rq' rc. ringqInsertc m rq c = Some (rq', rc) \<and> rq_inv rq' \<and> maxsize rq' = maxsize rq \<and>
     (rc = 0 \<and> rq_data rq' = c # rq_data rq \<or>
      rc = -1 \<and> rq' = rq \<and> rq_full m rq \<and> int (length (rq_data rq)) = buflen rq - 1)"
proof -
  obtain rq1 ok where g: "(if ringqPutBlkMax rq < 1 then ringqGrow m rq else Some (rq, True)) = Some (rq1, ok)"
    "rq_inv rq1" "rq_data rq1 = rq_data rq" "maxsize rq1 = maxsize rq"
    "if ok then 0 < ringqPutBlkMax rq1
     else rq1 = rq \<and> rq_full m rq \<and> int (length (rq_data rq)) = buflen rq - 1"
    using ringqGrow_if_full[OF i m] by blast
  show ?thesis
  proof (cases ok)
    case True
    from g(2) obtain s e where p: "servp rq1 = int s" "endp rq1 = int e" "s < length (buf rq1)"
      "e < length (buf rq1)" "buflen rq1 = int (length (buf rq1))" "endbuf rq1 = int (length (buf rq1))"
      by (rule rq_inv_ptrs)
    have room: "int (length (rq_data rq1)) < int (length (buf rq1)) - 1"
      using g(5) True p ringqPutBlkMax_pos[OF g(2)] rq_data_less[OF g(2)] by force
    define s' where "s' = (if s = 0 then length (buf rq1) else s) - 1"
    have s': "s' < length (buf rq1)" using p by (auto simp: s'_def)
    have nats: "nat (int s - 1) = s - 1" "nat (int (length (buf rq1)) - 1) = length (buf rq1) - 1"
      by linarith+
    have "ringqInsertc m rq c = Some (rq1\<lparr>buf := (buf rq1)[s' := c], servp := int s'\<rparr>, 0)"
      using g(1) True p s' nats
      by (cases "s = 0") (auto simp: ringqInsertc_def Let_def mem_write_def s'_def of_nat_diff)
    moreover have "rq_inv (rq1\<lparr>buf := (buf rq1)[s' := c], servp := int s'\<rparr>)"
      using g(2) s' p by (auto simp: rq_inv_def)
    moreover have "rq_data (rq1\<lparr>buf := (buf rq1)[s' := c], servp := int s'\<rparr>) = c # rq_data rq1"
    proof (cases "s = 0")
      case True
      then have "Suc s' = length (buf rq1)" "e < s'" using p room by (auto simp: s'_def rq_data_def)
      then show ?thesis using True p by (simp add: rq_data_def drop_update_here)
    next
      case False
      then have ss: "s = Suc s'" by (simp add: s'_def)
      have n1: "nat (1 + int s') = Suc s'" by simp
      have "e < s \<Longrightarrow> e < s'" using room p ss by (simp add: rq_data_def)
      then show ?thesis
        using p ss s' by (auto simp: rq_data_def drop_update_here nat_diff_distrib' take_Cons' n1)
    qed
    ultimately show ?thesis using g by auto
  next
    case False
    then show ?thesis using g i by (auto simp: ringqInsertc_def)
  qed
qed

section \<open>Opening, flushing, closing, strings, direct access\<close>

lemma ringqOpen_spec:
  assumes m: "small_heap m" and sz: "0 \<le> initSize" "initSize < 2 ^ 30"
  shows "\<exists>rq' rc. ringqOpen m rq initSize maxsz = Some (rq', rc) \<and>
     (rc = 0 \<and> rq_inv rq' \<and> rq_data rq' = [] \<and> maxsize rq' = maxsz \<and> initSize < buflen rq' \<or>
      rc = -1 \<and> buf rq' = [])"
proof -
  define q where "q = bin_shifts (nat (initSize div 2 ^ 4))"
  have lt: "nat (initSize div 2 ^ 4) < 2 ^ q" using bin_shifts_bounds by (simp add: q_def)
  have "nat (initSize div 2 ^ 4) < 2 ^ 26" using sz by (auto simp: nat_less_iff)
  moreover have "2 ^ q \<le> max 1 (2 * nat (initSize div 2 ^ 4))"
  proof (cases "nat (initSize div 2 ^ 4) = 0")
    case True
    then show ?thesis by (simp add: q_def bin_shifts.simps)
  next
    case False
    then show ?thesis
      using bin_shifts_bounds[of "nat (initSize div 2 ^ 4)"] by (simp add: q_def)
  qed
  ultimately have "(2::nat) ^ q < 2 ^ 27" by simp
  then have q27: "q < 27" by (rule power_less_imp_less_exp[rotated]) simp
  have p30: "(2::int) ^ (4 + q) \<le> 2 ^ 30" using q27 by (intro power_increasing) simp_all
  have p4: "(2::int) ^ 4 \<le> 2 ^ (4 + q)" by (rule power_increasing) simp_all
  have b: "getBinBlockSize initSize = Some (2 ^ (4 + q))"
    unfolding getBinBlockSize_def q_def [symmetric] using sz p30 p4 by (simp add: c_int_def)
  have "int (nat (initSize div 2 ^ 4)) < 2 ^ q" using lt by (metis of_nat_less_iff of_nat_numeral of_nat_power)
  then have "initSize div 2 ^ 4 < 2 ^ q" using sz by (auto split: if_splits)
  then have sml: "initSize < 2 ^ (4 + q)" by (simp add: power_add)
  show ?thesis
  proof (cases "balloc m (2 ^ (4 + q))")
    case None
    then show ?thesis using b by (simp add: ringqOpen_def del: balloc_None)
  next
    case (Some blk)
    have l: "int (length blk) = 2 ^ (4 + q)" using balloc_length[OF Some] by simp
    have "m (2 ^ (4 + q)) \<noteq> None" using Some by (auto simp: balloc_def)
    then have lim: "(2::int) ^ (4 + q) \<le> 2 ^ 28" using m by (auto simp: small_heap_def)
    have pos: "0 < length blk" using l p4 by (metis of_nat_0_less_iff zero_less_numeral zero_less_power)
    then have "ringqOpen m rq initSize maxsz = Some (\<lparr>buf = blk[0 := CHR 0x00], servp = 0, endp = 0,
        endbuf = 2 ^ (4 + q), buflen = 2 ^ (4 + q), maxsize = maxsz, increment = 2 ^ (4 + q)\<rparr>, 0)"
      using b Some by (simp add: ringqOpen_def mem_write_def)
    moreover have "rq_inv \<lparr>buf = blk[0 := CHR 0x00], servp = 0, endp = 0,
        endbuf = 2 ^ (4 + q), buflen = 2 ^ (4 + q), maxsize = maxsz, increment = 2 ^ (4 + q)\<rparr>"
      using l lim q27 by (auto simp: rq_inv_def intro!: bexI[of _ "4 + q"])
    ultimately show ?thesis using sml by (auto simp: rq_data_def)
  qed
qed

lemma ringqFlush_spec:
  assumes "rq_inv rq"
  shows "\<exists>rq'. ringqFlush rq = Some rq' \<and> rq_inv rq' \<and> rq_data rq' = [] \<and> rq_same_shape rq rq'"
proof -
  have "0 < length (buf rq)" using assms by (auto simp: rq_inv_def)
  then show ?thesis
    using assms by (auto simp: ringqFlush_def mem_write_def rq_inv_def rq_data_def rq_same_shape_def)
qed

lemma rq_write_null:
  assumes "rq_inv rq"
  shows "\<exists>b. mem_write (buf rq) (endp rq) (CHR 0x00) = Some b \<and> rq_inv (rq\<lparr>buf := b\<rparr>) \<and>
     rq_data (rq\<lparr>buf := b\<rparr>) = rq_data rq \<and> mem_read b (endp rq) = Some (CHR 0x00)"
proof -
  from assms obtain s e where p: "servp rq = int s" "endp rq = int e" "s < length (buf rq)"
    "e < length (buf rq)" "buflen rq = int (length (buf rq))" "endbuf rq = int (length (buf rq))"
    by (rule rq_inv_ptrs)
  have "take (e - s) (drop s ((buf rq)[e := CHR 0x00])) = take (e - s) (drop s (buf rq))" if "s \<le> e"
    using that by (simp add: drop_update_swap)
  then show ?thesis using assms p
    by (auto simp: mem_write_def mem_read_def rq_inv_def rq_data_def nat_diff_distrib')
qed

lemma ringqPutStr_spec:
  assumes "rq_inv rq" "small_heap m"
  shows "\<exists>rq' n. ringqPutStr m rq str = Some (rq', n) \<and> put_post m rq str (rq', n) \<and>
     mem_read (buf rq') (endp rq') = Some (CHR 0x00)"
proof -
  obtain rq1 n where r: "ringqPutBlk m rq str = Some (rq1, n)" "put_post m rq str (rq1, n)"
    using ringqPutBlk_spec[OF assms] by fastforce
  then have "rq_inv rq1" by (simp add: put_post_def)
  then obtain b where b: "mem_write (buf rq1) (endp rq1) (CHR 0x00) = Some b" "rq_inv (rq1\<lparr>buf := b\<rparr>)"
    "rq_data (rq1\<lparr>buf := b\<rparr>) = rq_data rq1" "mem_read b (endp rq1) = Some (CHR 0x00)"
    using rq_write_null by blast
  have "put_post m rq str (rq1\<lparr>buf := b\<rparr>, n)" using r(2) b(2,3) by (auto simp: put_post_def rq_full_def)
  then show ?thesis using r b by (simp add: ringqPutStr_def)
qed

lemma ringqGetBlkAdj_spec:
  assumes i: "rq_inv rq" and n: "0 \<le> n" "n \<le> int (length (rq_data rq))"
  shows "\<exists>rq'. ringqGetBlkAdj rq n = Some rq' \<and> rq_inv rq' \<and> rq_data rq' = drop (nat n) (rq_data rq) \<and>
     buf rq' = buf rq"
proof -
  from i obtain s e where p: "servp rq = int s" "endp rq = int e" "s < length (buf rq)"
    "e < length (buf rq)" "buflen rq = int (length (buf rq))" "endbuf rq = int (length (buf rq))"
    by (rule rq_inv_ptrs)
  obtain k where k: "n = int k" using n(1) nonneg_int_cases by blast
  define s' where "s' = (if s + k \<ge> length (buf rq) then s + k - length (buf rq) else s + k)"
  have len: "k \<le> (if s \<le> e then e - s else length (buf rq) - s + e)"
    using n(2) p k by (auto simp: rq_data_def split: if_splits)
  have "ringqGetBlkAdj rq n = Some (rq\<lparr>servp := int s'\<rparr>)"
    using p k len by (auto simp: ringqGetBlkAdj_def Let_def s'_def of_nat_diff split: if_splits)
  moreover have "rq_inv (rq\<lparr>servp := int s'\<rparr>)"
    using i p len by (auto simp: rq_inv_def s'_def split: if_splits)
  moreover have "rq_data (rq\<lparr>servp := int s'\<rparr>) = drop k (rq_data rq)"
    using p len by (auto simp: rq_data_def s'_def drop_take nat_diff_distrib' add.commute of_nat_diff
        split: if_splits)
  ultimately show ?thesis using k by auto
qed

lemma ringqPutBlkAdj_spec:
  assumes i: "rq_inv rq" and n: "0 \<le> n" "int (length (rq_data rq)) + n < buflen rq"
  shows "\<exists>rq'. ringqPutBlkAdj rq n = Some rq' \<and> rq_inv rq' \<and> buf rq' = buf rq \<and>
     int (length (rq_data rq')) = int (length (rq_data rq)) + n \<and>
     take (length (rq_data rq)) (rq_data rq') = rq_data rq"
proof -
  from i obtain s e where p: "servp rq = int s" "endp rq = int e" "s < length (buf rq)"
    "e < length (buf rq)" "buflen rq = int (length (buf rq))" "endbuf rq = int (length (buf rq))"
    by (rule rq_inv_ptrs)
  obtain k where k: "n = int k" using n(1) nonneg_int_cases by blast
  define e' where "e' = (if e + k \<ge> length (buf rq) then e + k - length (buf rq) else e + k)"
  have len: "(if s \<le> e then e - s else length (buf rq) - s + e) + k < length (buf rq)"
    using n(2) p k by (auto simp: rq_data_def split: if_splits)
  have "ringqPutBlkAdj rq n = Some (rq\<lparr>endp := int e'\<rparr>)"
    using p k len by (auto simp: ringqPutBlkAdj_def Let_def e'_def of_nat_diff split: if_splits)
  moreover have "rq_inv (rq\<lparr>endp := int e'\<rparr>)"
    using i p len by (auto simp: rq_inv_def e'_def split: if_splits)
  moreover have "length (rq_data (rq\<lparr>endp := int e'\<rparr>)) = length (rq_data rq) + k"
    using p len by (auto simp: rq_data_def e'_def nat_diff_distrib' of_nat_diff split: if_splits)
  moreover have "take (length (rq_data rq)) (rq_data (rq\<lparr>endp := int e'\<rparr>)) = rq_data rq"
  proof (cases "s \<le> e")
    case True
    then have d: "rq_data rq = take (e - s) (drop s (buf rq))"
      using p by (simp add: rq_data_def nat_diff_distrib')
    show ?thesis
    proof (cases "e + k < length (buf rq)")
      case True
      then have "rq_data (rq\<lparr>endp := int e'\<rparr>) = take (e + k - s) (drop s (buf rq))"
        using p \<open>s \<le> e\<close> by (simp add: rq_data_def e'_def nat_diff_distrib' nat_int_add)
      then show ?thesis using d p(4) \<open>s \<le> e\<close> by (simp add: min_def)
    next
      case False
      then have "e' < s" using len \<open>s \<le> e\<close> by (simp add: e'_def)
      then have "rq_data (rq\<lparr>endp := int e'\<rparr>) = drop s (buf rq) @ take e' (buf rq)"
        using p by (simp add: rq_data_def)
      then show ?thesis using d p(4) by simp
    qed
  next
    case False
    then have "e + k < s" using len p(3) by arith
    then have "e' = e + k" "e' < s" using p(3) by (simp_all add: e'_def)
    then show ?thesis using False p by (simp add: rq_data_def min_def nat_int_add)
  qed
  ultimately show ?thesis using k by auto
qed

section \<open>The queue as an interface\<close>

text \<open>
  What the clients of a byte queue (the lexer, the socket layer) rely on: a first-in
  first-out sequence of bytes with one-character push back at the front.
\<close>

locale byte_queue =
  fixes inv :: "'q \<Rightarrow> bool"
    and data :: "'q \<Rightarrow> byte list"
    and getc :: "'q \<Rightarrow> ('q \<times> int) option"
    and putc :: "'q \<Rightarrow> byte \<Rightarrow> ('q \<times> int) option"
    and unget :: "'q \<Rightarrow> byte \<Rightarrow> ('q \<times> int) option"
  assumes getc_empty: "inv q \<Longrightarrow> data q = [] \<Longrightarrow> getc q = Some (q, -1)"
    and getc_next: "inv q \<Longrightarrow> data q = c # cs \<Longrightarrow>
      \<exists>q'. getc q = Some (q', c_uchar c) \<and> inv q' \<and> data q' = cs"
    and putc_law: "inv q \<Longrightarrow> \<exists>q' rc. putc q c = Some (q', rc) \<and> inv q' \<and>
      (rc = 0 \<and> data q' = data q @ [c] \<or> rc = -1 \<and> q' = q)"
    and unget_law: "inv q \<Longrightarrow> \<exists>q' rc. unget q c = Some (q', rc) \<and> inv q' \<and>
      (rc = 0 \<and> data q' = c # data q \<or> rc = -1 \<and> q' = q)"

text \<open>Reading up to \<open>n\<close> characters, and writing a string character by character.\<close>

fun read_chars :: "('q \<Rightarrow> ('q \<times> int) option) \<Rightarrow> nat \<Rightarrow> 'q \<Rightarrow> ('q \<times> int list) option" where
  "read_chars g 0 q = Some (q, [])"
| "read_chars g (Suc n) q = do {
     (q1, r) \<leftarrow> g q;
     if r < 0 then Some (q1, [])
     else do { (q2, rs) \<leftarrow> read_chars g n q1; Some (q2, r # rs) } }"

fun write_chars :: "('q \<Rightarrow> byte \<Rightarrow> ('q \<times> int) option) \<Rightarrow> 'q \<Rightarrow> byte list \<Rightarrow> ('q \<times> nat) option" where
  "write_chars p q [] = Some (q, 0)"
| "write_chars p q (c # cs) = do {
     (q1, rc) \<leftarrow> p q c;
     if rc < 0 then Some (q1, 0)
     else do { (q2, n) \<leftarrow> write_chars p q1 cs; Some (q2, Suc n) } }"

context byte_queue
begin

lemma read_chars_prefix:
  "inv q \<Longrightarrow> \<exists>q'. read_chars getc n q = Some (q', map c_uchar (take n (data q))) \<and> inv q' \<and>
     data q' = drop n (data q)"
proof (induction n arbitrary: q)
  case 0
  then show ?case by simp
next
  case (Suc n)
  show ?case
  proof (cases "data q")
    case Nil
    then show ?thesis using getc_empty[OF Suc.prems Nil] Suc.prems by simp
  next
    case (Cons c cs)
    obtain q1 where q1: "getc q = Some (q1, c_uchar c)" "inv q1" "data q1 = cs"
      using getc_next[OF Suc.prems Cons] by blast
    obtain q2 where "read_chars getc n q1 = Some (q2, map c_uchar (take n cs))" "inv q2" "data q2 = drop n cs"
      using Suc.IH[OF q1(2)] q1(3) by auto
    moreover have "\<not> c_uchar c < 0" using c_uchar_range(1)[of c] by linarith
    ultimately show ?thesis using q1 Cons by simp
  qed
qed

lemma write_chars_appends:
  "inv q \<Longrightarrow> \<exists>q' n. write_chars putc q cs = Some (q', n) \<and> inv q' \<and> n \<le> length cs \<and>
     data q' = data q @ take n cs"
proof (induction cs arbitrary: q)
  case Nil
  then show ?case by simp
next
  case (Cons c cs)
  obtain q1 rc where q1: "putc q c = Some (q1, rc)" "inv q1"
    "rc = 0 \<and> data q1 = data q @ [c] \<or> rc = -1 \<and> q1 = q"
    using putc_law[OF Cons.prems] by blast
  obtain q2 n where "write_chars putc q1 cs = Some (q2, n)" "inv q2" "n \<le> length cs"
    "data q2 = data q1 @ take n cs"
    using Cons.IH[OF q1(2)] by blast
  then show ?case using q1 by (cases "rc < 0") auto
qed

lemma unget_getc:
  assumes "inv q" "unget q c = Some (q1, 0)"
  shows "\<exists>q2. getc q1 = Some (q2, c_uchar c) \<and> inv q2 \<and> data q2 = data q"
  using unget_law[OF assms(1), of c] getc_next[of q1 c "data q"] assms(2) by auto

end

interpretation rqi: byte_queue "\<lambda>rq. rq_inv rq \<and> small_heap m" rq_data ringqGetc
    "ringqPutc m" "ringqInsertc m" for m
proof
  fix q c cs
  assume q: "rq_inv q \<and> small_heap m"
  show "rq_data q = [] \<Longrightarrow> ringqGetc q = Some (q, -1)"
    using ringqGetc_spec[of q] q by simp
  show "rq_data q = c # cs \<Longrightarrow> \<exists>q'. ringqGetc q = Some (q', c_uchar c) \<and>
      (rq_inv q' \<and> small_heap m) \<and> rq_data q' = cs"
    using ringqGetc_spec[of q] q by auto
  show "\<exists>q' rc. ringqPutc m q c = Some (q', rc) \<and> (rq_inv q' \<and> small_heap m) \<and>
      (rc = 0 \<and> rq_data q' = rq_data q @ [c] \<or> rc = -1 \<and> q' = q)"
    using ringqPutc_spec[of q m c] q by auto
  show "\<exists>q' rc. ringqInsertc m q c = Some (q', rc) \<and> (rq_inv q' \<and> small_heap m) \<and>
      (rc = 0 \<and> rq_data q' = c # rq_data q \<or> rc = -1 \<and> q' = q)"
    using ringqInsertc_spec[of q m c] q by auto
qed

section \<open>Properties\<close>

text \<open>Environments for the concrete instances: memory without end below 256 MiB, and none.\<close>

definition heap_256M :: balloc_env where
  "heap_256M n = (if n \<le> 2 ^ 28 then Some (\<lambda>_. CHR 0x77) else None)"

definition no_heap :: balloc_env where
  "no_heap n = None"

lemma small_heap_256M: "small_heap heap_256M"
  by (simp add: small_heap_def heap_256M_def)

definition rq_sample :: ringq where
  "rq_sample = \<lparr>buf = ''xyzabcdefghijklm'', servp = 3, endp = 1, endbuf = 16, buflen = 16,
     maxsize = -1, increment = 16\<rparr>"

lemma rq_sample_inv: "rq_inv rq_sample"
  by (auto simp: rq_inv_def rq_sample_def intro!: bexI[of _ 4])

text \<open>
  C25. \<^verbatim>\<open>ringqPutBlk\<close> on a valid queue always returns, touches only memory inside the queue's
  buffers and never overflows an \<^verbatim>\<open>int\<close>; it leaves a valid queue whose contents are the old
  contents followed by the first \<open>n\<close> bytes of the block, where \<open>n\<close> is the returned count; and
  \<open>n\<close> is less than the block's size only when the queue is full and can grow no further.
\<close>

theorem ringqPutBlk_appends:
  assumes "rq_inv rq" and "small_heap m"
  shows "\<exists>rq' n. ringqPutBlk m rq src = Some (rq', n) \<and> rq_inv rq' \<and> 0 \<le> n \<and> n \<le> int (length src) \<and>
     rq_data rq' = rq_data rq @ take (nat n) src \<and>
     (n < int (length src) \<longrightarrow> rq_full m rq' \<and> int (length (rq_data rq')) = buflen rq' - 1)"
  using ringqPutBlk_spec[OF assms, of src] by (auto simp: put_post_def)

theorem ringqPutBlk_appends_witness:
  "\<exists>rq' n. ringqPutBlk heap_256M rq_sample ''0123456789'' = Some (rq', n) \<and> rq_inv rq' \<and> 0 \<le> n \<and> n \<le> int (length ''0123456789'') \<and>
     rq_data rq' = rq_data rq_sample @ take (nat n) ''0123456789'' \<and>
     (n < int (length ''0123456789'') \<longrightarrow> rq_full heap_256M rq' \<and> int (length (rq_data rq')) = buflen rq' - 1)"
  by (rule ringqPutBlk_appends[OF rq_sample_inv small_heap_256M])

text \<open>
  C31. \<^verbatim>\<open>ringqGetBlk\<close> on a valid queue removes and returns exactly the first \<^verbatim>\<open>size\<close> bytes (all of
  them when fewer are held), across the wrap-around, without reading outside the buffer.
\<close>

theorem ringqGetBlk_takes_prefix:
  assumes "rq_inv rq" and "0 \<le> n"
  shows "\<exists>rq'. ringqGetBlk rq n = Some (rq', take (nat n) (rq_data rq)) \<and> rq_inv rq' \<and>
     rq_data rq' = drop (nat n) (rq_data rq)"
  using ringqGetBlk_spec[OF assms] by blast

theorem ringqGetBlk_takes_prefix_witness:
  "\<exists>rq'. ringqGetBlk rq_sample 14 = Some (rq', take (nat 14) (rq_data rq_sample)) \<and> rq_inv rq' \<and>
     rq_data rq' = drop (nat 14) (rq_data rq_sample)"
  by (rule ringqGetBlk_takes_prefix[OF rq_sample_inv]) simp

text \<open>
  C32. \<^verbatim>\<open>ringqGrow\<close> keeps the contents of the queue; when it succeeds the buffer is longer by
  exactly the increment and the increment is multiplied by four (not doubled, as the
  comment in the code says), and it fails only at the size limit or when memory is
  exhausted, leaving the queue as it was.
\<close>

theorem ringqGrow_keeps_contents:
  assumes "rq_inv rq" and "small_heap m"
  shows "\<exists>rq' g. ringqGrow m rq = Some (rq', g) \<and> rq_inv rq' \<and> rq_data rq' = rq_data rq \<and>
     (if g then buflen rq' = buflen rq + increment rq \<and> increment rq' = 4 * increment rq
      else rq' = rq \<and> rq_full m rq)"
  using ringqGrow_total[OF assms] by blast

theorem ringqGrow_keeps_contents_witness:
  "\<exists>rq' g. ringqGrow heap_256M rq_sample = Some (rq', g) \<and> rq_inv rq' \<and> rq_data rq' = rq_data rq_sample \<and>
     (if g then buflen rq' = buflen rq_sample + increment rq_sample \<and> increment rq' = 4 * increment rq_sample
      else rq' = rq_sample \<and> rq_full heap_256M rq_sample)"
  by (rule ringqGrow_keeps_contents[OF rq_sample_inv small_heap_256M])

text \<open>
  C33. First in, first out: characters put one at a time with \<^verbatim>\<open>ringqPutc\<close> into an empty queue
  come back from \<^verbatim>\<open>ringqGetc\<close> in the same order and as values between 0 and 255, up to the
  first one that was refused.
\<close>

theorem ringq_fifo:
  assumes "rq_inv rq" and "small_heap m" and "rq_data rq = []"
  shows "\<exists>rq1 n rq2. write_chars (ringqPutc m) rq cs = Some (rq1, n) \<and> n \<le> length cs \<and>
     read_chars ringqGetc (length cs) rq1 = Some (rq2, map c_uchar (take n cs)) \<and> rq_data rq2 = []"
proof -
  obtain rq1 n where w: "write_chars (ringqPutc m) rq cs = Some (rq1, n)" "rq_inv rq1" "n \<le> length cs"
    "rq_data rq1 = take n cs"
    using rqi.write_chars_appends[OF conjI[OF assms(1,2)], of cs] assms(3) by auto
  obtain rq2 where "read_chars ringqGetc (length cs) rq1 = Some (rq2, map c_uchar (take n cs))"
    "rq_data rq2 = []"
    using rqi.read_chars_prefix[OF conjI[OF w(2) assms(2)], of "length cs"] w(3,4) by auto
  then show ?thesis using w by blast
qed

theorem ringq_fifo_witness:
  "\<exists>rq1 n rq2. write_chars (ringqPutc heap_256M) (rq_sample\<lparr>endp := 3\<rparr>) ''hello'' = Some (rq1, n) \<and> n \<le> length ''hello'' \<and>
     read_chars ringqGetc (length ''hello'') rq1 = Some (rq2, map c_uchar (take n ''hello'')) \<and> rq_data rq2 = []"
proof (rule ringq_fifo[OF _ small_heap_256M])
  show "rq_inv (rq_sample\<lparr>endp := 3\<rparr>)" using rq_sample_inv by (simp add: rq_inv_def rq_sample_def)
  show "rq_data (rq_sample\<lparr>endp := 3\<rparr>) = []" by (simp add: rq_data_def rq_sample_def)
qed

text \<open>
  A character pushed back with \<^verbatim>\<open>ringqInsertc\<close> is the next one \<^verbatim>\<open>ringqGetc\<close> returns, and
  reading it restores the contents: the one-character look-ahead of the script lexer.
\<close>

theorem ringqInsertc_getc:
  assumes "rq_inv rq" and "small_heap m" and "ringqInsertc m rq c = Some (rq1, 0)"
  shows "\<exists>rq2. ringqGetc rq1 = Some (rq2, c_uchar c) \<and> rq_inv rq2 \<and> rq_data rq2 = rq_data rq"
  using rqi.unget_getc[of rq m c rq1] assms by blast

lemma ringqInsertc_sample:
  "ringqInsertc heap_256M rq_sample CHR ''c'' = Some (rq_sample\<lparr>buf := ''xycabcdefghijklm'', servp := 2\<rparr>, 0)"
  by (simp add: ringqInsertc_def rq_sample_def ringqPutBlkMax_def RINGQ_LEN_def mem_write_def)

theorem ringqInsertc_getc_witness:
  "\<exists>rq2. ringqGetc (rq_sample\<lparr>buf := ''xycabcdefghijklm'', servp := 2\<rparr>) = Some (rq2, c_uchar CHR ''c'') \<and> rq_inv rq2 \<and> rq_data rq2 = rq_data rq_sample"
  by (rule ringqInsertc_getc[OF rq_sample_inv small_heap_256M ringqInsertc_sample])

text \<open>
  The limit \<^verbatim>\<open>maxsize\<close> is tested before growing, not after: \<^verbatim>\<open>ringqGrow\<close> can leave a buffer
  larger than the limit the queue was opened with (here 64 bytes for a limit of 40).
\<close>

theorem ringqGrow_exceeds_maxsize:
  "\<exists>rq rq'. rq_inv rq \<and> 0 \<le> maxsize rq \<and> buflen rq \<le> maxsize rq \<and>
     ringqGrow heap_256M rq = Some (rq', True) \<and> maxsize rq' = maxsize rq \<and> maxsize rq' < buflen rq'"
proof -
  define rq where "rq = \<lparr>buf = replicate 32 (CHR 0x00), servp = 0, endp = 0, endbuf = 32, buflen = 32,
     maxsize = 40, increment = 32\<rparr>"
  have i: "rq_inv rq" by (auto simp: rq_def rq_inv_def intro!: bexI[of _ 5])
  obtain rq' g where g: "ringqGrow heap_256M rq = Some (rq', g)" "maxsize rq' = maxsize rq"
    "if g then buflen rq' = buflen rq + increment rq \<and> increment rq' = 4 * increment rq
     else rq' = rq \<and> rq_full heap_256M rq"
    using ringqGrow_total[OF i small_heap_256M] by blast
  have "\<not> rq_full heap_256M rq" by (simp add: rq_full_def rq_def heap_256M_def)
  then have "g" "buflen rq' = buflen rq + increment rq" using g(3) by (auto split: if_splits)
  moreover have "buflen rq = 32" "increment rq = 32" "maxsize rq = 40" by (simp_all add: rq_def)
  ultimately show ?thesis using i g(1,2) by (intro exI[of _ rq] exI[of _ rq']) simp
qed

end
