(* ===== verification/Handles.thy ===== *)
theory Handles
  imports WebsPrelude
begin

text \<open>
  The handle allocator, \<^verbatim>\<open>webs/src/src/h.c\<close>. A handle list is one allocated array of words:
  its length, the number of handles in use, then the handles themselves. In the model the
  two header words are the fields \<open>H_LEN\<close> and \<open>H_USED\<close> and the handles are \<open>slots\<close>, a zero
  word being \<open>None\<close>. The caller's variable \<^verbatim>\<open>*map\<close> is an optional list, \<open>None\<close> the null
  pointer. As in the code, \<^verbatim>\<open>hAlloc\<close> only counts the handle: the caller stores a non-null
  word in its slot.
\<close>

section \<open>State and operations\<close>

record 'a hmap =
  H_LEN :: int
  H_USED :: int
  slots :: "'a option list"

definition H_INCR :: int where "H_INCR = 16"
definition H_OFFSET :: int where "H_OFFSET = 2"

text \<open>The upward scan for the first null handle: \<open>Some None\<close> when there is none.\<close>

fun h_scan_up :: "'a option list \<Rightarrow> int \<Rightarrow> nat \<Rightarrow> int option option" where
  "h_scan_up ss h 0 = Some None"
| "h_scan_up ss h (Suc n) = do {
     v \<leftarrow> mem_read ss h;
     if v = None then Some (Some h) else h_scan_up ss (h + 1) n }"

text \<open>The downward scan for the greatest handle in use, \<open>-1\<close> when there is none.\<close>

fun h_scan_down :: "'a option list \<Rightarrow> nat \<Rightarrow> int option" where
  "h_scan_down ss 0 = Some (-1)"
| "h_scan_down ss (Suc n) = do {
     v \<leftarrow> mem_read ss (int n);
     if v \<noteq> None then Some (int n) else h_scan_down ss n }"

definition hAlloc :: "balloc_env \<Rightarrow> 'a hmap option \<Rightarrow> ('a hmap option \<times> int) option" where
  "hAlloc m map0 =
     (case (case map0 of
              None \<Rightarrow> (if m ((H_INCR + H_OFFSET) * 4) = None then None
                       else Some \<lparr>H_LEN = H_INCR, H_USED = 0, slots = replicate (nat H_INCR) None\<rparr>)
            | Some mp \<Rightarrow> Some mp) of
        None \<Rightarrow> Some (map0, -1)
      | Some mp \<Rightarrow> do {
          let len = H_LEN mp;
          found \<leftarrow> (if H_USED mp < H_LEN mp then h_scan_up (slots mp) 0 (nat len) else Some None);
          (case found of
             Some handle \<Rightarrow> Some (Some (mp\<lparr>H_USED := H_USED mp + 1\<rparr>), handle)
           | None \<Rightarrow>
               (let handle = len; len' = len + H_INCR in
                if m ((len' + H_OFFSET) * 4) = None then Some (Some mp, -1)
                else Some (Some \<lparr>H_LEN = len', H_USED = H_USED mp + 1,
                                  slots = take (nat len) (slots mp) @ replicate (nat H_INCR) None\<rparr>,
                           handle))) })"

definition hFree :: "'a hmap option \<Rightarrow> int \<Rightarrow> ('a hmap option \<times> int) option" where
  "hFree map0 handle =
     (case map0 of
        None \<Rightarrow> None
      | Some mp \<Rightarrow> do {
          ss \<leftarrow> mem_write (slots mp) handle None;
          let mp' = mp\<lparr>slots := ss, H_USED := H_USED mp - 1\<rparr>;
          if H_USED mp' = 0 then Some (None, -1 + 1)
          else do {
            let len = H_LEN mp';
            h \<leftarrow> (if H_USED mp' < H_LEN mp' then h_scan_down ss (nat len) else Some len);
            Some (Some mp', h + 1) } })"

text \<open>
  \<^verbatim>\<open>hAllocEntry\<close>: the entry is the zeroed object \<open>obj\<close>; \<open>mo\<close> is the allocator as the second
  \<^verbatim>\<open>balloc\<close> call finds it. The result is the list, the new \<^verbatim>\<open>*max\<close> and the handle.
\<close>

definition hAllocEntry ::
    "balloc_env \<Rightarrow> balloc_env \<Rightarrow> 'a hmap option \<Rightarrow> int \<Rightarrow> int \<Rightarrow> 'a \<Rightarrow>
       ('a hmap option \<times> int \<times> int) option" where
  "hAllocEntry m mo list max0 sz obj = do {
     (list1, id) \<leftarrow> hAlloc m list;
     if id < 0 then Some (list1, max0, -1)
     else if sz > 0 \<and> mo sz = None then do {
       (list2, _) \<leftarrow> hFree list1 id;
       Some (list2, max0, -1) }
     else do {
       list2 \<leftarrow> (if sz > 0 then
                   (case list1 of
                      None \<Rightarrow> None
                    | Some mp \<Rightarrow> do { ss \<leftarrow> mem_write (slots mp) id (Some obj);
                                       Some (Some (mp\<lparr>slots := ss\<rparr>)) })
                 else Some list1);
       Some (list2, (if id \<ge> max0 then id + 1 else max0), id) } }"

section \<open>Contract\<close>

text \<open>The entry a handle denotes, and the invariant of a list whose handles are all stored.\<close>

definition h_get :: "'a hmap option \<Rightarrow> int \<Rightarrow> 'a option" where
  "h_get map0 h =
     (case map0 of None \<Rightarrow> None
      | Some mp \<Rightarrow> if 0 \<le> h \<and> h < int (length (slots mp)) then slots mp ! nat h else None)"

text \<open>The array access \<^verbatim>\<open>map[h]\<close> itself: it faults on a null list and outside the list.\<close>

definition h_entry :: "'a hmap option \<Rightarrow> int \<Rightarrow> 'a option option" where
  "h_entry map0 h = do { mp \<leftarrow> map0; mem_read (slots mp) h }"

lemma h_entry_get: "h_get map0 h = Some x \<Longrightarrow> h_entry map0 h = Some (Some x)"
  by (auto simp: h_get_def h_entry_def mem_read_def split: option.splits if_splits)

definition h_count :: "'a option list \<Rightarrow> int" where
  "h_count ss = int (length (filter (\<lambda>v. v \<noteq> None) ss))"

definition h_ok :: "'a hmap \<Rightarrow> bool" where
  "h_ok mp \<longleftrightarrow> H_LEN mp = int (length (slots mp)) \<and> H_INCR \<le> H_LEN mp \<and>
     H_USED mp = h_count (slots mp)"

definition h_inv :: "'a hmap option \<Rightarrow> bool" where
  "h_inv map0 \<longleftrightarrow> (case map0 of None \<Rightarrow> True | Some mp \<Rightarrow> h_ok mp \<and> 0 < H_USED mp)"

text \<open>Storing the caller's word in a slot.\<close>

definition h_store :: "'a hmap option \<Rightarrow> int \<Rightarrow> 'a \<Rightarrow> 'a hmap option" where
  "h_store map0 h x = map_option (\<lambda>mp. mp\<lparr>slots := (slots mp)[nat h := Some x]\<rparr>) map0"

lemma h_scan_up_spec:
  "h + int n = int (length ss) \<Longrightarrow> 0 \<le> h \<Longrightarrow>
     (case h_scan_up ss h n of
        None \<Rightarrow> False
      | Some None \<Rightarrow> \<forall>i. h \<le> i \<and> i < int (length ss) \<longrightarrow> ss ! nat i \<noteq> None
      | Some (Some k) \<Rightarrow> h \<le> k \<and> k < int (length ss) \<and> ss ! nat k = None \<and>
                          (\<forall>i. h \<le> i \<and> i < k \<longrightarrow> ss ! nat i \<noteq> None))"
proof (induction n arbitrary: h)
  case 0
  then show ?case by auto
next
  case (Suc n)
  show ?case
  proof (cases "ss ! nat h")
    case None
    then show ?thesis using Suc.prems by (auto simp: mem_read_def)
  next
    case (Some v)
    have "h_scan_up ss h (Suc n) = h_scan_up ss (h + 1) n"
      using Suc.prems Some by (simp add: mem_read_def)
    moreover have "\<And>i. h \<le> i \<Longrightarrow> i \<noteq> h \<Longrightarrow> h + 1 \<le> i" by simp
    ultimately show ?thesis
      using Suc.IH[of "h + 1"] Suc.prems Some
      by (auto split: option.splits) (metis option.distinct(1) order_le_less zless_iff_Suc_zadd
          zle_add1_eq_le add1_zle_eq order.not_eq_order_implies_strict)+
  qed
qed

lemma h_scan_down_spec:
  "n \<le> length ss \<Longrightarrow> \<exists>k. h_scan_down ss n = Some k \<and> -1 \<le> k \<and> k < int n \<and>
     (0 \<le> k \<longrightarrow> ss ! nat k \<noteq> None) \<and> (\<forall>i<n. k < int i \<longrightarrow> ss ! i = None)"
proof (induction n)
  case 0
  then show ?case by simp
next
  case (Suc n)
  then obtain k where k: "h_scan_down ss n = Some k" "-1 \<le> k" "k < int n"
    "0 \<le> k \<longrightarrow> ss ! nat k \<noteq> None" "\<forall>i<n. k < int i \<longrightarrow> ss ! i = None"
    by auto
  show ?case
  proof (cases "ss ! n = None")
    case True
    then show ?thesis using k Suc.prems by (auto simp: mem_read_def less_Suc_eq)
  next
    case False
    then show ?thesis using Suc.prems by (auto simp: mem_read_def)
  qed
qed

lemma h_count_append [simp]: "h_count (ss @ ts) = h_count ss + h_count ts"
  by (simp add: h_count_def)

lemma h_count_Cons [simp]: "h_count (v # ss) = (if v = None then 0 else 1) + h_count ss"
  by (simp add: h_count_def)

lemma h_count_update:
  assumes "i < length ss"
  shows "h_count (ss[i := v]) =
     h_count ss - (if ss ! i = None then 0 else 1) + (if v = None then 0 else 1)"
proof -
  have "h_count ss = h_count (take i ss @ ss ! i # drop (Suc i) ss)"
    using id_take_nth_drop[OF assms] by simp
  then show ?thesis by (simp add: upd_conv_take_nth_drop[OF assms] del: append_take_drop_id)
qed

lemma h_count_nulls [simp]: "h_count (replicate n None) = 0"
  by (simp add: h_count_def)

lemma h_count_le: "h_count ss \<le> int (length ss)"
  by (simp add: h_count_def)

lemma h_count_less: "h_count ss < int (length ss) \<Longrightarrow> \<exists>i<length ss. ss ! i = None"
proof (rule ccontr)
  assume "h_count ss < int (length ss)" "\<not> (\<exists>i<length ss. ss ! i = None)"
  then have "filter (\<lambda>v. v \<noteq> None) ss = ss" by (intro filter_True) (auto simp: in_set_conv_nth)
  then show False using \<open>h_count ss < int (length ss)\<close> by (simp add: h_count_def)
qed

lemma h_count_pos: "0 < h_count ss \<longleftrightarrow> (\<exists>i<length ss. ss ! i \<noteq> None)"
proof -
  have "0 < h_count ss \<longleftrightarrow> (\<exists>v\<in>set ss. v \<noteq> None)" by (auto simp: h_count_def filter_empty_conv)
  then show ?thesis by (metis in_set_conv_nth)
qed

section \<open>Allocation and release\<close>

lemma h_ok_fresh_list:
  "h_ok \<lparr>H_LEN = H_INCR, H_USED = 0, slots = replicate (nat H_INCR) None\<rparr>"
  by (simp add: h_ok_def H_INCR_def)

text \<open>
  The state between \<^verbatim>\<open>hAlloc\<close> and the caller's store: handle \<open>h\<close> is counted, its slot is
  still null, and every handle denotes what it did before.
\<close>

definition h_reserved :: "'a hmap option \<Rightarrow> 'a hmap \<Rightarrow> int \<Rightarrow> bool" where
  "h_reserved map0 mp h \<longleftrightarrow>
     0 \<le> h \<and> h < int (length (slots mp)) \<and> slots mp ! nat h = None \<and>
     (\<forall>i. 0 \<le> i \<and> i < h \<longrightarrow> h_get map0 i \<noteq> None) \<and>
     H_INCR \<le> H_LEN mp \<and> H_LEN mp = int (length (slots mp)) \<and>
     H_USED mp = h_count (slots mp) + 1 \<and> h_get (Some mp) = h_get map0"

lemma h_reserved_slot:
  "h_reserved map0 mp h \<Longrightarrow> 0 \<le> h \<and> h < int (length (slots mp)) \<and> slots mp ! nat h = None"
  by (simp add: h_reserved_def)

lemma h_reserved_get: "h_reserved map0 mp h \<Longrightarrow> h_get (Some mp) = h_get map0"
  by (simp add: h_reserved_def)

lemma h_reserved_free:
  assumes "h_reserved map0 mp h"
  shows "h_get map0 h = None"
proof -
  have "h_get (Some mp) h = None" using h_reserved_slot[OF assms] by (simp add: h_get_def)
  then show ?thesis by (simp add: h_reserved_get[OF assms])
qed

lemma h_count_full: "h_count ss = int (length ss) \<Longrightarrow> i < length ss \<Longrightarrow> ss ! i \<noteq> None"
  using h_count_update[of i ss "Some undefined"] h_count_le[of "ss[i := Some undefined]"]
  by (auto split: if_splits)

text \<open>The allocator can refuse a request. Allocating from an existing list: a null slot is counted, or the list is extended.\<close>

definition refuses :: "balloc_env \<Rightarrow> bool" where
  "refuses m \<longleftrightarrow> (\<exists>n. m n = None)"

lemma refusesI: "m n = None \<Longrightarrow> refuses m"
  by (auto simp: refuses_def)

lemma hAlloc_list:
  assumes ok: "h_ok mp"
  shows "\<exists>mp' h. hAlloc m (Some mp) = Some (Some mp', h) \<and>
     (h = -1 \<and> mp' = mp \<and> refuses m \<or> h_reserved (Some mp) mp' h)"
proof -
  have len: "H_LEN mp = int (length (slots mp))" and used: "H_USED mp = h_count (slots mp)"
    and inc: "H_INCR \<le> H_LEN mp"
    using ok by (auto simp: h_ok_def)
  note up = h_scan_up_spec[of 0 "length (slots mp)" "slots mp"]
  show ?thesis
  proof (cases "H_USED mp < H_LEN mp")
    case True
    then obtain i where "i < length (slots mp)" "slots mp ! i = None"
      using h_count_less[of "slots mp"] len used by auto
    then obtain k where k: "h_scan_up (slots mp) 0 (length (slots mp)) = Some (Some k)" "0 \<le> k"
      "k < int (length (slots mp))" "slots mp ! nat k = None"
      "\<forall>i. 0 \<le> i \<and> i < k \<longrightarrow> slots mp ! nat i \<noteq> None"
      using up by (auto split: option.splits dest!: spec[of _ "int i"])
    then have "hAlloc m (Some mp) = Some (Some (mp\<lparr>H_USED := H_USED mp + 1\<rparr>), k)"
      using True len by (simp add: hAlloc_def Let_def)
    moreover have "h_reserved (Some mp) (mp\<lparr>H_USED := H_USED mp + 1\<rparr>) k"
      using k len used inc by (auto simp: h_reserved_def h_get_def)
    ultimately show ?thesis by blast
  next
    case False
    then have full: "h_count (slots mp) = int (length (slots mp))"
      using len used h_count_le[of "slots mp"] by simp
    show ?thesis
    proof (cases "m ((H_LEN mp + H_INCR + H_OFFSET) * 4) = None")
      case True
      then have "hAlloc m (Some mp) = Some (Some mp, -1)"
        using False by (simp add: hAlloc_def Let_def)
      then show ?thesis using refusesI[of m, OF True] by blast
    next
      case room: False
      define mp' where "mp' = \<lparr>H_LEN = H_LEN mp + H_INCR, H_USED = H_USED mp + 1,
          slots = slots mp @ replicate (nat H_INCR) None\<rparr>"
      have "hAlloc m (Some mp) = Some (Some mp', H_LEN mp)"
        using False room len by (simp add: hAlloc_def Let_def mp'_def)
      moreover have "h_get (Some mp') = h_get (Some mp)"
        by (auto simp: h_get_def mp'_def nth_append fun_eq_iff)
      moreover have "\<forall>i. 0 \<le> i \<and> i < H_LEN mp \<longrightarrow> h_get (Some mp) i \<noteq> None"
        using h_count_full[OF full] len by (auto simp: h_get_def nat_less_iff)
      ultimately have "hAlloc m (Some mp) = Some (Some mp', H_LEN mp) \<and> h_reserved (Some mp) mp' (H_LEN mp)"
        using len used inc by (auto simp: h_reserved_def mp'_def H_INCR_def nth_append)
      then show ?thesis by blast
    qed
  qed
qed

lemma hAlloc_spec:
  assumes inv: "h_inv map0"
  shows "\<exists>map1 h. hAlloc m map0 = Some (map1, h) \<and>
     (h = -1 \<and> map1 = map0 \<and> refuses m \<or> (\<exists>mp. map1 = Some mp \<and> h_reserved map0 mp h))"
proof (cases map0)
  case (Some mp)
  then have "h_ok mp" using inv by (simp add: h_inv_def)
  then show ?thesis using hAlloc_list[of mp m] Some by blast
next
  case None
  show ?thesis
  proof (cases "m ((H_INCR + H_OFFSET) * 4) = None")
    case True
    then show ?thesis using None refusesI[of m, OF True] by (simp add: hAlloc_def)
  next
    case False
    define mp where "mp = \<lparr>H_LEN = H_INCR, H_USED = 1, slots = replicate (nat H_INCR) (None :: 'a option)\<rparr>"
    have "h_scan_up (replicate 16 (None :: 'a option)) 0 16 = Some (Some 0)"
      by (simp add: numeral_eq_Suc mem_read_def)
    then have "hAlloc m map0 = Some (Some mp, 0)"
      using False None by (simp add: hAlloc_def mp_def Let_def H_INCR_def)
    moreover have "h_get (Some mp) = h_get map0"
      using None by (auto simp: h_get_def mp_def fun_eq_iff nat_less_iff)
    ultimately have "hAlloc m map0 = Some (Some mp, 0) \<and> h_reserved map0 mp 0"
      by (auto simp: mp_def H_INCR_def h_reserved_def)
    then show ?thesis by blast
  qed
qed

lemma h_store_reserved:
  assumes "h_reserved map0 mp h"
  shows "h_inv (h_store (Some mp) h x) \<and> h_get (h_store (Some mp) h x) = (h_get map0)(h \<mapsto> x)"
proof -
  have c: "h_count ((slots mp)[nat h := Some x]) = h_count (slots mp) + 1"
    using h_count_update[of "nat h" "slots mp" "Some x"] assms by (auto simp: h_reserved_def)
  have nn: "0 \<le> h_count (slots mp)" by (simp add: h_count_def)
  have "h_inv (h_store (Some mp) h x)"
    using assms c nn by (simp add: h_inv_def h_ok_def h_store_def h_reserved_def)
  moreover have "h_get (h_store (Some mp) h x) = (h_get (Some mp))(h \<mapsto> x)"
    using h_reserved_slot[OF assms] by (auto simp: h_get_def h_store_def fun_eq_iff nth_list_update)
  ultimately show ?thesis by (simp add: h_reserved_get[OF assms])
qed

text \<open>Storing in a handle that is in use.\<close>

lemma h_store_inuse:
  assumes "h_inv map0" "h_get map0 h = Some y"
  shows "h_inv (h_store map0 h x)" and "h_get (h_store map0 h x) = (h_get map0)(h \<mapsto> x)"
proof -
  obtain mp where mp: "map0 = Some mp" "0 \<le> h" "h < int (length (slots mp))" "slots mp ! nat h = Some y" "h_ok mp"
    "0 < H_USED mp"
    using assms by (auto simp: h_get_def h_inv_def split: option.splits if_splits)
  have "h_count ((slots mp)[nat h := Some x]) = h_count (slots mp)"
    using mp h_count_update[of "nat h" "slots mp" "Some x"] by simp
  then show "h_inv (h_store map0 h x)" using mp by (simp add: h_inv_def h_ok_def h_store_def)
  show "h_get (h_store map0 h x) = (h_get map0)(h \<mapsto> x)"
    using mp by (auto simp: h_get_def h_store_def fun_eq_iff nth_list_update)
qed

lemma hFree_spec:
  assumes "H_LEN mp = int (length (slots mp))" "H_INCR \<le> H_LEN mp" "0 \<le> h" "h < int (length (slots mp))"
    and used: "H_USED mp = h_count ((slots mp)[nat h := None]) + 1"
  shows "\<exists>map1 r. hFree (Some mp) h = Some (map1, r) \<and> h_inv map1 \<and>
     h_get map1 = (h_get (Some mp))(h := None) \<and> 0 \<le> r \<and> (\<forall>i. r \<le> i \<longrightarrow> h_get map1 i = None) \<and>
     (0 < r \<longrightarrow> h_get map1 (r - 1) \<noteq> None)"
proof -
  define ss where "ss = (slots mp)[nat h := None]"
  define mp' where "mp' = mp\<lparr>slots := ss, H_USED := H_USED mp - 1\<rparr>"
  have l: "length ss = length (slots mp)" by (simp add: ss_def)
  have u: "H_USED mp' = h_count ss" using used by (simp add: mp'_def ss_def)
  have w: "mem_write (slots mp) h None = Some ss" using assms by (simp add: mem_write_def ss_def)
  have g: "h_get (Some mp') = (h_get (Some mp))(h := None)"
    using assms by (auto simp: h_get_def mp'_def ss_def fun_eq_iff nth_list_update)
  note leq = h_count_le[of ss]
  show ?thesis
  proof (cases "H_USED mp' = 0")
    case True
    then have "hFree (Some mp) h = Some (None, 0)" using w by (simp add: hFree_def mp'_def Let_def)
    moreover have "h_get (Some mp') i = None" for i
      using True u h_count_pos[of ss] by (auto simp: h_get_def mp'_def)
    then have "h_get None = (h_get (Some mp))(h := None)" using g by (auto simp: h_get_def fun_eq_iff)
    ultimately show ?thesis by (simp add: h_inv_def h_get_def)
  next
    case False
    obtain k where k: "h_scan_down ss (length ss) = Some k" "-1 \<le> k" "k < int (length ss)"
      "0 \<le> k \<longrightarrow> ss ! nat k \<noteq> None" "\<forall>i<length ss. k < int i \<longrightarrow> ss ! i = None"
      using h_scan_down_spec[of "length ss" ss] by auto
    have "ss ! nat h = None" using assms by (simp add: ss_def)
    then have "h_count ss \<noteq> int (length ss)"
      using h_count_update[of "nat h" ss "Some undefined"] h_count_le[of "ss[nat h := Some undefined]"]
        assms l by simp
    then have "H_USED mp' < H_LEN mp'" using leq u assms l by (simp add: mp'_def)
    then have "hFree (Some mp) h = Some (Some mp', k + 1)"
      using False w k(1) assms l by (simp add: hFree_def mp'_def Let_def)
    moreover have "h_inv (Some mp')"
      using assms l u False by (auto simp: h_inv_def h_ok_def mp'_def h_count_def)
    moreover have "\<forall>i. k + 1 \<le> i \<longrightarrow> h_get (Some mp') i = None"
      using k(2,5) by (auto simp: h_get_def mp'_def nat_less_iff)
    moreover have "0 < k + 1 \<longrightarrow> h_get (Some mp') k \<noteq> None"
      using k(3,4) by (auto simp: h_get_def mp'_def)
    ultimately show ?thesis using g k(2) by auto
  qed
qed

section \<open>The handle table interface\<close>

text \<open>
  What the users of handles (symbol tables, database tables and rows) rely on: allocating
  gives the lowest free handle and storing into it changes no other entry; freeing removes
  one entry and reports one past the greatest handle still in use.
\<close>

locale handle_table =
  fixes inv :: "'t \<Rightarrow> bool"
    and get :: "'t \<Rightarrow> int \<Rightarrow> 'a option"
    and alloc :: "'t \<Rightarrow> ('t \<times> int) option"
    and store :: "'t \<Rightarrow> int \<Rightarrow> 'a \<Rightarrow> 't"
    and free :: "'t \<Rightarrow> int \<Rightarrow> ('t \<times> int) option"
    and full :: bool
  assumes alloc_law: "inv t \<Longrightarrow> \<exists>t1 h. alloc t = Some (t1, h) \<and>
      (h = -1 \<and> t1 = t \<and> full \<or>
       0 \<le> h \<and> get t h = None \<and> (\<forall>i. 0 \<le> i \<and> i < h \<longrightarrow> get t i \<noteq> None) \<and>
       (\<forall>x. inv (store t1 h x) \<and> get (store t1 h x) = (get t)(h \<mapsto> x)))"
    and free_law: "inv t \<Longrightarrow> get t h = Some x \<Longrightarrow> \<exists>t1 r. free t h = Some (t1, r) \<and> inv t1 \<and>
      get t1 = (get t)(h := None) \<and> 0 \<le> r \<and> (\<forall>i. r \<le> i \<longrightarrow> get t1 i = None) \<and>
      (0 < r \<longrightarrow> get t1 (r - 1) \<noteq> None)"
begin

lemma store_then_free:
  assumes "inv t" "alloc t = Some (t1, h)" "0 \<le> h"
  shows "\<exists>t2 r. free (store t1 h x) h = Some (t2, r) \<and> inv t2 \<and> get t2 = get t"
proof -
  have s: "inv (store t1 h x)" "get (store t1 h x) = (get t)(h \<mapsto> x)" "get t h = None"
    using alloc_law[OF assms(1)] assms(2,3) by auto
  obtain t2 r where "free (store t1 h x) h = Some (t2, r)" "inv t2" "get t2 = (get (store t1 h x))(h := None)"
    using free_law[OF s(1), of h x] s(2) by auto
  then show ?thesis using s(2,3) by auto
qed

lemma alloc_reuses_freed:
  assumes "inv t" "get t h = Some x" "free t h = Some (t1, r)" "alloc t1 = Some (t2, h2)" "0 \<le> h2"
  shows "h2 \<le> h \<or> h < 0"
proof (rule ccontr)
  assume "\<not> (h2 \<le> h \<or> h < 0)"
  then have h: "0 \<le> h \<and> h < h2" by simp
  have t1: "inv t1" "get t1 = (get t)(h := None)" using free_law[OF assms(1,2)] assms(3) by auto
  have "\<forall>i. 0 \<le> i \<and> i < h2 \<longrightarrow> get t1 i \<noteq> None" using alloc_law[OF t1(1)] assms(4,5) by auto
  then have "get t1 h \<noteq> None" using h by blast
  then show False using t1(2) by simp
qed

end

interpretation hm: handle_table h_inv h_get "hAlloc m" h_store hFree "refuses m" for m
proof
  fix t :: "'a hmap option"
  assume inv: "h_inv t"
  obtain map1 h where r: "hAlloc m t = Some (map1, h)"
    "h = -1 \<and> map1 = t \<and> refuses m \<or> (\<exists>mp. map1 = Some mp \<and> h_reserved t mp h)"
    using hAlloc_spec[OF inv] by blast
  have "0 \<le> h \<and> h_get t h = None \<and> (\<forall>i. 0 \<le> i \<and> i < h \<longrightarrow> h_get t i \<noteq> None) \<and>
       (\<forall>x. h_inv (h_store map1 h x) \<and> h_get (h_store map1 h x) = (h_get t)(h \<mapsto> x))"
    if "map1 = Some mp" "h_reserved t mp h" for mp
    using h_reserved_free[OF that(2)] h_store_reserved[OF that(2)] that by (simp add: h_reserved_def)
  then show "\<exists>t1 h. hAlloc m t = Some (t1, h) \<and>
      (h = -1 \<and> t1 = t \<and> refuses m \<or>
       0 \<le> h \<and> h_get t h = None \<and> (\<forall>i. 0 \<le> i \<and> i < h \<longrightarrow> h_get t i \<noteq> None) \<and>
       (\<forall>x. h_inv (h_store t1 h x) \<and> h_get (h_store t1 h x) = (h_get t)(h \<mapsto> x)))"
    using r by blast
next
  fix t :: "'a hmap option" and h x
  assume inv: "h_inv t" and g: "h_get t h = Some x"
  then obtain mp where mp: "t = Some mp" "0 \<le> h" "h < int (length (slots mp))" "slots mp ! nat h = Some x" "h_ok mp"
    by (auto simp: h_get_def h_inv_def split: option.splits if_splits)
  have "H_USED mp = h_count ((slots mp)[nat h := None]) + 1"
    using mp h_count_update[of "nat h" "slots mp" None] by (simp add: h_ok_def)
  then show "\<exists>t1 r. hFree t h = Some (t1, r) \<and> h_inv t1 \<and>
      h_get t1 = (h_get t)(h := None) \<and> 0 \<le> r \<and> (\<forall>i. r \<le> i \<longrightarrow> h_get t1 i = None) \<and>
      (0 < r \<longrightarrow> h_get t1 (r - 1) \<noteq> None)"
    using hFree_spec[of mp h] mp by (simp add: h_ok_def)
qed

lemma hAllocEntry_spec:
  assumes inv: "h_inv lst" and sz: "0 < sz"
  shows "\<exists>lst' max' id. hAllocEntry m mo lst max0 sz obj = Some (lst', max', id) \<and> h_inv lst' \<and>
     (id = -1 \<and> max' = max0 \<and> h_get lst' = h_get lst \<and> (refuses m \<or> refuses mo) \<or>
      0 \<le> id \<and> h_get lst id = None \<and> h_get lst' = (h_get lst)(id \<mapsto> obj) \<and>
        max' = max max0 (id + 1) \<and> (\<forall>i. 0 \<le> i \<and> i < id \<longrightarrow> h_get lst i \<noteq> None))"
proof -
  obtain l1 id where a: "hAlloc m lst = Some (l1, id)"
    "id = -1 \<and> l1 = lst \<and> refuses m \<or> (\<exists>mp. l1 = Some mp \<and> h_reserved lst mp id)"
    using hAlloc_spec[OF inv] by blast
  show ?thesis
  proof (cases "id < 0")
    case True
    then show ?thesis using a inv by (auto simp: hAllocEntry_def h_reserved_def)
  next
    case False
    with a(2) obtain mp where res: "l1 = Some mp" "h_reserved lst mp id" by auto
    have mp: "l1 = Some mp" "H_INCR \<le> H_LEN mp" "H_LEN mp = int (length (slots mp))"
      "id < int (length (slots mp))" "slots mp ! nat id = None" "H_USED mp = h_count (slots mp) + 1"
      "h_get (Some mp) = h_get lst" "h_get lst id = None" "\<forall>i. 0 \<le> i \<and> i < id \<longrightarrow> h_get lst i \<noteq> None"
      using res h_reserved_free[OF res(2)] by (simp_all add: h_reserved_def)
    have id0: "0 \<le> id" using False by simp
    show ?thesis
    proof (cases "mo sz = None")
      case True
      have "H_USED mp = h_count ((slots mp)[nat id := None]) + 1"
        using mp(5,6) h_count_update[of "nat id" "slots mp" None] mp(4) id0 by simp
      then obtain l2 r where f: "hFree (Some mp) id = Some (l2, r)" "h_inv l2"
        "h_get l2 = (h_get (Some mp))(id := None)"
        using hFree_spec[OF mp(3,2) id0 mp(4)] by blast
      then have "h_get l2 = h_get lst" using mp(7,8) by (simp add: fun_eq_iff)
      then show ?thesis using a(1) mp(1) False True sz f refusesI[of mo, OF True] by (simp add: hAllocEntry_def)
    next
      case room: False
      have st: "h_store l1 id obj = Some (mp\<lparr>slots := (slots mp)[nat id := Some obj]\<rparr>)"
        using mp(1) by (simp add: h_store_def)
      have "h_inv (h_store l1 id obj)" "h_get (h_store l1 id obj) = (h_get lst)(id \<mapsto> obj)"
        using h_store_reserved[OF res(2)] res(1) by simp_all
      moreover have "hAllocEntry m mo lst max0 sz obj =
          Some (h_store l1 id obj, (if id \<ge> max0 then id + 1 else max0), id)"
        using a(1) mp(1,4) False room sz id0 st by (auto simp: hAllocEntry_def mem_write_def)
      ultimately show ?thesis using mp(8,9) id0 by auto
    qed
  qed
qed

section \<open>Properties\<close>

definition h_sample :: "nat hmap option" where
  "h_sample = Some \<lparr>H_LEN = 16, H_USED = 2, slots = [Some 7, None, Some 9] @ replicate 13 None\<rparr>"

lemma h_sample_inv: "h_inv h_sample"
  by (simp add: h_inv_def h_ok_def h_sample_def H_INCR_def)

text \<open>
  \<^verbatim>\<open>hAlloc\<close> on a well-formed handle list (or the null list) never reads outside the list;
  it either reports -1 and changes nothing, which happens only when an allocation is refused, or returns the lowest handle that is free, and
  once the caller stores a word there the list is well-formed again and no other handle
  has changed, also when the list was extended by a chunk of sixteen.
\<close>

theorem hAlloc_lowest_free:
  assumes "h_inv map0"
  shows "\<exists>map1 h. hAlloc m map0 = Some (map1, h) \<and>
     (h = -1 \<and> map1 = map0 \<and> refuses m \<or>
      0 \<le> h \<and> h_get map0 h = None \<and> (\<forall>i. 0 \<le> i \<and> i < h \<longrightarrow> h_get map0 i \<noteq> None) \<and>
      (\<forall>x. h_inv (h_store map1 h x) \<and> h_get (h_store map1 h x) = (h_get map0)(h \<mapsto> x)))"
  by (rule hm.alloc_law[OF assms])

theorem hAlloc_lowest_free_witness:
  "\<exists>map1 h. hAlloc (\<lambda>_. None) h_sample = Some (map1, h) \<and>
     (h = -1 \<and> map1 = h_sample \<and> refuses (\<lambda>_. None) \<or>
      0 \<le> h \<and> h_get h_sample h = None \<and> (\<forall>i. 0 \<le> i \<and> i < h \<longrightarrow> h_get h_sample i \<noteq> None) \<and>
      (\<forall>x. h_inv (h_store map1 h x) \<and> h_get (h_store map1 h x) = (h_get h_sample)(h \<mapsto> x)))"
  by (rule hAlloc_lowest_free[OF h_sample_inv])

text \<open>
  \<^verbatim>\<open>hFree\<close> of a handle in use clears that handle and no other, keeps the list well-formed
  (or releases it with its last handle) and returns one more than the greatest handle
  still in use, zero when there is none.
\<close>

theorem hFree_returns_max:
  assumes "h_inv map0" and "h_get map0 h = Some x"
  shows "\<exists>map1 r. hFree map0 h = Some (map1, r) \<and> h_inv map1 \<and> h_get map1 = (h_get map0)(h := None) \<and>
     0 \<le> r \<and> (\<forall>i. r \<le> i \<longrightarrow> h_get map1 i = None) \<and> (0 < r \<longrightarrow> h_get map1 (r - 1) \<noteq> None)"
  by (rule hm.free_law[OF assms])

theorem hFree_returns_max_witness:
  "\<exists>map1 r. hFree h_sample 2 = Some (map1, r) \<and> h_inv map1 \<and> h_get map1 = (h_get h_sample)(2 := None) \<and>
     0 \<le> r \<and> (\<forall>i. r \<le> i \<longrightarrow> h_get map1 i = None) \<and> (0 < r \<longrightarrow> h_get map1 (r - 1) \<noteq> None)"
  by (rule hFree_returns_max[OF h_sample_inv, of 2 9]) (simp add: h_sample_def h_get_def)

end
