(* ===== verification/Symtab.thy ===== *)
theory Symtab
  imports Handles
begin

text \<open>
  Generic values and symbol tables: \<^verbatim>\<open>webs/src/src/value.c\<close>, \<^verbatim>\<open>sym.c\<close>, the string duplication of
  \<^verbatim>\<open>balloc.c\<close> and the request variables of \<^verbatim>\<open>webs.c\<close> that are built on them. A daisy chain
  of \<^verbatim>\<open>sym_t\<close> nodes is the list of its nodes; a hash table is the list of its chains. The
  table list is the handle list of theory \<open>Handles\<close>.

  Where the code allocates, a boolean argument says whether the allocation succeeds. A copy
  of a string is not checked for success in the code (\<^verbatim>\<open>strcpy\<close> into the result of
  \<^verbatim>\<open>malloc\<close>), so a failed copy is a fault (\<open>None\<close>).
\<close>

section \<open>Values\<close>

datatype vtype = Vundefined | Vbyteint | Vshortint | Vinteger | Vhex | Vpercent | Voctal | Vbig
  | Vflag | Vfloating | Vstring | Vbytes | Vsymbol | Verrmsg

datatype vunion = UInteger int | UString "cstring option"

record value_t =
  val_of :: vunion
  vtype_of :: vtype
  valid :: bool
  allocated :: bool

definition VALUE_ALLOCATE :: int where "VALUE_ALLOCATE = 1"

text \<open>\<^verbatim>\<open>bstrdup\<close>: the copy, the empty string for a null pointer.\<close>

definition bstrdup :: "bool \<Rightarrow> cstring option \<Rightarrow> cstring option" where
  "bstrdup ok s = (if ok then Some (case s of None \<Rightarrow> [] | Some t \<Rightarrow> t) else None)"

definition valueInteger :: "int \<Rightarrow> value_t" where
  "valueInteger v = \<lparr>val_of = UInteger v, vtype_of = Vinteger, valid = True, allocated = False\<rparr>"

definition valueString :: "bool \<Rightarrow> cstring option \<Rightarrow> int \<Rightarrow> value_t option" where
  "valueString dup s flags =
     (if flags mod 2 = VALUE_ALLOCATE then do {
        t \<leftarrow> bstrdup dup s;
        Some \<lparr>val_of = UString (Some t), vtype_of = Vstring, valid = True, allocated = True\<rparr> }
      else Some \<lparr>val_of = UString s, vtype_of = Vstring, valid = True, allocated = False\<rparr>)"

definition valueFree :: "value_t \<Rightarrow> value_t" where
  "valueFree v = v\<lparr>vtype_of := Vundefined, valid := False, allocated := False\<rparr>"

text \<open>Reading \<^verbatim>\<open>v.value.string\<close> of a string value; a null or mistyped pointer faults when used.\<close>

definition value_string :: "value_t \<Rightarrow> cstring option" where
  "value_string v = (case val_of v of UString s \<Rightarrow> s | UInteger _ \<Rightarrow> None)"

section \<open>Hashing\<close>

record sym_t =
  name :: value_t
  content :: value_t
  arg :: int

record sym_tabent =
  inuse :: int
  hash_size :: int
  hash_table :: "sym_t list list"

text \<open>
  The sum of \<^verbatim>\<open>hashIndex\<close>: each character is shifted by a multiple of seven that is kept below
  24 bits and added modulo $2^{32}$. The flag is the signedness of \<^verbatim>\<open>char\<close>.
\<close>

fun hash_sum :: "bool \<Rightarrow> cstring \<Rightarrow> nat \<Rightarrow> 32 word \<Rightarrow> 32 word" where
  "hash_sum sc [] i sm = sm"
| "hash_sum sc (c # cs) i sm =
     hash_sum sc cs ((i + 7) mod (32 - 8)) (sm + push_bit i (of_int (c_char sc c)))"

definition hashIndex :: "bool \<Rightarrow> sym_tabent \<Rightarrow> cstring \<Rightarrow> int" where
  "hashIndex sc tp nm = uint (hash_sum sc nm 0 0) mod hash_size tp"

text \<open>The loop of \<^verbatim>\<open>isPrime\<close>, counting \<open>i\<close> up to \<open>mx\<close>, and of \<^verbatim>\<open>calcPrime\<close>, counting down.\<close>

function isPrime_loop :: "int \<Rightarrow> int \<Rightarrow> int \<Rightarrow> bool" where
  "isPrime_loop n mx i =
     (if i \<le> mx then (if n mod i = 0 then False else isPrime_loop n mx (i + 1)) else True)"
  by pat_completeness auto
termination by (relation "measure (\<lambda>(n, mx, i). nat (mx + 1 - i))") auto

declare isPrime_loop.simps [simp del]

definition isPrime :: "int \<Rightarrow> bool" where
  "isPrime n = isPrime_loop n (n div 2) 2"

function calcPrime :: "int \<Rightarrow> int" where
  "calcPrime count = (if count > 0 then (if isPrime count then count else calcPrime (count - 1)) else 1)"
  by pat_completeness auto
termination by (relation "measure nat") auto

declare calcPrime.simps [simp del]

section \<open>The table list\<close>

record sym_state =
  sym :: "sym_tabent hmap option"
  symMax :: int
  symOpenCount :: int
  htIndex :: int
  nextp :: "sym_t list"

definition symSubOpen :: "sym_state \<Rightarrow> sym_state \<times> int" where
  "symSubOpen st =
     (let st1 = st\<lparr>symOpenCount := symOpenCount st + 1\<rparr>
      in (if symOpenCount st1 = 1 then st1\<lparr>symMax := 0, sym := None\<rparr> else st1, 0))"

definition symSubClose :: "sym_state \<Rightarrow> sym_state" where
  "symSubClose st =
     (let st1 = st\<lparr>symOpenCount := symOpenCount st - 1\<rparr>
      in if symOpenCount st1 \<le> 0 then st1\<lparr>symOpenCount := 0\<rparr> else st1)"

text \<open>
  \<^verbatim>\<open>symOpen\<close>: \<open>m\<close> is the allocator for the handle list, \<open>tab_ok\<close> and \<open>ht_ok\<close> the two further
  allocations. The second is not checked (\<^verbatim>\<open>a_assert\<close> is compiled out).
\<close>

definition symOpen :: "balloc_env \<Rightarrow> bool \<Rightarrow> bool \<Rightarrow> sym_state \<Rightarrow> int \<Rightarrow> (sym_state \<times> int) option" where
  "symOpen m tab_ok ht_ok st hsize = do {
     (s1, sd) \<leftarrow> hAlloc m (sym st);
     if sd < 0 then Some (st\<lparr>sym := s1\<rparr>, -1)
     else if \<not> tab_ok then do {
       (s2, mx) \<leftarrow> hFree s1 sd;
       Some (st\<lparr>sym := s2, symMax := mx\<rparr>, -1) }
     else if \<not> ht_ok then None
     else do {
       let sz = calcPrime hsize;
       let tp = \<lparr>inuse = 0, hash_size = sz, hash_table = replicate (nat sz) []\<rparr>;
       Some (st\<lparr>symMax := (if sd \<ge> symMax st then sd + 1 else symMax st),
               sym := h_store s1 sd tp\<rparr>, sd) } }"

definition symClose :: "sym_state \<Rightarrow> int \<Rightarrow> sym_state option" where
  "symClose st sd = do {
     tp \<leftarrow> h_get (sym st) sd;
     (s1, mx) \<leftarrow> hFree (sym st) sd;
     Some (st\<lparr>sym := s1, symMax := mx\<rparr>) }"

section \<open>Chains and entries\<close>

definition c0 :: "cstring \<Rightarrow> char" where
  "c0 s = (case s of [] \<Rightarrow> CHR 0x00 | c # _ \<Rightarrow> c)"

text \<open>The comparison of the chain loops; a null name pointer faults.\<close>

definition sym_match :: "sym_t \<Rightarrow> cstring \<Rightarrow> bool option" where
  "sym_match sp nm = do {
     cp \<leftarrow> value_string (name sp);
     Some (c0 cp = c0 nm \<and> cp = nm) }"

text \<open>The chain scan: the nodes before the match, and the match with the rest.\<close>

fun chain_find :: "sym_t list \<Rightarrow> cstring \<Rightarrow> (sym_t list \<times> sym_t list) option" where
  "chain_find [] nm = Some ([], [])"
| "chain_find (sp # rest) nm = do {
     hit \<leftarrow> sym_match sp nm;
     if hit then Some ([], sp # rest)
     else do { (pre, post) \<leftarrow> chain_find rest nm; Some (sp # pre, post) } }"

definition sym_hash :: "bool \<Rightarrow> sym_tabent \<Rightarrow> cstring \<Rightarrow> sym_t list option" where
  "sym_hash sc tp nm = mem_read (hash_table tp) (hashIndex sc tp nm)"

text \<open>The lookup in one table; \<open>Some None\<close> is the null result.\<close>

definition tab_lookup :: "bool \<Rightarrow> sym_tabent \<Rightarrow> cstring \<Rightarrow> sym_t option option" where
  "tab_lookup sc tp nm =
     (if nm = [] then Some None
      else do {
        chain \<leftarrow> sym_hash sc tp nm;
        (pre, post) \<leftarrow> chain_find chain nm;
        Some (case post of [] \<Rightarrow> None | sp # _ \<Rightarrow> Some sp) })"

definition symLookup :: "bool \<Rightarrow> sym_state \<Rightarrow> int \<Rightarrow> cstring option \<Rightarrow> sym_t option option" where
  "symLookup sc st sd nm = do {
     e \<leftarrow> h_entry (sym st) sd;
     (case e of
        None \<Rightarrow> Some None
      | Some tp \<Rightarrow> (case nm of None \<Rightarrow> Some None | Some n \<Rightarrow> tab_lookup sc tp n)) }"

text \<open>
  Entering: the result is the changed table and the node, \<open>None\<close> for a null return. \<open>ok\<close> is
  the allocation of the node, \<open>dup\<close> that of the copy of the name.
\<close>

definition tab_enter ::
    "bool \<Rightarrow> bool \<Rightarrow> bool \<Rightarrow> sym_tabent \<Rightarrow> cstring \<Rightarrow> value_t \<Rightarrow> int \<Rightarrow> (sym_tabent \<times> sym_t option) option" where
  "tab_enter sc ok dup tp nm v a = do {
     let hindex = hashIndex sc tp nm;
     chain \<leftarrow> mem_read (hash_table tp) hindex;
     (pre, post) \<leftarrow> chain_find chain nm;
     (case post of
        sp # rest \<Rightarrow>
          (let sp1 = (if valid (content sp) then sp\<lparr>content := valueFree (content sp)\<rparr> else sp);
               sp2 = sp1\<lparr>content := v, arg := a\<rparr>
           in Some (tp\<lparr>hash_table := (hash_table tp)[nat hindex := pre @ sp2 # rest]\<rparr>, Some sp2))
      | [] \<Rightarrow>
          (if \<not> ok then Some (tp, None)
           else do {
             nv \<leftarrow> valueString dup (Some nm) VALUE_ALLOCATE;
             let sp = \<lparr>name = nv, content = v, arg = a\<rparr>;
             Some (tp\<lparr>hash_table := (hash_table tp)[nat hindex := pre @ [sp]]\<rparr>, Some sp) })) }"

definition symEnter ::
    "bool \<Rightarrow> bool \<Rightarrow> bool \<Rightarrow> sym_state \<Rightarrow> int \<Rightarrow> cstring \<Rightarrow> value_t \<Rightarrow> int \<Rightarrow> (sym_state \<times> sym_t option) option" where
  "symEnter sc ok dup st sd nm v a = do {
     tp \<leftarrow> h_get (sym st) sd;
     (tp1, r) \<leftarrow> tab_enter sc ok dup tp nm v a;
     Some (st\<lparr>sym := h_store (sym st) sd tp1\<rparr>, r) }"

definition tab_delete :: "bool \<Rightarrow> sym_tabent \<Rightarrow> cstring \<Rightarrow> (sym_tabent \<times> int) option" where
  "tab_delete sc tp nm = do {
     let hindex = hashIndex sc tp nm;
     chain \<leftarrow> mem_read (hash_table tp) hindex;
     (pre, post) \<leftarrow> chain_find chain nm;
     (case post of
        [] \<Rightarrow> Some (tp, -1)
      | sp # rest \<Rightarrow> Some (tp\<lparr>hash_table := (hash_table tp)[nat hindex := pre @ rest]\<rparr>, 0)) }"

definition symDelete :: "bool \<Rightarrow> sym_state \<Rightarrow> int \<Rightarrow> cstring \<Rightarrow> (sym_state \<times> int) option" where
  "symDelete sc st sd nm = do {
     tp \<leftarrow> h_get (sym st) sd;
     (tp1, rc) \<leftarrow> tab_delete sc tp nm;
     Some (st\<lparr>sym := h_store (sym st) sd tp1\<rparr>, rc) }"

section \<open>Traversal\<close>

text \<open>
  A traversal reads \<^verbatim>\<open>hash_table[hash_size]\<close>, one element past the table. \<open>ov\<close> is what this read
  does: \<open>None\<close> is a fault, \<open>Some c\<close> the word found there (taken as a chain, though the code
  never follows it).
\<close>

definition chain_at :: "sym_t list option \<Rightarrow> sym_tabent \<Rightarrow> int \<Rightarrow> sym_t list option" where
  "chain_at ov tp i = (if i = hash_size tp then ov else mem_read (hash_table tp) i)"

text \<open>
  The outer loop of \<^verbatim>\<open>symFirst\<close> over \<open>i\<close>: at the first non-empty chain it returns the head and
  sets \<^verbatim>\<open>htIndex\<close> and \<^verbatim>\<open>next\<close>, reading \<^verbatim>\<open>hash_table[i + 1]\<close> when the chain ends there.
\<close>

definition sym_yield :: "sym_t list option \<Rightarrow> sym_tabent \<Rightarrow> sym_state \<Rightarrow> int \<Rightarrow> sym_t \<Rightarrow> sym_t list \<Rightarrow> (sym_state \<times> sym_t option) option" where
  "sym_yield ov tp st i sp forw =
     (if forw = [] then do {
        nx \<leftarrow> chain_at ov tp (i + 1);
        Some (st\<lparr>htIndex := i + 1, nextp := nx\<rparr>, Some sp) }
      else Some (st\<lparr>htIndex := i, nextp := forw\<rparr>, Some sp))"

function symFirst_loop :: "sym_t list option \<Rightarrow> sym_tabent \<Rightarrow> sym_state \<Rightarrow> int \<Rightarrow> (sym_state \<times> sym_t option) option" where
  "symFirst_loop ov tp st i =
     (if i < hash_size tp then do {
        chain \<leftarrow> mem_read (hash_table tp) i;
        (case chain of
           [] \<Rightarrow> symFirst_loop ov tp st (i + 1)
         | sp # forw \<Rightarrow> sym_yield ov tp st i sp forw) }
      else Some (st, None))"
  by pat_completeness auto
termination by (relation "measure (\<lambda>(ov, tp, st, i). nat (hash_size tp - i))") auto

declare symFirst_loop.simps [simp del]

definition symFirst :: "sym_t list option \<Rightarrow> sym_state \<Rightarrow> int \<Rightarrow> (sym_state \<times> sym_t option) option" where
  "symFirst ov st sd = do { tp \<leftarrow> h_get (sym st) sd; symFirst_loop ov tp st 0 }"

function symNext_loop :: "sym_t list option \<Rightarrow> sym_tabent \<Rightarrow> sym_state \<Rightarrow> int \<Rightarrow> (sym_state \<times> sym_t option) option" where
  "symNext_loop ov tp st i =
     (if i < hash_size tp then
        (case nextp st of
           sp # forw \<Rightarrow> sym_yield ov tp st i sp forw
         | [] \<Rightarrow> do {
             nx \<leftarrow> chain_at ov tp (i + 1);
             symNext_loop ov tp (st\<lparr>nextp := nx\<rparr>) (i + 1) })
      else Some (st, None))"
  by pat_completeness auto
termination by (relation "measure (\<lambda>(ov, tp, st, i). nat (hash_size tp - i))") auto

declare symNext_loop.simps [simp del]

definition symNext :: "sym_t list option \<Rightarrow> sym_state \<Rightarrow> int \<Rightarrow> (sym_state \<times> sym_t option) option" where
  "symNext ov st sd = do { tp \<leftarrow> h_get (sym st) sd; symNext_loop ov tp st (htIndex st) }"

section \<open>Request variables\<close>

text \<open>The CGI variables of a request live in the table \<^verbatim>\<open>wp->cgiVars\<close>.\<close>

definition websSetVar :: "bool \<Rightarrow> bool \<Rightarrow> bool \<Rightarrow> sym_state \<Rightarrow> int \<Rightarrow> cstring \<Rightarrow> cstring option \<Rightarrow> sym_state option" where
  "websSetVar sc ok dup st cgiVars var v = do {
     vv \<leftarrow> (case v of
              Some s \<Rightarrow> valueString dup (Some s) VALUE_ALLOCATE
            | None \<Rightarrow> valueString dup (Some '''') VALUE_ALLOCATE);
     (st1, _) \<leftarrow> symEnter sc ok dup st cgiVars var vv 0;
     Some st1 }"

definition websTestVar :: "bool \<Rightarrow> sym_state \<Rightarrow> int \<Rightarrow> cstring option \<Rightarrow> int option" where
  "websTestVar sc st cgiVars var =
     (if var = None \<or> var = Some [] then Some 0
      else do {
        sp \<leftarrow> symLookup sc st cgiVars var;
        Some (if sp = None then 0 else 1) })"

definition websGetVar :: "bool \<Rightarrow> sym_state \<Rightarrow> int \<Rightarrow> cstring \<Rightarrow> cstring option \<Rightarrow> cstring option option" where
  "websGetVar sc st cgiVars var dflt = do {
     sp \<leftarrow> symLookup sc st cgiVars (Some var);
     Some (case sp of
             Some s \<Rightarrow> (case value_string (content s) of Some t \<Rightarrow> Some t | None \<Rightarrow> Some [])
           | None \<Rightarrow> dflt) }"

definition websCompareVar :: "bool \<Rightarrow> sym_state \<Rightarrow> int \<Rightarrow> cstring \<Rightarrow> cstring \<Rightarrow> int option" where
  "websCompareVar sc st cgiVars var v = do {
     r \<leftarrow> websGetVar sc st cgiVars var (Some '' __UNDEF__ '');
     g \<leftarrow> r;
     Some (if v = g then 1 else 0) }"

section \<open>Primes\<close>

lemma isPrime_loop_iff: "isPrime_loop n mx i \<longleftrightarrow> (\<forall>d. i \<le> d \<and> d \<le> mx \<longrightarrow> n mod d \<noteq> 0)"
proof (induction n mx i rule: isPrime_loop.induct)
  case (1 n mx i)
  show ?case
  proof (cases "i \<le> mx \<and> n mod i \<noteq> 0")
    case True
    then have "isPrime_loop n mx i \<longleftrightarrow> (\<forall>d. i + 1 \<le> d \<and> d \<le> mx \<longrightarrow> n mod d \<noteq> 0)"
      using "1.IH" by (subst isPrime_loop.simps) simp
    moreover have "\<And>d. i \<le> d \<longleftrightarrow> d = i \<or> i + 1 \<le> d" by auto
    ultimately show ?thesis using True by metis
  next
    case False
    then show ?thesis by (subst isPrime_loop.simps) auto
  qed
qed

text \<open>\<^verbatim>\<open>isPrime\<close> decides that there is no proper divisor.\<close>

lemma isPrime_iff: "0 < n \<Longrightarrow> isPrime n \<longleftrightarrow> (\<forall>d. 1 < d \<and> d < n \<longrightarrow> \<not> d dvd n)"
proof -
  assume n: "0 < n"
  have half: "d \<le> n div 2" if d: "1 < d" "d < n" "d dvd n" for d
  proof -
    from d(3) obtain k where k: "n = d * k" by blast
    then have "0 < k" using n d(1) by (simp add: zero_less_mult_iff)
    moreover have "k \<noteq> 1" using k d(2) by auto
    ultimately have "2 \<le> k" by simp
    then have "d * 2 \<le> n" using k d(1) by simp
    then show ?thesis by simp
  qed
  show ?thesis
  proof
    assume "isPrime n"
    then show "\<forall>d. 1 < d \<and> d < n \<longrightarrow> \<not> d dvd n"
      using half by (metis isPrime_def isPrime_loop_iff dvd_eq_mod_eq_0 one_add_one zless_imp_add1_zle)
  next
    assume a: "\<forall>d. 1 < d \<and> d < n \<longrightarrow> \<not> d dvd n"
    have "n mod d \<noteq> 0" if "2 \<le> d" "d \<le> n div 2" for d
    proof -
      have "1 < d" "d < n" using that n by linarith+
      then show ?thesis using a by (simp add: dvd_eq_mod_eq_0)
    qed
    then show "isPrime n" by (simp add: isPrime_def isPrime_loop_iff)
  qed
qed

lemma calcPrime_spec:
  "0 < n \<Longrightarrow> 0 < calcPrime n \<and> calcPrime n \<le> n \<and> isPrime (calcPrime n) \<and>
     (\<forall>k. calcPrime n < k \<and> k \<le> n \<longrightarrow> \<not> isPrime k)"
proof (induction n rule: calcPrime.induct)
  case (1 n)
  show ?case
  proof (cases "isPrime n")
    case True
    then show ?thesis using "1.prems" by (auto simp: calcPrime.simps[of n])
  next
    case False
    then have "n \<noteq> 1" by (auto simp: isPrime_iff)
    then have IH: "0 < calcPrime (n - 1) \<and> calcPrime (n - 1) \<le> n - 1 \<and> isPrime (calcPrime (n - 1)) \<and>
        (\<forall>k. calcPrime (n - 1) < k \<and> k \<le> n - 1 \<longrightarrow> \<not> isPrime k)"
      using "1.IH"[OF "1.prems" False] "1.prems" by simp
    have "calcPrime n = calcPrime (n - 1)" using False "1.prems" by (simp add: calcPrime.simps[of n])
    moreover have "\<not> isPrime k" if "calcPrime (n - 1) < k" "k \<le> n" for k
      using that False IH by (cases "k = n") auto
    ultimately show ?thesis using IH by auto
  qed
qed

section \<open>Well-formed tables\<close>

abbreviation sym_key :: "sym_t \<Rightarrow> cstring option" where
  "sym_key sp \<equiv> value_string (name sp)"

text \<open>
  Every node has a name and hangs on the chain of its hash value, and no name occurs twice
  on a chain.
\<close>

definition tab_inv :: "bool \<Rightarrow> sym_tabent \<Rightarrow> bool" where
  "tab_inv sc tp \<longleftrightarrow>
     0 < hash_size tp \<and> hash_size tp = int (length (hash_table tp)) \<and>
     (\<forall>i<length (hash_table tp).
        (\<forall>sp\<in>set (hash_table tp ! i). \<exists>nm. sym_key sp = Some nm \<and> hashIndex sc tp nm = int i) \<and>
        distinct (map sym_key (hash_table tp ! i)))"

abbreviation bucket :: "bool \<Rightarrow> sym_tabent \<Rightarrow> cstring \<Rightarrow> sym_t list" where
  "bucket sc tp nm \<equiv> hash_table tp ! nat (hashIndex sc tp nm)"

lemma hashIndex_table [simp]: "hashIndex sc (tp\<lparr>hash_table := ht\<rparr>) nm = hashIndex sc tp nm"
  by (simp add: hashIndex_def)

lemma hashIndex_range:
  "0 < hash_size tp \<Longrightarrow> 0 \<le> hashIndex sc tp nm \<and> hashIndex sc tp nm < hash_size tp"
  by (simp add: hashIndex_def)

lemma tab_inv_hash:
  assumes "tab_inv sc tp"
  shows "0 \<le> hashIndex sc tp nm" and "hashIndex sc tp nm < int (length (hash_table tp))"
proof -
  have "0 < hash_size tp" "hash_size tp = int (length (hash_table tp))"
    using assms unfolding tab_inv_def by blast+
  then show "0 \<le> hashIndex sc tp nm" and "hashIndex sc tp nm < int (length (hash_table tp))"
    using hashIndex_range[of tp sc nm] by simp_all
qed

lemma tab_inv_index:
  assumes "tab_inv sc tp"
  shows "nat (hashIndex sc tp nm) < length (hash_table tp)"
    and "mem_read (hash_table tp) (hashIndex sc tp nm) = Some (bucket sc tp nm)"
proof -
  have "0 \<le> hashIndex sc tp nm \<and> hashIndex sc tp nm < int (length (hash_table tp))"
    using hashIndex_range[of tp sc nm] assms by (auto simp: tab_inv_def)
  then show "nat (hashIndex sc tp nm) < length (hash_table tp)"
    and "mem_read (hash_table tp) (hashIndex sc tp nm) = Some (bucket sc tp nm)"
    by (auto simp: mem_read_def)
qed

lemma tab_inv_bucket:
  assumes "tab_inv sc tp"
  shows "\<forall>sp\<in>set (bucket sc tp nm). sym_key sp \<noteq> None" and "distinct (map sym_key (bucket sc tp nm))"
  using assms tab_inv_index(1)[OF assms, of nm] by (fastforce simp: tab_inv_def)+

lemma chain_find_spec:
  "\<forall>sp\<in>set ch. sym_key sp \<noteq> None \<Longrightarrow>
     \<exists>pre post. chain_find ch nm = Some (pre, post) \<and> ch = pre @ post \<and>
       (\<forall>sp\<in>set pre. sym_key sp \<noteq> Some nm) \<and> (post \<noteq> [] \<longrightarrow> sym_key (hd post) = Some nm)"
proof (induction ch)
  case Nil
  then show ?case by simp
next
  case (Cons sp ch)
  then obtain k where k: "sym_key sp = Some k" by auto
  show ?case
  proof (cases "k = nm")
    case True
    then have "chain_find (sp # ch) nm = Some ([], sp # ch)" using k by (simp add: sym_match_def)
    then show ?thesis using k True by fastforce
  next
    case False
    obtain pre post where r: "chain_find ch nm = Some (pre, post)" "ch = pre @ post"
      "\<forall>sp\<in>set pre. sym_key sp \<noteq> Some nm" "post \<noteq> [] \<longrightarrow> sym_key (hd post) = Some nm"
      using Cons by auto
    then have "chain_find (sp # ch) nm = Some (sp # pre, post)" using k False by (simp add: sym_match_def)
    then show ?thesis using r k False by fastforce
  qed
qed

lemma find_append_none:
  "\<forall>x\<in>set xs. \<not> P x \<Longrightarrow> find P (xs @ ys) = find P ys"
  by (induction xs) auto

lemma tab_lookup_find:
  assumes i: "tab_inv sc tp" and nm: "nm \<noteq> []"
  shows "tab_lookup sc tp nm = Some (find (\<lambda>sp. sym_key sp = Some nm) (bucket sc tp nm))"
proof -
  obtain pre post where r: "chain_find (bucket sc tp nm) nm = Some (pre, post)"
    "bucket sc tp nm = pre @ post"
    "\<forall>sp\<in>set pre. sym_key sp \<noteq> Some nm" "post \<noteq> [] \<longrightarrow> sym_key (hd post) = Some nm"
    using chain_find_spec[OF tab_inv_bucket(1)[OF i]] by blast
  have "find (\<lambda>sp. sym_key sp = Some nm) (pre @ post) = (case post of [] \<Rightarrow> None | sp # _ \<Rightarrow> Some sp)"
    using r(3,4) by (cases post) (auto simp: find_append_none find_None_iff)
  then show ?thesis
    using nm r(1,2) tab_inv_index(2)[OF i] by (simp add: tab_lookup_def sym_hash_def)
qed

text \<open>Replacing one chain by another with the same kind of nodes keeps the table well-formed.\<close>

lemma tab_inv_replace:
  assumes i: "tab_inv sc tp" and h: "hashIndex sc tp nm = int j" "j < length (hash_table tp)"
    and n: "\<forall>sp\<in>set ch. \<exists>k. sym_key sp = Some k \<and> hashIndex sc tp k = int j"
    and d: "distinct (map sym_key ch)"
  shows "tab_inv sc (tp\<lparr>hash_table := (hash_table tp)[j := ch]\<rparr>)"
  using assms by (auto simp: tab_inv_def nth_list_update)

lemma tab_lookup_replace:
  assumes i: "tab_inv sc tp" "tab_inv sc (tp\<lparr>hash_table := (hash_table tp)[nat (hashIndex sc tp nm) := ch]\<rparr>)"
    and k: "k \<noteq> []"
  shows "tab_lookup sc (tp\<lparr>hash_table := (hash_table tp)[nat (hashIndex sc tp nm) := ch]\<rparr>) k =
     (if hashIndex sc tp k = hashIndex sc tp nm then Some (find (\<lambda>sp. sym_key sp = Some k) ch)
      else tab_lookup sc tp k)"
proof -
  have "nat (hashIndex sc tp k) = nat (hashIndex sc tp nm) \<longleftrightarrow> hashIndex sc tp k = hashIndex sc tp nm"
    using tab_inv_hash(1)[OF i(1)] by (simp add: eq_nat_nat_iff)
  then show ?thesis
    using tab_inv_index(1)[OF i(1)] k
    by (auto simp: tab_lookup_find[OF i(2) k] tab_lookup_find[OF i(1) k] nth_list_update)
qed

lemma bucket_split:
  assumes i: "tab_inv sc tp"
  obtains pre post where "chain_find (bucket sc tp nm) nm = Some (pre, post)"
    "bucket sc tp nm = pre @ post" "\<forall>sp\<in>set pre. sym_key sp \<noteq> Some nm"
    "post \<noteq> [] \<longrightarrow> sym_key (hd post) = Some nm"
    "\<forall>sp\<in>set (pre @ post). \<exists>k. sym_key sp = Some k \<and> hashIndex sc tp k = hashIndex sc tp nm"
    "distinct (map sym_key (pre @ post))"
proof -
  obtain pre post where r: "chain_find (bucket sc tp nm) nm = Some (pre, post)"
    "bucket sc tp nm = pre @ post" "\<forall>sp\<in>set pre. sym_key sp \<noteq> Some nm"
    "post \<noteq> [] \<longrightarrow> sym_key (hd post) = Some nm"
    using chain_find_spec[OF tab_inv_bucket(1)[OF i]] by blast
  have "int (nat (hashIndex sc tp nm)) = hashIndex sc tp nm"
    using tab_inv_hash(1)[OF i] by simp
  then have "\<forall>sp\<in>set (pre @ post). \<exists>k. sym_key sp = Some k \<and> hashIndex sc tp k = hashIndex sc tp nm"
    using i tab_inv_index(1)[OF i, of nm] r(2) by (auto simp: tab_inv_def)
  then show ?thesis using that[OF r(1-3)] r(4) tab_inv_bucket(2)[OF i, of nm] r(2) by simp
qed

lemma tab_enter_spec:
  assumes i: "tab_inv sc tp"
  shows "\<exists>tp' sp. tab_enter sc True True tp nm v a = Some (tp', Some sp) \<and> tab_inv sc tp' \<and>
     sym_key sp = Some nm \<and> content sp = v \<and> arg sp = a \<and>
     (\<forall>k. k \<noteq> [] \<longrightarrow> tab_lookup sc tp' k = (if k = nm then Some (Some sp) else tab_lookup sc tp k))"
proof -
  define h where "h = nat (hashIndex sc tp nm)"
  have hh: "hashIndex sc tp nm = int h" "h < length (hash_table tp)"
    using tab_inv_hash(1)[OF i, of nm] tab_inv_index(1)[OF i, of nm] by (simp_all add: h_def)
  obtain pre post where r: "chain_find (bucket sc tp nm) nm = Some (pre, post)"
    "bucket sc tp nm = pre @ post" "\<forall>sp\<in>set pre. sym_key sp \<noteq> Some nm"
    "post \<noteq> [] \<longrightarrow> sym_key (hd post) = Some nm"
    "\<forall>sp\<in>set (pre @ post). \<exists>k. sym_key sp = Some k \<and> hashIndex sc tp k = hashIndex sc tp nm"
    "distinct (map sym_key (pre @ post))"
    by (rule bucket_split[OF i, of nm])
  obtain sp rest where new: "sym_key sp = Some nm" "content sp = v" "arg sp = a"
    "tab_enter sc True True tp nm v a = Some (tp\<lparr>hash_table := (hash_table tp)[h := pre @ sp # rest]\<rparr>, Some sp)"
    "post = [] \<and> rest = [] \<or> (\<exists>sp0. post = sp0 # rest \<and> sym_key sp0 = Some nm)"
  proof (cases post)
    case Nil
    define sp where "sp = \<lparr>name = \<lparr>val_of = UString (Some nm), vtype_of = Vstring, valid = True,
        allocated = True\<rparr>, content = v, arg = a\<rparr>"
    have "tab_enter sc True True tp nm v a = Some (tp\<lparr>hash_table := (hash_table tp)[h := pre @ [sp]]\<rparr>, Some sp)"
      using r(1) Nil tab_inv_index(2)[OF i]
      by (simp add: tab_enter_def Let_def valueString_def VALUE_ALLOCATE_def bstrdup_def sp_def h_def)
    then show ?thesis using that[of sp "[]"] Nil by (simp add: sp_def value_string_def)
  next
    case (Cons sp0 rest)
    define sp where "sp = sp0\<lparr>content := v, arg := a\<rparr>"
    have "tab_enter sc True True tp nm v a = Some (tp\<lparr>hash_table := (hash_table tp)[h := pre @ sp # rest]\<rparr>, Some sp)"
      using r(1) Cons tab_inv_index(2)[OF i] by (simp add: tab_enter_def Let_def sp_def h_def)
    then show ?thesis using that[of sp rest] Cons r(4) by (simp add: sp_def)
  qed
  define tp' where "tp' = tp\<lparr>hash_table := (hash_table tp)[h := pre @ sp # rest]\<rparr>"
  have i': "tab_inv sc tp'"
    unfolding tp'_def
  proof (rule tab_inv_replace[OF i hh])
    show "\<forall>s\<in>set (pre @ sp # rest). \<exists>k. sym_key s = Some k \<and> hashIndex sc tp k = int h"
      using r(5) new(1,5) hh(1) by auto
    show "distinct (map sym_key (pre @ sp # rest))"
      using r(3,6) new(1,5) by auto
  qed
  have "tab_lookup sc tp' k = (if k = nm then Some (Some sp) else tab_lookup sc tp k)" if "k \<noteq> []" for k
  proof -
    have f: "find (\<lambda>s. sym_key s = Some k) (pre @ sp # rest) =
        (if k = nm then Some sp else find (\<lambda>s. sym_key s = Some k) (pre @ post))"
      using r(3) new(1,5) by (induction pre) auto
    show ?thesis
      using tab_lookup_replace[OF i i'[unfolded tp'_def h_def] that] tab_lookup_find[OF i that] f r(2)
      by (auto simp: tp'_def h_def)
  qed
  then show ?thesis using new i' by (auto simp: tp'_def)
qed

lemma tab_delete_spec:
  assumes i: "tab_inv sc tp" and nm: "nm \<noteq> []"
  shows "\<exists>tp' rc. tab_delete sc tp nm = Some (tp', rc) \<and> tab_inv sc tp' \<and>
     rc = (if tab_lookup sc tp nm = Some None then -1 else 0) \<and>
     (\<forall>k. k \<noteq> [] \<longrightarrow> tab_lookup sc tp' k = (if k = nm then Some None else tab_lookup sc tp k))"
proof -
  define h where "h = nat (hashIndex sc tp nm)"
  have hh: "hashIndex sc tp nm = int h" "h < length (hash_table tp)"
    using tab_inv_hash(1)[OF i, of nm] tab_inv_index(1)[OF i, of nm] by (simp_all add: h_def)
  obtain pre post where r: "chain_find (bucket sc tp nm) nm = Some (pre, post)"
    "bucket sc tp nm = pre @ post" "\<forall>sp\<in>set pre. sym_key sp \<noteq> Some nm"
    "post \<noteq> [] \<longrightarrow> sym_key (hd post) = Some nm"
    "\<forall>sp\<in>set (pre @ post). \<exists>k. sym_key sp = Some k \<and> hashIndex sc tp k = hashIndex sc tp nm"
    "distinct (map sym_key (pre @ post))"
    by (rule bucket_split[OF i, of nm])
  show ?thesis
  proof (cases post)
    case Nil
    then have "tab_delete sc tp nm = Some (tp, -1)"
      using r(1) tab_inv_index(2)[OF i] by (simp add: tab_delete_def Let_def)
    moreover have "tab_lookup sc tp nm = Some None"
      using tab_lookup_find[OF i nm] r(2,3) Nil by (simp add: find_None_iff)
    ultimately show ?thesis using i by simp
  next
    case (Cons sp rest)
    define tp' where "tp' = tp\<lparr>hash_table := (hash_table tp)[h := pre @ rest]\<rparr>"
    have k0: "sym_key sp = Some nm" using r(4) Cons by simp
    have rest: "\<forall>s\<in>set rest. sym_key s \<noteq> Some nm" using r(6) Cons k0 by (auto simp: image_iff)
    have "tab_delete sc tp nm = Some (tp', 0)"
      using r(1) Cons tab_inv_index(2)[OF i] by (simp add: tab_delete_def Let_def tp'_def h_def)
    moreover have "tab_lookup sc tp nm = Some (Some sp)"
      using tab_lookup_find[OF i nm] r(2,3) Cons k0 by (simp add: find_append_none)
    moreover have i': "tab_inv sc tp'"
      unfolding tp'_def using r(5,6) Cons hh(1) by (intro tab_inv_replace[OF i hh]) auto
    moreover have "tab_lookup sc tp' k = (if k = nm then Some None else tab_lookup sc tp k)" if "k \<noteq> []" for k
    proof -
      have f: "find (\<lambda>s. sym_key s = Some k) (pre @ rest) =
          (if k = nm then None else find (\<lambda>s. sym_key s = Some k) (pre @ post))"
        using r(3) rest k0 Cons by (induction pre) (auto simp: find_None_iff)
      show ?thesis
        using tab_lookup_replace[OF i i'[unfolded tp'_def h_def] that] tab_lookup_find[OF i that] f r(2)
        by (auto simp: tp'_def h_def)
    qed
    ultimately show ?thesis by auto
  qed
qed

section \<open>The table list\<close>

definition sym_inv :: "bool \<Rightarrow> sym_state \<Rightarrow> bool" where
  "sym_inv sc st \<longleftrightarrow> h_inv (sym st) \<and> (\<forall>sd tp. h_get (sym st) sd = Some tp \<longrightarrow> tab_inv sc tp)"

definition sym_tab :: "sym_state \<Rightarrow> int \<Rightarrow> sym_tabent option" where
  "sym_tab st sd = h_get (sym st) sd"

lemma sym_inv_store:
  assumes "sym_inv sc st" "sym_tab st sd = Some tp" "tab_inv sc tp'"
  shows "sym_inv sc (st\<lparr>sym := h_store (sym st) sd tp'\<rparr>)"
    and "sym_tab (st\<lparr>sym := h_store (sym st) sd tp'\<rparr>) = (sym_tab st)(sd \<mapsto> tp')"
proof -
  have g: "h_get (h_store (sym st) sd tp') = (h_get (sym st))(sd \<mapsto> tp')" "h_inv (h_store (sym st) sd tp')"
    using h_store_inuse[of "sym st" sd tp tp'] assms(1,2) by (simp_all add: sym_inv_def sym_tab_def)
  then show "sym_inv sc (st\<lparr>sym := h_store (sym st) sd tp'\<rparr>)"
    using assms(1,3) by (auto simp: sym_inv_def)
  show "sym_tab (st\<lparr>sym := h_store (sym st) sd tp'\<rparr>) = (sym_tab st)(sd \<mapsto> tp')"
    using g(1) by (simp add: sym_tab_def fun_eq_iff)
qed

lemma tab_lookup_Nil [simp]: "tab_lookup sc tp [] = Some None"
  by (simp add: tab_lookup_def)

lemma symLookup_tab:
  "sym_tab st sd = Some tp \<Longrightarrow> symLookup sc st sd (Some nm) = tab_lookup sc tp nm"
  by (simp add: symLookup_def sym_tab_def h_entry_get)

lemma symLookup_same_tab:
  assumes "sym_tab st' d = sym_tab st d" "sym_tab st d \<noteq> None"
  shows "symLookup sc st' d nm = symLookup sc st d nm"
proof -
  obtain tp where "h_get (sym st) d = Some tp" "h_get (sym st') d = Some tp"
    using assms by (auto simp: sym_tab_def)
  then show ?thesis by (simp add: symLookup_def h_entry_get)
qed

text \<open>The effect of \<^verbatim>\<open>symEnter\<close> on all lookups in all tables.\<close>

lemma symEnter_spec:
  assumes i: "sym_inv sc st" and t: "sym_tab st sd = Some tp"
  shows "\<exists>st' sp. symEnter sc True True st sd nm v a = Some (st', Some sp) \<and> sym_inv sc st' \<and>
     content sp = v \<and> arg sp = a \<and> dom (sym_tab st') = dom (sym_tab st) \<and>
     (\<forall>d k. d \<noteq> sd \<and> sym_tab st d \<noteq> None \<longrightarrow> symLookup sc st' d k = symLookup sc st d k) \<and>
     (\<forall>k. symLookup sc st' sd (Some k) =
        (if k = nm \<and> nm \<noteq> [] then Some (Some sp) else symLookup sc st sd (Some k)))"
proof -
  have it: "tab_inv sc tp" using i t by (simp add: sym_inv_def sym_tab_def)
  obtain tp' sp where e: "tab_enter sc True True tp nm v a = Some (tp', Some sp)" "tab_inv sc tp'"
    "content sp = v" "arg sp = a"
    "\<forall>k. k \<noteq> [] \<longrightarrow> tab_lookup sc tp' k = (if k = nm then Some (Some sp) else tab_lookup sc tp k)"
    using tab_enter_spec[OF it, of nm v a] by blast
  define st' where "st' = st\<lparr>sym := h_store (sym st) sd tp'\<rparr>"
  have r: "symEnter sc True True st sd nm v a = Some (st', Some sp)"
    using e(1) t by (simp add: symEnter_def sym_tab_def st'_def)
  have g: "sym_inv sc st'" "sym_tab st' = (sym_tab st)(sd \<mapsto> tp')"
    using sym_inv_store[OF i t e(2)] by (simp_all add: st'_def)
  have l: "symLookup sc st' sd (Some k) =
        (if k = nm \<and> nm \<noteq> [] then Some (Some sp) else symLookup sc st sd (Some k))" for k
    using e(5) g(2) t by (cases "k = []") (auto simp: symLookup_tab)
  have "dom (sym_tab st') = dom (sym_tab st)" using g(2) t by auto
  moreover have "symLookup sc st' d k = symLookup sc st d k" if "d \<noteq> sd" "sym_tab st d \<noteq> None" for d k
    using symLookup_same_tab[of st' d st sc k] that g(2) by simp
  ultimately show ?thesis using r g(1) e(3,4) l by blast
qed

lemma symDelete_spec:
  assumes i: "sym_inv sc st" and t: "sym_tab st sd = Some tp" and nm: "nm \<noteq> []"
  shows "\<exists>st' rc. symDelete sc st sd nm = Some (st', rc) \<and> sym_inv sc st' \<and>
     rc = (if symLookup sc st sd (Some nm) = Some None then -1 else 0) \<and>
     dom (sym_tab st') = dom (sym_tab st) \<and>
     (\<forall>d k. d \<noteq> sd \<and> sym_tab st d \<noteq> None \<longrightarrow> symLookup sc st' d k = symLookup sc st d k) \<and>
     (\<forall>k. symLookup sc st' sd (Some k) = (if k = nm then Some None else symLookup sc st sd (Some k)))"
proof -
  have it: "tab_inv sc tp" using i t by (simp add: sym_inv_def sym_tab_def)
  obtain tp' rc where e: "tab_delete sc tp nm = Some (tp', rc)" "tab_inv sc tp'"
    "rc = (if tab_lookup sc tp nm = Some None then -1 else 0)"
    "\<forall>k. k \<noteq> [] \<longrightarrow> tab_lookup sc tp' k = (if k = nm then Some None else tab_lookup sc tp k)"
    using tab_delete_spec[OF it nm] by blast
  define st' where "st' = st\<lparr>sym := h_store (sym st) sd tp'\<rparr>"
  have r: "symDelete sc st sd nm = Some (st', rc)"
    using e(1) t by (simp add: symDelete_def sym_tab_def st'_def)
  have g: "sym_inv sc st'" "sym_tab st' = (sym_tab st)(sd \<mapsto> tp')"
    using sym_inv_store[OF i t e(2)] by (simp_all add: st'_def)
  have l: "symLookup sc st' sd (Some k) = (if k = nm then Some None else symLookup sc st sd (Some k))" for k
    using e(4) g(2) t nm by (cases "k = []") (auto simp: symLookup_tab)
  have "dom (sym_tab st') = dom (sym_tab st)" using g(2) t by auto
  moreover have "symLookup sc st' d k = symLookup sc st d k" if "d \<noteq> sd" "sym_tab st d \<noteq> None" for d k
    using symLookup_same_tab[of st' d st sc k] that g(2) by simp
  ultimately show ?thesis using r g(1) e(3) l t by (simp add: symLookup_tab)
qed

text \<open>A new table is empty; its size is a prime.\<close>

lemma tab_inv_new: "0 < n \<Longrightarrow> tab_inv sc \<lparr>inuse = 0, hash_size = n, hash_table = replicate (nat n) []\<rparr>"
  by (simp add: tab_inv_def)

lemma tab_lookup_new:
  "0 < n \<Longrightarrow> tab_lookup sc \<lparr>inuse = 0, hash_size = n, hash_table = replicate (nat n) []\<rparr> nm = Some None"
proof (cases "nm = []")
  case False
  assume n: "0 < n"
  let ?tp = "\<lparr>inuse = 0, hash_size = n, hash_table = replicate (nat n) []\<rparr>"
  have "bucket sc ?tp nm = []" using tab_inv_index(1)[OF tab_inv_new[OF n], of sc nm] by simp
  then show ?thesis using tab_lookup_find[OF tab_inv_new[OF n] False, of sc] by (simp del: sym_tabent.simps)
qed simp

lemma symOpen_spec:
  assumes i: "sym_inv sc st" and n: "0 < hsize"
  shows "\<exists>st' sd. symOpen m True True st hsize = Some (st', sd) \<and>
     (sd = -1 \<and> refuses m \<and> sym_tab st' = sym_tab st \<or>
      0 \<le> sd \<and> sym_tab st sd = None \<and> sd < symMax st' \<and> sym_inv sc st' \<and>
      (\<exists>tp. sym_tab st' = (sym_tab st)(sd \<mapsto> tp) \<and> hash_size tp = calcPrime hsize \<and> concat (hash_table tp) = []) \<and>
      (\<forall>k. symLookup sc st' sd (Some k) = Some None))"
proof -
  have hi: "h_inv (sym st)" using i by (simp add: sym_inv_def)
  obtain m1 h where a: "hAlloc m (sym st) = Some (m1, h)"
    "h = -1 \<and> m1 = sym st \<and> refuses m \<or> 0 \<le> h \<and> h_get (sym st) h = None \<and>
       (\<forall>x. h_inv (h_store m1 h x) \<and> h_get (h_store m1 h x) = (h_get (sym st))(h \<mapsto> x))"
    using hm.alloc_law[OF hi, of m] by blast
  show ?thesis
  proof (cases "h < 0")
    case True
    then show ?thesis using a by (auto simp: symOpen_def sym_tab_def)
  next
    case False
    define tp where "tp = \<lparr>inuse = 0, hash_size = calcPrime hsize, hash_table = replicate (nat (calcPrime hsize)) []\<rparr>"
    define st' where "st' = st\<lparr>symMax := (if h \<ge> symMax st then h + 1 else symMax st), sym := h_store m1 h tp\<rparr>"
    have p: "0 < calcPrime hsize" using calcPrime_spec[OF n] by simp
    have r: "symOpen m True True st hsize = Some (st', h)"
      using a(1) False by (simp add: symOpen_def tp_def st'_def Let_def)
    have g: "h_inv (sym st')" "sym_tab st' = (sym_tab st)(h \<mapsto> tp)" "sym_tab st h = None"
      using a(2) False by (auto simp: st'_def sym_tab_def fun_eq_iff)
    have "sym_inv sc st'"
      using g(1) i tab_inv_new[OF p, of sc] fun_cong[OF g(2)]
      by (auto simp: sym_inv_def sym_tab_def tp_def split: if_splits)
    moreover have "symLookup sc st' h (Some k) = Some None" for k
      using g(2) tab_lookup_new[OF p] by (simp add: symLookup_tab[of st' h tp] tp_def)
    moreover have "h < symMax st'" by (simp add: st'_def)
    moreover have "hash_size tp = calcPrime hsize" "concat (hash_table tp) = []" by (simp_all add: tp_def)
    ultimately show ?thesis using r g False by auto
  qed
qed

lemma symClose_spec:
  assumes i: "sym_inv sc st" and t: "sym_tab st sd = Some tp"
  shows "\<exists>st'. symClose st sd = Some st' \<and> sym_inv sc st' \<and> sym_tab st' = (sym_tab st)(sd := None) \<and>
     (\<forall>d. symMax st' \<le> d \<longrightarrow> sym_tab st' d = None)"
proof -
  obtain m1 r where f: "hFree (sym st) sd = Some (m1, r)" "h_inv m1"
    "h_get m1 = (h_get (sym st))(sd := None)" "\<forall>i. r \<le> i \<longrightarrow> h_get m1 i = None"
    using hm.free_law[of "sym st" sd tp] i t by (auto simp: sym_inv_def sym_tab_def)
  then have "symClose st sd = Some (st\<lparr>sym := m1, symMax := r\<rparr>)"
    using t by (simp add: symClose_def sym_tab_def)
  then show ?thesis using f i by (auto simp: sym_inv_def sym_tab_def fun_eq_iff)
qed

section \<open>Traversal\<close>

text \<open>The symbols a traversal at position \<open>htIndex\<close>, \<open>next\<close> has still to deliver.\<close>

definition sym_rest :: "sym_tabent \<Rightarrow> sym_state \<Rightarrow> sym_t list" where
  "sym_rest tp st = nextp st @ concat (drop (nat (htIndex st) + 1) (hash_table tp))"

lemma sym_yield_spec:
  assumes "0 \<le> i" "i < int (length (hash_table tp))" "hash_size tp = int (length (hash_table tp))"
  shows "sym_yield None tp st i sp forw =
     (if forw = [] \<and> i + 1 = int (length (hash_table tp)) then None
      else Some (st\<lparr>htIndex := (if forw = [] then i + 1 else i),
                    nextp := (if forw = [] then hash_table tp ! nat (i + 1) else forw)\<rparr>, Some sp))"
  using assms by (auto simp: sym_yield_def chain_at_def mem_read_def)

lemma concat_drop_step:
  "j < length xs \<Longrightarrow> concat (drop j xs) = xs ! j @ concat (drop (Suc j) xs)"
  by (metis Cons_nth_drop_Suc concat.simps(2))

text \<open>
  One call of \<^verbatim>\<open>symNext\<close>: while symbols remain it delivers the next one, except that the last
  symbol of the last chain, and the call after the last symbol, read past the hash table.
\<close>

definition sym_next_post :: "sym_tabent \<Rightarrow> sym_state \<Rightarrow> int \<Rightarrow> sym_t list \<Rightarrow> (sym_state \<times> sym_t option) option \<Rightarrow> bool" where
  "sym_next_post tp st i rest res \<longleftrightarrow>
     (case rest of
        [] \<Rightarrow> res = None
      | sp # r \<Rightarrow>
          (if r = [] \<and> (last (hash_table tp) \<noteq> [] \<or> i + 1 = hash_size tp) then res = None
           else \<exists>st'. res = Some (st', Some sp) \<and> sym st' = sym st \<and> i \<le> htIndex st' \<and>
                  htIndex st' < hash_size tp \<and> sym_rest tp st' = r))"

lemma concat_drop_last:
  assumes "j < length xs" "concat (drop j xs) = []"
  shows "last xs = []"
proof -
  have "last (drop j xs) \<in> set (drop j xs)" using assms(1) by (intro last_in_set) simp
  then show ?thesis using assms by (simp add: last_drop)
qed

lemma symNext_loop_here:
  assumes "hash_size tp = int (length (hash_table tp))" "0 \<le> i" "i < hash_size tp" "nextp st = sp # forw"
  shows "sym_next_post tp st i (nextp st @ concat (drop (nat i + 1) (hash_table tp))) (symNext_loop None tp st i)"
proof -
  let ?n = "length (hash_table tp)"
  have y: "symNext_loop None tp st i = sym_yield None tp st i sp forw"
    using assms by (simp add: symNext_loop.simps[of None tp st i])
  show ?thesis
  proof (cases "i + 1 = int ?n")
    case True
    then have "drop (nat i + 1) (hash_table tp) = []" by simp
    then show ?thesis
      using assms True y sym_yield_spec[of i tp st sp forw] by (auto simp: sym_next_post_def sym_rest_def)
  next
    case False
    then have l: "Suc (nat i) < ?n" "nat (i + 1) = Suc (nat i)" using assms by auto
    have "concat (drop (Suc (nat i)) (hash_table tp)) = [] \<Longrightarrow> last (hash_table tp) = []"
      using concat_drop_last[OF l(1)] .
    then show ?thesis
      using assms False l y sym_yield_spec[of i tp st sp forw] concat_drop_step[OF l(1)]
      by (auto simp: sym_next_post_def sym_rest_def simp del: concat_eq_Nil_conv)
  qed
qed

lemma sym_next_post_shift:
  "sym_next_post tp st' (i + 1) rest res \<Longrightarrow> sym st' = sym st \<Longrightarrow> i + 1 \<noteq> hash_size tp \<Longrightarrow>
   (i + 1 + 1 = hash_size tp \<Longrightarrow> rest \<noteq> [] \<Longrightarrow> last (hash_table tp) \<noteq> []) \<Longrightarrow>
   sym_next_post tp st i rest res"
  by (cases rest) (auto simp: sym_next_post_def split: if_splits)

lemma symNext_loop_spec:
  "hash_size tp = int (length (hash_table tp)) \<Longrightarrow> 0 \<le> i \<Longrightarrow> i < hash_size tp \<Longrightarrow>
   sym_next_post tp st i (nextp st @ concat (drop (nat i + 1) (hash_table tp))) (symNext_loop None tp st i)"
proof (induction "nat (hash_size tp - i)" arbitrary: i st rule: less_induct)
  case less
  show ?case
  proof (cases "nextp st")
    case (Cons sp forw)
    then show ?thesis using symNext_loop_here less.prems by blast
  next
    case Nil
    show ?thesis
    proof (cases "i + 1 = hash_size tp")
      case True
      then show ?thesis
        using Nil less.prems by (simp add: symNext_loop.simps[of None tp st i] chain_at_def mem_read_def sym_next_post_def)
    next
      case False
      let ?st = "st\<lparr>nextp := hash_table tp ! Suc (nat i)\<rparr>"
      have l: "Suc (nat i) < length (hash_table tp)" "nat (i + 1) = Suc (nat i)" using False less.prems by auto
      have e1: "symNext_loop None tp st i = symNext_loop None tp ?st (i + 1)"
        using Nil less.prems False l by (simp add: symNext_loop.simps[of None tp st i] chain_at_def mem_read_def)
      have e2: "sym_next_post tp ?st (i + 1)
          (nextp ?st @ concat (drop (nat (i + 1) + 1) (hash_table tp))) (symNext_loop None tp ?st (i + 1))"
        using less.prems False by (intro less.hyps) auto
      have step: "nextp ?st @ concat (drop (nat (i + 1) + 1) (hash_table tp)) =
          concat (drop (Suc (nat i)) (hash_table tp))"
        using concat_drop_step[OF l(1)] l(2) by simp
      have lst: "last (hash_table tp) \<noteq> []"
        if e: "i + 1 + 1 = hash_size tp" and ne: "concat (drop (Suc (nat i)) (hash_table tp)) \<noteq> []"
      proof -
        have n: "length (hash_table tp) = Suc (Suc (nat i))" using e less.prems by linarith
        then have "hash_table tp \<noteq> []" by auto
        then have "last (hash_table tp) = hash_table tp ! Suc (nat i)" using n by (simp add: last_conv_nth)
        then show ?thesis using ne concat_drop_step[OF l(1)] n by simp
      qed
      show ?thesis
        using sym_next_post_shift[OF e2[unfolded step, folded e1] _ False lst] Nil by simp
    qed
  qed
qed

text \<open>
  When the word past the table can be read, a traversal delivers the symbols one by one and
  then the null pointer.
\<close>

definition sym_todo :: "sym_tabent \<Rightarrow> sym_state \<Rightarrow> sym_t list" where
  "sym_todo tp st = (if htIndex st < hash_size tp then sym_rest tp st else [])"

definition sym_cursor :: "sym_tabent \<Rightarrow> sym_state \<Rightarrow> bool" where
  "sym_cursor tp st \<longleftrightarrow> 0 \<le> htIndex st \<and> htIndex st \<le> hash_size tp"

definition head_of :: "'a list \<Rightarrow> 'a option" where
  "head_of xs = (case xs of [] \<Rightarrow> None | x # _ \<Rightarrow> Some x)"

lemma head_of_simps [simp]: "head_of [] = None" "head_of (x # xs) = Some x"
  by (simp_all add: head_of_def)

lemma sym_yield_over:
  assumes "hash_size tp = int (length (hash_table tp))" "0 \<le> i" "i < hash_size tp"
  shows "\<exists>st'. sym_yield (Some x) tp st i sp forw = Some (st', Some sp) \<and> sym st' = sym st \<and> sym_cursor tp st' \<and>
     sym_todo tp st' = forw @ concat (drop (nat i + 1) (hash_table tp))"
proof (cases "forw = [] \<and> i + 1 = hash_size tp")
  case True
  then have "length (hash_table tp) \<le> nat i + 1" using assms by linarith
  then show ?thesis using True assms by (simp add: sym_yield_def chain_at_def sym_cursor_def sym_todo_def)
next
  case False
  have "i + 1 \<noteq> hash_size tp \<Longrightarrow> concat (drop (nat i + 1) (hash_table tp)) =
      hash_table tp ! nat (i + 1) @ concat (drop (nat (i + 1) + 1) (hash_table tp))"
    using concat_drop_step[of "nat i + 1" "hash_table tp"] assms by (simp add: nat_add_distrib)
  then show ?thesis
    using False assms by (auto simp: sym_yield_def chain_at_def mem_read_def sym_cursor_def sym_todo_def sym_rest_def)
qed

definition loop_todo :: "sym_tabent \<Rightarrow> sym_state \<Rightarrow> int \<Rightarrow> sym_t list" where
  "loop_todo tp st i = (if i < hash_size tp then nextp st @ concat (drop (nat i + 1) (hash_table tp)) else [])"

lemma symNext_loop_over:
  "hash_size tp = int (length (hash_table tp)) \<Longrightarrow> 0 \<le> i \<Longrightarrow> i \<le> hash_size tp \<Longrightarrow>
   \<exists>st'. symNext_loop (Some x) tp st i = Some (st', head_of (loop_todo tp st i)) \<and> sym st' = sym st \<and>
     (loop_todo tp st i \<noteq> [] \<longrightarrow> sym_cursor tp st' \<and> sym_todo tp st' = tl (loop_todo tp st i))"
proof (induction "nat (hash_size tp - i)" arbitrary: i st rule: less_induct)
  case less
  show ?case
  proof (cases "i < hash_size tp")
    case False
    then show ?thesis by (simp add: symNext_loop.simps[of "Some x" tp st i] loop_todo_def)
  next
    case True
    show ?thesis
    proof (cases "nextp st")
      case (Cons sp forw)
      then show ?thesis
        using True less.prems sym_yield_over[of tp i x st sp forw] by (auto simp: symNext_loop.simps[of "Some x" tp st i] loop_todo_def)
    next
      case Nil
      define nx where "nx = (if i + 1 = hash_size tp then x else hash_table tp ! nat (i + 1))"
      have "chain_at (Some x) tp (i + 1) = Some nx" using True less.prems by (auto simp: chain_at_def mem_read_def nx_def)
      then have e: "symNext_loop (Some x) tp st i = symNext_loop (Some x) tp (st\<lparr>nextp := nx\<rparr>) (i + 1)"
        using True Nil by (simp add: symNext_loop.simps[of "Some x" tp st i])
      have "loop_todo tp (st\<lparr>nextp := nx\<rparr>) (i + 1) = loop_todo tp st i"
        using True Nil less.prems concat_drop_step[of "nat i + 1" "hash_table tp"]
        by (auto simp: loop_todo_def nx_def nat_add_distrib)
      then show ?thesis unfolding e using less.hyps[of "i + 1" "st\<lparr>nextp := nx\<rparr>"] less.prems True by auto
    qed
  qed
qed

lemma symFirst_loop_over:
  "hash_size tp = int (length (hash_table tp)) \<Longrightarrow> 0 \<le> i \<Longrightarrow> i \<le> hash_size tp \<Longrightarrow>
   \<exists>st'. symFirst_loop (Some x) tp st i = Some (st', head_of (concat (drop (nat i) (hash_table tp)))) \<and> sym st' = sym st \<and>
     (concat (drop (nat i) (hash_table tp)) \<noteq> [] \<longrightarrow> sym_cursor tp st' \<and> sym_todo tp st' = tl (concat (drop (nat i) (hash_table tp))))"
proof (induction "nat (hash_size tp - i)" arbitrary: i rule: less_induct)
  case less
  show ?case
  proof (cases "i < hash_size tp")
    case False
    then show ?thesis using less.prems unfolding symFirst_loop.simps[of "Some x" tp st i] by simp
  next
    case True
    have rd: "mem_read (hash_table tp) i = Some (hash_table tp ! nat i)" and ni: "nat i < length (hash_table tp)" "nat (i + 1) = Suc (nat i)"
      using True less.prems by (auto simp: mem_read_def)
    note step = concat_drop_step[OF ni(1)]
    show ?thesis
    proof (cases "hash_table tp ! nat i")
      case Nil
      then show ?thesis using rd True less.hyps[of "i + 1"] less.prems step ni(2) by (simp add: symFirst_loop.simps[of "Some x" tp st i])
    next
      case (Cons sp forw)
      obtain st' where "sym_yield (Some x) tp st i sp forw = Some (st', Some sp)" "sym st' = sym st" "sym_cursor tp st'"
        "sym_todo tp st' = forw @ concat (drop (nat i + 1) (hash_table tp))"
        using sym_yield_over[of tp i x st sp forw] True less.prems by blast
      then show ?thesis using rd True Cons step by (simp add: symFirst_loop.simps[of "Some x" tp st i])
    qed
  qed
qed

section \<open>A table as a finite map\<close>

text \<open>
  What the users of a symbol table (request variables, mime types) rely on: entering a value
  under a non-empty name changes the map at that name only. An entry under the empty name
  cannot be found again.
\<close>

locale string_table =
  fixes inv :: "'s \<Rightarrow> bool"
    and find :: "'s \<Rightarrow> cstring \<Rightarrow> 'v option"
    and enter :: "'s \<Rightarrow> cstring \<Rightarrow> 'v \<Rightarrow> 's option"
  assumes enter_law: "inv s \<Longrightarrow> \<exists>s'. enter s k v = Some s' \<and> inv s' \<and>
      find s' = (if k = [] then find s else (find s)(k \<mapsto> v))"
begin

fun enter_all :: "'s \<Rightarrow> (cstring \<times> 'v) list \<Rightarrow> 's option" where
  "enter_all s [] = Some s"
| "enter_all s ((k, v) # kvs) = do { s1 \<leftarrow> enter s k v; enter_all s1 kvs }"

lemma enter_all_spec:
  "inv s \<Longrightarrow> \<exists>s'. enter_all s kvs = Some s' \<and> inv s' \<and>
     find s' = find s ++ map_of (rev (filter (\<lambda>kv. fst kv \<noteq> []) kvs))"
proof (induction kvs arbitrary: s)
  case Nil
  then show ?case by simp
next
  case (Cons kv kvs)
  obtain k v where kv: "kv = (k, v)" by (cases kv)
  obtain s1 where s1: "enter s k v = Some s1" "inv s1" "find s1 = (if k = [] then find s else (find s)(k \<mapsto> v))"
    using enter_law[OF Cons.prems] by blast
  obtain s' where s': "enter_all s1 kvs = Some s'" "inv s'"
    "find s' = find s1 ++ map_of (rev (filter (\<lambda>kv. fst kv \<noteq> []) kvs))"
    using Cons.IH[OF s1(2)] by blast
  have "find s' = find s ++ map_of (rev (filter (\<lambda>kv. fst kv \<noteq> []) (kv # kvs)))"
    using s1(3) s'(3) kv by (auto simp: map_add_upd_left)
  then show ?case using kv s1(1) s'(1,2) by simp
qed

end

definition sym_find :: "bool \<Rightarrow> int \<Rightarrow> sym_state \<Rightarrow> cstring \<Rightarrow> value_t option" where
  "sym_find sc sd st k =
     (case symLookup sc st sd (Some k) of Some (Some sp) \<Rightarrow> Some (content sp) | _ \<Rightarrow> None)"

definition sym_put :: "bool \<Rightarrow> int \<Rightarrow> sym_state \<Rightarrow> cstring \<Rightarrow> value_t \<Rightarrow> sym_state option" where
  "sym_put sc sd st k v = map_option fst (symEnter sc True True st sd k v 0)"

definition sym_at :: "bool \<Rightarrow> int \<Rightarrow> sym_state \<Rightarrow> bool" where
  "sym_at sc sd st \<longleftrightarrow> sym_inv sc st \<and> sym_tab st sd \<noteq> None"

interpretation st: string_table "sym_at sc sd" "sym_find sc sd" "sym_put sc sd" for sc sd
proof
  fix s k v
  assume "sym_at sc sd s"
  then obtain tp where t: "sym_inv sc s" "sym_tab s sd = Some tp" by (auto simp: sym_at_def)
  obtain s' sp where e: "symEnter sc True True s sd k v 0 = Some (s', Some sp)" "sym_inv sc s'" "content sp = v"
    "dom (sym_tab s') = dom (sym_tab s)"
    "\<forall>j. symLookup sc s' sd (Some j) = (if j = k \<and> k \<noteq> [] then Some (Some sp) else symLookup sc s sd (Some j))"
    using symEnter_spec[OF t, of k v 0] by blast
  have "sym_find sc sd s' = (if k = [] then sym_find sc sd s else (sym_find sc sd s)(k \<mapsto> v))"
    using e(3,5) by (auto simp: sym_find_def fun_eq_iff)
  moreover have "sym_at sc sd s'" using e(2,4) t(2) by (auto simp: sym_at_def)
  ultimately show "\<exists>s'. sym_put sc sd s k v = Some s' \<and> sym_at sc sd s' \<and>
      sym_find sc sd s' = (if k = [] then sym_find sc sd s else (sym_find sc sd s)(k \<mapsto> v))"
    using e(1) by (simp add: sym_put_def)
qed

lemma symLookup_total:
  assumes "sym_at sc sd st"
  shows "\<exists>r. symLookup sc st sd (Some k) = Some r \<and> sym_find sc sd st k = map_option content r"
proof -
  obtain tp where t: "tab_inv sc tp" "sym_tab st sd = Some tp"
    using assms by (auto simp: sym_at_def sym_inv_def sym_tab_def)
  have "\<exists>r. tab_lookup sc tp k = Some r"
    using tab_lookup_find[OF t(1)] by (cases "k = []") auto
  then show ?thesis using t(2) by (auto simp: symLookup_tab sym_find_def split: option.splits)
qed

lemma websGetVar_find:
  assumes "sym_at sc sd st"
  shows "websGetVar sc st sd k d =
     Some (case sym_find sc sd st k of
             Some v \<Rightarrow> Some (case value_string v of Some t \<Rightarrow> t | None \<Rightarrow> [])
           | None \<Rightarrow> d)"
  using symLookup_total[OF assms, of k] by (auto simp: websGetVar_def split: option.splits)

lemma websSetVar_put:
  "websSetVar sc True True st sd k v =
     sym_put sc sd st k \<lparr>val_of = UString (Some (case v of Some s \<Rightarrow> s | None \<Rightarrow> [])), vtype_of = Vstring,
                          valid = True, allocated = True\<rparr>"
  by (cases v) (simp_all add: websSetVar_def sym_put_def valueString_def bstrdup_def VALUE_ALLOCATE_def)

definition str_val :: "cstring \<Rightarrow> value_t" where
  "str_val t = \<lparr>val_of = UString (Some t), vtype_of = Vstring, valid = True, allocated = True\<rparr>"

lemma websSetVar_law:
  assumes "sym_at sc sd st" "var \<noteq> []"
  shows "\<exists>st'. websSetVar sc True True st sd var v = Some st' \<and> sym_at sc sd st' \<and>
     sym_find sc sd st' = (sym_find sc sd st)(var \<mapsto> str_val (case v of Some s \<Rightarrow> s | None \<Rightarrow> []))"
  using st.enter_law[OF assms(1), of var] assms(2) by (simp add: websSetVar_put str_val_def)

lemma websGetVar_str: "sym_at sc sd st \<Longrightarrow> sym_find sc sd st k = Some (str_val w) \<Longrightarrow> websGetVar sc st sd k d = Some (Some w)"
  by (simp add: websGetVar_find str_val_def value_string_def)

text \<open>Traversals of an open table.\<close>

lemma tab_size: "sym_inv sc st \<Longrightarrow> sym_tab st sd = Some tp \<Longrightarrow> hash_size tp = int (length (hash_table tp))"
  by (auto simp: sym_inv_def sym_tab_def tab_inv_def)

lemma symFirst_over:
  assumes "sym_inv sc st" "sym_tab st sd = Some tp"
  shows "\<exists>st'. symFirst (Some x) st sd = Some (st', head_of (concat (hash_table tp))) \<and> sym st' = sym st \<and>
      (concat (hash_table tp) \<noteq> [] \<longrightarrow> sym_cursor tp st' \<and> sym_todo tp st' = tl (concat (hash_table tp)))"
proof -
  have "hash_size tp = int (length (hash_table tp))" using tab_size[OF assms] .
  then show ?thesis using symFirst_loop_over[of tp 0 x st] assms(2) by (simp add: symFirst_def sym_tab_def)
qed

lemma symNext_over:
  assumes "sym_inv sc st" "sym_tab st sd = Some tp" "sym_cursor tp st"
  shows "\<exists>st'. symNext (Some x) st sd = Some (st', head_of (sym_todo tp st)) \<and> sym st' = sym st \<and>
      (sym_todo tp st \<noteq> [] \<longrightarrow> sym_cursor tp st' \<and> sym_todo tp st' = tl (sym_todo tp st))"
proof -
  have "loop_todo tp st (htIndex st) = sym_todo tp st" by (simp add: loop_todo_def sym_todo_def sym_rest_def)
  then show ?thesis
    using symNext_loop_over[of tp "htIndex st" x st] tab_size[OF assms(1,2)] assms(2,3) by (simp add: symNext_def sym_tab_def sym_cursor_def)
qed

section \<open>Properties\<close>

text \<open>A table of three chains that holds the symbol \<^verbatim>\<open>a\<close>, in a list of one table.\<close>

definition tab_sample :: sym_tabent where
  "tab_sample = \<lparr>inuse = 0, hash_size = 3,
     hash_table = [[], [\<lparr>name = str_val ''a'', content = str_val ''1'', arg = 0\<rparr>], []]\<rparr>"

definition sym_sample :: sym_state where
  "sym_sample = \<lparr>sym = Some \<lparr>H_LEN = 16, H_USED = 1, slots = Some tab_sample # replicate 15 None\<rparr>,
     symMax = 1, symOpenCount = 1, htIndex = 0, nextp = []\<rparr>"

lemma hash_a: "hash_sum sc ''a'' 0 0 = 97"
  by (simp add: c_char_def)

lemma tab_sample_inv: "tab_inv sc tab_sample"
proof -
  have "hashIndex sc tab_sample ''a'' = 1" by (simp add: hashIndex_def hash_a tab_sample_def del: hash_sum.simps)
  then show ?thesis
    by (auto simp: tab_inv_def tab_sample_def str_val_def value_string_def less_Suc_eq)
qed

lemma sym_sample_inv: "sym_inv sc sym_sample" "sym_tab sym_sample 0 = Some tab_sample"
proof -
  have g: "h_get (sym sym_sample) sd = (if sd = 0 then Some tab_sample else None)" for sd
    by (auto simp: h_get_def sym_sample_def nth_Cons' nat_diff_distrib intro!: nth_replicate)
  then show "sym_tab sym_sample 0 = Some tab_sample" by (simp add: sym_tab_def)
  have "h_inv (sym sym_sample)" by (simp add: sym_sample_def h_inv_def h_ok_def H_INCR_def)
  then show "sym_inv sc sym_sample" using g tab_sample_inv by (simp add: sym_inv_def)
qed

text \<open>
  C26. Entering a symbol in an open, well-formed table, with the allocations granted, succeeds
  and keeps every table well-formed; afterwards the name is found with the new value (an
  existing entry is overwritten), every other name and every other table answers as before.
  Names are compared and hashed over their whole length, so colliding names stay apart.
\<close>

theorem symEnter_lookup:
  assumes "sym_inv sc st" and "sym_tab st sd = Some tp"
  shows "\<exists>st' sp. symEnter sc True True st sd nm v a = Some (st', Some sp) \<and> sym_inv sc st' \<and>
     content sp = v \<and> arg sp = a \<and> dom (sym_tab st') = dom (sym_tab st) \<and>
     (\<forall>d k. d \<noteq> sd \<and> sym_tab st d \<noteq> None \<longrightarrow> symLookup sc st' d k = symLookup sc st d k) \<and>
     (\<forall>k. symLookup sc st' sd (Some k) =
        (if k = nm \<and> nm \<noteq> [] then Some (Some sp) else symLookup sc st sd (Some k)))"
  by (rule symEnter_spec[OF assms])

theorem symEnter_lookup_witness:
  "\<exists>st' sp. symEnter True True True sym_sample 0 ''b'' (str_val ''2'') 7 = Some (st', Some sp) \<and>
     content sp = str_val ''2'' \<and> arg sp = 7 \<and> symLookup True st' 0 (Some ''b'') = Some (Some sp)"
  using symEnter_lookup[OF sym_sample_inv, of True "''b''" "str_val ''2''" 7] by fastforce

text \<open>
  Deleting a non-empty name from an open, well-formed table returns 0 when the name was
  present and -1 otherwise; afterwards that name is not found, every other name and every
  other table answers as before, and the tables stay well-formed.
\<close>

theorem symDelete_removes:
  assumes "sym_inv sc st" and "sym_tab st sd = Some tp" and "nm \<noteq> []"
  shows "\<exists>st' rc. symDelete sc st sd nm = Some (st', rc) \<and> sym_inv sc st' \<and>
     rc = (if symLookup sc st sd (Some nm) = Some None then -1 else 0) \<and>
     dom (sym_tab st') = dom (sym_tab st) \<and>
     (\<forall>d k. d \<noteq> sd \<and> sym_tab st d \<noteq> None \<longrightarrow> symLookup sc st' d k = symLookup sc st d k) \<and>
     (\<forall>k. symLookup sc st' sd (Some k) = (if k = nm then Some None else symLookup sc st sd (Some k)))"
  by (rule symDelete_spec[OF assms])

theorem symDelete_removes_witness:
  "\<exists>st'. symDelete True sym_sample 0 ''a'' = Some (st', 0) \<and> symLookup True st' 0 (Some ''a'') = Some None"
proof -
  have "symLookup True sym_sample 0 (Some ''a'') \<noteq> Some None"
    using tab_lookup_find[OF tab_sample_inv, of "''a''" True]
    by (simp add: symLookup_tab[OF sym_sample_inv(2)] tab_sample_def hashIndex_def c_char_def str_val_def value_string_def)
  then show ?thesis using symDelete_removes[OF sym_sample_inv, of "''a''" True] by fastforce
qed

text \<open>
  \<^verbatim>\<open>symOpen\<close> on well-formed tables, with its two object allocations granted, either returns
  -1 because the handle list could not grow, leaving the tables as they were, or returns a
  handle below \<^verbatim>\<open>symMax\<close> that was not in use, whose table has the largest prime not above the
  requested size as its number of chains and finds no name; the other tables are unchanged.
\<close>

theorem symOpen_empty_table:
  assumes "sym_inv sc st" and "0 < hsize"
  shows "\<exists>st' sd. symOpen m True True st hsize = Some (st', sd) \<and>
     (sd = -1 \<and> refuses m \<and> sym_tab st' = sym_tab st \<or>
      0 \<le> sd \<and> sym_tab st sd = None \<and> sd < symMax st' \<and> sym_inv sc st' \<and>
      (\<exists>tp. sym_tab st' = (sym_tab st)(sd \<mapsto> tp) \<and> hash_size tp \<le> hsize \<and>
         (\<forall>d. 1 < d \<and> d < hash_size tp \<longrightarrow> \<not> d dvd hash_size tp) \<and>
         (\<forall>k. hash_size tp < k \<and> k \<le> hsize \<longrightarrow> (\<exists>d. 1 < d \<and> d < k \<and> d dvd k))) \<and>
      (\<forall>k. symLookup sc st' sd (Some k) = Some None))"
proof -
  have c: "0 < calcPrime hsize" "calcPrime hsize \<le> hsize" "isPrime (calcPrime hsize)"
    "\<forall>k. calcPrime hsize < k \<and> k \<le> hsize \<longrightarrow> \<not> isPrime k"
    using calcPrime_spec[OF assms(2)] by blast+
  have "\<forall>d. 1 < d \<and> d < calcPrime hsize \<longrightarrow> \<not> d dvd calcPrime hsize"
    using c(1,3) isPrime_iff by blast
  moreover have "\<forall>k. calcPrime hsize < k \<and> k \<le> hsize \<longrightarrow> (\<exists>d. 1 < d \<and> d < k \<and> d dvd k)"
    using c(1,4) isPrime_iff by (metis order_less_trans)
  ultimately show ?thesis using symOpen_spec[OF assms, of m] c(2) by metis
qed

theorem symOpen_empty_table_witness:
  "\<exists>st' sd. symOpen (\<lambda>_. Some (\<lambda>_. CHR 0x00)) True True sym_sample 64 = Some (st', sd) \<and>
     0 \<le> sd \<and> symLookup True st' sd (Some ''a'') = Some None"
proof -
  have "\<not> refuses (\<lambda>_. Some (\<lambda>_. CHR 0x00))" by (simp add: refuses_def)
  then show ?thesis using symOpen_empty_table[OF sym_sample_inv(1), where hsize = 64 and sc = True
        and m = "\<lambda>_. Some (\<lambda>_. CHR 0x00)"] by fastforce
qed



text \<open>
  C35. Request variables: after \<^verbatim>\<open>websSetVar\<close> with a non-empty name, \<^verbatim>\<open>websGetVar\<close> returns the value
  set (the empty string for a null value) whatever default is given, and every other
  variable reads as before.
\<close>

theorem websGetVar_after_websSetVar:
  assumes "sym_inv sc st" and "sym_tab st cgiVars \<noteq> None" and "var \<noteq> []"
  shows "\<exists>st'. websSetVar sc True True st cgiVars var v = Some st' \<and> sym_inv sc st' \<and>
     websGetVar sc st' cgiVars var d = Some (Some (case v of Some s \<Rightarrow> s | None \<Rightarrow> [])) \<and>
     (\<forall>k. k \<noteq> var \<longrightarrow> websGetVar sc st' cgiVars k d = websGetVar sc st cgiVars k d)"
proof -
  define w where "w = (case v of Some s \<Rightarrow> s | None \<Rightarrow> [])"
  have a: "sym_at sc cgiVars st" using assms(1,2) by (simp add: sym_at_def)
  obtain st' where s: "websSetVar sc True True st cgiVars var v = Some st'" "sym_at sc cgiVars st'"
    "sym_find sc cgiVars st' = (sym_find sc cgiVars st)(var \<mapsto> str_val w)"
    using websSetVar_law[OF a assms(3), of v] unfolding w_def by blast
  then show ?thesis
    using websGetVar_str[OF s(2), of var w] by (simp add: websGetVar_find[OF a] websGetVar_find[OF s(2)] sym_at_def w_def)
qed

theorem websGetVar_after_websSetVar_witness:
  "\<exists>st'. websSetVar True True True sym_sample 0 ''HOST'' (Some ''x'') = Some st' \<and>
     websGetVar True st' 0 ''HOST'' None = Some (Some ''x'') \<and>
     websGetVar True st' 0 ''a'' None = websGetVar True sym_sample 0 ''a'' None"
  using websGetVar_after_websSetVar[OF sym_sample_inv(1), of 0 "''HOST''" True "Some ''x''" None]
  by (fastforce simp: sym_sample_inv(2))

end
