(* ===== verification/Mime64.thy ===== *)
theory Mime64
  imports WebsPrelude
begin

unbundle bit_operations_syntax

text \<open>
  The base64 decoder of \<^verbatim>\<open>webs/src/src/mime64.c\<close>, used for the credentials of HTTP basic
  authentication. The output buffer is a byte list whose length is the room the caller
  allocated; \<open>outlen\<close> is the length the caller passes. \<open>None\<close> is a write outside the buffer.
  The table \<^verbatim>\<open>map64\<close> has plain \<^verbatim>\<open>char\<close> elements, so the flag \<open>sc\<close> (plain \<^verbatim>\<open>char\<close> is signed)
  decides whether its \<^verbatim>\<open>-1\<close> entries read back as -1 or as 255.
\<close>

section \<open>The decoder\<close>

definition map64 :: "int list" where
  "map64 = replicate 43 (-1) @ [62, -1, -1, -1, 63] @ [52, 53, 54, 55, 56, 57, 58, 59, 60, 61] @
     replicate 7 (-1) @
     [0, 1, 2, 3, 4, 5, 6, 7, 8, 9, 10, 11, 12, 13, 14, 15, 16, 17, 18, 19, 20, 21, 22, 23, 24, 25] @
     replicate 6 (-1) @
     [26, 27, 28, 29, 30, 31, 32, 33, 34, 35, 36, 37, 38, 39, 40, 41, 42, 43, 44, 45, 46, 47, 48,
      49, 50, 51] @ replicate 197 (-1)"

text \<open>\<^verbatim>\<open>c = map64[*cp & 0xff]\<close>: the element is stored as a \<^verbatim>\<open>char\<close> and read as an \<^verbatim>\<open>int\<close>.\<close>

definition map64_read :: "bool \<Rightarrow> char \<Rightarrow> int" where
  "map64_read sc x = c_char sc (to_char (map64 ! of_char x))"

text \<open>
  The inner loop: \<open>i\<close> characters are read, \<open>sb\<close> is \<^verbatim>\<open>shiftbuf\<close> (\<^verbatim>\<open>shift\<close> is \<open>18 - 6 * i\<close>). The result is
  the count, the buffer and the rest of the string; \<open>None\<close> is the rejection of a character.
\<close>

fun b64_group :: "bool \<Rightarrow> nat \<Rightarrow> cstring \<Rightarrow> 32 word \<Rightarrow> (nat \<times> 32 word \<times> cstring) option" where
  "b64_group sc i [] sb = Some (i, sb, [])"
| "b64_group sc i (x # cs) sb =
     (if i < 4 \<and> x \<noteq> CHR ''='' then
        (let c = map64_read sc x in
         if c = -1 then None
         else b64_group sc (i + 1) cs (sb OR push_bit (18 - 6 * i) (of_int c)))
      else Some (i, sb, x # cs))"

text \<open>The output loop: \<open>i - j\<close> bytes of \<open>sb\<close> are stored from \<open>op\<close> on.\<close>

definition b64_byte :: "32 word \<Rightarrow> nat \<Rightarrow> byte" where
  "b64_byte sb j = to_char (uint (drop_bit (8 * (2 - j)) sb AND 0xff))"

fun b64_emit :: "byte list \<Rightarrow> int \<Rightarrow> 32 word \<Rightarrow> nat \<Rightarrow> nat \<Rightarrow> (byte list \<times> int) option" where
  "b64_emit buf op sb j 0 = Some (buf, op)"
| "b64_emit buf op sb j (Suc n) = do {
     buf1 \<leftarrow> mem_write buf op (b64_byte sb j);
     b64_emit buf1 (op + 1) sb (j + 1) n }"

definition too_big :: "byte list" where
  "too_big = ''String too big'' @ [CHR 0x00]"

lemma b64_group_rest:
  "b64_group sc i cs sb = Some (n, sb', rest) \<Longrightarrow> length rest \<le> length cs \<and> i \<le> n"
  by (induction sc i cs sb rule: b64_group.induct) (auto simp: Let_def split: if_splits)

lemma b64_group_progress:
  "b64_group sc 0 (x # cs) sb = Some (n, sb', rest) \<Longrightarrow> x \<noteq> CHR ''='' \<Longrightarrow> length rest \<le> length cs \<and> 1 \<le> n"
  using b64_group_rest[of sc 1 cs] by (auto simp: Let_def split: if_splits)

text \<open>The outer loop; the result is the buffer and the return code.\<close>

function b64_loop :: "bool \<Rightarrow> int \<Rightarrow> byte list \<Rightarrow> int \<Rightarrow> cstring \<Rightarrow> (byte list \<times> int) option" where
  "b64_loop sc outlen buf op cp =
     (case cp of
        [] \<Rightarrow> Some (buf, 0)
      | x # cs \<Rightarrow>
          if x = CHR ''='' then Some (buf, 0)
          else
            (case b64_group sc 0 (x # cs) 0 of
               None \<Rightarrow> Some (buf, -1)
             | Some (n, sb, rest) \<Rightarrow>
                 let i = n - 1 in
                 if op + int i \<ge> outlen then do {
                   buf1 \<leftarrow> mem_copy buf 0 too_big 15;
                   Some (buf1, -1) }
                 else do {
                   (buf1, op1) \<leftarrow> b64_emit buf op sb 0 i;
                   buf2 \<leftarrow> mem_write buf1 op1 (CHR 0x00);
                   b64_loop sc outlen buf2 op1 rest }))"
  by pat_completeness auto
termination
  by (relation "measure (\<lambda>(sc, outlen, buf, op, cp). length cp)")
    (auto dest!: b64_group_progress simp: less_Suc_eq_le simp del: b64_group.simps)

declare b64_loop.simps [simp del]

definition websDecode64 :: "bool \<Rightarrow> byte list \<Rightarrow> cstring \<Rightarrow> int \<Rightarrow> (byte list \<times> int) option" where
  "websDecode64 sc outbuf str outlen = do {
     buf \<leftarrow> mem_write outbuf 0 (CHR 0x00);
     b64_loop sc outlen buf 0 str }"

section \<open>Reference encoder\<close>

text \<open>The encoding of RFC 4648 with padding, on groups of three bytes.\<close>

definition alphabet64 :: string where
  "alphabet64 = ''ABCDEFGHIJKLMNOPQRSTUVWXYZabcdefghijklmnopqrstuvwxyz0123456789+/''"

definition chr64 :: "32 word \<Rightarrow> char" where
  "chr64 v = alphabet64 ! unat v"

abbreviation byte_word :: "byte \<Rightarrow> 32 word" where
  "byte_word c \<equiv> of_int (c_uchar c)"

definition sx0 :: "byte \<Rightarrow> 32 word" where "sx0 a = drop_bit 2 (byte_word a)"
definition sx1 :: "byte \<Rightarrow> 32 word \<Rightarrow> 32 word" where
  "sx1 a b = push_bit 4 (take_bit 2 (byte_word a)) OR drop_bit 4 b"
definition sx2 :: "byte \<Rightarrow> 32 word \<Rightarrow> 32 word" where
  "sx2 b c = push_bit 2 (take_bit 4 (byte_word b)) OR drop_bit 6 c"
definition sx3 :: "byte \<Rightarrow> 32 word" where "sx3 c = take_bit 6 (byte_word c)"

fun enc64 :: "byte list \<Rightarrow> cstring" where
  "enc64 [] = []"
| "enc64 [a] = [chr64 (sx0 a), chr64 (sx1 a 0)] @ ''==''"
| "enc64 [a, b] = [chr64 (sx0 a), chr64 (sx1 a (byte_word b)), chr64 (sx2 b 0)] @ ''=''"
| "enc64 (a # b # c # bs) =
     [chr64 (sx0 a), chr64 (sx1 a (byte_word b)), chr64 (sx2 b (byte_word c)), chr64 (sx3 c)] @ enc64 bs"

section \<open>Decoding one group\<close>

definition codes64 :: "nat list" where
  "codes64 = [65..<91] @ [97..<123] @ [48..<58] @ [43, 47]"

lemma alphabet64_codes: "map of_char alphabet64 = codes64"
  by (simp add: alphabet64_def codes64_def upt_rec)

lemma map64_codes: "map (\<lambda>k. map64 ! k) codes64 = map int [0..<64]"
  by (simp add: map64_def codes64_def nth_append upt_rec)

lemma alphabet64_table:
  assumes "n < 64"
  shows "map64_read sc (alphabet64 ! n) = int n" and "alphabet64 ! n \<noteq> CHR ''=''"
proof -
  have l: "length alphabet64 = 64" "length codes64 = 64" by (simp_all add: alphabet64_def codes64_def)
  have "of_char (alphabet64 ! n) = codes64 ! n"
    using alphabet64_codes assms l by (metis nth_map)
  moreover have "map64 ! (codes64 ! n) = map int [0..<64] ! n"
    using map64_codes assms l by (metis nth_map)
  moreover have "map int [0..<64] ! n = int n" using assms by (simp del: upt_Suc list.map upt_rec_numeral)
  ultimately have m: "map64 ! of_char (alphabet64 ! n) = int n" by simp
  have "(of_char (char_of n :: char) :: int) = int n"
    using assms of_nat_of_char[of "char_of n", where ?'a = int] by simp
  then show "map64_read sc (alphabet64 ! n) = int n"
    using m assms by (simp add: map64_read_def to_char_def c_char_def Let_def)
  have "alphabet64 ! n \<in> set alphabet64" using assms l by simp
  then show "alphabet64 ! n \<noteq> CHR ''=''" by (auto simp: alphabet64_def)
qed

lemma chr64_read:
  assumes "v < 64"
  shows "map64_read sc (chr64 v) = int (unat v)" and "chr64 v \<noteq> CHR ''=''"
proof -
  have "unat v < 64" using assms unfolding word_less_nat_alt by simp
  then show "map64_read sc (chr64 v) = int (unat v)" and "chr64 v \<noteq> CHR ''=''"
    using alphabet64_table[of "unat v"] by (simp_all add: chr64_def)
qed

lemma b64_group_chr:
  assumes "v < 64" "i < 4"
  shows "b64_group sc i (chr64 v # cs) sb = b64_group sc (Suc i) cs (sb OR push_bit (18 - 6 * i) v)"
proof -
  have "int (unat v) \<noteq> -1" by linarith
  then show ?thesis
    using chr64_read(1)[OF assms(1), of sc] chr64_read(2)[OF assms(1)] assms(2) by (simp add: Let_def)
qed

lemma byte_word_bit: "bit (byte_word c) n \<Longrightarrow> n < 8"
proof -
  assume "bit (byte_word c) n"
  then have "bit (c_uchar c) n" by (simp add: bit_word_of_int_iff)
  moreover have "take_bit 8 (c_uchar c) = c_uchar c" by (simp add: take_bit_int_eq_self_iff)
  ultimately show "n < 8" by (metis bit_take_bit_iff)
qed

lemma bits6: "(\<And>n. bit v n \<Longrightarrow> n < 6) \<Longrightarrow> v < (64 :: 32 word)"
proof -
  assume a: "\<And>n. bit v n \<Longrightarrow> n < 6"
  then have "take_bit 6 v = v" by (intro bit_eqI) (auto simp: bit_take_bit_iff)
  then have "uint v = take_bit 6 (uint v)" by (metis unsigned_take_bit_eq)
  then have "uint v < 2 ^ 6" by (metis take_bit_int_less_exp)
  then show ?thesis by (simp add: word_less_def)
qed

lemma sx_bounds:
  "sx0 a < 64" "sx1 a 0 < 64" "sx1 a (byte_word b) < 64" "sx2 b 0 < 64" "sx2 b (byte_word c) < 64" "sx3 c < 64"
  by (rule bits6, auto simp: sx0_def sx1_def sx2_def sx3_def bit_or_iff bit_push_bit_iff
      bit_take_bit_iff bit_drop_bit_eq dest!: byte_word_bit)+

lemma b64_byte_eq:
  assumes "\<And>n. n < 8 \<Longrightarrow> bit sb (8 * (2 - j) + n) \<longleftrightarrow> bit (byte_word c) n"
  shows "b64_byte sb j = c"
proof -
  have m: "(255 :: 32 word) = mask 8" by (simp add: mask_eq_exp_minus_1)
  have "drop_bit (8 * (2 - j)) sb AND 0xff = byte_word c"
  proof (rule bit_eqI)
    fix n
    show "bit (drop_bit (8 * (2 - j)) sb AND 0xff) n \<longleftrightarrow> bit (byte_word c) n"
      using assms[of n] byte_word_bit[of c n]
      by (auto simp: m bit_and_iff bit_mask_iff bit_drop_bit_eq)
  qed
  moreover have "uint (byte_word c) = c_uchar c"
    by (simp add: unsigned_of_int take_bit_int_eq_self_iff order_less_trans[OF c_uchar_range(2)])
  ultimately show ?thesis by (simp add: b64_byte_def)
qed

text \<open>The bytes that the shift buffer of a full or a padded group yields.\<close>

lemma group_bytes:
  fixes a b c :: byte
  defines "sb3 \<equiv> push_bit 18 (sx0 a) OR push_bit 12 (sx1 a (byte_word b)) OR push_bit 6 (sx2 b (byte_word c)) OR sx3 c"
    and "sb2 \<equiv> push_bit 18 (sx0 a) OR push_bit 12 (sx1 a (byte_word b)) OR push_bit 6 (sx2 b 0)"
    and "sb1 \<equiv> push_bit 18 (sx0 a) OR push_bit 12 (sx1 a 0)"
  shows "b64_byte sb3 0 = a" "b64_byte sb3 1 = b" "b64_byte sb3 2 = c"
    "b64_byte sb2 0 = a" "b64_byte sb2 1 = b" "b64_byte sb1 0 = a"
proof -
  define A B C where "A = byte_word a" and "B = byte_word b" and "C = byte_word c"
  note d = sx0_def sx1_def sx2_def sx3_def A_def[symmetric] B_def[symmetric] C_def[symmetric]
    bit_or_iff bit_push_bit_iff bit_take_bit_iff bit_drop_bit_eq
  have n23: "bit X (Suc (Suc 0)) = bit X 2" "bit X (Suc (Suc (Suc 0))) = bit X 3" for X :: "32 word"
    by (simp_all add: numeral_2_eq_2 numeral_3_eq_3)
  have n8: "n < 8 \<Longrightarrow> n = 0 \<or> n = 1 \<or> n = 2 \<or> n = 3 \<or> n = 4 \<or> n = 5 \<or> n = 6 \<or> n = (7::nat)" for n by auto
  have z': "\<not> bit A (numeral k)" "\<not> bit B (numeral k)" "\<not> bit C (numeral k)" if "8 \<le> (numeral k :: nat)" for k
    using byte_word_bit[of a "numeral k"] byte_word_bit[of b "numeral k"] byte_word_bit[of c "numeral k"] that
    unfolding A_def B_def C_def by linarith+
  show "b64_byte sb3 0 = a" by (rule b64_byte_eq, drule n8) (elim disjE; simp add: sb3_def d z' n23)
  show "b64_byte sb3 1 = b" by (rule b64_byte_eq, drule n8) (elim disjE; simp add: sb3_def d z' n23)
  show "b64_byte sb3 2 = c" by (rule b64_byte_eq, drule n8) (elim disjE; simp add: sb3_def d z' n23)
  show "b64_byte sb2 0 = a" by (rule b64_byte_eq, drule n8) (elim disjE; simp add: sb2_def d z' n23)
  show "b64_byte sb2 1 = b" by (rule b64_byte_eq, drule n8) (elim disjE; simp add: sb2_def d z' n23)
  show "b64_byte sb1 0 = a" by (rule b64_byte_eq, drule n8) (elim disjE; simp add: sb1_def d z' n23)
qed

section \<open>Decoding a whole string\<close>

lemma b64_emit_spec:
  "0 \<le> op \<Longrightarrow> op + int n \<le> int (length buf) \<Longrightarrow>
     b64_emit buf op sb j n =
       Some (take (nat op) buf @ map (b64_byte sb) [j..<j + n] @ drop (nat op + n) buf, op + int n)"
proof (induction n arbitrary: buf op j)
  case 0
  then show ?case by simp
next
  case (Suc n)
  have o: "nat (op + 1) = Suc (nat op)" using Suc.prems by simp
  have "mem_write buf op (b64_byte sb j) = Some (buf[nat op := b64_byte sb j])"
    using Suc.prems by (intro mem_write_Some) auto
  moreover have "take (Suc (nat op)) (buf[nat op := b64_byte sb j]) = take (nat op) buf @ [b64_byte sb j]"
    using Suc.prems by (simp add: take_Suc_conv_app_nth)
  moreover have "[j..<j + Suc n] = j # [Suc j..<Suc j + n]" by (simp add: upt_conv_Cons)
  ultimately show ?case
    using Suc.IH[of "op + 1" "buf[nat op := b64_byte sb j]" "j + 1"] Suc.prems o
    by (simp del: upt_Suc)
qed

lemma upt_small: "[0..<1] = [0]" "[0..<2] = [0, 1]" "[0..<3] = [0, 1, 2 :: nat]"
  by (simp_all add: upt_rec)

text \<open>One round of the outer loop on a group that decodes to the bytes \<open>bs\<close>.\<close>

lemma b64_loop_group:
  assumes g: "b64_group sc 0 (x # cs) 0 = Some (Suc n, sb, rest)" and x: "x \<noteq> CHR ''=''"
    and o: "0 \<le> op" "op + int n < outlen" "outlen \<le> int (length buf)"
    and bs: "map (b64_byte sb) [0..<n] = bs"
  shows "b64_loop sc outlen buf op (x # cs) =
     b64_loop sc outlen (take (nat op) buf @ bs @ [CHR 0x00] @ drop (Suc (nat op + n)) buf) (op + int n) rest"
proof -
  define buf1 where "buf1 = take (nat op) buf @ bs @ drop (nat op + n) buf"
  have l: "length bs = n" using bs by auto
  have e: "b64_emit buf op sb 0 n = Some (buf1, op + int n)"
    using b64_emit_spec[of op n buf sb 0] o bs by (simp add: buf1_def)
  have "length buf1 = length buf" using l o by (simp add: buf1_def)
  then have w: "mem_write buf1 (op + int n) (CHR 0x00) = Some (buf1[nat (op + int n) := CHR 0x00])"
    using o by (intro mem_write_Some) auto
  have k: "nat (op + int n) = nat op + n" using o by (simp add: nat_add_distrib)
  have "drop (nat op + n) buf = buf ! (nat op + n) # drop (Suc (nat op + n)) buf"
    using o k by (intro take_Suc_drop_nth) linarith
  then have "buf1[nat op + n := CHR 0x00] = take (nat op) buf @ bs @ [CHR 0x00] @ drop (Suc (nat op + n)) buf"
    using l o by (simp add: buf1_def list_update_append)
  then show ?thesis using g x o e w k by (simp add: b64_loop.simps[of sc outlen buf op "x # cs"] Let_def)
qed

lemma b64_loop_stop [simp]:
  "b64_loop sc outlen buf op [] = Some (buf, 0)"
  "b64_loop sc outlen buf op (CHR ''='' # cs) = Some (buf, 0)"
  by (simp_all add: b64_loop.simps[of sc outlen buf op])

lemma nul_in_place:
  "buf ! k = CHR 0x00 \<Longrightarrow> k < length buf \<Longrightarrow> take k buf @ [CHR 0x00] @ drop (Suc k) buf = buf"
  by (metis append_Cons append_Nil id_take_nth_drop)

lemma b64_loop_enc64:
  "0 \<le> op \<Longrightarrow> op + int (length bs) < outlen \<Longrightarrow> outlen \<le> int (length buf) \<Longrightarrow> buf ! nat op = CHR 0x00 \<Longrightarrow>
     b64_loop sc outlen buf op (enc64 bs) =
       Some (take (nat op) buf @ bs @ [CHR 0x00] @ drop (Suc (nat op + length bs)) buf, 0)"
proof (induction bs arbitrary: op buf rule: enc64.induct)
  case 1
  then show ?case using nul_in_place[of buf "nat op"] by simp
next
  case (2 a)
  have "b64_group sc 0 (enc64 [a]) 0 = Some (Suc 1, push_bit 18 (sx0 a) OR push_bit 12 (sx1 a 0), ''=='')"
    by (simp add: b64_group_chr sx_bounds del: b64_group.simps) (simp add: or.assoc)
  then show ?case
    using b64_loop_group[of sc "chr64 (sx0 a)" "[chr64 (sx1 a 0)] @ ''==''" 1 _ "''==''" op outlen buf "[a]"] 2
    by (simp add: upt_small group_bytes group_bytes[unfolded One_nat_def] chr64_read sx_bounds del: b64_group.simps)
next
  case (3 a b)
  have "b64_group sc 0 (enc64 [a, b]) 0 = Some (Suc 2, push_bit 18 (sx0 a) OR push_bit 12 (sx1 a (byte_word b))
      OR push_bit 6 (sx2 b 0), ''='')"
    by (simp add: b64_group_chr sx_bounds del: b64_group.simps) (simp add: or.assoc)
  then show ?case
    using b64_loop_group[of sc "chr64 (sx0 a)" "[chr64 (sx1 a (byte_word b)), chr64 (sx2 b 0)] @ ''=''" 2 _ "''=''"
        op outlen buf "[a, b]"] 3
    by (simp add: upt_small group_bytes group_bytes[unfolded One_nat_def] chr64_read sx_bounds del: b64_group.simps)
next
  case (4 a b c bs)
  let ?buf = "take (nat op) buf @ [a, b, c] @ [CHR 0x00] @ drop (Suc (nat op + 3)) buf"
  have g: "b64_group sc 0 (enc64 (a # b # c # bs)) 0 = Some (Suc 3, push_bit 18 (sx0 a) OR
      push_bit 12 (sx1 a (byte_word b)) OR push_bit 6 (sx2 b (byte_word c)) OR sx3 c, enc64 bs)"
    by (simp add: b64_group_chr sx_bounds del: b64_group.simps) (cases "enc64 bs"; simp add: or.assoc)
  have len: "nat op + 3 < length buf" "nat (op + 3) = nat op + 3" using 4(2-4) by auto
  have "b64_loop sc outlen buf op (enc64 (a # b # c # bs)) = b64_loop sc outlen ?buf (op + 3) (enc64 bs)"
    using b64_loop_group[of sc "chr64 (sx0 a)" "[chr64 (sx1 a (byte_word b)), chr64 (sx2 b (byte_word c)),
        chr64 (sx3 c)] @ enc64 bs" 3 _ "enc64 bs" op outlen buf "[a, b, c]"] g 4(2-4)
    by (simp add: upt_small group_bytes group_bytes[unfolded One_nat_def] chr64_read sx_bounds del: b64_group.simps)
  also have "\<dots> = Some (take (nat op + 3) ?buf @ bs @ [CHR 0x00] @ drop (Suc (nat op + 3 + length bs)) ?buf, 0)"
    using 4(1)[of "op + 3" ?buf] 4(2-4) len by (simp add: nth_append)
  also have "take (nat op + 3) ?buf = take (nat op) buf @ [a, b, c]" using len by simp
  also have "drop (Suc (nat op + 3 + length bs)) ?buf = drop (Suc (nat op + length (a # b # c # bs))) buf"
    using drop_splice[of "nat op" buf "[a, b, c, CHR 0x00]" "Suc (nat op + 3 + length bs)"] len
    by (simp add: numeral_eq_Suc add.commute)
  finally show ?case by simp
qed

text \<open>Every round keeps inside \<open>outlen\<close> bytes; only the message for a full buffer needs fifteen.\<close>

lemma b64_group_reads:
  "b64_group sc i cs sb = Some (n, sb', rest) \<Longrightarrow>
     \<exists>pre. cs = pre @ rest \<and> n = i + length pre \<and>
       (\<forall>x\<in>set pre. x \<noteq> CHR ''='' \<and> map64_read sc x \<noteq> -1)"
proof (induction sc i cs sb rule: b64_group.induct)
  case (2 sc i x cs sb)
  show ?case
  proof (cases "i < 4 \<and> x \<noteq> CHR ''=''")
    case True
    then have c: "map64_read sc x \<noteq> -1" using "2.prems" by (auto simp: Let_def)
    then obtain pre where "cs = pre @ rest" "n = i + 1 + length pre"
      "\<forall>x\<in>set pre. x \<noteq> CHR ''='' \<and> map64_read sc x \<noteq> -1"
      using "2.IH"[OF True refl c] "2.prems" True by (auto simp: Let_def)
    then show ?thesis using c True by (intro exI[of _ "x # pre"]) simp
  next
    case False
    then have "n = i \<and> rest = x # cs" using "2.prems" by (auto split: if_splits)
    then show ?thesis by simp
  qed
qed simp

lemma b64_group_rejects: "b64_group sc i cs sb = None \<Longrightarrow> \<exists>x. map64_read sc x = -1"
  by (induction sc i cs sb rule: b64_group.induct) (auto simp: Let_def split: if_splits)

lemma map64_read_unsigned: "map64_read False x \<noteq> -1"
  using of_char_bounds(1)[of "to_char (map64 ! of_char x)"] by (simp add: map64_read_def c_char_def Let_def)

lemma takeWhile_prefix:
  "\<forall>x\<in>set pre. P x \<Longrightarrow> set (takeWhile P (pre @ rest)) = set pre \<union> set (takeWhile P rest)"
  by (simp add: takeWhile_append2)

definition b64_post :: "bool \<Rightarrow> int \<Rightarrow> byte list \<Rightarrow> int \<Rightarrow> cstring \<Rightarrow> (byte list \<times> int) option \<Rightarrow> bool" where
  "b64_post sc outlen buf op cp res \<longleftrightarrow>
     (\<exists>buf' rc. res = Some (buf', rc) \<and> length buf' = length buf \<and>
       drop (nat outlen) buf' = drop (nat outlen) buf \<and> (rc = 0 \<or> rc = -1) \<and>
       (rc = 0 \<longrightarrow> (\<forall>x\<in>set (takeWhile (\<lambda>x. x \<noteq> CHR ''='') cp). map64_read sc x \<noteq> -1)) \<and>
       (\<not> sc \<and> op + int (length cp) < outlen \<longrightarrow> rc = 0))"

lemma too_big_length: "length too_big = 15"
  by (simp add: too_big_def)

lemma b64_loop_safe:
  "0 \<le> op \<Longrightarrow> op < outlen \<Longrightarrow> 15 \<le> outlen \<Longrightarrow> outlen \<le> int (length buf) \<Longrightarrow>
     b64_post sc outlen buf op cp (b64_loop sc outlen buf op cp)"
proof (induction "length cp" arbitrary: cp op buf rule: less_induct)
  case less
  show ?case
  proof (cases cp)
    case Nil
    then show ?thesis by (simp add: b64_post_def)
  next
    case (Cons x cs)
    show ?thesis
    proof (cases "x = CHR ''=''")
      case True
      then show ?thesis using Cons by (simp add: b64_post_def)
    next
      case ne: False
      show ?thesis
      proof (cases "b64_group sc 0 (x # cs) 0")
        case None
        then have "b64_loop sc outlen buf op cp = Some (buf, -1)"
          using Cons ne by (simp add: b64_loop.simps[of sc outlen buf op "x # cs"] del: b64_group.simps)
        moreover have "sc" using b64_group_rejects[OF None] map64_read_unsigned by (cases sc) auto
        ultimately show ?thesis by (simp add: b64_post_def)
      next
        case (Some r)
        then obtain n sb rest where g: "b64_group sc 0 (x # cs) 0 = Some (n, sb, rest)" by (cases r) auto
        obtain pre where pre: "x # cs = pre @ rest" "n = length pre"
          "\<forall>x\<in>set pre. x \<noteq> CHR ''='' \<and> map64_read sc x \<noteq> -1"
          using b64_group_reads[OF g] by auto
        have n: "length rest \<le> length cs" "1 \<le> n" using b64_group_progress[OF g ne] by auto
        obtain k where k: "n = Suc k" using n(2) by (cases n) auto
        have lcp: "length cp = Suc k + length rest" using Cons pre(1,2) k by (metis length_append)
        show ?thesis
        proof (cases "op + int k < outlen")
          case False
          then have "b64_loop sc outlen buf op cp = Some (too_big @ drop 15 buf, -1)"
            using Cons ne g k less.prems
            by (simp add: b64_loop.simps[of sc outlen buf op "x # cs"] Let_def mem_copy_def too_big_length del: b64_group.simps)
          moreover have "drop (nat outlen) (too_big @ drop 15 buf) = drop (nat outlen) buf"
            using less.prems too_big_length by simp
          ultimately show ?thesis
            using False less.prems lcp too_big_length by (simp add: b64_post_def)
        next
          case True
          let ?bs = "map (b64_byte sb) [0..<k]"
          let ?buf = "take (nat op) buf @ ?bs @ [CHR 0x00] @ drop (Suc (nat op + k)) buf"
          have e: "b64_loop sc outlen buf op cp = b64_loop sc outlen ?buf (op + int k) rest"
            using b64_loop_group[OF g[unfolded k] ne less.prems(1) True less.prems(4) refl] Cons by simp
          have l: "length ?buf = length buf" "nat op + k < nat outlen" using less.prems True by auto
          have "b64_post sc outlen ?buf (op + int k) rest (b64_loop sc outlen ?buf (op + int k) rest)"
            using less.prems True l n(1) Cons by (intro less.hyps) auto
          moreover have "drop (nat outlen) ?buf = drop (nat outlen) buf"
            using drop_splice[of "nat op" buf "?bs @ [CHR 0x00]" "nat outlen"] l less.prems by simp
          moreover have "set (takeWhile (\<lambda>x. x \<noteq> CHR ''='') cp) =
              set pre \<union> set (takeWhile (\<lambda>x. x \<noteq> CHR ''='') rest)"
            using takeWhile_prefix[of pre "\<lambda>x. x \<noteq> CHR ''=''" rest] pre(1,3) Cons by simp
          ultimately show ?thesis
            unfolding e b64_post_def using pre(3) l(1) lcp by fastforce
        qed
      qed
    qed
  qed
qed

section \<open>Properties\<close>

text \<open>
  C28. Round trip: decoding the RFC 4648 encoding of any bytes, padding included, returns 0 and
  stores exactly those bytes and a terminating NUL at the start of the buffer, leaving the
  rest of it alone, whenever bytes and NUL fit the stated length.
\<close>

theorem websDecode64_enc64:
  assumes "int (length bs) < outlen" and "outlen \<le> int (length outbuf)"
  shows "websDecode64 sc outbuf (enc64 bs) outlen =
     Some (bs @ [CHR 0x00] @ drop (Suc (length bs)) outbuf, 0)"
proof -
  have "mem_write outbuf 0 (CHR 0x00) = Some (outbuf[0 := CHR 0x00])"
    using assms by (auto simp: mem_write_def)
  moreover have "b64_loop sc outlen (outbuf[0 := CHR 0x00]) 0 (enc64 bs) =
      Some (bs @ [CHR 0x00] @ drop (Suc (length bs)) outbuf, 0)"
    using b64_loop_enc64[of 0 bs outlen "outbuf[0 := CHR 0x00]" sc] assms
    by (cases outbuf) simp_all
  ultimately show ?thesis by (simp add: websDecode64_def)
qed

theorem websDecode64_enc64_witness:
  "enc64 ''user:pw'' = ''dXNlcjpwdw=='' \<and>
   websDecode64 True (replicate 10 (CHR ''x'')) (enc64 ''user:pw'') 10 = Some (''user:pw'' @ [CHR 0x00] @ ''xx'', 0)"
proof -
  have "enc64 ''user:pw'' = ''dXNlcjpwdw==''" by code_simp
  then show ?thesis
    using websDecode64_enc64[of "''user:pw''" 10 "replicate 10 (CHR ''x'')" True] by (simp add: numeral_eq_Suc)
qed

text \<open>
  Buffer safety: on any string, decoding into a buffer of at least the stated length,
  which is at least 15, terminates without writing past that length and returns 0 or -1.
  Where plain \<^verbatim>\<open>char\<close> is signed it returns 0 only if every character before the first \<^verbatim>\<open>=\<close>
  belongs to the alphabet.
\<close>

theorem websDecode64_safe:
  assumes "15 \<le> outlen" and "outlen \<le> int (length outbuf)"
  shows "\<exists>buf rc. websDecode64 sc outbuf str outlen = Some (buf, rc) \<and> length buf = length outbuf \<and>
     drop (nat outlen) buf = drop (nat outlen) outbuf \<and> (rc = 0 \<or> rc = -1) \<and>
     (rc = 0 \<longrightarrow> (\<forall>x\<in>set (takeWhile (\<lambda>x. x \<noteq> CHR ''='') str). map64_read sc x \<noteq> -1))"
proof -
  have "mem_write outbuf 0 (CHR 0x00) = Some (outbuf[0 := CHR 0x00])"
    using assms by (auto simp: mem_write_def)
  then show ?thesis
    using b64_loop_safe[of 0 outlen "outbuf[0 := CHR 0x00]" sc str] assms
    by (fastforce simp: websDecode64_def b64_post_def)
qed

theorem websDecode64_safe_witness:
  "\<exists>buf rc. websDecode64 True (replicate 20 (CHR ''x'')) ''YW*j'' 16 = Some (buf, rc) \<and> length buf = 20 \<and> rc = -1"
proof -
  have "map64_read True CHR ''*'' = -1" by code_simp
  then show ?thesis
    using websDecode64_safe[of 16 "replicate 20 (CHR ''x'')" True "''YW*j''"] by (fastforce simp: numeral_eq_Suc)
qed

text \<open>
  Where plain \<^verbatim>\<open>char\<close> is unsigned, no character is rejected: any string shorter than the
  buffer decodes with return code 0, because the \<^verbatim>\<open>-1\<close> entries of the \<^verbatim>\<open>char\<close> table read
  back as 255 and the comparison with -1 never holds.
\<close>

theorem websDecode64_unsigned_accepts:
  assumes "15 \<le> outlen" and "outlen \<le> int (length outbuf)" and "int (length str) < outlen"
  shows "\<exists>buf. websDecode64 False outbuf str outlen = Some (buf, 0)"
proof -
  have "mem_write outbuf 0 (CHR 0x00) = Some (outbuf[0 := CHR 0x00])"
    using assms by (auto simp: mem_write_def)
  then show ?thesis
    using b64_loop_safe[of 0 outlen "outbuf[0 := CHR 0x00]" False str] assms
    by (fastforce simp: websDecode64_def b64_post_def)
qed

theorem websDecode64_unsigned_accepts_witness:
  "\<exists>buf. websDecode64 False (replicate 20 (CHR ''x'')) ''****'' 16 = Some (buf, 0)"
  by (rule websDecode64_unsigned_accepts) simp_all

end
