(* ===== verification/Mime.thy ===== *)
theory Mime
  imports Symtab
begin

text \<open>
  Content types: the list of \<^verbatim>\<open>webs/src/src/mime.c\<close> and the loop of \<^verbatim>\<open>websOpenServer\<close>
  (\<^verbatim>\<open>webs.c\<close>) that loads it into a symbol table. This is a client of the interface
  \<open>string_table\<close> that theory \<open>Symtab\<close> provides.
\<close>

section \<open>The list and the table\<close>

text \<open>Pairs of content type and extension, up to the null entry that ends the list.\<close>

definition websMimeList :: "(cstring \<times> cstring) list" where
  "websMimeList =
    [(''application/java'', ''.class''),
     (''application/java'', ''.jar''),
     (''text/html'', ''.asp''),
     (''text/html'', ''.htm''),
     (''text/html'', ''.html''),
     (''text/xml'', ''.xml''),
     (''image/gif'', ''.gif''),
     (''image/jpeg'', ''.jpg''),
     (''image/png'', ''.png''),
     (''image/vnd.microsoft.icon'', ''.ico''),
     (''text/css'', ''.css''),
     (''text/plain'', ''.txt''),
     (''application/x-javascript'', ''.js''),
     (''application/x-shockwave-flash'', ''.swf''),
     (''application/binary'', ''.bin''),
     (''image/svg+xml'', ''.svg''),
     (''application/binary'', ''.exe''),
     (''application/compress'', ''.z''),
     (''application/gzip'', ''.gz''),
     (''application/octet-stream'', ''.bin''),
     (''application/oda'', ''.oda''),
     (''application/pdf'', ''.pdf''),
     (''application/postscript'', ''.ai''),
     (''application/postscript'', ''.eps''),
     (''application/postscript'', ''.ps''),
     (''application/rtf'', ''.rtf''),
     (''application/x-bcpio'', ''.bcpio''),
     (''application/x-cpio'', ''.cpio''),
     (''application/x-csh'', ''.csh''),
     (''application/x-dvi'', ''.dvi''),
     (''application/x-gtar'', ''.gtar''),
     (''application/x-hdf'', ''.hdf''),
     (''application/x-latex'', ''.latex''),
     (''application/x-mif'', ''.mif''),
     (''application/x-netcdf'', ''.nc''),
     (''application/x-netcdf'', ''.cdf''),
     (''application/x-ns-proxy-autoconfig'', ''.pac''),
     (''application/x-patch'', ''.patch''),
     (''application/x-sh'', ''.sh''),
     (''application/x-shar'', ''.shar''),
     (''application/x-sv4cpio'', ''.sv4cpio''),
     (''application/x-sv4crc'', ''.sv4crc''),
     (''application/x-tar'', ''.tar''),
     (''application/x-tgz'', ''.tgz''),
     (''application/x-tcl'', ''.tcl''),
     (''application/x-tex'', ''.tex''),
     (''application/x-texinfo'', ''.texinfo''),
     (''application/x-texinfo'', ''.texi''),
     (''application/x-troff'', ''.t''),
     (''application/x-troff'', ''.tr''),
     (''application/x-troff'', ''.roff''),
     (''application/x-troff-man'', ''.man''),
     (''application/x-troff-me'', ''.me''),
     (''application/x-troff-ms'', ''.ms''),
     (''application/x-ustar'', ''.ustar''),
     (''application/x-wais-source'', ''.src''),
     (''application/zip'', ''.zip''),
     (''audio/basic'', ''.au snd''),
     (''audio/x-aiff'', ''.aif''),
     (''audio/x-aiff'', ''.aiff''),
     (''audio/x-aiff'', ''.aifc''),
     (''audio/x-wav'', ''.wav''),
     (''audio/x-wav'', ''.ram''),
     (''image/ief'', ''.ief''),
     (''image/jpeg'', ''.jpeg''),
     (''image/jpeg'', ''.jpe''),
     (''image/tiff'', ''.tiff''),
     (''image/tiff'', ''.tif''),
     (''image/x-cmu-raster'', ''.ras''),
     (''image/x-portable-anymap'', ''.pnm''),
     (''image/x-portable-bitmap'', ''.pbm''),
     (''image/x-portable-graymap'', ''.pgm''),
     (''image/x-portable-pixmap'', ''.ppm''),
     (''image/x-rgb'', ''.rgb''),
     (''image/x-xbitmap'', ''.xbm''),
     (''image/x-xpixmap'', ''.xpm''),
     (''image/x-xwindowdump'', ''.xwd''),
     (''text/html'', ''.cfm''),
     (''text/html'', ''.shtm''),
     (''text/html'', ''.shtml''),
     (''text/richtext'', ''.rtx''),
     (''text/tab-separated-values'', ''.tsv''),
     (''text/x-setext'', ''.etx''),
     (''video/mpeg'', ''.mpeg mpg mpe''),
     (''video/quicktime'', ''.qt''),
     (''video/quicktime'', ''.mov''),
     (''video/x-msvideo'', ''.avi''),
     (''video/x-sgi-movie'', ''.movie'')]"

text \<open>The loading loop; the result of \<^verbatim>\<open>symEnter\<close> is not looked at.\<close>

fun websMimeLoad :: "bool \<Rightarrow> sym_state \<Rightarrow> int \<Rightarrow> (cstring \<times> cstring) list \<Rightarrow> sym_state option" where
  "websMimeLoad sc st websMime [] = Some st"
| "websMimeLoad sc st websMime ((type, ext) # mts) = do {
     v \<leftarrow> valueString True (Some type) 0;
     (st1, _) \<leftarrow> symEnter sc True True st websMime ext v 0;
     websMimeLoad sc st1 websMime mts }"

definition WEBS_SYM_INIT :: int where "WEBS_SYM_INIT = 64"

definition websOpenMime :: "bool \<Rightarrow> balloc_env \<Rightarrow> sym_state \<Rightarrow> (sym_state \<times> int) option" where
  "websOpenMime sc m st = do {
     (st1, websMime) \<leftarrow> symOpen m True True st (WEBS_SYM_INIT * 4);
     st2 \<leftarrow> websMimeLoad sc st1 websMime websMimeList;
     Some (st2, websMime) }"

section \<open>Loading through the table interface\<close>

definition mime_val :: "cstring \<Rightarrow> value_t" where
  "mime_val t = \<lparr>val_of = UString (Some t), vtype_of = Vstring, valid = True, allocated = False\<rparr>"

definition mime_entries :: "(cstring \<times> cstring) list \<Rightarrow> (cstring \<times> value_t) list" where
  "mime_entries mts = map (\<lambda>(type, ext). (ext, mime_val type)) mts"

lemma websMimeLoad_enter_all: "websMimeLoad sc s d mts = st.enter_all sc d s (mime_entries mts)"
proof (induction mts arbitrary: s)
  case Nil
  then show ?case by (simp add: mime_entries_def)
next
  case (Cons mt mts)
  obtain type ext where mt: "mt = (type, ext)" by (cases mt)
  have "valueString True (Some type) 0 = Some (mime_val type)"
    by (simp add: valueString_def VALUE_ALLOCATE_def mime_val_def)
  moreover have "sym_put sc d s ext (mime_val type) = map_option fst (symEnter sc True True s d ext (mime_val type) 0)"
    by (simp add: sym_put_def)
  ultimately show ?case
    using Cons mt by (cases "symEnter sc True True s d ext (mime_val type) 0") (auto simp: mime_entries_def)
qed

text \<open>A later entry of the list wins over an earlier one with the same extension.\<close>

definition mime_type_of :: "cstring \<Rightarrow> cstring option" where
  "mime_type_of ext = map_of (rev (map prod.swap websMimeList)) ext"

lemma mime_entries_map_of:
  "map_of (rev (filter (\<lambda>kv. fst kv \<noteq> []) (mime_entries websMimeList))) ext = map_option mime_val (mime_type_of ext)"
proof -
  have "filter (\<lambda>kv. fst kv \<noteq> []) (mime_entries websMimeList) = mime_entries websMimeList"
    by (simp add: mime_entries_def websMimeList_def)
  moreover have "rev (mime_entries websMimeList) = map (\<lambda>(k, t). (k, mime_val t)) (rev (map prod.swap websMimeList))"
    by (simp add: mime_entries_def rev_map comp_def case_prod_beta')
  ultimately show ?thesis by (simp add: mime_type_of_def map_of_map)
qed

section \<open>Properties\<close>

text \<open>
  After the server has loaded its content types into a new table, the table finds for an
  extension exactly the type the last matching entry of \<^verbatim>\<open>websMimeList\<close> gives and nothing for
  an extension that is not listed, and the tables are well-formed.
\<close>

theorem websOpenMime_types:
  assumes "sym_inv sc st" and "\<not> refuses m"
  shows "\<exists>st' websMime. websOpenMime sc m st = Some (st', websMime) \<and> 0 \<le> websMime \<and> sym_at sc websMime st' \<and>
     (\<forall>ext. sym_find sc websMime st' ext = map_option mime_val (mime_type_of ext))"
proof -
  have n: "0 < WEBS_SYM_INIT * 4" by (simp add: WEBS_SYM_INIT_def)
  obtain st1 d where o: "symOpen m True True st (WEBS_SYM_INIT * 4) = Some (st1, d)" "0 \<le> d"
    "sym_inv sc st1" "sym_tab st1 d \<noteq> None" "\<forall>k. symLookup sc st1 d (Some k) = Some None"
    using symOpen_spec[OF assms(1) n, of m] assms(2) by auto
  have a: "sym_at sc d st1" using o(3,4) by (simp add: sym_at_def)
  obtain st2 where l: "st.enter_all sc d st1 (mime_entries websMimeList) = Some st2" "sym_at sc d st2"
    "sym_find sc d st2 = sym_find sc d st1 ++ map_of (rev (filter (\<lambda>kv. fst kv \<noteq> []) (mime_entries websMimeList)))"
    using st.enter_all_spec[OF a, of "mime_entries websMimeList"] by blast
  have "sym_find sc d st1 = (\<lambda>_. None)" using o(5) by (simp add: sym_find_def fun_eq_iff)
  then have "sym_find sc d st2 ext = map_option mime_val (mime_type_of ext)" for ext
    using l(3) mime_entries_map_of[of ext] by (simp add: map_add_def split: option.splits)
  moreover have "websOpenMime sc m st = Some (st2, d)"
    using o(1) l(1) by (simp add: websOpenMime_def websMimeLoad_enter_all)
  ultimately show ?thesis using o(2) l(2) by auto
qed

theorem websOpenMime_types_witness:
  "\<exists>st' websMime. websOpenMime True (\<lambda>_. Some (\<lambda>_. CHR 0x00)) sym_sample = Some (st', websMime) \<and>
     sym_find True websMime st' ''.html'' = Some (mime_val ''text/html'') \<and>
     sym_find True websMime st' ''.bin'' = Some (mime_val ''application/octet-stream'') \<and>
     sym_find True websMime st' ''.mpg'' = None"
proof -
  have "\<not> refuses (\<lambda>_. Some (\<lambda>_. CHR 0x00))" by (simp add: refuses_def)
  moreover have "mime_type_of ''.html'' = Some ''text/html''"
    "mime_type_of ''.bin'' = Some ''application/octet-stream''" "mime_type_of ''.mpg'' = None"
    by (simp_all add: mime_type_of_def websMimeList_def)
  ultimately show ?thesis
    using websOpenMime_types[OF sym_sample_inv(1), of "\<lambda>_. Some (\<lambda>_. CHR 0x00)" True] by fastforce
qed

end
