(* ===== verification/Emfdb.thy ===== *)
theory Emfdb
  imports Handles
begin

text \<open>
  The in-memory database of \<^verbatim>\<open>webs/src/src/emfdb.c\<close>: tables with a registered schema, rows
  reached through handles, and the operations the user manager calls. The database
  identifier \<^verbatim>\<open>did\<close> is ignored by the code and has no counterpart here.

  A row is an array of \<^verbatim>\<open>int\<close> cells; a cell of a string column holds a pointer stored as an
  \<^verbatim>\<open>int\<close>. A cell is therefore either a number or an owned string, and the null pointer is the
  number 0. Releasing or comparing a cell that holds another number is a fault.
\<close>

section \<open>Case-insensitive comparison\<close>

text \<open>\<^verbatim>\<open>strcmpci\<close> of \<^verbatim>\<open>websuemf.c\<close>, on two strings that are not null.\<close>

definition c_tolower :: "bool \<Rightarrow> char \<Rightarrow> int" where
  "c_tolower sc c = (if 65 \<le> c_uchar c \<and> c_uchar c \<le> 90 then c_uchar c + 32 else c_char sc c)"

fun strcmpci :: "bool \<Rightarrow> cstring \<Rightarrow> cstring \<Rightarrow> int" where
  "strcmpci sc [] s2 = 0 - (case s2 of [] \<Rightarrow> 0 | d # _ \<Rightarrow> c_tolower sc d)"
| "strcmpci sc (c # s1) [] = c_tolower sc c"
| "strcmpci sc (c # s1) (d # s2) =
     (let rc = c_tolower sc c - c_tolower sc d in if rc = 0 then strcmpci sc s1 s2 else rc)"

section \<open>State\<close>

datatype cell = CInt int | CStr cstring

definition T_INT :: int where "T_INT = 0"
definition T_STRING :: int where "T_STRING = 1"

definition DB_ERR_COL_NOT_FOUND :: int where "DB_ERR_COL_NOT_FOUND = -2"
definition DB_ERR_ROW_NOT_FOUND :: int where "DB_ERR_ROW_NOT_FOUND = -4"
definition DB_ERR_ROW_DELETED :: int where "DB_ERR_ROW_DELETED = -5"
definition DB_ERR_TABLE_NOT_FOUND :: int where "DB_ERR_TABLE_NOT_FOUND = -6"
definition DB_ERR_TABLE_DELETED :: int where "DB_ERR_TABLE_DELETED = -7"
definition DB_ERR_BAD_FORMAT :: int where "DB_ERR_BAD_FORMAT = -8"
definition DB_CASE_INSENSITIVE :: int where "DB_CASE_INSENSITIVE = 1"

lemmas db_codes = T_INT_def T_STRING_def DB_ERR_COL_NOT_FOUND_def DB_ERR_ROW_NOT_FOUND_def
  DB_ERR_ROW_DELETED_def DB_ERR_TABLE_NOT_FOUND_def DB_ERR_TABLE_DELETED_def DB_ERR_BAD_FORMAT_def
  DB_CASE_INSENSITIVE_def

record dbTable =
  tname :: cstring
  nColumns :: int
  columnNames :: "cstring list"
  columnTypes :: "int list"
  nRows :: int
  rows :: "cell list hmap option"

record dbstate =
  dbListTables :: "dbTable hmap option"
  dbMaxTables :: int
  basicProdDir :: "cstring option"
  basicDefaultDir :: cstring

section \<open>Finding tables and columns\<close>

fun dbGetTableId_loop :: "dbTable hmap option \<Rightarrow> cstring \<Rightarrow> int \<Rightarrow> nat \<Rightarrow> int option" where
  "dbGetTableId_loop lst tablename tid 0 = Some (-1)"
| "dbGetTableId_loop lst tablename tid (Suc n) = do {
     e \<leftarrow> h_entry lst tid;
     (case e of
        Some pTable \<Rightarrow> if tablename = tname pTable then Some tid
                        else dbGetTableId_loop lst tablename (tid + 1) n
      | None \<Rightarrow> dbGetTableId_loop lst tablename (tid + 1) n) }"

definition dbGetTableId :: "dbstate \<Rightarrow> cstring \<Rightarrow> int option" where
  "dbGetTableId db tablename =
     dbGetTableId_loop (dbListTables db) tablename 0 (nat (dbMaxTables db))"

text \<open>
  The test \<^verbatim>\<open>(tid >= 0) && (tid < dbMaxTables) && (dbListTables[tid] != NULL)\<close> that most
  operations make: the table, \<open>Some None\<close> when it fails.
\<close>

definition db_table_at :: "dbstate \<Rightarrow> int \<Rightarrow> dbTable option option" where
  "db_table_at db tid =
     (if tid \<ge> 0 \<and> tid < dbMaxTables db then h_entry (dbListTables db) tid else Some None)"

definition dbGetTableName :: "dbstate \<Rightarrow> int \<Rightarrow> cstring option option" where
  "dbGetTableName db tid = do { e \<leftarrow> db_table_at db tid; Some (map_option tname e) }"

fun column_loop :: "cstring list \<Rightarrow> cstring \<Rightarrow> int \<Rightarrow> nat \<Rightarrow> int option" where
  "column_loop names colName column 0 = Some (-1)"
| "column_loop names colName column (Suc n) = do {
     nm \<leftarrow> mem_read names column;
     if colName = nm then Some column else column_loop names colName (column + 1) n }"

definition GetColumnIndex :: "dbstate \<Rightarrow> int \<Rightarrow> cstring \<Rightarrow> int option" where
  "GetColumnIndex db tid colName = do {
     e \<leftarrow> db_table_at db tid;
     (case e of
        Some pTable \<Rightarrow> column_loop (columnNames pTable) colName 0 (nat (nColumns pTable))
      | None \<Rightarrow> Some (-1)) }"

text \<open>A changed table goes back to its slot: the code changes it through the pointer.\<close>

definition db_put :: "dbstate \<Rightarrow> int \<Rightarrow> dbTable \<Rightarrow> dbstate" where
  "db_put db tid t = db\<lparr>dbListTables := h_store (dbListTables db) tid t\<rparr>"

section \<open>Schemas\<close>

fun copy_columns :: "bool \<Rightarrow> cstring list \<Rightarrow> int list \<Rightarrow> int \<Rightarrow> nat \<Rightarrow> (cstring list \<times> int list) option" where
  "copy_columns dup names types i 0 = Some ([], [])"
| "copy_columns dup names types i (Suc n) = do {
     nm \<leftarrow> mem_read names i;
     ty \<leftarrow> mem_read types i;
     cp \<leftarrow> (if dup then Some nm else None);
     (ns, ts) \<leftarrow> copy_columns dup names types (i + 1) n;
     Some (cp # ns, ty # ts) }"

text \<open>
  \<^verbatim>\<open>dbRegisterDBSchema\<close>: \<open>m\<close> and \<open>mo\<close> are the allocator for the handle list and for the table,
  \<open>dup\<close> says whether the copies succeed. A failed handle is used as an index all the same.
\<close>

definition empty_table :: dbTable where
  "empty_table = \<lparr>tname = [], nColumns = 0, columnNames = [], columnTypes = [], nRows = 0, rows = None\<rparr>"

definition dbRegisterDBSchema ::
    "balloc_env \<Rightarrow> balloc_env \<Rightarrow> bool \<Rightarrow> dbstate \<Rightarrow> dbTable \<Rightarrow> (dbstate \<times> int) option" where
  "dbRegisterDBSchema m mo dup db reg = do {
     (lst, mx, tid) \<leftarrow> hAllocEntry m mo (dbListTables db) (dbMaxTables db) 24 empty_table;
     let db1 = db\<lparr>dbListTables := lst, dbMaxTables := mx\<rparr>;
     pTable \<leftarrow> h_get lst tid;
     nm \<leftarrow> (if dup then Some (tname reg) else None);
     (ns, ts) \<leftarrow> (if nColumns reg > 0
                  then copy_columns dup (columnNames reg) (columnTypes reg) 0 (nat (nColumns reg))
                  else Some ([], []));
     Some (db_put db1 tid \<lparr>tname = nm, nColumns = nColumns reg, columnNames = ns, columnTypes = ts,
                           nRows = 0, rows = None\<rparr>, 0) }"

definition dbOpen :: "dbstate \<Rightarrow> dbstate \<times> int" where
  "dbOpen db = (db\<lparr>basicProdDir := None, basicDefaultDir := ''.'', dbMaxTables := 0, dbListTables := None\<rparr>, 0)"

section \<open>Releasing rows and tables\<close>

text \<open>The strings of one row are released; a cell of a string column that is neither null nor a string faults.\<close>

fun free_strings :: "int list \<Rightarrow> cell list \<Rightarrow> int \<Rightarrow> nat \<Rightarrow> unit option" where
  "free_strings types pRow column 0 = Some ()"
| "free_strings types pRow column (Suc n) = do {
     c \<leftarrow> mem_read pRow column;
     ty \<leftarrow> mem_read types column;
     if ty = T_STRING then
       (case c of
          CStr _ \<Rightarrow> free_strings types pRow (column + 1) n
        | CInt i \<Rightarrow> if i = 0 then free_strings types pRow (column + 1) n else None)
     else free_strings types pRow (column + 1) n }"

text \<open>The row loop of \<^verbatim>\<open>dbZero\<close>. \<^verbatim>\<open>hFree\<close> may release the row list under the loop.\<close>

fun dbZero_rows :: "dbTable \<Rightarrow> int \<Rightarrow> nat \<Rightarrow> dbTable option" where
  "dbZero_rows t row 0 = Some t"
| "dbZero_rows t row (Suc n) = do {
     e \<leftarrow> h_entry (rows t) row;
     (case e of
        None \<Rightarrow> dbZero_rows t (row + 1) n
      | Some pRow \<Rightarrow> do {
          free_strings (columnTypes t) pRow 0 (nat (nColumns t));
          (rs, _) \<leftarrow> hFree (rows t) row;
          dbZero_rows (t\<lparr>rows := rs\<rparr>) (row + 1) n }) }"

fun dbZero_tables :: "dbstate \<Rightarrow> int \<Rightarrow> nat \<Rightarrow> dbstate option" where
  "dbZero_tables db tid 0 = Some db"
| "dbZero_tables db tid (Suc n) = do {
     e \<leftarrow> h_entry (dbListTables db) tid;
     (case e of
        None \<Rightarrow> dbZero_tables db (tid + 1) n
      | Some t \<Rightarrow> do {
          t1 \<leftarrow> dbZero_rows t 0 (nat (nRows t));
          dbZero_tables (db_put db tid (t1\<lparr>rows := None, nRows := 0\<rparr>)) (tid + 1) n }) }"

definition dbZero :: "dbstate \<Rightarrow> dbstate option" where
  "dbZero db = dbZero_tables db 0 (nat (dbMaxTables db))"

text \<open>The table loop of \<^verbatim>\<open>dbClose\<close>.\<close>

fun dbClose_tables :: "dbTable hmap option \<Rightarrow> int \<Rightarrow> nat \<Rightarrow> dbTable hmap option option" where
  "dbClose_tables lst tid 0 = Some lst"
| "dbClose_tables lst tid (Suc n) = do {
     e \<leftarrow> h_entry lst tid;
     (case e of
        None \<Rightarrow> dbClose_tables lst (tid + 1) n
      | Some t \<Rightarrow> do { (lst1, _) \<leftarrow> hFree lst tid; dbClose_tables lst1 (tid + 1) n }) }"

definition dbClose :: "dbstate \<Rightarrow> dbstate option" where
  "dbClose db = do {
     db1 \<leftarrow> dbZero db;
     lst \<leftarrow> dbClose_tables (dbListTables db1) 0 (nat (dbMaxTables db1));
     Some (db1\<lparr>dbListTables := None, dbMaxTables := 0\<rparr>) }"

section \<open>Rows\<close>

text \<open>
  The scan of \<^verbatim>\<open>dbSearchStr\<close>: a non-null cell is compared as a string. A null \<^verbatim>\<open>value\<close> faults in
  \<^verbatim>\<open>strcmp\<close>, and equals everything for \<^verbatim>\<open>strcmpci\<close>.
\<close>

definition match_value :: "bool \<Rightarrow> int \<Rightarrow> cstring \<Rightarrow> cstring option \<Rightarrow> bool option" where
  "match_value sc flags s v =
     (case v of
        Some u \<Rightarrow> Some (if flags = DB_CASE_INSENSITIVE then strcmpci sc s u = 0 else s = u)
      | None \<Rightarrow> if flags = DB_CASE_INSENSITIVE then Some True else None)"

fun search_rows :: "bool \<Rightarrow> cell list hmap option \<Rightarrow> int \<Rightarrow> cstring option \<Rightarrow> int \<Rightarrow> int \<Rightarrow> nat \<Rightarrow> int option" where
  "search_rows sc rs column v flags row 0 = Some (-1)"
| "search_rows sc rs column v flags row (Suc n) = do {
     e \<leftarrow> h_entry rs row;
     hit \<leftarrow> (case e of
               None \<Rightarrow> Some False
             | Some pRow \<Rightarrow> do {
                 c \<leftarrow> mem_read pRow column;
                 (case c of
                    CInt i \<Rightarrow> if i = 0 then Some False else None
                  | CStr s \<Rightarrow> match_value sc flags s v) });
     if hit then Some row else search_rows sc rs column v flags (row + 1) n }"

definition dbSearchStr :: "bool \<Rightarrow> dbstate \<Rightarrow> cstring \<Rightarrow> cstring \<Rightarrow> cstring option \<Rightarrow> int \<Rightarrow> int option" where
  "dbSearchStr sc db tablename colName v flags = do {
     tid \<leftarrow> dbGetTableId db tablename;
     e \<leftarrow> db_table_at db tid;
     (case e of
        None \<Rightarrow> Some DB_ERR_TABLE_NOT_FOUND
      | Some pTable \<Rightarrow> do {
          column \<leftarrow> GetColumnIndex db tid colName;
          if column \<ge> 0 then search_rows sc (rows pTable) column v flags 0 (nat (nRows pTable))
          else Some DB_ERR_COL_NOT_FOUND }) }"

text \<open>\<^verbatim>\<open>hAllocEntry\<close> zeroes the new row.\<close>

definition dbAddRow :: "balloc_env \<Rightarrow> balloc_env \<Rightarrow> dbstate \<Rightarrow> cstring \<Rightarrow> (dbstate \<times> int) option" where
  "dbAddRow m mo db tablename = do {
     tid \<leftarrow> dbGetTableId db tablename;
     e \<leftarrow> db_table_at db tid;
     (case e of
        None \<Rightarrow> Some (db, DB_ERR_TABLE_NOT_FOUND)
      | Some pTable \<Rightarrow> do {
          (rs, mx, row) \<leftarrow> hAllocEntry m mo (rows pTable) (nRows pTable) (nColumns pTable * 4)
                             (replicate (nat (nColumns pTable)) (CInt 0));
          Some (db_put db tid (pTable\<lparr>rows := rs, nRows := mx\<rparr>), row) }) }"

definition dbDeleteRow :: "dbstate \<Rightarrow> cstring \<Rightarrow> int \<Rightarrow> (dbstate \<times> int) option" where
  "dbDeleteRow db tablename row = do {
     tid \<leftarrow> dbGetTableId db tablename;
     e \<leftarrow> db_table_at db tid;
     (case e of
        None \<Rightarrow> Some (db, DB_ERR_TABLE_NOT_FOUND)
      | Some pTable \<Rightarrow>
          if row \<ge> 0 \<and> row < nRows pTable then do {
            r \<leftarrow> h_entry (rows pTable) row;
            (case r of
               None \<Rightarrow> Some (db, 0)
             | Some pRow \<Rightarrow> do {
                 free_strings (columnTypes pTable) pRow 0 (nat (nColumns pTable));
                 (rs, mx) \<leftarrow> hFree (rows pTable) row;
                 Some (db_put db tid (pTable\<lparr>rows := rs, nRows := mx\<rparr>), 0) }) }
          else Some (db, -1)) }"

text \<open>The growing loop of \<^verbatim>\<open>dbSetTableNrow\<close>; \<^verbatim>\<open>pTable->nRows\<close> is read again in every round.\<close>

partial_function (option) dbSetTableNrow_loop ::
    "balloc_env \<Rightarrow> balloc_env \<Rightarrow> dbstate \<Rightarrow> cstring \<Rightarrow> int \<Rightarrow> int \<Rightarrow> (dbstate \<times> int) option" where
  "dbSetTableNrow_loop m mo db tablename tid nNewRows = do {
     pTable \<leftarrow> h_get (dbListTables db) tid;
     if nRows pTable < nNewRows then do {
       (db1, r) \<leftarrow> dbAddRow m mo db tablename;
       if r < 0 then Some (db1, -1) else dbSetTableNrow_loop m mo db1 tablename tid nNewRows }
     else Some (db, 0) }"

definition dbSetTableNrow :: "balloc_env \<Rightarrow> balloc_env \<Rightarrow> dbstate \<Rightarrow> cstring \<Rightarrow> int \<Rightarrow> (dbstate \<times> int) option" where
  "dbSetTableNrow m mo db tablename nNewRows = do {
     tid \<leftarrow> dbGetTableId db tablename;
     e \<leftarrow> db_table_at db tid;
     (case e of
        None \<Rightarrow> Some (db, DB_ERR_TABLE_NOT_FOUND)
      | Some pTable \<Rightarrow>
          if nRows pTable \<ge> nNewRows then Some (db, 0)
          else dbSetTableNrow_loop m mo db tablename tid nNewRows) }"

definition dbGetTableNrow :: "dbstate \<Rightarrow> cstring \<Rightarrow> int option" where
  "dbGetTableNrow db tablename = do {
     tid \<leftarrow> dbGetTableId db tablename;
     e \<leftarrow> db_table_at db tid;
     Some (case e of Some pTable \<Rightarrow> nRows pTable | None \<Rightarrow> -1) }"

section \<open>Cells\<close>

text \<open>
  \<^verbatim>\<open>dbReadInt\<close> returns its code and, with code 0, the cell it stored in \<^verbatim>\<open>*returnValue\<close>.
  \<^verbatim>\<open>dbReadStr\<close> is the same read through another pointer type.
\<close>

definition dbReadInt :: "dbstate \<Rightarrow> cstring \<Rightarrow> cstring \<Rightarrow> int \<Rightarrow> (int \<times> cell option) option" where
  "dbReadInt db table column row = do {
     tid \<leftarrow> dbGetTableId db table;
     if tid < 0 then Some (DB_ERR_TABLE_NOT_FOUND, None)
     else do {
       e \<leftarrow> h_entry (dbListTables db) tid;
       (case e of
          None \<Rightarrow> Some (DB_ERR_TABLE_DELETED, None)
        | Some pTable \<Rightarrow>
            if row \<ge> 0 \<and> row < nRows pTable then do {
              colIndex \<leftarrow> GetColumnIndex db tid column;
              if colIndex \<ge> 0 then do {
                r \<leftarrow> h_entry (rows pTable) row;
                (case r of
                   Some pRow \<Rightarrow> do { c \<leftarrow> mem_read pRow colIndex; Some (0, Some c) }
                 | None \<Rightarrow> Some (DB_ERR_ROW_DELETED, None)) }
              else Some (DB_ERR_COL_NOT_FOUND, None) }
            else Some (DB_ERR_ROW_NOT_FOUND, None)) } }"

abbreviation dbReadStr :: "dbstate \<Rightarrow> cstring \<Rightarrow> cstring \<Rightarrow> int \<Rightarrow> (int \<times> cell option) option" where
  "dbReadStr \<equiv> dbReadInt"

definition dbWriteInt :: "dbstate \<Rightarrow> cstring \<Rightarrow> cstring \<Rightarrow> int \<Rightarrow> int \<Rightarrow> (dbstate \<times> int) option" where
  "dbWriteInt db table column row iData = do {
     tid \<leftarrow> dbGetTableId db table;
     if tid < 0 then Some (db, DB_ERR_TABLE_NOT_FOUND)
     else do {
       e \<leftarrow> h_entry (dbListTables db) tid;
       (case e of
          None \<Rightarrow> Some (db, DB_ERR_TABLE_DELETED)
        | Some pTable \<Rightarrow> do {
            colIndex \<leftarrow> GetColumnIndex db tid column;
            if colIndex \<ge> 0 then
              (if row \<ge> 0 \<and> row < nRows pTable then do {
                 r \<leftarrow> h_entry (rows pTable) row;
                 (case r of
                    Some pRow \<Rightarrow> do {
                      pRow1 \<leftarrow> mem_write pRow colIndex (CInt iData);
                      Some (db_put db tid (pTable\<lparr>rows := h_store (rows pTable) row pRow1\<rparr>), 0) }
                  | None \<Rightarrow> Some (db, DB_ERR_ROW_DELETED)) }
               else Some (db, DB_ERR_ROW_NOT_FOUND))
            else Some (db, DB_ERR_COL_NOT_FOUND) }) } }"

text \<open>
  \<^verbatim>\<open>dbWriteStr\<close>: the old string is released and a copy of \<open>s\<close> stored, the empty string for a
  null pointer. A failed copy is a fault (\<^verbatim>\<open>bstrdup\<close> does not check its allocation).
\<close>

definition dbWriteStr :: "bool \<Rightarrow> dbstate \<Rightarrow> cstring \<Rightarrow> cstring \<Rightarrow> int \<Rightarrow> cstring option \<Rightarrow> (dbstate \<times> int) option" where
  "dbWriteStr dup db table column row s = do {
     tid \<leftarrow> dbGetTableId db table;
     if tid < 0 then Some (db, DB_ERR_TABLE_NOT_FOUND)
     else do {
       e \<leftarrow> h_entry (dbListTables db) tid;
       (case e of
          None \<Rightarrow> Some (db, DB_ERR_TABLE_DELETED)
        | Some pTable \<Rightarrow> do {
            colIndex \<leftarrow> GetColumnIndex db tid column;
            if colIndex < 0 then Some (db, DB_ERR_COL_NOT_FOUND)
            else do {
              ty \<leftarrow> mem_read (columnTypes pTable) colIndex;
              if ty \<noteq> T_STRING then Some (db, DB_ERR_BAD_FORMAT)
              else if \<not> (row \<ge> 0 \<and> row < nRows pTable) then Some (db, DB_ERR_ROW_NOT_FOUND)
              else do {
                r \<leftarrow> h_entry (rows pTable) row;
                (case r of
                   None \<Rightarrow> Some (db, DB_ERR_ROW_DELETED)
                 | Some pRow \<Rightarrow> do {
                     c \<leftarrow> mem_read pRow colIndex;
                     (case c of CStr _ \<Rightarrow> Some () | CInt i \<Rightarrow> if i = 0 then Some () else None);
                     ptr \<leftarrow> (if dup then Some (case s of Some t \<Rightarrow> t | None \<Rightarrow> []) else None);
                     pRow1 \<leftarrow> mem_write pRow colIndex (CStr ptr);
                     Some (db_put db tid (pTable\<lparr>rows := h_store (rows pTable) row pRow1\<rparr>), 0) }) } } }) } }"

section \<open>The product directory\<close>

definition basicSetProductDir :: "dbstate \<Rightarrow> cstring \<Rightarrow> dbstate" where
  "basicSetProductDir db proddir =
     db\<lparr>basicProdDir := Some (if proddir \<noteq> [] \<and> last proddir = CHR ''/'' then butlast proddir else proddir)\<rparr>"

definition basicGetProductDir :: "dbstate \<Rightarrow> cstring" where
  "basicGetProductDir db = (case basicProdDir db of Some d \<Rightarrow> d | None \<Rightarrow> basicDefaultDir db)"

section \<open>Well-formed databases\<close>

definition h_top :: "'a hmap option \<Rightarrow> int \<Rightarrow> bool" where
  "h_top lst mx \<longleftrightarrow> 0 \<le> mx \<and> (\<forall>i. mx \<le> i \<longrightarrow> h_get lst i = None) \<and> (0 < mx \<longrightarrow> h_get lst (mx - 1) \<noteq> None)"

definition cell_str :: "cell \<Rightarrow> bool" where
  "cell_str c \<longleftrightarrow> (case c of CStr _ \<Rightarrow> True | CInt i \<Rightarrow> i = 0)"

text \<open>
  A row has a cell per column; its string columns hold strings or null, its other columns
  hold numbers.
\<close>

definition cell_typed :: "int \<Rightarrow> cell \<Rightarrow> bool" where
  "cell_typed ty c \<longleftrightarrow> (case c of CStr _ \<Rightarrow> ty = T_STRING | CInt i \<Rightarrow> ty = T_STRING \<longrightarrow> i = 0)"

lemma cell_typed_string [simp]: "cell_typed T_STRING c \<longleftrightarrow> cell_str c"
  by (simp add: cell_typed_def cell_str_def split: cell.split)

definition row_ok :: "dbTable \<Rightarrow> cell list \<Rightarrow> bool" where
  "row_ok t pRow \<longleftrightarrow> length pRow = length (columnNames t) \<and>
     (\<forall>i<length pRow. cell_typed (columnTypes t ! i) (pRow ! i))"

definition tbl_ok :: "dbTable \<Rightarrow> bool" where
  "tbl_ok t \<longleftrightarrow> 0 < nColumns t \<and> nColumns t = int (length (columnNames t)) \<and>
     length (columnTypes t) = length (columnNames t) \<and>
     h_inv (rows t) \<and> h_top (rows t) (nRows t) \<and> (\<forall>r pRow. h_get (rows t) r = Some pRow \<longrightarrow> row_ok t pRow)"

definition db_inv :: "dbstate \<Rightarrow> bool" where
  "db_inv db \<longleftrightarrow> h_inv (dbListTables db) \<and> h_top (dbListTables db) (dbMaxTables db) \<and>
     (\<forall>tid t. h_get (dbListTables db) tid = Some t \<longrightarrow> tbl_ok t)"

lemma h_get_bounds: "h_get lst i = Some x \<Longrightarrow> 0 \<le> i"
  by (auto simp: h_get_def split: option.splits if_splits)

lemma h_entry_below:
  assumes "h_top lst mx" "0 \<le> i" "i < mx"
  shows "h_entry lst i = Some (h_get lst i)"
proof -
  have "h_get lst (mx - 1) \<noteq> None" using assms by (simp add: h_top_def)
  then obtain mp where "lst = Some mp" "mx - 1 < int (length (slots mp))"
    by (auto simp: h_get_def split: option.splits if_splits)
  then show ?thesis using assms(2,3) by (simp add: h_entry_def h_get_def mem_read_def)
qed

lemma h_top_in: "h_top lst mx \<Longrightarrow> h_get lst i = Some x \<Longrightarrow> 0 \<le> i \<and> i < mx"
  using h_get_bounds[of lst i x] by (auto simp: h_top_def not_less) (metis linorder_not_less option.distinct(1))

lemma h_top_store:
  assumes "h_inv lst" "h_get lst i = Some y" "h_top lst mx"
  shows "h_top (h_store lst i x) mx"
  using assms h_top_in[OF assms(3,2)] by (auto simp: h_top_def h_store_inuse)

lemma h_top_enter:
  assumes "h_top lst mx" "h_get lst' = (h_get lst)(i \<mapsto> x)" "0 \<le> i"
  shows "h_top lst' (max mx (i + 1))"
  using assms by (auto simp: h_top_def max_def)

section \<open>Tables by name\<close>

definition names_at :: "dbstate \<Rightarrow> int \<Rightarrow> cstring option" where
  "names_at db tid = map_option tname (h_get (dbListTables db) tid)"

definition first_name :: "dbstate \<Rightarrow> cstring \<Rightarrow> int \<Rightarrow> bool" where
  "first_name db t k \<longleftrightarrow>
     k = -1 \<and> (\<forall>i. names_at db i \<noteq> Some t) \<or>
     0 \<le> k \<and> names_at db k = Some t \<and> (\<forall>i. 0 \<le> i \<and> i < k \<longrightarrow> names_at db i \<noteq> Some t)"

lemma first_name_unique: "first_name db t k \<Longrightarrow> first_name db t k' \<Longrightarrow> k = k'"
  by (auto simp: first_name_def) (meson linorder_neqE_linordered_idom)

lemma dbGetTableId_loop_spec:
  "\<forall>i. tid \<le> i \<and> i < tid + int n \<longrightarrow> h_entry lst i = Some (h_get lst i) \<Longrightarrow>
     \<exists>k. dbGetTableId_loop lst t tid n = Some k \<and>
       (k = -1 \<and> (\<forall>i. tid \<le> i \<and> i < tid + int n \<longrightarrow> map_option tname (h_get lst i) \<noteq> Some t) \<or>
        tid \<le> k \<and> k < tid + int n \<and> map_option tname (h_get lst k) = Some t \<and>
          (\<forall>i. tid \<le> i \<and> i < k \<longrightarrow> map_option tname (h_get lst i) \<noteq> Some t))"
proof (induction n arbitrary: tid)
  case 0
  then show ?case by auto
next
  case (Suc n)
  have h: "h_entry lst tid = Some (h_get lst tid)" using Suc.prems by simp
  have split: "tid \<le> i \<longleftrightarrow> i = tid \<or> tid + 1 \<le> i" for i by auto
  show ?case
  proof (cases "map_option tname (h_get lst tid) = Some t")
    case True
    then have "dbGetTableId_loop lst t tid (Suc n) = Some tid" using h by auto
    then show ?thesis using True by auto
  next
    case False
    then have e: "dbGetTableId_loop lst t tid (Suc n) = dbGetTableId_loop lst t (tid + 1) n"
      using h by (auto split: option.splits)
    obtain k where k: "dbGetTableId_loop lst t (tid + 1) n = Some k"
      "k = -1 \<and> (\<forall>i. tid + 1 \<le> i \<and> i < tid + 1 + int n \<longrightarrow> map_option tname (h_get lst i) \<noteq> Some t) \<or>
        tid + 1 \<le> k \<and> k < tid + 1 + int n \<and> map_option tname (h_get lst k) = Some t \<and>
          (\<forall>i. tid + 1 \<le> i \<and> i < k \<longrightarrow> map_option tname (h_get lst i) \<noteq> Some t)"
      using Suc.IH[of "tid + 1"] Suc.prems by auto
    show ?thesis
      unfolding e using k False by (intro exI[of _ k]) (simp only: split, auto)
  qed
qed

lemma dbGetTableId_first:
  assumes "db_inv db"
  shows "\<exists>k. dbGetTableId db t = Some k \<and> first_name db t k"
proof -
  have top: "h_top (dbListTables db) (dbMaxTables db)" using assms by (simp add: db_inv_def)
  then have "0 \<le> dbMaxTables db" by (simp add: h_top_def)
  then obtain k where k: "dbGetTableId db t = Some k"
    "k = -1 \<and> (\<forall>i. 0 \<le> i \<and> i < dbMaxTables db \<longrightarrow> names_at db i \<noteq> Some t) \<or>
      0 \<le> k \<and> k < dbMaxTables db \<and> names_at db k = Some t \<and> (\<forall>i. 0 \<le> i \<and> i < k \<longrightarrow> names_at db i \<noteq> Some t)"
    using dbGetTableId_loop_spec[of 0 "nat (dbMaxTables db)" "dbListTables db" t] h_entry_below[OF top]
    by (auto simp: dbGetTableId_def names_at_def)
  moreover have "names_at db i \<noteq> Some t" if "\<not> (0 \<le> i \<and> i < dbMaxTables db)" for i
    using h_top_in[OF top, of i] that by (auto simp: names_at_def)
  ultimately show ?thesis by (auto simp: first_name_def)
qed

text \<open>The table of a name, as the operations find it.\<close>

definition db_tab :: "dbstate \<Rightarrow> cstring \<Rightarrow> dbTable option" where
  "db_tab db t =
     (case dbGetTableId db t of
        Some tid \<Rightarrow> if tid < 0 then None else h_get (dbListTables db) tid
      | None \<Rightarrow> None)"

lemma db_tab_Some:
  assumes "db_inv db" "db_tab db t = Some tb"
  obtains tid where "dbGetTableId db t = Some tid" "0 \<le> tid" "tid < dbMaxTables db"
    "h_get (dbListTables db) tid = Some tb" "h_entry (dbListTables db) tid = Some (Some tb)"
    "db_table_at db tid = Some (Some tb)" "tname tb = t" "tbl_ok tb"
proof -
  obtain k where k: "dbGetTableId db t = Some k" "first_name db t k" using dbGetTableId_first[OF assms(1)] by blast
  then have g: "0 \<le> k" "h_get (dbListTables db) k = Some tb" using assms(2) by (auto simp: db_tab_def split: if_splits)
  have top: "h_top (dbListTables db) (dbMaxTables db)" using assms(1) by (simp add: db_inv_def)
  then have b: "k < dbMaxTables db" using h_top_in[of "dbListTables db" "dbMaxTables db" k tb] g(2) by simp
  then have "h_entry (dbListTables db) k = Some (Some tb)" using h_entry_below[OF top g(1)] g(2) by simp
  then show ?thesis
    using that[OF k(1) g(1) b g(2)] b g k(2) assms(1)
    by (auto simp: db_table_at_def first_name_def names_at_def db_inv_def)
qed

lemma db_tab_ok: "db_inv db \<Longrightarrow> db_tab db t = Some tb \<Longrightarrow> tbl_ok tb"
  by (rule db_tab_Some)

lemma db_tab_None:
  assumes "db_inv db" "db_tab db t = None"
  shows "dbGetTableId db t = Some (-1)" and "db_table_at db (-1) = Some None"
proof -
  obtain k where k: "dbGetTableId db t = Some k" "first_name db t k" using dbGetTableId_first[OF assms(1)] by blast
  then have "k = -1" using assms(2) by (auto simp: db_tab_def first_name_def names_at_def split: if_splits)
  then show "dbGetTableId db t = Some (-1)" using k(1) by simp
  show "db_table_at db (-1) = Some None" by (simp add: db_table_at_def)
qed

text \<open>Changing a table in place changes the table of its name and no other.\<close>

lemma db_put_tab:
  assumes i: "db_inv db" and k: "dbGetTableId db t = Some tid" "0 \<le> tid"
    and n: "tbl_ok tb'" "tname tb' = t"
  shows "db_inv (db_put db tid tb')" and "db_tab (db_put db tid tb') = (db_tab db)(t \<mapsto> tb')"
    and "dbGetTableId (db_put db tid tb') = dbGetTableId db"
proof -
  have f: "first_name db t tid" using dbGetTableId_first[OF i, of t] k(1) by auto
  then obtain tb where tb: "h_get (dbListTables db) tid = Some tb" "tname tb = t"
    using k(2) by (auto simp: first_name_def names_at_def)
  have hi: "h_inv (dbListTables db)" and top: "h_top (dbListTables db) (dbMaxTables db)" using i by (simp_all add: db_inv_def)
  have g: "h_get (dbListTables (db_put db tid tb')) = (h_get (dbListTables db))(tid \<mapsto> tb')"
    using h_store_inuse(2)[OF hi tb(1)] by (simp add: db_put_def)
  show inv': "db_inv (db_put db tid tb')"
    using h_store_inuse[OF hi tb(1)] h_top_store[OF hi tb(1) top] n(1) i by (auto simp: db_inv_def db_put_def)
  have nm: "names_at (db_put db tid tb') = names_at db"
    using g tb n(2) by (auto simp: names_at_def fun_eq_iff)
  have same: "dbGetTableId (db_put db tid tb') u = dbGetTableId db u" for u
  proof -
    obtain a b where "dbGetTableId (db_put db tid tb') u = Some a" "first_name (db_put db tid tb') u a"
      "dbGetTableId db u = Some b" "first_name db u b"
      using dbGetTableId_first[OF inv'] dbGetTableId_first[OF i] by blast
    then show ?thesis using first_name_unique[of db u a b] nm by (simp add: first_name_def)
  qed
  then show "dbGetTableId (db_put db tid tb') = dbGetTableId db" by (simp add: fun_eq_iff)
  have "db_tab (db_put db tid tb') u = ((db_tab db)(t \<mapsto> tb')) u" for u
  proof (cases "u = t")
    case True
    then show ?thesis using same[of t] k g by (simp add: db_tab_def)
  next
    case False
    obtain b where b: "dbGetTableId db u = Some b" "first_name db u b" using dbGetTableId_first[OF i] by blast
    then have "b \<noteq> tid" using tb False k(2) by (auto simp: first_name_def names_at_def)
    then show ?thesis using same[of u] b(1) g False by (simp add: db_tab_def)
  qed
  then show "db_tab (db_put db tid tb') = (db_tab db)(t \<mapsto> tb')" by (simp add: fun_eq_iff)
qed

section \<open>Cells by row and column\<close>

definition col_index :: "dbTable \<Rightarrow> cstring \<Rightarrow> nat" where
  "col_index t c = length (takeWhile (\<lambda>n. n \<noteq> c) (columnNames t))"

definition col_type :: "dbTable \<Rightarrow> cstring \<Rightarrow> int option" where
  "col_type t c = (if c \<in> set (columnNames t) then Some (columnTypes t ! col_index t c) else None)"

definition tab_cell :: "dbTable \<Rightarrow> int \<Rightarrow> cstring \<Rightarrow> cell option" where
  "tab_cell t r c =
     (if c \<in> set (columnNames t) then map_option (\<lambda>pRow. pRow ! col_index t c) (h_get (rows t) r) else None)"

definition same_schema :: "dbTable \<Rightarrow> dbTable \<Rightarrow> bool" where
  "same_schema t t' \<longleftrightarrow> tname t' = tname t \<and> columnNames t' = columnNames t \<and>
     columnTypes t' = columnTypes t \<and> nColumns t' = nColumns t"

lemma same_schema_cols: "same_schema t t' \<Longrightarrow> col_type t' = col_type t"
  by (simp add: same_schema_def col_type_def col_index_def fun_eq_iff)

lemma col_index_less:
  assumes "c \<in> set (columnNames t)"
  shows "col_index t c < length (columnNames t)" and "columnNames t ! col_index t c = c"
proof -
  let ?p = "takeWhile (\<lambda>n. n \<noteq> c) (columnNames t)" and ?d = "dropWhile (\<lambda>n. n \<noteq> c) (columnNames t)"
  have ne: "?d \<noteq> []" using assms by (simp add: dropWhile_eq_Nil_conv)
  have e: "columnNames t = ?p @ ?d" by simp
  have l: "length (columnNames t) = length ?p + length ?d" by (metis e length_append)
  then show "col_index t c < length (columnNames t)" using ne by (simp add: col_index_def)
  have "columnNames t ! col_index t c = hd ?d"
    using ne by (metis col_index_def e hd_conv_nth nth_append_length_plus add.right_neutral)
  then show "columnNames t ! col_index t c = c" using hd_dropWhile[OF ne] by simp
qed

lemma column_loop_spec:
  "0 \<le> i \<Longrightarrow> i + int n = int (length names) \<Longrightarrow>
     column_loop names c i n =
       Some (if c \<in> set (drop (nat i) names)
             then i + int (length (takeWhile (\<lambda>m. m \<noteq> c) (drop (nat i) names))) else -1)"
proof (induction n arbitrary: i)
  case 0
  then show ?case by simp
next
  case (Suc n)
  have l: "nat i < length names" "nat (i + 1) = Suc (nat i)" using Suc.prems by auto
  have d: "drop (nat i) names = names ! nat i # drop (Suc (nat i)) names" using l(1) by (rule take_Suc_drop_nth)
  have "mem_read names i = Some (names ! nat i)" using Suc.prems by (intro mem_read_Some) auto
  then show ?case using Suc.IH[of "i + 1"] Suc.prems l d by auto
qed

lemma GetColumnIndex_spec:
  assumes "db_table_at db tid = Some (Some t)" "tbl_ok t"
  shows "GetColumnIndex db tid c = Some (if c \<in> set (columnNames t) then int (col_index t c) else -1)"
  using column_loop_spec[of 0 "length (columnNames t)" "columnNames t" c] assms
  by (simp add: GetColumnIndex_def tbl_ok_def col_index_def)

lemma row_read:
  assumes "tbl_ok t" "h_get (rows t) r = Some pRow" "c \<in> set (columnNames t)"
  shows "mem_read pRow (int (col_index t c)) = Some (pRow ! col_index t c)"
    and "mem_write pRow (int (col_index t c)) x = Some (pRow[col_index t c := x])"
    and "tab_cell t r c = Some (pRow ! col_index t c)"
    and "col_index t c < length pRow"
    and "h_entry (rows t) r = Some (Some pRow)" and "0 \<le> r" and "r < nRows t"
  using assms col_index_less(1)[OF assms(3)] h_top_in[of "rows t" "nRows t" r pRow]
  by (auto simp: tbl_ok_def row_ok_def mem_read_def mem_write_def tab_cell_def h_entry_get)

lemma string_cell:
  assumes "tbl_ok t" "tab_cell t r c = Some x" "col_type t c = Some T_STRING"
  shows "cell_str x"
proof -
  from assms(2) obtain pRow where p: "h_get (rows t) r = Some pRow" "c \<in> set (columnNames t)"
    "x = pRow ! col_index t c"
    by (auto simp: tab_cell_def split: if_splits)
  then have "row_ok t pRow" using assms(1) by (auto simp: tbl_ok_def)
  then have "cell_typed (columnTypes t ! col_index t c) x"
    using p(3) col_index_less(1)[OF p(2)] by (simp add: row_ok_def)
  then show ?thesis using assms(3) p(2) by (simp add: col_type_def)
qed

lemma int_cell:
  assumes "tbl_ok t" "tab_cell t r c = Some x" "col_type t c = Some T_INT"
  shows "\<exists>n. x = CInt n"
proof -
  from assms(2) obtain pRow where p: "h_get (rows t) r = Some pRow" "c \<in> set (columnNames t)"
    "x = pRow ! col_index t c"
    by (auto simp: tab_cell_def split: if_splits)
  then have "row_ok t pRow" using assms(1) by (auto simp: tbl_ok_def)
  then have "cell_typed (columnTypes t ! col_index t c) x"
    using p(3) col_index_less(1)[OF p(2)] by (simp add: row_ok_def)
  then show ?thesis using assms(3) p(2) by (auto simp: col_type_def cell_typed_def db_codes split: cell.splits)
qed

section \<open>Searching and reading\<close>

definition first_row :: "(int \<Rightarrow> bool) \<Rightarrow> int \<Rightarrow> bool" where
  "first_row P k \<longleftrightarrow> k = -1 \<and> (\<forall>j\<ge>0. \<not> P j) \<or> 0 \<le> k \<and> P k \<and> (\<forall>j. 0 \<le> j \<and> j < k \<longrightarrow> \<not> P j)"

definition str_match :: "bool \<Rightarrow> int \<Rightarrow> cstring \<Rightarrow> cstring \<Rightarrow> bool" where
  "str_match sc flags s v \<longleftrightarrow> (if flags = DB_CASE_INSENSITIVE then strcmpci sc s v = 0 else s = v)"

definition cell_match :: "bool \<Rightarrow> int \<Rightarrow> cstring \<Rightarrow> cell option \<Rightarrow> bool" where
  "cell_match sc flags v x \<longleftrightarrow> (\<exists>s. x = Some (CStr s) \<and> str_match sc flags s v)"

lemma search_rows_spec:
  assumes t: "tbl_ok t" and c: "col_type t c = Some T_STRING"
  shows "0 \<le> r \<Longrightarrow> r + int n = nRows t \<Longrightarrow>
     \<exists>k. search_rows sc (rows t) (int (col_index t c)) (Some v) flags r n = Some k \<and>
       (k = -1 \<and> (\<forall>j. r \<le> j \<and> j < nRows t \<longrightarrow> \<not> cell_match sc flags v (tab_cell t j c)) \<or>
        r \<le> k \<and> k < nRows t \<and> cell_match sc flags v (tab_cell t k c) \<and>
          (\<forall>j. r \<le> j \<and> j < k \<longrightarrow> \<not> cell_match sc flags v (tab_cell t j c)))"
proof (induction n arbitrary: r)
  case 0
  then show ?case by auto
next
  case (Suc n)
  have cs: "c \<in> set (columnNames t)" using c by (auto simp: col_type_def split: if_splits)
  have top: "h_top (rows t) (nRows t)" using t by (simp add: tbl_ok_def)
  have h: "h_entry (rows t) r = Some (h_get (rows t) r)" using h_entry_below[OF top] Suc.prems by simp
  have split: "r \<le> i \<longleftrightarrow> i = r \<or> r + 1 \<le> i" for i by auto
  have hit: "search_rows sc (rows t) (int (col_index t c)) (Some v) flags r (Suc n) =
      (if cell_match sc flags v (tab_cell t r c) then Some r
       else search_rows sc (rows t) (int (col_index t c)) (Some v) flags (r + 1) n)"
  proof (cases "h_get (rows t) r")
    case None
    then show ?thesis using h cs by (simp add: tab_cell_def cell_match_def)
  next
    case (Some pRow)
    have "cell_str (pRow ! col_index t c)" using string_cell[OF t row_read(3)[OF t Some cs] c] .
    then show ?thesis
      using h Some row_read(1,3)[OF t Some cs]
      by (auto simp: cell_match_def str_match_def match_value_def cell_str_def split: cell.splits)
  qed
  show ?case
  proof (cases "cell_match sc flags v (tab_cell t r c)")
    case True
    then show ?thesis unfolding hit using Suc.prems by auto
  next
    case False
    obtain k where k: "search_rows sc (rows t) (int (col_index t c)) (Some v) flags (r + 1) n = Some k"
      "k = -1 \<and> (\<forall>j. r + 1 \<le> j \<and> j < nRows t \<longrightarrow> \<not> cell_match sc flags v (tab_cell t j c)) \<or>
        r + 1 \<le> k \<and> k < nRows t \<and> cell_match sc flags v (tab_cell t k c) \<and>
          (\<forall>j. r + 1 \<le> j \<and> j < k \<longrightarrow> \<not> cell_match sc flags v (tab_cell t j c))"
      using Suc.IH[of "r + 1"] Suc.prems by auto
    show ?thesis unfolding hit using k False by (intro exI[of _ k]) (simp only: split, auto)
  qed
qed

lemma dbSearchStr_spec:
  assumes i: "db_inv db" and tb: "db_tab db t = Some tb" and c: "col_type tb c = Some T_STRING"
  shows "\<exists>k. dbSearchStr sc db t c (Some v) flags = Some k \<and>
     first_row (\<lambda>r. cell_match sc flags v (tab_cell tb r c)) k"
proof -
  obtain tid where d: "dbGetTableId db t = Some tid" "0 \<le> tid" "db_table_at db tid = Some (Some tb)" "tbl_ok tb"
    using db_tab_Some[OF i tb] by blast
  have cs: "c \<in> set (columnNames tb)" using c by (auto simp: col_type_def split: if_splits)
  have top: "h_top (rows tb) (nRows tb)" using d(4) by (simp add: tbl_ok_def)
  then have n: "0 \<le> nRows tb" by (simp add: h_top_def)
  obtain k where k: "search_rows sc (rows tb) (int (col_index tb c)) (Some v) flags 0 (nat (nRows tb)) = Some k"
    "k = -1 \<and> (\<forall>j. 0 \<le> j \<and> j < nRows tb \<longrightarrow> \<not> cell_match sc flags v (tab_cell tb j c)) \<or>
      0 \<le> k \<and> k < nRows tb \<and> cell_match sc flags v (tab_cell tb k c) \<and>
        (\<forall>j. 0 \<le> j \<and> j < k \<longrightarrow> \<not> cell_match sc flags v (tab_cell tb j c))"
    using search_rows_spec[OF d(4) c, of 0 "nat (nRows tb)" sc v flags] n by auto
  have "\<not> cell_match sc flags v (tab_cell tb j c)" if "nRows tb \<le> j" for j
    using top that by (simp add: h_top_def tab_cell_def cell_match_def)
  moreover have "dbSearchStr sc db t c (Some v) flags = Some k"
    using d k(1) cs by (simp add: dbSearchStr_def GetColumnIndex_spec[OF d(3,4)])
  ultimately show ?thesis using k(2) unfolding first_row_def by (metis linorder_not_le)
qed

lemma dbReadInt_spec:
  assumes i: "db_inv db" and tb: "db_tab db t = Some tb"
  shows "dbReadInt db t c r =
     Some (if 0 \<le> r \<and> r < nRows tb then
             (if c \<in> set (columnNames tb) then
                (case tab_cell tb r c of Some x \<Rightarrow> (0, Some x) | None \<Rightarrow> (DB_ERR_ROW_DELETED, None))
              else (DB_ERR_COL_NOT_FOUND, None))
           else (DB_ERR_ROW_NOT_FOUND, None))"
proof -
  obtain tid where d: "dbGetTableId db t = Some tid" "0 \<le> tid" "db_table_at db tid = Some (Some tb)" "tbl_ok tb"
    "h_entry (dbListTables db) tid = Some (Some tb)"
    using db_tab_Some[OF i tb] by blast
  have top: "h_top (rows tb) (nRows tb)" using d(4) by (simp add: tbl_ok_def)
  show ?thesis
  proof (cases "0 \<le> r \<and> r < nRows tb \<and> c \<in> set (columnNames tb)")
    case False
    then show ?thesis using d by (auto simp: dbReadInt_def GetColumnIndex_spec[OF d(3,4)])
  next
    case True
    then have e: "h_entry (rows tb) r = Some (h_get (rows tb) r)" using h_entry_below[OF top] by simp
    show ?thesis
    proof (cases "h_get (rows tb) r")
      case None
      then show ?thesis using True d e by (simp add: dbReadInt_def GetColumnIndex_spec[OF d(3,4)] tab_cell_def)
    next
      case (Some pRow)
      then show ?thesis
        using True d e row_read(1,3)[OF d(4) Some] by (simp add: dbReadInt_def GetColumnIndex_spec[OF d(3,4)])
    qed
  qed
qed

section \<open>Writing, adding and deleting\<close>

text \<open>The effect of an update on one table: the schema stays, the cells change as stated.\<close>

definition db_update :: "dbstate \<Rightarrow> cstring \<Rightarrow> dbTable \<Rightarrow> (int \<Rightarrow> cstring \<Rightarrow> cell option) \<Rightarrow> dbstate \<Rightarrow> bool" where
  "db_update db t tb cells db' \<longleftrightarrow>
     (\<exists>tb'. db_inv db' \<and> db_tab db' = (db_tab db)(t \<mapsto> tb') \<and> dbGetTableId db' = dbGetTableId db \<and>
        same_schema tb tb' \<and> tab_cell tb' = cells)"

lemma db_updateI:
  "db_inv db' \<Longrightarrow> db_tab db' = (db_tab db)(t \<mapsto> tb') \<Longrightarrow> dbGetTableId db' = dbGetTableId db \<Longrightarrow> same_schema tb tb' \<Longrightarrow>
     tab_cell tb' = cells \<Longrightarrow> db_update db t tb cells db'"
  by (auto simp: db_update_def)

lemma db_update_refl: "db_inv db \<Longrightarrow> db_tab db t = Some tb \<Longrightarrow> db_update db t tb (tab_cell tb) db"
  by (rule db_updateI[of db db t tb]) (auto simp: same_schema_def fun_upd_idem)

text \<open>Storing a well-typed cell.\<close>

lemma set_cell:
  assumes t: "tbl_ok t" and c: "c \<in> set (columnNames t)" and r: "h_get (rows t) r = Some pRow"
    and ty: "cell_typed (columnTypes t ! col_index t c) x"
  defines "t' \<equiv> t\<lparr>rows := h_store (rows t) r (pRow[col_index t c := x])\<rparr>"
  shows "tbl_ok t'" and "same_schema t t'" and "nRows t' = nRows t"
    and "tab_cell t' = (\<lambda>r' c'. if r' = r \<and> c' = c then Some x else tab_cell t r' c')"
proof -
  have hi: "h_inv (rows t)" and top: "h_top (rows t) (nRows t)" using t by (simp_all add: tbl_ok_def)
  have g: "h_get (rows t') = (h_get (rows t))(r \<mapsto> pRow[col_index t c := x])"
    using h_store_inuse(2)[OF hi r] by (simp add: t'_def)
  have p: "row_ok t pRow" using t r by (auto simp: tbl_ok_def)
  have l: "col_index t c < length pRow" by (rule row_read(4)[OF t r c])
  have "row_ok t (pRow[col_index t c := x])"
    unfolding row_ok_def
  proof (intro conjI allI impI)
    show "length (pRow[col_index t c := x]) = length (columnNames t)" using p by (simp add: row_ok_def)
    fix k assume "k < length (pRow[col_index t c := x])"
    then show "cell_typed (columnTypes t ! k) (pRow[col_index t c := x] ! k)"
      using p ty l by (cases "k = col_index t c") (simp_all add: row_ok_def)
  qed
  then have ok: "row_ok t' q" if "h_get (rows t') s = Some q" for s q
    using that g t by (auto simp: tbl_ok_def row_ok_def t'_def split: if_splits)
  then show "tbl_ok t'"
    using h_store_inuse(1)[OF hi r] h_top_store[OF hi r top] t by (auto simp: tbl_ok_def t'_def)
  show "same_schema t t'" "nRows t' = nRows t" by (simp_all add: same_schema_def t'_def)
  have ci: "col_index t' = col_index t" by (simp add: t'_def col_index_def fun_eq_iff)
  have "pRow[col_index t c := x] ! col_index t c' = (if c' = c then x else pRow ! col_index t c')"
    if "c' \<in> set (columnNames t)" for c'
  proof (cases "col_index t c' = col_index t c")
    case True
    then have "c' = c" by (metis col_index_less(2)[OF that] col_index_less(2)[OF c])
    then show ?thesis using row_read(4)[OF t r c] by simp
  next
    case False
    then show ?thesis by auto
  qed
  then show "tab_cell t' = (\<lambda>r' c'. if r' = r \<and> c' = c then Some x else tab_cell t r' c')"
    using g ci c r by (auto simp: tab_cell_def t'_def fun_eq_iff)
qed

lemma dbWriteStr_spec:
  assumes i: "db_inv db" and tb: "db_tab db t = Some tb" and x: "tab_cell tb r c = Some x"
    and ty: "col_type tb c = Some T_STRING"
  shows "\<exists>db'. dbWriteStr True db t c r s = Some (db', 0) \<and>
     db_update db t tb (\<lambda>r' c'. if r' = r \<and> c' = c then Some (CStr (case s of Some u \<Rightarrow> u | None \<Rightarrow> []))
                               else tab_cell tb r' c') db'"
proof -
  obtain tid where d: "dbGetTableId db t = Some tid" "0 \<le> tid" "db_table_at db tid = Some (Some tb)" "tbl_ok tb"
    "h_entry (dbListTables db) tid = Some (Some tb)" "tname tb = t"
    using db_tab_Some[OF i tb] by blast
  from x obtain pRow where p: "h_get (rows tb) r = Some pRow" "c \<in> set (columnNames tb)"
    by (auto simp: tab_cell_def split: if_splits)
  define y where "y = CStr (case s of Some u \<Rightarrow> u | None \<Rightarrow> [])"
  define tb' where "tb' = tb\<lparr>rows := h_store (rows tb) r (pRow[col_index tb c := y])\<rparr>"
  have rr: "mem_read pRow (int (col_index tb c)) = Some x" "h_entry (rows tb) r = Some (Some pRow)" "0 \<le> r" "r < nRows tb"
    "mem_write pRow (int (col_index tb c)) y = Some (pRow[col_index tb c := y])"
    using row_read[OF d(4) p] x by auto
  have tyr: "mem_read (columnTypes tb) (int (col_index tb c)) = Some T_STRING"
    using ty p(2) col_index_less(1)[OF p(2)] d(4) by (simp add: mem_read_def tbl_ok_def col_type_def)
  have cs: "cell_str x" using string_cell[OF d(4) x ty] .
  have s: "tbl_ok tb'" "same_schema tb tb'"
    "tab_cell tb' = (\<lambda>r' c'. if r' = r \<and> c' = c then Some y else tab_cell tb r' c')"
    using set_cell[OF d(4) p(2,1), of y] ty p(2) by (simp_all add: tb'_def y_def col_type_def cell_str_def)
  have "dbWriteStr True db t c r s = Some (db_put db tid tb', 0)"
    using d p(2) rr tyr cs
    by (cases x) (simp_all add: dbWriteStr_def GetColumnIndex_spec[OF d(3,4)] cell_str_def y_def tb'_def)
  moreover have "tname tb' = t" using d(6) by (simp add: tb'_def)
  ultimately show ?thesis
    using db_updateI[OF db_put_tab(1,2,3)[OF i d(1,2) s(1)] s(2,3)] unfolding y_def by blast
qed

lemma dbWriteInt_spec:
  assumes i: "db_inv db" and tb: "db_tab db t = Some tb" and x: "tab_cell tb r c = Some x"
    and ty: "col_type tb c = Some T_INT"
  shows "\<exists>db'. dbWriteInt db t c r v = Some (db', 0) \<and>
     db_update db t tb (\<lambda>r' c'. if r' = r \<and> c' = c then Some (CInt v) else tab_cell tb r' c') db'"
proof -
  obtain tid where d: "dbGetTableId db t = Some tid" "0 \<le> tid" "db_table_at db tid = Some (Some tb)" "tbl_ok tb"
    "h_entry (dbListTables db) tid = Some (Some tb)" "tname tb = t"
    using db_tab_Some[OF i tb] by blast
  from x obtain pRow where p: "h_get (rows tb) r = Some pRow" "c \<in> set (columnNames tb)"
    by (auto simp: tab_cell_def split: if_splits)
  define tb' where "tb' = tb\<lparr>rows := h_store (rows tb) r (pRow[col_index tb c := CInt v])\<rparr>"
  have tyr: "cell_typed (columnTypes tb ! col_index tb c) (CInt v)"
    using ty p(2) by (simp add: col_type_def cell_typed_def db_codes)
  have s: "tbl_ok tb'" "same_schema tb tb'"
    "tab_cell tb' = (\<lambda>r' c'. if r' = r \<and> c' = c then Some (CInt v) else tab_cell tb r' c')"
    using set_cell[OF d(4) p(2,1), of "CInt v"] tyr by (simp_all add: tb'_def)
  have "dbWriteInt db t c r v = Some (db_put db tid tb', 0)"
    using d p(2) row_read[OF d(4) p]
    by (simp add: dbWriteInt_def GetColumnIndex_spec[OF d(3,4)] tb'_def)
  moreover have "tname tb' = t" using d(6) by (simp add: tb'_def)
  ultimately show ?thesis
    using db_updateI[OF db_put_tab(1,2,3)[OF i d(1,2) s(1)] s(2,3)] by auto
qed

definition zero_row :: "dbTable \<Rightarrow> cell list" where
  "zero_row t = replicate (nat (nColumns t)) (CInt 0)"

lemma dbAddRow_raw:
  assumes i: "db_inv db" and tb: "db_tab db t = Some tb"
  shows "\<exists>db' r tb'. dbAddRow m mo db t = Some (db', r) \<and> db_inv db' \<and> db_tab db' = (db_tab db)(t \<mapsto> tb') \<and>
     dbGetTableId db' = dbGetTableId db \<and> same_schema tb tb' \<and>
     (r = -1 \<and> (refuses m \<or> refuses mo) \<and> h_get (rows tb') = h_get (rows tb) \<and> nRows tb' = nRows tb \<or>
      0 \<le> r \<and> h_get (rows tb) r = None \<and> (\<forall>j. 0 \<le> j \<and> j < r \<longrightarrow> h_get (rows tb) j \<noteq> None) \<and>
      h_get (rows tb') = (h_get (rows tb))(r \<mapsto> zero_row tb) \<and> nRows tb' = max (nRows tb) (r + 1))"
proof -
  obtain tid where d: "dbGetTableId db t = Some tid" "0 \<le> tid" "db_table_at db tid = Some (Some tb)" "tbl_ok tb" "tname tb = t"
    using db_tab_Some[OF i tb] by blast
  have hi: "h_inv (rows tb)" and top: "h_top (rows tb) (nRows tb)" and nc: "0 < nColumns tb * 4"
    and len: "nat (nColumns tb) = length (columnNames tb)"
    using d(4) by (auto simp: tbl_ok_def)
  obtain rs mx r where a: "hAllocEntry m mo (rows tb) (nRows tb) (nColumns tb * 4) (zero_row tb) = Some (rs, mx, r)" "h_inv rs"
    "r = -1 \<and> mx = nRows tb \<and> h_get rs = h_get (rows tb) \<and> (refuses m \<or> refuses mo) \<or>
      0 \<le> r \<and> h_get (rows tb) r = None \<and> h_get rs = (h_get (rows tb))(r \<mapsto> zero_row tb) \<and>
      mx = max (nRows tb) (r + 1) \<and> (\<forall>j. 0 \<le> j \<and> j < r \<longrightarrow> h_get (rows tb) j \<noteq> None)"
    using hAllocEntry_spec[OF hi nc, of m mo "nRows tb" "zero_row tb"] by blast
  define tb' where "tb' = tb\<lparr>rows := rs, nRows := mx\<rparr>"
  have e: "dbAddRow m mo db t = Some (db_put db tid tb', r)"
    using d a(1) by (simp add: dbAddRow_def tb'_def zero_row_def)
  have obj: "row_ok tb (zero_row tb)" using len by (simp add: row_ok_def zero_row_def cell_typed_def)
  have schema: "same_schema tb tb'" "tname tb' = t" using d(5) by (simp_all add: same_schema_def tb'_def)
  have "h_top rs mx"
    using a(3) top h_top_enter[OF top, of rs r "zero_row tb"] by (auto simp: h_top_def)
  moreover have "row_ok tb' q" if "h_get rs s = Some q" for s q
    using that a(3) obj d(4) by (auto simp: tb'_def row_ok_def tbl_ok_def split: if_splits)
  ultimately have ok: "tbl_ok tb'" using d(4) a(2) by (auto simp: tbl_ok_def tb'_def)
  have "rows tb' = rs" "nRows tb' = mx" by (simp_all add: tb'_def)
  then show ?thesis using e db_put_tab[OF i d(1,2) ok schema(2)] schema(1) a(3) by blast
qed

lemma dbAddRow_spec:
  assumes i: "db_inv db" and tb: "db_tab db t = Some tb"
  shows "\<exists>db' r. dbAddRow m mo db t = Some (db', r) \<and>
     (r = -1 \<and> (refuses m \<or> refuses mo) \<and> db_update db t tb (tab_cell tb) db' \<or>
      0 \<le> r \<and> (\<forall>c. tab_cell tb r c = None) \<and>
      db_update db t tb (\<lambda>r' c'. if r' = r \<and> c' \<in> set (columnNames tb) then Some (CInt 0) else tab_cell tb r' c') db')"
proof -
  obtain db' r tb' where a: "dbAddRow m mo db t = Some (db', r)" "db_inv db'" "db_tab db' = (db_tab db)(t \<mapsto> tb')"
    "dbGetTableId db' = dbGetTableId db" "same_schema tb tb'"
    "r = -1 \<and> (refuses m \<or> refuses mo) \<and> h_get (rows tb') = h_get (rows tb) \<or>
      0 \<le> r \<and> h_get (rows tb) r = None \<and> h_get (rows tb') = (h_get (rows tb))(r \<mapsto> zero_row tb)"
    using dbAddRow_raw[OF i tb, of m mo] by blast
  have len: "nat (nColumns tb) = length (columnNames tb)"
    using db_tab_ok[OF i tb] by (auto simp: tbl_ok_def)
  have cell: "tab_cell tb' r' c' = (if c' \<in> set (columnNames tb) then map_option (\<lambda>p. p ! col_index tb c') (h_get (rows tb') r') else None)" for r' c'
    using a(5) by (simp add: tab_cell_def same_schema_def col_index_def)
  show ?thesis
  proof (cases "0 \<le> r")
    case False
    then have "tab_cell tb' = tab_cell tb" using a(6) cell by (auto simp: tab_cell_def fun_eq_iff)
    then show ?thesis using db_updateI[OF a(2-5)] a(1,6) False by auto
  next
    case True
    have "zero_row tb ! col_index tb c' = CInt 0" if "c' \<in> set (columnNames tb)" for c'
      using col_index_less(1)[OF that] len by (simp add: zero_row_def)
    then have "tab_cell tb' = (\<lambda>r' c'. if r' = r \<and> c' \<in> set (columnNames tb) then Some (CInt 0) else tab_cell tb r' c')"
      using a(6) cell True by (auto simp: tab_cell_def fun_eq_iff)
    moreover have "\<forall>c. tab_cell tb r c = None" using a(6) True by (simp add: tab_cell_def)
    ultimately show ?thesis using db_updateI[OF a(2-5)] a(1) True by blast
  qed
qed

lemma free_strings_ok:
  assumes "length types = length pRow" "\<forall>i<length pRow. types ! i = T_STRING \<longrightarrow> cell_str (pRow ! i)"
  shows "0 \<le> i \<Longrightarrow> i + int n \<le> int (length pRow) \<Longrightarrow> free_strings types pRow i n = Some ()"
proof (induction n arbitrary: i)
  case 0
  then show ?case by simp
next
  case (Suc n)
  have l: "nat i < length pRow" using Suc.prems by linarith
  then have "mem_read pRow i = Some (pRow ! nat i)" "mem_read types i = Some (types ! nat i)"
    using Suc.prems assms(1) by (simp_all add: mem_read_def)
  moreover have "types ! nat i = T_STRING \<longrightarrow> cell_str (pRow ! nat i)" using assms(2) l by blast
  moreover have "free_strings types pRow (i + 1) n = Some ()" using Suc by simp
  ultimately show ?case by (auto simp: cell_str_def split: cell.splits)
qed

lemma cell_typed_str: "cell_typed ty c \<Longrightarrow> ty = T_STRING \<Longrightarrow> cell_str c"
  by simp

lemma free_row:
  assumes "tbl_ok t" "h_get (rows t) r = Some pRow"
  shows "free_strings (columnTypes t) pRow 0 (nat (nColumns t)) = Some ()"
  using assms by (intro free_strings_ok) (auto simp: tbl_ok_def row_ok_def dest!: spec elim!: cell_typed_str)

lemma dbDeleteRow_spec:
  assumes i: "db_inv db" and tb: "db_tab db t = Some tb"
  shows "\<exists>db' rc. dbDeleteRow db t r = Some (db', rc) \<and>
     rc = (if 0 \<le> r \<and> r < nRows tb then 0 else -1) \<and>
     db_update db t tb (\<lambda>r' c'. if r' = r then None else tab_cell tb r' c') db'"
proof -
  obtain tid where d: "dbGetTableId db t = Some tid" "0 \<le> tid" "db_table_at db tid = Some (Some tb)" "tbl_ok tb" "tname tb = t"
    using db_tab_Some[OF i tb] by blast
  have hi: "h_inv (rows tb)" and top: "h_top (rows tb) (nRows tb)" using d(4) by (auto simp: tbl_ok_def)
  show ?thesis
  proof (cases "h_get (rows tb) r")
    case None
    have "dbDeleteRow db t r = Some (db, if 0 \<le> r \<and> r < nRows tb then 0 else -1)"
      using d None h_entry_below[OF top, of r] by (simp add: dbDeleteRow_def)
    moreover have "tab_cell tb = (\<lambda>r' c'. if r' = r then None else tab_cell tb r' c')"
      using None by (simp add: tab_cell_def fun_eq_iff)
    then have "db_update db t tb (\<lambda>r' c'. if r' = r then None else tab_cell tb r' c') db"
      using db_update_refl[OF i tb] by simp
    ultimately show ?thesis by blast
  next
    case (Some pRow)
    have b: "0 \<le> r \<and> r < nRows tb" using h_top_in[OF top Some] .
    obtain rs mx where f: "hFree (rows tb) r = Some (rs, mx)" "h_inv rs" "h_get rs = (h_get (rows tb))(r := None)"
      "0 \<le> mx" "\<forall>j. mx \<le> j \<longrightarrow> h_get rs j = None" "0 < mx \<longrightarrow> h_get rs (mx - 1) \<noteq> None"
      using hm.free_law[OF hi Some] by blast
    define tb' where "tb' = tb\<lparr>rows := rs, nRows := mx\<rparr>"
    have "dbDeleteRow db t r = Some (db_put db tid tb', 0)"
      using d b f(1) free_row[OF d(4) Some] Some by (simp add: dbDeleteRow_def h_entry_get tb'_def)
    moreover have "row_ok tb' q" if "h_get rs s = Some q" for s q
      using that f(3) d(4) by (auto simp: tb'_def row_ok_def tbl_ok_def split: if_splits)
    then have ok: "tbl_ok tb'" using d(4) f by (auto simp: tbl_ok_def tb'_def h_top_def)
    moreover have "tab_cell tb' = (\<lambda>r' c'. if r' = r then None else tab_cell tb r' c')"
      using f(3) by (auto simp: tab_cell_def tb'_def col_index_def fun_eq_iff)
    moreover have s: "same_schema tb tb'" "tname tb' = t" using d(5) by (simp_all add: same_schema_def tb'_def)
    ultimately show ?thesis
      using db_updateI[OF db_put_tab(1,2,3)[OF i d(1,2) ok s(2)] s(1)] b by auto
  qed
qed

text \<open>Every operation on a name that is not a table returns the table error and changes nothing.\<close>

lemma db_no_table:
  assumes "db_inv db" "db_tab db t = None"
  shows "dbSearchStr sc db t c v flags = Some DB_ERR_TABLE_NOT_FOUND"
    and "dbReadInt db t c r = Some (DB_ERR_TABLE_NOT_FOUND, None)"
    and "dbWriteInt db t c r n = Some (db, DB_ERR_TABLE_NOT_FOUND)"
    and "dbWriteStr dup db t c r s = Some (db, DB_ERR_TABLE_NOT_FOUND)"
    and "dbAddRow m mo db t = Some (db, DB_ERR_TABLE_NOT_FOUND)"
    and "dbDeleteRow db t r = Some (db, DB_ERR_TABLE_NOT_FOUND)"
    and "dbGetTableNrow db t = Some (-1)"
  using db_tab_None[OF assms]
  by (simp_all add: dbSearchStr_def dbReadInt_def dbWriteInt_def dbWriteStr_def dbAddRow_def dbDeleteRow_def
      dbGetTableNrow_def)

section \<open>Growing a table\<close>

text \<open>Every round of \<^verbatim>\<open>dbSetTableNrow\<close> fills the lowest free row, so the free rows below the goal run out.\<close>

definition free_below :: "dbTable \<Rightarrow> int \<Rightarrow> int set" where
  "free_below t n = {j. 0 \<le> j \<and> j < n \<and> h_get (rows t) j = None}"

lemma free_below_finite: "finite (free_below t n)"
  by (rule finite_subset[of _ "{0..<n}"]) (auto simp: free_below_def)

lemma dbSetTableNrow_loop_spec:
  assumes "\<not> refuses m" "\<not> refuses mo"
  shows "db_inv db \<Longrightarrow> db_tab db t = Some tb \<Longrightarrow> dbGetTableId db t = Some tid \<Longrightarrow>
     \<exists>db' tb'. dbSetTableNrow_loop m mo db t tid n = Some (db', 0) \<and> db_inv db' \<and>
       db_tab db' = (db_tab db)(t \<mapsto> tb') \<and> same_schema tb tb' \<and> nRows tb' = max (nRows tb) n \<and>
       (\<forall>r p. h_get (rows tb) r = Some p \<longrightarrow> h_get (rows tb') r = Some p)"
proof (induction "card (free_below tb n)" arbitrary: db tb rule: less_induct)
  case less
  have g: "h_get (dbListTables db) tid = Some tb"
    using less.prems(2,3) by (auto simp: db_tab_def split: if_splits)
  show ?case
  proof (cases "nRows tb < n")
    case False
    then have "dbSetTableNrow_loop m mo db t tid n = Some (db, 0)"
      using g by (simp add: dbSetTableNrow_loop.simps)
    then show ?thesis
      using less.prems(1,2) False by (intro exI[of _ db] exI[of _ tb]) (auto simp: same_schema_def fun_upd_idem)
  next
    case True
    obtain db1 r tb1 where a: "dbAddRow m mo db t = Some (db1, r)" "db_inv db1" "db_tab db1 = (db_tab db)(t \<mapsto> tb1)"
      "dbGetTableId db1 = dbGetTableId db" "same_schema tb tb1" "0 \<le> r" "h_get (rows tb) r = None"
      "\<forall>j. 0 \<le> j \<and> j < r \<longrightarrow> h_get (rows tb) j \<noteq> None"
      "h_get (rows tb1) = (h_get (rows tb))(r \<mapsto> zero_row tb)" "nRows tb1 = max (nRows tb) (r + 1)"
      using dbAddRow_raw[OF less.prems(1,2), of m mo] assms by blast
    have top: "h_top (rows tb) (nRows tb)" using db_tab_ok[OF less.prems(1,2)] by (auto simp: tbl_ok_def)
    then have "h_get (rows tb) (nRows tb) = None" "0 \<le> nRows tb" by (simp_all add: h_top_def)
    then have r: "r \<le> nRows tb" using a(8) by (metis linorder_not_le)
    have "r \<in> free_below tb n" "r \<notin> free_below tb1 n" "free_below tb1 n \<subseteq> free_below tb n"
      using r True a(6,7,9) by (auto simp: free_below_def fun_upd_def)
    then have "free_below tb1 n \<subset> free_below tb n" by blast
    then have "card (free_below tb1 n) < card (free_below tb n)" by (rule psubset_card_mono[OF free_below_finite])
    then obtain db' tb' where l: "dbSetTableNrow_loop m mo db1 t tid n = Some (db', 0)" "db_inv db'"
      "db_tab db' = (db_tab db1)(t \<mapsto> tb')" "same_schema tb1 tb'" "nRows tb' = max (nRows tb1) n"
      "\<forall>r p. h_get (rows tb1) r = Some p \<longrightarrow> h_get (rows tb') r = Some p"
      using less.hyps[of tb1 db1] a(2-4) less.prems(3) by auto
    have "dbSetTableNrow_loop m mo db t tid n = Some (db', 0)"
      using g True a(1,6) l(1) by (simp add: dbSetTableNrow_loop.simps[of m mo db])
    moreover have "h_get (rows tb') s = Some p" if "h_get (rows tb) s = Some p" for s p
      using that l(6) a(7,9) by (metis fun_upd_other option.distinct(1))
    moreover have "nRows tb' = max (nRows tb) n" using l(5) a(10) r True by auto
    ultimately show ?thesis using l(2-4) a(3,5) by (auto simp: same_schema_def)
  qed
qed

section \<open>Schemas, emptying and closing\<close>

lemma copy_columns_spec:
  "length names = length types \<Longrightarrow> 0 \<le> i \<Longrightarrow> i + int n = int (length names) \<Longrightarrow>
     copy_columns True names types i n = Some (drop (nat i) names, drop (nat i) types)"
proof (induction n arbitrary: i)
  case 0
  then show ?case by simp
next
  case (Suc n)
  have l: "nat i < length names" "nat (i + 1) = Suc (nat i)" using Suc.prems by auto
  have "mem_read names i = Some (names ! nat i)" "mem_read types i = Some (types ! nat i)"
    using Suc.prems by (simp_all add: mem_read_def)
  then show ?case
    using Suc.IH[of "i + 1"] Suc.prems l take_Suc_drop_nth[of "nat i" names] take_Suc_drop_nth[of "nat i" types]
    by simp
qed

definition schema_ok :: "dbTable \<Rightarrow> bool" where
  "schema_ok reg \<longleftrightarrow> 0 < nColumns reg \<and> nColumns reg = int (length (columnNames reg)) \<and>
     length (columnTypes reg) = length (columnNames reg)"

lemma dbRegisterDBSchema_spec:
  assumes i: "db_inv db" and reg: "schema_ok reg" and fresh: "db_tab db (tname reg) = None"
    and m: "\<not> refuses m" "\<not> refuses mo"
  shows "\<exists>db'. dbRegisterDBSchema m mo True db reg = Some (db', 0) \<and> db_inv db' \<and>
     db_tab db' = (db_tab db)(tname reg \<mapsto> reg\<lparr>nRows := 0, rows := None\<rparr>)"
proof -
  have hi: "h_inv (dbListTables db)" and top: "h_top (dbListTables db) (dbMaxTables db)" using i by (simp_all add: db_inv_def)
  obtain lst mx tid where a: "hAllocEntry m mo (dbListTables db) (dbMaxTables db) 24 empty_table = Some (lst, mx, tid)"
    "h_inv lst" "0 \<le> tid" "h_get (dbListTables db) tid = None" "h_get lst = (h_get (dbListTables db))(tid \<mapsto> empty_table)"
    "mx = max (dbMaxTables db) (tid + 1)"
    using hAllocEntry_spec[OF hi, of 24 m mo "dbMaxTables db" empty_table] m by auto
  define t where "t = reg\<lparr>nRows := 0, rows := None\<rparr>"
  define db' where "db' = db_put (db\<lparr>dbListTables := lst, dbMaxTables := mx\<rparr>) tid t"
  have tg: "h_get lst tid = Some empty_table" using a(5) by simp
  have pos: "0 < nColumns reg" using reg by (auto simp: schema_ok_def)
  have t: "t = \<lparr>tname = tname reg, nColumns = nColumns reg, columnNames = columnNames reg,
      columnTypes = columnTypes reg, nRows = 0, rows = None\<rparr>" by (simp add: t_def)
  have "copy_columns True (columnNames reg) (columnTypes reg) 0 (nat (nColumns reg)) = Some (columnNames reg, columnTypes reg)"
    using copy_columns_spec[of "columnNames reg" "columnTypes reg" 0 "length (columnNames reg)"] reg
    by (simp add: schema_ok_def)
  then have e: "dbRegisterDBSchema m mo True db reg = Some (db', 0)"
    using a(1) tg pos by (simp add: dbRegisterDBSchema_def db'_def t Let_def)
  have g: "h_get (dbListTables db') = (h_get (dbListTables db))(tid \<mapsto> t)" "h_inv (dbListTables db')"
    using h_store_inuse[OF a(2) tg, of t] a(5) by (simp_all add: db'_def db_put_def)
  have "tbl_ok t" using reg by (auto simp: tbl_ok_def t schema_ok_def h_inv_def h_top_def h_get_def)
  moreover have "h_top (dbListTables db') (dbMaxTables db')"
    using h_top_enter[OF top g(1) a(3)] a(6) by (simp add: db'_def db_put_def)
  ultimately have i': "db_inv db'" using g i by (auto simp: db_inv_def split: if_splits)
  have nm: "names_at db' = (names_at db)(tid \<mapsto> tname reg)" using g(1) t by (auto simp: names_at_def fun_eq_iff)
  have none: "names_at db j \<noteq> Some (tname reg)" for j
    using dbGetTableId_first[OF i, of "tname reg"] db_tab_None[OF i fresh] by (auto simp: first_name_def)
  have "db_tab db' u = ((db_tab db)(tname reg \<mapsto> t)) u" for u
  proof -
    obtain a' b where ab: "dbGetTableId db' u = Some a'" "first_name db' u a'" "dbGetTableId db u = Some b" "first_name db u b"
      using dbGetTableId_first[OF i'] dbGetTableId_first[OF i] by blast
    show ?thesis
    proof (cases "u = tname reg")
      case True
      then have "first_name db' u tid" using nm none a(3) by (auto simp: first_name_def)
      then have "a' = tid" using ab(2) first_name_unique by blast
      then show ?thesis using ab(1) a(3) g(1) True by (simp add: db_tab_def)
    next
      case False
      have "names_at db tid = None" using a(4) by (simp add: names_at_def)
      then have "first_name db' u b" "b \<noteq> tid"
        using ab(4) nm False a(3) by (auto simp: first_name_def)
      moreover from this have "a' = b" using ab(2) first_name_unique by blast
      ultimately show ?thesis using ab(1,3) g(1) False by (simp add: db_tab_def)
    qed
  qed
  then have "db_tab db' = (db_tab db)(tname reg \<mapsto> t)" by (simp add: fun_eq_iff)
  then show ?thesis using e i' by (simp add: t_def)
qed

lemma dbZero_rows_ok:
  "tbl_ok (t0\<lparr>rows := rows0\<rparr>) \<Longrightarrow> h_inv (rows t) \<Longrightarrow> same_schema t0 t \<Longrightarrow> nRows t = nRows t0 \<Longrightarrow>
   0 \<le> r \<Longrightarrow> r + int n = nRows t0 \<Longrightarrow>
   (\<forall>i. h_get (rows t) i = (if i < r then None else h_get rows0 i)) \<Longrightarrow>
   \<exists>t'. dbZero_rows t r n = Some t' \<and> same_schema t0 t'"
proof (induction n arbitrary: t r)
  case 0
  then show ?case by auto
next
  case (Suc n)
  have top0: "h_top rows0 (nRows t0)" and rok: "\<And>s p. h_get rows0 s = Some p \<Longrightarrow> row_ok (t0\<lparr>rows := rows0\<rparr>) p"
    using Suc.prems(1) by (auto simp: tbl_ok_def)
  have top: "h_top (rows t) (nRows t0)" using top0 Suc.prems(5-7) by (auto simp: h_top_def)
  then have h: "h_entry (rows t) r = Some (h_get rows0 r)"
    using h_entry_below[OF top, of r] Suc.prems(5-7) by simp
  show ?case
  proof (cases "h_get rows0 r")
    case None
    then have "\<forall>i. h_get (rows t) i = (if i < r + 1 then None else h_get rows0 i)"
      using Suc.prems(7) by (auto simp: less_le)
    then show ?thesis using Suc.IH[of t "r + 1"] Suc.prems None h by simp
  next
    case (Some pRow)
    then have g: "h_get (rows t) r = Some pRow" using Suc.prems(7) by simp
    obtain rs mx where f: "hFree (rows t) r = Some (rs, mx)" "h_inv rs" "h_get rs = (h_get (rows t))(r := None)"
      using hm.free_law[OF Suc.prems(2) g] by blast
    have fs: "free_strings (columnTypes t) pRow 0 (nat (nColumns t)) = Some ()"
      using rok[OF Some] Suc.prems(1,3)
      by (intro free_strings_ok) (auto simp: row_ok_def tbl_ok_def same_schema_def)
    have "\<forall>i. h_get rs i = (if i < r + 1 then None else h_get rows0 i)"
      using Suc.prems(7) f(3) by (auto simp: less_le)
    then have "\<exists>t'. dbZero_rows (t\<lparr>rows := rs\<rparr>) (r + 1) n = Some t' \<and> same_schema t0 t'"
      using Suc.prems f(2) by (intro Suc.IH) (auto simp: same_schema_def)
    then show ?thesis using h Some f(1) fs by simp
  qed
qed

definition emptied :: "dbTable \<Rightarrow> dbTable" where
  "emptied t = t\<lparr>rows := None, nRows := 0\<rparr>"

lemma dbZero_table:
  assumes "tbl_ok t"
  shows "\<exists>t'. dbZero_rows t 0 (nat (nRows t)) = Some t' \<and> t'\<lparr>rows := None, nRows := 0\<rparr> = emptied t"
proof -
  have "0 \<le> nRows t" "h_inv (rows t)" using assms by (auto simp: tbl_ok_def h_top_def)
  moreover have neg: "h_get (rows t) i = None" if "i < 0" for i
    using h_get_bounds[of "rows t" i] that by (cases "h_get (rows t) i") auto
  then have "\<forall>i. h_get (rows t) i = (if i < 0 then None else h_get (rows t) i)" by simp
  ultimately obtain t' where "dbZero_rows t 0 (nat (nRows t)) = Some t'" "same_schema t t'"
    using dbZero_rows_ok[where ?t0.0 = t and ?rows0.0 = "rows t" and t = t and r = 0 and n = "nat (nRows t)"] assms by (auto simp: same_schema_def)
  then show ?thesis by (simp add: emptied_def same_schema_def)
qed

text \<open>Emptying all tables, one handle after the other.\<close>

lemma dbZero_tables_ok:
  "db_inv db \<Longrightarrow> 0 \<le> k \<Longrightarrow> k + int n = dbMaxTables db \<Longrightarrow>
   \<exists>db'. dbZero_tables db k n = Some db' \<and> db_inv db' \<and> dbMaxTables db' = dbMaxTables db \<and>
     (\<forall>i. h_get (dbListTables db') i =
        (if k \<le> i then map_option emptied (h_get (dbListTables db) i) else h_get (dbListTables db) i))"
proof (induction n arbitrary: db k)
  case 0
  then have "h_get (dbListTables db) i = None" if "k \<le> i" for i using that by (auto simp: db_inv_def h_top_def)
  then show ?case using 0 by auto
next
  case (Suc n)
  have hi: "h_inv (dbListTables db)" and top: "h_top (dbListTables db) (dbMaxTables db)" using Suc.prems(1) by (simp_all add: db_inv_def)
  have h: "h_entry (dbListTables db) k = Some (h_get (dbListTables db) k)"
    using h_entry_below[OF top] Suc.prems by simp
  have split: "k \<le> i \<longleftrightarrow> i = k \<or> k + 1 \<le> i" for i by auto
  show ?case
  proof (cases "h_get (dbListTables db) k")
    case None
    then show ?thesis using Suc.IH[of db "k + 1"] Suc.prems h by (auto simp: split)
  next
    case (Some t)
    then have ok: "tbl_ok t" using Suc.prems(1) by (auto simp: db_inv_def)
    obtain t' where z: "dbZero_rows t 0 (nat (nRows t)) = Some t'" "t'\<lparr>rows := None, nRows := 0\<rparr> = emptied t"
      using dbZero_table[OF ok] by blast
    define db1 where "db1 = db_put db k (emptied t)"
    have ok': "tbl_ok (emptied t)" using ok by (auto simp: tbl_ok_def emptied_def h_inv_def h_top_def h_get_def)
    have g: "h_get (dbListTables db1) = (h_get (dbListTables db))(k \<mapsto> emptied t)" "dbMaxTables db1 = dbMaxTables db"
      using h_store_inuse(2)[OF hi Some] by (simp_all add: db1_def db_put_def)
    have i1: "db_inv db1"
      using h_store_inuse[OF hi Some] h_top_store[OF hi Some top] ok' Suc.prems(1)
      by (auto simp: db_inv_def db1_def db_put_def)
    obtain db' where "dbZero_tables db1 (k + 1) n = Some db'" "db_inv db'" "dbMaxTables db' = dbMaxTables db1"
      "\<forall>i. h_get (dbListTables db') i =
        (if k + 1 \<le> i then map_option emptied (h_get (dbListTables db1) i) else h_get (dbListTables db1) i)"
      using Suc.IH[of db1 "k + 1"] Suc.prems i1 g(2) by auto
    then show ?thesis using h Some z g by (auto simp: split db1_def)
  qed
qed

lemma dbZero_spec:
  assumes i: "db_inv db"
  shows "\<exists>db'. dbZero db = Some db' \<and> db_inv db' \<and> dbMaxTables db' = dbMaxTables db \<and>
     (\<forall>t. db_tab db' t = map_option emptied (db_tab db t))"
proof -
  have "0 \<le> dbMaxTables db" using i by (simp add: db_inv_def h_top_def)
  then obtain db' where z: "dbZero db = Some db'" "db_inv db'" "dbMaxTables db' = dbMaxTables db"
    "\<forall>k. 0 \<le> k \<longrightarrow> h_get (dbListTables db') k = map_option emptied (h_get (dbListTables db) k)"
    using dbZero_tables_ok[OF i, of 0 "nat (dbMaxTables db)"] by (auto simp: dbZero_def)
  have "names_at db' k = names_at db k" for k
  proof (cases "0 \<le> k")
    case True
    then show ?thesis using z(4) by (cases "h_get (dbListTables db) k") (simp_all add: names_at_def emptied_def)
  next
    case False
    then show ?thesis using h_get_bounds by (metis names_at_def option.exhaust)
  qed
  then have "names_at db' = names_at db" by (simp add: fun_eq_iff)
  then have fn: "first_name db' = first_name db" by (simp add: first_name_def fun_eq_iff)
  have "db_tab db' t = map_option emptied (db_tab db t)" for t
  proof -
    obtain a b where "dbGetTableId db' t = Some a" "first_name db' t a" "dbGetTableId db t = Some b" "first_name db t b"
      using dbGetTableId_first[OF z(2)] dbGetTableId_first[OF i] by blast
    moreover from this have "a = b" using fn first_name_unique by simp
    ultimately show ?thesis using z(4) by (simp add: db_tab_def)
  qed
  then show ?thesis using z by blast
qed

lemma dbClose_tables_ok:
  "h_inv lst \<Longrightarrow> 0 \<le> k \<Longrightarrow> (\<forall>i. i < k \<longrightarrow> h_get lst i = None) \<Longrightarrow>
   (0 < n \<Longrightarrow> h_top lst (k + int n)) \<Longrightarrow> \<exists>lst'. dbClose_tables lst k n = Some lst'"
proof (induction n arbitrary: lst k)
  case 0
  then show ?case by simp
next
  case (Suc n)
  have top: "h_top lst (k + int (Suc n))" using Suc.prems(4) by simp
  have h: "h_entry lst k = Some (h_get lst k)" using h_entry_below[OF top] Suc.prems(2) by simp
  have below: "\<forall>i. i < k + 1 \<longrightarrow> h_get l i = None"
    if "\<forall>i. i < k \<longrightarrow> h_get l i = None" "h_get l k = None" for l :: "dbTable hmap option"
    using that by (metis zless_add1_eq)
  show ?case
  proof (cases "h_get lst k")
    case None
    have "h_top lst (k + 1 + int n)" using top by (simp add: algebra_simps)
    then have "\<exists>lst'. dbClose_tables lst (k + 1) n = Some lst'"
      using Suc.prems(1,2) below[OF Suc.prems(3) None] by (intro Suc.IH) simp_all
    then show ?thesis using h None by simp
  next
    case (Some t)
    obtain l1 mx where f: "hFree lst k = Some (l1, mx)" "h_inv l1" "h_get l1 = (h_get lst)(k := None)"
      using hm.free_law[OF Suc.prems(1) Some] by blast
    have "h_top l1 (k + 1 + int n)" if "0 < n" using top f(3) that by (auto simp: h_top_def algebra_simps)
    then have "\<exists>lst'. dbClose_tables l1 (k + 1) n = Some lst'"
      using Suc.prems(2,3) f(2,3) below[of l1] by (intro Suc.IH) auto
    then show ?thesis using h Some f(1) by simp
  qed
qed

lemma dbClose_spec:
  assumes i: "db_inv db"
  shows "\<exists>db'. dbClose db = Some db' \<and> db_inv db' \<and> (\<forall>t. db_tab db' t = None)"
proof -
  obtain db1 where z: "dbZero db = Some db1" "db_inv db1" using dbZero_spec[OF i] by blast
  have top: "h_top (dbListTables db1) (dbMaxTables db1)" and hi: "h_inv (dbListTables db1)" using z(2) by (simp_all add: db_inv_def)
  have "h_get (dbListTables db1) j = None" if "j < 0" for j
    using h_get_bounds[of "dbListTables db1" j] that by (cases "h_get (dbListTables db1) j") auto
  moreover have "0 \<le> dbMaxTables db1" using top by (simp add: h_top_def)
  ultimately obtain lst where "dbClose_tables (dbListTables db1) 0 (nat (dbMaxTables db1)) = Some lst"
    using dbClose_tables_ok[OF hi, of 0 "nat (dbMaxTables db1)"] top by auto
  then have "dbClose db = Some (db1\<lparr>dbListTables := None, dbMaxTables := 0\<rparr>)" using z(1) by (simp add: dbClose_def)
  then show ?thesis by (auto simp: db_inv_def h_inv_def h_top_def h_get_def db_tab_def dbGetTableId_def)
qed

lemma dbOpen_spec: "db_inv (fst (dbOpen db))" "db_tab (fst (dbOpen db)) t = None"
  by (auto simp: dbOpen_def db_inv_def h_inv_def h_top_def h_get_def db_tab_def dbGetTableId_def)

section \<open>Records by key\<close>

text \<open>
  What a client needs that keeps one record per key in a table (users, groups, access
  limits): searching the key column finds the first row with that key, and a write to a
  cell of an existing row changes that cell only. The client's view is a field of the
  record of a key; a write to a field that is not the key changes that field of that key.
\<close>

locale keyed_table =
  fixes inv :: "'s \<Rightarrow> bool"
    and cellof :: "'s \<Rightarrow> int \<Rightarrow> cstring \<Rightarrow> cell option"
    and typed :: "'s \<Rightarrow> cstring \<Rightarrow> cell \<Rightarrow> bool"
    and search :: "'s \<Rightarrow> cstring \<Rightarrow> int option"
    and put :: "'s \<Rightarrow> int \<Rightarrow> cstring \<Rightarrow> cell \<Rightarrow> 's option"
    and key :: cstring
  assumes search_law: "inv s \<Longrightarrow>
      \<exists>k. search s v = Some k \<and> first_row (\<lambda>r. cellof s r key = Some (CStr v)) k"
    and put_law: "inv s \<Longrightarrow> cellof s r c \<noteq> None \<Longrightarrow> typed s c x \<Longrightarrow>
      \<exists>s'. put s r c x = Some s' \<and> inv s' \<and> typed s' = typed s \<and>
        cellof s' = (\<lambda>r' c'. if r' = r \<and> c' = c then Some x else cellof s r' c')"
begin

definition field :: "'s \<Rightarrow> cstring \<Rightarrow> cstring \<Rightarrow> cell option" where
  "field s v c = (case search s v of Some k \<Rightarrow> if k < 0 then None else cellof s k c | None \<Rightarrow> None)"

lemma first_row_same: "first_row P k \<Longrightarrow> first_row P k' \<Longrightarrow> k = k'"
  by (auto simp: first_row_def) (meson linorder_neqE_linordered_idom)

lemma search_cong:
  assumes "inv s" "inv s'" "\<forall>r. cellof s' r key = cellof s r key"
  shows "search s' v = search s v"
  using search_law[OF assms(1), of v] search_law[OF assms(2), of v] assms(3) first_row_same by fastforce

lemma put_field:
  assumes i: "inv s" and k: "search s v = Some r" "0 \<le> r" and c: "cellof s r c \<noteq> None" "typed s c x" "c \<noteq> key"
  shows "\<exists>s'. put s r c x = Some s' \<and> inv s' \<and> typed s' = typed s \<and> search s' = search s \<and> field s' v c = Some x \<and>
     (\<forall>v' c'. v' \<noteq> v \<or> c' \<noteq> c \<longrightarrow> field s' v' c' = field s v' c')"
proof -
  obtain s' where p: "put s r c x = Some s'" "inv s'" "typed s' = typed s"
    "cellof s' = (\<lambda>r' c'. if r' = r \<and> c' = c then Some x else cellof s r' c')"
    using put_law[OF i c(1,2)] by blast
  have s: "search s' u = search s u" for u using search_cong[OF i p(2)] p(4) c(3) by simp
  have "field s' v' c' = field s v' c'" if d: "v' \<noteq> v \<or> c' \<noteq> c" for v' c'
  proof -
    obtain k' where k': "search s v' = Some k'" "first_row (\<lambda>r. cellof s r key = Some (CStr v')) k'"
      using search_law[OF i] by blast
    moreover have "first_row (\<lambda>r. cellof s r key = Some (CStr v)) r" using search_law[OF i, of v] k(1) by auto
    ultimately have "0 \<le> k' \<and> k' = r \<longrightarrow> v' = v" using k(2) by (auto simp: first_row_def)
    then show ?thesis using s[of v'] k'(1) p(4) d by (auto simp: field_def)
  qed
  then show ?thesis using p s k by (auto simp: field_def)
qed

end

definition table_of :: "cstring \<Rightarrow> cstring \<Rightarrow> dbstate \<Rightarrow> bool" where
  "table_of t key db \<longleftrightarrow> db_inv db \<and> (\<exists>tb. db_tab db t = Some tb \<and> col_type tb key = Some T_STRING)"

definition db_cell :: "cstring \<Rightarrow> dbstate \<Rightarrow> int \<Rightarrow> cstring \<Rightarrow> cell option" where
  "db_cell t db r c = (case db_tab db t of Some tb \<Rightarrow> tab_cell tb r c | None \<Rightarrow> None)"

definition db_typed :: "cstring \<Rightarrow> dbstate \<Rightarrow> cstring \<Rightarrow> cell \<Rightarrow> bool" where
  "db_typed t db c x =
     (case db_tab db t of
        Some tb \<Rightarrow> col_type tb c = Some (case x of CStr _ \<Rightarrow> T_STRING | CInt _ \<Rightarrow> T_INT)
      | None \<Rightarrow> False)"

definition db_write :: "cstring \<Rightarrow> dbstate \<Rightarrow> int \<Rightarrow> cstring \<Rightarrow> cell \<Rightarrow> dbstate option" where
  "db_write t db r c x =
     map_option fst (case x of CStr u \<Rightarrow> dbWriteStr True db t c r (Some u) | CInt n \<Rightarrow> dbWriteInt db t c r n)"

lemma cell_match_exact [simp]: "cell_match sc 0 v x \<longleftrightarrow> x = Some (CStr v)"
  by (auto simp: cell_match_def str_match_def db_codes)

lemma db_write_spec:
  assumes "db_inv db" "db_cell t db r c \<noteq> None" "db_typed t db c x"
  shows "\<exists>db'. db_write t db r c x = Some db' \<and>
     (case x of CStr u \<Rightarrow> dbWriteStr True db t c r (Some u) | CInt n \<Rightarrow> dbWriteInt db t c r n) = Some (db', 0) \<and>
     (\<exists>tb. db_tab db t = Some tb \<and>
       db_update db t tb (\<lambda>r' c'. if r' = r \<and> c' = c then Some x else tab_cell tb r' c') db')"
proof -
  obtain tb y where tb: "db_tab db t = Some tb" "tab_cell tb r c = Some y"
    using assms(2) by (auto simp: db_cell_def split: option.splits)
  show ?thesis
  proof (cases x)
    case (CStr u)
    then show ?thesis
      using dbWriteStr_spec[OF assms(1) tb, where s = "Some u", unfolded option.case] assms(3) tb
      by (auto simp: db_write_def db_typed_def)
  next
    case (CInt n)
    then show ?thesis
      using dbWriteInt_spec[OF assms(1) tb, of n] assms(3) tb by (auto simp: db_write_def db_typed_def)
  qed
qed

interpretation kt: keyed_table "table_of t key" "db_cell t" "db_typed t" "\<lambda>db v. dbSearchStr sc db t key (Some v) 0" "db_write t" key
  for t key sc
proof
  fix s v
  assume "table_of t key s"
  then obtain tb where tb: "db_inv s" "db_tab s t = Some tb" "col_type tb key = Some T_STRING" by (auto simp: table_of_def)
  then show "\<exists>k. dbSearchStr sc s t key (Some v) 0 = Some k \<and> first_row (\<lambda>r. db_cell t s r key = Some (CStr v)) k"
    using dbSearchStr_spec[OF tb, of sc v 0] by (simp add: db_cell_def)
next
  fix s r c x
  assume a: "table_of t key s" "db_cell t s r c \<noteq> None" "db_typed t s c x"
  then obtain tb where tb: "db_inv s" "db_tab s t = Some tb" "col_type tb key = Some T_STRING" by (auto simp: table_of_def)
  obtain s' where w: "db_write t s r c x = Some s'"
    "db_update s t tb (\<lambda>r' c'. if r' = r \<and> c' = c then Some x else tab_cell tb r' c') s'"
    using db_write_spec[OF tb(1) a(2,3)] tb(2) by auto
  then show "\<exists>s'. db_write t s r c x = Some s' \<and> table_of t key s' \<and> db_typed t s' = db_typed t s \<and>
      db_cell t s' = (\<lambda>r' c'. if r' = r \<and> c' = c then Some x else db_cell t s r' c')"
    using tb same_schema_cols by (auto simp: db_update_def table_of_def db_cell_def db_typed_def fun_eq_iff)
qed

section \<open>Properties\<close>

definition tbl_sample :: dbTable where
  "tbl_sample = \<lparr>tname = ''users'', nColumns = 2, columnNames = [''name'', ''prot''], columnTypes = [T_STRING, T_INT],
     nRows = 3, rows = Some \<lparr>H_LEN = 16, H_USED = 2,
       slots = [Some [CStr ''root'', CInt 1], None, Some [CStr ''guest'', CInt 0]] @ replicate 13 None\<rparr>\<rparr>"

definition db_sample :: dbstate where
  "db_sample = \<lparr>dbListTables = Some \<lparr>H_LEN = 16, H_USED = 1, slots = Some tbl_sample # replicate 15 None\<rparr>,
     dbMaxTables = 1, basicProdDir = None, basicDefaultDir = ''.''\<rparr>"

lemma tbl_sample_rows:
  "h_get (rows tbl_sample) r = (if r = 0 then Some [CStr ''root'', CInt 1] else
     if r = 2 then Some [CStr ''guest'', CInt 0] else None)"
  by (auto simp: h_get_def tbl_sample_def nth_append nth_Cons' split: if_splits)

lemma tbl_sample_ok: "tbl_ok tbl_sample"
proof -
  have "h_inv (rows tbl_sample)" by (simp add: tbl_sample_def h_inv_def h_ok_def H_INCR_def)
  moreover have "h_top (rows tbl_sample) (nRows tbl_sample)"
    by (auto simp: h_top_def tbl_sample_rows) (simp_all add: tbl_sample_def)
  moreover have "row_ok tbl_sample p" if "h_get (rows tbl_sample) r = Some p" for r p
  proof -
    have "p = [CStr ''root'', CInt 1] \<or> p = [CStr ''guest'', CInt 0]"
      using that by (auto simp: tbl_sample_rows split: if_splits)
    then show ?thesis by (auto simp: row_ok_def tbl_sample_def cell_typed_def less_Suc_eq db_codes)
  qed
  ultimately show ?thesis by (auto simp: tbl_ok_def) (simp_all add: tbl_sample_def)
qed

lemma db_sample_inv: "db_inv db_sample" "db_tab db_sample ''users'' = Some tbl_sample"
proof -
  have g: "h_get (dbListTables db_sample) k = (if k = 0 then Some tbl_sample else None)" for k
    by (auto simp: h_get_def db_sample_def nth_Cons')
  have "h_inv (dbListTables db_sample)" by (simp add: db_sample_def h_inv_def h_ok_def H_INCR_def)
  then show i: "db_inv db_sample"
    using g tbl_sample_ok by (auto simp: db_inv_def h_top_def) (simp_all add: db_sample_def)
  have "first_name db_sample ''users'' 0" using g by (auto simp: first_name_def names_at_def tbl_sample_def)
  then have "dbGetTableId db_sample ''users'' = Some 0"
    using dbGetTableId_first[OF i, of "''users''"] first_name_unique by blast
  then show "db_tab db_sample ''users'' = Some tbl_sample" using g by (simp add: db_tab_def)
qed

lemma tbl_sample_cells:
  "tab_cell tbl_sample 0 ''name'' = Some (CStr ''root'')" "col_type tbl_sample ''name'' = Some T_STRING"
  by (simp_all add: tab_cell_def tbl_sample_rows col_type_def col_index_def) (simp_all add: tbl_sample_def)

text \<open>
  Writing a string into a cell of a string column of an existing row returns 0, keeps the
  database well-formed, and a read of that cell returns the string; every other cell of
  the table and every other table is unchanged.
\<close>

theorem dbWriteStr_reads_back:
  assumes "db_inv db" and "db_tab db t = Some tb" and "tab_cell tb r c = Some x" and "col_type tb c = Some T_STRING"
  shows "\<exists>db' tb'. dbWriteStr True db t c r (Some s) = Some (db', 0) \<and> db_inv db' \<and>
     dbReadStr db' t c r = Some (0, Some (CStr s)) \<and> db_tab db' = (db_tab db)(t \<mapsto> tb') \<and>
     (\<forall>r' c'. r' \<noteq> r \<or> c' \<noteq> c \<longrightarrow> tab_cell tb' r' c' = tab_cell tb r' c')"
proof -
  obtain db' tb' where w: "dbWriteStr True db t c r (Some s) = Some (db', 0)" "db_inv db'"
    "db_tab db' = (db_tab db)(t \<mapsto> tb')"
    "tab_cell tb' = (\<lambda>r' c'. if r' = r \<and> c' = c then Some (CStr s) else tab_cell tb r' c')"
    using dbWriteStr_spec[OF assms, where s = "Some s", unfolded option.case] by (auto simp: db_update_def)
  have tb': "db_tab db' t = Some tb'" using w(3) by simp
  have "tab_cell tb' r c = Some (CStr s)" using w(4) by simp
  moreover from this obtain p where p: "h_get (rows tb') r = Some p" "c \<in> set (columnNames tb')"
    by (auto simp: tab_cell_def split: if_splits)
  ultimately have "dbReadStr db' t c r = Some (0, Some (CStr s))"
    using dbReadInt_spec[OF w(2) tb', of c r] row_read(6,7)[OF db_tab_ok[OF w(2) tb'] p] by simp
  then show ?thesis using w by auto
qed

theorem dbWriteStr_reads_back_witness:
  "\<exists>db'. dbWriteStr True db_sample ''users'' ''name'' 0 (Some ''admin'') = Some (db', 0) \<and>
     dbReadStr db' ''users'' ''name'' 0 = Some (0, Some (CStr ''admin''))"
  using dbWriteStr_reads_back[OF db_sample_inv tbl_sample_cells, of "''admin''"] by blast

text \<open>
  C27. A search of a string column of a registered table stays inside the row list, and
  returns the lowest row whose cell holds a matching string (equal, or equal up to the
  case of letters when asked for), -1 when there is none; deleted rows and null cells are
  passed over.
\<close>

theorem dbSearchStr_first_match:
  assumes "db_inv db" and "db_tab db t = Some tb" and "col_type tb c = Some T_STRING"
  shows "\<exists>k. dbSearchStr sc db t c (Some v) flags = Some k \<and>
     (k = -1 \<and> (\<forall>r\<ge>0. \<not> cell_match sc flags v (tab_cell tb r c)) \<or>
      0 \<le> k \<and> cell_match sc flags v (tab_cell tb k c) \<and>
        (\<forall>r. 0 \<le> r \<and> r < k \<longrightarrow> \<not> cell_match sc flags v (tab_cell tb r c)))"
  using dbSearchStr_spec[OF assms, of sc v flags] by (simp add: first_row_def)

theorem dbSearchStr_first_match_witness:
  "dbSearchStr True db_sample ''users'' ''name'' (Some ''root'') 0 = Some 0"
proof -
  have "cell_match True 0 ''root'' (tab_cell tbl_sample 0 ''name'')" using tbl_sample_cells(1) by simp
  then show ?thesis
    using dbSearchStr_first_match[OF db_sample_inv tbl_sample_cells(2), of True "''root''" 0] by force
qed

text \<open>
  Adding a row to a registered table returns a row that was free, with every cell null,
  or -1 when an allocation is refused; all other cells and tables are unchanged and the
  database stays well-formed.
\<close>

theorem dbAddRow_fresh:
  assumes "db_inv db" and "db_tab db t = Some tb"
  shows "\<exists>db' r tb'. dbAddRow m mo db t = Some (db', r) \<and> db_inv db' \<and> db_tab db' = (db_tab db)(t \<mapsto> tb') \<and>
     same_schema tb tb' \<and>
     (r = -1 \<and> (refuses m \<or> refuses mo) \<and> tab_cell tb' = tab_cell tb \<or>
      0 \<le> r \<and> (\<forall>c. tab_cell tb r c = None) \<and>
      tab_cell tb' = (\<lambda>r' c'. if r' = r \<and> c' \<in> set (columnNames tb) then Some (CInt 0) else tab_cell tb r' c'))"
  using dbAddRow_spec[OF assms, of m mo] unfolding db_update_def by blast

theorem dbAddRow_fresh_witness:
  "\<exists>db' r. dbAddRow (\<lambda>_. Some (\<lambda>_. CHR 0x00)) (\<lambda>_. Some (\<lambda>_. CHR 0x00)) db_sample ''users'' = Some (db', r) \<and> 0 \<le> r"
proof -
  have "\<not> refuses (\<lambda>_. Some (\<lambda>_. CHR 0x00))" by (simp add: refuses_def)
  then show ?thesis
    using dbAddRow_fresh[OF db_sample_inv, where m = "\<lambda>_. Some (\<lambda>_. CHR 0x00)" and mo = "\<lambda>_. Some (\<lambda>_. CHR 0x00)"]
    by blast
qed

text \<open>
  Deleting a row returns 0 for a row number below the row count and -1 otherwise, never
  releases a cell that is not a string, and removes exactly the cells of that row.
\<close>

theorem dbDeleteRow_removes_row:
  assumes "db_inv db" and "db_tab db t = Some tb"
  shows "\<exists>db' tb'. dbDeleteRow db t r = Some (db', if 0 \<le> r \<and> r < nRows tb then 0 else -1) \<and> db_inv db' \<and>
     db_tab db' = (db_tab db)(t \<mapsto> tb') \<and> same_schema tb tb' \<and>
     tab_cell tb' = (\<lambda>r' c'. if r' = r then None else tab_cell tb r' c')"
  using dbDeleteRow_spec[OF assms, of r] unfolding db_update_def by blast

theorem dbDeleteRow_removes_row_witness:
  "\<exists>db' tb'. dbDeleteRow db_sample ''users'' 0 = Some (db', 0) \<and> db_tab db' ''users'' = Some tb' \<and>
     tab_cell tb' 0 ''name'' = None"
proof -
  have "0 < nRows tbl_sample" by (simp add: tbl_sample_def)
  then show ?thesis using dbDeleteRow_removes_row[OF db_sample_inv, of 0] by fastforce
qed

text \<open>
  Growing a table to a number of rows terminates and returns 0 when no allocation is
  refused, also when deleted rows below that number are filled first; afterwards the row
  count is the larger of the old one and the requested one and every old row is unchanged.
\<close>

theorem dbSetTableNrow_grows:
  assumes "db_inv db" and "db_tab db t = Some tb" and "\<not> refuses m" and "\<not> refuses mo"
  shows "\<exists>db' tb'. dbSetTableNrow m mo db t n = Some (db', 0) \<and> db_inv db' \<and>
     db_tab db' = (db_tab db)(t \<mapsto> tb') \<and> nRows tb' = max (nRows tb) n \<and>
     (\<forall>r p. h_get (rows tb) r = Some p \<longrightarrow> h_get (rows tb') r = Some p)"
proof -
  obtain tid where d: "dbGetTableId db t = Some tid" "db_table_at db tid = Some (Some tb)"
    using db_tab_Some[OF assms(1,2)] by blast
  show ?thesis
  proof (cases "nRows tb \<ge> n")
    case True
    then have "dbSetTableNrow m mo db t n = Some (db, 0)" using d by (simp add: dbSetTableNrow_def)
    then show ?thesis
      using assms(1,2) True by (intro exI[of _ db] exI[of _ tb]) (auto simp: fun_upd_idem)
  next
    case False
    then have "dbSetTableNrow m mo db t n = dbSetTableNrow_loop m mo db t tid n" using d by (simp add: dbSetTableNrow_def)
    then show ?thesis using dbSetTableNrow_loop_spec[OF assms(3,4,1,2) d(1), of n] by auto
  qed
qed

theorem dbSetTableNrow_grows_witness:
  "\<exists>db' tb'. dbSetTableNrow (\<lambda>_. Some (\<lambda>_. CHR 0x00)) (\<lambda>_. Some (\<lambda>_. CHR 0x00)) db_sample ''users'' 5 = Some (db', 0) \<and>
     db_tab db' ''users'' = Some tb' \<and> nRows tb' = 5"
proof -
  have "\<not> refuses (\<lambda>_. Some (\<lambda>_. CHR 0x00))" "nRows tbl_sample = 3" by (simp_all add: refuses_def tbl_sample_def)
  then show ?thesis using dbSetTableNrow_grows[OF db_sample_inv, where n = 5] by fastforce
qed

text \<open>
  Emptying the database releases every row of every table without touching a released
  row list, and leaves each table with its schema and no rows; closing it then releases all
  tables.
\<close>

theorem dbZero_dbClose_safe:
  assumes "db_inv db"
  shows "(\<exists>db'. dbZero db = Some db' \<and> db_inv db' \<and> (\<forall>t. db_tab db' t = map_option emptied (db_tab db t))) \<and>
     (\<exists>db'. dbClose db = Some db' \<and> db_inv db' \<and> (\<forall>t. db_tab db' t = None))"
  using dbZero_spec[OF assms] dbClose_spec[OF assms] by blast

theorem dbZero_dbClose_safe_witness:
  "\<exists>db'. dbZero db_sample = Some db' \<and> db_tab db' ''users'' = Some (emptied tbl_sample)"
  using dbZero_dbClose_safe[OF db_sample_inv(1)] db_sample_inv(2) by fastforce

end
