(* ===== verification/UserMgmt.thy ===== *)
theory UserMgmt
  imports Emfdb
begin

unbundle bit_operations_syntax

text \<open>
  The user manager of \<^verbatim>\<open>webs/src/src/um.c\<close>: users, groups and access limits, kept as records in
  three tables of the database of theory \<open>Emfdb\<close>. The functions take the database state and
  return the new one with their code; getters return the value, where \<open>Some None\<close> is a null
  pointer. \<open>sc\<close> is the signedness of \<^verbatim>\<open>char\<close>; \<open>m\<close>, \<open>mo\<close> and \<open>dup\<close> are the outcomes of the
  allocations (handle list, row, string copies). A \<^verbatim>\<open>char *\<close> the code returns into a row is
  its string at that moment.
\<close>

section \<open>Schemas\<close>

definition UM_ERR_GENERAL :: int where "UM_ERR_GENERAL = -1"
definition UM_ERR_NOT_FOUND :: int where "UM_ERR_NOT_FOUND = -2"
definition UM_ERR_PROTECTED :: int where "UM_ERR_PROTECTED = -3"
definition UM_ERR_DUPLICATE :: int where "UM_ERR_DUPLICATE = -4"
definition UM_ERR_IN_USE :: int where "UM_ERR_IN_USE = -5"
definition UM_ERR_BAD_NAME :: int where "UM_ERR_BAD_NAME = -6"
definition UM_ERR_BAD_PASSWORD :: int where "UM_ERR_BAD_PASSWORD = -7"

lemmas um_codes = UM_ERR_GENERAL_def UM_ERR_NOT_FOUND_def UM_ERR_PROTECTED_def UM_ERR_DUPLICATE_def
  UM_ERR_IN_USE_def UM_ERR_BAD_NAME_def UM_ERR_BAD_PASSWORD_def

datatype accessMeth = AM_NONE | AM_FULL | AM_BASIC | AM_DIGEST | AM_INVALID

text \<open>The enumeration is stored in an \<^verbatim>\<open>int\<close> cell and compared as a number.\<close>

definition am_int :: "accessMeth \<Rightarrow> int" where
  "am_int am = (case am of AM_NONE \<Rightarrow> 0 | AM_FULL \<Rightarrow> 1 | AM_BASIC \<Rightarrow> 2 | AM_DIGEST \<Rightarrow> 3 | AM_INVALID \<Rightarrow> 4)"

definition UM_USER_TABLENAME :: cstring where "UM_USER_TABLENAME = ''users''"
definition UM_GROUP_TABLENAME :: cstring where "UM_GROUP_TABLENAME = ''groups''"
definition UM_ACCESS_TABLENAME :: cstring where "UM_ACCESS_TABLENAME = ''access''"

definition UM_NAME :: cstring where "UM_NAME = ''name''"
definition UM_PASS :: cstring where "UM_PASS = ''password''"
definition UM_GROUP :: cstring where "UM_GROUP = ''group''"
definition UM_PROT :: cstring where "UM_PROT = ''prot''"
definition UM_DISABLE :: cstring where "UM_DISABLE = ''disable''"
definition UM_METHOD :: cstring where "UM_METHOD = ''method''"
definition UM_PRIVILEGE :: cstring where "UM_PRIVILEGE = ''priv''"
definition UM_SECURE :: cstring where "UM_SECURE = ''secure''"

lemmas um_columns = UM_NAME_def UM_PASS_def UM_GROUP_def UM_PROT_def UM_DISABLE_def UM_METHOD_def
  UM_PRIVILEGE_def UM_SECURE_def
lemmas um_tables = UM_USER_TABLENAME_def UM_GROUP_TABLENAME_def UM_ACCESS_TABLENAME_def

definition userTable :: dbTable where
  "userTable = \<lparr>tname = UM_USER_TABLENAME, nColumns = 5,
     columnNames = [UM_NAME, UM_PASS, UM_GROUP, UM_PROT, UM_DISABLE],
     columnTypes = [T_STRING, T_STRING, T_STRING, T_INT, T_INT], nRows = 0, rows = None\<rparr>"

definition groupTable :: dbTable where
  "groupTable = \<lparr>tname = UM_GROUP_TABLENAME, nColumns = 5,
     columnNames = [UM_NAME, UM_PRIVILEGE, UM_METHOD, UM_PROT, UM_DISABLE],
     columnTypes = [T_STRING, T_INT, T_INT, T_INT, T_INT], nRows = 0, rows = None\<rparr>"

definition accessTable :: dbTable where
  "accessTable = \<lparr>tname = UM_ACCESS_TABLENAME, nColumns = 4,
     columnNames = [UM_NAME, UM_METHOD, UM_SECURE, UM_GROUP],
     columnTypes = [T_STRING, T_INT, T_INT, T_STRING], nRows = 0, rows = None\<rparr>"

section \<open>Opening and closing\<close>

record um_state =
  umdb :: dbstate
  didUM :: int
  saveFilename :: "cstring option"
  umOpenCount :: int

definition UM_TXT_FILENAME :: cstring where "UM_TXT_FILENAME = ''umconfig.txt''"

definition umOpen :: "balloc_env \<Rightarrow> balloc_env \<Rightarrow> bool \<Rightarrow> um_state \<Rightarrow> (um_state \<times> int) option" where
  "umOpen m mo dup st = do {
     let st0 = st\<lparr>umOpenCount := umOpenCount st + 1\<rparr>;
     if umOpenCount st0 \<noteq> 1 then Some (st0, didUM st0)
     else do {
       st1 \<leftarrow> (if didUM st0 = -1 then do {
                  let (db0, did) = dbOpen (umdb st0);
                  (db1, _) \<leftarrow> dbRegisterDBSchema m mo dup db0 userTable;
                  (db2, _) \<leftarrow> dbRegisterDBSchema m mo dup db1 groupTable;
                  (db3, _) \<leftarrow> dbRegisterDBSchema m mo dup db2 accessTable;
                  Some (st0\<lparr>umdb := db3, didUM := did\<rparr>) }
                else Some st0);
       st2 \<leftarrow> (if saveFilename st1 = None then
                  (if dup then Some (st1\<lparr>saveFilename := Some UM_TXT_FILENAME\<rparr>) else None)
                else Some st1);
       Some (st2, didUM st2) } }"

definition umClose :: "um_state \<Rightarrow> um_state option" where
  "umClose st = do {
     let st0 = st\<lparr>umOpenCount := umOpenCount st - 1\<rparr>;
     if umOpenCount st0 > 0 then Some st0
     else do {
       st1 \<leftarrow> (if didUM st0 \<noteq> -1 then do { db1 \<leftarrow> dbClose (umdb st0); Some (st0\<lparr>umdb := db1, didUM := -1\<rparr>) }
              else Some st0);
       Some (st1\<lparr>saveFilename := None\<rparr>) } }"

section \<open>Passwords and names\<close>

definition UM_XOR_ENCRYPT :: cstring where
  "UM_XOR_ENCRYPT = ''*j7a(L#yZ98sSd5HfSgGjMj8;Ss;d)(*&^#@$a2s0i3g''"

definition xor_char :: "char \<Rightarrow> char \<Rightarrow> char" where
  "xor_char a b = to_char (c_uchar a XOR c_uchar b)"

text \<open>The loop of \<^verbatim>\<open>umEncryptString\<close>; the first argument is the mask from \<^verbatim>\<open>enMask\<close> on.\<close>

fun um_encrypt :: "cstring \<Rightarrow> cstring \<Rightarrow> cstring" where
  "um_encrypt enMask [] = []"
| "um_encrypt enMask (c # cs) =
     (let enChar = xor_char c (hd enMask);
          c' = (if enChar \<noteq> CHR 0x00 \<and> \<not> c_isspace enChar then enChar else c);
          rest = tl enMask
      in c' # um_encrypt (if rest = [] then UM_XOR_ENCRYPT else rest) cs)"

definition umEncryptString :: "cstring \<Rightarrow> cstring \<times> int" where
  "umEncryptString textString = (um_encrypt UM_XOR_ENCRYPT textString, int (length textString))"

definition umCheckName :: "cstring \<Rightarrow> bool" where
  "umCheckName nm = (nm \<noteq> [] \<and> list_all (\<lambda>c. \<not> c_isspace c) nm)"

section \<open>Enumerating keys\<close>

text \<open>A cell read through a \<^verbatim>\<open>char *\<close>: null, a string, or a fault.\<close>

definition cell_ptr :: "cell \<Rightarrow> cstring option option" where
  "cell_ptr c = (case c of CStr s \<Rightarrow> Some (Some s) | CInt i \<Rightarrow> if i = 0 then Some None else None)"

partial_function (option) um_first_loop ::
    "dbstate \<Rightarrow> cstring \<Rightarrow> cstring \<Rightarrow> int \<Rightarrow> cell \<Rightarrow> cstring option option" where
  "um_first_loop db tableName columnName row columnData = do {
     (check, v) \<leftarrow> dbReadStr db tableName columnName row;
     let data1 = (case v of Some x \<Rightarrow> x | None \<Rightarrow> columnData);
     if check = 0 \<or> check = DB_ERR_ROW_DELETED then do {
       p \<leftarrow> cell_ptr data1;
       (case p of
          None \<Rightarrow> um_first_loop db tableName columnName (row + 1) data1
        | Some s \<Rightarrow> if s \<noteq> [] then Some (Some s)
                     else um_first_loop db tableName columnName (row + 1) data1) }
     else Some None }"

definition umGetFirstRowData :: "dbstate \<Rightarrow> cstring \<Rightarrow> cstring \<Rightarrow> cstring option option" where
  "umGetFirstRowData db tableName columnName = um_first_loop db tableName columnName 0 (CInt 0)"

text \<open>The two loops of \<^verbatim>\<open>umGetNextRowData\<close>: find the given key, then the next other one.\<close>

partial_function (option) um_seek_loop ::
    "dbstate \<Rightarrow> cstring \<Rightarrow> cstring \<Rightarrow> cstring \<Rightarrow> int \<Rightarrow> cell \<Rightarrow> (int \<times> cell) option" where
  "um_seek_loop db tableName columnName keyLast row key = do {
     (check, v) \<leftarrow> dbReadStr db tableName columnName row;
     let key1 = (case v of Some x \<Rightarrow> x | None \<Rightarrow> key);
     if check = 0 \<or> check = DB_ERR_ROW_DELETED then do {
       p \<leftarrow> cell_ptr key1;
       if p \<noteq> Some keyLast then um_seek_loop db tableName columnName keyLast (row + 1) key1
       else Some (row + 1, key1) }
     else Some (row + 1, key1) }"

partial_function (option) um_next_loop ::
    "dbstate \<Rightarrow> cstring \<Rightarrow> cstring \<Rightarrow> cstring \<Rightarrow> int \<Rightarrow> cell \<Rightarrow> cstring option option" where
  "um_next_loop db tableName columnName keyLast row key = do {
     (check, v) \<leftarrow> dbReadStr db tableName columnName row;
     let key1 = (case v of Some x \<Rightarrow> x | None \<Rightarrow> key);
     if check = 0 \<or> check = DB_ERR_ROW_DELETED then do {
       p \<leftarrow> cell_ptr key1;
       (case p of
          None \<Rightarrow> um_next_loop db tableName columnName keyLast (row + 1) key1
        | Some s \<Rightarrow> if s \<noteq> [] \<and> s \<noteq> keyLast then Some (Some s)
                     else um_next_loop db tableName columnName keyLast (row + 1) key1) }
     else Some None }"

definition umGetNextRowData :: "dbstate \<Rightarrow> cstring \<Rightarrow> cstring \<Rightarrow> cstring \<Rightarrow> cstring option option" where
  "umGetNextRowData db tableName columnName keyLast = do {
     (row, key) \<leftarrow> um_seek_loop db tableName columnName keyLast 0 (CInt 0);
     p \<leftarrow> cell_ptr key;
     if p \<noteq> Some keyLast then Some None
     else um_next_loop db tableName columnName keyLast row key }"

section \<open>Records\<close>

definition c_not :: "int \<Rightarrow> int" where
  "c_not i = (if i = 0 then 1 else 0)"

abbreviation um_row :: "bool \<Rightarrow> dbstate \<Rightarrow> cstring \<Rightarrow> cstring option \<Rightarrow> int option" where
  "um_row sc db t v \<equiv> dbSearchStr sc db t UM_NAME v 0"

text \<open>
  \<^verbatim>\<open>dbReadInt(..., &x)\<close> into a variable that holds \<open>x0\<close> (\<open>None\<close> when it is not initialised), and
  \<^verbatim>\<open>dbReadStr\<close> into a pointer that is null. A string pointer read as a number is a fault.
\<close>

definition um_read_int :: "dbstate \<Rightarrow> cstring \<Rightarrow> cstring \<Rightarrow> int \<Rightarrow> int option \<Rightarrow> int option" where
  "um_read_int db t c row x0 = do {
     (_, v) \<leftarrow> dbReadInt db t c row;
     (case v of None \<Rightarrow> x0 | Some (CInt i) \<Rightarrow> Some i | Some (CStr _) \<Rightarrow> None) }"

definition um_read_str :: "dbstate \<Rightarrow> cstring \<Rightarrow> cstring \<Rightarrow> int \<Rightarrow> cstring option option" where
  "um_read_str db t c row = do {
     (_, v) \<leftarrow> dbReadStr db t c row;
     (case v of None \<Rightarrow> Some None | Some x \<Rightarrow> cell_ptr x) }"

definition umUserExists :: "bool \<Rightarrow> dbstate \<Rightarrow> cstring \<Rightarrow> bool option" where
  "umUserExists sc db user = do { row \<leftarrow> um_row sc db UM_USER_TABLENAME (Some user); Some (row \<ge> 0) }"

definition umGroupExists :: "bool \<Rightarrow> dbstate \<Rightarrow> cstring \<Rightarrow> bool option" where
  "umGroupExists sc db grp = do { row \<leftarrow> um_row sc db UM_GROUP_TABLENAME (Some grp); Some (row \<ge> 0) }"

definition umAccessLimitExists :: "bool \<Rightarrow> dbstate \<Rightarrow> cstring \<Rightarrow> bool option" where
  "umAccessLimitExists sc db url = do {
     row \<leftarrow> um_row sc db UM_ACCESS_TABLENAME (Some url);
     Some (if row < 0 then False else True) }"

subsection \<open>Users\<close>

definition umAddUser ::
    "bool \<Rightarrow> balloc_env \<Rightarrow> balloc_env \<Rightarrow> bool \<Rightarrow> dbstate \<Rightarrow> cstring \<Rightarrow> cstring \<Rightarrow> cstring \<Rightarrow> int \<Rightarrow> int \<Rightarrow>
       (dbstate \<times> int) option" where
  "umAddUser sc m mo dup db user pass grp prot disabled = do {
     ue \<leftarrow> umUserExists sc db user;
     if ue then Some (db, UM_ERR_DUPLICATE)
     else if \<not> umCheckName user then Some (db, UM_ERR_BAD_NAME)
     else if \<not> umCheckName pass then Some (db, UM_ERR_BAD_PASSWORD)
     else do {
       ge \<leftarrow> umGroupExists sc db grp;
       if \<not> ge then Some (db, UM_ERR_NOT_FOUND)
       else do {
         (db1, row) \<leftarrow> dbAddRow m mo db UM_USER_TABLENAME;
         if row < 0 then Some (db1, UM_ERR_GENERAL)
         else do {
           (db2, rc) \<leftarrow> dbWriteStr dup db1 UM_USER_TABLENAME UM_NAME row (Some user);
           if rc \<noteq> 0 then Some (db2, UM_ERR_GENERAL)
           else do {
             password \<leftarrow> (if dup then Some pass else None);
             (db3, _) \<leftarrow> dbWriteStr dup db2 UM_USER_TABLENAME UM_PASS row (Some (fst (umEncryptString password)));
             (db4, _) \<leftarrow> dbWriteStr dup db3 UM_USER_TABLENAME UM_GROUP row (Some grp);
             (db5, _) \<leftarrow> dbWriteInt db4 UM_USER_TABLENAME UM_PROT row prot;
             (db6, _) \<leftarrow> dbWriteInt db5 UM_USER_TABLENAME UM_DISABLE row disabled;
             Some (db6, 0) } } } } }"

definition umGetUserProtected :: "bool \<Rightarrow> dbstate \<Rightarrow> cstring \<Rightarrow> int option" where
  "umGetUserProtected sc db user = do {
     row \<leftarrow> um_row sc db UM_USER_TABLENAME (Some user);
     protect \<leftarrow> (if row \<ge> 0 then um_read_int db UM_USER_TABLENAME UM_PROT row (Some 0) else Some 0);
     Some (c_short protect) }"

definition umDeleteUser :: "bool \<Rightarrow> dbstate \<Rightarrow> cstring \<Rightarrow> (dbstate \<times> int) option" where
  "umDeleteUser sc db user = do {
     prot \<leftarrow> umGetUserProtected sc db user;
     if prot \<noteq> 0 then Some (db, UM_ERR_PROTECTED)
     else do {
       row \<leftarrow> um_row sc db UM_USER_TABLENAME (Some user);
       if row \<ge> 0 then dbDeleteRow db UM_USER_TABLENAME row else Some (db, UM_ERR_NOT_FOUND) } }"

definition umGetFirstUser :: "dbstate \<Rightarrow> cstring option option" where
  "umGetFirstUser db = umGetFirstRowData db UM_USER_TABLENAME UM_NAME"

definition umGetNextUser :: "dbstate \<Rightarrow> cstring \<Rightarrow> cstring option option" where
  "umGetNextUser db userLast = umGetNextRowData db UM_USER_TABLENAME UM_NAME userLast"

definition umGetUserPassword :: "bool \<Rightarrow> bool \<Rightarrow> dbstate \<Rightarrow> cstring \<Rightarrow> cstring option option" where
  "umGetUserPassword sc dup db user = do {
     row \<leftarrow> um_row sc db UM_USER_TABLENAME (Some user);
     if row \<ge> 0 then do {
       pass \<leftarrow> um_read_str db UM_USER_TABLENAME UM_PASS row;
       password \<leftarrow> (if dup then Some (case pass of Some p \<Rightarrow> p | None \<Rightarrow> []) else None);
       Some (Some (fst (umEncryptString password))) }
     else Some None }"

definition umSetUserPassword :: "bool \<Rightarrow> bool \<Rightarrow> dbstate \<Rightarrow> cstring \<Rightarrow> cstring \<Rightarrow> (dbstate \<times> int) option" where
  "umSetUserPassword sc dup db user pass = do {
     row \<leftarrow> um_row sc db UM_USER_TABLENAME (Some user);
     if row < 0 then Some (db, UM_ERR_NOT_FOUND)
     else do {
       password \<leftarrow> (if dup then Some pass else None);
       dbWriteStr dup db UM_USER_TABLENAME UM_PASS row (Some (fst (umEncryptString password))) } }"

definition umGetUserGroup :: "bool \<Rightarrow> dbstate \<Rightarrow> cstring \<Rightarrow> cstring option option" where
  "umGetUserGroup sc db user = do {
     row \<leftarrow> um_row sc db UM_USER_TABLENAME (Some user);
     if row \<ge> 0 then um_read_str db UM_USER_TABLENAME UM_GROUP row else Some None }"

definition umSetUserGroup :: "bool \<Rightarrow> bool \<Rightarrow> dbstate \<Rightarrow> cstring \<Rightarrow> cstring option \<Rightarrow> (dbstate \<times> int) option" where
  "umSetUserGroup sc dup db user grp = do {
     row \<leftarrow> um_row sc db UM_USER_TABLENAME (Some user);
     if row \<ge> 0 then dbWriteStr dup db UM_USER_TABLENAME UM_GROUP row grp else Some (db, UM_ERR_NOT_FOUND) }"

definition umGetUserEnabled :: "bool \<Rightarrow> dbstate \<Rightarrow> cstring \<Rightarrow> int option" where
  "umGetUserEnabled sc db user = do {
     row \<leftarrow> um_row sc db UM_USER_TABLENAME (Some user);
     disabled \<leftarrow> (if row \<ge> 0 then um_read_int db UM_USER_TABLENAME UM_DISABLE row (Some 1) else Some 1);
     Some (c_not disabled) }"

definition umSetUserEnabled :: "bool \<Rightarrow> dbstate \<Rightarrow> cstring \<Rightarrow> int \<Rightarrow> (dbstate \<times> int) option" where
  "umSetUserEnabled sc db user enabled = do {
     row \<leftarrow> um_row sc db UM_USER_TABLENAME (Some user);
     if row \<ge> 0 then dbWriteInt db UM_USER_TABLENAME UM_DISABLE row (c_not enabled)
     else Some (db, UM_ERR_NOT_FOUND) }"

definition umSetUserProtected :: "bool \<Rightarrow> dbstate \<Rightarrow> cstring \<Rightarrow> int \<Rightarrow> (dbstate \<times> int) option" where
  "umSetUserProtected sc db user protect = do {
     row \<leftarrow> um_row sc db UM_USER_TABLENAME (Some user);
     if row \<ge> 0 then dbWriteInt db UM_USER_TABLENAME UM_PROT row protect
     else Some (db, UM_ERR_NOT_FOUND) }"

subsection \<open>Groups\<close>

definition umAddGroup ::
    "bool \<Rightarrow> balloc_env \<Rightarrow> balloc_env \<Rightarrow> bool \<Rightarrow> dbstate \<Rightarrow> cstring \<Rightarrow> int \<Rightarrow> accessMeth \<Rightarrow> int \<Rightarrow> int \<Rightarrow>
       (dbstate \<times> int) option" where
  "umAddGroup sc m mo dup db grp priv am prot disabled = do {
     ge \<leftarrow> umGroupExists sc db grp;
     if ge then Some (db, UM_ERR_DUPLICATE)
     else if \<not> umCheckName grp then Some (db, UM_ERR_BAD_NAME)
     else do {
       (db1, row) \<leftarrow> dbAddRow m mo db UM_GROUP_TABLENAME;
       if row < 0 then Some (db1, UM_ERR_GENERAL)
       else do {
         (db2, rc) \<leftarrow> dbWriteStr dup db1 UM_GROUP_TABLENAME UM_NAME row (Some grp);
         if rc \<noteq> 0 then Some (db2, UM_ERR_GENERAL)
         else do {
           (db3, _) \<leftarrow> dbWriteInt db2 UM_GROUP_TABLENAME UM_PRIVILEGE row priv;
           (db4, _) \<leftarrow> dbWriteInt db3 UM_GROUP_TABLENAME UM_METHOD row (am_int am);
           (db5, _) \<leftarrow> dbWriteInt db4 UM_GROUP_TABLENAME UM_PROT row prot;
           (db6, _) \<leftarrow> dbWriteInt db5 UM_GROUP_TABLENAME UM_DISABLE row disabled;
           Some (db6, 0) } } } }"

definition umGetGroupInUse :: "bool \<Rightarrow> dbstate \<Rightarrow> cstring \<Rightarrow> bool option" where
  "umGetGroupInUse sc db grp = do {
     r1 \<leftarrow> dbSearchStr sc db UM_USER_TABLENAME UM_GROUP (Some grp) 0;
     if r1 \<ge> 0 then Some True
     else do {
       r2 \<leftarrow> dbSearchStr sc db UM_ACCESS_TABLENAME UM_GROUP (Some grp) 0;
       Some (r2 \<ge> 0) } }"

definition umGetGroupProtected :: "bool \<Rightarrow> dbstate \<Rightarrow> cstring \<Rightarrow> int option" where
  "umGetGroupProtected sc db grp = do {
     row \<leftarrow> um_row sc db UM_GROUP_TABLENAME (Some grp);
     protect \<leftarrow> (if row \<ge> 0 then um_read_int db UM_GROUP_TABLENAME UM_PROT row (Some 0) else Some 0);
     Some (c_short protect) }"

definition umDeleteGroup :: "bool \<Rightarrow> dbstate \<Rightarrow> cstring \<Rightarrow> (dbstate \<times> int) option" where
  "umDeleteGroup sc db grp = do {
     iu \<leftarrow> umGetGroupInUse sc db grp;
     if iu then Some (db, UM_ERR_IN_USE)
     else do {
       prot \<leftarrow> umGetGroupProtected sc db grp;
       if prot \<noteq> 0 then Some (db, UM_ERR_PROTECTED)
       else do {
         row \<leftarrow> um_row sc db UM_GROUP_TABLENAME (Some grp);
         if row < 0 then Some (db, UM_ERR_NOT_FOUND) else dbDeleteRow db UM_GROUP_TABLENAME row } } }"

definition umGetFirstGroup :: "dbstate \<Rightarrow> cstring option option" where
  "umGetFirstGroup db = umGetFirstRowData db UM_GROUP_TABLENAME UM_NAME"

definition umGetNextGroup :: "dbstate \<Rightarrow> cstring \<Rightarrow> cstring option option" where
  "umGetNextGroup db groupLast = umGetNextRowData db UM_GROUP_TABLENAME UM_NAME groupLast"

text \<open>The group getters are called with the null group of a user that has none.\<close>

definition umGetGroupAccessMethod :: "bool \<Rightarrow> dbstate \<Rightarrow> cstring option \<Rightarrow> int option" where
  "umGetGroupAccessMethod sc db grp = do {
     row \<leftarrow> um_row sc db UM_GROUP_TABLENAME grp;
     if row \<ge> 0 then um_read_int db UM_GROUP_TABLENAME UM_METHOD row None else Some (am_int AM_INVALID) }"

definition umSetGroupAccessMethod :: "bool \<Rightarrow> dbstate \<Rightarrow> cstring \<Rightarrow> accessMeth \<Rightarrow> (dbstate \<times> int) option" where
  "umSetGroupAccessMethod sc db grp am = do {
     row \<leftarrow> um_row sc db UM_GROUP_TABLENAME (Some grp);
     if row \<ge> 0 then dbWriteInt db UM_GROUP_TABLENAME UM_METHOD row (am_int am)
     else Some (db, UM_ERR_NOT_FOUND) }"

definition umGetGroupPrivilege :: "bool \<Rightarrow> dbstate \<Rightarrow> cstring option \<Rightarrow> int option" where
  "umGetGroupPrivilege sc db grp = do {
     row \<leftarrow> um_row sc db UM_GROUP_TABLENAME grp;
     privilege \<leftarrow> (if row \<ge> 0 then um_read_int db UM_GROUP_TABLENAME UM_PRIVILEGE row (Some (-1)) else Some (-1));
     Some (c_short privilege) }"

definition umSetGroupPrivilege :: "bool \<Rightarrow> dbstate \<Rightarrow> cstring \<Rightarrow> int \<Rightarrow> (dbstate \<times> int) option" where
  "umSetGroupPrivilege sc db grp privilege = do {
     row \<leftarrow> um_row sc db UM_GROUP_TABLENAME (Some grp);
     if row \<ge> 0 then dbWriteInt db UM_GROUP_TABLENAME UM_PRIVILEGE row privilege
     else Some (db, UM_ERR_NOT_FOUND) }"

definition umGetGroupEnabled :: "bool \<Rightarrow> dbstate \<Rightarrow> cstring option \<Rightarrow> int option" where
  "umGetGroupEnabled sc db grp = do {
     row \<leftarrow> um_row sc db UM_GROUP_TABLENAME grp;
     disabled \<leftarrow> (if row \<ge> 0 then um_read_int db UM_GROUP_TABLENAME UM_DISABLE row (Some 1) else Some 1);
     Some (c_not disabled) }"

definition umSetGroupEnabled :: "bool \<Rightarrow> dbstate \<Rightarrow> cstring \<Rightarrow> int \<Rightarrow> (dbstate \<times> int) option" where
  "umSetGroupEnabled sc db grp enabled = do {
     row \<leftarrow> um_row sc db UM_GROUP_TABLENAME (Some grp);
     if row \<ge> 0 then dbWriteInt db UM_GROUP_TABLENAME UM_DISABLE row (c_not enabled)
     else Some (db, UM_ERR_NOT_FOUND) }"

definition umSetGroupProtected :: "bool \<Rightarrow> dbstate \<Rightarrow> cstring \<Rightarrow> int \<Rightarrow> (dbstate \<times> int) option" where
  "umSetGroupProtected sc db grp protect = do {
     row \<leftarrow> um_row sc db UM_GROUP_TABLENAME (Some grp);
     if row \<ge> 0 then dbWriteInt db UM_GROUP_TABLENAME UM_PROT row protect
     else Some (db, UM_ERR_NOT_FOUND) }"

subsection \<open>Access limits\<close>

definition umAddAccessLimit ::
    "bool \<Rightarrow> balloc_env \<Rightarrow> balloc_env \<Rightarrow> bool \<Rightarrow> dbstate \<Rightarrow> cstring \<Rightarrow> accessMeth \<Rightarrow> int \<Rightarrow> cstring option \<Rightarrow>
       (dbstate \<times> int) option" where
  "umAddAccessLimit sc m mo dup db url am secure grp = do {
     ex \<leftarrow> umAccessLimitExists sc db url;
     if ex then Some (db, UM_ERR_DUPLICATE)
     else do {
       (db1, row) \<leftarrow> dbAddRow m mo db UM_ACCESS_TABLENAME;
       if row < 0 then Some (db1, UM_ERR_GENERAL)
       else do {
         (db2, rc) \<leftarrow> dbWriteStr dup db1 UM_ACCESS_TABLENAME UM_NAME row (Some url);
         if rc < 0 then Some (db2, UM_ERR_GENERAL)
         else do {
           (db3, _) \<leftarrow> dbWriteInt db2 UM_ACCESS_TABLENAME UM_METHOD row (am_int am);
           (db4, _) \<leftarrow> dbWriteInt db3 UM_ACCESS_TABLENAME UM_SECURE row secure;
           (db5, _) \<leftarrow> dbWriteStr dup db4 UM_ACCESS_TABLENAME UM_GROUP row grp;
           Some (db5, 0) } } } }"

definition umDeleteAccessLimit :: "bool \<Rightarrow> dbstate \<Rightarrow> cstring \<Rightarrow> (dbstate \<times> int) option" where
  "umDeleteAccessLimit sc db url = do {
     row \<leftarrow> um_row sc db UM_ACCESS_TABLENAME (Some url);
     if row < 0 then Some (db, UM_ERR_NOT_FOUND) else dbDeleteRow db UM_ACCESS_TABLENAME row }"

definition umGetFirstAccessLimit :: "dbstate \<Rightarrow> cstring option option" where
  "umGetFirstAccessLimit db = umGetFirstRowData db UM_ACCESS_TABLENAME UM_NAME"

definition umGetNextAccessLimit :: "dbstate \<Rightarrow> cstring \<Rightarrow> cstring option option" where
  "umGetNextAccessLimit db urlLast = umGetNextRowData db UM_ACCESS_TABLENAME UM_NAME urlLast"

definition umGetAccessLimitMethod :: "bool \<Rightarrow> dbstate \<Rightarrow> cstring \<Rightarrow> int option" where
  "umGetAccessLimitMethod sc db url = do {
     row \<leftarrow> um_row sc db UM_ACCESS_TABLENAME (Some url);
     if row \<ge> 0 then um_read_int db UM_ACCESS_TABLENAME UM_METHOD row (Some (am_int AM_INVALID))
     else Some (am_int AM_INVALID) }"

definition umSetAccessLimitMethod :: "bool \<Rightarrow> dbstate \<Rightarrow> cstring \<Rightarrow> accessMeth \<Rightarrow> (dbstate \<times> int) option" where
  "umSetAccessLimitMethod sc db url am = do {
     row \<leftarrow> um_row sc db UM_ACCESS_TABLENAME (Some url);
     if row \<ge> 0 then dbWriteInt db UM_ACCESS_TABLENAME UM_METHOD row (am_int am)
     else Some (db, UM_ERR_NOT_FOUND) }"

definition umGetAccessLimitSecure :: "bool \<Rightarrow> dbstate \<Rightarrow> cstring \<Rightarrow> int option" where
  "umGetAccessLimitSecure sc db url = do {
     row \<leftarrow> um_row sc db UM_ACCESS_TABLENAME (Some url);
     secure \<leftarrow> (if row \<ge> 0 then um_read_int db UM_ACCESS_TABLENAME UM_SECURE row (Some (-1)) else Some (-1));
     Some (c_short secure) }"

definition umSetAccessLimitSecure :: "bool \<Rightarrow> dbstate \<Rightarrow> cstring \<Rightarrow> int \<Rightarrow> (dbstate \<times> int) option" where
  "umSetAccessLimitSecure sc db url secure = do {
     row \<leftarrow> um_row sc db UM_ACCESS_TABLENAME (Some url);
     if row \<ge> 0 then dbWriteInt db UM_ACCESS_TABLENAME UM_SECURE row secure
     else Some (db, UM_ERR_NOT_FOUND) }"

definition umGetAccessLimitGroup :: "bool \<Rightarrow> dbstate \<Rightarrow> cstring \<Rightarrow> cstring option option" where
  "umGetAccessLimitGroup sc db url = do {
     row \<leftarrow> um_row sc db UM_ACCESS_TABLENAME (Some url);
     if row \<ge> 0 then um_read_str db UM_ACCESS_TABLENAME UM_GROUP row else Some None }"

definition umSetAccessLimitGroup :: "bool \<Rightarrow> bool \<Rightarrow> dbstate \<Rightarrow> cstring \<Rightarrow> cstring option \<Rightarrow> (dbstate \<times> int) option" where
  "umSetAccessLimitGroup sc dup db url grp = do {
     row \<leftarrow> um_row sc db UM_ACCESS_TABLENAME (Some url);
     if row \<ge> 0 then dbWriteStr dup db UM_ACCESS_TABLENAME UM_GROUP row grp else Some (db, UM_ERR_NOT_FOUND) }"

section \<open>Access decisions\<close>

definition is_slash :: "char \<Rightarrow> bool" where
  "is_slash c \<longleftrightarrow> c = CHR ''/'' \<or> c = CHR 0x5C"

text \<open>
  The two inner loops of \<^verbatim>\<open>umGetAccessLimit\<close> write NUL over the trailing slashes and then over
  the trailing other characters.
\<close>

definition um_trim_url :: "cstring \<Rightarrow> cstring" where
  "um_trim_url url = rev (dropWhile (\<lambda>c. \<not> is_slash c) (dropWhile is_slash (rev url)))"

lemma um_trim_url_length: "url \<noteq> [] \<Longrightarrow> length (um_trim_url url) < length url"
proof -
  assume "url \<noteq> []"
  then obtain c cs where r: "rev url = c # cs" by (metis list.exhaust rev_is_Nil_conv)
  have "length (dropWhile (\<lambda>c. \<not> is_slash c) (dropWhile is_slash (rev url))) \<le> length cs"
    unfolding r by (cases "is_slash c") (auto intro: le_trans[OF length_dropWhile_le])
  then show ?thesis using arg_cong[OF r, of length] by (simp add: um_trim_url_def)
qed

function umGetAccessLimit :: "bool \<Rightarrow> bool \<Rightarrow> dbstate \<Rightarrow> cstring \<Rightarrow> cstring option option" where
  "umGetAccessLimit sc dup db urlCheck =
     (if urlCheck = [] then Some None
      else do {
        ex \<leftarrow> umAccessLimitExists sc db urlCheck;
        if ex then (if dup then Some (Some urlCheck) else None)
        else umGetAccessLimit sc dup db (um_trim_url urlCheck) })"
  by pat_completeness auto
termination
  by (relation "measure (\<lambda>(sc, dup, db, url). length url)") (auto simp: um_trim_url_length)

declare umGetAccessLimit.simps [simp del]

definition umGetAccessMethodForURL :: "bool \<Rightarrow> bool \<Rightarrow> dbstate \<Rightarrow> cstring \<Rightarrow> int option" where
  "umGetAccessMethodForURL sc dup db url = do {
     urlHavingLimit \<leftarrow> umGetAccessLimit sc dup db url;
     (case urlHavingLimit of
        Some u \<Rightarrow> do {
          grp \<leftarrow> umGetAccessLimitGroup sc db u;
          if grp \<noteq> None \<and> grp \<noteq> Some [] then umGetGroupAccessMethod sc db grp
          else umGetAccessLimitMethod sc db u }
      | None \<Rightarrow> Some (am_int AM_FULL)) }"

definition umUserCanAccessURL :: "bool \<Rightarrow> bool \<Rightarrow> dbstate \<Rightarrow> cstring \<Rightarrow> cstring \<Rightarrow> bool option" where
  "umUserCanAccessURL sc dup db user url = do {
     ue \<leftarrow> umUserExists sc db user;
     if \<not> ue then Some False
     else do {
       en \<leftarrow> umGetUserEnabled sc db user;
       if en = 0 then Some False
       else do {
         usergroup \<leftarrow> umGetUserGroup sc db user;
         priv \<leftarrow> umGetGroupPrivilege sc db usergroup;
         if priv = 0 then Some False
         else do {
           ge \<leftarrow> umGetGroupEnabled sc db usergroup;
           if ge = 0 then Some False
           else do {
             gam \<leftarrow> umGetGroupAccessMethod sc db usergroup;
             if gam = am_int AM_NONE then Some False
             else do {
               urlHavingLimit \<leftarrow> umGetAccessLimit sc dup db url;
               (case urlHavingLimit of
                  None \<Rightarrow> Some True
                | Some u \<Rightarrow> do {
                    amURL \<leftarrow> umGetAccessLimitMethod sc db u;
                    grp \<leftarrow> umGetAccessLimitGroup sc db u;
                    if amURL = am_int AM_NONE then Some False
                    else if grp \<noteq> None \<and> grp \<noteq> Some [] \<and> usergroup \<noteq> None \<and> grp \<noteq> usergroup then Some False
                    else Some True }) } } } } } }"

section \<open>The password mask\<close>

lemma c_uchar_xor: "c_uchar (xor_char a b) = c_uchar a XOR c_uchar b"
proof -
  have t: "take_bit 8 (c_uchar c) = c_uchar c" for c by (simp add: take_bit_int_eq_self_iff)
  have "take_bit 8 (c_uchar a XOR c_uchar b) = c_uchar a XOR c_uchar b" by (simp only: take_bit_xor t)
  then show ?thesis by (simp add: xor_char_def take_bit_eq_mod)
qed

lemma xor_char_xor [simp]: "xor_char (xor_char a b) b = a"
proof -
  have "c_uchar (xor_char (xor_char a b) b) = c_uchar a" by (simp add: c_uchar_xor xor.assoc)
  then show ?thesis by simp
qed

lemma um_encrypt_twice:
  "\<forall>c\<in>set s. c \<noteq> CHR 0x00 \<and> \<not> c_isspace c \<Longrightarrow> um_encrypt mk (um_encrypt mk s) = s"
  by (induction s arbitrary: mk) (auto simp: Let_def)

lemma um_encrypt_length [simp]: "length (um_encrypt mk s) = length s"
  by (induction mk s rule: um_encrypt.induct) (auto simp: Let_def)

section \<open>Records of the three tables\<close>

definition has_schema :: "dbTable \<Rightarrow> dbstate \<Rightarrow> bool" where
  "has_schema reg db \<longleftrightarrow> (\<exists>tb. db_tab db (tname reg) = Some tb \<and> same_schema reg tb)"

definition um_regs :: "dbTable list" where
  "um_regs = [userTable, groupTable, accessTable]"

definition um_inv :: "dbstate \<Rightarrow> bool" where
  "um_inv db \<longleftrightarrow> db_inv db \<and> (\<forall>reg\<in>set um_regs. has_schema reg db)"

text \<open>No two rows of a table have the same key.\<close>

definition um_unique :: "cstring \<Rightarrow> dbstate \<Rightarrow> bool" where
  "um_unique t db \<longleftrightarrow>
     (\<forall>v r r'. db_cell t db r UM_NAME = Some (CStr v) \<and> db_cell t db r' UM_NAME = Some (CStr v) \<longrightarrow> r = r')"

definition um_ok :: "dbstate \<Rightarrow> bool" where
  "um_ok db \<longleftrightarrow> um_inv db \<and> (\<forall>reg\<in>set um_regs. um_unique (tname reg) db)"

text \<open>The field \<open>c\<close> of the record with key \<open>v\<close> in table \<open>t\<close>.\<close>

definition um_field :: "bool \<Rightarrow> cstring \<Rightarrow> dbstate \<Rightarrow> cstring \<Rightarrow> cstring \<Rightarrow> cell option" where
  "um_field sc t db v c =
     (case um_row sc db t (Some v) of Some k \<Rightarrow> if k < 0 then None else db_cell t db k c | None \<Rightarrow> None)"

lemma um_field_kt: "um_field sc t = kt.field t sc UM_NAME"
  by (simp add: um_field_def kt.field_def fun_eq_iff)

lemma um_reg_names:
  "tname userTable = UM_USER_TABLENAME" "tname groupTable = UM_GROUP_TABLENAME" "tname accessTable = UM_ACCESS_TABLENAME"
  by (simp_all add: userTable_def groupTable_def accessTable_def)

lemma um_reg_schema:
  assumes "reg \<in> set um_regs"
  shows "schema_ok reg" and "UM_NAME \<in> set (columnNames reg)" and "col_type reg UM_NAME = Some T_STRING"
  using assms
  by (auto simp: um_regs_def userTable_def groupTable_def accessTable_def schema_ok_def col_type_def col_index_def)

lemma um_table_of:
  assumes "um_inv db" "reg \<in> set um_regs"
  shows "table_of (tname reg) UM_NAME db"
  using assms um_reg_schema(3)[OF assms(2)] same_schema_cols
  by (fastforce simp: um_inv_def has_schema_def table_of_def)

text \<open>An operation on one table: it keeps the schemas, and the other tables.\<close>

definition um_frame :: "cstring \<Rightarrow> dbstate \<Rightarrow> dbstate \<Rightarrow> bool" where
  "um_frame t db db' \<longleftrightarrow> um_inv db' \<and> (\<forall>u. u \<noteq> t \<longrightarrow> db_tab db' u = db_tab db u)"

lemma um_frame_refl: "um_inv db \<Longrightarrow> um_frame t db db"
  by (simp add: um_frame_def)

lemma um_frame_trans: "um_frame t db db1 \<Longrightarrow> um_frame t db1 db2 \<Longrightarrow> um_frame t db db2"
  by (simp add: um_frame_def)

lemma same_schema_trans: "same_schema a b \<Longrightarrow> same_schema b c \<Longrightarrow> same_schema a c"
  by (simp add: same_schema_def)

lemma db_update_frame:
  assumes "um_inv db" "db_tab db t = Some tb" "db_update db t tb cells db'"
  shows "um_frame t db db'" and "db_cell t db' = cells"
    and "\<And>u. u \<noteq> t \<Longrightarrow> db_cell u db' = db_cell u db"
proof -
  obtain tb' where u: "db_inv db'" "db_tab db' = (db_tab db)(t \<mapsto> tb')" "same_schema tb tb'" "tab_cell tb' = cells"
    using assms(3) by (auto simp: db_update_def)
  have "has_schema reg db'" if "has_schema reg db" for reg
    using that u(2,3) assms(2) same_schema_trans by (auto simp: has_schema_def)
  then show "um_frame t db db'" using assms(1) u(1,2) by (auto simp: um_frame_def um_inv_def)
  show "db_cell t db' = cells" using u(2,4) by (simp add: db_cell_def fun_eq_iff)
  show "\<And>u. u \<noteq> t \<Longrightarrow> db_cell u db' = db_cell u db" using u(2) by (simp add: db_cell_def fun_eq_iff)
qed

lemma um_frame_other:
  assumes "um_frame t db db'" "u \<noteq> t" "um_inv db" "reg \<in> set um_regs" "tname reg = u"
  shows "um_row sc db' u (Some v) = um_row sc db u (Some v)" and "um_field sc u db' v c = um_field sc u db v c"
    and "db_cell u db' = db_cell u db"
proof -
  have e: "db_tab db' u = db_tab db u" and i: "um_inv db'" using assms(1,2) by (auto simp: um_frame_def)
  then show cell: "db_cell u db' = db_cell u db" by (simp add: db_cell_def fun_eq_iff)
  show row: "um_row sc db' u (Some v) = um_row sc db u (Some v)"
    using kt.search_cong[OF um_table_of[OF assms(3,4)] um_table_of[OF i assms(4)]] assms(5) cell by simp
  show "um_field sc u db' v c = um_field sc u db v c" using row cell by (simp add: um_field_def split: option.split)
qed

text \<open>The columns of an existing record, and how they are typed.\<close>

definition um_typed :: "dbTable \<Rightarrow> cstring \<Rightarrow> cell \<Rightarrow> bool" where
  "um_typed reg c x \<longleftrightarrow> col_type reg c = Some (case x of CStr _ \<Rightarrow> T_STRING | CInt _ \<Rightarrow> T_INT)"

lemma um_typed_db:
  "um_inv db \<Longrightarrow> reg \<in> set um_regs \<Longrightarrow> um_typed reg c x \<Longrightarrow> db_typed (tname reg) db c x"
  using same_schema_cols by (fastforce simp: um_inv_def has_schema_def db_typed_def um_typed_def)

lemma um_row_cases:
  assumes "um_inv db" "reg \<in> set um_regs"
  obtains k where "um_row sc db (tname reg) (Some v) = Some k"
    "first_row (\<lambda>r. db_cell (tname reg) db r UM_NAME = Some (CStr v)) k"
  using kt.search_law[OF um_table_of[OF assms], of sc v] by blast

lemma db_cell_pos: "db_cell t db q c = Some x \<Longrightarrow> 0 \<le> q"
  using h_get_bounds by (auto simp: db_cell_def tab_cell_def split: option.splits if_splits)

lemma um_row_is:
  assumes "um_inv db" "reg \<in> set um_regs" "first_row (\<lambda>r. db_cell (tname reg) db r UM_NAME = Some (CStr v)) k"
  shows "um_row sc db (tname reg) (Some v) = Some k"
  using um_row_cases[OF assms(1,2), of sc v] kt.first_row_same[OF assms(3)] by metis

lemma um_row_cong:
  assumes "um_inv db" "um_inv db'" "reg \<in> set um_regs"
    and "\<And>j. db_cell (tname reg) db' j UM_NAME = Some (CStr v) \<longleftrightarrow> db_cell (tname reg) db j UM_NAME = Some (CStr v)"
  shows "um_row sc db' (tname reg) (Some v) = um_row sc db (tname reg) (Some v)"
proof -
  obtain k where k: "um_row sc db (tname reg) (Some v) = Some k"
    "first_row (\<lambda>r. db_cell (tname reg) db r UM_NAME = Some (CStr v)) k"
    using um_row_cases[OF assms(1,3)] by blast
  then show ?thesis using um_row_is[OF assms(2,3), of v k sc] assms(4) by simp
qed

lemma um_row_hit:
  assumes "um_inv db" "reg \<in> set um_regs" "um_row sc db (tname reg) (Some v) = Some r" "0 \<le> r"
  shows "db_cell (tname reg) db r UM_NAME = Some (CStr v)"
    and "c \<in> set (columnNames reg) \<Longrightarrow> db_cell (tname reg) db r c \<noteq> None"
proof -
  obtain k where "um_row sc db (tname reg) (Some v) = Some k"
    "first_row (\<lambda>r. db_cell (tname reg) db r UM_NAME = Some (CStr v)) k"
    using um_row_cases[OF assms(1,2)] by blast
  then show h: "db_cell (tname reg) db r UM_NAME = Some (CStr v)" using assms(3,4) by (auto simp: first_row_def)
  obtain tb where tb: "db_tab db (tname reg) = Some tb" "same_schema reg tb"
    using assms(1,2) by (auto simp: um_inv_def has_schema_def)
  then show "c \<in> set (columnNames reg) \<Longrightarrow> db_cell (tname reg) db r c \<noteq> None"
    using h by (auto simp: db_cell_def tab_cell_def same_schema_def split: if_splits)
qed

lemma typed_column: "um_typed reg c x \<Longrightarrow> c \<in> set (columnNames reg)"
  by (auto simp: um_typed_def col_type_def split: if_splits)

text \<open>Setting a field of an existing record.\<close>

definition um_written :: "cstring \<Rightarrow> bool \<Rightarrow> cstring \<Rightarrow> cstring \<Rightarrow> cell \<Rightarrow> dbstate \<Rightarrow> dbstate \<Rightarrow> bool" where
  "um_written t sc v c x db db' \<longleftrightarrow> um_frame t db db' \<and>
     (\<forall>u. um_row sc db' t (Some u) = um_row sc db t (Some u)) \<and> um_field sc t db' v c = Some x \<and>
     (\<forall>v' c'. v' \<noteq> v \<or> c' \<noteq> c \<longrightarrow> um_field sc t db' v' c' = um_field sc t db v' c') \<and>
     (\<forall>r. db_cell t db' r UM_NAME = db_cell t db r UM_NAME)"

lemma um_write:
  assumes i: "um_inv db" and reg: "reg \<in> set um_regs" and r: "um_row sc db (tname reg) (Some v) = Some r" "0 \<le> r"
    and ty: "um_typed reg c x" and nk: "c \<noteq> UM_NAME"
  shows "\<exists>db'. (case x of CStr u \<Rightarrow> dbWriteStr True db (tname reg) c r (Some u)
                   | CInt n \<Rightarrow> dbWriteInt db (tname reg) c r n) = Some (db', 0) \<and>
     um_written (tname reg) sc v c x db db'"
proof -
  let ?t = "tname reg"
  have di: "db_inv db" using i by (simp add: um_inv_def)
  have ex: "db_cell ?t db r c \<noteq> None" using um_row_hit(2)[OF i reg r typed_column[OF ty]] .
  have tyd: "db_typed ?t db c x" using um_typed_db[OF i reg ty] .
  obtain db' tb where w: "db_write ?t db r c x = Some db'"
    "(case x of CStr u \<Rightarrow> dbWriteStr True db ?t c r (Some u) | CInt n \<Rightarrow> dbWriteInt db ?t c r n) = Some (db', 0)"
    "db_tab db ?t = Some tb" "db_update db ?t tb (\<lambda>r' c'. if r' = r \<and> c' = c then Some x else tab_cell tb r' c') db'"
    using db_write_spec[OF di ex tyd] by blast
  have "(\<lambda>v. um_row sc db' ?t (Some v)) = (\<lambda>v. um_row sc db ?t (Some v)) \<and> um_field sc ?t db' v c = Some x \<and>
      (\<forall>v' c'. v' \<noteq> v \<or> c' \<noteq> c \<longrightarrow> um_field sc ?t db' v' c' = um_field sc ?t db v' c')"
    using kt.put_field[OF um_table_of[OF i reg] r ex tyd nk] w(1) unfolding um_field_kt by auto
  moreover have "um_frame ?t db db'" "db_cell ?t db' r' UM_NAME = db_cell ?t db r' UM_NAME" for r'
    using db_update_frame[OF i w(3,4)] nk w(3) by (auto simp: db_cell_def)
  ultimately show ?thesis using w(2) unfolding um_written_def by (metis (no_types))
qed

lemmas um_write_str = um_write[where x = "CStr s" for s, unfolded cell.case]
lemmas um_write_int = um_write[where x = "CInt n" for n, unfolded cell.case]

lemma um_written_inv: "um_written t sc v c x db db' \<Longrightarrow> um_inv db'"
  by (simp add: um_written_def um_frame_def)

lemma um_written_ok:
  assumes "um_written (tname reg) sc v c x db db'" "um_ok db" "reg \<in> set um_regs"
  shows "um_ok db'"
proof -
  have "db_cell u db' r UM_NAME = db_cell u db r UM_NAME" for u r
    using assms(1) by (cases "u = tname reg") (auto simp: um_written_def um_frame_def db_cell_def)
  then show ?thesis using assms(2) um_written_inv[OF assms(1)] by (auto simp: um_ok_def um_unique_def)
qed

text \<open>Creating a record: a new row whose key is written.\<close>

lemma um_new:
  assumes i: "um_inv db" and reg: "reg \<in> set um_regs" and none: "um_row sc db (tname reg) (Some v) = Some k" "k < 0"
    and add: "dbAddRow m mo db (tname reg) = Some (db1, r)" "0 \<le> r"
  shows "\<exists>db2. dbWriteStr True db1 (tname reg) UM_NAME r (Some v) = Some (db2, 0) \<and> um_frame (tname reg) db db2 \<and>
     um_row sc db2 (tname reg) (Some v) = Some r \<and>
     (\<forall>v' c. v' \<noteq> v \<longrightarrow> um_field sc (tname reg) db2 v' c = um_field sc (tname reg) db v' c) \<and>
     (um_unique (tname reg) db \<longrightarrow> um_unique (tname reg) db2)"
proof -
  let ?t = "tname reg"
  have di: "db_inv db" using i by (simp add: um_inv_def)
  obtain tb where tb: "db_tab db ?t = Some tb" "same_schema reg tb" using i reg by (auto simp: um_inv_def has_schema_def)
  have nm: "UM_NAME \<in> set (columnNames tb)" "col_type tb UM_NAME = Some T_STRING"
    using um_reg_schema[OF reg] tb(2) same_schema_cols[OF tb(2)] by (auto simp: same_schema_def)
  have a: "dbAddRow m mo db ?t = Some (db1, r)" "0 \<le> r" "\<forall>c. tab_cell tb r c = None"
    "db_update db ?t tb (\<lambda>r' c'. if r' = r \<and> c' \<in> set (columnNames tb) then Some (CInt 0) else tab_cell tb r' c') db1"
    using dbAddRow_spec[OF di tb(1), of m mo] add by auto
  obtain tb1 where tb1: "db_inv db1" "db_tab db1 ?t = Some tb1" "same_schema tb tb1"
    "tab_cell tb1 = (\<lambda>r' c'. if r' = r \<and> c' \<in> set (columnNames tb) then Some (CInt 0) else tab_cell tb r' c')"
    using a(4) by (auto simp: db_update_def)
  have f1: "um_frame ?t db db1" by (rule db_update_frame(1)[OF i tb(1) a(4)])
  then have i1: "um_inv db1" by (simp add: um_frame_def)
  obtain db2 where w: "dbWriteStr True db1 ?t UM_NAME r (Some v) = Some (db2, 0)"
    "db_update db1 ?t tb1 (\<lambda>r' c'. if r' = r \<and> c' = UM_NAME then Some (CStr v) else tab_cell tb1 r' c') db2"
    using dbWriteStr_spec[OF tb1(1,2), where r = r and c = UM_NAME and x = "CInt 0" and s = "Some v",
        unfolded option.case] tb1(3,4) nm same_schema_cols[OF tb1(3)] by auto
  have f2: "um_frame ?t db1 db2" and c2: "db_cell ?t db2 = (\<lambda>r' c'. if r' = r \<and> c' = UM_NAME then Some (CStr v) else tab_cell tb1 r' c')"
    using db_update_frame[OF i1 tb1(2) w(2)] by blast+
  then have i2: "um_inv db2" by (simp add: um_frame_def)
  have cell: "db_cell ?t db2 r' c = db_cell ?t db r' c" if "r' \<noteq> r" for r' c
    using that c2 tb1(4) tb(1) by (simp add: db_cell_def)
  have old: "db_cell ?t db r c = None" for c using a(3) tb(1) by (simp add: db_cell_def)
  have new: "db_cell ?t db2 r UM_NAME = Some (CStr v)" using c2 by simp
  have fresh: "db_cell ?t db j UM_NAME \<noteq> Some (CStr v)" for j
    using um_row_cases[OF i reg, of sc v] none db_cell_pos[of ?t db j UM_NAME] by (auto simp: first_row_def)
  have row: "um_row sc db2 ?t (Some v) = Some r"
  proof -
    have "first_row (\<lambda>j. db_cell ?t db2 j UM_NAME = Some (CStr v)) r"
      using new fresh cell a(2) by (auto simp: first_row_def)
    then show ?thesis by (rule um_row_is[OF i2 reg])
  qed
  have oth: "um_field sc ?t db2 v' c = um_field sc ?t db v' c" if "v' \<noteq> v" for v' c
  proof -
    obtain k' where k': "um_row sc db ?t (Some v') = Some k'" "first_row (\<lambda>j. db_cell ?t db j UM_NAME = Some (CStr v')) k'"
      using um_row_cases[OF i reg] by blast
    have "db_cell ?t db2 j UM_NAME = Some (CStr v') \<longleftrightarrow> db_cell ?t db j UM_NAME = Some (CStr v')" for j
      using cell[of j UM_NAME] new old that by (cases "j = r") auto
    then have "um_row sc db2 ?t (Some v') = Some k'" using um_row_cong[OF i i2 reg] k'(1) by simp
    moreover have "k' \<noteq> r \<or> k' < 0" using k'(2) old a(2) by (auto simp: first_row_def)
    ultimately show ?thesis using k'(1) cell by (auto simp: um_field_def)
  qed
  have "um_unique ?t db2" if "um_unique ?t db"
    unfolding um_unique_def
  proof (intro allI impI)
    fix u j j' assume h: "db_cell ?t db2 j UM_NAME = Some (CStr u) \<and> db_cell ?t db2 j' UM_NAME = Some (CStr u)"
    show "j = j'"
    proof (cases "j = r \<or> j' = r")
      case True
      then have "u = v" using h new by auto
      then show ?thesis using h cell[of j UM_NAME] cell[of j' UM_NAME] fresh by metis
    next
      case False
      then show ?thesis using h cell[of j UM_NAME] cell[of j' UM_NAME] that unfolding um_unique_def by metis
    qed
  qed
  then show ?thesis using w(1) um_frame_trans[OF f1 f2] row oth by blast
qed

text \<open>A refused row leaves all records as they are.\<close>

lemma um_add_row:
  assumes ok: "um_inv db" and reg: "reg \<in> set um_regs"
  shows "\<exists>db1 r. dbAddRow m mo db (tname reg) = Some (db1, r) \<and>
     (0 \<le> r \<or> r = -1 \<and> (refuses m \<or> refuses mo) \<and> um_frame (tname reg) db db1 \<and>
        db_cell (tname reg) db1 = db_cell (tname reg) db)"
proof -
  have di: "db_inv db" using ok by (simp add: um_inv_def)
  obtain tb where tb: "db_tab db (tname reg) = Some tb" using ok reg by (auto simp: um_inv_def has_schema_def)
  have "db_cell (tname reg) db = tab_cell tb" using tb by (simp add: db_cell_def fun_eq_iff)
  then show ?thesis
    using dbAddRow_spec[OF di tb, of m mo] db_update_frame(1,2)[OF ok tb, of "tab_cell tb"] by auto
qed

text \<open>Deleting the row of a key.\<close>

lemma um_remove:
  assumes i: "um_inv db" and reg: "reg \<in> set um_regs" and u: "um_unique (tname reg) db"
    and r: "um_row sc db (tname reg) (Some v) = Some r" "0 \<le> r"
  shows "\<exists>db'. dbDeleteRow db (tname reg) r = Some (db', 0) \<and> um_frame (tname reg) db db' \<and>
     um_unique (tname reg) db' \<and> um_row sc db' (tname reg) (Some v) = Some (-1) \<and>
     (\<forall>v' c. v' \<noteq> v \<longrightarrow> um_field sc (tname reg) db' v' c = um_field sc (tname reg) db v' c)"
proof -
  let ?t = "tname reg"
  have di: "db_inv db" using i by (simp add: um_inv_def)
  obtain tb where tb: "db_tab db ?t = Some tb" using i reg by (auto simp: um_inv_def has_schema_def)
  have key: "db_cell ?t db r UM_NAME = Some (CStr v)" using um_row_hit(1)[OF i reg r] .
  then obtain p where p: "h_get (rows tb) r = Some p" "UM_NAME \<in> set (columnNames tb)"
    using tb by (auto simp: db_cell_def tab_cell_def split: if_splits)
  have "0 \<le> r \<and> r < nRows tb" using row_read(6,7)[OF db_tab_ok[OF di tb] p] by simp
  then obtain db' where d: "dbDeleteRow db ?t r = Some (db', 0)"
    "db_update db ?t tb (\<lambda>r' c'. if r' = r then None else tab_cell tb r' c') db'"
    using dbDeleteRow_spec[OF di tb, of r] by auto
  have f: "um_frame ?t db db'" and c: "db_cell ?t db' = (\<lambda>r' c'. if r' = r then None else tab_cell tb r' c')"
    using db_update_frame[OF i tb d(2)] by blast+
  then have i': "um_inv db'" by (simp add: um_frame_def)
  have cell: "db_cell ?t db' r' c' = (if r' = r then None else db_cell ?t db r' c')" for r' c'
    using c tb by (simp add: db_cell_def)
  have un: "um_unique ?t db'" using u cell by (auto simp: um_unique_def split: if_splits)
  have gone: "um_row sc db' ?t (Some v) = Some (-1)"
  proof -
    have "db_cell ?t db' j UM_NAME \<noteq> Some (CStr v)" for j using cell key u by (auto simp: um_unique_def)
    then have "first_row (\<lambda>j. db_cell ?t db' j UM_NAME = Some (CStr v)) (-1)" by (simp add: first_row_def)
    then show ?thesis by (rule um_row_is[OF i' reg])
  qed
  have "um_field sc ?t db' v' c' = um_field sc ?t db v' c'" if "v' \<noteq> v" for v' c'
  proof -
    obtain k' where k': "um_row sc db ?t (Some v') = Some k'" "first_row (\<lambda>j. db_cell ?t db j UM_NAME = Some (CStr v')) k'"
      using um_row_cases[OF i reg] by blast
    have "db_cell ?t db' j UM_NAME = Some (CStr v') \<longleftrightarrow> db_cell ?t db j UM_NAME = Some (CStr v')" for j
      using cell[of j UM_NAME] key that by auto
    then have "um_row sc db' ?t (Some v') = Some k'" using um_row_cong[OF i i' reg] k'(1) by simp
    moreover have "k' \<noteq> r \<or> k' < 0" using k'(2) key that by (auto simp: first_row_def)
    ultimately show ?thesis using k'(1) cell by (auto simp: um_field_def)
  qed
  then show ?thesis using d(1) f un gone by blast
qed

lemma um_frame_ok:
  assumes "um_ok db" "um_frame t db db'" "um_unique t db'"
  shows "um_ok db'"
proof -
  have "um_unique u db'" if "um_unique u db" for u
    using assms(2,3) that by (cases "u = t") (auto simp: um_frame_def um_unique_def db_cell_def)
  then show ?thesis using assms(1,2) by (auto simp: um_ok_def um_frame_def)
qed

lemma um_ok_inv: "um_ok db \<Longrightarrow> um_inv db"
  by (simp add: um_ok_def)

lemma um_reg_mem [simp]: "userTable \<in> set um_regs" "groupTable \<in> set um_regs" "accessTable \<in> set um_regs"
  by (simp_all add: um_regs_def)

section \<open>Getters through the record view\<close>

lemma um_exists_iff:
  assumes "um_inv db" "reg \<in> set um_regs"
  shows "\<exists>k. um_row sc db (tname reg) (Some v) = Some k \<and>
     (0 \<le> k \<longleftrightarrow> um_field sc (tname reg) db v UM_NAME = Some (CStr v)) \<and>
     (k < 0 \<longleftrightarrow> um_field sc (tname reg) db v UM_NAME = None)"
proof -
  obtain k where k: "um_row sc db (tname reg) (Some v) = Some k"
    "first_row (\<lambda>r. db_cell (tname reg) db r UM_NAME = Some (CStr v)) k"
    using um_row_cases[OF assms] by blast
  then show ?thesis by (cases "k < 0") (auto simp: um_field_def first_row_def)
qed

lemma um_read:
  assumes i: "um_inv db" and reg: "reg \<in> set um_regs" and r: "um_row sc db (tname reg) (Some v) = Some r" "0 \<le> r"
    and c: "c \<in> set (columnNames reg)"
  shows "\<exists>x. um_field sc (tname reg) db v c = Some x \<and> dbReadInt db (tname reg) c r = Some (0, Some x)"
proof -
  have di: "db_inv db" using i by (simp add: um_inv_def)
  obtain tb where tb: "db_tab db (tname reg) = Some tb" "same_schema reg tb"
    using i reg by (auto simp: um_inv_def has_schema_def)
  obtain x where x: "db_cell (tname reg) db r c = Some x" using um_row_hit(2)[OF i reg r c] by auto
  then have tx: "tab_cell tb r c = Some x" using tb(1) by (simp add: db_cell_def)
  then obtain p where p: "h_get (rows tb) r = Some p" "c \<in> set (columnNames tb)"
    by (auto simp: tab_cell_def split: if_splits)
  have "dbReadInt db (tname reg) c r = Some (0, Some x)"
    using dbReadInt_spec[OF di tb(1), of c r] row_read(6,7)[OF db_tab_ok[OF di tb(1)] p] p(2) tx by simp
  then show ?thesis using x r by (simp add: um_field_def)
qed

lemma um_field_typed:
  assumes i: "um_inv db" and reg: "reg \<in> set um_regs" and f: "um_field sc (tname reg) db v c = Some x"
    and c: "col_type reg c = Some T_STRING"
  shows "cell_ptr x \<noteq> None"
proof -
  obtain tb where tb: "db_tab db (tname reg) = Some tb" "same_schema reg tb"
    using i reg by (auto simp: um_inv_def has_schema_def)
  have ok: "tbl_ok tb" using db_tab_ok i tb(1) by (auto simp: um_inv_def)
  obtain r where "tab_cell tb r c = Some x"
    using f tb(1) by (auto simp: um_field_def db_cell_def split: option.splits if_splits)
  then have "cell_str x" using string_cell[OF ok] c same_schema_cols[OF tb(2)] by simp
  then show ?thesis by (auto simp: cell_ptr_def cell_str_def split: cell.splits)
qed

section \<open>Building records\<close>

text \<open>The writes that fill the fields of a new record, as one sequence.\<close>

fun db_writes :: "cstring \<Rightarrow> int \<Rightarrow> dbstate \<Rightarrow> (cstring \<times> cell) list \<Rightarrow> dbstate option" where
  "db_writes t r db [] = Some db"
| "db_writes t r db ((c, x) # ws) = do { db1 \<leftarrow> db_write t db r c x; db_writes t r db1 ws }"

lemma bind_pair_fst: "Option.bind a (\<lambda>(x, _). f x) = Option.bind (map_option fst a) f"
  by (cases a) auto

lemma dbWriteStr_null: "dbWriteStr dup db t c r None = dbWriteStr dup db t c r (Some [])"
  by (simp only: dbWriteStr_def option.case)

lemma write_folds:
  "Option.bind (dbWriteStr True db t c r (Some u)) (\<lambda>(x, _). f x) = Option.bind (db_write t db r c (CStr u)) f"
  "Option.bind (dbWriteInt db t c r n) (\<lambda>(x, _). f x) = Option.bind (db_write t db r c (CInt n)) f"
  by (simp_all add: db_write_def bind_pair_fst)

lemma um_writes:
  "um_inv db \<Longrightarrow> reg \<in> set um_regs \<Longrightarrow> um_row sc db (tname reg) (Some v) = Some r \<Longrightarrow> 0 \<le> r \<Longrightarrow>
   \<forall>(c, x)\<in>set ws. um_typed reg c x \<and> c \<noteq> UM_NAME \<Longrightarrow> distinct (map fst ws) \<Longrightarrow>
   \<exists>db'. db_writes (tname reg) r db ws = Some db' \<and> um_frame (tname reg) db db' \<and>
     (\<forall>u. um_row sc db' (tname reg) (Some u) = um_row sc db (tname reg) (Some u)) \<and>
     (\<forall>v' c. um_field sc (tname reg) db' v' c =
        (if v' = v \<and> c \<in> fst ` set ws then map_of ws c else um_field sc (tname reg) db v' c)) \<and>
     (\<forall>j. db_cell (tname reg) db' j UM_NAME = db_cell (tname reg) db j UM_NAME)"
proof (induction ws arbitrary: db)
  case Nil
  then show ?case by (auto simp: um_frame_refl)
next
  case (Cons w ws)
  obtain c x where w: "w = (c, x)" by (cases w)
  have ty: "um_typed reg c x" "c \<noteq> UM_NAME" using Cons.prems(5) w by auto
  obtain db1 where d: "(case x of CStr u \<Rightarrow> dbWriteStr True db (tname reg) c r (Some u)
      | CInt n \<Rightarrow> dbWriteInt db (tname reg) c r n) = Some (db1, 0)" "um_written (tname reg) sc v c x db db1"
    using um_write[OF Cons.prems(1-4) ty] by blast
  have e: "db_write (tname reg) db r c x = Some db1" using d(1) by (simp add: db_write_def)
  obtain db' where r: "db_writes (tname reg) r db1 ws = Some db'" "um_frame (tname reg) db1 db'"
    "\<forall>u. um_row sc db' (tname reg) (Some u) = um_row sc db1 (tname reg) (Some u)"
    "\<forall>v' c. um_field sc (tname reg) db' v' c =
        (if v' = v \<and> c \<in> fst ` set ws then map_of ws c else um_field sc (tname reg) db1 v' c)"
    "\<forall>j. db_cell (tname reg) db' j UM_NAME = db_cell (tname reg) db1 j UM_NAME"
    using Cons.IH[OF um_written_inv[OF d(2)] Cons.prems(2)] Cons.prems(3-6) d(2) w by (auto simp: um_written_def)
  have nc: "c \<notin> fst ` set ws" using Cons.prems(6) w by simp
  have "um_field sc (tname reg) db' v' c' =
      (if v' = v \<and> c' \<in> fst ` set (w # ws) then map_of (w # ws) c' else um_field sc (tname reg) db v' c')" for v' c'
    using r(4) d(2) w nc by (auto simp: um_written_def)
  then show ?case
    using e r(1,3,5) w d(2) um_frame_trans[OF _ r(2)] by (auto simp: um_written_def)
qed

text \<open>A record that is created, its key written and its fields filled.\<close>

lemma um_create:
  assumes ok: "um_ok db" and reg: "reg \<in> set um_regs" and none: "um_row sc db (tname reg) (Some v) = Some k" "k < 0"
    and add: "dbAddRow m mo db (tname reg) = Some (db1, r)" "0 \<le> r"
    and ws: "\<forall>(c, x)\<in>set ws. um_typed reg c x \<and> c \<noteq> UM_NAME" "distinct (map fst ws)"
  shows "\<exists>db2 db3. dbWriteStr True db1 (tname reg) UM_NAME r (Some v) = Some (db2, 0) \<and>
     db_writes (tname reg) r db2 ws = Some db3 \<and> um_ok db3 \<and> um_frame (tname reg) db db3 \<and>
     um_field sc (tname reg) db3 v UM_NAME = Some (CStr v) \<and>
     (\<forall>(c, x)\<in>set ws. um_field sc (tname reg) db3 v c = Some x) \<and>
     (\<forall>v' c. v' \<noteq> v \<longrightarrow> um_field sc (tname reg) db3 v' c = um_field sc (tname reg) db v' c)"
proof -
  obtain db2 where n:
    "dbWriteStr True db1 (tname reg) UM_NAME r (Some v) = Some (db2, 0)" "um_frame (tname reg) db db2"
    "um_row sc db2 (tname reg) (Some v) = Some r"
    "\<forall>v' c. v' \<noteq> v \<longrightarrow> um_field sc (tname reg) db2 v' c = um_field sc (tname reg) db v' c"
    "um_unique (tname reg) db2"
    using um_new[OF um_ok_inv[OF ok] reg none add] ok reg by (auto simp: um_ok_def)
  have i2: "um_inv db2" using n(2) by (simp add: um_frame_def)
  obtain db3 where w: "db_writes (tname reg) r db2 ws = Some db3" "um_frame (tname reg) db2 db3"
    "um_row sc db3 (tname reg) (Some v) = Some r"
    "\<forall>v' c. um_field sc (tname reg) db3 v' c =
        (if v' = v \<and> c \<in> fst ` set ws then map_of ws c else um_field sc (tname reg) db2 v' c)"
    "\<forall>j. db_cell (tname reg) db3 j UM_NAME = db_cell (tname reg) db2 j UM_NAME"
    using um_writes[OF i2 reg n(3) add(2) ws] n(3) by auto
  have f: "um_frame (tname reg) db db3" using um_frame_trans[OF n(2) w(2)] .
  have "um_unique (tname reg) db3" using n(5) w(5) by (simp add: um_unique_def)
  then have ok3: "um_ok db3" using um_frame_ok[OF ok f] by blast
  have "um_field sc (tname reg) db3 v UM_NAME = Some (CStr v)"
    using um_exists_iff[OF um_ok_inv[OF ok3] reg, of sc v] w(3) add(2) by auto
  moreover have "um_field sc (tname reg) db3 v c = Some x" if "(c, x) \<in> set ws" for c x
    using w(4) that ws(2) by (force simp: map_of_eq_Some_iff)
  ultimately show ?thesis using n(1,4) w(1,4) ok3 f by fastforce
qed

lemma um_field_cell:
  assumes "um_inv db" "reg \<in> set um_regs" "um_field sc (tname reg) db v c = Some x"
  obtains tb r where "tbl_ok tb" "tab_cell tb r c = Some x" "col_type tb = col_type reg"
proof -
  obtain tb where tb: "db_tab db (tname reg) = Some tb" "same_schema reg tb"
    using assms(1,2) by (auto simp: um_inv_def has_schema_def)
  moreover have "tbl_ok tb" using db_tab_ok assms(1) tb(1) by (auto simp: um_inv_def)
  moreover obtain r where "tab_cell tb r c = Some x"
    using assms(3) tb(1) by (auto simp: um_field_def db_cell_def split: option.splits if_splits)
  ultimately show ?thesis using that same_schema_cols by blast
qed

text \<open>Reading a number field and a string field of an existing record.\<close>

lemma um_get_int:
  assumes i: "um_inv db" and reg: "reg \<in> set um_regs" and r: "um_row sc db (tname reg) (Some v) = Some r" "0 \<le> r"
    and c: "col_type reg c = Some T_INT"
  shows "\<exists>n. um_field sc (tname reg) db v c = Some (CInt n) \<and> um_read_int db (tname reg) c r x0 = Some n"
proof -
  have "c \<in> set (columnNames reg)" using c by (auto simp: col_type_def split: if_splits)
  then obtain x where x: "um_field sc (tname reg) db v c = Some x" "dbReadInt db (tname reg) c r = Some (0, Some x)"
    using um_read[OF i reg r] by blast
  obtain tb q where "tbl_ok tb" "tab_cell tb q c = Some x" "col_type tb = col_type reg"
    using um_field_cell[OF i reg x(1)] by blast
  then obtain n where "x = CInt n" using int_cell c by fastforce
  then show ?thesis using x by (simp add: um_read_int_def)
qed

lemma um_get_str:
  assumes i: "um_inv db" and reg: "reg \<in> set um_regs" and r: "um_row sc db (tname reg) (Some v) = Some r" "0 \<le> r"
    and c: "col_type reg c = Some T_STRING"
  shows "\<exists>x p. um_field sc (tname reg) db v c = Some x \<and> cell_ptr x = Some p \<and> um_read_str db (tname reg) c r = Some p"
proof -
  have "c \<in> set (columnNames reg)" using c by (auto simp: col_type_def split: if_splits)
  then obtain x where x: "um_field sc (tname reg) db v c = Some x" "dbReadInt db (tname reg) c r = Some (0, Some x)"
    using um_read[OF i reg r] by blast
  obtain p where "cell_ptr x = Some p" using um_field_typed[OF i reg x(1) c] by auto
  then show ?thesis using x by (simp add: um_read_str_def)
qed

lemma um_user_types:
  "col_type userTable UM_PASS = Some T_STRING" "col_type userTable UM_GROUP = Some T_STRING"
  "col_type userTable UM_PROT = Some T_INT" "col_type userTable UM_DISABLE = Some T_INT"
  by (simp_all add: userTable_def col_type_def col_index_def um_columns)

lemma um_group_types:
  "col_type groupTable UM_PRIVILEGE = Some T_INT" "col_type groupTable UM_METHOD = Some T_INT"
  "col_type groupTable UM_PROT = Some T_INT" "col_type groupTable UM_DISABLE = Some T_INT"
  by (simp_all add: groupTable_def col_type_def col_index_def um_columns)

lemma um_access_types:
  "col_type accessTable UM_METHOD = Some T_INT" "col_type accessTable UM_SECURE = Some T_INT"
  "col_type accessTable UM_GROUP = Some T_STRING"
  by (simp_all add: accessTable_def col_type_def col_index_def um_columns)

lemma um_not_key:
  "UM_PASS \<noteq> UM_NAME" "UM_GROUP \<noteq> UM_NAME" "UM_PROT \<noteq> UM_NAME" "UM_DISABLE \<noteq> UM_NAME" "UM_METHOD \<noteq> UM_NAME"
  "UM_PRIVILEGE \<noteq> UM_NAME" "UM_SECURE \<noteq> UM_NAME"
  by (simp_all add: um_columns)

lemma um_table_names:
  "UM_GROUP_TABLENAME \<noteq> UM_USER_TABLENAME" "UM_ACCESS_TABLENAME \<noteq> UM_USER_TABLENAME"
  "UM_ACCESS_TABLENAME \<noteq> UM_GROUP_TABLENAME"
  by (simp_all add: um_tables)

section \<open>Opening\<close>

lemma umOpen_spec:
  assumes s: "umOpenCount st = 0" "didUM st = -1" and m: "\<not> refuses m" "\<not> refuses mo"
  shows "\<exists>st'. umOpen m mo True st = Some (st', 0) \<and> umOpenCount st' = 1 \<and> saveFilename st' \<noteq> None \<and>
     um_ok (umdb st') \<and> (\<forall>reg\<in>set um_regs. db_tab (umdb st') (tname reg) = Some reg)"
proof -
  define db0 where "db0 = fst (dbOpen (umdb st))"
  have o: "db_inv db0" "db_tab db0 t = None" for t using dbOpen_spec[of "umdb st"] by (simp_all add: db0_def)
  have n: "reg\<lparr>nRows := 0, rows := None\<rparr> = reg" if "reg \<in> set um_regs" for reg
    using that by (auto simp: um_regs_def userTable_def groupTable_def accessTable_def)
  obtain db1 where d1: "dbRegisterDBSchema m mo True db0 userTable = Some (db1, 0)" "db_inv db1"
    "db_tab db1 = (db_tab db0)(UM_USER_TABLENAME \<mapsto> userTable)"
    using dbRegisterDBSchema_spec[OF o(1) um_reg_schema(1) o(2) m, of userTable] n[of userTable]
    by (auto simp: um_reg_names)
  have f1: "db_tab db1 (tname groupTable) = None" using d1(3) o(2) um_table_names by (simp add: um_reg_names)
  obtain db2 where d2: "dbRegisterDBSchema m mo True db1 groupTable = Some (db2, 0)" "db_inv db2"
    "db_tab db2 = (db_tab db1)(UM_GROUP_TABLENAME \<mapsto> groupTable)"
    using dbRegisterDBSchema_spec[OF d1(2) um_reg_schema(1) f1 m] n[of groupTable] by (auto simp: um_reg_names)
  have f2: "db_tab db2 (tname accessTable) = None"
    using d1(3) d2(3) o(2) um_table_names by (simp add: um_reg_names)
  obtain db3 where d3: "dbRegisterDBSchema m mo True db2 accessTable = Some (db3, 0)" "db_inv db3"
    "db_tab db3 = (db_tab db2)(UM_ACCESS_TABLENAME \<mapsto> accessTable)"
    using dbRegisterDBSchema_spec[OF d2(2) um_reg_schema(1) f2 m] n[of accessTable] by (auto simp: um_reg_names)
  have t: "\<forall>reg\<in>set um_regs. db_tab db3 (tname reg) = Some reg"
    using d1(3) d2(3) d3(3) um_table_names by (auto simp: um_regs_def um_reg_names)
  have "db_cell (tname reg) db3 r c = None" if "reg \<in> set um_regs" for reg r c
    using t that by (auto simp: db_cell_def tab_cell_def um_regs_def userTable_def groupTable_def accessTable_def h_get_def)
  then have "um_ok db3"
    using t d3(2) by (auto simp: um_ok_def um_inv_def has_schema_def um_unique_def same_schema_def)
  moreover have "snd (dbOpen (umdb st)) = 0" by (simp add: dbOpen_def)
  then have "dbOpen (umdb st) = (db0, 0)" by (simp add: db0_def prod_eq_iff)
  ultimately show ?thesis
    using s d1(1) d2(1) d3(1) t by (auto simp: umOpen_def Let_def)
qed

text \<open>The initial values of the static variables of \<^verbatim>\<open>emfdb.c\<close> and \<^verbatim>\<open>um.c\<close>.\<close>

definition um_init :: um_state where
  "um_init = \<lparr>umdb = \<lparr>dbListTables = None, dbMaxTables = 0, basicProdDir = None, basicDefaultDir = ''.''\<rparr>,
     didUM = -1, saveFilename = None, umOpenCount = 0\<rparr>"

lemma um_ok_exists: "\<exists>db. um_ok db \<and> (\<forall>sc reg v. reg \<in> set um_regs \<longrightarrow> um_row sc db (tname reg) (Some v) = Some (-1))"
proof -
  let ?m = "\<lambda>_. Some (\<lambda>_. CHR 0x00)"
  have "\<not> refuses ?m" by (simp add: refuses_def)
  then obtain st :: um_state where st: "um_ok (umdb st)" "\<forall>reg\<in>set um_regs. db_tab (umdb st) (tname reg) = Some reg"
    using umOpen_spec[of um_init ?m ?m] by (auto simp: um_init_def)
  have "db_cell (tname reg) (umdb st) r c = None" if "reg \<in> set um_regs" for reg r c
    using st(2) that by (auto simp: db_cell_def tab_cell_def um_regs_def userTable_def groupTable_def accessTable_def h_get_def)
  then have "um_row sc (umdb st) (tname reg) (Some v) = Some (-1)" if "reg \<in> set um_regs" for sc reg v
    using that by (intro um_row_is[OF um_ok_inv[OF st(1)] that]) (simp add: first_row_def)
  then show ?thesis using st(1) by blast
qed

section \<open>Adding and deleting records\<close>

lemma um_typed_simps:
  "um_typed reg c (CStr s) \<longleftrightarrow> col_type reg c = Some T_STRING" "um_typed reg c (CInt n) \<longleftrightarrow> col_type reg c = Some T_INT"
  by (simp_all add: um_typed_def)

lemma umAddUser_fields:
  assumes ok: "um_ok db" and add: "dbAddRow m mo db (tname userTable) = Some (db1, r)" "0 \<le> r"
    and u: "umUserExists sc db user = Some False" and g: "umGroupExists sc db grp = Some True"
    and nm: "umCheckName user" "umCheckName pass"
  shows "\<exists>db'. umAddUser sc m mo True db user pass grp prot disabled = Some (db', 0) \<and> um_ok db' \<and>
     um_frame UM_USER_TABLENAME db db' \<and>
     um_field sc UM_USER_TABLENAME db' user UM_NAME = Some (CStr user) \<and>
     um_field sc UM_USER_TABLENAME db' user UM_PASS = Some (CStr (um_encrypt UM_XOR_ENCRYPT pass)) \<and>
     um_field sc UM_USER_TABLENAME db' user UM_GROUP = Some (CStr grp) \<and>
     um_field sc UM_USER_TABLENAME db' user UM_PROT = Some (CInt prot) \<and>
     um_field sc UM_USER_TABLENAME db' user UM_DISABLE = Some (CInt disabled) \<and>
     (\<forall>v c. v \<noteq> user \<longrightarrow> um_field sc UM_USER_TABLENAME db' v c = um_field sc UM_USER_TABLENAME db v c)"
proof -
  let ?ws = "[(UM_PASS, CStr (um_encrypt UM_XOR_ENCRYPT pass)), (UM_GROUP, CStr grp), (UM_PROT, CInt prot),
      (UM_DISABLE, CInt disabled)]"
  obtain k where k: "um_row sc db (tname userTable) (Some user) = Some k" "k < 0"
    using u by (auto simp: umUserExists_def um_reg_names bind_eq_Some_conv)
  have ws: "\<forall>(c, x)\<in>set ?ws. um_typed userTable c x \<and> c \<noteq> UM_NAME"
    by (simp add: um_typed_simps um_user_types um_not_key)
  have ds: "distinct (map fst ?ws)" by (simp add: um_columns)
  obtain db2 db3 where c:
    "dbWriteStr True db1 UM_USER_TABLENAME UM_NAME r (Some user) = Some (db2, 0)"
    "db_writes UM_USER_TABLENAME r db2 ?ws = Some db3" "um_ok db3" "um_frame UM_USER_TABLENAME db db3"
    "um_field sc UM_USER_TABLENAME db3 user UM_NAME = Some (CStr user)"
    "\<forall>(c, x)\<in>set ?ws. um_field sc UM_USER_TABLENAME db3 user c = Some x"
    "\<forall>v c. v \<noteq> user \<longrightarrow> um_field sc UM_USER_TABLENAME db3 v c = um_field sc UM_USER_TABLENAME db v c"
    using um_create[OF ok _ k add ws ds] by (auto simp: um_reg_names)
  have "umAddUser sc m mo True db user pass grp prot disabled =
      Option.bind (db_writes UM_USER_TABLENAME r db2 ?ws) (\<lambda>d. Some (d, 0))"
    using u g nm add c(1) by (simp add: umAddUser_def umEncryptString_def write_folds um_reg_names del: bind_fst)
  then have "umAddUser sc m mo True db user pass grp prot disabled = Some (db3, 0)" unfolding c(2) by simp
  then show ?thesis using c(3-7) by simp
qed

lemma umAddGroup_fields:
  assumes ok: "um_ok db" and add: "dbAddRow m mo db (tname groupTable) = Some (db1, r)" "0 \<le> r"
    and g: "umGroupExists sc db grp = Some False" and nm: "umCheckName grp"
  shows "\<exists>db'. umAddGroup sc m mo True db grp priv am prot disabled = Some (db', 0) \<and> um_ok db' \<and>
     um_frame UM_GROUP_TABLENAME db db' \<and>
     um_field sc UM_GROUP_TABLENAME db' grp UM_NAME = Some (CStr grp) \<and>
     um_field sc UM_GROUP_TABLENAME db' grp UM_PRIVILEGE = Some (CInt priv) \<and>
     um_field sc UM_GROUP_TABLENAME db' grp UM_METHOD = Some (CInt (am_int am)) \<and>
     um_field sc UM_GROUP_TABLENAME db' grp UM_PROT = Some (CInt prot) \<and>
     um_field sc UM_GROUP_TABLENAME db' grp UM_DISABLE = Some (CInt disabled) \<and>
     (\<forall>v c. v \<noteq> grp \<longrightarrow> um_field sc UM_GROUP_TABLENAME db' v c = um_field sc UM_GROUP_TABLENAME db v c)"
proof -
  let ?ws = "[(UM_PRIVILEGE, CInt priv), (UM_METHOD, CInt (am_int am)), (UM_PROT, CInt prot), (UM_DISABLE, CInt disabled)]"
  obtain k where k: "um_row sc db (tname groupTable) (Some grp) = Some k" "k < 0"
    using g by (auto simp: umGroupExists_def um_reg_names bind_eq_Some_conv)
  have ws: "\<forall>(c, x)\<in>set ?ws. um_typed groupTable c x \<and> c \<noteq> UM_NAME"
    by (simp add: um_typed_simps um_group_types um_not_key)
  have ds: "distinct (map fst ?ws)" by (simp add: um_columns)
  obtain db2 db3 where c:
    "dbWriteStr True db1 UM_GROUP_TABLENAME UM_NAME r (Some grp) = Some (db2, 0)"
    "db_writes UM_GROUP_TABLENAME r db2 ?ws = Some db3" "um_ok db3" "um_frame UM_GROUP_TABLENAME db db3"
    "um_field sc UM_GROUP_TABLENAME db3 grp UM_NAME = Some (CStr grp)"
    "\<forall>(c, x)\<in>set ?ws. um_field sc UM_GROUP_TABLENAME db3 grp c = Some x"
    "\<forall>v c. v \<noteq> grp \<longrightarrow> um_field sc UM_GROUP_TABLENAME db3 v c = um_field sc UM_GROUP_TABLENAME db v c"
    using um_create[OF ok _ k add ws ds] by (auto simp: um_reg_names)
  have "umAddGroup sc m mo True db grp priv am prot disabled =
      Option.bind (db_writes UM_GROUP_TABLENAME r db2 ?ws) (\<lambda>d. Some (d, 0))"
    using g nm add c(1) by (simp add: umAddGroup_def write_folds um_reg_names del: bind_fst)
  then have "umAddGroup sc m mo True db grp priv am prot disabled = Some (db3, 0)" unfolding c(2) by simp
  then show ?thesis using c(3-7) by simp
qed

lemma umAddAccessLimit_fields:
  assumes ok: "um_ok db" and add: "dbAddRow m mo db (tname accessTable) = Some (db1, r)" "0 \<le> r" and g: "umAccessLimitExists sc db url = Some False"
  shows "\<exists>db'. umAddAccessLimit sc m mo True db url am secure grp = Some (db', 0) \<and> um_ok db' \<and>
     um_frame UM_ACCESS_TABLENAME db db' \<and>
     um_field sc UM_ACCESS_TABLENAME db' url UM_NAME = Some (CStr url) \<and>
     um_field sc UM_ACCESS_TABLENAME db' url UM_METHOD = Some (CInt (am_int am)) \<and>
     um_field sc UM_ACCESS_TABLENAME db' url UM_SECURE = Some (CInt secure) \<and>
     um_field sc UM_ACCESS_TABLENAME db' url UM_GROUP = Some (CStr (case grp of Some g \<Rightarrow> g | None \<Rightarrow> [])) \<and>
     (\<forall>v c. v \<noteq> url \<longrightarrow> um_field sc UM_ACCESS_TABLENAME db' v c = um_field sc UM_ACCESS_TABLENAME db v c)"
proof -
  define g' where "g' = (case grp of Some g \<Rightarrow> g | None \<Rightarrow> [])"
  let ?ws = "[(UM_METHOD, CInt (am_int am)), (UM_SECURE, CInt secure), (UM_GROUP, CStr g')]"
  obtain k where k: "um_row sc db (tname accessTable) (Some url) = Some k" "k < 0"
    using g by (auto simp: umAccessLimitExists_def um_reg_names bind_eq_Some_conv split: if_splits)
  have ws: "\<forall>(c, x)\<in>set ?ws. um_typed accessTable c x \<and> c \<noteq> UM_NAME"
    by (simp add: um_typed_simps um_access_types um_not_key)
  have ds: "distinct (map fst ?ws)" by (simp add: um_columns)
  obtain db2 db3 where c:
    "dbWriteStr True db1 UM_ACCESS_TABLENAME UM_NAME r (Some url) = Some (db2, 0)"
    "db_writes UM_ACCESS_TABLENAME r db2 ?ws = Some db3" "um_ok db3" "um_frame UM_ACCESS_TABLENAME db db3"
    "um_field sc UM_ACCESS_TABLENAME db3 url UM_NAME = Some (CStr url)"
    "\<forall>(c, x)\<in>set ?ws. um_field sc UM_ACCESS_TABLENAME db3 url c = Some x"
    "\<forall>v c. v \<noteq> url \<longrightarrow> um_field sc UM_ACCESS_TABLENAME db3 v c = um_field sc UM_ACCESS_TABLENAME db v c"
    using um_create[OF ok _ k add ws ds] by (auto simp: um_reg_names)
  have null: "dbWriteStr True d UM_ACCESS_TABLENAME UM_GROUP r grp = dbWriteStr True d UM_ACCESS_TABLENAME UM_GROUP r (Some g')" for d
    by (cases grp) (simp_all add: g'_def dbWriteStr_null)
  have "umAddAccessLimit sc m mo True db url am secure grp =
      Option.bind (db_writes UM_ACCESS_TABLENAME r db2 ?ws) (\<lambda>d. Some (d, 0))"
    using g add c(1) by (simp add: umAddAccessLimit_def null write_folds um_reg_names del: bind_fst)
  then have "umAddAccessLimit sc m mo True db url am secure grp = Some (db3, 0)" unfolding c(2) by simp
  then show ?thesis using c(3-7) by (simp add: g'_def)
qed

section \<open>Sequences of operations\<close>

text \<open>Every operation of the module that changes the records.\<close>

datatype um_op =
    AddUser cstring cstring cstring int int
  | DeleteUser cstring
  | SetUserPassword cstring cstring
  | SetUserGroup cstring "cstring option"
  | SetUserEnabled cstring int
  | SetUserProtected cstring int
  | AddGroup cstring int accessMeth int int
  | DeleteGroup cstring
  | SetGroupAccessMethod cstring accessMeth
  | SetGroupPrivilege cstring int
  | SetGroupEnabled cstring int
  | SetGroupProtected cstring int
  | AddAccessLimit cstring accessMeth int "cstring option"
  | DeleteAccessLimit cstring
  | SetAccessLimitMethod cstring accessMeth
  | SetAccessLimitSecure cstring int
  | SetAccessLimitGroup cstring "cstring option"

fun um_exec :: "bool \<Rightarrow> balloc_env \<Rightarrow> balloc_env \<Rightarrow> dbstate \<Rightarrow> um_op \<Rightarrow> (dbstate \<times> int) option" where
  "um_exec sc m mo db (AddUser u p g prot dis) = umAddUser sc m mo True db u p g prot dis"
| "um_exec sc m mo db (DeleteUser u) = umDeleteUser sc db u"
| "um_exec sc m mo db (SetUserPassword u p) = umSetUserPassword sc True db u p"
| "um_exec sc m mo db (SetUserGroup u g) = umSetUserGroup sc True db u g"
| "um_exec sc m mo db (SetUserEnabled u e) = umSetUserEnabled sc db u e"
| "um_exec sc m mo db (SetUserProtected u p) = umSetUserProtected sc db u p"
| "um_exec sc m mo db (AddGroup g priv am prot dis) = umAddGroup sc m mo True db g priv am prot dis"
| "um_exec sc m mo db (DeleteGroup g) = umDeleteGroup sc db g"
| "um_exec sc m mo db (SetGroupAccessMethod g am) = umSetGroupAccessMethod sc db g am"
| "um_exec sc m mo db (SetGroupPrivilege g p) = umSetGroupPrivilege sc db g p"
| "um_exec sc m mo db (SetGroupEnabled g e) = umSetGroupEnabled sc db g e"
| "um_exec sc m mo db (SetGroupProtected g p) = umSetGroupProtected sc db g p"
| "um_exec sc m mo db (AddAccessLimit u am s g) = umAddAccessLimit sc m mo True db u am s g"
| "um_exec sc m mo db (DeleteAccessLimit u) = umDeleteAccessLimit sc db u"
| "um_exec sc m mo db (SetAccessLimitMethod u am) = umSetAccessLimitMethod sc db u am"
| "um_exec sc m mo db (SetAccessLimitSecure u s) = umSetAccessLimitSecure sc db u s"
| "um_exec sc m mo db (SetAccessLimitGroup u g) = umSetAccessLimitGroup sc True db u g"

fun um_run :: "bool \<Rightarrow> balloc_env \<Rightarrow> balloc_env \<Rightarrow> dbstate \<Rightarrow> um_op list \<Rightarrow> (dbstate \<times> int list) option" where
  "um_run sc m mo db [] = Some (db, [])"
| "um_run sc m mo db (op # ops) = do {
     (db1, rc) \<leftarrow> um_exec sc m mo db op;
     (db2, rcs) \<leftarrow> um_run sc m mo db1 ops;
     Some (db2, rc # rcs) }"

definition um_good :: "(dbstate \<times> int) option \<Rightarrow> bool" where
  "um_good res \<longleftrightarrow> (\<exists>db' rc. res = Some (db', rc) \<and> um_ok db')"

lemma um_good_Some [simp]: "um_good (Some (db, rc)) \<longleftrightarrow> um_ok db"
  by (simp add: um_good_def)

lemma um_row_total:
  assumes "um_ok db" "reg \<in> set um_regs"
  shows "\<exists>k. um_row sc db (tname reg) (Some v) = Some k"
  using um_row_cases[OF um_ok_inv[OF assms(1)] assms(2)] by blast

lemma um_good_set_int:
  assumes ok: "um_ok db" and reg: "reg \<in> set um_regs" and r: "um_row sc db (tname reg) (Some v) = Some r" "0 \<le> r"
    and c: "col_type reg c = Some T_INT" "c \<noteq> UM_NAME"
  shows "um_good (dbWriteInt db (tname reg) c r n)"
  using um_write_int[OF um_ok_inv[OF ok] reg r, of c n] c um_written_ok[OF _ ok reg]
  by (auto simp: um_typed_simps um_good_def)

lemma um_good_set_str:
  assumes ok: "um_ok db" and reg: "reg \<in> set um_regs" and r: "um_row sc db (tname reg) (Some v) = Some r" "0 \<le> r"
    and c: "col_type reg c = Some T_STRING" "c \<noteq> UM_NAME"
  shows "um_good (dbWriteStr True db (tname reg) c r s)"
proof (cases s)
  case None
  then show ?thesis
    using um_write_str[OF um_ok_inv[OF ok] reg r, of c "[]"] c um_written_ok[OF _ ok reg]
    by (auto simp: um_typed_simps um_good_def dbWriteStr_null)
next
  case (Some u)
  then show ?thesis
    using um_write_str[OF um_ok_inv[OF ok] reg r, of c u] c um_written_ok[OF _ ok reg]
    by (auto simp: um_typed_simps um_good_def)
qed

lemma um_good_delete:
  assumes ok: "um_ok db" and reg: "reg \<in> set um_regs" and r: "um_row sc db (tname reg) (Some v) = Some r" "0 \<le> r"
  shows "um_good (dbDeleteRow db (tname reg) r)"
  using um_remove[OF um_ok_inv[OF ok] reg _ r] ok reg um_frame_ok[OF ok] by (auto simp: um_ok_def um_good_def)

lemma um_good_refused:
  assumes ok: "um_ok db" and reg: "reg \<in> set um_regs" and a: "dbAddRow m mo db (tname reg) = Some (db1, r)" "r < 0"
  shows "um_ok db1"
  using um_add_row[OF um_ok_inv[OF ok] reg, of m mo] a um_frame_ok[OF ok, of "tname reg" db1] ok reg
  by (auto simp: um_ok_def um_unique_def)

lemma um_add_outcome:
  assumes ok: "um_ok db" and reg: "reg \<in> set um_regs"
  obtains db1 r where "dbAddRow m mo db (tname reg) = Some (db1, r)" "0 \<le> r"
  | db1 r where "dbAddRow m mo db (tname reg) = Some (db1, r)" "r < 0" "um_ok db1" "refuses m \<or> refuses mo"
  using um_add_row[OF um_ok_inv[OF ok] reg, of m mo] um_good_refused[OF ok reg, of m mo] by fastforce

lemma um_exists_total:
  assumes "um_ok db"
  shows "\<exists>b. umUserExists sc db u = Some b" "\<exists>b. umGroupExists sc db u = Some b" "\<exists>b. umAccessLimitExists sc db u = Some b"
  using um_row_total[OF assms, of userTable sc u] um_row_total[OF assms, of groupTable sc u]
    um_row_total[OF assms, of accessTable sc u]
  by (auto simp: umUserExists_def umGroupExists_def umAccessLimitExists_def um_reg_names)

lemma umAddUser_good:
  assumes ok: "um_ok db"
  shows "um_good (umAddUser sc m mo True db u p g prot dis)"
proof -
  obtain b c where bc: "umUserExists sc db u = Some b" "umGroupExists sc db g = Some c" using um_exists_total[OF ok] by metis
  show ?thesis
  proof (cases "b \<or> \<not> umCheckName u \<or> \<not> umCheckName p \<or> \<not> c")
    case True
    then show ?thesis using bc ok by (auto simp: umAddUser_def)
  next
    case False
    then have h: "umUserExists sc db u = Some False" "umGroupExists sc db g = Some True" "umCheckName u" "umCheckName p"
      using bc by auto
    show ?thesis
    proof (rule um_add_outcome[OF ok um_reg_mem(1), of m mo])
      fix db1 r assume a: "dbAddRow m mo db (tname userTable) = Some (db1, r)" "0 \<le> r"
      show ?thesis using umAddUser_fields[OF ok a h, of prot dis] by (auto simp: um_good_def)
    next
      fix db1 r assume "dbAddRow m mo db (tname userTable) = Some (db1, r)" "r < 0" "um_ok db1"
      then show ?thesis using h by (simp add: umAddUser_def um_reg_names)
    qed
  qed
qed

lemma umAddGroup_good:
  assumes ok: "um_ok db"
  shows "um_good (umAddGroup sc m mo True db g priv am prot dis)"
proof -
  obtain b where b: "umGroupExists sc db g = Some b" using um_exists_total[OF ok] by metis
  show ?thesis
  proof (cases "b \<or> \<not> umCheckName g")
    case True
    then show ?thesis using b ok by (auto simp: umAddGroup_def)
  next
    case False
    then have h: "umGroupExists sc db g = Some False" "umCheckName g" using b by auto
    show ?thesis
    proof (rule um_add_outcome[OF ok um_reg_mem(2), of m mo])
      fix db1 r assume a: "dbAddRow m mo db (tname groupTable) = Some (db1, r)" "0 \<le> r"
      show ?thesis using umAddGroup_fields[OF ok a h, of priv am prot dis] by (auto simp: um_good_def)
    next
      fix db1 r assume "dbAddRow m mo db (tname groupTable) = Some (db1, r)" "r < 0" "um_ok db1"
      then show ?thesis using h by (simp add: umAddGroup_def um_reg_names)
    qed
  qed
qed

lemma umAddAccessLimit_good:
  assumes ok: "um_ok db"
  shows "um_good (umAddAccessLimit sc m mo True db url am secure g)"
proof -
  obtain b where b: "umAccessLimitExists sc db url = Some b" using um_exists_total[OF ok] by metis
  show ?thesis
  proof (cases b)
    case True
    then show ?thesis using b ok by (auto simp: umAddAccessLimit_def)
  next
    case False
    then have h: "umAccessLimitExists sc db url = Some False" using b by auto
    show ?thesis
    proof (rule um_add_outcome[OF ok um_reg_mem(3), of m mo])
      fix db1 r assume a: "dbAddRow m mo db (tname accessTable) = Some (db1, r)" "0 \<le> r"
      show ?thesis using umAddAccessLimit_fields[OF ok a h, of am secure g] by (auto simp: um_good_def)
    next
      fix db1 r assume "dbAddRow m mo db (tname accessTable) = Some (db1, r)" "r < 0" "um_ok db1"
      then show ?thesis using h by (simp add: umAddAccessLimit_def um_reg_names)
    qed
  qed
qed

text \<open>The row of a key in each table, for the operations that start with a search.\<close>

lemma um_rows_total:
  assumes "um_ok db"
  obtains k1 k2 k3 where "um_row sc db UM_USER_TABLENAME (Some v) = Some k1"
    "um_row sc db UM_GROUP_TABLENAME (Some v) = Some k2" "um_row sc db UM_ACCESS_TABLENAME (Some v) = Some k3"
  using um_row_total[OF assms, of userTable sc v] um_row_total[OF assms, of groupTable sc v]
    um_row_total[OF assms, of accessTable sc v] by (auto simp: um_reg_names)

lemmas um_set_goods =
  um_good_set_int[where reg = userTable, simplified um_reg_names, OF _ um_reg_mem(1)]
  um_good_set_int[where reg = groupTable, simplified um_reg_names, OF _ um_reg_mem(2)]
  um_good_set_int[where reg = accessTable, simplified um_reg_names, OF _ um_reg_mem(3)]
  um_good_set_str[where reg = userTable, simplified um_reg_names, OF _ um_reg_mem(1)]
  um_good_set_str[where reg = accessTable, simplified um_reg_names, OF _ um_reg_mem(3)]
  um_good_delete[where reg = userTable, simplified um_reg_names, OF _ um_reg_mem(1)]
  um_good_delete[where reg = groupTable, simplified um_reg_names, OF _ um_reg_mem(2)]
  um_good_delete[where reg = accessTable, simplified um_reg_names, OF _ um_reg_mem(3)]

lemma um_protected_total:
  assumes ok: "um_ok db"
  shows "\<exists>n. umGetUserProtected sc db u = Some n" and "\<exists>n. umGetGroupProtected sc db u = Some n"
    and "\<exists>b. umGetGroupInUse sc db u = Some b"
proof -
  note i = um_ok_inv[OF ok]
  obtain k1 k2 k3 where k: "um_row sc db UM_USER_TABLENAME (Some u) = Some k1"
    "um_row sc db UM_GROUP_TABLENAME (Some u) = Some k2" by (rule um_rows_total[OF ok, of sc u])
  show "\<exists>n. umGetUserProtected sc db u = Some n"
    using um_get_int[OF i um_reg_mem(1), of sc u k1 UM_PROT "Some 0"] k(1)
    by (cases "k1 < 0") (auto simp: umGetUserProtected_def um_reg_names um_user_types)
  show "\<exists>n. umGetGroupProtected sc db u = Some n"
    using um_get_int[OF i um_reg_mem(2), of sc u k2 UM_PROT "Some 0"] k(2)
    by (cases "k2 < 0") (auto simp: umGetGroupProtected_def um_reg_names um_group_types)
  have s: "\<exists>n. dbSearchStr sc db (tname reg) UM_GROUP (Some u) 0 = Some n"
    if r: "reg \<in> set um_regs" "col_type reg UM_GROUP = Some T_STRING" for reg :: dbTable
  proof -
    obtain tb where "db_tab db (tname reg) = Some tb" "same_schema reg tb"
      using i r(1) by (auto simp: um_inv_def has_schema_def)
    then show ?thesis
      using dbSearchStr_spec[of db "tname reg" tb UM_GROUP sc u 0] i r(2) same_schema_cols by (auto simp: um_inv_def)
  qed
  show "\<exists>b. umGetGroupInUse sc db u = Some b"
    using s[of userTable] s[of accessTable] um_user_types(2) um_access_types(3)
    by (auto simp: umGetGroupInUse_def um_reg_names)
qed

lemma um_good_search:
  assumes "um_ok db" "reg \<in> set um_regs" "\<And>r. um_row sc db (tname reg) (Some v) = Some r \<Longrightarrow> um_good (f r)"
  shows "um_good (Option.bind (um_row sc db (tname reg) (Some v)) f)"
  using um_row_total[OF assms(1,2), of sc v] assms(3) by auto

lemmas um_good_searches =
  um_good_search[where reg = userTable, simplified um_reg_names, OF _ um_reg_mem(1)]
  um_good_search[where reg = groupTable, simplified um_reg_names, OF _ um_reg_mem(2)]
  um_good_search[where reg = accessTable, simplified um_reg_names, OF _ um_reg_mem(3)]

lemma um_exec_good: "um_ok db \<Longrightarrow> um_good (um_exec sc m mo db op)"
proof (induction op)
  case (DeleteUser u)
  obtain n k1 where k: "umGetUserProtected sc db u = Some n" "um_row sc db UM_USER_TABLENAME (Some u) = Some k1"
    using um_protected_total(1)[OF DeleteUser] um_rows_total[OF DeleteUser, of sc u] by metis
  then show ?case
    using DeleteUser um_set_goods(6)[OF DeleteUser k(2)] by (auto simp: umDeleteUser_def)
next
  case (DeleteGroup g)
  obtain b n k2 where k: "umGetGroupInUse sc db g = Some b" "umGetGroupProtected sc db g = Some n"
    "um_row sc db UM_GROUP_TABLENAME (Some g) = Some k2"
    using um_protected_total(2,3)[OF DeleteGroup] um_rows_total[OF DeleteGroup, of sc g] by metis
  then show ?case
    using DeleteGroup um_set_goods(7)[OF DeleteGroup k(3)] by (auto simp: umDeleteGroup_def)
qed (auto intro!: umAddUser_good umAddGroup_good umAddAccessLimit_good um_good_searches
    simp: umSetUserPassword_def umSetUserGroup_def umSetUserEnabled_def umSetUserProtected_def
      umSetGroupAccessMethod_def umSetGroupPrivilege_def umSetGroupEnabled_def umSetGroupProtected_def
      umDeleteAccessLimit_def umSetAccessLimitMethod_def umSetAccessLimitSecure_def umSetAccessLimitGroup_def;
    rule um_set_goods; (assumption | simp add: um_user_types um_group_types um_access_types um_not_key))+

lemma um_run_ok: "um_ok db \<Longrightarrow> \<exists>db' rcs. um_run sc m mo db ops = Some (db', rcs) \<and> um_ok db' \<and> length rcs = length ops"
proof (induction ops arbitrary: db)
  case Nil
  then show ?case by simp
next
  case (Cons op ops)
  obtain db1 rc where e: "um_exec sc m mo db op = Some (db1, rc)" "um_ok db1"
    using um_exec_good[OF Cons.prems, of sc m mo op] by (auto simp: um_good_def)
  then show ?case using Cons.IH[OF e(2)] by auto
qed

section \<open>The limit that applies to a URL\<close>

text \<open>The strings \<^verbatim>\<open>umGetAccessLimit\<close> looks up, longest first.\<close>

function um_parents :: "cstring \<Rightarrow> cstring list" where
  "um_parents url = (if url = [] then [] else url # um_parents (um_trim_url url))"
  by pat_completeness auto
termination by (relation "measure length") (auto simp: um_trim_url_length)

declare um_parents.simps [simp del]

lemma um_parents_Nil [simp]: "um_parents [] = []"
  by (simp add: um_parents.simps)

lemma um_parents_Cons: "url \<noteq> [] \<Longrightarrow> um_parents url = url # um_parents (um_trim_url url)"
  by (simp add: um_parents.simps)

lemma um_trim_split:
  obtains b s where "url = um_trim_url url @ b @ s" "\<forall>c\<in>set s. is_slash c" "\<forall>c\<in>set b. \<not> is_slash c"
    "um_trim_url url \<noteq> [] \<longrightarrow> b \<noteq> [] \<and> is_slash (last (um_trim_url url))"
proof -
  let ?r = "rev url"
  let ?s = "takeWhile is_slash ?r" and ?d = "dropWhile is_slash ?r"
  let ?b = "takeWhile (\<lambda>c. \<not> is_slash c) ?d" and ?t = "dropWhile (\<lambda>c. \<not> is_slash c) ?d"
  have "?r = ?s @ ?b @ ?t" by simp
  then have "url = rev ?t @ rev ?b @ rev ?s" by (metis rev_append rev_rev_ident append_assoc)
  then have u: "url = um_trim_url url @ rev ?b @ rev ?s" by (simp add: um_trim_url_def)
  have "rev ?b \<noteq> [] \<and> is_slash (last (um_trim_url url))" if "um_trim_url url \<noteq> []"
  proof -
    have t: "?t \<noteq> []" using that by (simp add: um_trim_url_def)
    then have "?d \<noteq> []" by (metis dropWhile.simps(1))
    then have "\<not> is_slash (hd ?d)" by (rule hd_dropWhile)
    then have "?b \<noteq> []" using \<open>?d \<noteq> []\<close> by (cases ?d) auto
    moreover have "is_slash (hd ?t)" using hd_dropWhile[OF t] by simp
    ultimately show ?thesis using t by (simp add: um_trim_url_def last_rev)
  qed
  moreover have "\<forall>c\<in>set (rev ?s). is_slash c" "\<forall>c\<in>set (rev ?b). \<not> is_slash c" by (auto dest: set_takeWhileD)
  ultimately show ?thesis using that[OF u] by blast
qed

text \<open>A directory prefix ends in a slash that is followed by another character.\<close>

definition dir_prefix :: "cstring \<Rightarrow> cstring \<Rightarrow> bool" where
  "dir_prefix p url \<longleftrightarrow> p \<noteq> [] \<and> (\<exists>c rest. url = p @ c # rest \<and> is_slash (last p) \<and> \<not> is_slash c)"

lemma dir_prefix_trim:
  "dir_prefix p url \<longleftrightarrow> p \<noteq> [] \<and> (p = um_trim_url url \<or> dir_prefix p (um_trim_url url))"
proof -
  obtain b s where u: "url = um_trim_url url @ b @ s" "\<forall>c\<in>set s. is_slash c" "\<forall>c\<in>set b. \<not> is_slash c"
    "um_trim_url url \<noteq> [] \<longrightarrow> b \<noteq> [] \<and> is_slash (last (um_trim_url url))"
    by (rule um_trim_split[of url])
  let ?t = "um_trim_url url"
  show ?thesis
  proof
    assume "dir_prefix p url"
    then obtain c rest where p: "p \<noteq> []" "url = p @ c # rest" "is_slash (last p)" "\<not> is_slash c"
      by (auto simp: dir_prefix_def)
    have e: "?t @ b @ s = p @ c # rest" using u(1) p(2) by simp
    then consider us where "?t = p @ us" "us @ b @ s = c # rest" | us where "?t @ us = p" "b @ s = us @ c # rest"
      by (auto simp: append_eq_append_conv2)
    then show "p \<noteq> [] \<and> (p = ?t \<or> dir_prefix p ?t)"
    proof cases
      case 1
      then show ?thesis using p by (cases us) (auto simp: dir_prefix_def)
    next
      case 2
      have "us = []"
      proof (rule ccontr)
        assume ne: "us \<noteq> []"
        then have l: "is_slash (last us)" using 2(1) p(3) by auto
        from 2(2) consider vs where "b = us @ vs" "vs @ s = c # rest" | vs where "b @ vs = us" "s = vs @ c # rest"
          by (auto simp: append_eq_append_conv2)
        then show False
        proof cases
          case 1
          then show ?thesis using u(3) l ne by auto
        next
          case 2
          then show ?thesis using u(2) p(4) by auto
        qed
      qed
      then show ?thesis using 2(1) p(1) by simp
    qed
  next
    assume a: "p \<noteq> [] \<and> (p = ?t \<or> dir_prefix p ?t)"
    then have t: "?t \<noteq> []" by (auto simp: dir_prefix_def)
    then obtain c b' where "b = c # b'" "\<not> is_slash c" using u(3,4) by (cases b) auto
    then have url: "url = ?t @ c # (b' @ s)" using u(1) by simp
    show "dir_prefix p url"
    proof (cases "p = ?t")
      case True
      then show ?thesis using url u(4) t \<open>\<not> is_slash c\<close> by (auto simp: dir_prefix_def)
    next
      case False
      then obtain c' rest where "?t = p @ c' # rest" "is_slash (last p)" "\<not> is_slash c'"
        using a by (auto simp: dir_prefix_def)
      then show ?thesis using url a by (auto simp: dir_prefix_def)
    qed
  qed
qed

lemma um_parents_iff: "p \<in> set (um_parents url) \<longleftrightarrow> p \<noteq> [] \<and> (p = url \<or> dir_prefix p url)"
proof (induction url rule: um_parents.induct)
  case (1 url)
  show ?case
  proof (cases "url = []")
    case True
    then show ?thesis by (simp add: dir_prefix_def)
  next
    case False
    then show ?thesis using 1 dir_prefix_trim[of p url] by (auto simp: um_parents_Cons)
  qed
qed

lemma um_parents_sorted: "sorted_wrt (\<lambda>p q. length q < length p) (um_parents url)"
proof (induction url rule: um_parents.induct)
  case (1 url)
  have "length q < length url" if "url \<noteq> []" "q \<in> set (um_parents (um_trim_url url))" for q
  proof -
    have "length q \<le> length (um_trim_url url)" using that(2) by (auto simp: um_parents_iff dir_prefix_def)
    then show ?thesis using um_trim_url_length[OF that(1)] by simp
  qed
  then show ?case using 1 by (cases "url = []") (auto simp: um_parents_Cons)
qed

lemma umAccessLimitExists_field:
  assumes "um_inv db"
  shows "umAccessLimitExists sc db u = Some (um_field sc UM_ACCESS_TABLENAME db u UM_NAME \<noteq> None)"
  using um_exists_iff[OF assms um_reg_mem(3), of sc u] by (auto simp: umAccessLimitExists_def um_reg_names)

lemma umGetAccessLimit_find:
  assumes "um_inv db"
  shows "umGetAccessLimit sc True db url =
     Some (find (\<lambda>u. um_field sc UM_ACCESS_TABLENAME db u UM_NAME \<noteq> None) (um_parents url))"
proof (induction url rule: um_parents.induct)
  case (1 url)
  then show ?case
    by (cases "url = []")
      (simp_all add: umGetAccessLimit.simps[of sc True db url] umGetAccessLimit.simps[of sc True db "[]"] umAccessLimitExists_field[OF assms] um_parents_Cons)
qed

section \<open>Getters\<close>

definition int_or :: "int \<Rightarrow> cell option \<Rightarrow> int" where
  "int_or d x = (case x of Some (CInt n) \<Rightarrow> n | _ \<Rightarrow> d)"

definition str_of :: "cell option \<Rightarrow> cstring option" where
  "str_of x = (case x of Some (CStr s) \<Rightarrow> Some s | _ \<Rightarrow> None)"

lemma um_get_int_or:
  assumes i: "um_inv db" and reg: "reg \<in> set um_regs" and c: "col_type reg c = Some T_INT"
  obtains k where "um_row sc db (tname reg) (Some v) = Some k"
    "(if k \<ge> 0 then um_read_int db (tname reg) c k x0 else Some d) = Some (int_or d (um_field sc (tname reg) db v c))"
proof -
  obtain k where k: "um_row sc db (tname reg) (Some v) = Some k" using um_row_cases[OF i reg] by blast
  have "(if k \<ge> 0 then um_read_int db (tname reg) c k x0 else Some d) = Some (int_or d (um_field sc (tname reg) db v c))"
  proof (cases "k < 0")
    case True
    then show ?thesis using k by (simp add: um_field_def int_or_def)
  next
    case False
    then show ?thesis using um_get_int[OF i reg k _ c, of x0] by (auto simp: int_or_def)
  qed
  then show ?thesis using that k by blast
qed

lemma um_get_str_of:
  assumes i: "um_inv db" and reg: "reg \<in> set um_regs" and c: "col_type reg c = Some T_STRING"
  obtains k where "um_row sc db (tname reg) (Some v) = Some k"
    "(if k \<ge> 0 then um_read_str db (tname reg) c k else Some None) = Some (str_of (um_field sc (tname reg) db v c))"
    "k \<ge> 0 \<longleftrightarrow> um_field sc (tname reg) db v UM_NAME \<noteq> None"
proof -
  obtain k where k: "um_row sc db (tname reg) (Some v) = Some k" "0 \<le> k \<longleftrightarrow> um_field sc (tname reg) db v UM_NAME \<noteq> None"
    using um_exists_iff[OF i reg, of sc v] by fastforce
  have "(if k \<ge> 0 then um_read_str db (tname reg) c k else Some None) = Some (str_of (um_field sc (tname reg) db v c))"
  proof (cases "k < 0")
    case True
    then show ?thesis using k by (simp add: um_field_def str_of_def)
  next
    case False
    then obtain x p where "um_field sc (tname reg) db v c = Some x" "cell_ptr x = Some p"
      "um_read_str db (tname reg) c k = Some p"
      using um_get_str[OF i reg k(1) _ c] by auto
    then show ?thesis using False by (cases x) (auto simp: str_of_def cell_ptr_def split: if_splits)
  qed
  then show ?thesis using that k by blast
qed

lemma um_user_getters:
  assumes i: "um_inv db"
  shows "umUserExists sc db u = Some (um_field sc UM_USER_TABLENAME db u UM_NAME \<noteq> None)"
    and "umGetUserEnabled sc db u = Some (c_not (int_or 1 (um_field sc UM_USER_TABLENAME db u UM_DISABLE)))"
    and "umGetUserProtected sc db u = Some (c_short (int_or 0 (um_field sc UM_USER_TABLENAME db u UM_PROT)))"
    and "umGetUserGroup sc db u = Some (str_of (um_field sc UM_USER_TABLENAME db u UM_GROUP))"
    and "umGetUserPassword sc True db u =
       Some (if um_field sc UM_USER_TABLENAME db u UM_NAME = None then None
             else Some (um_encrypt UM_XOR_ENCRYPT
               (case str_of (um_field sc UM_USER_TABLENAME db u UM_PASS) of Some p \<Rightarrow> p | None \<Rightarrow> [])))"
proof -
  note g = um_get_int_or[OF i um_reg_mem(1), unfolded um_reg_names] and h = um_get_str_of[OF i um_reg_mem(1), unfolded um_reg_names]
  show "umUserExists sc db u = Some (um_field sc UM_USER_TABLENAME db u UM_NAME \<noteq> None)"
    using um_exists_iff[OF i um_reg_mem(1), of sc u] by (auto simp: umUserExists_def um_reg_names)
  show "umGetUserEnabled sc db u = Some (c_not (int_or 1 (um_field sc UM_USER_TABLENAME db u UM_DISABLE)))"
    by (rule g[OF um_user_types(4), of sc u "Some 1" 1]) (simp add: umGetUserEnabled_def)
  show "umGetUserProtected sc db u = Some (c_short (int_or 0 (um_field sc UM_USER_TABLENAME db u UM_PROT)))"
    by (rule g[OF um_user_types(3), of sc u "Some 0" 0]) (simp add: umGetUserProtected_def)
  show "umGetUserGroup sc db u = Some (str_of (um_field sc UM_USER_TABLENAME db u UM_GROUP))"
    by (rule h[OF um_user_types(2), of sc u]) (simp add: umGetUserGroup_def)
  show "umGetUserPassword sc True db u =
       Some (if um_field sc UM_USER_TABLENAME db u UM_NAME = None then None
             else Some (um_encrypt UM_XOR_ENCRYPT
               (case str_of (um_field sc UM_USER_TABLENAME db u UM_PASS) of Some p \<Rightarrow> p | None \<Rightarrow> [])))"
    by (rule h[OF um_user_types(1), of sc u]) (auto simp: umGetUserPassword_def umEncryptString_def split: if_splits)
qed

lemma um_group_getters:
  assumes i: "um_inv db"
  shows "umGroupExists sc db g = Some (um_field sc UM_GROUP_TABLENAME db g UM_NAME \<noteq> None)"
    and "umGetGroupEnabled sc db (Some g) = Some (c_not (int_or 1 (um_field sc UM_GROUP_TABLENAME db g UM_DISABLE)))"
    and "umGetGroupPrivilege sc db (Some g) = Some (c_short (int_or (-1) (um_field sc UM_GROUP_TABLENAME db g UM_PRIVILEGE)))"
    and "umGetGroupAccessMethod sc db (Some g) = Some (int_or (am_int AM_INVALID) (um_field sc UM_GROUP_TABLENAME db g UM_METHOD))"
proof -
  note h = um_get_int_or[OF i um_reg_mem(2), unfolded um_reg_names]
  show "umGroupExists sc db g = Some (um_field sc UM_GROUP_TABLENAME db g UM_NAME \<noteq> None)"
    using um_exists_iff[OF i um_reg_mem(2), of sc g] by (auto simp: umGroupExists_def um_reg_names)
  show "umGetGroupEnabled sc db (Some g) = Some (c_not (int_or 1 (um_field sc UM_GROUP_TABLENAME db g UM_DISABLE)))"
    by (rule h[OF um_group_types(4), of sc g "Some 1" 1]) (simp add: umGetGroupEnabled_def)
  show "umGetGroupPrivilege sc db (Some g) = Some (c_short (int_or (-1) (um_field sc UM_GROUP_TABLENAME db g UM_PRIVILEGE)))"
    by (rule h[OF um_group_types(1), of sc g "Some (-1)" "-1"]) (simp add: umGetGroupPrivilege_def)
  show "umGetGroupAccessMethod sc db (Some g) = Some (int_or (am_int AM_INVALID) (um_field sc UM_GROUP_TABLENAME db g UM_METHOD))"
    by (rule h[OF um_group_types(2), of sc g None "am_int AM_INVALID"]) (simp add: umGetGroupAccessMethod_def)
qed

lemma um_access_getters:
  assumes i: "um_inv db"
  shows "umGetAccessLimitMethod sc db u = Some (int_or (am_int AM_INVALID) (um_field sc UM_ACCESS_TABLENAME db u UM_METHOD))"
    and "umGetAccessLimitSecure sc db u = Some (c_short (int_or (-1) (um_field sc UM_ACCESS_TABLENAME db u UM_SECURE)))"
    and "umGetAccessLimitGroup sc db u = Some (str_of (um_field sc UM_ACCESS_TABLENAME db u UM_GROUP))"
proof -
  note g = um_get_int_or[OF i um_reg_mem(3), unfolded um_reg_names] and h = um_get_str_of[OF i um_reg_mem(3), unfolded um_reg_names]
  show "umGetAccessLimitMethod sc db u = Some (int_or (am_int AM_INVALID) (um_field sc UM_ACCESS_TABLENAME db u UM_METHOD))"
    by (rule g[OF um_access_types(1), of sc u "Some (am_int AM_INVALID)" "am_int AM_INVALID"]) (simp add: umGetAccessLimitMethod_def)
  show "umGetAccessLimitSecure sc db u = Some (c_short (int_or (-1) (um_field sc UM_ACCESS_TABLENAME db u UM_SECURE)))"
    by (rule g[OF um_access_types(2), of sc u "Some (-1)" "-1"]) (simp add: umGetAccessLimitSecure_def)
  show "umGetAccessLimitGroup sc db u = Some (str_of (um_field sc UM_ACCESS_TABLENAME db u UM_GROUP))"
    by (rule h[OF um_access_types(3), of sc u]) (simp add: umGetAccessLimitGroup_def)
qed

section \<open>Enumerating the records\<close>

text \<open>The keys of a table that are not empty, in row order.\<close>

definition um_key_at :: "dbTable \<Rightarrow> int \<Rightarrow> cstring list" where
  "um_key_at tb r = (case tab_cell tb r UM_NAME of Some (CStr s) \<Rightarrow> if s = [] then [] else [s] | _ \<Rightarrow> [])"

fun um_keys_from :: "dbTable \<Rightarrow> int \<Rightarrow> nat \<Rightarrow> cstring list" where
  "um_keys_from tb r 0 = []"
| "um_keys_from tb r (Suc n) = um_key_at tb r @ um_keys_from tb (r + 1) n"

definition um_keys :: "dbstate \<Rightarrow> cstring \<Rightarrow> cstring list" where
  "um_keys db t = (case db_tab db t of Some tb \<Rightarrow> um_keys_from tb 0 (nat (nRows tb)) | None \<Rightarrow> [])"

definition hd_opt :: "'a list \<Rightarrow> 'a option" where
  "hd_opt xs = (case xs of [] \<Rightarrow> None | x # _ \<Rightarrow> Some x)"

lemma hd_opt_simps [simp]: "hd_opt [] = None" "hd_opt (x # xs) = Some x"
  by (simp_all add: hd_opt_def)

text \<open>What one read of the key column gives: past the end, a deleted row, or a cell that is null or a string.\<close>

lemma um_key_read:
  assumes i: "um_inv db" and reg: "reg \<in> set um_regs" and tb: "db_tab db (tname reg) = Some tb" and r: "0 \<le> r"
  shows "r \<ge> nRows tb \<and> dbReadStr db (tname reg) UM_NAME r = Some (DB_ERR_ROW_NOT_FOUND, None) \<or>
     r < nRows tb \<and> um_key_at tb r = [] \<and> tab_cell tb r UM_NAME = None \<and> dbReadStr db (tname reg) UM_NAME r = Some (DB_ERR_ROW_DELETED, None) \<or>
     r < nRows tb \<and> um_key_at tb r = [] \<and> (\<exists>x. tab_cell tb r UM_NAME = Some x \<and> cell_ptr x \<in> {Some None, Some (Some [])} \<and> dbReadStr db (tname reg) UM_NAME r = Some (0, Some x)) \<or>
     r < nRows tb \<and> (\<exists>s. s \<noteq> [] \<and> um_key_at tb r = [s] \<and> tab_cell tb r UM_NAME = Some (CStr s) \<and> dbReadStr db (tname reg) UM_NAME r = Some (0, Some (CStr s)))"
proof -
  have di: "db_inv db" using i by (simp add: um_inv_def)
  obtain tb' where "db_tab db (tname reg) = Some tb'" "same_schema reg tb'"
    using i reg by (auto simp: um_inv_def has_schema_def)
  then have ss: "same_schema reg tb" using tb by simp
  have ct: "col_type tb UM_NAME = Some T_STRING" using same_schema_cols[OF ss] um_reg_schema reg by simp
  then have cn: "UM_NAME \<in> set (columnNames tb)" by (auto simp: col_type_def split: if_splits)
  note rd = dbReadInt_spec[OF di tb, of UM_NAME r]
  show ?thesis
  proof (cases "tab_cell tb r UM_NAME")
    case None
    then show ?thesis using rd r cn by (auto simp: um_key_at_def)
  next
    case (Some x)
    then have "cell_str x" using string_cell[OF db_tab_ok[OF di tb] _ ct] by simp
    moreover have "r < nRows tb"
      using Some row_read(7)[OF db_tab_ok[OF di tb]] cn by (auto simp: tab_cell_def split: if_splits)
    ultimately show ?thesis
      using Some rd r cn by (cases x) (auto simp: um_key_at_def cell_str_def cell_ptr_def)
  qed
qed

lemma um_first_loop_spec:
  assumes i: "um_inv db" and reg: "reg \<in> set um_regs" and tb: "db_tab db (tname reg) = Some tb"
  shows "0 \<le> r \<Longrightarrow> nat (nRows tb - r) = n \<Longrightarrow> cell_ptr d \<in> {Some None, Some (Some [])} \<Longrightarrow>
     um_first_loop db (tname reg) UM_NAME r d = Some (hd_opt (um_keys_from tb r n))"
proof (induction n arbitrary: r d)
  case 0
  then show ?case
    using um_key_read[OF i reg tb, of r] by (subst um_first_loop.simps) (auto simp: DB_ERR_ROW_NOT_FOUND_def DB_ERR_ROW_DELETED_def)
next
  case (Suc n)
  have IH: "cell_ptr d' \<in> {Some None, Some (Some [])} \<Longrightarrow>
      um_first_loop db (tname reg) UM_NAME (r + 1) d' = Some (hd_opt (um_keys_from tb (r + 1) n))" for d'
    using Suc.IH[of "r + 1" d'] Suc.prems by simp
  have "r < nRows tb" using Suc.prems by simp
  then consider (del) "um_key_at tb r = []" "dbReadStr db (tname reg) UM_NAME r = Some (DB_ERR_ROW_DELETED, None)"
    | (blank) x where "um_key_at tb r = []" "cell_ptr x \<in> {Some None, Some (Some [])}" "dbReadStr db (tname reg) UM_NAME r = Some (0, Some x)"
    | (key) v where "v \<noteq> []" "um_key_at tb r = [v]" "dbReadStr db (tname reg) UM_NAME r = Some (0, Some (CStr v))"
    using um_key_read[OF i reg tb Suc.prems(1)] by fastforce
  then show ?case
  proof cases
    case del
    then show ?thesis using IH[of d] Suc.prems(3) by (subst um_first_loop.simps) auto
  next
    case blank
    then show ?thesis using IH[of x] by (subst um_first_loop.simps) auto
  next
    case key
    then show ?thesis by (subst um_first_loop.simps) (simp add: cell_ptr_def)
  qed
qed

text \<open>The second loop passes over \<open>keyLast\<close>, which no later row holds.\<close>

lemma um_next_loop_spec:
  assumes i: "um_inv db" and reg: "reg \<in> set um_regs" and tb: "db_tab db (tname reg) = Some tb"
  shows "0 \<le> r \<Longrightarrow> nat (nRows tb - r) = n \<Longrightarrow> cell_ptr d \<in> {Some None, Some (Some []), Some (Some k)} \<Longrightarrow>
     (\<forall>q\<ge>r. tab_cell tb q UM_NAME \<noteq> Some (CStr k)) \<Longrightarrow>
     um_next_loop db (tname reg) UM_NAME k r d = Some (hd_opt (um_keys_from tb r n))"
proof (induction n arbitrary: r d)
  case 0
  then show ?case
    using um_key_read[OF i reg tb, of r] by (subst um_next_loop.simps) (auto simp: DB_ERR_ROW_NOT_FOUND_def DB_ERR_ROW_DELETED_def)
next
  case (Suc n)
  have IH: "cell_ptr d' \<in> {Some None, Some (Some []), Some (Some k)} \<Longrightarrow>
      um_next_loop db (tname reg) UM_NAME k (r + 1) d' = Some (hd_opt (um_keys_from tb (r + 1) n))" for d'
    using Suc.IH[of "r + 1" d'] Suc.prems by simp
  have "r < nRows tb" using Suc.prems by simp
  then consider (del) "um_key_at tb r = []" "dbReadStr db (tname reg) UM_NAME r = Some (DB_ERR_ROW_DELETED, None)"
    | (blank) x where "um_key_at tb r = []" "cell_ptr x \<in> {Some None, Some (Some [])}" "dbReadStr db (tname reg) UM_NAME r = Some (0, Some x)"
    | (key) v where "v \<noteq> []" "v \<noteq> k" "um_key_at tb r = [v]" "dbReadStr db (tname reg) UM_NAME r = Some (0, Some (CStr v))"
    using um_key_read[OF i reg tb Suc.prems(1)] Suc.prems(4) by fastforce
  then show ?case
  proof cases
    case del
    then show ?thesis using IH[of d] Suc.prems(3) by (subst um_next_loop.simps) auto
  next
    case blank
    then show ?thesis using IH[of x] by (subst um_next_loop.simps) auto
  next
    case key
    then show ?thesis by (subst um_next_loop.simps) (simp add: cell_ptr_def)
  qed
qed

lemma row_at_bound:
  assumes "um_inv db" "reg \<in> set um_regs" "db_tab db (tname reg) = Some tb" "tab_cell tb j c = Some x"
  shows "0 \<le> j" and "j < nRows tb"
proof -
  have "tbl_ok tb" using db_tab_ok assms(1,3) by (auto simp: um_inv_def)
  then show "0 \<le> j" "j < nRows tb"
    using assms(4) row_read(6,7) by (auto simp: tab_cell_def split: if_splits)
qed

text \<open>The first loop stops at the first row that holds the key.\<close>

lemma um_seek_loop_spec:
  assumes i: "um_inv db" and reg: "reg \<in> set um_regs" and tb: "db_tab db (tname reg) = Some tb"
    and k: "tab_cell tb j UM_NAME = Some (CStr k)" and kne: "k \<noteq> []"
  shows "0 \<le> r \<Longrightarrow> r \<le> j \<Longrightarrow> nat (j - r) = n \<Longrightarrow> (\<forall>q. r \<le> q \<and> q < j \<longrightarrow> tab_cell tb q UM_NAME \<noteq> Some (CStr k)) \<Longrightarrow>
     (\<exists>p. cell_ptr d = Some p \<and> p \<noteq> Some k) \<Longrightarrow>
     um_seek_loop db (tname reg) UM_NAME k r d = Some (j + 1, CStr k)"
proof (induction n arbitrary: r d)
  case 0
  then have "r = j" by simp
  then show ?case using um_key_read[OF i reg tb, of r] k kne 0(1) row_at_bound[OF i reg tb k]
    by (subst um_seek_loop.simps) (auto simp: cell_ptr_def um_key_at_def)
next
  case (Suc n)
  have "r < j" "r < nRows tb" using Suc.prems row_at_bound[OF i reg tb k] by auto
  then consider (del) "dbReadStr db (tname reg) UM_NAME r = Some (DB_ERR_ROW_DELETED, None)"
    | (cell) x p where "cell_ptr x = Some p" "p \<noteq> Some k" "dbReadStr db (tname reg) UM_NAME r = Some (0, Some x)"
    using um_key_read[OF i reg tb Suc.prems(1)] Suc.prems(4) kne by (fastforce simp: cell_ptr_def)
  then show ?case
  proof cases
    case del
    then show ?thesis using Suc.IH[of "r + 1" d] Suc.prems \<open>r < j\<close> by (subst um_seek_loop.simps) auto
  next
    case cell
    then show ?thesis using Suc.IH[of "r + 1" x] Suc.prems \<open>r < j\<close> by (subst um_seek_loop.simps) auto
  qed
qed

lemma um_keys_from_split:
  "um_keys_from tb r n = xs @ k # ys \<Longrightarrow>
     \<exists>j m. r \<le> j \<and> j + 1 + int m = r + int n \<and> tab_cell tb j UM_NAME = Some (CStr k) \<and> k \<noteq> [] \<and> ys = um_keys_from tb (j + 1) m"
proof (induction n arbitrary: r xs)
  case 0
  then show ?case by simp
next
  case (Suc n)
  show ?case
  proof (cases "um_key_at tb r = [] \<or> xs \<noteq> []")
    case True
    have "\<exists>zs. um_keys_from tb (r + 1) n = zs @ k # ys"
      using True Suc.prems by (cases xs) (auto simp: um_key_at_def split: option.splits cell.splits if_splits)
    then obtain j m where "r + 1 \<le> j" "j + 1 + int m = r + 1 + int n" "tab_cell tb j UM_NAME = Some (CStr k)" "k \<noteq> []"
      "ys = um_keys_from tb (j + 1) m" using Suc.IH by blast
    then show ?thesis by (intro exI[of _ j] exI[of _ m]) simp
  next
    case False
    then show ?thesis
      using Suc.prems by (intro exI[of _ r] exI[of _ n]) (auto simp: um_key_at_def split: option.splits cell.splits if_splits)
  qed
qed

lemma um_keys_from_mem:
  "v \<in> set (um_keys_from tb r n) \<longleftrightarrow> v \<noteq> [] \<and> (\<exists>j. r \<le> j \<and> j < r + int n \<and> tab_cell tb j UM_NAME = Some (CStr v))"
proof (induction n arbitrary: r)
  case 0
  then show ?case by auto
next
  case (Suc n)
  have here: "v \<in> set (um_key_at tb r) \<longleftrightarrow> v \<noteq> [] \<and> tab_cell tb r UM_NAME = Some (CStr v)"
    by (cases "tab_cell tb r UM_NAME"; simp add: um_key_at_def split: cell.split; blast)
  have rng: "r \<le> j \<and> j < r + int (Suc n) \<longleftrightarrow> j = r \<or> r + 1 \<le> j \<and> j < r + 1 + int n" for j by auto
  show ?case unfolding um_keys_from.simps set_append Un_iff here Suc.IH conj_assoc[symmetric] rng by blast
qed

lemma um_keys_from_distinct:
  "(\<forall>v q q'. tab_cell tb q UM_NAME = Some (CStr v) \<and> tab_cell tb q' UM_NAME = Some (CStr v) \<longrightarrow> q = q') \<Longrightarrow>
     distinct (um_keys_from tb r n)"
proof (induction n arbitrary: r)
  case (Suc n)
  have "v \<notin> set (um_keys_from tb (r + 1) n)" if v: "v \<in> set (um_key_at tb r)" for v
  proof
    assume "v \<in> set (um_keys_from tb (r + 1) n)"
    then obtain j where "r + 1 \<le> j" "tab_cell tb j UM_NAME = Some (CStr v)" by (auto simp: um_keys_from_mem)
    moreover have "tab_cell tb r UM_NAME = Some (CStr v)"
      using v by (auto simp: um_key_at_def split: option.splits cell.splits if_splits)
    ultimately have "j = r" using Suc.prems by blast
    then show False using \<open>r + 1 \<le> j\<close> by simp
  qed
  then have "set (um_key_at tb r) \<inter> set (um_keys_from tb (r + 1) n) = {}" by blast
  moreover have "distinct (um_key_at tb r)" by (auto simp: um_key_at_def split: option.splits cell.splits)
  ultimately show ?case using Suc by auto
qed simp

section \<open>Properties\<close>

abbreviation granted :: balloc_env where
  "granted \<equiv> \<lambda>_. Some (\<lambda>_. CHR 0x00)"

lemma granted [simp]: "\<not> refuses granted"
  by (simp add: refuses_def)

text \<open>
  The password mask is its own inverse on text without white space (and without NUL):
  encrypting twice gives the text back, so a stored password can be read again.
\<close>

theorem umEncryptString_involutive:
  assumes "umCheckName s" and "CHR 0x00 \<notin> set s"
  shows "fst (umEncryptString (fst (umEncryptString s))) = s"
proof -
  have "\<forall>c\<in>set s. c \<noteq> CHR 0x00 \<and> \<not> c_isspace c" using assms by (auto simp: umCheckName_def list_all_iff)
  then show ?thesis using um_encrypt_twice by (simp add: umEncryptString_def)
qed

theorem umEncryptString_involutive_witness:
  "fst (umEncryptString ''Secret7'') \<noteq> ''Secret7'' \<and> fst (umEncryptString (fst (umEncryptString ''Secret7''))) = ''Secret7''"
proof -
  have "umCheckName ''Secret7''" by (simp add: umCheckName_def c_isspace_def c_uchar_def)
  moreover have "CHR 0x00 \<notin> set ''Secret7''" by simp
  moreover have "fst (umEncryptString ''Secret7'') \<noteq> ''Secret7''" by code_simp
  ultimately show ?thesis using umEncryptString_involutive[of "''Secret7''"] by blast
qed

text \<open>
  Opening the user manager from its initial state, with the allocations granted, returns the
  database identifier 0 and registers the three tables, empty and with their schemas; the
  records are then well-formed.
\<close>

theorem umOpen_registers:
  assumes "umOpenCount st = 0" and "didUM st = -1" and "\<not> refuses m" and "\<not> refuses mo"
  shows "\<exists>st'. umOpen m mo True st = Some (st', 0) \<and> umOpenCount st' = 1 \<and> saveFilename st' \<noteq> None \<and>
     um_ok (umdb st') \<and> (\<forall>reg\<in>set um_regs. db_tab (umdb st') (tname reg) = Some reg)"
  by (rule umOpen_spec[OF assms])

theorem umOpen_registers_witness:
  "\<exists>st'. umOpen granted granted True um_init = Some (st', 0) \<and> db_tab (umdb st') ''users'' = Some userTable"
proof -
  have "tname userTable = ''users''" by (simp add: userTable_def um_tables)
  then show ?thesis
    using umOpen_registers[of um_init granted granted] by (fastforce simp: um_init_def um_regs_def)
qed

text \<open>
  C36. Adding a user whose name is new, whose name and password pass the check and whose group
  exists, with the allocations granted, returns 0; then the user exists, the password reads
  back in clear, and group, protection and enabled state are the given ones; every field of
  every other user, group and access limit is as before, and no key occurs twice.
\<close>

theorem umAddUser_reads_back:
  assumes "um_ok db" and "\<not> refuses m" and "\<not> refuses mo"
    and "umUserExists sc db user = Some False" and "umGroupExists sc db grp = Some True"
    and "umCheckName user" and "umCheckName pass" and "CHR 0x00 \<notin> set pass"
  shows "\<exists>db'. umAddUser sc m mo True db user pass grp prot disabled = Some (db', 0) \<and> um_ok db' \<and>
     umUserExists sc db' user = Some True \<and> umGetUserPassword sc True db' user = Some (Some pass) \<and>
     umGetUserGroup sc db' user = Some (Some grp) \<and> umGetUserProtected sc db' user = Some (c_short prot) \<and>
     umGetUserEnabled sc db' user = Some (c_not disabled) \<and>
     (\<forall>v c. v \<noteq> user \<longrightarrow> um_field sc UM_USER_TABLENAME db' v c = um_field sc UM_USER_TABLENAME db v c) \<and>
     (\<forall>t. t \<noteq> UM_USER_TABLENAME \<longrightarrow> db_tab db' t = db_tab db t)"
proof -
  obtain db1 r where add: "dbAddRow m mo db (tname userTable) = Some (db1, r)" "0 \<le> r"
    using um_add_row[OF um_ok_inv[OF assms(1)], of userTable m mo] assms(2,3) by auto
  obtain db' where d: "umAddUser sc m mo True db user pass grp prot disabled = Some (db', 0)" "um_ok db'"
    "um_frame UM_USER_TABLENAME db db'" "um_field sc UM_USER_TABLENAME db' user UM_NAME = Some (CStr user)"
    "um_field sc UM_USER_TABLENAME db' user UM_PASS = Some (CStr (um_encrypt UM_XOR_ENCRYPT pass))"
    "um_field sc UM_USER_TABLENAME db' user UM_GROUP = Some (CStr grp)"
    "um_field sc UM_USER_TABLENAME db' user UM_PROT = Some (CInt prot)"
    "um_field sc UM_USER_TABLENAME db' user UM_DISABLE = Some (CInt disabled)"
    "\<forall>v c. v \<noteq> user \<longrightarrow> um_field sc UM_USER_TABLENAME db' v c = um_field sc UM_USER_TABLENAME db v c"
    using umAddUser_fields[OF assms(1) add assms(4-7), of prot disabled] by blast
  have p: "um_encrypt UM_XOR_ENCRYPT (um_encrypt UM_XOR_ENCRYPT pass) = pass"
    using assms(7,8) by (intro um_encrypt_twice) (auto simp: umCheckName_def list_all_iff)
  show ?thesis
    using d p um_user_getters[OF um_ok_inv[OF d(2)], of sc user]
    by (intro exI[of _ db']) (auto simp: str_of_def int_or_def um_frame_def)
qed

lemma um_with_group_fields:
  "\<exists>db. um_ok db \<and> um_row sc db UM_USER_TABLENAME (Some v) = Some (-1) \<and> (\<forall>u. um_row sc db UM_ACCESS_TABLENAME (Some u) = Some (-1)) \<and>
     um_field sc UM_GROUP_TABLENAME db ''ops'' UM_NAME = Some (CStr ''ops'') \<and>
     um_field sc UM_GROUP_TABLENAME db ''ops'' UM_PRIVILEGE = Some (CInt 1) \<and>
     um_field sc UM_GROUP_TABLENAME db ''ops'' UM_METHOD = Some (CInt (am_int AM_FULL)) \<and>
     um_field sc UM_GROUP_TABLENAME db ''ops'' UM_DISABLE = Some (CInt 0)"
proof -
  obtain db0 where db0: "um_ok db0" "\<And>reg v. reg \<in> set um_regs \<Longrightarrow> um_row sc db0 (tname reg) (Some v) = Some (-1)"
    using um_ok_exists by blast
  have g: "umGroupExists sc db0 ''ops'' = Some False"
    using db0(2)[of groupTable "''ops''"] by (simp add: umGroupExists_def um_reg_names)
  obtain db1 r where add: "dbAddRow granted granted db0 (tname groupTable) = Some (db1, r)" "0 \<le> r"
    using um_add_row[OF um_ok_inv[OF db0(1)], of groupTable granted granted] by auto
  have "umCheckName ''ops''" by (simp add: umCheckName_def c_isspace_def c_uchar_def)
  then obtain db where db: "um_ok db" "um_frame UM_GROUP_TABLENAME db0 db"
    "um_field sc UM_GROUP_TABLENAME db ''ops'' UM_NAME = Some (CStr ''ops'')"
    "um_field sc UM_GROUP_TABLENAME db ''ops'' UM_PRIVILEGE = Some (CInt 1)"
    "um_field sc UM_GROUP_TABLENAME db ''ops'' UM_METHOD = Some (CInt (am_int AM_FULL))"
    "um_field sc UM_GROUP_TABLENAME db ''ops'' UM_DISABLE = Some (CInt 0)"
    using umAddGroup_fields[OF db0(1) add g, of 1 AM_FULL 0 0] by blast
  have "um_row sc db UM_USER_TABLENAME (Some v) = Some (-1)" "um_row sc db UM_ACCESS_TABLENAME (Some u) = Some (-1)" for u
    using um_frame_other(1)[OF db(2) _ um_ok_inv[OF db0(1)], of UM_USER_TABLENAME userTable]
      um_frame_other(1)[OF db(2) _ um_ok_inv[OF db0(1)], of UM_ACCESS_TABLENAME accessTable]
      db0(2)[of userTable v] db0(2)[of accessTable u] um_table_names by (auto simp: um_reg_names)
  then show ?thesis using db by blast
qed

lemma um_with_group:
  "\<exists>db. um_ok db \<and> umGroupExists sc db ''ops'' = Some True \<and> umUserExists sc db ''eve'' = Some False \<and>
     umAccessLimitExists sc db ''/'' = Some False"
proof -
  obtain db where db: "um_ok db" "um_row sc db UM_USER_TABLENAME (Some ''eve'') = Some (-1)"
    "um_row sc db UM_ACCESS_TABLENAME (Some ''/'') = Some (-1)"
    "um_field sc UM_GROUP_TABLENAME db ''ops'' UM_NAME = Some (CStr ''ops'')"
    using um_with_group_fields by blast
  then show ?thesis
    using um_group_getters(1)[OF um_ok_inv[OF db(1)], of sc "''ops''"]
    by (auto simp: umUserExists_def umAccessLimitExists_def)
qed

theorem umAddUser_reads_back_witness:
  "\<exists>db db'. um_ok db \<and> umAddUser True granted granted True db ''eve'' ''pw1'' ''ops'' 0 0 = Some (db', 0) \<and>
     umGetUserPassword True True db' ''eve'' = Some (Some ''pw1'')"
proof -
  obtain db where db: "um_ok db" "umGroupExists True db ''ops'' = Some True" "umUserExists True db ''eve'' = Some False"
    using um_with_group by blast
  have "umCheckName ''eve''" "umCheckName ''pw1''" "CHR 0x00 \<notin> set ''pw1''"
    by (simp_all add: umCheckName_def c_isspace_def c_uchar_def)
  then show ?thesis
    using umAddUser_reads_back[OF db(1) granted granted db(3,2), of "''pw1''" 0 0] db(1) by blast
qed

text \<open>
  C37. The checks of \<^verbatim>\<open>umAddUser\<close> come in the order duplicate, bad name, bad password, unknown
  group; each leaves the database unchanged and has its own code. When all checks pass but
  an allocation of the row is refused, the code is the general error and no record changes.
\<close>

theorem umAddUser_errors:
  assumes "um_ok db" and "umUserExists sc db user = Some ue" and "umGroupExists sc db grp = Some ge"
  shows "(ue \<longrightarrow> umAddUser sc m mo dup db user pass grp prot dis = Some (db, UM_ERR_DUPLICATE)) \<and>
     (\<not> ue \<and> \<not> umCheckName user \<longrightarrow> umAddUser sc m mo dup db user pass grp prot dis = Some (db, UM_ERR_BAD_NAME)) \<and>
     (\<not> ue \<and> umCheckName user \<and> \<not> umCheckName pass \<longrightarrow>
        umAddUser sc m mo dup db user pass grp prot dis = Some (db, UM_ERR_BAD_PASSWORD)) \<and>
     (\<not> ue \<and> umCheckName user \<and> umCheckName pass \<and> \<not> ge \<longrightarrow>
        umAddUser sc m mo dup db user pass grp prot dis = Some (db, UM_ERR_NOT_FOUND)) \<and>
     (\<not> ue \<and> umCheckName user \<and> umCheckName pass \<and> ge \<and> mo 20 = None \<longrightarrow>
        (\<exists>db'. umAddUser sc m mo dup db user pass grp prot dis = Some (db', UM_ERR_GENERAL) \<and>
           (\<forall>t r c. db_cell t db' r c = db_cell t db r c)))"
proof -
  have "\<exists>db'. umAddUser sc m mo dup db user pass grp prot dis = Some (db', UM_ERR_GENERAL) \<and>
      (\<forall>t r c. db_cell t db' r c = db_cell t db r c)"
    if h: "\<not> ue" "umCheckName user" "umCheckName pass" "ge" "mo 20 = None"
  proof -
    note i = um_ok_inv[OF assms(1)]
    obtain tb where tb: "db_tab db UM_USER_TABLENAME = Some tb" "same_schema userTable tb"
      using i by (auto simp: um_inv_def has_schema_def um_regs_def um_reg_names)
    obtain tid where d: "dbGetTableId db UM_USER_TABLENAME = Some tid" "db_table_at db tid = Some (Some tb)"
      using db_tab_Some[OF _ tb(1)] i by (auto simp: um_inv_def)
    have nc: "nColumns tb * 4 = 20" using tb(2) by (simp add: same_schema_def userTable_def)
    obtain db1 r where a: "dbAddRow m mo db (tname userTable) = Some (db1, r)"
      "0 \<le> r \<or> um_frame (tname userTable) db db1 \<and> db_cell (tname userTable) db1 = db_cell (tname userTable) db"
      using um_add_row[OF i um_reg_mem(1), of m mo] by blast
    have neg: "r < 0"
      using a(1) d nc h(5)
      by (auto simp: dbAddRow_def um_reg_names hAllocEntry_def bind_eq_Some_conv split: if_splits prod.splits)
    have "db_cell t db1 r' c = db_cell t db r' c" for t r' c
      using a(2) neg by (cases "t = UM_USER_TABLENAME") (auto simp: um_reg_names um_frame_def db_cell_def fun_eq_iff)
    then show ?thesis using assms(2,3) h a(1) neg by (simp add: umAddUser_def um_reg_names)
  qed
  then show ?thesis using assms(2,3) by (simp add: umAddUser_def)
qed

theorem umAddUser_errors_witness:
  "\<exists>db. um_ok db \<and> umAddUser True granted granted True db ''eve'' ''p w'' ''ops'' 0 0 = Some (db, UM_ERR_BAD_PASSWORD)"
proof -
  obtain db where db: "um_ok db" "umGroupExists True db ''ops'' = Some True" "umUserExists True db ''eve'' = Some False"
    using um_with_group by blast
  have "umCheckName ''eve''" "\<not> umCheckName ''p w''" by (simp_all add: umCheckName_def c_isspace_def c_uchar_def)
  then show ?thesis using umAddUser_errors[OF db(1,3,2), of granted granted True "''p w''" 0 0] db(1) by blast
qed

text \<open>
  Deleting a user returns the protection error and changes nothing when the user is
  protected, not-found when there is no such user, and otherwise 0; then the user does not
  exist, and the records of all other users, of groups and of access limits are as before.
\<close>

theorem umDeleteUser_removes:
  assumes "um_ok db" and "umGetUserProtected sc db user = Some prot" and "umUserExists sc db user = Some ue"
  shows "(prot \<noteq> 0 \<longrightarrow> umDeleteUser sc db user = Some (db, UM_ERR_PROTECTED)) \<and>
     (prot = 0 \<and> \<not> ue \<longrightarrow> umDeleteUser sc db user = Some (db, UM_ERR_NOT_FOUND)) \<and>
     (prot = 0 \<and> ue \<longrightarrow> (\<exists>db'. umDeleteUser sc db user = Some (db', 0) \<and> um_ok db' \<and>
        umUserExists sc db' user = Some False \<and>
        (\<forall>v c. v \<noteq> user \<longrightarrow> um_field sc UM_USER_TABLENAME db' v c = um_field sc UM_USER_TABLENAME db v c) \<and>
        (\<forall>t. t \<noteq> UM_USER_TABLENAME \<longrightarrow> db_tab db' t = db_tab db t)))"
proof -
  note i = um_ok_inv[OF assms(1)]
  obtain k where k: "um_row sc db UM_USER_TABLENAME (Some user) = Some k" "ue \<longleftrightarrow> 0 \<le> k"
    using assms(3) by (auto simp: umUserExists_def bind_eq_Some_conv)
  have "\<exists>db'. dbDeleteRow db UM_USER_TABLENAME k = Some (db', 0) \<and> um_ok db' \<and> umUserExists sc db' user = Some False \<and>
      (\<forall>v c. v \<noteq> user \<longrightarrow> um_field sc UM_USER_TABLENAME db' v c = um_field sc UM_USER_TABLENAME db v c) \<and>
      (\<forall>t. t \<noteq> UM_USER_TABLENAME \<longrightarrow> db_tab db' t = db_tab db t)" if kp: "0 \<le> k"
  proof -
    have u: "um_unique UM_USER_TABLENAME db" using assms(1) by (auto simp: um_ok_def um_regs_def um_reg_names)
    obtain db' where d: "dbDeleteRow db UM_USER_TABLENAME k = Some (db', 0)" "um_frame UM_USER_TABLENAME db db'"
      "um_unique UM_USER_TABLENAME db'" "um_row sc db' UM_USER_TABLENAME (Some user) = Some (-1)"
      "\<forall>v c. v \<noteq> user \<longrightarrow> um_field sc UM_USER_TABLENAME db' v c = um_field sc UM_USER_TABLENAME db v c"
      using um_remove[OF i um_reg_mem(1), unfolded um_reg_names, OF u k(1) kp] by blast
    then show ?thesis using um_frame_ok[OF assms(1) d(2,3)] by (auto simp: umUserExists_def um_frame_def)
  qed
  then show ?thesis using assms(2) k by (auto simp: umDeleteUser_def)
qed

theorem umDeleteUser_removes_witness:
  "\<exists>db. um_ok db \<and> umDeleteUser True db ''eve'' = Some (db, UM_ERR_NOT_FOUND)"
proof -
  obtain db where db: "um_ok db" "umUserExists True db ''eve'' = Some False" using um_with_group by blast
  then obtain k where "um_row True db UM_USER_TABLENAME (Some ''eve'') = Some k" "k < 0"
    by (auto simp: umUserExists_def bind_eq_Some_conv)
  then have "umGetUserProtected True db ''eve'' = Some 0" by (simp add: umGetUserProtected_def c_short_def)
  then show ?thesis using umDeleteUser_removes[OF db(1) _ db(2), of 0] db(1) by blast
qed

text \<open>
  C17. Whatever sequence of management operations runs on well-formed records, with whatever
  arguments and whichever row allocations are refused, no operation faults, each returns a
  code, the tables keep their schemas and typing, and no key occurs twice in a table.
\<close>

theorem um_run_safe:
  assumes "um_ok db"
  shows "\<exists>db' rcs. um_run sc m mo db ops = Some (db', rcs) \<and> length rcs = length ops \<and> um_ok db'"
  using um_run_ok[OF assms, of sc m mo ops] by blast

theorem um_run_safe_witness:
  "\<exists>db db' rcs. um_ok db \<and> um_run True granted (\<lambda>_. None) db
     [AddUser ''eve'' ''pw1'' ''ops'' 0 0, DeleteGroup ''ops'', SetUserGroup ''eve'' None] = Some (db', rcs) \<and> um_ok db'"
proof -
  obtain db where db: "um_ok db" using um_with_group by blast
  then show ?thesis using um_run_safe[OF db] by blast
qed

text \<open>
  C29. The access limit that applies to a URL: \<^verbatim>\<open>umGetAccessLimit\<close> terminates and returns the
  longest string that is the URL itself or one of its directory prefixes (ending in a slash
  or backslash that another character follows) and has an access limit; it returns null
  exactly when none of these has one.
\<close>

theorem umGetAccessLimit_longest:
  assumes "um_ok db"
  shows "\<exists>r. umGetAccessLimit sc True db url = Some r \<and>
     (case r of
        Some p \<Rightarrow> p \<noteq> [] \<and> (p = url \<or> dir_prefix p url) \<and> umAccessLimitExists sc db p = Some True \<and>
          (\<forall>q. (q = url \<or> dir_prefix q url) \<and> length p < length q \<longrightarrow> umAccessLimitExists sc db q = Some False)
      | None \<Rightarrow> \<forall>q. q \<noteq> [] \<and> (q = url \<or> dir_prefix q url) \<longrightarrow> umAccessLimitExists sc db q = Some False)"
proof -
  note i = um_ok_inv[OF assms]
  let ?P = "\<lambda>u. um_field sc UM_ACCESS_TABLENAME db u UM_NAME \<noteq> None"
  note ex = umAccessLimitExists_field[OF i, of sc]
  show ?thesis
  proof (cases "find ?P (um_parents url)")
    case None
    then have "\<forall>q\<in>set (um_parents url). \<not> ?P q" by (auto simp: find_None_iff)
    then show ?thesis using umGetAccessLimit_find[OF i, of sc url] None ex by (auto simp: um_parents_iff)
  next
    case (Some p)
    then obtain j where j: "j < length (um_parents url)" "?P p" "p = um_parents url ! j" "\<forall>l<j. \<not> ?P (um_parents url ! l)"
      by (auto simp: find_Some_iff)
    have "\<not> ?P q" if q: "q = url \<or> dir_prefix q url" "length p < length q" for q
    proof -
      have "q \<in> set (um_parents url)" using q by (auto simp: um_parents_iff)
      then obtain l where l: "l < length (um_parents url)" "q = um_parents url ! l" by (auto simp: in_set_conv_nth)
      have "l < j"
      proof (rule ccontr)
        assume "\<not> l < j"
        then consider "l = j" | "j < l" by linarith
        then show False
          using sorted_wrt_nth_less[OF um_parents_sorted, of j l url] j(3) l q(2) by cases auto
      qed
      then show ?thesis using j(4) l(2) by blast
    qed
    moreover have "p \<in> set (um_parents url)" using j(1,3) by simp
    ultimately show ?thesis
      using umGetAccessLimit_find[OF i, of sc url] Some ex j(2) by (auto simp: um_parents_iff)
  qed
qed

theorem umGetAccessLimit_longest_witness:
  "\<exists>db db'. um_ok db \<and> umAddAccessLimit True granted granted True db ''/'' AM_BASIC 0 None = Some (db', 0) \<and>
     umGetAccessLimit True True db' ''/cgi/x'' \<noteq> Some None"
proof -
  obtain db where db: "um_ok db" "umAccessLimitExists True db ''/'' = Some False" using um_with_group by blast
  obtain db1 r where add: "dbAddRow granted granted db (tname accessTable) = Some (db1, r)" "0 \<le> r"
    using um_add_row[OF um_ok_inv[OF db(1)], of accessTable granted granted] by auto
  obtain db' where d: "umAddAccessLimit True granted granted True db ''/'' AM_BASIC 0 None = Some (db', 0)" "um_ok db'"
    "um_field True UM_ACCESS_TABLENAME db' ''/'' UM_NAME = Some (CStr ''/'')"
    using umAddAccessLimit_fields[OF db(1) add db(2)] by blast
  have "dir_prefix ''/'' ''/cgi/x''" by (simp add: dir_prefix_def is_slash_def)
  moreover have "umAccessLimitExists True db' ''/'' = Some True"
    using umAccessLimitExists_field[OF um_ok_inv[OF d(2)], of True "''/''"] d(3) by simp
  ultimately have "umGetAccessLimit True True db' ''/cgi/x'' \<noteq> Some None"
    using umGetAccessLimit_longest[OF d(2), of True "''/cgi/x''"] by fastforce
  then show ?thesis using db(1) d(1) by blast
qed

lemma um_with_user:
  "\<exists>db. um_ok db \<and> umUserExists sc db ''eve'' = Some True \<and>
     um_field sc UM_USER_TABLENAME db ''eve'' UM_GROUP = Some (CStr ''ops'') \<and>
     um_field sc UM_USER_TABLENAME db ''eve'' UM_DISABLE = Some (CInt 0) \<and>
     um_field sc UM_GROUP_TABLENAME db ''ops'' UM_DISABLE = Some (CInt 0) \<and>
     um_field sc UM_GROUP_TABLENAME db ''ops'' UM_PRIVILEGE = Some (CInt 1) \<and>
     um_field sc UM_GROUP_TABLENAME db ''ops'' UM_METHOD = Some (CInt (am_int AM_FULL)) \<and>
     (\<forall>u. um_field sc UM_ACCESS_TABLENAME db u UM_NAME = None)"
proof -
  obtain db0 where db0: "um_ok db0" "um_row sc db0 UM_USER_TABLENAME (Some ''eve'') = Some (-1)"
    "\<And>u. um_row sc db0 UM_ACCESS_TABLENAME (Some u) = Some (-1)"
    "um_field sc UM_GROUP_TABLENAME db0 ''ops'' UM_NAME = Some (CStr ''ops'')"
    "um_field sc UM_GROUP_TABLENAME db0 ''ops'' UM_PRIVILEGE = Some (CInt 1)"
    "um_field sc UM_GROUP_TABLENAME db0 ''ops'' UM_METHOD = Some (CInt (am_int AM_FULL))"
    "um_field sc UM_GROUP_TABLENAME db0 ''ops'' UM_DISABLE = Some (CInt 0)"
    using um_with_group_fields[of sc "''eve''"] by blast
  have ex: "umUserExists sc db0 ''eve'' = Some False" "umGroupExists sc db0 ''ops'' = Some True"
    using db0(2,4) um_group_getters(1)[OF um_ok_inv[OF db0(1)], of sc "''ops''"] by (simp_all add: umUserExists_def)
  obtain db1 r where add: "dbAddRow granted granted db0 (tname userTable) = Some (db1, r)" "0 \<le> r"
    using um_add_row[OF um_ok_inv[OF db0(1)], of userTable granted granted] by auto
  have "umCheckName ''eve''" "umCheckName ''pw1''" by (simp_all add: umCheckName_def c_isspace_def c_uchar_def)
  then obtain db where db: "um_ok db" "um_frame UM_USER_TABLENAME db0 db"
    "um_field sc UM_USER_TABLENAME db ''eve'' UM_NAME = Some (CStr ''eve'')"
    "um_field sc UM_USER_TABLENAME db ''eve'' UM_GROUP = Some (CStr ''ops'')"
    "um_field sc UM_USER_TABLENAME db ''eve'' UM_DISABLE = Some (CInt 0)"
    using umAddUser_fields[OF db0(1) add ex, of "''pw1''" 0 0] by blast
  have "um_field sc UM_GROUP_TABLENAME db v c = um_field sc UM_GROUP_TABLENAME db0 v c"
    "um_field sc UM_ACCESS_TABLENAME db v c = um_field sc UM_ACCESS_TABLENAME db0 v c" for v c
    using um_frame_other(2)[OF db(2) _ um_ok_inv[OF db0(1)], of UM_GROUP_TABLENAME groupTable]
      um_frame_other(2)[OF db(2) _ um_ok_inv[OF db0(1)], of UM_ACCESS_TABLENAME accessTable] um_table_names
    by (simp_all add: um_reg_names)
  moreover have "um_field sc UM_ACCESS_TABLENAME db0 v c = None" for v c using db0(3) by (simp add: um_field_def)
  moreover have "umUserExists sc db ''eve'' = Some True" using um_user_getters(1)[OF um_ok_inv[OF db(1)], of sc "''eve''"] db(3) by simp
  ultimately show ?thesis using db(1,4,5) db0(5-7) by auto
qed

lemma um_field_exists:
  assumes "um_inv db" "reg \<in> set um_regs" "um_field sc (tname reg) db v c = Some x"
  shows "um_field sc (tname reg) db v UM_NAME \<noteq> None"
  using um_exists_iff[OF assms(1,2), of sc v] assms(3) by (fastforce simp: um_field_def split: if_splits)

lemma um_field_int:
  assumes "um_inv db" "reg \<in> set um_regs" "um_field sc (tname reg) db v c' = Some x" "col_type reg c = Some T_INT"
  shows "\<exists>n. um_field sc (tname reg) db v c = Some (CInt n)"
proof -
  obtain k where k: "um_row sc db (tname reg) (Some v) = Some k" "0 \<le> k"
    using um_exists_iff[OF assms(1,2), of sc v] assms(3) by (fastforce simp: um_field_def split: if_splits)
  then show ?thesis using um_get_int[OF assms(1,2) k assms(4)] by blast
qed

lemma int_or_zero: "d \<noteq> 0 \<Longrightarrow> int_or d x = 0 \<longleftrightarrow> x = Some (CInt 0)"
  by (auto simp: int_or_def split: option.splits cell.splits)

text \<open>
  C18. The access decision, for a user whose record names a group: access is granted exactly
  when the user exists and is enabled, the group exists and is enabled, has a privilege that
  is non-zero as a 16-bit value and an access method other than \<^verbatim>\<open>AM_NONE\<close>, and the access
  limit that applies to the URL, if there is one, has a method other than \<^verbatim>\<open>AM_NONE\<close> and
  names no group or the user's own group.
\<close>

theorem umUserCanAccessURL_iff:
  assumes "um_ok db" and "um_field sc UM_USER_TABLENAME db user UM_GROUP = Some (CStr g)"
  shows "\<exists>r lim. umUserCanAccessURL sc True db user url = Some r \<and> umGetAccessLimit sc True db url = Some lim \<and>
     (r \<longleftrightarrow> um_field sc UM_USER_TABLENAME db user UM_DISABLE = Some (CInt 0) \<and>
           um_field sc UM_GROUP_TABLENAME db g UM_DISABLE = Some (CInt 0) \<and>
           (\<exists>p. um_field sc UM_GROUP_TABLENAME db g UM_PRIVILEGE = Some (CInt p) \<and> c_short p \<noteq> 0) \<and>
           um_field sc UM_GROUP_TABLENAME db g UM_METHOD \<noteq> Some (CInt (am_int AM_NONE)) \<and>
           (case lim of None \<Rightarrow> True
            | Some u \<Rightarrow> um_field sc UM_ACCESS_TABLENAME db u UM_METHOD \<noteq> Some (CInt (am_int AM_NONE)) \<and>
                str_of (um_field sc UM_ACCESS_TABLENAME db u UM_GROUP) \<in> {None, Some [], Some g}))"
proof -
  note i = um_ok_inv[OF assms(1)]
  note gets = um_user_getters[OF i, of sc] um_group_getters[OF i, of sc] um_access_getters[OF i, of sc]
  obtain lim where lim: "umGetAccessLimit sc True db url = Some lim" using umGetAccessLimit_find[OF i] by blast
  have ue: "um_field sc UM_USER_TABLENAME db user UM_NAME \<noteq> None"
    using um_field_exists[OF i um_reg_mem(1), unfolded um_reg_names, OF assms(2)] .
  have en: "c_not (int_or 1 x) = 0 \<longleftrightarrow> x \<noteq> Some (CInt 0)" for x using int_or_zero[of 1 x] by (auto simp: c_not_def)
  have am: "int_or (am_int AM_INVALID) x = am_int AM_NONE \<longleftrightarrow> x = Some (CInt (am_int AM_NONE))" for x
    using int_or_zero[of "am_int AM_INVALID" x] by (simp add: am_int_def)
  have pr: "c_short (int_or (-1) (um_field sc UM_GROUP_TABLENAME db g UM_PRIVILEGE)) \<noteq> 0 \<longleftrightarrow>
      (\<exists>p. um_field sc UM_GROUP_TABLENAME db g UM_PRIVILEGE = Some (CInt p) \<and> c_short p \<noteq> 0)"
    if dis: "um_field sc UM_GROUP_TABLENAME db g UM_DISABLE = Some (CInt 0)"
    using um_field_int[OF i um_reg_mem(2), unfolded um_reg_names, OF dis um_group_types(1)] by (auto simp: int_or_def)
  show ?thesis
    using lim ue assms(2) pr
    by (cases "um_field sc UM_GROUP_TABLENAME db g UM_DISABLE = Some (CInt 0)")
      (auto simp: umUserCanAccessURL_def gets en am str_of_def split: option.splits)
qed

theorem umUserCanAccessURL_iff_witness:
  "\<exists>db. um_ok db \<and> umUserCanAccessURL True True db ''eve'' ''/x'' = Some True"
proof -
  obtain db where db: "um_ok db" "um_field True UM_USER_TABLENAME db ''eve'' UM_GROUP = Some (CStr ''ops'')"
    "um_field True UM_USER_TABLENAME db ''eve'' UM_DISABLE = Some (CInt 0)"
    "um_field True UM_GROUP_TABLENAME db ''ops'' UM_DISABLE = Some (CInt 0)"
    "um_field True UM_GROUP_TABLENAME db ''ops'' UM_PRIVILEGE = Some (CInt 1)"
    "um_field True UM_GROUP_TABLENAME db ''ops'' UM_METHOD = Some (CInt (am_int AM_FULL))"
    "\<And>u. um_field True UM_ACCESS_TABLENAME db u UM_NAME = None"
    using um_with_user by blast
  have "find (\<lambda>u. um_field True UM_ACCESS_TABLENAME db u UM_NAME \<noteq> None) us = None" for us
    by (auto simp: find_None_iff db(7))
  then have "umGetAccessLimit True True db ''/x'' = Some None" using umGetAccessLimit_find[OF um_ok_inv[OF db(1)]] by simp
  then show ?thesis
    using umUserCanAccessURL_iff[OF db(1,2), of "''/x''"] db(1,3-6) by (auto simp: c_short_def am_int_def)
qed

text \<open>
  \<^verbatim>\<open>umSetUserPassword\<close> stores any string: for a password without white space it reads back
  in clear, and the other fields and records stay; there is no check for white space, and
  the password made of a, a blank and b is accepted with code 0 but reads back as aJb.
\<close>

theorem umSetUserPassword_reads_back:
  assumes "um_ok db" and "umUserExists sc db user = Some True"
  shows "\<exists>db'. umSetUserPassword sc True db user pass = Some (db', 0) \<and> um_ok db' \<and>
     (umCheckName pass \<and> CHR 0x00 \<notin> set pass \<longrightarrow> umGetUserPassword sc True db' user = Some (Some pass)) \<and>
     (pass = ''a b'' \<longrightarrow> umGetUserPassword sc True db' user = Some (Some ''aJb'')) \<and>
     (\<forall>c. c \<noteq> UM_PASS \<longrightarrow> um_field sc UM_USER_TABLENAME db' user c = um_field sc UM_USER_TABLENAME db user c) \<and>
     (\<forall>v c. v \<noteq> user \<longrightarrow> um_field sc UM_USER_TABLENAME db' v c = um_field sc UM_USER_TABLENAME db v c)"
proof -
  note i = um_ok_inv[OF assms(1)]
  obtain k where k: "um_row sc db UM_USER_TABLENAME (Some user) = Some k" "0 \<le> k"
    using assms(2) by (auto simp: umUserExists_def bind_eq_Some_conv)
  obtain db' where d: "dbWriteStr True db UM_USER_TABLENAME UM_PASS k (Some (um_encrypt UM_XOR_ENCRYPT pass)) = Some (db', 0)"
    "um_written UM_USER_TABLENAME sc user UM_PASS (CStr (um_encrypt UM_XOR_ENCRYPT pass)) db db'"
    using um_write_str[OF i um_reg_mem(1), unfolded um_reg_names, OF k, of UM_PASS] um_user_types(1) um_not_key(1)
    by (auto simp: um_typed_simps)
  have ok: "um_ok db'" using um_written_ok[of userTable, unfolded um_reg_names, OF d(2) assms(1)] by simp
  have ex: "umUserExists sc db' user = Some True" using d(2) k by (simp add: um_written_def umUserExists_def)
  have g: "umGetUserPassword sc True db' user = Some (Some (um_encrypt UM_XOR_ENCRYPT (um_encrypt UM_XOR_ENCRYPT pass)))"
    using um_user_getters(1,5)[OF um_ok_inv[OF ok], of sc user] ex d(2) by (simp add: um_written_def str_of_def)
  have "um_encrypt UM_XOR_ENCRYPT (um_encrypt UM_XOR_ENCRYPT pass) = pass" if "umCheckName pass" "CHR 0x00 \<notin> set pass"
    using that by (intro um_encrypt_twice) (auto simp: umCheckName_def list_all_iff)
  moreover have "um_encrypt UM_XOR_ENCRYPT (um_encrypt UM_XOR_ENCRYPT ''a b'') = ''aJb''" by code_simp
  ultimately show ?thesis
    using d k ok g by (auto simp: umSetUserPassword_def umEncryptString_def um_written_def)
qed

theorem umSetUserPassword_reads_back_witness:
  "\<exists>db db'. um_ok db \<and> umSetUserPassword True True db ''eve'' ''a b'' = Some (db', 0) \<and>
     umGetUserPassword True True db' ''eve'' = Some (Some ''aJb'')"
proof -
  obtain db where db: "um_ok db" "umUserExists True db ''eve'' = Some True" using um_with_user by blast
  then show ?thesis using umSetUserPassword_reads_back[OF db, of "''a b''"] by blast
qed

text \<open>
  C38. Enumeration of users, groups or access limits: the names that are not empty, in row
  order, are pairwise different and are exactly the keys found by search; \<^verbatim>\<open>umGetFirstRowData\<close>
  returns the first of them (null for none), \<^verbatim>\<open>umGetNextRowData\<close> called with one of them returns
  its successor (null for the last); both calls end, although their loops have no bound.
\<close>

theorem umGetNextRowData_enumerates:
  assumes "um_ok db" and "reg \<in> set um_regs"
  shows "umGetFirstRowData db (tname reg) UM_NAME = Some (hd_opt (um_keys db (tname reg))) \<and>
     (\<forall>xs k ys. um_keys db (tname reg) = xs @ k # ys \<longrightarrow> umGetNextRowData db (tname reg) UM_NAME k = Some (hd_opt ys)) \<and>
     distinct (um_keys db (tname reg)) \<and>
     (\<forall>v. v \<in> set (um_keys db (tname reg)) \<longleftrightarrow> v \<noteq> [] \<and> (\<exists>row\<ge>0. um_row sc db (tname reg) (Some v) = Some row))"
proof -
  note i = um_ok_inv[OF assms(1)]
  obtain tb where tb: "db_tab db (tname reg) = Some tb" using i assms(2) by (auto simp: um_inv_def has_schema_def)
  have n: "0 \<le> nRows tb" using db_tab_ok i tb by (fastforce simp: um_inv_def tbl_ok_def h_top_def)
  have ks: "um_keys db (tname reg) = um_keys_from tb 0 (nat (nRows tb))" using tb by (simp add: um_keys_def)
  have u: "\<forall>v q q'. tab_cell tb q UM_NAME = Some (CStr v) \<and> tab_cell tb q' UM_NAME = Some (CStr v) \<longrightarrow> q = q'"
    using assms tb by (auto simp: um_ok_def um_unique_def db_cell_def)
  have fst: "umGetFirstRowData db (tname reg) UM_NAME = Some (hd_opt (um_keys db (tname reg)))"
    using um_first_loop_spec[OF i assms(2) tb, of 0 "nat (nRows tb)" "CInt 0"]
    by (simp add: umGetFirstRowData_def ks cell_ptr_def)
  have nxt: "umGetNextRowData db (tname reg) UM_NAME k = Some (hd_opt ys)" if sp: "um_keys db (tname reg) = xs @ k # ys" for xs k ys
  proof -
    obtain j m where j: "0 \<le> j" "j + 1 + int m = 0 + int (nat (nRows tb))" "tab_cell tb j UM_NAME = Some (CStr k)" "k \<noteq> []"
      "ys = um_keys_from tb (j + 1) m" using um_keys_from_split sp unfolding ks by blast
    have before: "\<forall>q. 0 \<le> q \<and> q < j \<longrightarrow> tab_cell tb q UM_NAME \<noteq> Some (CStr k)" using u j(3) by blast
    have after: "\<forall>q\<ge>j + 1. tab_cell tb q UM_NAME \<noteq> Some (CStr k)" using u j(3) by fastforce
    have "um_seek_loop db (tname reg) UM_NAME k 0 (CInt 0) = Some (j + 1, CStr k)"
      using um_seek_loop_spec[OF i assms(2) tb j(3,4), of 0 "nat j" "CInt 0"] before j(1) by (simp add: cell_ptr_def)
    moreover have "um_next_loop db (tname reg) UM_NAME k (j + 1) (CStr k) = Some (hd_opt ys)"
      using um_next_loop_spec[OF i assms(2) tb, of "j + 1" m "CStr k" k] after j n by (simp add: cell_ptr_def)
    ultimately show ?thesis by (simp add: umGetNextRowData_def cell_ptr_def)
  qed
  have mem: "v \<in> set (um_keys db (tname reg)) \<longleftrightarrow> v \<noteq> [] \<and> (\<exists>row\<ge>0. um_row sc db (tname reg) (Some v) = Some row)" for v
  proof -
    obtain k where k: "um_row sc db (tname reg) (Some v) = Some k"
      "first_row (\<lambda>r. db_cell (tname reg) db r UM_NAME = Some (CStr v)) k"
      using um_row_cases[OF i assms(2)] by blast
    have "(\<exists>j. 0 \<le> j \<and> j < nRows tb \<and> tab_cell tb j UM_NAME = Some (CStr v)) \<longleftrightarrow> 0 \<le> k"
    proof
      assume "\<exists>j. 0 \<le> j \<and> j < nRows tb \<and> tab_cell tb j UM_NAME = Some (CStr v)"
      then show "0 \<le> k" using k(2) tb by (auto simp: first_row_def db_cell_def)
    next
      assume "0 \<le> k"
      then have "tab_cell tb k UM_NAME = Some (CStr v)" using k(2) tb by (auto simp: first_row_def db_cell_def)
      then show "\<exists>j. 0 \<le> j \<and> j < nRows tb \<and> tab_cell tb j UM_NAME = Some (CStr v)"
        using row_at_bound[OF i assms(2) tb] by blast
    qed
    then show ?thesis using k(1) n by (auto simp: ks um_keys_from_mem)
  qed
  show ?thesis using fst nxt mem um_keys_from_distinct[OF u] by (auto simp: ks)
qed

theorem umGetNextRowData_enumerates_witness:
  "\<exists>db. um_ok db \<and> umGetFirstRowData db (tname userTable) UM_NAME = Some (hd_opt (um_keys db (tname userTable))) \<and>
     ''eve'' \<in> set (um_keys db (tname userTable))"
proof -
  obtain db where db: "um_ok db" "umUserExists True db ''eve'' = Some True" using um_with_user by blast
  then have "\<exists>row\<ge>0. um_row True db (tname userTable) (Some ''eve'') = Some row"
    by (auto simp: umUserExists_def um_reg_names bind_eq_Some_conv)
  then show ?thesis using umGetNextRowData_enumerates[OF db(1) um_reg_mem(1), of True] db(1) by blast
qed

end
