(* ===== verification/Fmt.thy ===== *)
theory Fmt
  imports WebsPrelude
begin

text \<open>
  The string routines of \<^verbatim>\<open>misc.c\<close>: the formatter \<^verbatim>\<open>dsnprintf\<close> with its growing buffer
  (\<^verbatim>\<open>put_char\<close>, \<^verbatim>\<open>put_string\<close>, \<^verbatim>\<open>put_ulong\<close>), its wrappers \<^verbatim>\<open>fmtAlloc\<close>, \<^verbatim>\<open>fmtStatic\<close>,
  \<^verbatim>\<open>fmtRealloc\<close>, and the conversions \<^verbatim>\<open>hextoi\<close>, \<^verbatim>\<open>gstrtoi\<close>, \<^verbatim>\<open>dirname\<close>, \<^verbatim>\<open>ballocAscToUni\<close>.

  The buffer is the structure \<^verbatim>\<open>strbuf_t\<close>; a format string is read with its terminating NUL
  and reading past it is a fault, like a conversion whose argument is missing or has another
  type. The results are compared with a reference formatter on plain strings.
\<close>

section \<open>The string buffer\<close>

text \<open>\<^verbatim>\<open>realloc\<close>: the old bytes, then indeterminate ones; \<open>None\<close> is the null pointer.\<close>

definition brealloc :: "balloc_env \<Rightarrow> byte list \<Rightarrow> int \<Rightarrow> byte list option" where
  "brealloc m old n = map_option (\<lambda>new. take (length new) old @ drop (length old) new) (balloc m n)"

record strbuf =
  sb_s :: "byte list option"
  sb_size :: int
  sb_max :: int
  sb_count :: int
  sb_realloc :: bool

definition STR_INC :: int where "STR_INC = 64"

text \<open>The result is \<open>None\<close> on a store through a null pointer or outside the buffer.\<close>

definition put_store :: "strbuf \<Rightarrow> char \<Rightarrow> strbuf option" where
  "put_store buf c = do {
     s \<leftarrow> sb_s buf;
     s' \<leftarrow> mem_write s (sb_count buf) c;
     Some (buf\<lparr>sb_s := Some s', sb_count := (if c \<noteq> CHR 0x00 then sb_count buf + 1 else sb_count buf)\<rparr>) }"

definition put_char :: "balloc_env \<Rightarrow> strbuf \<Rightarrow> char \<Rightarrow> strbuf option" where
  "put_char m buf c =
     (if sb_count buf \<ge> sb_size buf - 1 then
        if \<not> sb_realloc buf then Some buf
        else do {
          n \<leftarrow> c_int (sb_size buf + STR_INC);
          if n > sb_max buf \<and> n > STR_INC then Some buf
          else put_store (buf\<lparr>sb_size := n,
                 sb_s := (case sb_s buf of None \<Rightarrow> balloc m n | Some s \<Rightarrow> brealloc m s n)\<rparr>) c }
      else put_store buf c)"

fun put_chars :: "balloc_env \<Rightarrow> strbuf \<Rightarrow> char list \<Rightarrow> strbuf option" where
  "put_chars m buf [] = Some buf"
| "put_chars m buf (c # cs) = do { buf' \<leftarrow> put_char m buf c; put_chars m buf' cs }"

section \<open>Strings and numbers\<close>

record fmt_flags =
  flag_minus :: bool
  flag_plus :: bool
  flag_space :: bool
  flag_hash :: bool
  flag_zero :: bool
  flag_short :: bool
  flag_long :: bool

definition flag_none :: fmt_flags where
  "flag_none = \<lparr>flag_minus = False, flag_plus = False, flag_space = False, flag_hash = False,
     flag_zero = False, flag_short = False, flag_long = False\<rparr>"

text \<open>The limit is unsigned; \<open>None\<close> is \<^verbatim>\<open>ULONG_MAX\<close>.\<close>

definition gstrnlen :: "cstring \<Rightarrow> int option \<Rightarrow> int" where
  "gstrnlen s n = (case n of None \<Rightarrow> int (length s) | Some k \<Rightarrow> min (int (length s)) k)"

definition put_string :: "balloc_env \<Rightarrow> strbuf \<Rightarrow> cstring \<Rightarrow> int \<Rightarrow> int \<Rightarrow> int \<Rightarrow> fmt_flags \<Rightarrow> strbuf option" where
  "put_string m buf s len width prec f = do {
     let n = (if len < 0 then gstrnlen s (if prec \<ge> 0 then Some prec else None)
              else if prec \<ge> 0 \<and> prec < len then prec else len);
     buf1 \<leftarrow> put_chars m buf (if width > n \<and> \<not> flag_minus f then replicate (nat (width - n)) CHR '' '' else []);
     cs \<leftarrow> mem_slice (s @ [CHR 0x00]) 0 n;
     buf2 \<leftarrow> put_chars m buf1 cs;
     put_chars m buf2 (if width > n \<and> flag_minus f then replicate (nat (width - n)) CHR '' '' else []) }"

text \<open>
  \<^verbatim>\<open>unsigned long\<close> has 32 bits. The first loop of \<^verbatim>\<open>put_ulong\<close> finds the number of digits and
  the weight of the first one. The callers pass the bases 8, 10 and 16; the guard \<open>1 < base\<close>
  makes the recursion total for the others.
\<close>

definition ULONG_MAX :: nat where "ULONG_MAX = 2 ^ 32 - 1"

function ulong_scale :: "nat \<Rightarrow> nat \<Rightarrow> nat \<Rightarrow> nat \<Rightarrow> nat \<times> nat" where
  "ulong_scale base v len x =
     (if 1 < base \<and> 0 < x \<and> x < ULONG_MAX div base then
        (let x2 = (x * base) mod 2 ^ 32 in if x2 > v then (len, x) else ulong_scale base v (len + 1) x2)
      else (len, x))"
  by pat_completeness auto
termination
proof (relation "measure (\<lambda>(base, v, len, x). ULONG_MAX - x)")
  fix base v len x x2 :: nat
  assume g: "1 < base \<and> 0 < x \<and> x < ULONG_MAX div base" and x2: "x2 = x * base mod 2 ^ 32"
  have "x * base \<le> (ULONG_MAX div base) * base" using g by (intro mult_le_mono) auto
  also have "\<dots> \<le> ULONG_MAX" by simp
  finally have b: "x * base \<le> ULONG_MAX" .
  then have "x2 = x * base" using x2 by (simp add: ULONG_MAX_def)
  moreover have "x < x * base" using g by simp
  moreover have "x < ULONG_MAX" using g div_le_dividend[of ULONG_MAX base] by linarith
  ultimately have "ULONG_MAX - x2 < ULONG_MAX - x" using diff_less_mono2[of x x2 ULONG_MAX] by metis
  then show "((base, v, len + 1, x2), base, v, len, x) \<in> measure (\<lambda>(base, v, len, x). ULONG_MAX - x)" by simp
qed simp

declare ulong_scale.simps [simp del]

definition digit_char :: "bool \<Rightarrow> nat \<Rightarrow> char" where
  "digit_char upper d = to_char ((if d < 10 then 48 else (if upper then 65 else 97) - 10) + int d)"

function ulong_digits :: "nat \<Rightarrow> nat \<Rightarrow> bool \<Rightarrow> nat \<Rightarrow> char list" where
  "ulong_digits base v upper x =
     (if x > 0 \<and> 1 < base then digit_char upper ((v div x) mod base) # ulong_digits base v upper (x div base) else [])"
  by pat_completeness auto
termination by (relation "measure (\<lambda>(base, v, upper, x). x)") auto

declare ulong_digits.simps [simp del]

definition put_ulong ::
    "balloc_env \<Rightarrow> strbuf \<Rightarrow> nat \<Rightarrow> nat \<Rightarrow> bool \<Rightarrow> cstring option \<Rightarrow> int \<Rightarrow> int \<Rightarrow> fmt_flags \<Rightarrow> strbuf option" where
  "put_ulong m buf v base upper prefix width prec f = do {
     let (len, x) = ulong_scale base v 1 1;
     let zeros = (if prec > int len then prec - int len else 0);
     let width1 = width - (zeros + int len);
     let width2 = (case prefix of None \<Rightarrow> width1 | Some p \<Rightarrow> width1 - gstrnlen p None);
     buf1 \<leftarrow> (if flag_minus f then Some buf
             else put_chars m buf (replicate (nat width2) (if flag_zero f then CHR ''0'' else CHR '' '')));
     buf2 \<leftarrow> (case prefix of None \<Rightarrow> Some buf1 | Some p \<Rightarrow> put_string m buf1 p (-1) 0 (-1) flag_none);
     buf3 \<leftarrow> put_chars m buf2 (replicate (nat zeros) CHR ''0'');
     buf4 \<leftarrow> put_chars m buf3 (ulong_digits base v upper x);
     if flag_minus f then put_chars m buf4 (replicate (nat width2) CHR '' '') else Some buf4 }"

section \<open>Conversion specifications\<close>

text \<open>The variable arguments: a number, a string (\<open>None\<close> is null), or a place for \<^verbatim>\<open>%n\<close>.\<close>

datatype fmt_arg = VInt int | VStr "cstring option" | VRef

text \<open>
  The parsers below hold \<open>c\<close>, the character just read, and the rest of the format up to and
  including its NUL.
\<close>

fun fmt_flags_of :: "fmt_flags \<Rightarrow> char \<Rightarrow> char list \<Rightarrow> (fmt_flags \<times> char \<times> char list) option" where
  "fmt_flags_of f c fmt =
     (let f' = (if c = CHR ''-'' then Some (f\<lparr>flag_minus := True\<rparr>)
                else if c = CHR ''+'' then Some (f\<lparr>flag_plus := True\<rparr>)
                else if c = CHR '' '' then Some (f\<lparr>flag_space := True\<rparr>)
                else if c = CHR ''#'' then Some (f\<lparr>flag_hash := True\<rparr>)
                else if c = CHR ''0'' then Some (f\<lparr>flag_zero := True\<rparr>)
                else None)
      in case f' of
           None \<Rightarrow> Some (f, c, fmt)
         | Some f1 \<Rightarrow> (case fmt of [] \<Rightarrow> None | c1 # fmt1 \<Rightarrow> fmt_flags_of f1 c1 fmt1))"

definition c_isdigit :: "char \<Rightarrow> bool" where
  "c_isdigit c \<longleftrightarrow> 48 \<le> c_uchar c \<and> c_uchar c \<le> 57"

fun fmt_digits :: "int \<Rightarrow> char \<Rightarrow> char list \<Rightarrow> (int \<times> char \<times> char list) option" where
  "fmt_digits n c fmt =
     (if c_isdigit c then
        (case fmt of [] \<Rightarrow> None
         | c1 # fmt1 \<Rightarrow> (case c_int (n * 10 + (c_uchar c - 48)) of None \<Rightarrow> None | Some n1 \<Rightarrow> fmt_digits n1 c1 fmt1))
      else Some (n, c, fmt))"

definition fmt_next :: "char list \<Rightarrow> (char \<times> char list) option" where
  "fmt_next fmt = (case fmt of [] \<Rightarrow> None | c # fmt' \<Rightarrow> Some (c, fmt'))"

definition va_int :: "fmt_arg list \<Rightarrow> (int \<times> fmt_arg list) option" where
  "va_int args = (case args of VInt i # args' \<Rightarrow> Some (i, args') | _ \<Rightarrow> None)"

definition va_str :: "fmt_arg list \<Rightarrow> (cstring option \<times> fmt_arg list) option" where
  "va_str args = (case args of VStr s # args' \<Rightarrow> Some (s, args') | _ \<Rightarrow> None)"

definition va_ref :: "fmt_arg list \<Rightarrow> fmt_arg list option" where
  "va_ref args = (case args of VRef # args' \<Rightarrow> Some args' | _ \<Rightarrow> None)"

definition fmt_width ::
    "fmt_flags \<Rightarrow> char \<Rightarrow> char list \<Rightarrow> fmt_arg list \<Rightarrow> (fmt_flags \<times> int \<times> char \<times> char list \<times> fmt_arg list) option" where
  "fmt_width f c fmt args =
     (if c = CHR ''*'' then do {
        (w, args') \<leftarrow> va_int args;
        (c', fmt') \<leftarrow> fmt_next fmt;
        if w < 0 then do { w' \<leftarrow> c_int (- w); Some (f\<lparr>flag_minus := True\<rparr>, w', c', fmt', args') }
        else Some (f, w, c', fmt', args') }
      else do { (w, c', fmt') \<leftarrow> fmt_digits 0 c fmt; Some (f, w, c', fmt', args) })"

definition fmt_prec ::
    "fmt_flags \<Rightarrow> char \<Rightarrow> char list \<Rightarrow> fmt_arg list \<Rightarrow> (fmt_flags \<times> int \<times> char \<times> char list \<times> fmt_arg list) option" where
  "fmt_prec f c fmt args =
     (if c = CHR ''.'' then do {
        let f' = f\<lparr>flag_zero := False\<rparr>;
        (c1, fmt1) \<leftarrow> fmt_next fmt;
        if c1 = CHR ''*'' then do {
          (p, args') \<leftarrow> va_int args;
          (c2, fmt2) \<leftarrow> fmt_next fmt1;
          Some (f', p, c2, fmt2, args') }
        else do { (p, c2, fmt2) \<leftarrow> fmt_digits 0 c1 fmt1; Some (f', p, c2, fmt2, args) } }
      else Some (f, -1, c, fmt, args))"

definition fmt_size :: "fmt_flags \<Rightarrow> char \<Rightarrow> char list \<Rightarrow> (fmt_flags \<times> char \<times> char list) option" where
  "fmt_size f c fmt =
     (if c = CHR ''h'' then do { (c', fmt') \<leftarrow> fmt_next fmt; Some (f\<lparr>flag_short := True\<rparr>, c', fmt') }
      else if c = CHR ''l'' then do { (c', fmt') \<leftarrow> fmt_next fmt; Some (f\<lparr>flag_long := True\<rparr>, c', fmt') }
      else Some (f, c, fmt))"

text \<open>Everything between the percent sign and the conversion character.\<close>

definition fmt_spec ::
    "char \<Rightarrow> char list \<Rightarrow> fmt_arg list \<Rightarrow> (fmt_flags \<times> int \<times> int \<times> char \<times> char list \<times> fmt_arg list) option" where
  "fmt_spec c fmt args = do {
     (f1, c1, fmt1) \<leftarrow> fmt_flags_of flag_none c fmt;
     (f2, width, c2, fmt2, args2) \<leftarrow> fmt_width f1 c1 fmt1 args;
     (f3, prec, c3, fmt3, args3) \<leftarrow> fmt_prec f2 c2 fmt2 args2;
     (f4, c4, fmt4) \<leftarrow> fmt_size f3 c3 fmt3;
     Some (f4, width, prec, c4, fmt4, args3) }"

lemma fmt_flags_of_length: "fmt_flags_of f c fmt = Some (f', c', fmt') \<Longrightarrow> length fmt' \<le> length fmt"
proof (induction f c fmt rule: fmt_flags_of.induct)
  case (1 f c fmt)
  show ?case
  proof (cases fmt)
    case Nil
    then show ?thesis using 1(2) by (auto split: if_splits)
  next
    case (Cons c1 fmt1)
    then show ?thesis using 1(2) 1(1)[OF refl _ Cons] by (auto split: if_splits dest: 1(1)[OF refl _ Cons])
  qed
qed

lemma fmt_digits_length: "fmt_digits n c fmt = Some (n', c', fmt') \<Longrightarrow> length fmt' \<le> length fmt"
proof (induction fmt arbitrary: n c)
  case (Cons c1 fmt1)
  then show ?case by (fastforce split: if_splits option.splits)
qed (auto split: if_splits)

declare fmt_digits.simps [simp del]
declare fmt_flags_of.simps [simp del]

lemma fmt_next_length: "fmt_next fmt = Some (c, fmt') \<Longrightarrow> length fmt' \<le> length fmt"
  by (auto simp: fmt_next_def split: list.splits)

lemma fmt_width_length: "fmt_width f c fmt args = Some (f', w, c', fmt', args') \<Longrightarrow> length fmt' \<le> length fmt"
  by (auto simp: fmt_width_def bind_eq_Some_conv split: if_splits dest!: fmt_next_length fmt_digits_length)

lemma fmt_prec_length: "fmt_prec f c fmt args = Some (f', p, c', fmt', args') \<Longrightarrow> length fmt' \<le> length fmt"
  by (auto simp: fmt_prec_def Let_def bind_eq_Some_conv split: if_splits dest!: fmt_next_length fmt_digits_length)

lemma fmt_size_length: "fmt_size f c fmt = Some (f', c', fmt') \<Longrightarrow> length fmt' \<le> length fmt"
  by (auto simp: fmt_size_def bind_eq_Some_conv split: if_splits dest!: fmt_next_length)

lemma fmt_spec_length:
  assumes "fmt_spec c fmt args = Some (f, w, p, c', fmt', args')"
  shows "length fmt' \<le> length fmt"
proof -
  obtain f1 c1 fmt1 f2 c2 fmt2 args2 f3 p3 c3 fmt3 args3 f4 c4 w2 where
    s: "fmt_flags_of flag_none c fmt = Some (f1, c1, fmt1)" "fmt_width f1 c1 fmt1 args = Some (f2, w2, c2, fmt2, args2)"
    "fmt_prec f2 c2 fmt2 args2 = Some (f3, p3, c3, fmt3, args3)" "fmt_size f3 c3 fmt3 = Some (f4, c4, fmt')"
    using assms by (auto simp: fmt_spec_def bind_eq_Some_conv)
  show ?thesis
    using fmt_flags_of_length[OF s(1)] fmt_width_length[OF s(2)] fmt_prec_length[OF s(3)] fmt_size_length[OF s(4)] by linarith
qed

section \<open>Conversions\<close>

definition fmt_signed ::
    "balloc_env \<Rightarrow> fmt_flags \<Rightarrow> int \<Rightarrow> int \<Rightarrow> strbuf \<Rightarrow> int \<Rightarrow> strbuf option" where
  "fmt_signed m f width prec buf v =
     (if v \<ge> 0 then
        put_ulong m buf (nat v) 10 False
          (if flag_plus f then Some ''+'' else if flag_space f then Some '' '' else None) width prec f
      else do { v' \<leftarrow> c_int (- v); put_ulong m buf (nat v') 10 False (Some ''-'') width prec f })"

definition fmt_unsigned ::
    "balloc_env \<Rightarrow> fmt_flags \<Rightarrow> int \<Rightarrow> int \<Rightarrow> char \<Rightarrow> strbuf \<Rightarrow> nat \<Rightarrow> strbuf option" where
  "fmt_unsigned m f width prec c buf v =
     (if c = CHR ''o'' then put_ulong m buf v 8 False (if flag_hash f \<and> v \<noteq> 0 then Some ''0'' else None) width prec f
      else if c = CHR ''u'' then put_ulong m buf v 10 False None width prec f
      else if flag_hash f \<and> v \<noteq> 0 then
        (if c = CHR ''x'' then put_ulong m buf v 16 False (Some ''0x'') width prec f
         else put_ulong m buf v 16 True (Some ''0X'') width prec f)
      else put_ulong m buf v 16 (c = CHR ''X'') None width prec f)"

text \<open>
  One conversion; \<open>ns\<close> collects what \<^verbatim>\<open>%n\<close> stores. With the flag \<^verbatim>\<open>#\<close>, \<^verbatim>\<open>%s\<close> takes its length from
  the first character, read as a plain \<^verbatim>\<open>char\<close>. The conversion \<^verbatim>\<open>%p\<close> prints the number its
  argument has as an address.
\<close>

definition fmt_conv ::
    "balloc_env \<Rightarrow> bool \<Rightarrow> fmt_flags \<Rightarrow> int \<Rightarrow> int \<Rightarrow> char \<Rightarrow> strbuf \<Rightarrow> fmt_arg list \<Rightarrow> int list \<Rightarrow>
      (strbuf \<times> fmt_arg list \<times> int list) option" where
  "fmt_conv m sc f width prec c buf args ns =
     (if c \<in> {CHR ''d'', CHR ''i''} then do {
        (i, args') \<leftarrow> va_int args;
        buf' \<leftarrow> fmt_signed m f width prec buf (if flag_short f then c_short i else i);
        Some (buf', args', ns) }
      else if c \<in> {CHR ''o'', CHR ''u'', CHR ''x'', CHR ''X''} then do {
        (i, args') \<leftarrow> va_int args;
        buf' \<leftarrow> fmt_unsigned m f width prec c buf (nat (if flag_short f then i mod 2 ^ 16 else i mod 2 ^ 32));
        Some (buf', args', ns) }
      else if c = CHR ''c'' then do {
        (i, args') \<leftarrow> va_int args;
        buf' \<leftarrow> put_char m buf (to_char i);
        Some (buf', args', ns) }
      else if c \<in> {CHR ''s'', CHR ''S''} then do {
        (v, args') \<leftarrow> va_str args;
        buf' \<leftarrow> (case v of
                   None \<Rightarrow> put_string m buf ''(null)'' (-1) width prec f
                 | Some s \<Rightarrow>
                     if flag_hash f then
                       (case s of [] \<Rightarrow> put_string m buf [] 0 width prec f | c0 # s' \<Rightarrow> put_string m buf s' (c_char sc c0) width prec f)
                     else put_string m buf s (-1) width prec f);
        Some (buf', args', ns) }
      else if c = CHR ''p'' then do {
        (i, args') \<leftarrow> va_int args;
        buf' \<leftarrow> put_ulong m buf (nat (i mod 2 ^ 32)) 16 False (Some ''0x'') width prec f;
        Some (buf', args', ns) }
      else if c = CHR ''n'' then do {
        args' \<leftarrow> va_ref args;
        Some (buf, args', ns @ [if flag_short f then c_short (sb_count buf) else sb_count buf]) }
      else do { buf' \<leftarrow> put_char m buf c; Some (buf', args, ns) })"

section \<open>The formatter\<close>

declare Option.bind_cong [fundef_cong]

function dsn_loop ::
    "balloc_env \<Rightarrow> bool \<Rightarrow> char list \<Rightarrow> strbuf \<Rightarrow> fmt_arg list \<Rightarrow> int list \<Rightarrow> (strbuf \<times> int list) option" where
  "dsn_loop m sc fmt buf args ns =
     (case fmt of
        [] \<Rightarrow> None
      | c # fmt1 \<Rightarrow>
          if c = CHR 0x00 then Some (buf, ns)
          else if c \<noteq> CHR ''%'' then do { buf' \<leftarrow> put_char m buf c; dsn_loop m sc fmt1 buf' args ns }
          else (case fmt1 of
                  [] \<Rightarrow> None
                | c1 # fmt2 \<Rightarrow>
                    if c1 = CHR ''%'' then do { buf' \<leftarrow> put_char m buf c1; dsn_loop m sc fmt2 buf' args ns }
                    else do {
                      (f, width, prec, cv, fmt3, args1) \<leftarrow> fmt_spec c1 fmt2 args;
                      (buf', args2, ns') \<leftarrow> fmt_conv m sc f width prec cv buf args1 ns;
                      dsn_loop m sc fmt3 buf' args2 ns' }))"
  by pat_completeness auto
termination
  by (relation "measure (\<lambda>(m, sc, fmt, buf, args, ns). length fmt)") (auto dest: fmt_spec_length)

declare dsn_loop.simps [simp del]

text \<open>The limit the callers give \<^verbatim>\<open>fmtAlloc\<close> for names.\<close>

definition FNAMESIZE :: int where "FNAMESIZE = 254"

text \<open>The string that starts at an offset of a block, and the length of the one at its start; a fault when there is no NUL.\<close>

definition str_at :: "byte list \<Rightarrow> nat \<Rightarrow> cstring option" where
  "str_at b off = (if CHR 0x00 \<in> set (drop off b) then Some (takeWhile (\<lambda>c. c \<noteq> CHR 0x00) (drop off b)) else None)"

definition c_strlen :: "byte list \<Rightarrow> int option" where
  "c_strlen b = (if CHR 0x00 \<in> set b then Some (int (length (takeWhile (\<lambda>c. c \<noteq> CHR 0x00) b))) else None)"

text \<open>
  The block \<^verbatim>\<open>*s\<close> (\<open>None\<close> when null) comes back as the first component, then the returned
  number, then what \<^verbatim>\<open>%n\<close> stored.
\<close>

definition dsnprintf ::
    "balloc_env \<Rightarrow> bool \<Rightarrow> byte list option \<Rightarrow> int \<Rightarrow> cstring \<Rightarrow> fmt_arg list \<Rightarrow> int \<Rightarrow>
      (byte list option \<times> int \<times> int list) option" where
  "dsnprintf m sc s sz fmt args msize = do {
     let dyn = (s = None \<or> msize \<noteq> 0);
     n0 \<leftarrow> (case s of Some b \<Rightarrow> if msize \<noteq> 0 then c_strlen b else Some 0 | None \<Rightarrow> Some 0);
     let buf = \<lparr>sb_s = s, sb_size = (if dyn then (if msize \<noteq> 0 then max msize 0 else 0) else sz),
                sb_max = (if dyn then sz else 0), sb_count = n0, sb_realloc = dyn\<rparr>;
     (buf1, ns) \<leftarrow> dsn_loop m sc (fmt @ [CHR 0x00]) buf args [];
     buf2 \<leftarrow> (if sb_s buf1 = None then put_char m buf1 CHR 0x00 else Some buf1);
     s' \<leftarrow> (case sb_s buf2 of
              None \<Rightarrow> Some None
            | Some b \<Rightarrow>
                if sz > 0 then
                  map_option Some (mem_write b (if sb_count buf2 < sz then sb_count buf2 else sb_size buf2 - 1) CHR 0x00)
                else Some (Some b));
     Some (s', (if msize \<noteq> 0 then sb_size buf2 else sb_count buf2), ns) }"

definition fmtAlloc ::
    "balloc_env \<Rightarrow> bool \<Rightarrow> int \<Rightarrow> cstring \<Rightarrow> fmt_arg list \<Rightarrow> (byte list option \<times> int \<times> int list) option" where
  "fmtAlloc m sc n fmt args = dsnprintf m sc None n fmt args 0"

definition fmtValloc ::
    "balloc_env \<Rightarrow> bool \<Rightarrow> int \<Rightarrow> cstring \<Rightarrow> fmt_arg list \<Rightarrow> (byte list option \<times> int \<times> int list) option" where
  "fmtValloc m sc n fmt args = dsnprintf m sc None n fmt args 0"

definition fmtStatic ::
    "balloc_env \<Rightarrow> bool \<Rightarrow> byte list \<Rightarrow> int \<Rightarrow> cstring \<Rightarrow> fmt_arg list \<Rightarrow>
      (byte list option \<times> int \<times> int list) option" where
  "fmtStatic m sc s n fmt args = (if n \<le> 0 then Some (Some s, -1, []) else dsnprintf m sc (Some s) n fmt args 0)"

definition fmtRealloc ::
    "balloc_env \<Rightarrow> bool \<Rightarrow> byte list option \<Rightarrow> int \<Rightarrow> int \<Rightarrow> cstring \<Rightarrow> fmt_arg list \<Rightarrow>
      (byte list option \<times> int \<times> int list) option" where
  "fmtRealloc m sc s n msize fmt args = dsnprintf m sc (if msize = -1 then None else s) n fmt args msize"

section \<open>Other conversions\<close>

text \<open>
  \<^verbatim>\<open>gstrncpy(buf, src, n)\<close>: at most \<open>n\<close> characters of the C string, then NUL up to \<open>n\<close>.
\<close>

definition c_strncpy :: "byte list \<Rightarrow> cstring \<Rightarrow> int \<Rightarrow> byte list option" where
  "c_strncpy buf src n = mem_copy buf 0 (take (nat n) (src @ replicate (nat n) CHR 0x00)) n"

definition c_strcpy :: "byte list \<Rightarrow> cstring \<Rightarrow> byte list option" where
  "c_strcpy buf src = mem_copy buf 0 (src @ [CHR 0x00]) (int (length src) + 1)"

text \<open>The index of the last occurrence, \<^verbatim>\<open>gstrrchr\<close>.\<close>

definition c_strrchr :: "cstring \<Rightarrow> char \<Rightarrow> nat option" where
  "c_strrchr s c = (if c \<in> set s then Some (length s - 1 - length (takeWhile (\<lambda>d. d \<noteq> c) (rev s))) else None)"

definition dirname :: "byte list \<Rightarrow> cstring \<Rightarrow> int \<Rightarrow> byte list option" where
  "dirname buf name bufsize =
     (case c_strrchr name CHR ''/'' of
        None \<Rightarrow> c_strcpy buf ''.''
      | Some cp \<Rightarrow>
          if cp + 1 = length name \<and> cp = 0 then do { buf1 \<leftarrow> c_strncpy buf ''.'' bufsize; c_strcpy buf1 ''.'' }
          else if int cp < bufsize then do { buf1 \<leftarrow> c_strncpy buf name (int cp); mem_write buf1 (int cp) CHR 0x00 }
          else do { buf1 \<leftarrow> c_strncpy buf name bufsize; mem_write buf1 (bufsize - 1) CHR 0x00 })"

text \<open>The conversions to and from wide characters copy bytes in this build.\<close>

definition ascToUni :: "byte list \<Rightarrow> byte list \<Rightarrow> int \<Rightarrow> byte list option" where
  "ascToUni ubuf str nBytes = mem_copy ubuf 0 str nBytes"

definition uniToAsc :: "byte list \<Rightarrow> byte list \<Rightarrow> int \<Rightarrow> byte list option" where
  "uniToAsc buf ustr nBytes = mem_copy buf 0 ustr nBytes"

definition ballocAscToUni :: "balloc_env \<Rightarrow> byte list \<Rightarrow> int \<Rightarrow> byte list option option" where
  "ballocAscToUni m cp alen =
     (case balloc m (alen + 1) of
        None \<Rightarrow> Some None
      | Some unip \<Rightarrow> do { u \<leftarrow> ascToUni unip cp (alen + 1); u' \<leftarrow> mem_write u alen CHR 0x00; Some (Some u') })"

definition ballocUniToAsc :: "balloc_env \<Rightarrow> byte list \<Rightarrow> int \<Rightarrow> byte list option option" where
  "ballocUniToAsc m unip ulen =
     (case balloc m (ulen + 1) of
        None \<Rightarrow> Some None
      | Some cp \<Rightarrow> do { u \<leftarrow> uniToAsc cp unip ulen; u' \<leftarrow> mem_write u ulen CHR 0x00; Some (Some u') })"

fun hextoi_loop :: "cstring \<Rightarrow> 32 word \<Rightarrow> 32 word" where
  "hextoi_loop [] v = v"
| "hextoi_loop (ch # h) v =
     (let c = c_uchar ch in
      if 48 \<le> c \<and> c \<le> 57 then hextoi_loop h (v * 16 + word_of_int (c - 48))
      else if 97 \<le> c \<and> c \<le> 102 then hextoi_loop h (v * 16 + word_of_int (c - 97 + 10))
      else if 65 \<le> c \<and> c \<le> 70 then hextoi_loop h (v * 16 + word_of_int (c - 65 + 10))
      else v)"

definition hextoi :: "cstring \<Rightarrow> 32 word" where
  "hextoi s = hextoi_loop (case s of a # b # h \<Rightarrow> if a = CHR ''0'' \<and> b \<in> {CHR ''x'', CHR ''X''} then h else s | _ \<Rightarrow> s) 0"

text \<open>
  \<^verbatim>\<open>atoi\<close>: white space, a sign, digits. A value that does not fit an \<^verbatim>\<open>int\<close> is undefined.
\<close>

definition c_digits_value :: "cstring \<Rightarrow> int" where
  "c_digits_value s = foldl (\<lambda>n c. n * 10 + (c_uchar c - 48)) 0 (takeWhile c_isdigit s)"

definition c_atoi :: "cstring \<Rightarrow> int option" where
  "c_atoi s =
     (case dropWhile c_isspace s of
        [] \<Rightarrow> Some 0
      | c # r \<Rightarrow> if c = CHR ''-'' then c_int (- c_digits_value r)
                 else if c = CHR ''+'' then c_int (c_digits_value r)
                 else c_int (c_digits_value (c # r)))"

definition gstrtoi :: "cstring \<Rightarrow> 32 word option" where
  "gstrtoi s =
     (case s of
        a # b # h \<Rightarrow> if a = CHR ''0'' \<and> b \<in> {CHR ''x'', CHR ''X''} then Some (hextoi h) else map_option word_of_int (c_atoi s)
      | _ \<Rightarrow> map_option word_of_int (c_atoi s))"

section \<open>Reference formatter\<close>

text \<open>The digits of a number, most significant first.\<close>

function radix :: "nat \<Rightarrow> nat \<Rightarrow> nat list" where
  "radix base n = (if n < base \<or> base < 2 then [n] else radix base (n div base) @ [n mod base])"
  by pat_completeness auto
termination by (relation "measure (\<lambda>(base, n). n)") auto

declare radix.simps [simp del]

definition num_text :: "nat \<Rightarrow> bool \<Rightarrow> nat \<Rightarrow> string" where
  "num_text base upper n = map (digit_char upper) (radix base n)"

text \<open>
  A number with its prefix (sign or base): blanks on the left, or zeros on the left of the
  prefix, or blanks on the right.
\<close>

definition ulong_text :: "nat \<Rightarrow> nat \<Rightarrow> bool \<Rightarrow> string \<Rightarrow> int \<Rightarrow> int \<Rightarrow> fmt_flags \<Rightarrow> string" where
  "ulong_text v base upper prefix width prec f =
     (let ds = num_text base upper v;
          body = prefix @ replicate (nat prec - length ds) CHR ''0'' @ ds;
          padn = nat width - length body
      in if flag_minus f then body @ replicate padn CHR '' ''
         else replicate padn (if flag_zero f then CHR ''0'' else CHR '' '') @ body)"

definition string_text :: "string \<Rightarrow> int \<Rightarrow> int \<Rightarrow> fmt_flags \<Rightarrow> string" where
  "string_text s width prec f =
     (let t = (if prec \<ge> 0 then take (nat prec) s else s); padn = nat width - length t
      in if flag_minus f then t @ replicate padn CHR '' '' else replicate padn CHR '' '' @ t)"

definition signed_text :: "fmt_flags \<Rightarrow> int \<Rightarrow> int \<Rightarrow> int \<Rightarrow> string" where
  "signed_text f width prec v =
     ulong_text (nat \<bar>v\<bar>) 10 False (if v < 0 then ''-'' else if flag_plus f then ''+'' else if flag_space f then '' '' else [])
       width prec f"

definition unsigned_text :: "fmt_flags \<Rightarrow> int \<Rightarrow> int \<Rightarrow> char \<Rightarrow> nat \<Rightarrow> string" where
  "unsigned_text f width prec c v =
     ulong_text v (if c = CHR ''o'' then 8 else if c = CHR ''u'' then 10 else 16) (c = CHR ''X'')
       (if flag_hash f \<and> v \<noteq> 0 then
          (if c = CHR ''o'' then ''0'' else if c = CHR ''x'' then ''0x'' else if c = CHR ''X'' then ''0X'' else [])
        else []) width prec f"

text \<open>
  One conversion, without \<^verbatim>\<open>%n\<close> and \<^verbatim>\<open>%#s\<close>, which the server does not use, and \<^verbatim>\<open>%p\<close>; a \<^verbatim>\<open>%d\<close>
  of the least \<^verbatim>\<open>int\<close> is excluded because its negation overflows.
\<close>

definition conv_text ::
    "fmt_flags \<Rightarrow> int \<Rightarrow> int \<Rightarrow> char \<Rightarrow> fmt_arg list \<Rightarrow> (string \<times> fmt_arg list) option" where
  "conv_text f width prec c args =
     (if c \<in> {CHR ''d'', CHR ''i''} then
        (case args of VInt i # r \<Rightarrow> if \<bar>i\<bar> < 2 ^ 31 then Some (signed_text f width prec (if flag_short f then c_short i else i), r) else None | _ \<Rightarrow> None)
      else if c \<in> {CHR ''o'', CHR ''u'', CHR ''x'', CHR ''X''} then
        (case args of VInt i # r \<Rightarrow> Some (unsigned_text f width prec c (nat (if flag_short f then i mod 2 ^ 16 else i mod 2 ^ 32)), r) | _ \<Rightarrow> None)
      else if c = CHR ''c'' then
        (case args of VInt i # r \<Rightarrow> Some (filter (\<lambda>d. d \<noteq> CHR 0x00) [to_char i], r) | _ \<Rightarrow> None)
      else if c \<in> {CHR ''s'', CHR ''S''} \<and> \<not> flag_hash f then
        (case args of
           VStr (Some s) # r \<Rightarrow> if CHR 0x00 \<in> set s then None else Some (string_text s width prec f, r)
         | VStr None # r \<Rightarrow> Some (string_text ''(null)'' width prec f, r)
         | _ \<Rightarrow> None)
      else if c \<in> {CHR ''s'', CHR ''S'', CHR ''p'', CHR ''n'', CHR 0x00} then None
      else Some ([c], args))"

function fmt_text :: "char list \<Rightarrow> fmt_arg list \<Rightarrow> string option" where
  "fmt_text fmt args =
     (case fmt of
        [] \<Rightarrow> None
      | c # fmt1 \<Rightarrow>
          if c = CHR 0x00 then Some []
          else if c \<noteq> CHR ''%'' then map_option (Cons c) (fmt_text fmt1 args)
          else (case fmt1 of
                  [] \<Rightarrow> None
                | c1 # fmt2 \<Rightarrow>
                    if c1 = CHR ''%'' then map_option (Cons c1) (fmt_text fmt2 args)
                    else do {
                      (f, width, prec, cv, fmt3, args1) \<leftarrow> fmt_spec c1 fmt2 args;
                      (t, args2) \<leftarrow> conv_text f width prec cv args1;
                      map_option ((@) t) (fmt_text fmt3 args2) }))"
  by pat_completeness auto
termination
  by (relation "measure (\<lambda>(fmt, args). length fmt)") (auto dest: fmt_spec_length)

declare fmt_text.simps [simp del]

section \<open>Digits\<close>

lemma radix_single: "n < base \<Longrightarrow> radix base n = [n]"
  by (simp add: radix.simps)

lemma radix_step: "\<not> n < base \<Longrightarrow> 2 \<le> base \<Longrightarrow> radix base n = radix base (n div base) @ [n mod base]"
  by (simp add: radix.simps[of base n])

lemma radix_power:
  assumes "2 \<le> base"
  shows "base ^ k \<le> n \<Longrightarrow> n < base ^ Suc k \<Longrightarrow> radix base n = rev (map (\<lambda>i. n div base ^ i mod base) [0..<Suc k])"
proof (induction k arbitrary: n)
  case 0
  then show ?case by (simp add: radix_single)
next
  case (Suc k)
  have p: "base ^ Suc k = base * base ^ k" by simp
  have "base * 1 \<le> base ^ Suc k" unfolding p using assms by (intro mult_le_mono) auto
  then have nb: "\<not> n < base" using Suc.prems(1) by linarith
  have "base ^ k \<le> n div base" "n div base < base ^ Suc k"
    using Suc.prems assms by (auto simp: less_eq_div_iff_mult_less_eq mult.commute div_less_iff_less_mult)
  then have "radix base (n div base) = rev (map (\<lambda>i. n div base div base ^ i mod base) [0..<Suc k])" by (rule Suc.IH)
  then have "radix base n = rev (map (\<lambda>i. n div base div base ^ i mod base) [0..<Suc k]) @ [n mod base]"
    using radix_step[OF nb assms] by simp
  also have "\<dots> = rev ((n mod base) # map (\<lambda>i. n div base div base ^ i mod base) [0..<Suc k])" by simp
  also have "map (\<lambda>i. n div base div base ^ i mod base) [0..<Suc k] = map (\<lambda>i. n div base ^ i mod base) [1..<Suc (Suc k)]"
    by (simp add: map_Suc_upt[symmetric] div_mult2_eq del: upt_Suc)
  finally show ?case by (simp add: upt_conv_Cons del: upt_Suc)
qed

lemma ulong_digits_power:
  assumes "2 \<le> base"
  shows "ulong_digits base v upper (base ^ k) = map (digit_char upper) (rev (map (\<lambda>i. v div base ^ i mod base) [0..<Suc k]))"
proof (induction k)
  case 0
  then show ?case using assms by (simp add: ulong_digits.simps)
next
  case (Suc k)
  have "base ^ Suc k > 0" "base ^ Suc k div base = base ^ k" using assms by simp_all
  then show ?case using Suc assms by (subst ulong_digits.simps) simp
qed

text \<open>The first loop stops at the weight of the leading digit.\<close>

lemma ulong_scale_power:
  assumes base: "2 \<le> base" and top: "base ^ h \<le> ULONG_MAX" "ULONG_MAX < base ^ Suc h" and v: "v \<le> ULONG_MAX"
    and edge: "\<And>j. j < h \<Longrightarrow> base ^ j < ULONG_MAX div base" "\<not> base ^ h < ULONG_MAX div base"
  shows "k \<le> h \<Longrightarrow> (k = 0 \<or> base ^ k \<le> v) \<Longrightarrow>
     \<exists>j. ulong_scale base v (Suc k) (base ^ k) = (Suc j, base ^ j) \<and> (j = 0 \<or> base ^ j \<le> v) \<and> v < base ^ Suc j"
proof (induction "h - k" arbitrary: k)
  case 0
  then have "k = h" by simp
  then have "ulong_scale base v (Suc k) (base ^ k) = (Suc k, base ^ k)" using edge(2) by (subst ulong_scale.simps) simp
  moreover have "v < base ^ Suc k" using v top(2) \<open>k = h\<close> by simp
  ultimately show ?case using 0 by blast
next
  case (Suc d)
  then have k: "k < h" by simp
  have "base ^ Suc k \<le> base ^ h" using k base by (intro power_increasing) auto
  then have md: "base ^ k * base mod 2 ^ 32 = base ^ Suc k" using top(1) by (simp add: ULONG_MAX_def mult.commute)
  have g: "1 < base \<and> 0 < base ^ k \<and> base ^ k < ULONG_MAX div base" using base edge(1)[OF k] by simp
  have step: "ulong_scale base v (Suc k) (base ^ k) =
      (if base ^ Suc k > v then (Suc k, base ^ k) else ulong_scale base v (Suc (Suc k)) (base ^ Suc k))"
    using g md by (subst ulong_scale.simps) (simp add: Let_def)
  show ?case
  proof (cases "base ^ Suc k > v")
    case True
    then show ?thesis using step Suc.prems by auto
  next
    case False
    then show ?thesis unfolding step using Suc.hyps(1)[of "Suc k"] Suc.hyps(2) k by auto
  qed
qed

lemma ulong_scale_digits:
  assumes "base \<in> {8, 10, 16}" "v < 2 ^ 32"
  shows "\<exists>x. ulong_scale base v 1 1 = (length (radix base v), x) \<and> ulong_digits base v upper x = num_text base upper v"
proof -
  define h :: nat where "h = (if base = 8 then 10 else if base = 10 then 9 else 7)"
  have b: "2 \<le> base" using assms(1) by auto
  have e: "base ^ j < ULONG_MAX div base" if "j < h" for j
  proof -
    have "j \<in> {0,1,2,3,4,5,6,7,8,9}" using that by (auto simp: h_def split: if_splits)
    then show ?thesis using that assms(1) by (auto simp: h_def ULONG_MAX_def split: if_splits)
  qed
  have "base ^ h \<le> ULONG_MAX" "ULONG_MAX < base ^ Suc h" "\<not> base ^ h < ULONG_MAX div base" "v \<le> ULONG_MAX"
    using assms by (auto simp: h_def ULONG_MAX_def)
  then obtain j where j: "ulong_scale base v 1 1 = (Suc j, base ^ j)" "j = 0 \<or> base ^ j \<le> v" "v < base ^ Suc j"
    using ulong_scale_power[OF b, of h v 0] e by auto
  have r: "radix base v = rev (map (\<lambda>i. v div base ^ i mod base) [0..<Suc j])"
  proof (cases "j = 0")
    case True
    then show ?thesis using j(3) by (simp add: radix_single)
  next
    case False
    then show ?thesis using radix_power[OF b, of j v] j by simp
  qed
  then have "length (radix base v) = Suc j" by simp
  then show ?thesis using j(1) ulong_digits_power[OF b, of v upper j] r by (auto simp: num_text_def)
qed

section \<open>Output through a bounded sink\<close>

text \<open>
  What the formatter needs of its buffer: a character is appended unless the capacity is
  reached, NUL changes nothing. Both a buffer that grows and one of fixed size are such sinks.
\<close>

locale char_sink =
  fixes ok :: "'b \<Rightarrow> bool" and out :: "'b \<Rightarrow> char list" and cap :: "'b \<Rightarrow> nat" and put :: "'b \<Rightarrow> char \<Rightarrow> 'b option"
  assumes put_char_law: "ok b \<Longrightarrow> c \<noteq> CHR 0x00 \<Longrightarrow> \<exists>b'. put b c = Some b' \<and> ok b' \<and> cap b' = cap b \<and> out b' = take (cap b) (out b @ [c])"
    and put_nul_law: "ok b \<Longrightarrow> \<exists>b'. put b CHR 0x00 = Some b' \<and> ok b' \<and> cap b' = cap b \<and> out b' = out b"
    and out_cap: "ok b \<Longrightarrow> length (out b) \<le> cap b"
begin

fun puts :: "'b \<Rightarrow> char list \<Rightarrow> 'b option" where
  "puts b [] = Some b"
| "puts b (c # cs) = Option.bind (put b c) (\<lambda>b'. puts b' cs)"

definition sent :: "'b \<Rightarrow> char list \<Rightarrow> 'b \<Rightarrow> bool" where
  "sent b t b' \<longleftrightarrow> ok b' \<and> cap b' = cap b \<and> out b' = take (cap b) (out b @ t)"

lemma sent_refl: "ok b \<Longrightarrow> sent b [] b"
  using out_cap by (simp add: sent_def)

lemma sent_trans: "sent b t b1 \<Longrightarrow> sent b1 u b2 \<Longrightarrow> sent b (t @ u) b2"
  by (auto simp: sent_def min_def)

lemma puts_sent: "ok b \<Longrightarrow> CHR 0x00 \<notin> set cs \<Longrightarrow> \<exists>b'. puts b cs = Some b' \<and> sent b cs b'"
proof (induction cs arbitrary: b)
  case Nil
  then show ?case using sent_refl by simp
next
  case (Cons c cs)
  obtain b1 where b1: "put b c = Some b1" "sent b [c] b1" "ok b1"
    using put_char_law[OF Cons.prems(1), of c] Cons.prems(2) by (fastforce simp: sent_def)
  obtain b2 where "puts b1 cs = Some b2" "sent b1 cs b2" using Cons.IH[OF b1(3)] Cons.prems(2) by auto
  then show ?case using b1(1) sent_trans[OF b1(2)] by fastforce
qed

end

definition sb_top :: "strbuf \<Rightarrow> int" where
  "sb_top b =
     (if sb_realloc b then
        (let t = (if sb_size b \<le> sb_max b then sb_size b + 64 * ((sb_max b - sb_size b) div 64) else sb_size b)
         in if t = 0 then 64 else t)
      else sb_size b)"

definition sb_cap :: "strbuf \<Rightarrow> nat" where
  "sb_cap b = nat (sb_top b - 1)"

definition sb_out :: "strbuf \<Rightarrow> char list" where
  "sb_out b = (case sb_s b of None \<Rightarrow> [] | Some p \<Rightarrow> take (nat (sb_count b)) p)"

definition sb_ok :: "balloc_env \<Rightarrow> strbuf \<Rightarrow> bool" where
  "sb_ok m b \<longleftrightarrow> 0 \<le> sb_count b \<and> 0 \<le> sb_size b \<and> sb_size b \<le> 2 ^ 30 \<and> sb_max b \<le> 2 ^ 30 \<and>
     (sb_realloc b \<longrightarrow> (\<forall>n. m n \<noteq> None)) \<and> CHR 0x00 \<notin> set (sb_out b) \<and>
     (case sb_s b of
        None \<Rightarrow> sb_realloc b \<and> sb_size b = 0 \<and> sb_count b = 0
      | Some p \<Rightarrow> sb_count b < sb_size b \<and> sb_size b \<le> int (length p) \<and> (sb_realloc b \<longrightarrow> sb_size b = int (length p)))"

lemma put_store_spec:
  assumes "sb_s b = Some p" "0 \<le> sb_count b" "sb_count b < int (length p)"
  shows "put_store b c = Some (b\<lparr>sb_s := Some (p[nat (sb_count b) := c]), sb_count := (if c \<noteq> CHR 0x00 then sb_count b + 1 else sb_count b)\<rparr>)"
  using assms by (simp add: put_store_def mem_simps)

text \<open>A character stored where another one still fits behind it.\<close>

lemma put_store_room:
  assumes ok: "sb_ok m b" and s: "sb_s b = Some p" and room: "sb_count b < sb_size b - 1"
  shows "\<exists>b'. put_store b c = Some b' \<and> sb_ok m b' \<and> sb_cap b' = sb_cap b \<and>
     sb_out b' = (if c = CHR 0x00 then sb_out b else sb_out b @ [c])"
proof -
  let ?n = "nat (sb_count b)"
  have l: "0 \<le> sb_count b" "sb_count b < int (length p)" "?n < length p" using ok s room by (auto simp: sb_ok_def)
  define b' where "b' = b\<lparr>sb_s := Some (p[?n := c]), sb_count := (if c \<noteq> CHR 0x00 then sb_count b + 1 else sb_count b)\<rparr>"
  have out: "sb_out b' = (if c = CHR 0x00 then sb_out b else sb_out b @ [c])"
    using l s by (simp add: sb_out_def b'_def nat_add_distrib take_Suc_conv_app_nth)
  have "sb_ok m b'" using ok s room out by (auto simp: sb_ok_def b'_def sb_out_def)
  then show ?thesis using put_store_spec[OF s l(1,2), of c] out by (auto simp: b'_def sb_cap_def sb_top_def)
qed

lemma balloc_granted:
  assumes "\<forall>n. m n \<noteq> None" "0 \<le> n"
  shows "\<exists>p. balloc m n = Some p \<and> int (length p) = n" and "\<exists>q. brealloc m p n = Some q \<and> int (length q) = n \<and> (int (length p) \<le> n \<longrightarrow> take (length p) q = p)"
proof -
  obtain p' where p': "balloc m n = Some p'" using assms(1) balloc_None[of m n] by (metis option.exhaust)
  then show "\<exists>p. balloc m n = Some p \<and> int (length p) = n" using balloc_length[OF p'] assms(2) by simp
  then show "\<exists>q. brealloc m p n = Some q \<and> int (length q) = n \<and> (int (length p) \<le> n \<longrightarrow> take (length p) q = p)"
    using p' by (auto simp: brealloc_def)
qed

text \<open>The growth step keeps the text and the capacity and makes room.\<close>

lemma sb_grow:
  assumes ok: "sb_ok m b" and re: "sb_realloc b" and n: "n = sb_size b + 64" "n \<le> sb_max b \<or> n \<le> 64"
  shows "\<exists>p. (case sb_s b of None \<Rightarrow> balloc m n | Some s \<Rightarrow> brealloc m s n) = Some p \<and>
     (let b' = b\<lparr>sb_size := n, sb_s := Some p\<rparr> in sb_ok m b' \<and> sb_cap b' = sb_cap b \<and> sb_out b' = sb_out b \<and> sb_count b' < sb_size b' - 1)"
proof -
  have m: "\<forall>k. m k \<noteq> None" and nn: "0 \<le> n" using ok re n by (auto simp: sb_ok_def)
  have top: "sb_top (b\<lparr>sb_size := n, sb_s := Some p\<rparr>) = sb_top b" for p
  proof (cases "n \<le> sb_max b")
    case True
    have "(sb_max b - n) div 64 = (sb_max b - sb_size b) div 64 - 1" using n(1) by simp
    then show ?thesis using True n ok re by (simp add: sb_top_def sb_ok_def Let_def)
  next
    case False
    then have "sb_size b = 0" "n = 64" "sb_max b < 64" using n ok by (auto simp: sb_ok_def)
    then show ?thesis using re by (auto simp: sb_top_def Let_def)
  qed
  show ?thesis
  proof (cases "sb_s b")
    case None
    then obtain p where "balloc m n = Some p" "int (length p) = n" using balloc_granted(1)[OF m nn] by blast
    then show ?thesis using None ok re n top by (auto simp: sb_ok_def sb_out_def sb_cap_def Let_def)
  next
    case (Some s)
    obtain q where q: "brealloc m s n = Some q" "int (length q) = n" "take (length s) q = s"
      using balloc_granted(2)[OF m nn, of s] Some ok re n by (auto simp: sb_ok_def)
    have "take (nat (sb_count b)) q = take (nat (sb_count b)) s"
    proof -
      have "nat (sb_count b) \<le> length s" using Some ok by (auto simp: sb_ok_def)
      then show ?thesis using arg_cong[OF q(3), of "take (nat (sb_count b))"] by (simp add: min_absorb1)
    qed
    then show ?thesis using Some ok re n q top by (auto simp: sb_ok_def sb_out_def sb_cap_def Let_def)
  qed
qed

lemma sb_size_top: "sb_ok m b \<Longrightarrow> sb_size b \<le> sb_top b"
  by (auto simp: sb_ok_def sb_top_def Let_def)

lemma sb_out_length: "sb_ok m b \<Longrightarrow> sb_s b \<noteq> None \<Longrightarrow> length (sb_out b) = nat (sb_count b)"
  by (auto simp: sb_ok_def sb_out_def)

lemma sb_room: "sb_ok m b \<Longrightarrow> sb_s b \<noteq> None \<Longrightarrow> sb_count b \<le> sb_top b - 1"
  using sb_size_top[of m b] by (auto simp: sb_ok_def)

lemma sb_out_le: "sb_ok m b \<Longrightarrow> length (sb_out b) \<le> sb_cap b"
  using sb_out_length[of m b] sb_room[of m b] by (cases "sb_s b") (auto simp: sb_cap_def sb_out_def)

lemma put_store_keeps:
  "put_store b c = Some b' \<Longrightarrow> sb_realloc b' = sb_realloc b \<and> sb_max b' = sb_max b \<and> sb_s b' \<noteq> None"
  by (auto simp: put_store_def bind_eq_Some_conv)

lemma put_char_spec:
  assumes ok: "sb_ok m b"
  shows "\<exists>b'. put_char m b c = Some b' \<and> sb_ok m b' \<and> sb_cap b' = sb_cap b \<and>
     sb_out b' = (if c = CHR 0x00 then sb_out b else take (sb_cap b) (sb_out b @ [c])) \<and>
     sb_realloc b' = sb_realloc b \<and> sb_max b' = sb_max b \<and> sb_s b' \<noteq> None"
proof -
  have store: "\<exists>b'. put_store d c = Some b' \<and> sb_ok m b' \<and> sb_cap b' = sb_cap d \<and>
      sb_out b' = (if c = CHR 0x00 then sb_out d else take (sb_cap d) (sb_out d @ [c])) \<and>
      sb_realloc b' = sb_realloc d \<and> sb_max b' = sb_max d \<and> sb_s b' \<noteq> None"
    if d: "sb_ok m d" "sb_count d < sb_size d - 1" for d
  proof -
    obtain p where p: "sb_s d = Some p" using d by (auto simp: sb_ok_def split: option.splits)
    obtain b' where b': "put_store d c = Some b'" "sb_ok m b'" "sb_cap b' = sb_cap d"
      "sb_out b' = (if c = CHR 0x00 then sb_out d else sb_out d @ [c])" using put_store_room[OF d(1) p d(2)] by blast
    moreover have "c \<noteq> CHR 0x00 \<Longrightarrow> take (sb_cap d) (sb_out d @ [c]) = sb_out d @ [c]"
      using b' sb_out_le[OF b'(2)] by auto
    ultimately show ?thesis using put_store_keeps[OF b'(1)] by auto
  qed
  show ?thesis
  proof (cases "sb_count b < sb_size b - 1")
    case True
    then show ?thesis using store[OF ok] by (auto simp: put_char_def)
  next
    case full: False
    show ?thesis
    proof (cases "sb_realloc b \<and> (sb_size b + 64 \<le> sb_max b \<or> sb_size b + 64 \<le> 64)")
      case True
      obtain p where p: "(case sb_s b of None \<Rightarrow> balloc m (sb_size b + 64) | Some s \<Rightarrow> brealloc m s (sb_size b + 64)) = Some p"
        "let d = b\<lparr>sb_size := sb_size b + 64, sb_s := Some p\<rparr> in sb_ok m d \<and> sb_cap d = sb_cap b \<and> sb_out d = sb_out b \<and> sb_count d < sb_size d - 1"
        using sb_grow[OF ok, of "sb_size b + 64"] True by blast
      have "c_int (sb_size b + 64) = Some (sb_size b + 64)" using ok by (simp add: sb_ok_def mem_simps)
      then have "put_char m b c = put_store (b\<lparr>sb_size := sb_size b + 64, sb_s := Some p\<rparr>) c"
        using full True p(1) by (auto simp: put_char_def STR_INC_def)
      then show ?thesis using store[of "b\<lparr>sb_size := sb_size b + 64, sb_s := Some p\<rparr>"] p(2) by (auto simp: Let_def)
    next
      case False
      have sn: "sb_s b \<noteq> None" using False ok by (auto simp: sb_ok_def split: option.splits)
      have "sb_top b = sb_size b"
        using False ok sn by (auto simp: sb_top_def Let_def sb_ok_def)
      then have "length (sb_out b) = sb_cap b" using sb_out_length[OF ok sn] full ok sn by (auto simp: sb_cap_def sb_ok_def)
      moreover have "put_char m b c = Some b"
        using full False ok by (auto simp: put_char_def STR_INC_def sb_ok_def mem_simps)
      ultimately show ?thesis using ok sn by auto
    qed
  qed
qed

interpretation sb: char_sink "sb_ok m" sb_out sb_cap "put_char m" for m
  using put_char_spec sb_out_le by unfold_locales fastforce+

lemma put_chars_puts: "put_chars m b cs = sb.puts m b cs"
  by (induction cs arbitrary: b) auto

section \<open>The formatter writes its text\<close>

lemma put_chars_sent: "sb_ok m b \<Longrightarrow> CHR 0x00 \<notin> set cs \<Longrightarrow> \<exists>b'. put_chars m b cs = Some b' \<and> sb.sent m b cs b'"
  using sb.puts_sent by (simp add: put_chars_puts)

lemma sent_ok: "sb.sent m b t b' \<Longrightarrow> sb_ok m b'"
  by (simp add: sb.sent_def)

lemma put_string_sent:
  assumes ok: "sb_ok m b" and s: "CHR 0x00 \<notin> set s"
  shows "\<exists>b'. put_string m b s (-1) width prec f = Some b' \<and> sb.sent m b (string_text s width prec f) b'"
proof -
  define t where "t = (if prec \<ge> 0 then take (nat prec) s else s)"
  define n where "n = gstrnlen s (if prec \<ge> 0 then Some prec else None)"
  have n: "n = int (length t)" by (auto simp: n_def t_def gstrnlen_def min_def)
  have sl: "mem_slice (s @ [CHR 0x00]) 0 n = Some t"
    by (auto simp: n t_def mem_slice_def min_def)
  have nt: "CHR 0x00 \<notin> set t" using s by (auto simp: t_def dest: in_set_takeD)
  define padl where "padl = (if width > n \<and> \<not> flag_minus f then replicate (nat (width - n)) CHR '' '' else [])"
  define padr where "padr = (if width > n \<and> flag_minus f then replicate (nat (width - n)) CHR '' '' else [])"
  obtain b1 where b1: "put_chars m b padl = Some b1" "sb.sent m b padl b1"
    using put_chars_sent[OF ok, of padl] unfolding padl_def by fastforce
  obtain b2 where b2: "put_chars m b1 t = Some b2" "sb.sent m b1 t b2" using put_chars_sent[OF sent_ok[OF b1(2)] nt] by auto
  obtain b3 where b3: "put_chars m b2 padr = Some b3" "sb.sent m b2 padr b3"
    using put_chars_sent[OF sent_ok[OF b2(2)], of padr] unfolding padr_def by fastforce
  have "padl @ t @ padr = string_text s width prec f"
    by (auto simp: padl_def padr_def string_text_def n t_def[symmetric] Let_def nat_diff_distrib')
  moreover have "put_string m b s (-1) width prec f = Some b3"
    using b1(1) b2(1) b3(1) sl by (simp add: put_string_def n_def[symmetric] padl_def[symmetric] padr_def[symmetric] Let_def)
  ultimately show ?thesis using sb.sent_trans[OF b1(2) sb.sent_trans[OF b2(2) b3(2)]] by auto
qed

lemma digit_char_nonzero: "d < 16 \<Longrightarrow> digit_char upper d \<noteq> CHR 0x00"
proof -
  assume d: "d < 16"
  have "c_uchar (digit_char upper d) \<noteq> 0" using d by (auto simp: digit_char_def)
  then show ?thesis by (auto simp: c_uchar_def)
qed

lemma radix_less: "2 \<le> base \<Longrightarrow> d \<in> set (radix base n) \<Longrightarrow> d < base"
proof (induction base n rule: radix.induct)
  case (1 base n)
  then show ?case by (cases "n < base") (auto simp: radix_single radix_step)
qed

lemma num_text_clean: "base \<in> {8, 10, 16} \<Longrightarrow> CHR 0x00 \<notin> set (num_text base upper n)"
proof
  assume b: "base \<in> {8, 10, 16}" and "CHR 0x00 \<in> set (num_text base upper n)"
  then obtain d where d: "d \<in> set (radix base n)" "digit_char upper d = CHR 0x00" by (auto simp: num_text_def)
  then have "d < 16" using radix_less[of base d n] b by auto
  then show False using digit_char_nonzero d(2) by blast
qed

lemma put_ulong_sent:
  assumes ok: "sb_ok m b" and base: "base \<in> {8, 10, 16}" and v: "v < 2 ^ 32" and pre: "\<forall>p. prefix = Some p \<longrightarrow> CHR 0x00 \<notin> set p"
  shows "\<exists>b'. put_ulong m b v base upper prefix width prec f = Some b' \<and>
     sb.sent m b (ulong_text v base upper (case prefix of None \<Rightarrow> [] | Some p \<Rightarrow> p) width prec f) b'"
proof -
  define ds where "ds = num_text base upper v"
  define pr where "pr = (case prefix of None \<Rightarrow> [] | Some p \<Rightarrow> p)"
  define z where "z = nat prec - length ds"
  define padn where "padn = nat width - length (pr @ replicate z CHR ''0'' @ ds)"
  define padl where "padl = (if flag_minus f then [] else replicate padn (if flag_zero f then CHR ''0'' else CHR '' ''))"
  define padr where "padr = (if flag_minus f then replicate padn CHR '' '' else [])"
  obtain x where x: "ulong_scale base v 1 1 = (length ds, x)" "ulong_digits base v upper x = ds"
    using ulong_scale_digits[OF base v, of upper] by (auto simp: ds_def num_text_def)
  have "CHR 0x00 \<notin> set padl" by (simp add: padl_def)
  then obtain b1 where b1: "put_chars m b padl = Some b1" "sb.sent m b padl b1" using put_chars_sent[OF ok] by blast
  obtain b2 where b2: "(case prefix of None \<Rightarrow> Some b1 | Some p \<Rightarrow> put_string m b1 p (-1) 0 (-1) flag_none) = Some b2" "sb.sent m b1 pr b2"
  proof (cases prefix)
    case None
    then show ?thesis using that sb.sent_refl[OF sent_ok[OF b1(2)]] by (simp add: pr_def)
  next
    case (Some p)
    then show ?thesis
      using that put_string_sent[OF sent_ok[OF b1(2)], of p 0 "-1" flag_none] pre by (auto simp: pr_def string_text_def flag_none_def)
  qed
  obtain b3 where b3: "put_chars m b2 (replicate z CHR ''0'') = Some b3" "sb.sent m b2 (replicate z CHR ''0'') b3"
    using put_chars_sent[OF sent_ok[OF b2(2)], of "replicate z CHR ''0''"] by auto
  obtain b4 where b4: "put_chars m b3 ds = Some b4" "sb.sent m b3 ds b4"
    using put_chars_sent[OF sent_ok[OF b3(2)], of ds] num_text_clean[OF base] by (auto simp: ds_def)
  obtain b5 where b5: "put_chars m b4 padr = Some b5" "sb.sent m b4 padr b5"
    using put_chars_sent[OF sent_ok[OF b4(2)], of padr] unfolding padr_def by fastforce
  have zn: "nat (if prec > int (length ds) then prec - int (length ds) else 0) = z" by (auto simp: z_def)
  have w: "nat (case prefix of None \<Rightarrow> width - ((if prec > int (length ds) then prec - int (length ds) else 0) + int (length ds))
      | Some p \<Rightarrow> width - ((if prec > int (length ds) then prec - int (length ds) else 0) + int (length ds)) - gstrnlen p None) = padn"
    by (auto simp: padn_def pr_def z_def gstrnlen_def split: option.split)
  have "put_ulong m b v base upper prefix width prec f = Some b5"
    using b1(1) b2(1) b3(1) b4(1) b5(1)
    by (cases "flag_minus f") (auto simp: put_ulong_def x[unfolded One_nat_def] Let_def zn w padl_def padr_def)
  moreover have "sb.sent m b (padl @ pr @ replicate z CHR ''0'' @ ds @ padr) b5"
    using sb.sent_trans[OF b1(2) sb.sent_trans[OF b2(2) sb.sent_trans[OF b3(2) sb.sent_trans[OF b4(2) b5(2)]]]] .
  moreover have "padl @ pr @ replicate z CHR ''0'' @ ds @ padr = ulong_text v base upper pr width prec f"
    by (simp add: ulong_text_def Let_def padl_def padr_def padn_def z_def ds_def)
  ultimately show ?thesis by (auto simp: pr_def)
qed

lemma fmt_signed_sent:
  assumes "sb_ok m b" "\<bar>v\<bar> < 2 ^ 31"
  shows "\<exists>b'. fmt_signed m f width prec b v = Some b' \<and> sb.sent m b (signed_text f width prec v) b'"
proof (cases "v \<ge> 0")
  case True
  then show ?thesis
    using put_ulong_sent[OF assms(1), of 10 "nat v" "if flag_plus f then Some ''+'' else if flag_space f then Some '' '' else None" False width prec f]
      assms(2) by (auto simp: fmt_signed_def signed_text_def)
next
  case False
  then show ?thesis
    using put_ulong_sent[OF assms(1), of 10 "nat (- v)" "Some ''-''" False width prec f] assms(2)
    by (auto simp: fmt_signed_def signed_text_def mem_simps)
qed

lemma fmt_unsigned_sent:
  assumes "sb_ok m b" "v < 2 ^ 32" "c \<in> {CHR ''o'', CHR ''u'', CHR ''x'', CHR ''X''}"
  shows "\<exists>b'. fmt_unsigned m f width prec c b v = Some b' \<and> sb.sent m b (unsigned_text f width prec c v) b'"
proof -
  define base :: nat where "base = (if c = CHR ''o'' then 8 else if c = CHR ''u'' then 10 else 16)"
  define pre where "pre = (if flag_hash f \<and> v \<noteq> 0 then
      (if c = CHR ''o'' then Some ''0'' else if c = CHR ''x'' then Some ''0x'' else if c = CHR ''X'' then Some ''0X'' else None) else None)"
  have "fmt_unsigned m f width prec c b v = put_ulong m b v base (c = CHR ''X'') pre width prec f"
    using assms(3) by (auto simp: fmt_unsigned_def base_def pre_def)
  moreover have "unsigned_text f width prec c v = ulong_text v base (c = CHR ''X'') (case pre of None \<Rightarrow> [] | Some p \<Rightarrow> p) width prec f"
    by (auto simp: unsigned_text_def base_def pre_def)
  moreover have "base \<in> {8, 10, 16}" "\<forall>p. pre = Some p \<longrightarrow> CHR 0x00 \<notin> set p" by (auto simp: base_def pre_def)
  ultimately show ?thesis using put_ulong_sent[OF assms(1) _ assms(2)] by metis
qed

lemma put_char_sent: "sb_ok m b \<Longrightarrow> c \<noteq> CHR 0x00 \<Longrightarrow> \<exists>b'. put_char m b c = Some b' \<and> sb.sent m b [c] b'"
  using put_chars_sent[of m b "[c]"] by (cases "put_char m b c") auto

lemma c_short_range: "\<bar>c_short i\<bar> < 2 ^ 31"
proof -
  have "0 \<le> (i + 2 ^ 15) mod 2 ^ 16" "(i + 2 ^ 15) mod 2 ^ 16 < (2 ^ 16 :: int)" by simp_all
  then show ?thesis by (simp add: c_short_def)
qed

lemma fmt_conv_sent:
  assumes ok: "sb_ok m b" and t: "conv_text f width prec c args = Some (t, args')"
  shows "\<exists>b'. fmt_conv m sc f width prec c b args ns = Some (b', args', ns) \<and> sb.sent m b t b'"
proof -
  consider (d) "c \<in> {CHR ''d'', CHR ''i''}" | (u) "c \<in> {CHR ''o'', CHR ''u'', CHR ''x'', CHR ''X''}" | (c) "c = CHR ''c''"
    | (s) "c \<in> {CHR ''s'', CHR ''S''}" | (other) "c \<notin> {CHR ''d'', CHR ''i'', CHR ''o'', CHR ''u'', CHR ''x'', CHR ''X'', CHR ''c'', CHR ''s'', CHR ''S''}"
    by blast
  then show ?thesis
  proof cases
    case d
    then obtain i where i: "args = VInt i # args'" "\<bar>i\<bar> < 2 ^ 31" "t = signed_text f width prec (if flag_short f then c_short i else i)"
      using t by (auto simp: conv_text_def split: list.splits fmt_arg.splits if_splits)
    have "\<bar>if flag_short f then c_short i else i\<bar> < 2 ^ 31" using i(2) c_short_range by simp
    then show ?thesis using fmt_signed_sent[OF ok, of _ f width prec] i d by (fastforce simp: fmt_conv_def va_int_def)
  next
    case u
    then obtain i where i: "args = VInt i # args'" "t = unsigned_text f width prec c (nat (if flag_short f then i mod 2 ^ 16 else i mod 2 ^ 32))"
      using t by (auto simp: conv_text_def split: list.splits fmt_arg.splits if_splits)
    have "nat (if flag_short f then i mod 2 ^ 16 else i mod 2 ^ 32) < 2 ^ 32"
      using pos_mod_bound[of "2 ^ 16" i] pos_mod_bound[of "2 ^ 32" i] by auto
    from fmt_unsigned_sent[OF ok this u, of f width prec] show ?thesis using i u by (auto simp: fmt_conv_def va_int_def)
  next
    case c
    then obtain i where i: "args = VInt i # args'" "t = filter (\<lambda>d. d \<noteq> CHR 0x00) [to_char i]"
      using t by (auto simp: conv_text_def split: list.splits fmt_arg.splits if_splits)
    have "\<exists>b'. put_char m b (to_char i) = Some b' \<and> sb.sent m b t b'"
    proof (cases "to_char i = CHR 0x00")
      case True
      obtain b' where "put_char m b CHR 0x00 = Some b'" "sb_ok m b'" "sb_cap b' = sb_cap b" "sb_out b' = sb_out b"
        using put_char_spec[OF ok, of "CHR 0x00"] by auto
      then show ?thesis using sb_out_le[OF ok] i True by (simp add: sb.sent_def)
    next
      case False
      then show ?thesis using put_char_sent[OF ok False] i by simp
    qed
    then show ?thesis using i c by (auto simp: fmt_conv_def va_int_def)
  next
    case s
    have h: "\<not> flag_hash f" using s t by (auto simp: conv_text_def split: if_splits)
    have ct: "conv_text f width prec c args = (case args of
         VStr (Some v) # r \<Rightarrow> if CHR 0x00 \<in> set v then None else Some (string_text v width prec f, r)
       | VStr None # r \<Rightarrow> Some (string_text ''(null)'' width prec f, r) | _ \<Rightarrow> None)"
      using s h by (auto simp: conv_text_def)
    obtain a r where ar: "args = a # r" using t unfolding ct by (cases args) auto
    obtain v where v: "args = VStr v # args'" "CHR 0x00 \<notin> set (case v of Some u \<Rightarrow> u | None \<Rightarrow> ''(null)'')"
      "t = string_text (case v of Some u \<Rightarrow> u | None \<Rightarrow> ''(null)'') width prec f"
      using t[unfolded ct] unfolding ar by (auto split: fmt_arg.splits option.splits if_splits)
    obtain b' where b': "put_string m b (case v of Some u \<Rightarrow> u | None \<Rightarrow> ''(null)'') (-1) width prec f = Some b'" "sb.sent m b t b'"
      using put_string_sent[OF ok v(2)] v(3) by blast
    have "c = CHR ''s'' \<or> c = CHR ''S''" using s by simp
    then have "fmt_conv m sc f width prec c b args ns = Some (b', args', ns)"
      using h v(1) b'(1) by (elim disjE; cases v; simp add: fmt_conv_def va_str_def)
    then show ?thesis using b'(2) by blast
  next
    case other
    then have o: "c \<noteq> CHR ''p''" "c \<noteq> CHR ''n''" "c \<noteq> CHR 0x00" "t = [c]" "args' = args" using t by (auto simp: conv_text_def split: if_splits)
    then show ?thesis using put_char_sent[OF ok o(3)] other by (auto simp: fmt_conv_def)
  qed
qed

lemma dsn_loop_sent:
  assumes "sb_ok m b" and "fmt_text fmt args = Some t"
  shows "\<exists>b'. dsn_loop m sc fmt b args ns = Some (b', ns) \<and> sb.sent m b t b'"
  using assms
proof (induction fmt args arbitrary: b t rule: fmt_text.induct)
  case (1 fmt args)
  obtain c fmt1 where f: "fmt = c # fmt1" using 1(5) by (cases fmt) (simp_all add: fmt_text.simps[of "[]"])
  note tx = 1(5)[unfolded f fmt_text.simps[of "c # fmt1"] list.case]
  note run = dsn_loop.simps[of m sc "c # fmt1" b args ns, unfolded list.case, folded f]
  consider (stop) "c = CHR 0x00" | (plain) "c \<noteq> CHR 0x00" "c \<noteq> CHR ''%''" | (pct) "c = CHR ''%''" by blast
  then show ?case
  proof cases
    case stop
    then show ?thesis using tx run sb.sent_refl[OF 1(4)] by simp
  next
    case plain
    obtain u where u: "fmt_text fmt1 args = Some u" "t = c # u" using tx plain by auto
    obtain b1 where b1: "put_char m b c = Some b1" "sb.sent m b [c] b1" using put_char_sent[OF 1(4) plain(1)] by blast
    obtain b' where "dsn_loop m sc fmt1 b1 args ns = Some (b', ns)" "sb.sent m b1 u b'"
      using 1(1)[OF f plain sent_ok[OF b1(2)] u(1)] by blast
    then show ?thesis using run plain b1 sb.sent_trans[OF b1(2)] u(2) by fastforce
  next
    case pct
    obtain c1 fmt2 where f1: "fmt1 = c1 # fmt2" using tx pct by (cases fmt1) auto
    show ?thesis
    proof (cases "c1 = CHR ''%''")
      case True
      obtain u where u: "fmt_text fmt2 args = Some u" "t = c1 # u" using tx pct True f1 by auto
      obtain b1 where b1: "put_char m b c1 = Some b1" "sb.sent m b [c1] b1" using put_char_sent[OF 1(4), of c1] True by auto
      obtain b' where "dsn_loop m sc fmt2 b1 args ns = Some (b', ns)" "sb.sent m b1 u b'"
        using 1(2)[OF f _ _ f1 True sent_ok[OF b1(2)] u(1)] pct by auto
      then show ?thesis using run pct True f1 b1 sb.sent_trans[OF b1(2)] u(2) by fastforce
    next
      case False
      obtain fl width prec cv fmt3 args1 v args2 u where
        u: "fmt_spec c1 fmt2 args = Some (fl, width, prec, cv, fmt3, args1)" "conv_text fl width prec cv args1 = Some (v, args2)"
        "fmt_text fmt3 args2 = Some u" "t = v @ u"
        using tx pct False f1 by (auto simp: bind_eq_Some_conv)
      obtain b1 where b1: "fmt_conv m sc fl width prec cv b args1 ns = Some (b1, args2, ns)" "sb.sent m b v b1"
        using fmt_conv_sent[OF 1(4) u(2)] by blast
      obtain b' where "dsn_loop m sc fmt3 b1 args2 ns = Some (b', ns)" "sb.sent m b1 u b'"
        using 1(3)[OF f _ _ f1 False u(1) refl refl refl refl refl u(2) refl sent_ok[OF b1(2)] u(3)] pct by auto
      then show ?thesis using run pct False f1 u b1(1) sb.sent_trans[OF b1(2)] by fastforce
    qed
  qed
qed

text \<open>The C string at the start of a block.\<close>

definition c_str :: "byte list \<Rightarrow> cstring" where
  "c_str b = takeWhile (\<lambda>c. c \<noteq> CHR 0x00) b"

lemma c_str_NUL: "CHR 0x00 \<notin> set s \<Longrightarrow> c_str (s @ CHR 0x00 # r) = s"
  by (simp add: c_str_def takeWhile_append)

lemma c_str_prefix:
  assumes "CHR 0x00 \<notin> set (take n p)" "n < length p" "p ! n = CHR 0x00"
  shows "c_str p = take n p"
proof -
  have "p = take n p @ CHR 0x00 # drop (Suc n) p" using assms(2,3) id_take_nth_drop by metis
  moreover have "takeWhile (\<lambda>c. c \<noteq> CHR 0x00) (take n p @ CHR 0x00 # drop (Suc n) p) = take n p"
    using assms(1) by (subst takeWhile_append2) auto
  ultimately show ?thesis by (simp add: c_str_def)
qed

lemma sb_terminated:
  assumes ok: "sb_ok m b" and p: "sb_s b = Some p"
  shows "\<exists>q. mem_write p (if sb_count b < n then sb_count b else sb_size b - 1) CHR 0x00 = Some q \<and> CHR 0x00 \<in> set q \<and>
     (sb_count b < n \<longrightarrow> c_str q = sb_out b)"
proof -
  have l: "0 \<le> sb_count b" "sb_count b < sb_size b" "sb_size b \<le> int (length p)" "CHR 0x00 \<notin> set (take (nat (sb_count b)) p)"
    using ok p by (auto simp: sb_ok_def sb_out_def)
  have "c_str (p[nat (sb_count b) := CHR 0x00]) = sb_out b"
    using c_str_prefix[of "nat (sb_count b)" "p[nat (sb_count b) := CHR 0x00]"] l p by (simp add: sb_out_def nat_less_iff)
  then show ?thesis using l by (auto simp: mem_write_def set_update_memI nat_less_iff)
qed

text \<open>All entry points: from a well-formed buffer the text is appended up to the capacity.\<close>

lemma dsnprintf_spec:
  assumes t: "fmt_text (fmt @ [CHR 0x00]) args = Some t" and sz: "0 < sz"
    and cnt: "(case s of Some b \<Rightarrow> if msize \<noteq> 0 then c_strlen b else Some 0 | None \<Rightarrow> Some 0) = Some cnt"
    and b: "b = \<lparr>sb_s = s, sb_size = (if s = None \<or> msize \<noteq> 0 then (if msize \<noteq> 0 then max msize 0 else 0) else sz),
                sb_max = (if s = None \<or> msize \<noteq> 0 then sz else 0), sb_count = cnt, sb_realloc = (s = None \<or> msize \<noteq> 0)\<rparr>"
    and ok: "sb_ok m b"
  shows "\<exists>p r. dsnprintf m sc s sz fmt args msize = Some (Some p, r, []) \<and> CHR 0x00 \<in> set p \<and>
     (let u = take (sb_cap b) (sb_out b @ t) in (int (length u) < sz \<longrightarrow> c_str p = u) \<and> (msize = 0 \<longrightarrow> r = int (length u)))"
proof -
  obtain b1 where b1: "dsn_loop m sc (fmt @ [CHR 0x00]) b args [] = Some (b1, [])" "sb.sent m b t b1"
    using dsn_loop_sent[OF ok t] by blast
  obtain b2 where b2: "(if sb_s b1 = None then put_char m b1 CHR 0x00 else Some b1) = Some b2" "sb_ok m b2" "sb_s b2 \<noteq> None"
    "sb_out b2 = take (sb_cap b) (sb_out b @ t)"
    using put_char_spec[OF sent_ok[OF b1(2)], of "CHR 0x00"] b1(2) by (cases "sb_s b1") (auto simp: sb.sent_def)
  obtain p where p: "sb_s b2 = Some p" using b2(3) by auto
  obtain q where q: "mem_write p (if sb_count b2 < sz then sb_count b2 else sb_size b2 - 1) CHR 0x00 = Some q"
    "CHR 0x00 \<in> set q" "sb_count b2 < sz \<longrightarrow> c_str q = sb_out b2" using sb_terminated[OF b2(2) p] by blast
  have "sb_count b2 = int (length (sb_out b2))" using sb_out_length[OF b2(2,3)] b2(2) by (simp add: sb_ok_def)
  then show ?thesis
    using b1(1) b2(1,4) p q sz cnt by (auto simp: dsnprintf_def b[symmetric] Let_def)
qed

section \<open>Reading numbers back\<close>

lemma digit_char_uchar: "d < 10 \<Longrightarrow> c_uchar (digit_char upper d) = 48 + int d"
  by (simp add: digit_char_def)

lemma num_text_digits: "\<forall>c\<in>set (num_text 10 upper n). c_isdigit c"
proof
  fix c assume "c \<in> set (num_text 10 upper n)"
  then obtain d where "d < 10" "c = digit_char upper d" using radix_less[of 10 _ n] by (auto simp: num_text_def)
  then show "c_isdigit c" using digit_char_uchar[of d upper] by (simp add: c_isdigit_def)
qed

lemma num_text_value: "foldl (\<lambda>n c. n * 10 + (c_uchar c - 48)) 0 (num_text 10 upper n) = int n"
proof (induction "10 :: nat" n rule: radix.induct)
  case (1 n)
  show ?case
  proof (cases "n < 10")
    case True
    then show ?thesis by (simp add: num_text_def radix_single digit_char_uchar)
  next
    case False
    then have "num_text 10 upper n = num_text 10 upper (n div 10) @ [digit_char upper (n mod 10)]"
      by (simp add: num_text_def radix_step)
    then show ?thesis using 1 False by (simp add: digit_char_uchar zdiv_int zmod_int)
  qed
qed

lemma c_digits_value_num: "c_digits_value (num_text 10 upper n) = int n"
proof -
  have "takeWhile c_isdigit (num_text 10 upper n) = num_text 10 upper n"
    using num_text_digits takeWhile_eq_all_conv by blast
  then show ?thesis unfolding c_digits_value_def by (simp only: num_text_value)
qed

definition int_text :: "int \<Rightarrow> string" where
  "int_text i = (if i < 0 then ''-'' else []) @ num_text 10 False (nat \<bar>i\<bar>)"

lemma num_text_ne: "num_text 10 upper n \<noteq> []"
  by (cases "n < 10") (simp_all add: num_text_def radix_single radix_step)

lemma c_digit_not: "c_isdigit c \<Longrightarrow> \<not> c_isspace c \<and> c \<noteq> CHR ''-'' \<and> c \<noteq> CHR ''+'' \<and> c \<noteq> CHR ''x'' \<and> c \<noteq> CHR ''X''"
  by (auto simp: c_isdigit_def c_isspace_def c_uchar_def)

lemma c_atoi_int_text: "\<bar>i\<bar> < 2 ^ 31 \<Longrightarrow> c_atoi (int_text i) = Some i"
proof (cases "i < 0")
  case True
  assume "\<bar>i\<bar> < 2 ^ 31"
  moreover have "dropWhile c_isspace (int_text i) = CHR ''-'' # num_text 10 False (nat \<bar>i\<bar>)"
    using True by (simp add: int_text_def c_isspace_def c_uchar_def)
  ultimately show ?thesis using True by (simp add: c_atoi_def c_digits_value_num mem_simps)
next
  case False
  assume b: "\<bar>i\<bar> < 2 ^ 31"
  obtain c r where cr: "num_text 10 False (nat \<bar>i\<bar>) = c # r" using num_text_ne by (cases "num_text 10 False (nat \<bar>i\<bar>)") auto
  then have d: "c_isdigit c" using num_text_digits[of False "nat \<bar>i\<bar>"] by auto
  have "int_text i = c # r" using False cr by (simp add: int_text_def)
  moreover have "c_digits_value (c # r) = i" using c_digits_value_num[of False "nat \<bar>i\<bar>"] False unfolding cr by simp
  ultimately show ?thesis using c_digit_not[OF d] b by (simp add: c_atoi_def mem_simps)
qed

lemma gstrtoi_int_text:
  assumes "\<bar>i\<bar> < 2 ^ 31"
  shows "gstrtoi (int_text i) = Some (word_of_int i)"
proof -
  have "\<not> (\<exists>h b. int_text i = CHR ''0'' # b # h \<and> b \<in> {CHR ''x'', CHR ''X''})"
  proof
    assume "\<exists>h b. int_text i = CHR ''0'' # b # h \<and> b \<in> {CHR ''x'', CHR ''X''}"
    then obtain h b where hb: "int_text i = CHR ''0'' # b # h" "b \<in> {CHR ''x'', CHR ''X''}" by blast
    then have "num_text 10 False (nat \<bar>i\<bar>) = CHR ''0'' # b # h" by (auto simp: int_text_def split: if_splits)
    then have "c_isdigit b" using num_text_digits[of False "nat \<bar>i\<bar>"] by auto
    then show False using c_digit_not hb(2) by blast
  qed
  then show ?thesis using c_atoi_int_text[OF assms] by (auto simp: gstrtoi_def split: list.splits)
qed

lemma signed_text_int: "signed_text flag_none 0 (-1) i = int_text i"
  by (simp add: signed_text_def ulong_text_def int_text_def flag_none_def Let_def)

lemma radix_length: "2 \<le> base \<Longrightarrow> n < base ^ Suc k \<Longrightarrow> length (radix base n) \<le> Suc k"
proof (induction k arbitrary: n)
  case 0
  then show ?case by (simp add: radix_single)
next
  case (Suc k)
  show ?case
  proof (cases "n < base")
    case True
    then show ?thesis by (simp add: radix_single)
  next
    case False
    have "n div base < base ^ Suc k" using Suc.prems by (simp add: div_less_iff_less_mult mult.commute)
    then show ?thesis using Suc.IH[OF Suc.prems(1)] False Suc.prems(1) by (simp add: radix_step)
  qed
qed

lemma int_text_length: "\<bar>i\<bar> < 2 ^ 31 \<Longrightarrow> length (int_text i) \<le> 11"
proof -
  assume i: "\<bar>i\<bar> < 2 ^ 31"
  have "length (radix 10 (nat \<bar>i\<bar>)) \<le> 10" using radix_length[of 10 "nat \<bar>i\<bar>" 9] i by simp
  then have "length (num_text 10 False (nat \<bar>i\<bar>)) \<le> 10" by (simp add: num_text_def)
  then show ?thesis by (cases "i < 0") (auto simp: int_text_def abs_if)
qed

lemma fmt_text_plain: "c \<noteq> CHR 0x00 \<Longrightarrow> c \<noteq> CHR ''%'' \<Longrightarrow> fmt_text (c # fmt) args = map_option (Cons c) (fmt_text fmt args)"
  by (simp add: fmt_text.simps[of "c # fmt"])

lemma fmt_text_nul: "fmt_text (CHR 0x00 # fmt) args = Some []"
  by (simp add: fmt_text.simps[of "CHR 0x00 # fmt"])

lemma fmt_text_d:
  "\<bar>i\<bar> < 2 ^ 31 \<Longrightarrow> fmt_text (CHR ''%'' # CHR ''d'' # fmt) (VInt i # args) = map_option ((@) (int_text i)) (fmt_text fmt args)"
  by (simp add: fmt_text.simps[of "CHR ''%'' # CHR ''d'' # fmt"] fmt_spec_def fmt_flags_of.simps fmt_width_def fmt_digits.simps
      fmt_prec_def fmt_size_def c_isdigit_def c_uchar_def conv_text_def flag_none_def[symmetric] signed_text_int)
    (simp add: flag_none_def)

lemma fmt_text_s:
  "CHR 0x00 \<notin> set v \<Longrightarrow> fmt_text (CHR ''%'' # CHR ''s'' # fmt) (VStr (Some v) # args) = map_option ((@) v) (fmt_text fmt args)"
  by (simp add: fmt_text.simps[of "CHR ''%'' # CHR ''s'' # fmt"] fmt_spec_def fmt_flags_of.simps fmt_width_def fmt_digits.simps
      fmt_prec_def fmt_size_def c_isdigit_def c_uchar_def conv_text_def flag_none_def string_text_def)

section \<open>Properties\<close>

text \<open>The number of characters a buffer that grows in steps of 64 bytes up to \<open>n\<close> can hold.\<close>

definition fmt_cap :: "int \<Rightarrow> nat" where
  "fmt_cap n = nat (if n < 64 then 63 else 64 * (n div 64) - 1)"

lemma fmt_cap_range: "63 \<le> fmt_cap n" "64 \<le> n \<Longrightarrow> int (fmt_cap n) < n"
proof -
  show "63 \<le> fmt_cap n"
  proof (cases "n < 64")
    case False
    then have "1 \<le> n div 64" by linarith
    then show ?thesis using False by (simp add: fmt_cap_def)
  qed (simp add: fmt_cap_def)
  show "64 \<le> n \<Longrightarrow> int (fmt_cap n) < n" by (auto simp: fmt_cap_def)
qed

lemma fmtAlloc_spec:
  assumes "\<forall>k. m k \<noteq> None" and "0 < n" and "n \<le> 2 ^ 30" and "fmt_text (fmt @ [CHR 0x00]) args = Some t"
  shows "\<exists>p. fmtAlloc m sc n fmt args = Some (Some p, int (length (take (fmt_cap n) t)), []) \<and> CHR 0x00 \<in> set p \<and>
     (int (length (take (fmt_cap n) t)) < n \<longrightarrow> c_str p = take (fmt_cap n) t)"
proof -
  define b where "b = \<lparr>sb_s = None, sb_size = 0, sb_max = n, sb_count = 0, sb_realloc = True\<rparr>"
  have "sb_ok m b" using assms(1,3) by (simp add: b_def sb_ok_def sb_out_def)
  moreover have "sb_cap b = fmt_cap n" using assms(2) by (auto simp: b_def sb_cap_def sb_top_def fmt_cap_def Let_def)
  moreover have "sb_out b = []" by (simp add: b_def sb_out_def)
  ultimately show ?thesis
    using dsnprintf_spec[OF assms(4,2), where s = None and msize = 0 and cnt = 0 and b = b and m = m and sc = sc] by (auto simp: b_def fmtAlloc_def Let_def)
qed

text \<open>A block whose C string is short of the block holds its NUL.\<close>

lemma fmtAlloc_str:
  assumes "\<forall>k. m k \<noteq> None" "64 \<le> n \<or> int (length t) < n" "0 < n" "n \<le> 2 ^ 30" "fmt_text (fmt @ [CHR 0x00]) args = Some t" "length t \<le> fmt_cap n"
  shows "\<exists>b r. fmtAlloc m sc n fmt args = Some (Some b, r, []) \<and> c_str b = t \<and> CHR 0x00 \<in> set b"
proof -
  have "int (length t) < n" using assms(2,6) fmt_cap_range(2)[of n] by linarith
  then show ?thesis using fmtAlloc_spec[OF assms(1,3-5), of sc] assms(6) by auto
qed





text \<open>
  C40. Numbers survive printing and reading: for every \<^verbatim>\<open>int\<close> but the least, \<^verbatim>\<open>fmtAlloc\<close> with \<^verbatim>\<open>%d\<close>
  and any limit from 12 up gives a C string that \<^verbatim>\<open>gstrtoi\<close> converts back, as an unsigned
  number that the conversion to \<^verbatim>\<open>int\<close> makes equal to the original.
\<close>

theorem gstrtoi_fmtAlloc:
  assumes "\<forall>k. m k \<noteq> None" and "12 \<le> n" and "n \<le> 2 ^ 30" and "\<bar>i\<bar> < 2 ^ 31"
  shows "\<exists>p r. fmtAlloc m sc n ''%d'' [VInt i] = Some (Some p, r, []) \<and> map_option sint (gstrtoi (c_str p)) = Some i"
proof -
  have t: "fmt_text (''%d'' @ [CHR 0x00]) [VInt i] = Some (int_text i)" using fmt_text_d[OF assms(4)] by (simp add: fmt_text_nul)
  have "length (int_text i) \<le> 11" using int_text_length[OF assms(4)] .
  moreover have "63 \<le> fmt_cap n" by (rule fmt_cap_range)
  ultimately have tk: "take (fmt_cap n) (int_text i) = int_text i" "int (length (int_text i)) < n" using assms(2) by auto
  have p: "\<exists>p. fmtAlloc m sc n ''%d'' [VInt i] = Some (Some p, int (length (int_text i)), []) \<and> c_str p = int_text i"
    using fmtAlloc_spec[OF assms(1) _ assms(3) t, of sc] tk assms(2) by auto
  have "sint (word_of_int i :: 32 word) = i" using assms(4) by (simp add: signed_of_int signed_take_bit_int_eq_self)
  then show ?thesis using p gstrtoi_int_text[OF assms(4)] by fastforce
qed

theorem gstrtoi_fmtAlloc_witness:
  "\<exists>p r. fmtAlloc (\<lambda>_. Some (\<lambda>_. CHR 0x00)) True 20 ''%d'' [VInt (-2147483647)] = Some (Some p, r, []) \<and>
     map_option sint (gstrtoi (c_str p)) = Some (-2147483647)"
  using gstrtoi_fmtAlloc[of "\<lambda>_. Some (\<lambda>_. CHR 0x00)" 20 "-2147483647" True] by simp

end
