(* ===== verification/DbFile.thy ===== *)
theory DbFile
  imports Fmt UserMgmt
begin

text \<open>
  Persistence of the database: \<^verbatim>\<open>dbSave\<close> and \<^verbatim>\<open>dbLoad\<close> of \<^verbatim>\<open>emfdb.c\<close> with their helpers, and
  \<^verbatim>\<open>umCommit\<close> and \<^verbatim>\<open>umRestore\<close> of \<^verbatim>\<open>um.c\<close>. Files are a map from paths to contents; an
  environment says which system calls fail and how much a \<^verbatim>\<open>write\<close> takes. The main result is
  the round trip: saving, emptying and loading gives back the rows in their order.
\<close>

section \<open>Files\<close>

type_synonym filesys = "cstring \<rightharpoonup> byte list"

text \<open>
  \<open>io_create\<close>: the file can be created or truncated; \<open>io_write\<close>: the result of a \<^verbatim>\<open>write\<close> after
  the bytes written so far; \<open>io_rename\<close>: the call succeeds; \<open>io_read\<close>: the file can be opened
  and read completely.
\<close>

record io_env =
  io_create :: "cstring \<Rightarrow> bool"
  io_write :: "byte list \<Rightarrow> byte list \<Rightarrow> int"
  io_rename :: "cstring \<Rightarrow> cstring \<Rightarrow> bool"
  io_read :: "cstring \<Rightarrow> bool"

definition BUF_MAX :: int where "BUF_MAX = 4096"

definition KEYWORD_TABLE :: cstring where "KEYWORD_TABLE = ''TABLE''"
definition KEYWORD_ROW :: cstring where "KEYWORD_ROW = ''ROW''"

text \<open>A formatted string used as a C string: its block has to hold a NUL.\<close>

definition fmt_str :: "balloc_env \<Rightarrow> bool \<Rightarrow> int \<Rightarrow> cstring \<Rightarrow> fmt_arg list \<Rightarrow> cstring option" where
  "fmt_str m sc n fmt args = do {
     (p, _, _) \<leftarrow> fmtAlloc m sc n fmt args;
     b \<leftarrow> p;
     if CHR 0x00 \<in> set b then Some (c_str b) else None }"

section \<open>Saving\<close>

text \<open>\<open>w\<close> is what the file holds so far; the result is the new contents and the code.\<close>

definition dbWriteKeyValue ::
    "balloc_env \<Rightarrow> bool \<Rightarrow> io_env \<Rightarrow> byte list \<Rightarrow> cstring \<Rightarrow> cstring option \<Rightarrow> (byte list \<times> int) option" where
  "dbWriteKeyValue m sc io w key v = do {
     (p, _, _) \<leftarrow> fmtAlloc m sc BUF_MAX (''%s=%s'' @ [CHR 0x0A]) [VStr (Some key), VStr v];
     (case p of
        None \<Rightarrow> Some (w, -1)
      | Some b \<Rightarrow> do {
          len \<leftarrow> c_strlen b;
          let rc = io_write io w (take (nat len) b);
          Some (if rc < 0 then w else w @ take (nat rc) (take (nat len) b), rc) }) }"

fun save_cols ::
    "balloc_env \<Rightarrow> bool \<Rightarrow> io_env \<Rightarrow> dbTable \<Rightarrow> cell list \<Rightarrow> int \<Rightarrow> nat \<Rightarrow> byte list \<Rightarrow> int \<Rightarrow> (byte list \<times> int) option" where
  "save_cols m sc io t pRow column 0 w rc = Some (w, rc)"
| "save_cols m sc io t pRow column (Suc n) w rc =
     (if rc < 0 then Some (w, rc)
      else do {
        nm \<leftarrow> mem_read (columnNames t) column;
        ty \<leftarrow> mem_read (columnTypes t) column;
        x \<leftarrow> mem_read pRow column;
        (w1, rc1) \<leftarrow> (if ty = T_STRING then do { v \<leftarrow> cell_ptr x; dbWriteKeyValue m sc io w nm v }
                      else (case x of
                              CInt i \<Rightarrow> do { num \<leftarrow> fmt_str m sc 20 ''%d'' [VInt i]; dbWriteKeyValue m sc io w nm (Some num) }
                            | CStr _ \<Rightarrow> None));
        save_cols m sc io t pRow (column + 1) n w1 rc1 })"

text \<open>
  A row is written unless it is deleted, its first cell is null, or the string there is
  empty; the first cell is read as a pointer whatever its type. The result is the contents
  and \<^verbatim>\<open>nRet\<close>.
\<close>

fun save_rows ::
    "balloc_env \<Rightarrow> bool \<Rightarrow> io_env \<Rightarrow> dbTable \<Rightarrow> int \<Rightarrow> nat \<Rightarrow> byte list \<Rightarrow> (byte list \<times> int) option" where
  "save_rows m sc io t row 0 w = Some (w, 0)"
| "save_rows m sc io t row (Suc n) w = do {
     e \<leftarrow> h_entry (rows t) row;
     (case e of
        None \<Rightarrow> save_rows m sc io t (row + 1) n w
      | Some pRow \<Rightarrow> do {
          x \<leftarrow> mem_read pRow 0;
          p \<leftarrow> cell_ptr x;
          if p = None \<or> p = Some [] then save_rows m sc io t (row + 1) n w
          else do {
            num \<leftarrow> fmt_str m sc 20 ''%d'' [VInt row];
            (w1, rc1) \<leftarrow> dbWriteKeyValue m sc io w KEYWORD_ROW (Some num);
            (w2, rc2) \<leftarrow> save_cols m sc io t pRow 0 (nat (nColumns t)) w1 rc1;
            if rc2 < 0 then Some (w2, -1) else save_rows m sc io t (row + 1) n w2 } }) }"

fun save_tables ::
    "balloc_env \<Rightarrow> bool \<Rightarrow> io_env \<Rightarrow> dbstate \<Rightarrow> int \<Rightarrow> nat \<Rightarrow> byte list \<Rightarrow> (byte list \<times> int) option" where
  "save_tables m sc io db tid 0 w = Some (w, 0)"
| "save_tables m sc io db tid (Suc n) w = do {
     e \<leftarrow> h_entry (dbListTables db) tid;
     (case e of
        None \<Rightarrow> save_tables m sc io db (tid + 1) n w
      | Some t \<Rightarrow> do {
          (w1, _) \<leftarrow> dbWriteKeyValue m sc io w KEYWORD_TABLE (Some (tname t));
          (w2, nRet) \<leftarrow> save_rows m sc io t 0 (nat (nRows t)) w1;
          if nRet = -1 then Some (w2, nRet) else save_tables m sc io db (tid + 1) n w2 }) }"

definition dbSave ::
    "balloc_env \<Rightarrow> bool \<Rightarrow> io_env \<Rightarrow> filesys \<Rightarrow> dbstate \<Rightarrow> cstring option \<Rightarrow> (filesys \<times> int) option" where
  "dbSave m sc io fs db filename = do {
     tmpFile \<leftarrow> fmt_str m sc FNAMESIZE ''%s/data.tmp'' [VStr (Some (basicGetProductDir db))];
     if \<not> io_create io tmpFile then Some (fs, -1)
     else do {
       (w, nRet) \<leftarrow> save_tables m sc io db 0 (nat (dbMaxTables db)) [];
       let fs1 = fs(tmpFile \<mapsto> w);
       if nRet = 0 then do {
         path \<leftarrow> fmt_str m sc FNAMESIZE ''%s/%s'' [VStr (Some (basicGetProductDir db)), VStr filename];
         let fs2 = fs1(path := None);
         (case fs2 tmpFile of
            Some b \<Rightarrow> if io_rename io tmpFile path then Some (fs2(tmpFile := None, path \<mapsto> b), 0) else Some (fs2, -1)
          | None \<Rightarrow> Some (fs2, -1)) }
       else Some (fs1, nRet) } }"

section \<open>Loading\<close>

definition trim :: "cstring \<Rightarrow> cstring" where
  "trim str = dropWhile c_isspace str"

text \<open>\<open>None\<close> is the code -1: the line has no equals sign.\<close>

definition crack :: "cstring \<Rightarrow> (cstring \<times> cstring) option" where
  "crack buf =
     (let buf1 = (case c_strrchr buf CHR 0x0A of
                    Some i \<Rightarrow> take i buf
                  | None \<Rightarrow> (case c_strrchr buf CHR 0x0D of Some i \<Rightarrow> take i buf | None \<Rightarrow> buf))
      in case dropWhile (\<lambda>c. c \<noteq> CHR ''='') buf1 of
           [] \<Rightarrow> None
         | _ # r \<Rightarrow> Some (trim (takeWhile (\<lambda>c. c \<noteq> CHR ''='') buf1), trim r))"

text \<open>The locals of \<^verbatim>\<open>dbLoad\<close>: \<^verbatim>\<open>pTable\<close> is the table of \<^verbatim>\<open>tid\<close>, null when \<^verbatim>\<open>tid\<close> is negative.\<close>

record load_state =
  ld_db :: dbstate
  ld_tablename :: "cstring option"
  ld_tid :: int
  ld_row :: int

definition load_line ::
    "balloc_env \<Rightarrow> balloc_env \<Rightarrow> bool \<Rightarrow> load_state \<Rightarrow> cstring \<Rightarrow> load_state option" where
  "load_line mr mo dup st line =
     (case crack line of
        None \<Rightarrow> Some st
      | Some (keyword, v) \<Rightarrow>
          if keyword = KEYWORD_TABLE then do {
            nm \<leftarrow> (if dup then Some v else None);
            tid \<leftarrow> dbGetTableId (ld_db st) nm;
            Some (st\<lparr>ld_tablename := Some nm, ld_tid := tid\<rparr>) }
          else if keyword = KEYWORD_ROW then
            (if ld_tid st \<ge> 0 then do {
               nm \<leftarrow> ld_tablename st;
               n \<leftarrow> dbGetTableNrow (ld_db st) nm;
               (db1, rc) \<leftarrow> dbSetTableNrow mr mo (ld_db st) nm (n + 1);
               Some (st\<lparr>ld_db := db1, ld_row := (if rc = 0 then n else ld_row st)\<rparr>) }
             else Some st)
          else if ld_row st \<noteq> -1 then do {
            nColumn \<leftarrow> GetColumnIndex (ld_db st) (ld_tid st) keyword;
            if nColumn \<ge> 0 \<and> ld_tid st \<ge> 0 then do {
              pTable \<leftarrow> h_get (dbListTables (ld_db st)) (ld_tid st);
              ty \<leftarrow> mem_read (columnTypes pTable) nColumn;
              nm \<leftarrow> ld_tablename st;
              (db1, _) \<leftarrow> (if ty = T_STRING then dbWriteStr dup (ld_db st) nm keyword (ld_row st) (Some v)
                           else do { i \<leftarrow> gstrtoi v; dbWriteInt (ld_db st) nm keyword (ld_row st) (sint i) });
              Some (st\<lparr>ld_db := db1\<rparr>) }
            else Some st }
          else Some st)"

fun load_lines ::
    "balloc_env \<Rightarrow> balloc_env \<Rightarrow> bool \<Rightarrow> load_state \<Rightarrow> cstring list \<Rightarrow> load_state option" where
  "load_lines mr mo dup st [] = Some st"
| "load_lines mr mo dup st (l # ls) = do { st1 \<leftarrow> load_line mr mo dup st l; load_lines mr mo dup st1 ls }"

text \<open>A file without a single line makes \<^verbatim>\<open>strtok\<close> return null, which \<^verbatim>\<open>crack\<close> dereferences.\<close>

definition dbLoad ::
    "balloc_env \<Rightarrow> balloc_env \<Rightarrow> balloc_env \<Rightarrow> bool \<Rightarrow> bool \<Rightarrow> io_env \<Rightarrow> filesys \<Rightarrow> dbstate \<Rightarrow> cstring option \<Rightarrow>
      (dbstate \<times> int) option" where
  "dbLoad m mr mo sc dup io fs db filename = do {
     path \<leftarrow> fmt_str m sc FNAMESIZE ''%s/%s'' [VStr (Some (basicGetProductDir db)), VStr filename];
     (case fs path of
        None \<Rightarrow> Some (db, -1)
      | Some b \<Rightarrow>
          if \<not> io_read io path \<or> b = [] \<or> balloc m (int (length b) + 1) = None then Some (db, -1)
          else (case c_tokens CHR 0x0A (c_str (b @ [CHR 0x00])) of
                  [] \<Rightarrow> None
                | ls \<Rightarrow> do {
                    st \<leftarrow> load_lines mr mo dup \<lparr>ld_db = db, ld_tablename = None, ld_tid = -1, ld_row = -1\<rparr> ls;
                    Some (ld_db st, 0) })) }"

section \<open>User configuration files\<close>

definition um_filename :: "bool \<Rightarrow> um_state \<Rightarrow> cstring option \<Rightarrow> um_state option" where
  "um_filename dup st filename =
     (case filename of
        Some f \<Rightarrow> if f \<noteq> [] then (if dup then Some (st\<lparr>saveFilename := Some f\<rparr>) else None) else Some st
      | None \<Rightarrow> Some st)"

definition umCommit ::
    "balloc_env \<Rightarrow> bool \<Rightarrow> bool \<Rightarrow> io_env \<Rightarrow> filesys \<Rightarrow> um_state \<Rightarrow> cstring option \<Rightarrow> (um_state \<times> filesys \<times> int) option" where
  "umCommit m sc dup io fs st filename = do {
     st1 \<leftarrow> um_filename dup st filename;
     (fs', rc) \<leftarrow> dbSave m sc io fs (umdb st1) (saveFilename st1);
     Some (st1, fs', rc) }"

definition umRestore ::
    "balloc_env \<Rightarrow> balloc_env \<Rightarrow> balloc_env \<Rightarrow> bool \<Rightarrow> bool \<Rightarrow> io_env \<Rightarrow> filesys \<Rightarrow> um_state \<Rightarrow> cstring option \<Rightarrow>
      (um_state \<times> int) option" where
  "umRestore m mr mo sc dup io fs st filename = do {
     st1 \<leftarrow> um_filename dup st filename;
     db0 \<leftarrow> dbZero (umdb st1);
     (db1, rc) \<leftarrow> dbLoad m mr mo sc dup io fs db0 (saveFilename st1);
     Some (st1\<lparr>umdb := db1\<rparr>, rc) }"

section \<open>The text of a database\<close>

definition kv_line :: "cstring \<Rightarrow> cstring \<Rightarrow> cstring" where
  "kv_line k v = k @ CHR ''='' # v"

definition cell_text :: "cell \<Rightarrow> cstring" where
  "cell_text x = (case x of CStr s \<Rightarrow> s | CInt i \<Rightarrow> int_text i)"

definition row_lines :: "dbTable \<Rightarrow> int \<times> cell list \<Rightarrow> cstring list" where
  "row_lines t rp = kv_line KEYWORD_ROW (int_text (fst rp)) # map (\<lambda>(nm, x). kv_line nm (cell_text x)) (zip (columnNames t) (snd rp))"

text \<open>The rows that are written: those in use whose first string is neither null nor empty.\<close>

definition kept :: "cell list \<Rightarrow> bool" where
  "kept pRow \<longleftrightarrow> (case pRow of CStr (_ # _) # _ \<Rightarrow> True | _ \<Rightarrow> False)"

fun kept_from :: "dbTable \<Rightarrow> int \<Rightarrow> nat \<Rightarrow> (int \<times> cell list) list" where
  "kept_from t r 0 = []"
| "kept_from t r (Suc n) =
     (case h_get (rows t) r of Some pRow \<Rightarrow> if kept pRow then [(r, pRow)] else [] | None \<Rightarrow> []) @ kept_from t (r + 1) n"

definition kept_rows :: "dbTable \<Rightarrow> (int \<times> cell list) list" where
  "kept_rows t = kept_from t 0 (nat (nRows t))"

definition tab_lines :: "dbTable \<Rightarrow> cstring list" where
  "tab_lines t = kv_line KEYWORD_TABLE (tname t) # concat (map (row_lines t) (kept_rows t))"

fun tabs_from :: "dbstate \<Rightarrow> int \<Rightarrow> nat \<Rightarrow> dbTable list" where
  "tabs_from db tid 0 = []"
| "tabs_from db tid (Suc n) =
     (case h_get (dbListTables db) tid of Some t \<Rightarrow> [t] | None \<Rightarrow> []) @ tabs_from db (tid + 1) n"

definition db_tabs :: "dbstate \<Rightarrow> dbTable list" where
  "db_tabs db = tabs_from db 0 (nat (dbMaxTables db))"

definition db_lines :: "dbstate \<Rightarrow> cstring list" where
  "db_lines db = concat (map tab_lines (db_tabs db))"

definition lines_text :: "cstring list \<Rightarrow> byte list" where
  "lines_text ls = concat (map (\<lambda>l. l @ [CHR 0x0A]) ls)"

lemma lines_text_append [simp]: "lines_text (a @ b) = lines_text a @ lines_text b"
  by (simp add: lines_text_def)

lemma lines_text_Cons [simp]: "lines_text (l # ls) = l @ CHR 0x0A # lines_text ls" and lines_text_Nil [simp]: "lines_text [] = []"
  by (simp_all add: lines_text_def)

text \<open>What survives the format: no NUL or line ends, no leading white space, and lines that fit the buffer.\<close>

definition plain :: "cstring \<Rightarrow> bool" where
  "plain v \<longleftrightarrow> CHR 0x00 \<notin> set v \<and> CHR 0x0A \<notin> set v \<and> CHR 0x0D \<notin> set v \<and> (case v of [] \<Rightarrow> True | c # _ \<Rightarrow> \<not> c_isspace c)"

definition key_ok :: "cstring \<Rightarrow> bool" where
  "key_ok k \<longleftrightarrow> plain k \<and> k \<noteq> [] \<and> CHR ''='' \<notin> set k \<and> k \<noteq> KEYWORD_TABLE \<and> k \<noteq> KEYWORD_ROW"

definition cell_saves :: "cstring \<Rightarrow> int \<Rightarrow> cell \<Rightarrow> bool" where
  "cell_saves nm ty x \<longleftrightarrow>
     (case x of
        CStr v \<Rightarrow> ty = T_STRING \<and> plain v \<and> length nm + length v + 2 \<le> 4095
      | CInt i \<Rightarrow> ty = T_INT \<and> \<bar>i\<bar> < 2 ^ 31 \<and> length nm \<le> 4000)"

definition tab_saves :: "dbTable \<Rightarrow> bool" where
  "tab_saves t \<longleftrightarrow> plain (tname t) \<and> length (tname t) \<le> 4000 \<and> nRows t < 2 ^ 31 \<and> columnTypes t ! 0 = T_STRING \<and>
     distinct (columnNames t) \<and> (\<forall>nm\<in>set (columnNames t). key_ok nm) \<and>
     (\<forall>(r, pRow)\<in>set (kept_rows t). \<forall>i<length pRow. cell_saves (columnNames t ! i) (columnTypes t ! i) (pRow ! i))"

section \<open>Saving writes the text\<close>

lemma fmt_kv_text:
  assumes "CHR 0x00 \<notin> set k" "CHR 0x00 \<notin> set v"
  shows "fmt_text ((''%s=%s'' @ [CHR 0x0A]) @ [CHR 0x00]) [VStr (Some k), VStr (Some v)] = Some (kv_line k v @ [CHR 0x0A])"
  using assms by (simp add: fmt_text_s fmt_text_plain fmt_text_nul kv_line_def)

definition good_io :: "io_env \<Rightarrow> bool" where
  "good_io io \<longleftrightarrow> (\<forall>p q. io_create io p \<and> io_rename io p q \<and> io_read io p) \<and> (\<forall>w b. io_write io w b = int (length b))"

lemma c_strlen_str: "CHR 0x00 \<in> set b \<Longrightarrow> c_strlen b = Some (int (length (c_str b))) \<and> take (length (c_str b)) b = c_str b \<and>
     length (c_str b) \<le> length b"
  by (simp add: c_strlen_def c_str_def takeWhile_eq_take[symmetric] length_takeWhile_le)

lemma fmt_str_num:
  assumes "\<forall>k. m k \<noteq> None" "\<bar>i\<bar> < 2 ^ 31"
  shows "fmt_str m sc 20 ''%d'' [VInt i] = Some (int_text i)"
proof -
  have "fmt_text (''%d'' @ [CHR 0x00]) [VInt i] = Some (int_text i)" using fmt_text_d[OF assms(2)] by (simp add: fmt_text_nul)
  then obtain b r where "fmtAlloc m sc 20 ''%d'' [VInt i] = Some (Some b, r, [])" "c_str b = int_text i" "CHR 0x00 \<in> set b"
    using fmtAlloc_str[OF assms(1), of 20 "int_text i" "''%d''" "[VInt i]" sc] int_text_length[OF assms(2)] fmt_cap_range(1)[of 20] by auto
  then show ?thesis by (simp add: fmt_str_def)
qed

lemma dbWriteKeyValue_spec:
  assumes m: "\<forall>k. m k \<noteq> None" and io: "good_io io" and k: "CHR 0x00 \<notin> set k" "CHR 0x00 \<notin> set v"
    and l: "length k + length v + 2 \<le> 4095"
  shows "\<exists>rc\<ge>0. dbWriteKeyValue m sc io w k (Some v) = Some (w @ kv_line k v @ [CHR 0x0A], rc)"
proof -
  have "length (kv_line k v @ [CHR 0x0A]) \<le> fmt_cap BUF_MAX" using l by (simp add: kv_line_def fmt_cap_def BUF_MAX_def)
  then obtain b r where b: "fmtAlloc m sc BUF_MAX (''%s=%s'' @ [CHR 0x0A]) [VStr (Some k), VStr (Some v)] = Some (Some b, r, [])"
    "c_str b = kv_line k v @ [CHR 0x0A]" "CHR 0x00 \<in> set b"
    using fmtAlloc_str[OF m _ _ _ fmt_kv_text[OF k], of BUF_MAX sc] by (auto simp: BUF_MAX_def)
  have "dbWriteKeyValue m sc io w k (Some v) = Some (w @ c_str b, int (length (c_str b)))"
    using c_strlen_str[OF b(3)] b(1) io by (simp add: dbWriteKeyValue_def good_io_def Let_def min_absorb2)
  then show ?thesis unfolding b(2) by simp
qed

lemma int_text_clean: "CHR 0x00 \<notin> set (int_text i)"
  using num_text_clean[of 10 False "nat \<bar>i\<bar>"] by (auto simp: int_text_def)

lemma save_cols_spec:
  assumes m: "\<forall>k. m k \<noteq> None" and io: "good_io io" and len: "length (columnNames t) = length pRow" "length (columnTypes t) = length pRow"
    and nm: "\<forall>nm\<in>set (columnNames t). key_ok nm"
    and ok: "\<forall>i<length pRow. cell_saves (columnNames t ! i) (columnTypes t ! i) (pRow ! i)"
  shows "0 \<le> rc \<Longrightarrow> j + n = length pRow \<Longrightarrow>
     \<exists>rc'\<ge>0. save_cols m sc io t pRow (int j) n w rc =
       Some (w @ lines_text (map (\<lambda>(nm, x). kv_line nm (cell_text x)) (drop j (zip (columnNames t) pRow))), rc')"
proof (induction n arbitrary: j w rc)
  case 0
  then show ?case using len by simp
next
  case (Suc n)
  have j: "j < length pRow" using Suc.prems by simp
  have rd: "mem_read (columnNames t) (int j) = Some (columnNames t ! j)" "mem_read (columnTypes t) (int j) = Some (columnTypes t ! j)"
    "mem_read pRow (int j) = Some (pRow ! j)" using j len by (simp_all add: mem_read_def)
  have cs: "cell_saves (columnNames t ! j) (columnTypes t ! j) (pRow ! j)" using ok j by blast
  have kn: "CHR 0x00 \<notin> set (columnNames t ! j)" using nm j len by (auto simp: key_ok_def plain_def)
  have "\<exists>rc1\<ge>0. (if columnTypes t ! j = T_STRING then do { v \<leftarrow> cell_ptr (pRow ! j); dbWriteKeyValue m sc io w (columnNames t ! j) v }
        else (case pRow ! j of
                CInt i \<Rightarrow> do { num \<leftarrow> fmt_str m sc 20 ''%d'' [VInt i]; dbWriteKeyValue m sc io w (columnNames t ! j) (Some num) }
              | CStr _ \<Rightarrow> None)) =
      Some (w @ kv_line (columnNames t ! j) (cell_text (pRow ! j)) @ [CHR 0x0A], rc1)"
  proof (cases "pRow ! j")
    case (CStr v)
    then show ?thesis
      using dbWriteKeyValue_spec[OF m io kn, of v sc w] cs by (auto simp: cell_saves_def plain_def cell_ptr_def cell_text_def)
  next
    case (CInt i)
    then have i: "\<bar>i\<bar> < 2 ^ 31" "columnTypes t ! j = T_INT" "length (columnNames t ! j) \<le> 4000" using cs by (auto simp: cell_saves_def)
    then show ?thesis
      using dbWriteKeyValue_spec[OF m io kn, of "int_text i" sc w] CInt fmt_str_num[OF m i(1), of sc] int_text_clean[of i] int_text_length[OF i(1)]
      by (auto simp: cell_text_def T_INT_def T_STRING_def)
  qed
  then obtain rc1 where rc1: "0 \<le> rc1" "(if columnTypes t ! j = T_STRING then do { v \<leftarrow> cell_ptr (pRow ! j); dbWriteKeyValue m sc io w (columnNames t ! j) v }
        else (case pRow ! j of
                CInt i \<Rightarrow> do { num \<leftarrow> fmt_str m sc 20 ''%d'' [VInt i]; dbWriteKeyValue m sc io w (columnNames t ! j) (Some num) }
              | CStr _ \<Rightarrow> None)) =
      Some (w @ kv_line (columnNames t ! j) (cell_text (pRow ! j)) @ [CHR 0x0A], rc1)" by blast
  have "drop j (zip (columnNames t) pRow) = (columnNames t ! j, pRow ! j) # drop (Suc j) (zip (columnNames t) pRow)"
    using take_Suc_drop_nth[of j "zip (columnNames t) pRow"] j len by simp
  then show ?case
    using Suc.IH[OF rc1(1), of "Suc j" "w @ kv_line (columnNames t ! j) (cell_text (pRow ! j)) @ [CHR 0x0A]"] Suc.prems rd rc1(2) by (simp add: add.commute)
qed

lemma save_rows_spec:
  assumes m: "\<forall>k. m k \<noteq> None" and io: "good_io io" and ok: "tbl_ok t" and sv: "tab_saves t"
  shows "0 \<le> r \<Longrightarrow> r + int n = nRows t \<Longrightarrow> set (kept_from t r n) \<subseteq> set (kept_rows t) \<Longrightarrow>
     save_rows m sc io t r n w = Some (w @ lines_text (concat (map (row_lines t) (kept_from t r n))), 0)"
proof (induction n arbitrary: r w)
  case 0
  then show ?case by simp
next
  case (Suc n)
  have top: "h_top (rows t) (nRows t)" using ok by (simp add: tbl_ok_def)
  have h: "h_entry (rows t) r = Some (h_get (rows t) r)" using h_entry_below[OF top] Suc.prems by simp
  have sub: "set (kept_from t (r + 1) n) \<subseteq> set (kept_rows t)" using Suc.prems(3) by auto
  note IH = Suc.IH[of "r + 1", OF _ _ sub]
  have r31: "\<bar>r\<bar> < 2 ^ 31" using Suc.prems sv by (auto simp: tab_saves_def)
  show ?case
  proof (cases "h_get (rows t) r")
    case None
    then show ?thesis using h IH Suc.prems by simp
  next
    case (Some pRow)
    have rok: "row_ok t pRow" and nc: "nColumns t = int (length (columnNames t))" "0 < length (columnNames t)"
      "length (columnTypes t) = length (columnNames t)" using ok Some by (auto simp: tbl_ok_def)
    have len: "length pRow = length (columnNames t)" using rok by (simp add: row_ok_def)
    then obtain x xs where x: "pRow = x # xs" using nc(2) by (cases pRow) auto
    have str: "cell_str x" using rok len nc(2) sv x by (auto simp: row_ok_def tab_saves_def)
    have rd: "mem_read pRow 0 = Some x" using x by (simp add: mem_read_def)
    show ?thesis
    proof (cases "kept pRow")
      case False
      then have "cell_ptr x \<in> {Some None, Some (Some [])}"
        using str x by (auto simp: kept_def cell_str_def cell_ptr_def split: cell.splits list.splits)
      then show ?thesis using h Some rd IH Suc.prems False by auto
    next
      case True
      then obtain c v where xs: "x = CStr (c # v)" using x by (auto simp: kept_def split: cell.splits list.splits)
      have mem: "(r, pRow) \<in> set (kept_rows t)" using Suc.prems(3) Some True by auto
      then have cs: "\<forall>i<length pRow. cell_saves (columnNames t ! i) (columnTypes t ! i) (pRow ! i)" and nm: "\<forall>nm\<in>set (columnNames t). key_ok nm"
        using sv by (auto simp: tab_saves_def)
      obtain rc1 where rc1: "0 \<le> rc1" "dbWriteKeyValue m sc io w KEYWORD_ROW (Some (int_text r)) = Some (w @ kv_line KEYWORD_ROW (int_text r) @ [CHR 0x0A], rc1)"
        using dbWriteKeyValue_spec[OF m io _ int_text_clean, of KEYWORD_ROW r sc w] int_text_length[OF r31] by (auto simp: KEYWORD_ROW_def)
      obtain rc2 where "0 \<le> rc2" "save_cols m sc io t pRow 0 (nat (nColumns t)) (w @ kv_line KEYWORD_ROW (int_text r) @ [CHR 0x0A]) rc1 =
          Some (w @ lines_text (row_lines t (r, pRow)), rc2)"
        using save_cols_spec[OF m io _ _ nm cs rc1(1), of 0 "nat (nColumns t)" sc "w @ kv_line KEYWORD_ROW (int_text r) @ [CHR 0x0A]"] len nc
        by (auto simp: row_lines_def)
      then show ?thesis
        using h Some True rd xs fmt_str_num[OF m r31, of sc] rc1(2) IH[of "w @ lines_text (row_lines t (r, pRow))"] Suc.prems
        by (simp add: cell_ptr_def)
    qed
  qed
qed

lemma save_tables_spec:
  assumes m: "\<forall>k. m k \<noteq> None" and io: "good_io io" and i: "db_inv db" and sv: "\<forall>t\<in>set (db_tabs db). tab_saves t"
  shows "0 \<le> k \<Longrightarrow> k + int n = dbMaxTables db \<Longrightarrow> set (tabs_from db k n) \<subseteq> set (db_tabs db) \<Longrightarrow>
     save_tables m sc io db k n w = Some (w @ lines_text (concat (map tab_lines (tabs_from db k n))), 0)"
proof (induction n arbitrary: k w)
  case 0
  then show ?case by simp
next
  case (Suc n)
  have top: "h_top (dbListTables db) (dbMaxTables db)" using i by (simp add: db_inv_def)
  have h: "h_entry (dbListTables db) k = Some (h_get (dbListTables db) k)" using h_entry_below[OF top] Suc.prems by simp
  have sub: "set (tabs_from db (k + 1) n) \<subseteq> set (db_tabs db)" using Suc.prems(3) by auto
  note IH = Suc.IH[of "k + 1", OF _ _ sub]
  show ?case
  proof (cases "h_get (dbListTables db) k")
    case None
    then show ?thesis using h IH Suc.prems by simp
  next
    case (Some t)
    then have ok: "tbl_ok t" and ts: "tab_saves t" using i sv Suc.prems(3) by (auto simp: db_inv_def)
    have n0: "0 \<le> nRows t" using ok by (simp add: tbl_ok_def h_top_def)
    obtain rc1 where rc1: "dbWriteKeyValue m sc io w KEYWORD_TABLE (Some (tname t)) = Some (w @ kv_line KEYWORD_TABLE (tname t) @ [CHR 0x0A], rc1)"
      using dbWriteKeyValue_spec[OF m io, of KEYWORD_TABLE "tname t" sc w] ts by (auto simp: tab_saves_def plain_def KEYWORD_TABLE_def)
    have "save_rows m sc io t 0 (nat (nRows t)) (w @ kv_line KEYWORD_TABLE (tname t) @ [CHR 0x0A]) = Some (w @ lines_text (tab_lines t), 0)"
      using save_rows_spec[OF m io ok ts, of 0 "nat (nRows t)"] n0 by (simp add: tab_lines_def kept_rows_def)
    then show ?thesis using h Some rc1 IH Suc.prems by simp
  qed
qed

lemma fmt_str_path:
  assumes "\<forall>k. m k \<noteq> None" "CHR 0x00 \<notin> set d" "CHR 0x00 \<notin> set f" "length d + length f < 191" "length d < 182"
  shows "fmt_str m sc FNAMESIZE ''%s/%s'' [VStr (Some d), VStr (Some f)] = Some (d @ CHR ''/'' # f)"
    and "fmt_str m sc FNAMESIZE ''%s/data.tmp'' [VStr (Some d)] = Some (d @ ''/data.tmp'')"
proof -
  have "fmt_text (''%s/%s'' @ [CHR 0x00]) [VStr (Some d), VStr (Some f)] = Some (d @ CHR ''/'' # f)"
    "fmt_text (''%s/data.tmp'' @ [CHR 0x00]) [VStr (Some d)] = Some (d @ ''/data.tmp'')"
    using assms(2,3) by (simp_all add: fmt_text_s fmt_text_plain fmt_text_nul)
  note t = this
  show "fmt_str m sc FNAMESIZE ''%s/%s'' [VStr (Some d), VStr (Some f)] = Some (d @ CHR ''/'' # f)"
    using fmtAlloc_str[OF assms(1) _ _ _ t(1), of FNAMESIZE sc] assms(4) by (auto simp: FNAMESIZE_def fmt_cap_def fmt_str_def)
  show "fmt_str m sc FNAMESIZE ''%s/data.tmp'' [VStr (Some d)] = Some (d @ ''/data.tmp'')"
    using fmtAlloc_str[OF assms(1) _ _ _ t(2), of FNAMESIZE sc] assms(5) by (auto simp: FNAMESIZE_def fmt_cap_def fmt_str_def)
qed

text \<open>The directory and file name fit the name buffer, which holds 191 characters, and the file is not the temporary one.\<close>

definition path_ok :: "dbstate \<Rightarrow> cstring \<Rightarrow> bool" where
  "path_ok db f \<longleftrightarrow> CHR 0x00 \<notin> set (basicGetProductDir db) \<and> CHR 0x00 \<notin> set f \<and>
     length (basicGetProductDir db) + length f < 191 \<and> length (basicGetProductDir db) < 182 \<and> f \<noteq> ''data.tmp''"

definition db_path :: "dbstate \<Rightarrow> cstring \<Rightarrow> cstring" where
  "db_path db f = basicGetProductDir db @ CHR ''/'' # f"

lemma dbSave_spec:
  assumes "\<forall>k. m k \<noteq> None" "good_io io" "db_inv db" "\<forall>t\<in>set (db_tabs db). tab_saves t" "path_ok db f"
  shows "\<exists>fs'. dbSave m sc io fs db (Some f) = Some (fs', 0) \<and> fs' (db_path db f) = Some (lines_text (db_lines db)) \<and>
     (\<forall>p. p \<noteq> db_path db f \<and> p \<noteq> db_path db ''data.tmp'' \<longrightarrow> fs' p = fs p)"
proof -
  have p: "fmt_str m sc FNAMESIZE ''%s/%s'' [VStr (Some (basicGetProductDir db)), VStr (Some f)] = Some (db_path db f)"
    "fmt_str m sc FNAMESIZE ''%s/data.tmp'' [VStr (Some (basicGetProductDir db))] = Some (db_path db ''data.tmp'')"
    using fmt_str_path[OF assms(1)] assms(5) by (auto simp: path_ok_def db_path_def)
  have "0 \<le> dbMaxTables db" using assms(3) by (simp add: db_inv_def h_top_def)
  then have w: "save_tables m sc io db 0 (nat (dbMaxTables db)) [] = Some (lines_text (db_lines db), 0)"
    using save_tables_spec[OF assms(1-4), of 0 "nat (dbMaxTables db)" sc "[]"] by (simp add: db_lines_def db_tabs_def)
  have ne: "db_path db ''data.tmp'' \<noteq> db_path db f" using assms(5) by (auto simp: path_ok_def db_path_def)
  show ?thesis
    using p w ne assms(2)
    by (intro exI[of _ "fs(db_path db ''data.tmp'' := None, db_path db f \<mapsto> lines_text (db_lines db))"])
      (auto simp: dbSave_def good_io_def Let_def fun_upd_twist)
qed

section \<open>Reading lines back\<close>

lemma c_tokens_line:
  assumes "l \<noteq> []" "CHR 0x0A \<notin> set l"
  shows "c_tokens CHR 0x0A (l @ CHR 0x0A # r) = l # c_tokens CHR 0x0A (CHR 0x0A # r)"
proof -
  obtain c l' where l: "l = c # l'" "c \<noteq> CHR 0x0A" "CHR 0x0A \<notin> set l'" using assms by (cases l) auto
  have "takeWhile (\<lambda>c. c \<noteq> CHR 0x0A) (l' @ CHR 0x0A # r) = l'" "dropWhile (\<lambda>c. c \<noteq> CHR 0x0A) (l' @ CHR 0x0A # r) = CHR 0x0A # r"
    using l(3) by (auto simp: takeWhile_append dropWhile_append)
  then show ?thesis using l by (subst c_tokens.simps) simp
qed

lemma c_tokens_lines: "\<forall>l\<in>set ls. l \<noteq> [] \<and> CHR 0x0A \<notin> set l \<Longrightarrow> c_tokens CHR 0x0A (lines_text ls) = ls"
proof (induction ls)
  case Nil
  then show ?case by (simp add: c_tokens.simps)
next
  case (Cons l ls)
  then show ?case using c_tokens_line[of l "lines_text ls"] by (simp add: c_tokens_skip)
qed

lemma c_str_text: "CHR 0x00 \<notin> set w \<Longrightarrow> c_str (w @ [CHR 0x00]) = w"
  by (simp add: c_str_def takeWhile_append)

lemma trim_plain: "plain v \<Longrightarrow> trim v = v"
  by (cases v) (auto simp: plain_def trim_def)

lemma crack_kv:
  assumes "plain k" "CHR ''='' \<notin> set k" "plain v"
  shows "crack (kv_line k v) = Some (k, v)"
proof -
  have "c_strrchr (kv_line k v) CHR 0x0A = None" "c_strrchr (kv_line k v) CHR 0x0D = None"
    using assms by (auto simp: c_strrchr_def kv_line_def plain_def)
  moreover have "takeWhile (\<lambda>c. c \<noteq> CHR ''='') (kv_line k v) = k" "dropWhile (\<lambda>c. c \<noteq> CHR ''='') (kv_line k v) = CHR ''='' # v"
    using assms(2) by (auto simp: kv_line_def takeWhile_append dropWhile_append)
  ultimately show ?thesis using trim_plain assms(1,3) by (simp add: crack_def)
qed

lemma int_text_plain: "plain (int_text i)"
proof -
  have d: "\<forall>c\<in>set (num_text 10 False n). c_isdigit c" for n using num_text_digits by blast
  have s: "c_isdigit c \<Longrightarrow> c \<noteq> CHR 0x00 \<and> c \<noteq> CHR 0x0A \<and> c \<noteq> CHR 0x0D" for c by (auto simp: c_isdigit_def c_uchar_def)
  have "set (int_text i) \<subseteq> insert CHR ''-'' (Collect c_isdigit)" using d by (auto simp: int_text_def)
  moreover have "case int_text i of [] \<Rightarrow> True | c # _ \<Rightarrow> \<not> c_isspace c"
  proof (cases "int_text i")
    case (Cons c r)
    then have "c = CHR ''-'' \<or> c_isdigit c" using calculation by auto
    then show ?thesis using Cons c_digit_not by (auto simp: c_isspace_def c_uchar_def)
  qed simp
  ultimately show ?thesis using s by (fastforce simp: plain_def)
qed

section \<open>Loading builds the rows\<close>

text \<open>A database whose tables hold exactly the rows \<open>A t\<close>, numbered from 0.\<close>

definition grid :: "dbTable \<Rightarrow> cell list list \<Rightarrow> int \<Rightarrow> cstring \<Rightarrow> cell option" where
  "grid tb rs r c =
     (if 0 \<le> r \<and> r < int (length rs) \<and> c \<in> set (columnNames tb) then Some (rs ! nat r ! col_index tb c) else None)"

definition reps :: "dbstate \<Rightarrow> (cstring \<Rightarrow> cell list list) \<Rightarrow> bool" where
  "reps db A \<longleftrightarrow> db_inv db \<and>
     (\<forall>t tb. db_tab db t = Some tb \<longrightarrow> tab_cell tb = grid tb (A t) \<and> (\<forall>row\<in>set (A t). length row = length (columnNames tb)))"

definition same_tabs :: "dbstate \<Rightarrow> dbstate \<Rightarrow> bool" where
  "same_tabs db db' \<longleftrightarrow> dbGetTableId db' = dbGetTableId db \<and> (\<forall>u. rel_option same_schema (db_tab db u) (db_tab db' u))"

lemma same_schema_refl [simp]: "same_schema t t"
  by (simp add: same_schema_def)

lemma same_tabs_refl [simp]: "same_tabs db db"
  by (simp add: same_tabs_def option.rel_refl)

lemma same_tabs_trans: "same_tabs a b \<Longrightarrow> same_tabs b c \<Longrightarrow> same_tabs a c"
proof -
  assume ab: "same_tabs a b" and bc: "same_tabs b c"
  have "rel_option same_schema (db_tab a u) (db_tab c u)" for u
  proof -
    have "rel_option same_schema (db_tab a u) (db_tab b u)" "rel_option same_schema (db_tab b u) (db_tab c u)"
      using ab bc by (simp_all add: same_tabs_def)
    then show ?thesis using same_schema_trans by (auto elim!: option.rel_cases)
  qed
  then show ?thesis using ab bc by (simp add: same_tabs_def)
qed

lemma same_tabs_Some: "same_tabs db db' \<Longrightarrow> db_tab db t = Some tb \<Longrightarrow> \<exists>tb'. db_tab db' t = Some tb' \<and> same_schema tb tb'"
  by (auto simp: same_tabs_def dest!: spec[of _ t] elim: option.rel_cases)

lemma grid_same: "same_schema tb tb' \<Longrightarrow> grid tb' = grid tb"
  by (simp add: same_schema_def grid_def col_index_def fun_eq_iff)

lemma update_reps:
  assumes r: "reps db A" and u: "db_update db t tb cells db'" and tb: "db_tab db t = Some tb"
    and g: "cells = grid tb rs" "\<forall>row\<in>set rs. length row = length (columnNames tb)"
  shows "reps db' (A(t := rs))" and "same_tabs db db'"
proof -
  obtain tb' where tb': "db_inv db'" "db_tab db' = (db_tab db)(t \<mapsto> tb')" "dbGetTableId db' = dbGetTableId db" "same_schema tb tb'"
    "tab_cell tb' = cells" using u by (auto simp: db_update_def)
  have "columnNames tb' = columnNames tb" using tb'(4) by (simp add: same_schema_def)
  then show "reps db' (A(t := rs))"
    using tb' r g grid_same[OF tb'(4)] by (auto simp: reps_def)
  show "same_tabs db db'" using tb' tb by (auto simp: same_tabs_def option.rel_refl)
qed

lemma grid_used:
  assumes ok: "tbl_ok tb" and g: "tab_cell tb = grid tb rs"
  shows "h_get (rows tb) r \<noteq> None \<longleftrightarrow> 0 \<le> r \<and> r < int (length rs)" and "nRows tb = int (length rs)"
proof -
  have ne: "columnNames tb \<noteq> []" using ok by (auto simp: tbl_ok_def)
  then have c: "hd (columnNames tb) \<in> set (columnNames tb)" by simp
  have u: "h_get (rows tb) r \<noteq> None \<longleftrightarrow> 0 \<le> r \<and> r < int (length rs)" for r
    using fun_cong[OF fun_cong[OF g, of r], of "hd (columnNames tb)"] c by (auto simp: tab_cell_def grid_def split: if_splits)
  then show "h_get (rows tb) r \<noteq> None \<longleftrightarrow> 0 \<le> r \<and> r < int (length rs)" .
  have top: "h_top (rows tb) (nRows tb)" using ok by (simp add: tbl_ok_def)
  show "nRows tb = int (length rs)"
  proof (rule antisym)
    show "nRows tb \<le> int (length rs)" using top u[of "nRows tb - 1"] by (cases "0 < nRows tb") (auto simp: h_top_def)
    show "int (length rs) \<le> nRows tb" using top u[of "nRows tb"] by (auto simp: h_top_def)
  qed
qed

text \<open>On a table without holes, asking for one more row adds one zero row at the end.\<close>

lemma dbSetTableNrow_next:
  assumes r: "reps db A" and tb: "db_tab db t = Some tb" and m: "\<not> refuses m" "\<not> refuses mo"
  shows "dbGetTableNrow db t = Some (int (length (A t)))"
    and "\<exists>db'. dbSetTableNrow m mo db t (int (length (A t)) + 1) = Some (db', 0) \<and> reps db' (A(t := A t @ [zero_row tb])) \<and> same_tabs db db'"
proof -
  have i: "db_inv db" and g: "tab_cell tb = grid tb (A t)" and rect: "\<forall>row\<in>set (A t). length row = length (columnNames tb)"
    using r tb by (auto simp: reps_def)
  obtain tid where d: "dbGetTableId db t = Some tid" "0 \<le> tid" "h_get (dbListTables db) tid = Some tb" "db_table_at db tid = Some (Some tb)" "tbl_ok tb"
    using db_tab_Some[OF i tb] by blast
  note used = grid_used[OF d(5) g]
  show "dbGetTableNrow db t = Some (int (length (A t)))" using d used(2) by (simp add: dbGetTableNrow_def)
  obtain db1 r1 tb1 where a: "dbAddRow m mo db t = Some (db1, r1)" "db_inv db1" "db_tab db1 = (db_tab db)(t \<mapsto> tb1)"
    "dbGetTableId db1 = dbGetTableId db" "same_schema tb tb1" "0 \<le> r1" "h_get (rows tb) r1 = None"
    "\<forall>j. 0 \<le> j \<and> j < r1 \<longrightarrow> h_get (rows tb) j \<noteq> None"
    "h_get (rows tb1) = (h_get (rows tb))(r1 \<mapsto> zero_row tb)" "nRows tb1 = max (nRows tb) (r1 + 1)"
    using dbAddRow_raw[OF i tb, of m mo] m by blast
  have r1: "r1 = int (length (A t))"
  proof (rule antisym)
    show "r1 \<le> int (length (A t))" using a(8) used(1)[of "int (length (A t))"] by (metis linorder_not_le of_nat_0_le_iff order_less_irrefl)
    show "int (length (A t)) \<le> r1" using a(6,7) used(1)[of r1] by auto
  qed
  have cn: "columnNames tb1 = columnNames tb" "col_index tb1 = col_index tb" using a(5) by (simp_all add: same_schema_def col_index_def fun_eq_iff)
  have cell: "tab_cell tb1 = grid tb1 (A t @ [zero_row tb])"
  proof (intro ext)
    fix q c
    show "tab_cell tb1 q c = grid tb1 (A t @ [zero_row tb]) q c"
    proof (cases "q = r1")
      case True
      then show ?thesis using a(9) cn r1 by (simp add: tab_cell_def grid_def)
    next
      case False
      have "tab_cell tb1 q c = tab_cell tb q c" using False a(9) cn by (simp add: tab_cell_def)
      also have "\<dots> = grid tb (A t) q c" by (simp add: g)
      also have "\<dots> = grid tb1 (A t @ [zero_row tb]) q c"
        using False cn r1 by (cases "0 \<le> q \<and> q < int (length (A t))") (auto simp: grid_def nth_append nat_less_iff)
      finally show ?thesis .
    qed
  qed
  have zl: "length (zero_row tb) = length (columnNames tb)" using d(5) by (auto simp: zero_row_def tbl_ok_def)
  have "reps db1 (A(t := A t @ [zero_row tb]))" using r a(2,3) cell cn(1) rect zl by (auto simp: reps_def)
  moreover have "same_tabs db db1" using a(3-5) tb by (auto simp: same_tabs_def option.rel_refl)
  moreover have "h_get (dbListTables db1) tid = Some tb1"
  proof -
    have "db_tab db1 t = Some tb1" "dbGetTableId db1 t = Some tid" using a(3,4) d(1) by simp_all
    then show ?thesis using d(2) by (simp add: db_tab_def)
  qed
  then have "dbSetTableNrow_loop m mo db1 t tid (int (length (A t)) + 1) = Some (db1, 0)"
    using a(10) r1 by (simp add: dbSetTableNrow_loop.simps)
  then have "dbSetTableNrow m mo db t (int (length (A t)) + 1) = Some (db1, 0)"
    using d a(1,6) used(2) by (simp add: dbSetTableNrow_def dbSetTableNrow_loop.simps[of m mo db])
  ultimately show "\<exists>db'. dbSetTableNrow m mo db t (int (length (A t)) + 1) = Some (db', 0) \<and> reps db' (A(t := A t @ [zero_row tb])) \<and> same_tabs db db'"
    by blast
qed

text \<open>The state between two lines: inside table \<open>t\<close>, the tables holding \<open>A\<close>.\<close>

definition loading :: "dbstate \<Rightarrow> cstring \<Rightarrow> (cstring \<Rightarrow> cell list list) \<Rightarrow> load_state \<Rightarrow> bool" where
  "loading db0 t A st \<longleftrightarrow> reps (ld_db st) A \<and> same_tabs db0 (ld_db st) \<and> ld_tablename st = Some t \<and>
     dbGetTableId db0 t = Some (ld_tid st)"

lemma grid_set:
  assumes "j < length (columnNames tb)" "distinct (columnNames tb)" "r < length rs" "\<forall>row\<in>set rs. length row = length (columnNames tb)"
  shows "(\<lambda>r' c'. if r' = int r \<and> c' = columnNames tb ! j then Some x else grid tb rs r' c') = grid tb (rs[r := (rs ! r)[j := x]])"
proof (intro ext)
  fix r' c'
  have ci: "col_index tb (columnNames tb ! j) = j"
    using col_index_less[of "columnNames tb ! j" tb] assms(1,2) by (simp add: nth_eq_iff_index_eq)
  have lr: "length (rs ! r) = length (columnNames tb)" using assms(3,4) by simp
  show "(if r' = int r \<and> c' = columnNames tb ! j then Some x else grid tb rs r' c') = grid tb (rs[r := (rs ! r)[j := x]]) r' c'"
  proof (cases "r' = int r \<and> c' \<in> set (columnNames tb)")
    case True
    show ?thesis
    proof (cases "c' = columnNames tb ! j")
      case True
      then show ?thesis using \<open>r' = int r \<and> _\<close> assms(1,3) ci lr by (simp add: grid_def)
    next
      case False
      then have "col_index tb c' \<noteq> j" using col_index_less(2)[of c' tb] True by auto
      then show ?thesis using True False assms(3) by (simp add: grid_def)
    qed
  next
    case False
    then have "\<not> (r' = int r \<and> c' = columnNames tb ! j)" using assms(1) by auto
    moreover have "grid tb (rs[r := (rs ! r)[j := x]]) r' c' = grid tb rs r' c'"
      using False by (auto simp: grid_def nth_list_update nat_eq_iff)
    ultimately show ?thesis by auto
  qed
qed

lemma load_col:
  assumes l: "loading db0 t A st" and tb: "db_tab db0 t = Some tb" and r: "ld_row st = int r" "r < length (A t)"
    and j: "j < length (columnNames tb)" "distinct (columnNames tb)" "key_ok (columnNames tb ! j)"
    and x: "cell_saves (columnNames tb ! j) (columnTypes tb ! j) x"
  shows "\<exists>st'. load_line mr mo True st (kv_line (columnNames tb ! j) (cell_text x)) = Some st' \<and>
     loading db0 t (A(t := (A t)[r := (A t ! r)[j := x]])) st' \<and> ld_row st' = int r"
proof -
  let ?nm = "columnNames tb ! j"
  have rep: "reps (ld_db st) A" and st: "same_tabs db0 (ld_db st)" "ld_tablename st = Some t" "dbGetTableId (ld_db st) t = Some (ld_tid st)"
    using l by (auto simp: loading_def same_tabs_def)
  obtain tb1 where tb1: "db_tab (ld_db st) t = Some tb1" "same_schema tb tb1" using same_tabs_Some[OF st(1) tb] by blast
  have sc: "columnNames tb1 = columnNames tb" "columnTypes tb1 = columnTypes tb" "col_index tb1 = col_index tb"
    using tb1(2) by (simp_all add: same_schema_def col_index_def fun_eq_iff)
  have i: "db_inv (ld_db st)" and g: "tab_cell tb1 = grid tb1 (A t)" and rect: "\<forall>row\<in>set (A t). length row = length (columnNames tb1)"
    using rep tb1(1) by (auto simp: reps_def)
  obtain tid where d: "dbGetTableId (ld_db st) t = Some tid" "0 \<le> tid" "h_get (dbListTables (ld_db st)) tid = Some tb1"
    "db_table_at (ld_db st) tid = Some (Some tb1)" "tbl_ok tb1" using db_tab_Some[OF i tb1(1)] by blast
  have tid: "ld_tid st = tid" using d(1) st(3) by simp
  have mem: "?nm \<in> set (columnNames tb1)" using j(1) sc by simp
  have ci: "col_index tb1 ?nm = j" using col_index_less[OF mem] j(1,2) sc by (simp add: nth_eq_iff_index_eq)
  have gc: "GetColumnIndex (ld_db st) (ld_tid st) ?nm = Some (int j)" using GetColumnIndex_spec[OF d(4,5), of ?nm] tid ci mem by simp
  have ty: "mem_read (columnTypes tb1) (int j) = Some (columnTypes tb ! j)" "col_type tb1 ?nm = Some (columnTypes tb ! j)"
    using d(5) j(1) sc mem ci by (auto simp: mem_read_def tbl_ok_def col_type_def)
  have cell: "tab_cell tb1 (int r) ?nm = Some (A t ! r ! j)" using r(2) mem ci by (simp add: g grid_def)
  have pl: "plain (cell_text x)" using x int_text_plain by (auto simp: cell_saves_def cell_text_def split: cell.splits)
  have ck: "crack (kv_line ?nm (cell_text x)) = Some (?nm, cell_text x)" using crack_kv[OF _ _ pl] j(3) by (simp add: key_ok_def)
  have "\<exists>db'. (if columnTypes tb ! j = T_STRING then dbWriteStr True (ld_db st) t ?nm (int r) (Some (cell_text x))
          else do { k \<leftarrow> gstrtoi (cell_text x); dbWriteInt (ld_db st) t ?nm (int r) (sint k) }) = Some (db', 0) \<and>
      db_update (ld_db st) t tb1 (\<lambda>r' c'. if r' = int r \<and> c' = ?nm then Some x else tab_cell tb1 r' c') db'"
  proof (cases x)
    case (CStr v)
    show ?thesis
      using dbWriteStr_spec[OF i tb1(1) cell, where s = "Some v", unfolded option.case] x ty(2)
      unfolding CStr by (simp add: cell_saves_def cell_text_def)
  next
    case (CInt n)
    then have n: "columnTypes tb ! j = T_INT" "\<bar>n\<bar> < 2 ^ 31" using x by (auto simp: cell_saves_def)
    have "sint (word_of_int n :: 32 word) = n" using n(2) by (simp add: signed_of_int signed_take_bit_int_eq_self)
    then show ?thesis
      using dbWriteInt_spec[OF i tb1(1) cell, of n] n(1) ty(2) gstrtoi_int_text[OF n(2)] unfolding CInt by (simp add: cell_text_def T_INT_def T_STRING_def)
  qed
  then obtain db' where w: "(if columnTypes tb ! j = T_STRING then dbWriteStr True (ld_db st) t ?nm (int r) (Some (cell_text x))
          else do { k \<leftarrow> gstrtoi (cell_text x); dbWriteInt (ld_db st) t ?nm (int r) (sint k) }) = Some (db', 0)"
    "db_update (ld_db st) t tb1 (\<lambda>r' c'. if r' = int r \<and> c' = ?nm then Some x else tab_cell tb1 r' c') db'" by blast
  have line: "load_line mr mo True st (kv_line ?nm (cell_text x)) = Some (st\<lparr>ld_db := db'\<rparr>)"
    using ck j(3) r(1) gc tid d(2,3) ty(1) st(2) w(1)
    by (auto simp: load_line_def key_ok_def bind_eq_Some_conv split: if_splits)
  have gs: "(\<lambda>r' c'. if r' = int r \<and> c' = ?nm then Some x else tab_cell tb1 r' c') = grid tb1 ((A t)[r := (A t ! r)[j := x]])"
    using grid_set[of j tb1 r "A t" x] j(1,2) r(2) rect sc(1) unfolding g by simp
  have "\<forall>row\<in>set ((A t)[r := (A t ! r)[j := x]]). length row = length (columnNames tb1)"
  proof
    fix row assume "row \<in> set ((A t)[r := (A t ! r)[j := x]])"
    then have "row = (A t ! r)[j := x] \<or> row \<in> set (A t)" using set_update_subset_insert[of "A t" r] by auto
    then show "length row = length (columnNames tb1)" using rect r(2) by auto
  qed
  note rp = update_reps[OF rep w(2) tb1(1) gs this]
  have "loading db0 t (A(t := (A t)[r := (A t ! r)[j := x]])) (st\<lparr>ld_db := db'\<rparr>)"
    using rp(1) same_tabs_trans[OF st(1) rp(2)] l unfolding loading_def by simp
  then show ?thesis using line r(1) by (intro exI[of _ "st\<lparr>ld_db := db'\<rparr>"]) simp
qed

lemma load_lines_append: "load_lines mr mo dup st (a @ b) = Option.bind (load_lines mr mo dup st a) (\<lambda>s. load_lines mr mo dup s b)"
  by (induction a arbitrary: st) (auto split: Option.bind_splits)

lemma load_cols:
  assumes tb: "db_tab db0 t = Some tb" and dn: "distinct (columnNames tb)" and nm: "\<forall>nm\<in>set (columnNames tb). key_ok nm"
    and len: "length pRow = length (columnNames tb)"
    and ok: "\<forall>i<length pRow. cell_saves (columnNames tb ! i) (columnTypes tb ! i) (pRow ! i)"
  shows "loading db0 t A st \<Longrightarrow> ld_row st = int r \<Longrightarrow> r < length (A t) \<Longrightarrow> length (A t ! r) = length pRow \<Longrightarrow>
     take j (A t ! r) = take j pRow \<Longrightarrow> j + n = length pRow \<Longrightarrow>
     \<exists>st'. load_lines mr mo True st (map (\<lambda>(nm, x). kv_line nm (cell_text x)) (drop j (zip (columnNames tb) pRow))) = Some st' \<and>
       loading db0 t (A(t := (A t)[r := pRow])) st'"
proof (induction n arbitrary: j A st)
  case 0
  then have "A t ! r = pRow" by simp
  then have "A(t := (A t)[r := pRow]) = A" by auto
  then show ?case using 0 len by simp
next
  case (Suc n)
  have j: "j < length pRow" using Suc.prems by simp
  obtain st1 where st1: "load_line mr mo True st (kv_line (columnNames tb ! j) (cell_text (pRow ! j))) = Some st1"
    "loading db0 t (A(t := (A t)[r := (A t ! r)[j := pRow ! j]])) st1" "ld_row st1 = int r"
    using load_col[OF Suc.prems(1) tb Suc.prems(2,3) _ dn, of j "pRow ! j" mr mo] j len nm ok by auto
  let ?A = "A(t := (A t)[r := (A t ! r)[j := pRow ! j]])"
  have tk: "take (Suc j) (?A t ! r) = take (Suc j) pRow"
    using Suc.prems(3-5) j by (simp add: take_Suc_conv_app_nth)
  have "\<exists>st'. load_lines mr mo True st1 (map (\<lambda>(nm, x). kv_line nm (cell_text x)) (drop (Suc j) (zip (columnNames tb) pRow))) = Some st' \<and>
       loading db0 t (?A(t := (?A t)[r := pRow])) st'"
    using Suc.prems(3,4,6) tk by (intro Suc.IH[OF st1(2,3)]) simp_all
  moreover have "drop j (zip (columnNames tb) pRow) = (columnNames tb ! j, pRow ! j) # drop (Suc j) (zip (columnNames tb) pRow)"
    using take_Suc_drop_nth[of j "zip (columnNames tb) pRow"] j len by simp
  ultimately show ?case using st1(1) by (simp add: fun_upd_def cong: if_cong)
qed

lemma keyword_plain: "plain KEYWORD_TABLE" "plain KEYWORD_ROW" "CHR ''='' \<notin> set KEYWORD_TABLE" "CHR ''='' \<notin> set KEYWORD_ROW" "KEYWORD_ROW \<noteq> KEYWORD_TABLE"
  by (auto simp: plain_def KEYWORD_TABLE_def KEYWORD_ROW_def c_isspace_def c_uchar_def)

lemma load_row:
  assumes l: "loading db0 t A st" and tb: "db_tab db0 t = Some tb" "db_inv db0" and m: "\<not> refuses mr" "\<not> refuses mo"
    and dn: "distinct (columnNames tb)" and nm: "\<forall>nm\<in>set (columnNames tb). key_ok nm"
    and len: "length pRow = length (columnNames tb)"
    and ok: "\<forall>i<length pRow. cell_saves (columnNames tb ! i) (columnTypes tb ! i) (pRow ! i)"
  shows "\<exists>st'. load_lines mr mo True st (row_lines tb (k, pRow)) = Some st' \<and> loading db0 t (A(t := A t @ [pRow])) st'"
proof -
  have st: "reps (ld_db st) A" "same_tabs db0 (ld_db st)" "ld_tablename st = Some t" using l by (auto simp: loading_def)
  obtain tb1 where tb1: "db_tab (ld_db st) t = Some tb1" "same_schema tb tb1" using same_tabs_Some[OF st(2) tb(1)] by blast
  obtain tid where "dbGetTableId db0 t = Some tid" "0 \<le> tid" using db_tab_Some[OF tb(2,1)] by blast
  then have tid: "0 \<le> ld_tid st" using l by (simp add: loading_def)
  obtain db' where db': "dbSetTableNrow mr mo (ld_db st) t (int (length (A t)) + 1) = Some (db', 0)"
    "reps db' (A(t := A t @ [zero_row tb1]))" "same_tabs (ld_db st) db'"
    using dbSetTableNrow_next(2)[OF st(1) tb1(1) m] by blast
  define st1 where "st1 = st\<lparr>ld_db := db', ld_row := int (length (A t))\<rparr>"
  have "crack (kv_line KEYWORD_ROW (int_text k)) = Some (KEYWORD_ROW, int_text k)"
    using crack_kv[OF keyword_plain(2,4) int_text_plain] .
  then have line: "load_line mr mo True st (kv_line KEYWORD_ROW (int_text k)) = Some st1"
    using tid st(3) dbSetTableNrow_next(1)[OF st(1) tb1(1) m] db'(1) keyword_plain(5) by (simp add: load_line_def st1_def)
  have l1: "loading db0 t (A(t := A t @ [zero_row tb1])) st1"
    using l db'(2) same_tabs_trans[OF st(2) db'(3)] by (simp add: loading_def st1_def)
  have "tbl_ok tb1" using db_tab_ok st(1) tb1(1) by (auto simp: reps_def)
  then have "length (zero_row tb1) = length pRow" using tb1(2) len by (auto simp: zero_row_def tbl_ok_def same_schema_def)
  then have "\<exists>st'. load_lines mr mo True st1 (map (\<lambda>(nm, x). kv_line nm (cell_text x)) (drop 0 (zip (columnNames tb) pRow))) = Some st' \<and>
      loading db0 t ((A(t := A t @ [zero_row tb1]))(t := ((A(t := A t @ [zero_row tb1])) t)[length (A t) := pRow])) st'"
    using load_cols[OF tb(1) dn nm len ok l1, of "length (A t)" 0 "length pRow" mr mo] by (simp add: st1_def)
  then show ?thesis using line by (simp add: row_lines_def)
qed

lemma load_rows:
  assumes tb: "db_tab db0 t = Some tb" "db_inv db0" and m: "\<not> refuses mr" "\<not> refuses mo"
    and dn: "distinct (columnNames tb)" and nm: "\<forall>nm\<in>set (columnNames tb). key_ok nm"
  shows "loading db0 t A st \<Longrightarrow>
     \<forall>(k, pRow)\<in>set rs. length pRow = length (columnNames tb) \<and> (\<forall>i<length pRow. cell_saves (columnNames tb ! i) (columnTypes tb ! i) (pRow ! i)) \<Longrightarrow>
     \<exists>st'. load_lines mr mo True st (concat (map (row_lines tb) rs)) = Some st' \<and> loading db0 t (A(t := A t @ map snd rs)) st'"
proof (induction rs arbitrary: A st)
  case Nil
  then show ?case by simp
next
  case (Cons kp rs)
  obtain k pRow where kp: "kp = (k, pRow)" by (cases kp)
  obtain st1 where st1: "load_lines mr mo True st (row_lines tb (k, pRow)) = Some st1" "loading db0 t (A(t := A t @ [pRow])) st1"
    using load_row[OF Cons.prems(1) tb m dn nm, of pRow k] Cons.prems(2) kp by auto
  have "\<exists>st'. load_lines mr mo True st1 (concat (map (row_lines tb) rs)) = Some st' \<and>
      loading db0 t ((A(t := A t @ [pRow]))(t := (A(t := A t @ [pRow])) t @ map snd rs)) st'"
    using Cons.prems(2) by (intro Cons.IH[OF st1(2)]) auto
  then show ?case using st1(1) unfolding kp by (simp add: load_lines_append fun_upd_def cong: if_cong)
qed

definition between :: "dbstate \<Rightarrow> (cstring \<Rightarrow> cell list list) \<Rightarrow> load_state \<Rightarrow> bool" where
  "between db0 A st \<longleftrightarrow> reps (ld_db st) A \<and> same_tabs db0 (ld_db st)"

lemma kept_from_mem: "(r, p) \<in> set (kept_from t k n) \<Longrightarrow> h_get (rows t) r = Some p"
  by (induction n arbitrary: k) (auto split: option.splits if_splits)

lemma load_tab:
  assumes b: "between db0 A st" and i: "db_inv db0" and m: "\<not> refuses mr" "\<not> refuses mo"
    and tb: "db_tab db0 (tname t) = Some tb0" "same_schema t tb0" and sv: "tab_saves t" and ok: "tbl_ok t"
  shows "\<exists>st'. load_lines mr mo True st (tab_lines t) = Some st' \<and> between db0 (A(tname t := A (tname t) @ map snd (kept_rows t))) st'"
proof -
  obtain tid where tid: "dbGetTableId db0 (tname t) = Some tid" using db_tab_Some[OF i tb(1)] by blast
  have b': "reps (ld_db st) A" "same_tabs db0 (ld_db st)" "dbGetTableId (ld_db st) (tname t) = Some tid"
    using b tid by (auto simp: between_def same_tabs_def)
  have "crack (kv_line KEYWORD_TABLE (tname t)) = Some (KEYWORD_TABLE, tname t)"
    using crack_kv[OF keyword_plain(1,3)] sv by (simp add: tab_saves_def)
  then have line: "load_line mr mo True st (kv_line KEYWORD_TABLE (tname t)) = Some (st\<lparr>ld_tablename := Some (tname t), ld_tid := tid\<rparr>)"
    using b'(3) by (simp add: load_line_def)
  have l: "loading db0 (tname t) A (st\<lparr>ld_tablename := Some (tname t), ld_tid := tid\<rparr>)" using b' tid by (simp add: loading_def)
  have sc: "columnNames tb0 = columnNames t" "columnTypes tb0 = columnTypes t" using tb(2) by (simp_all add: same_schema_def)
  have rl: "row_lines t = row_lines tb0" by (simp add: row_lines_def sc fun_eq_iff)
  have rs: "\<forall>(k, pRow)\<in>set (kept_rows t). length pRow = length (columnNames tb0) \<and> (\<forall>i<length pRow. cell_saves (columnNames tb0 ! i) (columnTypes tb0 ! i) (pRow ! i))"
    using sv ok sc kept_from_mem by (fastforce simp: tab_saves_def kept_rows_def tbl_ok_def row_ok_def)
  obtain st' where "load_lines mr mo True (st\<lparr>ld_tablename := Some (tname t), ld_tid := tid\<rparr>) (concat (map (row_lines tb0) (kept_rows t))) = Some st'"
    "loading db0 (tname t) (A(tname t := A (tname t) @ map snd (kept_rows t))) st'"
    using load_rows[OF tb(1) i m _ _ l rs] sv sc by (auto simp: tab_saves_def)
  then show ?thesis using line rl by (auto simp: tab_lines_def loading_def between_def)
qed

fun loaded :: "(cstring \<Rightarrow> cell list list) \<Rightarrow> dbTable list \<Rightarrow> cstring \<Rightarrow> cell list list" where
  "loaded A [] = A"
| "loaded A (t # ts) = loaded (A(tname t := A (tname t) @ map snd (kept_rows t))) ts"

lemma loaded_other: "u \<notin> tname ` set ts \<Longrightarrow> loaded A ts u = A u"
  by (induction ts arbitrary: A) auto

lemma loaded_mem: "distinct (map tname ts) \<Longrightarrow> t \<in> set ts \<Longrightarrow> loaded A ts (tname t) = A (tname t) @ map snd (kept_rows t)"
proof (induction ts arbitrary: A)
  case (Cons u ts)
  show ?case
  proof (cases "t = u")
    case True
    then show ?thesis using Cons.prems loaded_other[of "tname u" ts] by auto
  next
    case False
    then have "t \<in> set ts" "tname t \<noteq> tname u" using Cons.prems by (auto simp: image_iff)
    then show ?thesis using Cons by simp
  qed
qed simp

lemma load_tabs:
  assumes i: "db_inv db0" and m: "\<not> refuses mr" "\<not> refuses mo"
  shows "between db0 A st \<Longrightarrow> (\<forall>t\<in>set ts. tab_saves t \<and> tbl_ok t \<and> (\<exists>tb0. db_tab db0 (tname t) = Some tb0 \<and> same_schema t tb0)) \<Longrightarrow>
     \<exists>st'. load_lines mr mo True st (concat (map tab_lines ts)) = Some st' \<and> between db0 (loaded A ts) st'"
proof (induction ts arbitrary: A st)
  case Nil
  then show ?case by simp
next
  case (Cons t ts)
  obtain tb0 where tb0: "db_tab db0 (tname t) = Some tb0" "same_schema t tb0" "tab_saves t" "tbl_ok t" using Cons.prems(2) by auto
  obtain st1 where st1: "load_lines mr mo True st (tab_lines t) = Some st1" "between db0 (A(tname t := A (tname t) @ map snd (kept_rows t))) st1"
    using load_tab[OF Cons.prems(1) i m tb0] by blast
  obtain st' where "load_lines mr mo True st1 (concat (map tab_lines ts)) = Some st'"
    "between db0 (loaded (A(tname t := A (tname t) @ map snd (kept_rows t))) ts) st'"
    using Cons.IH[OF st1(2)] Cons.prems(2) by (meson list.set_intros(2))
  then show ?case using st1(1) unfolding loaded.simps by (intro exI[of _ st'] conjI) (simp_all add: load_lines_append)
qed

lemma tabs_from_mem: "t \<in> set (tabs_from db k n) \<longleftrightarrow> (\<exists>i. k \<le> i \<and> i < k + int n \<and> h_get (dbListTables db) i = Some t)"
proof (induction n arbitrary: k)
  case 0
  then show ?case by auto
next
  case (Suc n)
  have here: "t \<in> set (case h_get (dbListTables db) k of Some t \<Rightarrow> [t] | None \<Rightarrow> []) \<longleftrightarrow> h_get (dbListTables db) k = Some t"
    by (cases "h_get (dbListTables db) k") auto
  have rng: "k \<le> i \<and> i < k + int (Suc n) \<longleftrightarrow> i = k \<or> k + 1 \<le> i \<and> i < k + 1 + int n" for i by auto
  show ?case unfolding tabs_from.simps set_append Un_iff here Suc.IH conj_assoc[symmetric] rng by blast
qed

text \<open>Tables have different names.\<close>

definition names_differ :: "dbstate \<Rightarrow> bool" where
  "names_differ db \<longleftrightarrow> (\<forall>i j n. names_at db i = Some n \<and> names_at db j = Some n \<longrightarrow> i = j)"

lemma tabs_from_distinct: "names_differ db \<Longrightarrow> distinct (map tname (tabs_from db k n))"
proof (induction n arbitrary: k)
  case (Suc n)
  have "tname t \<notin> tname ` set (tabs_from db (k + 1) n)" if t: "h_get (dbListTables db) k = Some t" for t
  proof
    assume "tname t \<in> tname ` set (tabs_from db (k + 1) n)"
    then obtain u where u: "u \<in> set (tabs_from db (k + 1) n)" "tname u = tname t" by auto
    then obtain i where i: "k + 1 \<le> i" "h_get (dbListTables db) i = Some u" unfolding tabs_from_mem by blast
    then have "i = k" using Suc.prems t u(2) by (auto simp: names_differ_def names_at_def)
    then show False using i(1) by simp
  qed
  then show ?case using Suc by (auto split: option.split)
qed simp

lemma db_tabs_iff:
  assumes i: "db_inv db" and d: "names_differ db"
  shows "t \<in> set (db_tabs db) \<longleftrightarrow> db_tab db (tname t) = Some t"
proof
  assume "t \<in> set (db_tabs db)"
  then obtain k where k: "h_get (dbListTables db) k = Some t" unfolding db_tabs_def tabs_from_mem by blast
  obtain k' where k': "dbGetTableId db (tname t) = Some k'" "first_name db (tname t) k'" using dbGetTableId_first[OF i] by blast
  have "names_at db k = Some (tname t)" using k by (simp add: names_at_def)
  then have "k' = k" "0 \<le> k'" using k'(2) d by (auto simp: first_name_def names_differ_def)
  then show "db_tab db (tname t) = Some t" using k'(1) k by (simp add: db_tab_def)
next
  assume "db_tab db (tname t) = Some t"
  then obtain k where "0 \<le> k" "k < dbMaxTables db" "h_get (dbListTables db) k = Some t" using db_tab_Some[OF i] by blast
  then show "t \<in> set (db_tabs db)" unfolding db_tabs_def tabs_from_mem by auto
qed

lemma dbZero_tables_dir: "dbZero_tables db k n = Some db' \<Longrightarrow> basicGetProductDir db' = basicGetProductDir db"
proof (induction n arbitrary: db k)
  case (Suc n)
  obtain e where e: "h_entry (dbListTables db) k = Some e" using Suc.prems by (cases "h_entry (dbListTables db) k") auto
  show ?case
  proof (cases e)
    case None
    then show ?thesis using Suc.IH[of db "k + 1"] Suc.prems e by simp
  next
    case (Some t)
    then obtain t1 where "dbZero_tables (db_put db k (t1\<lparr>rows := None, nRows := 0\<rparr>)) (k + 1) n = Some db'"
      using Suc.prems e by (auto simp: bind_eq_Some_conv)
    then have "basicGetProductDir db' = basicGetProductDir (db_put db k (t1\<lparr>rows := None, nRows := 0\<rparr>))" by (rule Suc.IH)
    then show ?thesis by (cases "basicProdDir db") (simp_all add: db_put_def basicGetProductDir_def)
  qed
qed simp

lemma kv_line_clean:
  "kv_line k v \<noteq> []" "plain k \<Longrightarrow> plain v \<Longrightarrow> CHR 0x00 \<notin> set (kv_line k v) \<and> CHR 0x0A \<notin> set (kv_line k v)"
  by (auto simp: kv_line_def plain_def)

lemma cell_text_plain: "cell_saves nm ty x \<Longrightarrow> plain (cell_text x)"
  using int_text_plain by (auto simp: cell_saves_def cell_text_def split: cell.splits)

lemma tab_lines_clean:
  assumes "tab_saves t" "tbl_ok t" "l \<in> set (tab_lines t)"
  shows "l \<noteq> [] \<and> CHR 0x00 \<notin> set l \<and> CHR 0x0A \<notin> set l"
proof -
  have "\<exists>k v. l = kv_line k v \<and> plain k \<and> plain v"
  proof (cases "l = kv_line KEYWORD_TABLE (tname t)")
    case True
    then show ?thesis using assms(1) keyword_plain(1) by (auto simp: tab_saves_def)
  next
    case False
    then obtain r pRow where rp: "(r, pRow) \<in> set (kept_rows t)" "l \<in> set (row_lines t (r, pRow))"
      using assms(3) by (auto simp: tab_lines_def)
    show ?thesis
    proof (cases "l = kv_line KEYWORD_ROW (int_text r)")
      case True
      then show ?thesis using keyword_plain(2) int_text_plain by blast
    next
      case False
      then obtain i where i: "i < length (columnNames t)" "i < length pRow" "l = kv_line (columnNames t ! i) (cell_text (pRow ! i))"
        using rp(2) by (auto simp: row_lines_def set_zip)
      have "cell_saves (columnNames t ! i) (columnTypes t ! i) (pRow ! i)" "plain (columnNames t ! i)"
        using assms(1) rp(1) i(1,2) by (auto simp: tab_saves_def key_ok_def)
      then show ?thesis using i(3) cell_text_plain by blast
    qed
  qed
  then obtain k v where "l = kv_line k v" "plain k" "plain v" by blast
  then show ?thesis using kv_line_clean[of k v] by simp
qed

lemma lines_text_clean: "\<forall>l\<in>set ls. CHR 0x00 \<notin> set l \<Longrightarrow> CHR 0x00 \<notin> set (lines_text ls)"
  by (auto simp: lines_text_def)

lemma balloc_some: "\<forall>k. m k \<noteq> None \<Longrightarrow> 0 \<le> n \<Longrightarrow> balloc m n \<noteq> None"
  by (auto simp: balloc_def)

text \<open>Emptied tables keep their names, handles and schemas.\<close>

lemma dbZero_reps:
  assumes i: "db_inv db"
  shows "\<exists>db0. dbZero db = Some db0 \<and> reps db0 (\<lambda>_. []) \<and> basicGetProductDir db0 = basicGetProductDir db \<and>
     (\<forall>t tb. db_tab db t = Some tb \<longrightarrow> db_tab db0 t = Some (emptied tb))"
proof -
  obtain db0 where z: "dbZero db = Some db0" "db_inv db0" "\<forall>t. db_tab db0 t = map_option emptied (db_tab db t)"
    using dbZero_spec[OF i] by blast
  have "tab_cell (emptied tb) = grid (emptied tb) []" for tb by (simp add: tab_cell_def grid_def emptied_def h_get_def fun_eq_iff)
  then have "reps db0 (\<lambda>_. [])" using z(2,3) by (auto simp: reps_def)
  moreover have "basicGetProductDir db0 = basicGetProductDir db" using z(1) dbZero_tables_dir unfolding dbZero_def by blast
  ultimately show ?thesis using z(1,3) by auto
qed

lemma dbLoad_spec:
  assumes m: "\<forall>k. m k \<noteq> None" "\<not> refuses mr" "\<not> refuses mo" and io: "good_io io" and i: "db_inv db" and d: "names_differ db"
    and sv: "\<forall>t\<in>set (db_tabs db). tab_saves t" and p: "path_ok db f" and ne: "db_tabs db \<noteq> []"
    and fs: "fs (db_path db f) = Some (lines_text (db_lines db))"
    and z: "reps db0 (\<lambda>_. [])" "basicGetProductDir db0 = basicGetProductDir db"
      "\<forall>t tb. db_tab db t = Some tb \<longrightarrow> db_tab db0 t = Some (emptied tb)"
  shows "\<exists>db'. dbLoad m mr mo sc True io fs db0 (Some f) = Some (db', 0) \<and> reps db' (loaded (\<lambda>_. []) (db_tabs db)) \<and> same_tabs db0 db'"
proof -
  have ts: "tab_saves t \<and> tbl_ok t \<and> (\<exists>tb0. db_tab db0 (tname t) = Some tb0 \<and> same_schema t tb0)" if t: "t \<in> set (db_tabs db)" for t
  proof -
    have tab: "db_tab db (tname t) = Some t" using db_tabs_iff[OF i d] t by blast
    have "db_tab db0 (tname t) = Some (emptied t)" using tab z(3) by blast
    moreover have "same_schema t (emptied t)" by (simp add: same_schema_def emptied_def)
    ultimately show ?thesis using db_tab_ok[OF i tab] sv t by blast
  qed
  have cl: "\<forall>l\<in>set (db_lines db). l \<noteq> [] \<and> CHR 0x00 \<notin> set l \<and> CHR 0x0A \<notin> set l"
    using ts tab_lines_clean by (fastforce simp: db_lines_def)
  then have tok: "c_tokens CHR 0x0A (c_str (lines_text (db_lines db) @ [CHR 0x00])) = db_lines db"
    using c_str_text[OF lines_text_clean] c_tokens_lines by simp
  have nl: "db_lines db \<noteq> []" using ne by (auto simp: db_lines_def tab_lines_def neq_Nil_conv)
  then obtain l ls where ls: "db_lines db = l # ls" by (cases "db_lines db") auto
  then have nt: "lines_text (db_lines db) \<noteq> []" by auto
  have i0: "db_inv db0" using z(1) by (simp add: reps_def)
  have "between db0 (\<lambda>_. []) \<lparr>ld_db = db0, ld_tablename = None, ld_tid = -1, ld_row = -1\<rparr>" using z(1) by (simp add: between_def)
  then obtain st where st: "load_lines mr mo True \<lparr>ld_db = db0, ld_tablename = None, ld_tid = -1, ld_row = -1\<rparr> (db_lines db) = Some st"
    "between db0 (loaded (\<lambda>_. []) (db_tabs db)) st"
    unfolding db_lines_def using load_tabs[OF i0 m(2,3), of "\<lambda>_. []" _ "db_tabs db"] ts by blast
  have "fmt_str m sc FNAMESIZE ''%s/%s'' [VStr (Some (basicGetProductDir db0)), VStr (Some f)] = Some (db_path db f)"
    using fmt_str_path(1)[OF m(1)] p unfolding z(2) by (simp add: path_ok_def db_path_def)
  moreover have "io_read io (db_path db f)" using io by (simp add: good_io_def)
  ultimately have "dbLoad m mr mo sc True io fs db0 (Some f) =
      (case db_lines db of [] \<Rightarrow> None | l # ls \<Rightarrow> do {
         st \<leftarrow> load_lines mr mo True \<lparr>ld_db = db0, ld_tablename = None, ld_tid = -1, ld_row = -1\<rparr> (l # ls); Some (ld_db st, 0) })"
    using fs nt balloc_some[OF m(1), of "int (length (lines_text (db_lines db))) + 1"] tok unfolding dbLoad_def by auto
  also have "\<dots> = Some (ld_db st, 0)" using st(1) unfolding ls list.case by (simp only: bind.bind_lunit)
  finally have "dbLoad m mr mo sc True io fs db0 (Some f) = Some (ld_db st, 0)" .
  then show ?thesis using st(2) by (auto simp: between_def)
qed

text \<open>
  C16. Committing the user manager's database and restoring it gives the records back. Memory and
  files serve every call; tables have different names and there is at least one; names and
  values carry no NUL or line ends and no leading blank, lines fit the 4095-character buffer
  and the path its own. Then \<^verbatim>\<open>umCommit\<close> returns 0 with the database unchanged, touching only
  its file and the temporary one; and \<^verbatim>\<open>umRestore\<close> on the file returns 0 with every table under
  its schema, holding exactly the rows in use whose first string is not empty, in their order
  and numbered from 0.
\<close>

theorem umRestore_umCommit:
  assumes "\<forall>k. m k \<noteq> None" "\<not> refuses mr" "\<not> refuses mo" "good_io io" "db_inv (umdb st)" "names_differ (umdb st)"
    and "db_tabs (umdb st) \<noteq> []" "\<forall>t\<in>set (db_tabs (umdb st)). tab_saves t" "path_ok (umdb st) f" "f \<noteq> []"
  shows "\<exists>st1 fs1 st2. umCommit m sc True io fs st (Some f) = Some (st1, fs1, 0) \<and> umdb st1 = umdb st \<and>
     (\<forall>p. p \<noteq> db_path (umdb st) f \<and> p \<noteq> db_path (umdb st) ''data.tmp'' \<longrightarrow> fs1 p = fs p) \<and>
     umRestore m mr mo sc True io fs1 st1 None = Some (st2, 0) \<and> db_inv (umdb st2) \<and>
     (\<forall>t tb. db_tab (umdb st) t = Some tb \<longrightarrow>
        (\<exists>tb'. db_tab (umdb st2) t = Some tb' \<and> same_schema tb tb' \<and> tab_cell tb' = grid tb (map snd (kept_rows tb))))"
proof -
  define db where "db = umdb st"
  note a = assms[folded db_def]
  obtain fs1 where s: "dbSave m sc io fs db (Some f) = Some (fs1, 0)" "fs1 (db_path db f) = Some (lines_text (db_lines db))"
    "\<forall>p. p \<noteq> db_path db f \<and> p \<noteq> db_path db ''data.tmp'' \<longrightarrow> fs1 p = fs p"
    using dbSave_spec[OF a(1,4,5,8,9), of sc fs] by blast
  obtain db0 where z: "dbZero db = Some db0" "reps db0 (\<lambda>_. [])" "basicGetProductDir db0 = basicGetProductDir db"
    "\<forall>t tb. db_tab db t = Some tb \<longrightarrow> db_tab db0 t = Some (emptied tb)" using dbZero_reps[OF a(5)] by blast
  obtain db' where l: "dbLoad m mr mo sc True io fs1 db0 (Some f) = Some (db', 0)" "reps db' (loaded (\<lambda>_. []) (db_tabs db))" "same_tabs db0 db'"
    using dbLoad_spec[where fs = fs1 and db = db and f = f and ?db0.0 = db0, OF a(1-6,8,9,7) s(2) z(2-4), of sc] by blast
  define st1 where "st1 = st\<lparr>saveFilename := Some f\<rparr>"
  have "umCommit m sc True io fs st (Some f) = Some (st1, fs1, 0)" "umRestore m mr mo sc True io fs1 st1 None = Some (st1\<lparr>umdb := db'\<rparr>, 0)"
    using a(10) s(1) z(1) l(1) by (auto simp: umCommit_def umRestore_def um_filename_def st1_def db_def)
  moreover have "\<exists>tb'. db_tab db' t = Some tb' \<and> same_schema tb tb' \<and> tab_cell tb' = grid tb (map snd (kept_rows tb))"
    if tb: "db_tab db t = Some tb" for t tb
  proof -
    have nm: "tname tb = t" using db_tab_Some[OF a(5) tb] by auto
    obtain tb' where tb': "db_tab db' t = Some tb'" "same_schema (emptied tb) tb'" using same_tabs_Some[OF l(3)] z(4) tb by blast
    have sc: "same_schema tb tb'" using tb'(2) by (simp add: same_schema_def emptied_def)
    have "tb \<in> set (db_tabs db)" using db_tabs_iff[OF a(5,6)] tb nm by simp
    moreover have "distinct (map tname (db_tabs db))" unfolding db_tabs_def by (rule tabs_from_distinct[OF a(6)])
    ultimately have "loaded (\<lambda>_. []) (db_tabs db) t = map snd (kept_rows tb)" using loaded_mem[of "db_tabs db" tb "\<lambda>_. []"] nm by simp
    then have "tab_cell tb' = grid tb (map snd (kept_rows tb))" using l(2) tb'(1) grid_same[OF sc] by (auto simp: reps_def)
    then show ?thesis using tb'(1) sc by blast
  qed
  ultimately show ?thesis using l(2) s(3) unfolding db_def[symmetric] by (intro exI[of _ st1] exI[of _ fs1] exI) (auto simp: st1_def db_def reps_def)
qed


text \<open>A table with a deleted first row.\<close>

definition demo_table :: dbTable where
  "demo_table = \<lparr>tname = ''users'', nColumns = 2, columnNames = [''name'', ''priv''], columnTypes = [T_STRING, T_INT], nRows = 2,
     rows = Some \<lparr>H_LEN = 16, H_USED = 1, slots = None # Some [CStr ''eve'', CInt (-7)] # replicate 14 None\<rparr>\<rparr>"

definition demo_um :: um_state where
  "demo_um = um_init\<lparr>umdb := \<lparr>dbListTables = Some \<lparr>H_LEN = 16, H_USED = 1, slots = Some demo_table # replicate 15 None\<rparr>,
     dbMaxTables = 1, basicProdDir = None, basicDefaultDir = ''.''\<rparr>\<rparr>"

lemma h_get_one: "h_get (Some \<lparr>H_LEN = n, H_USED = u, slots = replicate a None @ Some x # replicate b None\<rparr>) i = (if i = int a then Some x else None)"
  by (auto simp: h_get_def nth_append nth_Cons split: nat.splits)

lemma demo_tables:
  "h_get (rows demo_table) i = (if i = 1 then Some [CStr ''eve'', CInt (-7)] else None)"
  "h_get (dbListTables (umdb demo_um)) i = (if i = 0 then Some demo_table else None)"
  using h_get_one[of 16 1 1 "[CStr ''eve'', CInt (-7)]" 14 i] h_get_one[of 16 1 0 demo_table 15 i]
  by (simp_all add: demo_table_def demo_um_def)

lemma demo_inv: "db_inv (umdb demo_um)" "names_differ (umdb demo_um)" "db_tabs (umdb demo_um) = [demo_table]"
proof -
  have "tbl_ok demo_table"
    unfolding tbl_ok_def demo_tables h_top_def row_ok_def
    by (auto simp: demo_table_def h_inv_def h_ok_def H_INCR_def h_count_def less_Suc_eq cell_typed_def cell_str_def T_INT_def T_STRING_def)
  then show "db_inv (umdb demo_um)"
    unfolding db_inv_def demo_tables h_top_def
    by (auto simp: demo_um_def h_inv_def h_ok_def H_INCR_def h_count_def)
  show "names_differ (umdb demo_um)" by (simp add: names_differ_def names_at_def demo_tables)
  have "dbMaxTables (umdb demo_um) = 1" by (simp add: demo_um_def)
  then show "db_tabs (umdb demo_um) = [demo_table]" by (simp add: db_tabs_def demo_tables)
qed

lemma demo_saves: "tab_saves demo_table" "kept_rows demo_table = [(1, [CStr ''eve'', CInt (-7)])]"
  by code_simp+

theorem umRestore_umCommit_witness:
  "\<exists>io st1 fs1 st2 tb'. umCommit granted True True io (\<lambda>_. None) demo_um (Some ''um.txt'') = Some (st1, fs1, 0) \<and>
     umRestore granted granted granted True True io fs1 st1 None = Some (st2, 0) \<and> db_tab (umdb st2) ''users'' = Some tb' \<and>
     tab_cell tb' 0 ''name'' = Some (CStr ''eve'') \<and> tab_cell tb' 0 ''priv'' = Some (CInt (-7)) \<and> tab_cell tb' 1 ''name'' = None"
proof -
  define io where "io = \<lparr>io_create = \<lambda>_. True, io_write = \<lambda>_ b. int (length b), io_rename = \<lambda>_ _. True, io_read = \<lambda>_. True\<rparr>"
  have io: "good_io io" by (simp add: good_io_def io_def)
  have tab: "db_tab (umdb demo_um) ''users'' = Some demo_table"
    using db_tabs_iff[OF demo_inv(1,2), of demo_table] demo_inv(3) by (simp add: demo_table_def)
  have p: "path_ok (umdb demo_um) ''um.txt''" by (simp add: path_ok_def demo_um_def basicGetProductDir_def)
  have g: "\<forall>k. granted k \<noteq> None" and ne: "db_tabs (umdb demo_um) \<noteq> []" "\<forall>t\<in>set (db_tabs (umdb demo_um)). tab_saves t" "''um.txt'' \<noteq> []"
    using demo_inv(3) demo_saves(1) by simp_all
  obtain st1 fs1 st2 where r: "umCommit granted True True io (\<lambda>_. None) demo_um (Some ''um.txt'') = Some (st1, fs1, 0)"
    "umRestore granted granted granted True True io fs1 st1 None = Some (st2, 0)"
    "\<And>t tb. db_tab (umdb demo_um) t = Some tb \<Longrightarrow>
        \<exists>tb'. db_tab (umdb st2) t = Some tb' \<and> same_schema tb tb' \<and> tab_cell tb' = grid tb (map snd (kept_rows tb))"
    using umRestore_umCommit[OF g granted granted io demo_inv(1,2) ne(1,2) p ne(3), of True "\<lambda>_. None"] by blast
  obtain tb' where "db_tab (umdb st2) ''users'' = Some tb'" "tab_cell tb' = grid demo_table [[CStr ''eve'', CInt (-7)]]"
    using r(3)[OF tab] by (auto simp: demo_saves(2))
  moreover have "grid demo_table [[CStr ''eve'', CInt (-7)]] 0 ''name'' = Some (CStr ''eve'')"
    "grid demo_table [[CStr ''eve'', CInt (-7)]] 0 ''priv'' = Some (CInt (-7))" "grid demo_table [[CStr ''eve'', CInt (-7)]] 1 ''name'' = None"
    by code_simp+
  ultimately show ?thesis using r(1,2) by (intro exI[of _ io] exI[of _ st1] exI[of _ fs1] exI[of _ st2] exI[of _ tb']) simp
qed

end
