(* ===== verification/Md5.thy ===== *)
theory Md5
  imports WebsPrelude
begin

text \<open>
  The digest of \<^verbatim>\<open>md5c.c\<close>: the context of \<^verbatim>\<open>md5.h\<close>, the compression of one 64-byte block in its
  unrolled form (the one compiled) and in its table-driven form (\<^verbatim>\<open>SMALL_CODE\<close>), and the
  streaming interface \<^verbatim>\<open>psMd5Init\<close>, \<^verbatim>\<open>psMd5Update\<close>, \<^verbatim>\<open>psMd5Final\<close>. The reference is the digest of a
  whole message as RFC 1321 defines it, with its own round functions, rotation and padding.

  \<^verbatim>\<open>unsigned long\<close> has 32 bits here, so all sums wrap as in the standard.
\<close>

unbundle bit_operations_syntax

section \<open>One block\<close>

type_synonym md5_regs = "32 word \<times> 32 word \<times> 32 word \<times> 32 word"

definition md5_F :: "32 word \<Rightarrow> 32 word \<Rightarrow> 32 word \<Rightarrow> 32 word" where
  "md5_F x y z = z XOR (x AND (y XOR z))"

definition md5_G :: "32 word \<Rightarrow> 32 word \<Rightarrow> 32 word \<Rightarrow> 32 word" where
  "md5_G x y z = y XOR (z AND (y XOR x))"

definition md5_H :: "32 word \<Rightarrow> 32 word \<Rightarrow> 32 word \<Rightarrow> 32 word" where
  "md5_H x y z = x XOR y XOR z"

definition md5_I :: "32 word \<Rightarrow> 32 word \<Rightarrow> 32 word \<Rightarrow> 32 word" where
  "md5_I x y z = y XOR (x OR NOT z)"

definition ROLc :: "32 word \<Rightarrow> nat \<Rightarrow> 32 word" where
  "ROLc x y = push_bit (y mod 32) x OR drop_bit (32 - y mod 32) x"

definition md5_FF :: "32 word \<Rightarrow> 32 word \<Rightarrow> 32 word \<Rightarrow> 32 word \<Rightarrow> 32 word \<Rightarrow> nat \<Rightarrow> 32 word \<Rightarrow> 32 word" where
  "md5_FF a b c d M s t = ROLc (a + md5_F b c d + M + t) s + b"

definition md5_GG :: "32 word \<Rightarrow> 32 word \<Rightarrow> 32 word \<Rightarrow> 32 word \<Rightarrow> 32 word \<Rightarrow> nat \<Rightarrow> 32 word \<Rightarrow> 32 word" where
  "md5_GG a b c d M s t = ROLc (a + md5_G b c d + M + t) s + b"

definition md5_HH :: "32 word \<Rightarrow> 32 word \<Rightarrow> 32 word \<Rightarrow> 32 word \<Rightarrow> 32 word \<Rightarrow> nat \<Rightarrow> 32 word \<Rightarrow> 32 word" where
  "md5_HH a b c d M s t = ROLc (a + md5_H b c d + M + t) s + b"

definition md5_II :: "32 word \<Rightarrow> 32 word \<Rightarrow> 32 word \<Rightarrow> 32 word \<Rightarrow> 32 word \<Rightarrow> nat \<Rightarrow> 32 word \<Rightarrow> 32 word" where
  "md5_II a b c d M s t = ROLc (a + md5_I b c d + M + t) s + b"

text \<open>The words of a block, least significant byte first.\<close>

definition LOAD32L :: "byte list \<Rightarrow> nat \<Rightarrow> 32 word" where
  "LOAD32L y i = push_bit 24 (word_of_int (c_uchar (y ! (i + 3)))) OR push_bit 16 (word_of_int (c_uchar (y ! (i + 2)))) OR
     push_bit 8 (word_of_int (c_uchar (y ! (i + 1)))) OR word_of_int (c_uchar (y ! i))"

definition STORE32L :: "32 word \<Rightarrow> byte list" where
  "STORE32L x = [to_char (uint (x AND 255)), to_char (uint (drop_bit 8 x AND 255)),
     to_char (uint (drop_bit 16 x AND 255)), to_char (uint (drop_bit 24 x AND 255))]"

text \<open>The 64 steps, unrolled.\<close>

definition md5_rounds :: "32 word list \<Rightarrow> md5_regs \<Rightarrow> md5_regs" where
  "md5_rounds W = (\<lambda>(a, b, c, d).
     (let
      a = md5_FF a b c d (W ! 0) 7 0xD76AA478;
      d = md5_FF d a b c (W ! 1) 12 0xE8C7B756;
      c = md5_FF c d a b (W ! 2) 17 0x242070DB;
      b = md5_FF b c d a (W ! 3) 22 0xC1BDCEEE;
      a = md5_FF a b c d (W ! 4) 7 0xF57C0FAF;
      d = md5_FF d a b c (W ! 5) 12 0x4787C62A;
      c = md5_FF c d a b (W ! 6) 17 0xA8304613;
      b = md5_FF b c d a (W ! 7) 22 0xFD469501;
      a = md5_FF a b c d (W ! 8) 7 0x698098D8;
      d = md5_FF d a b c (W ! 9) 12 0x8B44F7AF;
      c = md5_FF c d a b (W ! 10) 17 0xFFFF5BB1;
      b = md5_FF b c d a (W ! 11) 22 0x895CD7BE;
      a = md5_FF a b c d (W ! 12) 7 0x6B901122;
      d = md5_FF d a b c (W ! 13) 12 0xFD987193;
      c = md5_FF c d a b (W ! 14) 17 0xA679438E;
      b = md5_FF b c d a (W ! 15) 22 0x49B40821;
      a = md5_GG a b c d (W ! 1) 5 0xF61E2562;
      d = md5_GG d a b c (W ! 6) 9 0xC040B340;
      c = md5_GG c d a b (W ! 11) 14 0x265E5A51;
      b = md5_GG b c d a (W ! 0) 20 0xE9B6C7AA;
      a = md5_GG a b c d (W ! 5) 5 0xD62F105D;
      d = md5_GG d a b c (W ! 10) 9 0x2441453;
      c = md5_GG c d a b (W ! 15) 14 0xD8A1E681;
      b = md5_GG b c d a (W ! 4) 20 0xE7D3FBC8;
      a = md5_GG a b c d (W ! 9) 5 0x21E1CDE6;
      d = md5_GG d a b c (W ! 14) 9 0xC33707D6;
      c = md5_GG c d a b (W ! 3) 14 0xF4D50D87;
      b = md5_GG b c d a (W ! 8) 20 0x455A14ED;
      a = md5_GG a b c d (W ! 13) 5 0xA9E3E905;
      d = md5_GG d a b c (W ! 2) 9 0xFCEFA3F8;
      c = md5_GG c d a b (W ! 7) 14 0x676F02D9;
      b = md5_GG b c d a (W ! 12) 20 0x8D2A4C8A;
      a = md5_HH a b c d (W ! 5) 4 0xFFFA3942;
      d = md5_HH d a b c (W ! 8) 11 0x8771F681;
      c = md5_HH c d a b (W ! 11) 16 0x6D9D6122;
      b = md5_HH b c d a (W ! 14) 23 0xFDE5380C;
      a = md5_HH a b c d (W ! 1) 4 0xA4BEEA44;
      d = md5_HH d a b c (W ! 4) 11 0x4BDECFA9;
      c = md5_HH c d a b (W ! 7) 16 0xF6BB4B60;
      b = md5_HH b c d a (W ! 10) 23 0xBEBFBC70;
      a = md5_HH a b c d (W ! 13) 4 0x289B7EC6;
      d = md5_HH d a b c (W ! 0) 11 0xEAA127FA;
      c = md5_HH c d a b (W ! 3) 16 0xD4EF3085;
      b = md5_HH b c d a (W ! 6) 23 0x4881D05;
      a = md5_HH a b c d (W ! 9) 4 0xD9D4D039;
      d = md5_HH d a b c (W ! 12) 11 0xE6DB99E5;
      c = md5_HH c d a b (W ! 15) 16 0x1FA27CF8;
      b = md5_HH b c d a (W ! 2) 23 0xC4AC5665;
      a = md5_II a b c d (W ! 0) 6 0xF4292244;
      d = md5_II d a b c (W ! 7) 10 0x432AFF97;
      c = md5_II c d a b (W ! 14) 15 0xAB9423A7;
      b = md5_II b c d a (W ! 5) 21 0xFC93A039;
      a = md5_II a b c d (W ! 12) 6 0x655B59C3;
      d = md5_II d a b c (W ! 3) 10 0x8F0CCC92;
      c = md5_II c d a b (W ! 10) 15 0xFFEFF47D;
      b = md5_II b c d a (W ! 1) 21 0x85845DD1;
      a = md5_II a b c d (W ! 8) 6 0x6FA87E4F;
      d = md5_II d a b c (W ! 15) 10 0xFE2CE6E0;
      c = md5_II c d a b (W ! 6) 15 0xA3014314;
      b = md5_II b c d a (W ! 13) 21 0x4E0811A1;
      a = md5_II a b c d (W ! 4) 6 0xF7537E82;
      d = md5_II d a b c (W ! 11) 10 0xBD3AF235;
      c = md5_II c d a b (W ! 2) 15 0x2AD7D2BB;
      b = md5_II b c d a (W ! 9) 21 0xEB86D391
      in (a, b, c, d)))"

text \<open>The table-driven variant. The table of constants has four entries that are never used.\<close>

definition Worder :: "nat list" where
  "Worder = [
     0,1,2,3,4,5,6,7,8,9,10,11,12,13,14,15,
     1,6,11,0,5,10,15,4,9,14,3,8,13,2,7,12,
     5,8,11,14,1,4,7,10,13,0,3,6,9,12,15,2,
     0,7,14,5,12,3,10,1,8,15,6,13,4,11,2,9]"

definition Rorder :: "nat list" where
  "Rorder = [
     7,12,17,22,7,12,17,22,7,12,17,22,7,12,17,22,
     5,9,14,20,5,9,14,20,5,9,14,20,5,9,14,20,
     4,11,16,23,4,11,16,23,4,11,16,23,4,11,16,23,
     6,10,15,21,6,10,15,21,6,10,15,21,6,10,15,21]"

definition Korder :: "32 word list" where
  "Korder = [
     0xD76AA478, 0xE8C7B756, 0x242070DB, 0xC1BDCEEE,
     0xF57C0FAF, 0x4787C62A, 0xA8304613, 0xFD469501,
     0x698098D8, 0x8B44F7AF, 0xFFFF5BB1, 0x895CD7BE,
     0x6B901122, 0xFD987193, 0xA679438E, 0x49B40821,
     0xF61E2562, 0xC040B340, 0x265E5A51, 0xE9B6C7AA,
     0xD62F105D, 0x2441453, 0xD8A1E681, 0xE7D3FBC8,
     0x21E1CDE6, 0xC33707D6, 0xF4D50D87, 0x455A14ED,
     0xA9E3E905, 0xFCEFA3F8, 0x676F02D9, 0x8D2A4C8A,
     0xFFFA3942, 0x8771F681, 0x6D9D6122, 0xFDE5380C,
     0xA4BEEA44, 0x4BDECFA9, 0xF6BB4B60, 0xBEBFBC70,
     0x289B7EC6, 0xEAA127FA, 0xD4EF3085, 0x4881D05,
     0xD9D4D039, 0xE6DB99E5, 0x1FA27CF8, 0xC4AC5665,
     0xF4292244, 0x432AFF97, 0xAB9423A7, 0xFC93A039,
     0x655B59C3, 0x8F0CCC92, 0xFFEFF47D, 0x85845DD1,
     0x6FA87E4F, 0xFE2CE6E0, 0xA3014314, 0x4E0811A1,
     0xF7537E82, 0xBD3AF235, 0x2AD7D2BB, 0xEB86D391,
     0xE1F27F3A, 0xF5710FB0, 0xADA0E5C4, 0x98E4C919]"

definition small_f :: "32 word list \<Rightarrow> nat \<Rightarrow> 32 word \<Rightarrow> 32 word \<Rightarrow> 32 word \<Rightarrow> 32 word \<Rightarrow> 32 word" where
  "small_f W i a b c d =
     (if i < 16 then md5_FF a b c d (W ! (Worder ! i)) (Rorder ! i) (Korder ! i)
      else if i < 32 then md5_GG a b c d (W ! (Worder ! i)) (Rorder ! i) (Korder ! i)
      else if i < 48 then md5_HH a b c d (W ! (Worder ! i)) (Rorder ! i) (Korder ! i)
      else md5_II a b c d (W ! (Worder ! i)) (Rorder ! i) (Korder ! i))"

definition small_step :: "32 word list \<Rightarrow> md5_regs \<Rightarrow> nat \<Rightarrow> md5_regs" where
  "small_step W = (\<lambda>(a, b, c, d) i. (d, small_f W i a b c d, b, c))"

definition md5_rounds_small :: "32 word list \<Rightarrow> md5_regs \<Rightarrow> md5_regs" where
  "md5_rounds_small W r = foldl (small_step W) r [0..<64]"

text \<open>\<open>md5_words\<close> are the 16 words loaded from the buffer.\<close>

definition md5_words :: "byte list \<Rightarrow> 32 word list" where
  "md5_words b = map (\<lambda>i. LOAD32L b (4 * i)) [0..<16]"

definition regs_add :: "md5_regs \<Rightarrow> md5_regs \<Rightarrow> md5_regs" where
  "regs_add = (\<lambda>(a0, b0, c0, d0) (a, b, c, d). (a0 + a, b0 + b, c0 + c, d0 + d))"

section \<open>The streaming interface\<close>

record md5ctx =
  lengthHi :: "32 word"
  lengthLo :: "32 word"
  md5_state :: md5_regs
  curlen :: nat
  md5_buf :: "byte list"

definition md5_compress :: "md5ctx \<Rightarrow> md5ctx" where
  "md5_compress md = md\<lparr>md5_state := regs_add (md5_state md) (md5_rounds (md5_words (md5_buf md)) (md5_state md))\<rparr>"

text \<open>The buffer is not initialised.\<close>

definition psMd5Init :: "md5ctx \<Rightarrow> md5ctx" where
  "psMd5Init md = md\<lparr>md5_state := (0x67452301, 0xEFCDAB89, 0x98BADCFE, 0x10325476), curlen := 0, lengthHi := 0, lengthLo := 0\<rparr>"

text \<open>Adding to the bit count: the carry goes to the high word.\<close>

definition add_length :: "md5ctx \<Rightarrow> 32 word \<Rightarrow> md5ctx" where
  "add_length md k =
     (let n = lengthLo md + k
      in md\<lparr>lengthHi := (if n < lengthLo md then lengthHi md + 1 else lengthHi md), lengthLo := n\<rparr>)"

partial_function (option) psMd5Update :: "md5ctx \<Rightarrow> byte list \<Rightarrow> nat \<Rightarrow> md5ctx option" where
  [code]: "psMd5Update md buf len =
     (if len = 0 then Some md
      else do {
        b \<leftarrow> mem_copy (md5_buf md) (int (curlen md)) buf (int (min len (64 - curlen md)));
        (let n = min len (64 - curlen md);
             md1 = md\<lparr>md5_buf := b, curlen := curlen md + n\<rparr>;
             md2 = (if curlen md1 = 64 then (add_length (md5_compress md1) 512)\<lparr>curlen := 0\<rparr> else md1)
         in psMd5Update md2 (drop n buf) (len - n)) })"

text \<open>The loop \<^verbatim>\<open>while (curlen < k) buf[curlen++] = 0\<close>.\<close>

fun md5_zeros :: "md5ctx \<Rightarrow> nat \<Rightarrow> md5ctx option" where
  "md5_zeros md 0 = Some md"
| "md5_zeros md (Suc n) = do {
     b \<leftarrow> mem_write (md5_buf md) (int (curlen md)) CHR 0x00;
     md5_zeros (md\<lparr>md5_buf := b, curlen := curlen md + 1\<rparr>) n }"

definition md5_out :: "md5_regs \<Rightarrow> byte list" where
  "md5_out = (\<lambda>(a, b, c, d). STORE32L a @ STORE32L b @ STORE32L c @ STORE32L d)"

text \<open>
  The hash is the result; the caller's pointer is not null. The context is cleared after the
  copy and not looked at again.
\<close>

definition psMd5Final :: "md5ctx \<Rightarrow> byte list option" where
  "psMd5Final md = do {
     let md1 = add_length md (of_nat (curlen md * 8));
     let md2 = md1\<lparr>lengthHi := lengthHi md1 + of_nat (curlen md div 2 ^ 29)\<rparr>;
     b \<leftarrow> mem_write (md5_buf md2) (int (curlen md2)) (to_char 0x80);
     let md3 = md2\<lparr>md5_buf := b, curlen := curlen md2 + 1\<rparr>;
     md4 \<leftarrow> (if curlen md3 > 56 then do {
               z \<leftarrow> md5_zeros md3 (64 - curlen md3);
               Some ((md5_compress z)\<lparr>curlen := 0\<rparr>) }
             else Some md3);
     md5 \<leftarrow> md5_zeros md4 (56 - curlen md4);
     b1 \<leftarrow> mem_copy (md5_buf md5) 56 (STORE32L (lengthLo md5)) 4;
     b2 \<leftarrow> mem_copy b1 60 (STORE32L (lengthHi md5)) 4;
     Some (md5_out (md5_state (md5_compress (md5\<lparr>md5_buf := b2\<rparr>)))) }"

section \<open>The digest of a message\<close>

text \<open>RFC 1321: the four round functions, the order of the words, shifts by round.\<close>

definition rfc_f :: "nat \<Rightarrow> 32 word \<Rightarrow> 32 word \<Rightarrow> 32 word \<Rightarrow> 32 word" where
  "rfc_f i x y z =
     (if i < 16 then (x AND y) OR (NOT x AND z)
      else if i < 32 then (x AND z) OR (y AND NOT z)
      else if i < 48 then x XOR y XOR z
      else y XOR (x OR NOT z))"

definition rfc_word :: "nat \<Rightarrow> nat" where
  "rfc_word i =
     (if i < 16 then i
      else if i < 32 then (5 * i + 1) mod 16
      else if i < 48 then (3 * i + 5) mod 16
      else 7 * i mod 16)"

definition rfc_shift :: "nat \<Rightarrow> nat" where
  "rfc_shift i = [[7, 12, 17, 22], [5, 9, 14, 20], [4, 11, 16, 23], [6, 10, 15, 21]] ! (i div 16) ! (i mod 4)"

definition rfc_step :: "32 word list \<Rightarrow> md5_regs \<Rightarrow> nat \<Rightarrow> md5_regs" where
  "rfc_step X = (\<lambda>(a, b, c, d) i.
     (d, b + word_rotl (rfc_shift i) (a + rfc_f i b c d + X ! rfc_word i + Korder ! i), b, c))"

text \<open>A block as sixteen little-endian numbers.\<close>

definition le_word :: "byte list \<Rightarrow> 32 word" where
  "le_word bs = word_of_int (foldr (\<lambda>c n. c_uchar c + 256 * n) bs 0)"

definition rfc_block :: "md5_regs \<Rightarrow> byte list \<Rightarrow> md5_regs" where
  "rfc_block r b = regs_add r (foldl (rfc_step (map (\<lambda>i. le_word (take 4 (drop (4 * i) b))) [0..<16])) r [0..<64])"

function blocks64 :: "'a list \<Rightarrow> 'a list list" where
  "blocks64 xs = (if length xs < 64 then [] else take 64 xs # blocks64 (drop 64 xs))"
  by pat_completeness auto
termination by (relation "measure length") auto

declare blocks64.simps [simp del]

definition le_bytes :: "nat \<Rightarrow> int \<Rightarrow> byte list" where
  "le_bytes k n = map (\<lambda>i. to_char (n div 256 ^ i)) [0..<k]"

definition rfc_pad :: "nat \<Rightarrow> byte list" where
  "rfc_pad n = to_char 0x80 # replicate ((119 - n mod 64) mod 64) CHR 0x00 @ le_bytes 8 (8 * int n mod 2 ^ 64)"

definition rfc_md5 :: "byte list \<Rightarrow> byte list" where
  "rfc_md5 msg = (case foldl rfc_block (0x67452301, 0xEFCDAB89, 0x98BADCFE, 0x10325476) (blocks64 (msg @ rfc_pad (length msg))) of
     (a, b, c, d) \<Rightarrow> concat (map (\<lambda>w. le_bytes 4 (uint w)) [a, b, c, d]))"

section \<open>Words and bytes\<close>

lemma ROLc_rotl: "0 < s \<Longrightarrow> s < 32 \<Longrightarrow> ROLc x s = word_rotl s x"
proof (rule bit_word_eqI)
  fix n assume s: "0 < s" "s < 32" and n: "n < LENGTH(32)"
  then have n32: "n < 32" by simp
  show "bit (ROLc x s) n = bit (word_rotl s x) n"
  proof (cases "s \<le> n")
    case True
    then have "(n + (32 - s)) mod 32 = n - s" using s n32 by (simp add: mod_if)
    moreover have "\<not> bit x (32 - s + n)" using bit_imp_le_length[of x "32 - s + n"] True s by auto
    ultimately show ?thesis using s n32 True by (simp add: ROLc_def bit_word_rotl_iff bit_or_iff bit_push_bit_iff bit_drop_bit_eq)
  next
    case False
    then have "(n + (32 - s)) mod 32 = 32 - s + n" using s by simp
    then show ?thesis using s n32 False by (simp add: ROLc_def bit_word_rotl_iff bit_or_iff bit_push_bit_iff bit_drop_bit_eq)
  qed
qed

lemma md5_round_functions:
  "md5_F x y z = (x AND y) OR (NOT x AND z)" "md5_G x y z = (x AND z) OR (y AND NOT z)"
  by (rule bit_word_eqI; auto simp: md5_F_def md5_G_def bit_simps)+

lemma c_uchar_take_bit: "take_bit 8 (c_uchar c) = c_uchar c"
  by (simp add: take_bit_eq_mod)

lemma byte_cons: "c_uchar c + 256 * n = c_uchar c OR push_bit 8 n"
  using concat_bit_eq[of 8 "c_uchar c" n] by (simp add: concat_bit_def c_uchar_take_bit push_bit_eq_mult)

lemma LOAD32L_le:
  assumes "i + 4 \<le> length y"
  shows "LOAD32L y i = le_word (take 4 (drop i y))"
proof -
  have t: "take 4 (drop i y) = [y ! i, y ! (i + 1), y ! (i + 2), y ! (i + 3)]"
    using assms by (intro nth_equalityI) (auto simp: less_Suc_eq numeral_eq_Suc nth_Cons')
  have "le_word (take 4 (drop i y)) =
      word_of_int (c_uchar (y ! i) OR push_bit 8 (c_uchar (y ! (i + 1)) OR push_bit 8 (c_uchar (y ! (i + 2)) OR push_bit 8 (c_uchar (y ! (i + 3))))))"
    unfolding le_word_def t by (simp add: byte_cons)
  also have "\<dots> = LOAD32L y i"
    by (simp add: LOAD32L_def of_int_or_eq push_bit_of_int[symmetric] push_bit_or or.assoc or.commute or.left_commute)
  finally show ?thesis by simp
qed

lemma to_char_mod: "to_char (i mod 256) = to_char i"
  by (simp add: to_char_def)

lemma store_byte: "to_char (uint (drop_bit k x AND 255 :: 32 word)) = to_char (uint x div 2 ^ k)"
proof -
  have "uint (drop_bit k x AND 255 :: 32 word) = uint x div 2 ^ k mod 256"
  proof -
    have "drop_bit k x AND 255 = take_bit 8 (drop_bit k x)" using take_bit_eq_mask[of 8 "drop_bit k x"] by (simp add: mask_numeral)
    moreover have "take_bit 32 (uint x) = uint x" using uint_lt2p[of x] by (intro take_bit_int_eq_self) simp_all
    then have "take_bit (min (8 + k) 32) (uint x) = take_bit (8 + k) (uint x)" using take_bit_take_bit[of "8 + k" 32 "uint x"] by simp
    ultimately have "uint (drop_bit k x AND 255 :: 32 word) = take_bit 8 (drop_bit k (uint x))"
      by (simp only: unsigned_take_bit_eq unsigned_drop_bit_eq) (simp add: take_bit_drop_bit)
    then show ?thesis by (simp add: take_bit_eq_mod drop_bit_eq_div)
  qed
  then show ?thesis by (simp add: to_char_mod)
qed

lemma STORE32L_le: "STORE32L x = le_bytes 4 (uint x)"
  using store_byte[of 0 x] store_byte[of 8 x] store_byte[of 16 x] store_byte[of 24 x]
  by (simp add: STORE32L_def le_bytes_def numeral_eq_Suc)

section \<open>The three forms of a block\<close>

text \<open>Four steps of the table-driven form are four lines of the unrolled one.\<close>

lemma small_step4:
  "small_step W (small_step W (small_step W (small_step W (a, b, c, d) i) j) k) l =
     (let a = small_f W i a b c d; d = small_f W j d a b c; c = small_f W k c d a b; b = small_f W l b c d a in (a, b, c, d))"
  by (simp add: small_step_def Let_def)

lemma small_f_lines:
  "small_f W 0 a b c d = md5_FF a b c d (W ! 0) 7 0xD76AA478"
  "small_f W 1 a b c d = md5_FF a b c d (W ! 1) 12 0xE8C7B756"
  "small_f W 2 a b c d = md5_FF a b c d (W ! 2) 17 0x242070DB"
  "small_f W 3 a b c d = md5_FF a b c d (W ! 3) 22 0xC1BDCEEE"
  "small_f W 4 a b c d = md5_FF a b c d (W ! 4) 7 0xF57C0FAF"
  "small_f W 5 a b c d = md5_FF a b c d (W ! 5) 12 0x4787C62A"
  "small_f W 6 a b c d = md5_FF a b c d (W ! 6) 17 0xA8304613"
  "small_f W 7 a b c d = md5_FF a b c d (W ! 7) 22 0xFD469501"
  "small_f W 8 a b c d = md5_FF a b c d (W ! 8) 7 0x698098D8"
  "small_f W 9 a b c d = md5_FF a b c d (W ! 9) 12 0x8B44F7AF"
  "small_f W 10 a b c d = md5_FF a b c d (W ! 10) 17 0xFFFF5BB1"
  "small_f W 11 a b c d = md5_FF a b c d (W ! 11) 22 0x895CD7BE"
  "small_f W 12 a b c d = md5_FF a b c d (W ! 12) 7 0x6B901122"
  "small_f W 13 a b c d = md5_FF a b c d (W ! 13) 12 0xFD987193"
  "small_f W 14 a b c d = md5_FF a b c d (W ! 14) 17 0xA679438E"
  "small_f W 15 a b c d = md5_FF a b c d (W ! 15) 22 0x49B40821"
  "small_f W 16 a b c d = md5_GG a b c d (W ! 1) 5 0xF61E2562"
  "small_f W 17 a b c d = md5_GG a b c d (W ! 6) 9 0xC040B340"
  "small_f W 18 a b c d = md5_GG a b c d (W ! 11) 14 0x265E5A51"
  "small_f W 19 a b c d = md5_GG a b c d (W ! 0) 20 0xE9B6C7AA"
  "small_f W 20 a b c d = md5_GG a b c d (W ! 5) 5 0xD62F105D"
  "small_f W 21 a b c d = md5_GG a b c d (W ! 10) 9 0x2441453"
  "small_f W 22 a b c d = md5_GG a b c d (W ! 15) 14 0xD8A1E681"
  "small_f W 23 a b c d = md5_GG a b c d (W ! 4) 20 0xE7D3FBC8"
  "small_f W 24 a b c d = md5_GG a b c d (W ! 9) 5 0x21E1CDE6"
  "small_f W 25 a b c d = md5_GG a b c d (W ! 14) 9 0xC33707D6"
  "small_f W 26 a b c d = md5_GG a b c d (W ! 3) 14 0xF4D50D87"
  "small_f W 27 a b c d = md5_GG a b c d (W ! 8) 20 0x455A14ED"
  "small_f W 28 a b c d = md5_GG a b c d (W ! 13) 5 0xA9E3E905"
  "small_f W 29 a b c d = md5_GG a b c d (W ! 2) 9 0xFCEFA3F8"
  "small_f W 30 a b c d = md5_GG a b c d (W ! 7) 14 0x676F02D9"
  "small_f W 31 a b c d = md5_GG a b c d (W ! 12) 20 0x8D2A4C8A"
  "small_f W 32 a b c d = md5_HH a b c d (W ! 5) 4 0xFFFA3942"
  "small_f W 33 a b c d = md5_HH a b c d (W ! 8) 11 0x8771F681"
  "small_f W 34 a b c d = md5_HH a b c d (W ! 11) 16 0x6D9D6122"
  "small_f W 35 a b c d = md5_HH a b c d (W ! 14) 23 0xFDE5380C"
  "small_f W 36 a b c d = md5_HH a b c d (W ! 1) 4 0xA4BEEA44"
  "small_f W 37 a b c d = md5_HH a b c d (W ! 4) 11 0x4BDECFA9"
  "small_f W 38 a b c d = md5_HH a b c d (W ! 7) 16 0xF6BB4B60"
  "small_f W 39 a b c d = md5_HH a b c d (W ! 10) 23 0xBEBFBC70"
  "small_f W 40 a b c d = md5_HH a b c d (W ! 13) 4 0x289B7EC6"
  "small_f W 41 a b c d = md5_HH a b c d (W ! 0) 11 0xEAA127FA"
  "small_f W 42 a b c d = md5_HH a b c d (W ! 3) 16 0xD4EF3085"
  "small_f W 43 a b c d = md5_HH a b c d (W ! 6) 23 0x4881D05"
  "small_f W 44 a b c d = md5_HH a b c d (W ! 9) 4 0xD9D4D039"
  "small_f W 45 a b c d = md5_HH a b c d (W ! 12) 11 0xE6DB99E5"
  "small_f W 46 a b c d = md5_HH a b c d (W ! 15) 16 0x1FA27CF8"
  "small_f W 47 a b c d = md5_HH a b c d (W ! 2) 23 0xC4AC5665"
  "small_f W 48 a b c d = md5_II a b c d (W ! 0) 6 0xF4292244"
  "small_f W 49 a b c d = md5_II a b c d (W ! 7) 10 0x432AFF97"
  "small_f W 50 a b c d = md5_II a b c d (W ! 14) 15 0xAB9423A7"
  "small_f W 51 a b c d = md5_II a b c d (W ! 5) 21 0xFC93A039"
  "small_f W 52 a b c d = md5_II a b c d (W ! 12) 6 0x655B59C3"
  "small_f W 53 a b c d = md5_II a b c d (W ! 3) 10 0x8F0CCC92"
  "small_f W 54 a b c d = md5_II a b c d (W ! 10) 15 0xFFEFF47D"
  "small_f W 55 a b c d = md5_II a b c d (W ! 1) 21 0x85845DD1"
  "small_f W 56 a b c d = md5_II a b c d (W ! 8) 6 0x6FA87E4F"
  "small_f W 57 a b c d = md5_II a b c d (W ! 15) 10 0xFE2CE6E0"
  "small_f W 58 a b c d = md5_II a b c d (W ! 6) 15 0xA3014314"
  "small_f W 59 a b c d = md5_II a b c d (W ! 13) 21 0x4E0811A1"
  "small_f W 60 a b c d = md5_II a b c d (W ! 4) 6 0xF7537E82"
  "small_f W 61 a b c d = md5_II a b c d (W ! 11) 10 0xBD3AF235"
  "small_f W 62 a b c d = md5_II a b c d (W ! 2) 15 0x2AD7D2BB"
  "small_f W 63 a b c d = md5_II a b c d (W ! 9) 21 0xEB86D391"
  by (simp_all add: small_f_def Worder_def Rorder_def Korder_def)

lemma case_prod_Let: "case_prod f (Let x g) = Let x (\<lambda>y. case_prod f (g y))"
  by (simp add: Let_def)

lemma foldl4:
  "foldl (small_step W) r (i # j # k # l # xs) =
     (case r of (a, b, c, d) \<Rightarrow> foldl (small_step W) (small_step W (small_step W (small_step W (small_step W (a, b, c, d) i) j) k) l) xs)"
  by (cases r) simp

lemma upt64: "[0..<64] = [0, 1, 2, 3, 4, 5, 6, 7, 8, 9, 10, 11, 12, 13, 14, 15, 16, 17, 18, 19, 20, 21, 22, 23, 24, 25, 26, 27, 28, 29, 30, 31,
   32, 33, 34, 35, 36, 37, 38, 39, 40, 41, 42, 43, 44, 45, 46, 47, 48, 49, 50, 51, 52, 53, 54, 55, 56, 57, 58, 59, 60, 61, 62, 63]"
  by (simp add: upt_rec)

lemma order_tables:
  assumes "i < 64"
  shows "Worder ! i = rfc_word i" "Rorder ! i = rfc_shift i" "0 < rfc_shift i" "rfc_shift i < 32" "rfc_word i < 16"
proof -
  have "\<forall>i\<in>set [0..<64]. Worder ! i = rfc_word i \<and> Rorder ! i = rfc_shift i \<and> 0 < rfc_shift i \<and> rfc_shift i < 32 \<and> rfc_word i < 16"
    unfolding upt64 by (simp add: Worder_def Rorder_def rfc_word_def rfc_shift_def)
  then show "Worder ! i = rfc_word i" "Rorder ! i = rfc_shift i" "0 < rfc_shift i" "rfc_shift i < 32" "rfc_word i < 16" using assms by auto
qed

lemma small_step_rfc: "i < 64 \<Longrightarrow> small_step W r i = rfc_step W r i"
  using order_tables[of i]
  by (cases r) (simp add: small_step_def small_f_def rfc_step_def rfc_f_def md5_FF_def md5_GG_def md5_HH_def md5_II_def
    md5_round_functions md5_H_def md5_I_def ROLc_rotl add.commute)

lemma foldl_cong_set: "(\<And>r i. i \<in> set is \<Longrightarrow> f r i = g r i) \<Longrightarrow> foldl f r is = foldl g r is"
  by (induction "is" arbitrary: r) auto

lemma rounds_small_rfc: "md5_rounds_small W r = foldl (rfc_step W) r [0..<64]"
  unfolding md5_rounds_small_def by (rule foldl_cong_set) (simp add: small_step_rfc)

lemma md5_rounds_small: "md5_rounds W r = md5_rounds_small W r"
proof (cases r)
  case (fields a b c d)
  have "md5_rounds_small W r = foldl (small_step W) (a, b, c, d) [0, 1, 2, 3, 4, 5, 6, 7, 8, 9, 10, 11, 12, 13, 14, 15, 16, 17, 18, 19, 20, 21, 22, 23, 24, 25, 26, 27, 28, 29, 30, 31,
   32, 33, 34, 35, 36, 37, 38, 39, 40, 41, 42, 43, 44, 45, 46, 47, 48, 49, 50, 51, 52, 53, 54, 55, 56, 57, 58, 59, 60, 61, 62, 63]"
    unfolding md5_rounds_small_def upt64 fields ..
  also have "\<dots> = md5_rounds W (a, b, c, d)"
    unfolding foldl4 foldl.simps(1) small_step4 prod.case case_prod_Let small_f_lines md5_rounds_def ..
  finally show ?thesis by (simp add: fields)
qed


section \<open>Streaming\<close>

lemma blocks64_step: "length b = 64 \<Longrightarrow> blocks64 (b @ r) = b # blocks64 r"
  by (subst blocks64.simps) simp

lemma blocks64_short: "length r < 64 \<Longrightarrow> blocks64 r = []"
  by (subst blocks64.simps) simp

lemma blocks64_append: "length xs mod 64 = 0 \<Longrightarrow> blocks64 (xs @ ys) = blocks64 xs @ blocks64 ys"
proof (induction xs rule: blocks64.induct)
  case (1 xs)
  show ?case
  proof (cases "length xs < 64")
    case True
    then have "xs = []" using 1(2) by simp
    then show ?thesis by (simp add: blocks64_short)
  next
    case False
    then have l: "length (take 64 xs) = 64" and m: "length (drop 64 xs) mod 64 = 0" using 1(2) by (simp_all add: le_mod_geq)
    have "blocks64 (xs @ ys) = blocks64 (take 64 xs @ drop 64 xs @ ys)" by (simp only: append.assoc[symmetric] append_take_drop_id)
    also have "\<dots> = take 64 xs # blocks64 (drop 64 xs @ ys)" by (rule blocks64_step[OF l])
    also have "\<dots> = (take 64 xs # blocks64 (drop 64 xs)) @ blocks64 ys" using 1(1)[OF False m] by simp
    also have "take 64 xs # blocks64 (drop 64 xs) = blocks64 xs" using blocks64_step[OF l, of "drop 64 xs"] by simp
    finally show ?thesis .
  qed
qed

text \<open>The context after \<open>msg\<close>: the whole blocks are in the registers, the rest is in the buffer.\<close>

definition md5_iv :: md5_regs where
  "md5_iv = (0x67452301, 0xEFCDAB89, 0x98BADCFE, 0x10325476)"

definition md5_bits :: "md5ctx \<Rightarrow> int" where
  "md5_bits md = uint (lengthHi md) * 2 ^ 32 + uint (lengthLo md)"

definition msg_bits :: "nat \<Rightarrow> int" where
  "msg_bits n = 8 * int n mod 2 ^ 64"

definition md5_at :: "md5ctx \<Rightarrow> byte list \<Rightarrow> byte list \<Rightarrow> bool" where
  "md5_at md pre rest \<longleftrightarrow> length pre mod 64 = 0 \<and> length rest < 64 \<and>
     length (md5_buf md) = 64 \<and> curlen md = length rest \<and> take (length rest) (md5_buf md) = rest \<and>
     md5_state md = foldl rfc_block md5_iv (blocks64 pre) \<and> md5_bits md = msg_bits (length pre)"

definition md5_rep :: "md5ctx \<Rightarrow> byte list \<Rightarrow> bool" where
  "md5_rep md msg \<longleftrightarrow> (\<exists>pre rest. msg = pre @ rest \<and> md5_at md pre rest)"

lemma md5_compress_rfc:
  "length (md5_buf md) = 64 \<Longrightarrow> md5_compress md = md\<lparr>md5_state := rfc_block (md5_state md) (md5_buf md)\<rparr>"
proof -
  assume l: "length (md5_buf md) = 64"
  have "md5_words (md5_buf md) = map (\<lambda>i. le_word (take 4 (drop (4 * i) (md5_buf md)))) [0..<16]"
    unfolding md5_words_def by (rule map_cong) (auto simp: LOAD32L_le l)
  then show ?thesis by (simp add: md5_compress_def rfc_block_def md5_rounds_small rounds_small_rfc)
qed

lemma carry_mod: "0 \<le> y \<Longrightarrow> y < 2 ^ 32 \<Longrightarrow> (x * 2 ^ 32 + y) mod 2 ^ 64 = x mod 2 ^ 32 * 2 ^ 32 + (y :: int)"
proof -
  assume y: "0 \<le> y" "y < 2 ^ 32"
  have "(x * 2 ^ 32 + y) mod (2 ^ 32 * 2 ^ 32) = 2 ^ 32 * ((x * 2 ^ 32 + y) div 2 ^ 32 mod 2 ^ 32) + (x * 2 ^ 32 + y) mod 2 ^ 32"
    by (rule zmod_zmult2_eq) simp
  then show ?thesis using y by simp
qed

lemma add_length_bits: "md5_bits (add_length md k) = (md5_bits md + uint k) mod 2 ^ 64"
proof -
  let ?lo = "uint (lengthLo md)" and ?hi = "uint (lengthHi md)"
  have b: "0 \<le> ?lo" "?lo < 2 ^ 32" "0 \<le> ?hi" "?hi < 2 ^ 32" "0 \<le> uint k" "uint k < 2 ^ 32"
    using uint_lt2p[of "lengthLo md"] uint_lt2p[of "lengthHi md"] uint_lt2p[of k] by simp_all
  have lo: "uint (lengthLo md + k) = (?lo + uint k) mod 2 ^ 32" by (simp add: uint_word_ariths)
  have hi: "uint (lengthHi md + 1) = (?hi + 1) mod 2 ^ 32" by (simp add: uint_word_ariths)
  show ?thesis
  proof (cases "?lo + uint k < 2 ^ 32")
    case True
    then have "uint (lengthLo md + k) = ?lo + uint k" using lo b by simp
    moreover from this have "\<not> lengthLo md + k < lengthLo md" using b by (simp add: word_less_def)
    ultimately show ?thesis using b True by (simp add: add_length_def md5_bits_def Let_def)
  next
    case False
    then have "(?lo + uint k - 2 ^ 32) mod 2 ^ 32 = ?lo + uint k - 2 ^ 32" using b by (intro mod_pos_pos_trivial) simp_all
    then have l: "uint (lengthLo md + k) = ?lo + uint k - 2 ^ 32" using lo by simp
    then have "lengthLo md + k < lengthLo md" using b by (simp add: word_less_def)
    then have "md5_bits (add_length md k) = (?hi + 1) mod 2 ^ 32 * 2 ^ 32 + (?lo + uint k - 2 ^ 32)"
      using l hi by (simp add: add_length_def md5_bits_def Let_def)
    moreover have "((?hi + 1) * 2 ^ 32 + (?lo + uint k - 2 ^ 32)) mod 2 ^ 64 = (?hi + 1) mod 2 ^ 32 * 2 ^ 32 + (?lo + uint k - 2 ^ 32)"
      using b False by (intro carry_mod) simp_all
    ultimately show ?thesis by (simp add: md5_bits_def algebra_simps)
  qed
qed


lemma md5_bits_simps [simp]:
  "md5_bits (md\<lparr>md5_buf := b\<rparr>) = md5_bits md" "md5_bits (md\<lparr>curlen := c\<rparr>) = md5_bits md" "md5_bits (md\<lparr>md5_state := r\<rparr>) = md5_bits md"
  by (simp_all add: md5_bits_def)

lemma add_length_simps [simp]:
  "md5_buf (add_length md k) = md5_buf md" "md5_state (add_length md k) = md5_state md" "curlen (add_length md k) = curlen md"
  by (simp_all add: add_length_def Let_def)

lemma psMd5Init_rep: "length (md5_buf md) = 64 \<Longrightarrow> md5_rep (psMd5Init md) []"
  by (simp add: md5_rep_def md5_at_def psMd5Init_def md5_bits_def md5_iv_def blocks64_short msg_bits_def)

text \<open>A full buffer is one more block.\<close>

lemma full_block_rep:
  assumes "length (md5_buf md) = 64" "length pre mod 64 = 0" "md5_state md = foldl rfc_block md5_iv (blocks64 pre)"
    "md5_bits md = msg_bits (length pre)"
  shows "md5_rep ((add_length (md5_compress md) 512)\<lparr>curlen := 0\<rparr>) (pre @ md5_buf md)"
proof -
  have bl: "blocks64 (pre @ md5_buf md) = blocks64 pre @ [md5_buf md]"
    using blocks64_append[OF assms(2), of "md5_buf md"] blocks64_step[OF assms(1), of "[]"] by (simp add: blocks64_short)
  have bits: "md5_bits (add_length (md\<lparr>md5_state := r\<rparr>) 512) = msg_bits (length (pre @ md5_buf md))" for r
    unfolding add_length_bits md5_bits_simps assms(4) msg_bits_def using assms(1) by (simp add: mod_add_left_eq)
  have st: "md5_state ((add_length (md5_compress md) 512)\<lparr>curlen := 0\<rparr>) = foldl rfc_block md5_iv (blocks64 (pre @ md5_buf md))"
    unfolding bl md5_compress_rfc[OF assms(1)] by (simp add: assms(3))
  have "length (pre @ md5_buf md) mod 64 = 0" using assms(1,2) by simp
  then have "md5_at ((add_length (md5_compress md) 512)\<lparr>curlen := 0\<rparr>) (pre @ md5_buf md) []"
    unfolding md5_at_def using assms(1) st bits by (intro conjI) (simp_all add: md5_compress_rfc)
  then show ?thesis unfolding md5_rep_def by (intro exI[of _ "pre @ md5_buf md"] exI[of _ "[]"]) simp
qed

lemma psMd5Update_rep:
  "md5_rep md msg \<Longrightarrow> len \<le> length buf \<Longrightarrow> \<exists>md'. psMd5Update md buf len = Some md' \<and> md5_rep md' (msg @ take len buf)"
proof (induction len arbitrary: md msg buf rule: less_induct)
  case (less len)
  show ?case
  proof (cases "len = 0")
    case True
    then show ?thesis using less.prems by (simp add: psMd5Update.simps)
  next
    case False
    obtain pre rest where at: "msg = pre @ rest" "md5_at md pre rest" using less.prems(1) unfolding md5_rep_def by blast
    then have r: "msg = pre @ rest" "length pre mod 64 = 0" "length rest < 64" "length (md5_buf md) = 64" "curlen md = length rest"
      "take (length rest) (md5_buf md) = rest" "md5_state md = foldl rfc_block md5_iv (blocks64 pre)" "md5_bits md = msg_bits (length pre)"
      unfolding md5_at_def by simp_all
    define n where "n = min len (64 - curlen md)"
    have n: "0 < n" "n \<le> len" "n \<le> length buf" "length rest + n \<le> 64" using False r(3,5) less.prems(2) by (auto simp: n_def)
    define b where "b = rest @ take n buf @ drop (length rest + n) (md5_buf md)"
    define md1 where "md1 = md\<lparr>md5_buf := b, curlen := length rest + n\<rparr>"
    define md2 where "md2 = (if curlen md1 = 64 then (add_length (md5_compress md1) 512)\<lparr>curlen := 0\<rparr> else md1)"
    have cp: "mem_copy (md5_buf md) (int (curlen md)) buf (int n) = Some b" using n r by (simp add: mem_copy_def b_def)
    have "psMd5Update md buf len = psMd5Update md2 (drop n buf) (len - n)"
      unfolding psMd5Update.simps[of md buf len] n_def[symmetric] cp using False by (simp add: md2_def md1_def r(5))
    moreover have "md5_rep md2 (msg @ take n buf)"
    proof (cases "length rest + n = 64")
      case True
      then have "b = rest @ take n buf" "length b = 64" using n r(4) by (simp_all add: b_def)
      then show ?thesis using full_block_rep[of md1 pre] r True by (simp add: md2_def md1_def)
    next
      case False
      then have "md5_at md2 pre (rest @ take n buf)" using r n by (simp add: md5_at_def md2_def md1_def b_def)
      then show ?thesis using r(1) unfolding md5_rep_def by (intro exI[of _ pre] exI[of _ "rest @ take n buf"]) simp
    qed
    moreover have "len - n < len" "len - n \<le> length (drop n buf)" using n less.prems(2) by simp_all
    ultimately obtain md' where "psMd5Update md buf len = Some md'" "md5_rep md' ((msg @ take n buf) @ take (len - n) (drop n buf))"
      using less.IH[of "len - n" md2 "msg @ take n buf" "drop n buf"] by auto
    moreover have "take n buf @ take (len - n) (drop n buf) = take len buf" using n(2) take_add[of n "len - n" buf] by simp
    ultimately show ?thesis by auto
  qed
qed

lemma md5_zeros_spec:
  "curlen md + n \<le> length (md5_buf md) \<Longrightarrow>
   md5_zeros md n = Some (md\<lparr>md5_buf := take (curlen md) (md5_buf md) @ replicate n CHR 0x00 @ drop (curlen md + n) (md5_buf md), curlen := curlen md + n\<rparr>)"
proof (induction n arbitrary: md)
  case (Suc n)
  let ?c = "curlen md" and ?b = "md5_buf md"
  have w: "mem_write ?b (int ?c) CHR 0x00 = Some (?b[?c := CHR 0x00])" using Suc.prems by (simp add: mem_write_def)
  have t: "take (?c + 1) (?b[?c := CHR 0x00]) = take ?c ?b @ [CHR 0x00]" "drop (?c + 1 + n) (?b[?c := CHR 0x00]) = drop (?c + Suc n) ?b"
    using Suc.prems by (simp_all add: take_Suc_conv_app_nth)
  show ?case using w Suc.IH[of "md\<lparr>md5_buf := ?b[?c := CHR 0x00], curlen := ?c + 1\<rparr>"] Suc.prems t by simp
qed simp

lemma le_bytes_split: "le_bytes 8 n = le_bytes 4 n @ le_bytes 4 (n div 2 ^ 32)"
  by (simp add: le_bytes_def numeral_eq_Suc div_mult2_eq[symmetric] flip: zdiv_zmult2_eq)


lemma byte_of_mod: "i < 4 \<Longrightarrow> (n mod 2 ^ 32) div 256 ^ i mod 256 = (n :: int) div 256 ^ i mod 256"
proof -
  assume i: "i < 4"
  have "take_bit 8 (drop_bit (8 * i) (take_bit 32 n)) = take_bit 8 (drop_bit (8 * i) n)"
    using i by (simp add: take_bit_drop_bit take_bit_take_bit min_absorb1)
  moreover have "(256 :: int) ^ i = 2 ^ (8 * i)" by (simp add: power_mult)
  ultimately show ?thesis by (simp add: take_bit_eq_mod drop_bit_eq_div)
qed

lemma le_bytes4_mod: "le_bytes 4 (n mod 2 ^ 32) = le_bytes 4 n"
  unfolding le_bytes_def by (rule map_cong) (use byte_of_mod to_char_mod in \<open>metis atLeastLessThan_iff set_upt\<close>)+

lemma length_bytes: "STORE32L (lengthLo md) @ STORE32L (lengthHi md) = le_bytes 8 (md5_bits md)"
proof -
  have "0 \<le> uint (lengthLo md)" "uint (lengthLo md) < 2 ^ 32" using uint_lt2p[of "lengthLo md"] by simp_all
  then have "md5_bits md mod 2 ^ 32 = uint (lengthLo md)" "md5_bits md div 2 ^ 32 = uint (lengthHi md)"
    by (simp_all add: md5_bits_def)
  then show ?thesis using le_bytes4_mod[of "md5_bits md"] by (simp add: le_bytes_split STORE32L_le)
qed

lemma le_bytes_length [simp]: "length (le_bytes k n) = k"
  by (simp add: le_bytes_def)

text \<open>The last block: 56 bytes and the length.\<close>

lemma md5_last_block:
  assumes "length (md5_buf md) = 64"
  shows "do { b1 \<leftarrow> mem_copy (md5_buf md) 56 (STORE32L (lengthLo md)) 4; b2 \<leftarrow> mem_copy b1 60 (STORE32L (lengthHi md)) 4;
      Some (md5_out (md5_state (md5_compress (md\<lparr>md5_buf := b2\<rparr>)))) } =
    Some (md5_out (rfc_block (md5_state md) (take 56 (md5_buf md) @ le_bytes 8 (md5_bits md))))"
proof -
  define b1 where "b1 = take 56 (md5_buf md) @ STORE32L (lengthLo md) @ drop 60 (md5_buf md)"
  define b2 where "b2 = take 56 (md5_buf md) @ STORE32L (lengthLo md) @ STORE32L (lengthHi md)"
  have l: "length (STORE32L x) = 4" for x by (simp add: STORE32L_le)
  have "mem_copy (md5_buf md) 56 (STORE32L (lengthLo md)) 4 = Some b1" using assms l by (simp add: mem_copy_def b1_def)
  moreover have "mem_copy b1 60 (STORE32L (lengthHi md)) 4 = Some b2" using assms l by (simp add: mem_copy_def b1_def b2_def)
  moreover have "length b2 = 64" using assms l by (simp add: b2_def)
  moreover have "b2 = take 56 (md5_buf md) @ le_bytes 8 (md5_bits md)" unfolding b2_def length_bytes[symmetric] ..
  ultimately show ?thesis using md5_compress_rfc[of "md\<lparr>md5_buf := b2\<rparr>"] by simp
qed

lemma md5_out_le: "md5_out r = (case r of (a, b, c, d) \<Rightarrow> concat (map (\<lambda>w. le_bytes 4 (uint w)) [a, b, c, d]))"
  by (cases r) (simp add: md5_out_def STORE32L_le)

lemma uint_of_nat_small: "k < 2 ^ 32 \<Longrightarrow> uint (of_nat k :: 32 word) = int k"
  by (simp add: unsigned_of_nat take_bit_nat_eq_self)

text \<open>The blocks of a padded message: one or two after the whole ones.\<close>

lemma blocks64_padded:
  assumes "length pre mod 64 = 0" "length rest < 64"
  shows "length rest \<le> 55 \<Longrightarrow> blocks64 ((pre @ rest) @ rfc_pad (length (pre @ rest))) =
      blocks64 pre @ [rest @ to_char 0x80 # replicate (55 - length rest) CHR 0x00 @ le_bytes 8 (msg_bits (length (pre @ rest)))]"
    and "\<not> length rest \<le> 55 \<Longrightarrow> blocks64 ((pre @ rest) @ rfc_pad (length (pre @ rest))) =
      blocks64 pre @ [rest @ to_char 0x80 # replicate (63 - length rest) CHR 0x00,
                      replicate 56 CHR 0x00 @ le_bytes 8 (msg_bits (length (pre @ rest)))]"
proof -
  let ?c = "length rest" and ?len = "le_bytes 8 (msg_bits (length (pre @ rest)))"
  have m: "length (pre @ rest) mod 64 = ?c" using assms by (simp add: mod_add_left_eq[symmetric])
  {
    assume c: "?c \<le> 55"
    let ?x = "rest @ to_char 0x80 # replicate (55 - ?c) CHR 0x00 @ ?len"
    have "(119 - ?c) mod 64 = 55 - ?c" using c by (simp add: mod_if)
    then have "(pre @ rest) @ rfc_pad (length (pre @ rest)) = pre @ ?x" unfolding rfc_pad_def m by (simp add: msg_bits_def)
    moreover have "length ?x = 64" using c by simp
    ultimately show "blocks64 ((pre @ rest) @ rfc_pad (length (pre @ rest))) = blocks64 pre @ [?x]"
      using blocks64_append[OF assms(1), of ?x] blocks64_step[of ?x "[]"] by (simp add: blocks64_short)
  next
    assume c: "\<not> ?c \<le> 55"
    let ?x = "rest @ to_char 0x80 # replicate (63 - ?c) CHR 0x00" and ?y = "replicate 56 CHR 0x00 @ ?len"
    have "(119 - ?c) mod 64 = 63 - ?c + 56" using c assms(2) by simp
    then have "(pre @ rest) @ rfc_pad (length (pre @ rest)) = pre @ ?x @ ?y"
      unfolding rfc_pad_def m by (simp only: replicate_add msg_bits_def append_Cons append_assoc)
    moreover have "length ?x = 64" "length ?y = 64" using assms(2) by simp_all
    ultimately show "blocks64 ((pre @ rest) @ rfc_pad (length (pre @ rest))) = blocks64 pre @ [?x, ?y]"
      using blocks64_append[OF assms(1), of "?x @ ?y"] blocks64_step[of ?x ?y] blocks64_step[of ?y "[]"] by (simp add: blocks64_short)
  }
qed

lemma psMd5Final_rep:
  assumes "md5_rep md msg"
  shows "psMd5Final md = Some (rfc_md5 msg)"
proof -
  obtain pre rest where at: "msg = pre @ rest" "md5_at md pre rest" using assms unfolding md5_rep_def by blast
  let ?c = "length rest"
  have r: "length pre mod 64 = 0" "?c < 64" "length (md5_buf md) = 64" "curlen md = ?c" "take ?c (md5_buf md) = rest"
    "md5_state md = foldl rfc_block md5_iv (blocks64 pre)" "md5_bits md = msg_bits (length pre)" using at(2) unfolding md5_at_def by simp_all
  define md2 where "md2 = add_length md (of_nat (?c * 8))"
  have bits: "md5_bits md2 = msg_bits (length msg)"
  proof -
    have "?c * 8 < 2 ^ 32" using r(2) by simp
    then have "uint (of_nat (?c * 8) :: 32 word) = int (?c * 8)" by (rule uint_of_nat_small)
    then have "md5_bits md2 = (msg_bits (length pre) + 8 * int ?c) mod 2 ^ 64" by (simp add: md2_def add_length_bits r(7) mult.commute)
    also have "\<dots> = msg_bits (length msg)" unfolding msg_bits_def at(1) by (simp add: mod_add_left_eq distrib_left)
    finally show ?thesis .
  qed
  define b where "b = (md5_buf md)[?c := to_char 0x80]"
  define md3 where "md3 = md2\<lparr>md5_buf := b, curlen := ?c + 1\<rparr>"
  have b: "take (?c + 1) b = rest @ [to_char 0x80]" "length b = 64" using r(2,3,5) by (simp_all add: b_def take_Suc_conv_app_nth)
  have w: "mem_write (md5_buf md2) (int (curlen md2)) (to_char 0x80) = Some b" using r by (simp add: mem_write_def md2_def b_def)
  have h: "md2\<lparr>lengthHi := lengthHi md2 + of_nat (?c div 2 ^ 29)\<rparr> = md2" using r(2) by simp
  have st3: "md5_state md3 = foldl rfc_block md5_iv (blocks64 pre)" "md5_bits md3 = msg_bits (length msg)" "md5_buf md3 = b" "curlen md3 = ?c + 1"
    using r(6) bits by (simp_all add: md3_def md2_def)
  have fin: "psMd5Final md = do {
       md4 \<leftarrow> (if ?c + 1 > 56 then do { z \<leftarrow> md5_zeros md3 (63 - ?c); Some ((md5_compress z)\<lparr>curlen := 0\<rparr>) } else Some md3);
       md5 \<leftarrow> md5_zeros md4 (56 - curlen md4);
       b1 \<leftarrow> mem_copy (md5_buf md5) 56 (STORE32L (lengthLo md5)) 4;
       b2 \<leftarrow> mem_copy b1 60 (STORE32L (lengthHi md5)) 4;
       Some (md5_out (md5_state (md5_compress (md5\<lparr>md5_buf := b2\<rparr>)))) }"
    unfolding psMd5Final_def r(4) md2_def[symmetric] Let_def h w by (simp add: md3_def md2_def r(4))
  show ?thesis
  proof (cases "?c \<le> 55")
    case True
    define md5 where "md5 = md3\<lparr>md5_buf := take (?c + 1) b @ replicate (55 - ?c) CHR 0x00 @ drop 56 b, curlen := 56\<rparr>"
    have z: "md5_zeros md3 (56 - curlen md3) = Some md5" using md5_zeros_spec[of md3 "55 - ?c"] st3 b(2) True by (simp add: md5_def)
    let ?x = "rest @ to_char 0x80 # replicate (55 - ?c) CHR 0x00 @ le_bytes 8 (msg_bits (length msg))"
    have "psMd5Final md = Some (md5_out (rfc_block (md5_state md5) (take 56 (md5_buf md5) @ le_bytes 8 (md5_bits md5))))"
      unfolding fin using True z md5_last_block[of md5] b(2) by (simp add: md5_def)
    also have "take 56 (md5_buf md5) @ le_bytes 8 (md5_bits md5) = ?x"
      using True b st3(2) Suc_diff_le[OF True] by (simp add: md5_def)
    finally have f: "psMd5Final md = Some (md5_out (rfc_block (foldl rfc_block md5_iv (blocks64 pre)) ?x))" using st3(1) by (simp add: md5_def)
    have "blocks64 (msg @ rfc_pad (length msg)) = blocks64 pre @ [?x]" using blocks64_padded(1)[OF r(1,2) True] unfolding at(1) .
    then show ?thesis unfolding f rfc_md5_def md5_iv_def[symmetric] md5_out_le by simp
  next
    case False
    define z where "z = md3\<lparr>md5_buf := rest @ to_char 0x80 # replicate (63 - ?c) CHR 0x00, curlen := 64\<rparr>"
    have z: "md5_zeros md3 (63 - ?c) = Some z" using md5_zeros_spec[of md3 "63 - ?c"] st3 b r(2) by (simp add: z_def)
    define md4 where "md4 = (md5_compress z)\<lparr>curlen := 0\<rparr>"
    have zb: "length (md5_buf z) = 64" using r(2) by (simp add: z_def)
    have st4: "md5_state md4 = rfc_block (foldl rfc_block md5_iv (blocks64 pre)) (md5_buf z)" "md5_bits md4 = msg_bits (length msg)" "curlen md4 = 0" "length (md5_buf md4) = 64"
      using st3(1,2) zb unfolding md4_def md5_compress_rfc[OF zb] by (simp_all add: z_def)
    define md5 where "md5 = md4\<lparr>md5_buf := replicate 56 CHR 0x00 @ drop 56 (md5_buf md4), curlen := 56\<rparr>"
    have z5: "md5_zeros md4 (56 - curlen md4) = Some md5" using md5_zeros_spec[of md4 56] st4 by (simp add: md5_def)
    let ?x = "rest @ to_char 0x80 # replicate (63 - ?c) CHR 0x00" and ?y = "replicate 56 CHR 0x00 @ le_bytes 8 (msg_bits (length msg))"
    have "psMd5Final md = Some (md5_out (rfc_block (md5_state md5) (take 56 (md5_buf md5) @ le_bytes 8 (md5_bits md5))))"
      unfolding fin using False z z5 md5_last_block[of md5] st4(4) by (simp add: md5_def md4_def)
    also have "take 56 (md5_buf md5) @ le_bytes 8 (md5_bits md5) = ?y" using st4(2) by (simp add: md5_def)
    finally have f: "psMd5Final md = Some (md5_out (rfc_block (rfc_block (foldl rfc_block md5_iv (blocks64 pre)) ?x) ?y))"
      using st4(1) by (simp add: md5_def z_def)
    have "blocks64 (msg @ rfc_pad (length msg)) = blocks64 pre @ [?x, ?y]" using blocks64_padded(2)[OF r(1,2) False] unfolding at(1) .
    then show ?thesis unfolding f rfc_md5_def md5_iv_def[symmetric] md5_out_le by simp
  qed
qed


section \<open>Properties\<close>

text \<open>Feeding a message piece by piece.\<close>

fun md5_feed :: "md5ctx \<Rightarrow> byte list list \<Rightarrow> md5ctx option" where
  "md5_feed md [] = Some md"
| "md5_feed md (c # cs) = do { md' \<leftarrow> psMd5Update md c (length c); md5_feed md' cs }"

lemma md5_feed_rep: "md5_rep md msg \<Longrightarrow> \<exists>md'. md5_feed md cs = Some md' \<and> md5_rep md' (msg @ concat cs)"
proof (induction cs arbitrary: md msg)
  case (Cons c cs)
  obtain md1 where "psMd5Update md c (length c) = Some md1" "md5_rep md1 (msg @ c)" using psMd5Update_rep[OF Cons.prems, of "length c" c] by auto
  then show ?case using Cons.IH[of md1 "msg @ c"] by simp
qed simp

text \<open>
  C14. Hashing in pieces gives the digest of RFC 1321 of the whole message: whatever the buffer
  held before \<^verbatim>\<open>psMd5Init\<close> and however the message is cut into calls of \<^verbatim>\<open>psMd5Update\<close>, the
  calls return, stay inside the 64-byte buffer, and \<^verbatim>\<open>psMd5Final\<close> gives the 16 bytes of the
  reference digest, for messages of any length. The unrolled rounds and the table-driven ones
  of \<^verbatim>\<open>SMALL_CODE\<close> are the same function.
\<close>

theorem psMd5_is_rfc1321:
  "do { md \<leftarrow> md5_feed (psMd5Init (md0\<lparr>md5_buf := map junk [0..<64]\<rparr>)) chunks; psMd5Final md } = Some (rfc_md5 (concat chunks)) \<and>
   length (rfc_md5 (concat chunks)) = 16 \<and> md5_rounds W r = md5_rounds_small W r"
proof -
  have "md5_rep (psMd5Init (md0\<lparr>md5_buf := map junk [0..<64]\<rparr>)) []" by (rule psMd5Init_rep) simp
  then obtain md where "md5_feed (psMd5Init (md0\<lparr>md5_buf := map junk [0..<64]\<rparr>)) chunks = Some md" "md5_rep md (concat chunks)"
    using md5_feed_rep[of _ "[]" chunks] by auto
  moreover have "length (rfc_md5 m) = 16" for m by (simp add: rfc_md5_def split: prod.split)
  ultimately show ?thesis using psMd5Final_rep md5_rounds_small by simp
qed

end
