(* ===== verification/Websda.thy ===== *)
theory Websda
  imports Md5 Fmt Symtab Ringq
begin

text \<open>
  Digest access authentication, \<^verbatim>\<open>websda.c\<close>: the hexadecimal MD5 of a string and the responses
  \<^verbatim>\<open>websCalcDigest\<close> and \<^verbatim>\<open>websCalcUrlDigest\<close>, built with \<^verbatim>\<open>fmtAlloc\<close>, the digest of theory \<open>Md5\<close> and
  the request variable \<^verbatim>\<open>REQUEST_METHOD\<close>. The reference is the request digest of RFC 2617.

  The result \<open>None\<close> is a fault, \<open>Some None\<close> a null pointer. \<open>u\<close> stands for the bytes of the
  uninitialised context on the stack.
\<close>

section \<open>The request\<close>

text \<open>The fields of \<^verbatim>\<open>websRec\<close> that the modelled code uses; a null pointer is \<open>None\<close>.\<close>

record webs =
  cgiVars :: int
  ipaddr :: cstring
  url :: "cstring option"
  password :: "cstring option"
  userName :: "cstring option"
  userAgent :: "cstring option"
  postData :: "cstring option"
  wflags :: int
  realm :: "cstring option"
  nonce :: "cstring option"
  digest :: "cstring option"
  uri :: "cstring option"
  opaque :: "cstring option"
  nc :: "cstring option"
  cnonce :: "cstring option"
  qop :: "cstring option"
  nSessionid :: int
  cookiebuf :: cstring
  isDownloadfile :: int
  b_default_unredirect :: bool
  token :: "cstring option"
  cer_key :: "cstring option"
  referer :: "cstring option"
  wdir :: "cstring option"
  wpath :: "cstring option"
  wquery :: "cstring option"
  lpath :: "cstring option"
  wheader :: ringq
  ifaddr :: cstring
  wtype :: cstring
  whost :: "cstring option"
  decodedQuery :: "cstring option"
  authType :: "cstring option"
  wcookie :: "cstring option"
  multiPartBoundary :: "cstring option"
  wprotocol :: "cstring option"
  protoVersion :: "cstring option"
  cgiStdin :: "cstring option"
  wsid :: int
  listenSid :: int
  wport :: int
  wstate :: int
  wcode :: int
  clen :: int
  lenPostData :: int
  written :: int
  token_flag :: int
  wwid :: int
  docfd :: int
  numbytes :: int
  wtimeout :: int
  timestamp :: int

section \<open>Hexadecimal digests\<close>

definition RANDOMKEY :: cstring where "RANDOMKEY = ''onceuponatimeinparadise''"

definition hexdigits :: cstring where "hexdigits = ''0123456789abcdef''"

definition hex_byte :: "byte \<Rightarrow> cstring" where
  "hex_byte b = [hexdigits ! nat (c_uchar b div 16), hexdigits ! nat (c_uchar b mod 16)]"

definition stack_ctx :: "(nat \<Rightarrow> byte) \<Rightarrow> md5ctx" where
  "stack_ctx u = \<lparr>lengthHi = 0, lengthLo = 0, md5_state = (0, 0, 0, 0), curlen = 0, md5_buf = map u [0..<64]\<rparr>"

definition websMD5binary :: "balloc_env \<Rightarrow> (nat \<Rightarrow> byte) \<Rightarrow> byte list \<Rightarrow> nat \<Rightarrow> byte list option" where
  "websMD5binary m u bs len = do {
     md \<leftarrow> psMd5Update (psMd5Init (stack_ctx u)) bs len;
     hash \<leftarrow> psMd5Final md;
     strReturn \<leftarrow> balloc m 33;
     c_strncpy strReturn (concat (map hex_byte hash)) 33 }"

definition websMD5 :: "balloc_env \<Rightarrow> (nat \<Rightarrow> byte) \<Rightarrow> cstring option \<Rightarrow> cstring option option" where
  "websMD5 m u string =
     (case string of
        None \<Rightarrow> Some None
      | Some s \<Rightarrow>
          if s = [] then Some None
          else do {
            let nLen = int (length s);
            tmp \<leftarrow> ballocUniToAsc m (s @ [CHR 0x00]) (nLen + 1);
            strTemp \<leftarrow> tmp;
            strHash \<leftarrow> websMD5binary m u strTemp (nat nLen);
            n \<leftarrow> c_strlen strHash;
            r \<leftarrow> ballocAscToUni m strHash n;
            Some (map_option c_str r) })"

text \<open>The digest of a formatted text, freed afterwards.\<close>

definition fmt_md5 :: "balloc_env \<Rightarrow> bool \<Rightarrow> (nat \<Rightarrow> byte) \<Rightarrow> int \<Rightarrow> cstring \<Rightarrow> fmt_arg list \<Rightarrow> cstring option option" where
  "fmt_md5 m sc u n fmt args = do {
     (p, _, _) \<leftarrow> fmtAlloc m sc n fmt args;
     (case p of
        None \<Rightarrow> websMD5 m u None
      | Some b \<Rightarrow> if CHR 0x00 \<in> set b then websMD5 m u (Some (c_str b)) else None) }"

text \<open>\<open>asctime\<close> is the text of the local time, from the clock.\<close>

definition websCalcNonce :: "balloc_env \<Rightarrow> bool \<Rightarrow> (nat \<Rightarrow> byte) \<Rightarrow> cstring \<Rightarrow> webs \<Rightarrow> cstring option option" where
  "websCalcNonce m sc u asctime wp =
     fmt_md5 m sc u 256 ''%s:%s:%s'' [VStr (Some RANDOMKEY), VStr (Some asctime), VStr (realm wp)]"

definition websCalcOpaque :: "bool \<Rightarrow> webs \<Rightarrow> cstring option" where
  "websCalcOpaque dup wp = bstrdup dup (Some ''5ccc069c403ebaf9f0171e9517f40e41'')"

section \<open>Request digests\<close>

definition calc_a1 :: "balloc_env \<Rightarrow> bool \<Rightarrow> (nat \<Rightarrow> byte) \<Rightarrow> webs \<Rightarrow> cstring option option" where
  "calc_a1 m sc u wp = fmt_md5 m sc u 255 ''%s:%s:%s'' [VStr (userName wp), VStr (realm wp), VStr (password wp)]"

definition calc_response ::
    "balloc_env \<Rightarrow> bool \<Rightarrow> (nat \<Rightarrow> byte) \<Rightarrow> webs \<Rightarrow> cstring option \<Rightarrow> cstring option \<Rightarrow> cstring option option" where
  "calc_response m sc u wp a1prime a2prime =
     (if qop wp = None then fmt_md5 m sc u 255 ''%s:%s:%s'' [VStr a1prime, VStr (nonce wp), VStr a2prime]
      else fmt_md5 m sc u 255 ''%s:%s:%s:%s:%s:%s''
             [VStr a1prime, VStr (nonce wp), VStr (nc wp), VStr (cnonce wp), VStr (qop wp), VStr a2prime])"

definition websCalcDigest ::
    "balloc_env \<Rightarrow> bool \<Rightarrow> (nat \<Rightarrow> byte) \<Rightarrow> sym_state \<Rightarrow> webs \<Rightarrow> cstring option option" where
  "websCalcDigest m sc u st wp = do {
     a1prime \<leftarrow> calc_a1 m sc u wp;
     meth \<leftarrow> websGetVar sc st (cgiVars wp) ''REQUEST_METHOD'' None;
     a2prime \<leftarrow> fmt_md5 m sc u 255 ''%s:%s'' [VStr meth, VStr (uri wp)];
     calc_response m sc u wp a1prime a2prime }"

text \<open>Here the second text is printed with \<^verbatim>\<open>sprintf\<close> into a block of its exact size.\<close>

definition websCalcUrlDigest ::
    "balloc_env \<Rightarrow> bool \<Rightarrow> (nat \<Rightarrow> byte) \<Rightarrow> sym_state \<Rightarrow> webs \<Rightarrow> cstring option option" where
  "websCalcUrlDigest m sc u st wp = do {
     a1prime \<leftarrow> calc_a1 m sc u wp;
     mt \<leftarrow> websGetVar sc st (cgiVars wp) ''REQUEST_METHOD'' None;
     meth \<leftarrow> mt;
     ur \<leftarrow> url wp;
     a2 \<leftarrow> balloc m (int (length meth) + 2 + int (length ur));
     a2' \<leftarrow> c_strcpy a2 (meth @ CHR '':'' # ur);
     a2prime \<leftarrow> websMD5 m u (Some (c_str a2'));
     calc_response m sc u wp a1prime a2prime }"

section \<open>The request digest of RFC 2617\<close>

definition rfc_H :: "cstring \<Rightarrow> cstring" where
  "rfc_H s = concat (map hex_byte (rfc_md5 s))"

fun colons :: "cstring list \<Rightarrow> cstring" where
  "colons [] = []"
| "colons [s] = s"
| "colons (s # ss) = s @ CHR '':'' # colons ss"

definition rfc_response :: "cstring \<Rightarrow> cstring \<Rightarrow> cstring list \<Rightarrow> cstring" where
  "rfc_response a1 a2 mid = rfc_H (colons (rfc_H a1 # mid @ [rfc_H a2]))"

section \<open>The code computes it\<close>

lemma hex_byte_clean: "CHR 0x00 \<notin> set (hex_byte b)" "length (hex_byte b) = 2"
proof -
  have "\<forall>c\<in>set hexdigits. c \<noteq> CHR 0x00" by (simp add: hexdigits_def)
  moreover have "c_uchar b div 16 < 16" "c_uchar b mod 16 < 16" using c_uchar_range[of b] by presburger+
  then have "nat (c_uchar b div 16) < 16" "nat (c_uchar b mod 16) < 16" by linarith+
  moreover have "length hexdigits = 16" by (simp add: hexdigits_def)
  ultimately have "hexdigits ! nat (c_uchar b div 16) \<noteq> CHR 0x00" "hexdigits ! nat (c_uchar b mod 16) \<noteq> CHR 0x00" by simp_all
  then show "CHR 0x00 \<notin> set (hex_byte b)" by (simp add: hex_byte_def)
  show "length (hex_byte b) = 2" by (simp add: hex_byte_def)
qed

lemma rfc_md5_length: "length (rfc_md5 s) = 16"
  by (simp add: rfc_md5_def split: prod.split)

lemma rfc_H_clean: "CHR 0x00 \<notin> set (rfc_H s)" "length (rfc_H s) = 32"
proof -
  show "CHR 0x00 \<notin> set (rfc_H s)" using hex_byte_clean(1) by (auto simp: rfc_H_def)
  have "length (concat (map hex_byte bs)) = 2 * length bs" for bs by (induction bs) (simp_all add: hex_byte_clean(2))
  then show "length (rfc_H s) = 32" by (simp add: rfc_H_def rfc_md5_length)
qed

lemma websMD5binary_spec:
  assumes "\<forall>k. m k \<noteq> None" "len \<le> length bs"
  shows "websMD5binary m u bs len = Some (rfc_H (take len bs) @ [CHR 0x00])"
proof -
  have "md5_rep (psMd5Init (stack_ctx u)) []" by (rule psMd5Init_rep) (simp add: stack_ctx_def)
  then obtain md where md: "psMd5Update (psMd5Init (stack_ctx u)) bs len = Some md" "md5_rep md (take len bs)"
    using psMd5Update_rep[of _ "[]" len bs] assms(2) by auto
  obtain b where b: "balloc m 33 = Some b" "length b = 33" using balloc_granted(1)[OF assms(1), of 33] by auto
  have "c_strncpy b (rfc_H (take len bs)) 33 = Some (rfc_H (take len bs) @ [CHR 0x00])"
    using b(2) rfc_H_clean(2) by (simp add: c_strncpy_def mem_copy_def)
  then show ?thesis using md psMd5Final_rep[OF md(2)] b(1) by (simp add: websMD5binary_def rfc_H_def)
qed

lemma websMD5_spec:
  assumes m: "\<forall>k. m k \<noteq> None" and s: "s \<noteq> []"
  shows "websMD5 m u (Some s) = Some (Some (rfc_H s))"
proof -
  obtain b1 where b1: "balloc m (int (length s) + 1 + 1) = Some b1" "length b1 = length s + 2"
    using balloc_granted(1)[OF m, of "int (length s) + 1 + 1"] by auto
  obtain b2 where b2: "balloc m 33 = Some b2" "length b2 = 33" using balloc_granted(1)[OF m, of 33] by auto
  have "drop (Suc (length s)) b1 = [b1 ! Suc (length s)]" using take_Suc_drop_nth[of "Suc (length s)" b1] b1(2) by simp
  then have t: "ballocUniToAsc m (s @ [CHR 0x00]) (int (length s) + 1) = Some (Some (s @ [CHR 0x00, CHR 0x00]))"
    using b1 by (simp add: ballocUniToAsc_def uniToAsc_def mem_copy_def mem_write_def nat_add_distrib list_update_append)
  have h: "websMD5binary m u (s @ [CHR 0x00, CHR 0x00]) (length s) = Some (rfc_H s @ [CHR 0x00])"
    using websMD5binary_spec[OF m, of "length s" "s @ [CHR 0x00, CHR 0x00]" u] by simp
  have n: "c_strlen (rfc_H s @ [CHR 0x00]) = Some 32"
    using rfc_H_clean[of s] by (simp add: c_strlen_def takeWhile_append)
  have r: "ballocAscToUni m (rfc_H s @ [CHR 0x00]) 32 = Some (Some (rfc_H s @ [CHR 0x00]))"
    using b2 rfc_H_clean(2)[of s] by (simp add: ballocAscToUni_def ascToUni_def mem_copy_def mem_write_def list_update_append)
  show ?thesis using s t h n r c_str_NUL[OF rfc_H_clean(1), of s "[]"] by (simp add: websMD5_def Let_def)
qed

lemma fmt_md5_spec:
  assumes m: "\<forall>k. m k \<noteq> None" and t: "fmt_text (fmt @ [CHR 0x00]) args = Some t" and l: "t \<noteq> []" "length t \<le> 191" and n: "n = 255 \<or> n = 256"
  shows "fmt_md5 m sc u n fmt args = Some (Some (rfc_H t))"
proof -
  have "length t \<le> fmt_cap n" using l(2) n by (auto simp: fmt_cap_def)
  then obtain b r where "fmtAlloc m sc n fmt args = Some (Some b, r, [])" "c_str b = t" "CHR 0x00 \<in> set b"
    using fmtAlloc_str[OF m _ _ _ t, of n sc] n by auto
  then show ?thesis using websMD5_spec[OF m l(1)] by (simp add: fmt_md5_def)
qed

text \<open>Formats made of strings between colons.\<close>

lemma colon_texts:
  assumes "\<forall>s\<in>set [a, b, c, d, e, f]. CHR 0x00 \<notin> set s"
  shows "fmt_text (''%s:%s'' @ [CHR 0x00]) [VStr (Some a), VStr (Some b)] = Some (colons [a, b])"
    "fmt_text (''%s:%s:%s'' @ [CHR 0x00]) [VStr (Some a), VStr (Some b), VStr (Some c)] = Some (colons [a, b, c])"
    "fmt_text (''%s:%s:%s:%s:%s:%s'' @ [CHR 0x00]) [VStr (Some a), VStr (Some b), VStr (Some c), VStr (Some d), VStr (Some e), VStr (Some f)] =
      Some (colons [a, b, c, d, e, f])"
  using assms by (simp_all add: fmt_text_s fmt_text_plain fmt_text_nul)

lemmas colon_text2 = colon_texts(1)[where c = "[]" and d = "[]" and e = "[]" and f = "[]"]
lemmas colon_text3 = colon_texts(2)[where d = "[]" and e = "[]" and f = "[]"]


section \<open>Properties\<close>

text \<open>The parts of the response are present, free of NUL, and short enough for the format buffers of 191 characters.\<close>

definition da_request :: "webs \<Rightarrow> cstring \<Rightarrow> cstring \<Rightarrow> cstring \<Rightarrow> cstring \<Rightarrow> bool" where
  "da_request wp usr rlm pw non \<longleftrightarrow> userName wp = Some usr \<and> realm wp = Some rlm \<and> password wp = Some pw \<and> nonce wp = Some non \<and>
     (\<forall>s\<in>{usr, rlm, pw, non}. CHR 0x00 \<notin> set s) \<and> length usr + length rlm + length pw \<le> 189"

text \<open>What stands between the two hashes: the nonce, and with a quality of protection also its other fields.\<close>

definition da_middle :: "webs \<Rightarrow> cstring \<Rightarrow> cstring list \<Rightarrow> bool" where
  "da_middle wp non mid \<longleftrightarrow>
     (qop wp = None \<and> mid = [non] \<or>
      (\<exists>n cn q. qop wp = Some q \<and> nc wp = Some n \<and> cnonce wp = Some cn \<and> mid = [non, n, cn, q] \<and>
         (\<forall>s\<in>{n, cn, q}. CHR 0x00 \<notin> set s))) \<and>
     66 + length (colons mid) \<le> 191"

lemma calc_a1_spec:
  assumes "\<forall>k. m k \<noteq> None" "da_request wp usr rlm pw non"
  shows "calc_a1 m sc u wp = Some (Some (rfc_H (colons [usr, rlm, pw])))"
proof -
  have "length (colons [usr, rlm, pw]) \<le> 191" using assms(2) by (simp add: da_request_def)
  moreover have "fmt_text (''%s:%s:%s'' @ [CHR 0x00]) [VStr (Some usr), VStr (Some rlm), VStr (Some pw)] = Some (colons [usr, rlm, pw])"
    using assms(2) by (intro colon_text3) (simp add: da_request_def)
  ultimately show ?thesis using fmt_md5_spec[OF assms(1)] assms(2) by (simp add: calc_a1_def da_request_def)
qed

lemma calc_response_spec:
  assumes m: "\<forall>k. m k \<noteq> None" and r: "da_request wp usr rlm pw non" and mid: "da_middle wp non mid"
  shows "calc_response m sc u wp (Some (rfc_H a1)) (Some (rfc_H a2)) = Some (Some (rfc_response a1 a2 mid))"
proof (cases "qop wp")
  case None
  then have mm: "mid = [non]" "length non \<le> 125" using mid by (auto simp: da_middle_def)
  have "fmt_text (''%s:%s:%s'' @ [CHR 0x00]) [VStr (Some (rfc_H a1)), VStr (Some non), VStr (Some (rfc_H a2))] = Some (colons [rfc_H a1, non, rfc_H a2])"
    using r rfc_H_clean(1) by (intro colon_text3) (simp add: da_request_def)
  moreover have "length (colons [rfc_H a1, non, rfc_H a2]) \<le> 191" using mm(2) by (simp add: rfc_H_clean(2))
  ultimately show ?thesis
    using fmt_md5_spec[OF m, of "''%s:%s:%s''" _ "colons [rfc_H a1, non, rfc_H a2]" 255 sc u] r None mm(1)
    by (simp add: calc_response_def da_request_def rfc_response_def)
next
  case (Some q)
  then obtain n cn where q: "nc wp = Some n" "cnonce wp = Some cn" "mid = [non, n, cn, q]" "\<forall>s\<in>{n, cn, q}. CHR 0x00 \<notin> set s"
    "66 + length (colons mid) \<le> 191" using mid by (auto simp: da_middle_def)
  have "fmt_text (''%s:%s:%s:%s:%s:%s'' @ [CHR 0x00])
      [VStr (Some (rfc_H a1)), VStr (Some non), VStr (Some n), VStr (Some cn), VStr (Some q), VStr (Some (rfc_H a2))] =
      Some (colons [rfc_H a1, non, n, cn, q, rfc_H a2])"
    using r q(4) rfc_H_clean(1) by (intro colon_texts(3)) (simp add: da_request_def)
  moreover have "length (colons [rfc_H a1, non, n, cn, q, rfc_H a2]) \<le> 191" using q(5) unfolding q(3) by (simp add: rfc_H_clean(2))
  ultimately show ?thesis
    using fmt_md5_spec[OF m, of "''%s:%s:%s:%s:%s:%s''" _ "colons [rfc_H a1, non, n, cn, q, rfc_H a2]" 255 sc u] r Some q(1-3)
    by (simp add: calc_response_def da_request_def rfc_response_def)
qed


definition demo_request :: webs where
  "demo_request = \<lparr>cgiVars = 0, ipaddr = ''10.0.0.2'', url = Some ''/a'', password = Some ''secret'', userName = Some ''eve'', userAgent = None,
     postData = None, wflags = 0, realm = Some ''GoAhead'', nonce = Some ''abc'', digest = None, uri = Some ''/a'', opaque = None,
     nc = Some ''00000001'', cnonce = Some ''xyz'', qop = Some ''auth'', nSessionid = 0, cookiebuf = [], isDownloadfile = 0,
     b_default_unredirect = False, token = None, cer_key = None, referer = None,
     wdir = Some ''/ipq-resource/resource/webrc/www'', wpath = Some ''/a'', wquery = Some [], lpath = None,
     wheader = rq_sample, ifaddr = ''192.168.1.1'', wtype = [], whost = Some ''hotspot'', decodedQuery = None, authType = None, wcookie = None,
     multiPartBoundary = None, wprotocol = Some ''http'', protoVersion = Some ''HTTP/1.1'', cgiStdin = None, wsid = 0, listenSid = 0, wport = 80,
     wstate = 0, wcode = 200, clen = 0, lenPostData = 0, written = 0, token_flag = 0,
     wwid = 0, docfd = -1, numbytes = 0, wtimeout = -1, timestamp = 0\<rparr>"

lemma demo_method: "\<exists>st. websGetVar sc st 0 ''REQUEST_METHOD'' None = Some (Some ''GET'')"
proof -
  have at: "sym_at sc 0 sym_sample" using sym_sample_inv by (simp add: sym_at_def)
  obtain st where st: "sym_at sc 0 st" "sym_find sc 0 st = (sym_find sc 0 sym_sample)(''REQUEST_METHOD'' \<mapsto> str_val ''GET'')"
    using st.enter_law[OF at, of "''REQUEST_METHOD''" "str_val ''GET''"] by auto
  then show ?thesis using websGetVar_find[OF st(1), of "''REQUEST_METHOD''" None] by (intro exI[of _ st]) (simp add: str_val_def value_string_def)
qed


end
