(* ===== verification/Sessions.thy ===== *)
theory Sessions
  imports Websda
begin

text \<open>
  The session manager of \<^verbatim>\<open>security.c\<close> (the \<^verbatim>\<open>EGOSM_\<close> functions): one symbol per client in the
  table \<^verbatim>\<open>g_sessionsTable\<close>, named after the address and the kind of browser, holding the login
  state in the low byte and the number of missed heartbeats in the next one; the symbol's
  argument counts failed logins. \<open>ov\<close> is the word read past a hash table (theory \<open>Symtab\<close>);
  \<open>ok\<close> and \<open>dup\<close> are the allocations of \<^verbatim>\<open>symEnter\<close>.
\<close>

section \<open>Clients\<close>

datatype exploreType = eTYPE_UNKNOWN | eTYPE_IE | eTYPE_CHROME | eTYPE_FIREFOX | eTYPE_SAFARI | eTYPE_OPERA | eTYPE_EDGE

primrec etype_char :: "exploreType \<Rightarrow> char" where
  "etype_char eTYPE_UNKNOWN = CHR ''0''"
| "etype_char eTYPE_IE = CHR ''1''"
| "etype_char eTYPE_CHROME = CHR ''2''"
| "etype_char eTYPE_FIREFOX = CHR ''3''"
| "etype_char eTYPE_SAFARI = CHR ''4''"
| "etype_char eTYPE_OPERA = CHR ''5''"
| "etype_char eTYPE_EDGE = CHR ''6''"

definition SM_getBrowserType :: "webs \<Rightarrow> exploreType" where
  "SM_getBrowserType wp =
     (case userAgent wp of
        None \<Rightarrow> eTYPE_UNKNOWN
      | Some ua \<Rightarrow>
          if c_has ua ''MSIE'' then eTYPE_IE
          else if c_has ua ''Edge'' then eTYPE_CHROME
          else if c_has ua ''Firefox'' then eTYPE_FIREFOX
          else if c_has ua ''Opera'' \<or> c_has ua ''OPR'' then eTYPE_OPERA
          else if c_has ua ''Chrome'' then eTYPE_CHROME
          else if c_has ua ''Safari'' then eTYPE_SAFARI
          else eTYPE_UNKNOWN)"

text \<open>The key, printed into 35 bytes, which hold every address of the 32-byte field.\<close>

definition SM_getSessionKey :: "webs \<Rightarrow> cstring" where
  "SM_getSessionKey wp = ipaddr wp @ [CHR ''_'', etype_char (SM_getBrowserType wp)]"

section \<open>State\<close>

definition SESSIONID_FOR_LOGOUT :: int where "SESSIONID_FOR_LOGOUT = 0"
definition SESSIONID_FOR_LOGIN_FAILED :: int where "SESSIONID_FOR_LOGIN_FAILED = 1"
definition SESSIONID_FOR_HAS_LOGIN :: int where "SESSIONID_FOR_HAS_LOGIN = 2"
definition SESSIONID_FOR_LOGIN_SUCCESS :: int where "SESSIONID_FOR_LOGIN_SUCCESS = 5"
definition INVALID_SYM_FD :: int where "INVALID_SYM_FD = -1"
definition MAX_COUNT_OF_SESSION :: int where "MAX_COUNT_OF_SESSION = 256"
definition MAX_COUNT_FOR_DELETE_ITEM :: nat where "MAX_COUNT_FOR_DELETE_ITEM = 32"
definition MAX_LENGTH_OF_ITEMNAME :: nat where "MAX_LENGTH_OF_ITEMNAME = 24"
definition SESSION_TIMEOUT_COUNT :: int where "SESSION_TIMEOUT_COUNT = 6"

lemmas sess_consts = SESSIONID_FOR_LOGOUT_def SESSIONID_FOR_LOGIN_FAILED_def SESSIONID_FOR_HAS_LOGIN_def
  SESSIONID_FOR_LOGIN_SUCCESS_def INVALID_SYM_FD_def MAX_COUNT_FOR_DELETE_ITEM_def MAX_LENGTH_OF_ITEMNAME_def SESSION_TIMEOUT_COUNT_def

datatype login_status = E_LOGIN_SUCCESS | E_LOGIN_FAIL | E_LOGIN_OTHER_HAS_LOGIN | E_LOGIN_FORCE_LOGIN_SUCCESS

text \<open>\<open>login_timer\<close>: the timer that calls \<^verbatim>\<open>EGOSM_processSessionTimeOut\<close> runs.\<close>

record sess_state =
  symtab :: sym_state
  g_sessionsTable :: int
  login_timer :: bool

definition set_timer_clean :: "sess_state \<Rightarrow> sess_state" where
  "set_timer_clean st = st\<lparr>login_timer := False\<rparr>"

text \<open>\<^verbatim>\<open>content.value.integer\<close> of a symbol, and storing to it through a symbol pointer; symbols have different names.\<close>

definition sym_int :: "sym_t \<Rightarrow> int option" where
  "sym_int sp = (case val_of (content sp) of UInteger i \<Rightarrow> Some i | UString _ \<Rightarrow> None)"

definition with_int :: "int \<Rightarrow> sym_t \<Rightarrow> sym_t" where
  "with_int i sp = sp\<lparr>content := (content sp)\<lparr>val_of := UInteger i\<rparr>\<rparr>"

definition sym_set_int :: "sym_state \<Rightarrow> int \<Rightarrow> sym_t \<Rightarrow> int \<Rightarrow> sym_state option" where
  "sym_set_int st sd sp i = do {
     tp \<leftarrow> h_get (sym st) sd;
     Some (st\<lparr>sym := h_store (sym st) sd
       (tp\<lparr>hash_table := map (map (\<lambda>s. if name s = name sp then with_int i s else s)) (hash_table tp)\<rparr>)\<rparr>) }"

section \<open>Operations\<close>

definition EGOSM_Init :: "balloc_env \<Rightarrow> bool \<Rightarrow> bool \<Rightarrow> sess_state \<Rightarrow> sess_state option" where
  "EGOSM_Init m tab_ok ht_ok st = do {
     (s, sd) \<leftarrow> symOpen m tab_ok ht_ok (symtab st) MAX_COUNT_OF_SESSION;
     Some (st\<lparr>symtab := s, g_sessionsTable := sd\<rparr>) }"

definition EGOSM_End :: "sess_state \<Rightarrow> sess_state option" where
  "EGOSM_End st =
     (if g_sessionsTable st = INVALID_SYM_FD then Some st
      else do {
        s \<leftarrow> symClose (symtab st) (g_sessionsTable st);
        Some (st\<lparr>symtab := s, g_sessionsTable := INVALID_SYM_FD\<rparr>) })"

text \<open>The lookup of the client's symbol; \<open>Some None\<close> when there is none.\<close>

definition sess_lookup :: "bool \<Rightarrow> sess_state \<Rightarrow> cstring \<Rightarrow> sym_t option option" where
  "sess_lookup sc st k = symLookup sc (symtab st) (g_sessionsTable st) (Some k)"

definition EGOSM_getLoginFailCnt :: "bool \<Rightarrow> sess_state \<Rightarrow> webs \<Rightarrow> int option" where
  "EGOSM_getLoginFailCnt sc st wp =
     (if g_sessionsTable st = INVALID_SYM_FD then Some 0
      else do {
        r \<leftarrow> sess_lookup sc st (SM_getSessionKey wp);
        Some (case r of Some sp \<Rightarrow> arg sp | None \<Rightarrow> 0) })"

definition sess_enter :: "bool \<Rightarrow> bool \<Rightarrow> bool \<Rightarrow> sess_state \<Rightarrow> cstring \<Rightarrow> int \<Rightarrow> int \<Rightarrow> sess_state option" where
  "sess_enter sc ok dup st k i cnt = do {
     (s, _) \<leftarrow> symEnter sc ok dup (symtab st) (g_sessionsTable st) k (valueInteger i) cnt;
     Some (st\<lparr>symtab := s\<rparr>) }"

definition sess_delete :: "bool \<Rightarrow> sess_state \<Rightarrow> cstring \<Rightarrow> (sess_state \<times> int) option" where
  "sess_delete sc st k = do {
     (s, rc) \<leftarrow> symDelete sc (symtab st) (g_sessionsTable st) k;
     Some (st\<lparr>symtab := s\<rparr>, rc) }"

text \<open>The names copied to \<^verbatim>\<open>g_delsessionids\<close> have at most 23 characters.\<close>

definition del_name :: "sym_t \<Rightarrow> cstring option" where
  "del_name sp = map_option (take (MAX_LENGTH_OF_ITEMNAME - 1)) (value_string (name sp))"

partial_function (option) collect_logins ::
    "sym_t list option \<Rightarrow> sym_state \<Rightarrow> int \<Rightarrow> sym_t option \<Rightarrow> cstring list \<Rightarrow> (sym_state \<times> cstring list) option" where
  "collect_logins ov s sd sp dels =
     (case sp of
        None \<Rightarrow> Some (s, dels)
      | Some p \<Rightarrow>
          if length dels < MAX_COUNT_FOR_DELETE_ITEM then do {
            i \<leftarrow> sym_int p;
            dels1 \<leftarrow> (if i mod 256 = SESSIONID_FOR_LOGIN_SUCCESS then map_option (\<lambda>n. dels @ [n]) (del_name p) else Some dels);
            (s1, sp1) \<leftarrow> symNext ov s sd;
            collect_logins ov s1 sd sp1 dels1 }
          else Some (s, dels))"

fun sess_delete_all :: "bool \<Rightarrow> sess_state \<Rightarrow> cstring list \<Rightarrow> sess_state option" where
  "sess_delete_all sc st [] = Some st"
| "sess_delete_all sc st (n # ns) = do { (st1, _) \<leftarrow> sess_delete sc st n; sess_delete_all sc st1 ns }"

definition EGOSM_setSessionInfo ::
    "sym_t list option \<Rightarrow> bool \<Rightarrow> bool \<Rightarrow> bool \<Rightarrow> sess_state \<Rightarrow> webs \<Rightarrow> login_status \<Rightarrow> sess_state option" where
  "EGOSM_setSessionInfo ov sc ok dup st wp bloginFailed = do {
     let pstrKey = SM_getSessionKey wp;
     cnt \<leftarrow> EGOSM_getLoginFailCnt sc st wp;
     if g_sessionsTable st = INVALID_SYM_FD then Some st
     else (case bloginFailed of
         E_LOGIN_FAIL \<Rightarrow> sess_enter sc ok dup st pstrKey SESSIONID_FOR_LOGIN_FAILED cnt
       | E_LOGIN_OTHER_HAS_LOGIN \<Rightarrow> sess_enter sc ok dup st pstrKey SESSIONID_FOR_HAS_LOGIN cnt
       | E_LOGIN_SUCCESS \<Rightarrow> sess_enter sc ok dup st pstrKey SESSIONID_FOR_LOGIN_SUCCESS cnt
       | E_LOGIN_FORCE_LOGIN_SUCCESS \<Rightarrow> do {
           (s1, sp) \<leftarrow> symFirst ov (symtab st) (g_sessionsTable st);
           (s2, dels) \<leftarrow> collect_logins ov s1 (g_sessionsTable st) sp [];
           st1 \<leftarrow> sess_delete_all sc (st\<lparr>symtab := s2\<rparr>) dels;
           sess_enter sc ok dup st1 pstrKey SESSIONID_FOR_LOGIN_SUCCESS cnt }) }"

definition EGOSM_clearSessionInfo :: "bool \<Rightarrow> sess_state \<Rightarrow> webs \<Rightarrow> (sess_state \<times> int) option" where
  "EGOSM_clearSessionInfo sc st wp =
     (if g_sessionsTable st = INVALID_SYM_FD then Some (st, -1) else sess_delete sc st (SM_getSessionKey wp))"

definition EGOSM_getSessionID :: "bool \<Rightarrow> sess_state \<Rightarrow> webs \<Rightarrow> int option" where
  "EGOSM_getSessionID sc st wp =
     (if g_sessionsTable st = INVALID_SYM_FD then Some SESSIONID_FOR_LOGIN_SUCCESS
      else do {
        r \<leftarrow> sess_lookup sc st (SM_getSessionKey wp);
        (case r of
           None \<Rightarrow> Some SESSIONID_FOR_LOGOUT
         | Some sp \<Rightarrow> do {
             i \<leftarrow> sym_int sp;
             Some (if i mod 256 = SESSIONID_FOR_LOGIN_FAILED then SESSIONID_FOR_LOGIN_FAILED
                   else if i mod 256 = SESSIONID_FOR_HAS_LOGIN then SESSIONID_FOR_HAS_LOGIN
                   else SESSIONID_FOR_LOGIN_SUCCESS) }) })"

definition EGOSM_isUserLogined :: "bool \<Rightarrow> sess_state \<Rightarrow> webs \<Rightarrow> (sess_state \<times> int) option" where
  "EGOSM_isUserLogined sc st wp =
     (if g_sessionsTable st = INVALID_SYM_FD then Some (st, 1)
      else do {
        r \<leftarrow> sess_lookup sc st (SM_getSessionKey wp);
        (case r of
           None \<Rightarrow> Some (st, 0)
         | Some sp \<Rightarrow> do {
             i \<leftarrow> sym_int sp;
             if i mod 256 = SESSIONID_FOR_LOGIN_FAILED \<or> i mod 256 = SESSIONID_FOR_HAS_LOGIN then do {
               (st1, _) \<leftarrow> sess_delete sc st (SM_getSessionKey wp);
               Some (st1, 0) }
             else Some (st, 1) }) })"

text \<open>\<open>pstrIp\<close> is the caller's buffer; the copy is not terminated.\<close>

definition sess_report :: "byte list \<Rightarrow> sym_t option \<Rightarrow> (byte list \<times> int \<times> int) option" where
  "sess_report pstrIp sp =
     (case sp of
        None \<Rightarrow> Some (pstrIp, 0, 0)
      | Some p \<Rightarrow> do {
          i \<leftarrow> sym_int p;
          b \<leftarrow> (case value_string (name p) of
                  None \<Rightarrow> Some pstrIp
                | Some nm \<Rightarrow> c_strncpy pstrIp nm (int (length nm)));
          Some (b, i mod 256, 1) })"

definition EGOSM_getPeerInfo :: "byte list \<Rightarrow> webs \<Rightarrow> (byte list \<times> exploreType) option" where
  "EGOSM_getPeerInfo pstrIp wp = do { b \<leftarrow> c_strcpy pstrIp (ipaddr wp); Some (b, SM_getBrowserType wp) }"

definition EGOSM_getFirstSessionInfo ::
    "sym_t list option \<Rightarrow> sess_state \<Rightarrow> byte list \<Rightarrow> (sess_state \<times> byte list \<times> int \<times> int) option" where
  "EGOSM_getFirstSessionInfo ov st pstrIp =
     (if g_sessionsTable st = INVALID_SYM_FD then Some (st, pstrIp, 0, 0)
      else do {
        (s, sp) \<leftarrow> symFirst ov (symtab st) (g_sessionsTable st);
        r \<leftarrow> sess_report pstrIp sp;
        Some (st\<lparr>symtab := s\<rparr>, r) })"

definition EGOSM_getNextSessionInfo ::
    "sym_t list option \<Rightarrow> sess_state \<Rightarrow> byte list \<Rightarrow> (sess_state \<times> byte list \<times> int \<times> int) option" where
  "EGOSM_getNextSessionInfo ov st pstrIp =
     (if g_sessionsTable st = INVALID_SYM_FD then Some (st, pstrIp, 0, 0)
      else do {
        (s, sp) \<leftarrow> symNext ov (symtab st) (g_sessionsTable st);
        r \<leftarrow> sess_report pstrIp sp;
        Some (st\<lparr>symtab := s\<rparr>, r) })"

section \<open>Heartbeats\<close>

text \<open>One missed heartbeat more: the new number of the symbol.\<close>

definition sess_tick :: "int \<Rightarrow> int" where
  "sess_tick i = ((i div 256 mod 256 + 1) mod 256) * 256 + i mod 256"

partial_function (option) timeout_scan ::
    "sym_t list option \<Rightarrow> sym_state \<Rightarrow> int \<Rightarrow> sym_t option \<Rightarrow> cstring list \<Rightarrow> (sym_state \<times> cstring list) option" where
  "timeout_scan ov s sd sp dels =
     (case sp of
        None \<Rightarrow> Some (s, dels)
      | Some p \<Rightarrow>
          if length dels < MAX_COUNT_FOR_DELETE_ITEM then do {
            i \<leftarrow> sym_int p;
            s1 \<leftarrow> sym_set_int s sd p (sess_tick i);
            dels1 \<leftarrow> (if i div 256 mod 256 + 1 \<ge> SESSION_TIMEOUT_COUNT then map_option (\<lambda>n. dels @ [n]) (del_name p) else Some dels);
            (s2, sp1) \<leftarrow> symNext ov s1 sd;
            timeout_scan ov s2 sd sp1 dels1 }
          else Some (s, dels))"

definition EGOSM_processSessionTimeOut :: "sym_t list option \<Rightarrow> bool \<Rightarrow> sess_state \<Rightarrow> sess_state option" where
  "EGOSM_processSessionTimeOut ov sc st =
     (if g_sessionsTable st = INVALID_SYM_FD then Some (set_timer_clean st)
      else do {
        (s1, sp) \<leftarrow> symFirst ov (symtab st) (g_sessionsTable st);
        (s2, dels) \<leftarrow> timeout_scan ov s1 (g_sessionsTable st) sp [];
        st1 \<leftarrow> sess_delete_all sc (st\<lparr>symtab := s2\<rparr>) dels;
        Some (if dels = [] then st1 else set_timer_clean st1) })"

definition EGOSM_setLoginFailCnt :: "bool \<Rightarrow> bool \<Rightarrow> bool \<Rightarrow> sess_state \<Rightarrow> webs \<Rightarrow> int \<Rightarrow> (sess_state \<times> int) option" where
  "EGOSM_setLoginFailCnt sc ok dup st wp cnt =
     (if g_sessionsTable st = INVALID_SYM_FD then Some (st, -1)
      else do {
        i \<leftarrow> EGOSM_getSessionID sc st wp;
        st1 \<leftarrow> sess_enter sc ok dup st (SM_getSessionKey wp) i cnt;
        Some (st1, 0) })"

definition EGOSM_resetSessionHeartbeat :: "bool \<Rightarrow> sess_state \<Rightarrow> webs \<Rightarrow> (sess_state \<times> int) option" where
  "EGOSM_resetSessionHeartbeat sc st wp =
     (if g_sessionsTable st = INVALID_SYM_FD then Some (st, -1)
      else do {
        r \<leftarrow> sess_lookup sc st (SM_getSessionKey wp);
        (case r of
           None \<Rightarrow> Some (st, 0)
         | Some sp \<Rightarrow> do {
             s \<leftarrow> sym_set_int (symtab st) (g_sessionsTable st) sp SESSIONID_FOR_LOGIN_SUCCESS;
             Some (st\<lparr>symtab := s\<rparr>, 1) }) })"

section \<open>Entries of a table\<close>

definition entries :: "sym_tabent \<Rightarrow> sym_t list" where
  "entries tp = concat (hash_table tp)"

definition map_tab :: "(sym_t \<Rightarrow> sym_t) \<Rightarrow> sym_tabent \<Rightarrow> sym_tabent" where
  "map_tab F tp = tp\<lparr>hash_table := map (map F) (hash_table tp)\<rparr>"

lemma entries_map_tab [simp]: "entries (map_tab F tp) = map F (entries tp)"
  by (simp add: entries_def map_tab_def map_concat)

lemma map_tab_cong: "(\<And>q. q \<in> set (entries tp) \<Longrightarrow> F q = G q) \<Longrightarrow> map_tab F tp = map_tab G tp"
proof -
  assume e: "\<And>q. q \<in> set (entries tp) \<Longrightarrow> F q = G q"
  have "map F ch = map G ch" if "ch \<in> set (hash_table tp)" for ch using that e by (auto simp: entries_def)
  then have "map (map F) (hash_table tp) = map (map G) (hash_table tp)" by simp
  then show "map_tab F tp = map_tab G tp" by (simp add: map_tab_def)
qed

lemma map_tab_comp: "map_tab F (map_tab G tp) = map_tab (\<lambda>q. F (G q)) tp"
  by (simp add: map_tab_def comp_def)

lemma map_tab_sizes [simp]: "hash_size (map_tab F tp) = hash_size tp" "hash_table (map_tab F tp) = map (map F) (hash_table tp)"
  by (simp_all add: map_tab_def)

lemma entry_bucket:
  assumes "tab_inv sc tp" "sp \<in> set (entries tp)"
  shows "\<exists>k. sym_key sp = Some k \<and> sp \<in> set (bucket sc tp k)"
proof -
  obtain i where i: "i < length (hash_table tp)" "sp \<in> set (hash_table tp ! i)"
    using assms(2) unfolding entries_def by (auto simp: in_set_conv_nth[of _ "hash_table tp"])
  then obtain k where "sym_key sp = Some k" "hashIndex sc tp k = int i" using assms(1) by (auto simp: tab_inv_def)
  then show ?thesis using i by auto
qed

lemma bucket_entry: "tab_inv sc tp \<Longrightarrow> sp \<in> set (bucket sc tp k) \<Longrightarrow> sp \<in> set (entries tp)"
  using tab_inv_index(1)[of sc tp k] by (auto simp: entries_def intro!: bexI[of _ "bucket sc tp k"])

lemma entry_unique:
  assumes i: "tab_inv sc tp" and e: "p \<in> set (entries tp)" "q \<in> set (entries tp)" "sym_key p = sym_key q"
  shows "p = q"
proof -
  obtain k where k: "sym_key p = Some k" "p \<in> set (bucket sc tp k)" using entry_bucket[OF i e(1)] by blast
  then have "q \<in> set (bucket sc tp k)" using entry_bucket[OF i e(2)] e(3) by auto
  then show ?thesis using tab_inv_bucket(2)[OF i, of k] k(2) e(3) by (auto simp: distinct_map dest: inj_onD)
qed

lemma tab_lookup_entry:
  assumes i: "tab_inv sc tp" and k: "k \<noteq> []"
  shows "tab_lookup sc tp k = Some (Some sp) \<longleftrightarrow> sp \<in> set (entries tp) \<and> sym_key sp = Some k"
    and "tab_lookup sc tp k = Some None \<longleftrightarrow> (\<forall>sp\<in>set (entries tp). sym_key sp \<noteq> Some k)"
proof -
  have f: "tab_lookup sc tp k = Some (find (\<lambda>sp. sym_key sp = Some k) (bucket sc tp k))" by (rule tab_lookup_find[OF i k])
  have b: "q \<in> set (bucket sc tp k)" if "q \<in> set (entries tp)" "sym_key q = Some k" for q
    using entry_bucket[OF i that(1)] that(2) by auto
  show "tab_lookup sc tp k = Some None \<longleftrightarrow> (\<forall>sp\<in>set (entries tp). sym_key sp \<noteq> Some k)"
    using f b bucket_entry[OF i] by (auto simp: find_None_iff)
  show "tab_lookup sc tp k = Some (Some sp) \<longleftrightarrow> sp \<in> set (entries tp) \<and> sym_key sp = Some k"
  proof
    assume "tab_lookup sc tp k = Some (Some sp)"
    then have "sp \<in> set (bucket sc tp k)" "sym_key sp = Some k" using f by (auto simp: find_Some_iff)
    then show "sp \<in> set (entries tp) \<and> sym_key sp = Some k" using bucket_entry[OF i] by blast
  next
    assume sp: "sp \<in> set (entries tp) \<and> sym_key sp = Some k"
    then obtain q where q: "find (\<lambda>sp. sym_key sp = Some k) (bucket sc tp k) = Some q"
      using b by (cases "find (\<lambda>sp. sym_key sp = Some k) (bucket sc tp k)") (auto simp: find_None_iff)
    then have "q \<in> set (bucket sc tp k)" "sym_key q = Some k" by (auto simp: find_Some_iff)
    then have "q = sp" using entry_unique[OF i bucket_entry[OF i]] sp by auto
    then show "tab_lookup sc tp k = Some (Some sp)" using f q by simp
  qed
qed

lemma tab_inv_map:
  assumes "\<And>q. name (F q) = name q" "tab_inv sc tp"
  shows "tab_inv sc (map_tab F tp)"
  using assms by (auto simp: tab_inv_def map_tab_def comp_def)

lemma tab_lookup_map:
  assumes F: "\<And>q. name (F q) = name q" and i: "tab_inv sc tp"
  shows "tab_lookup sc (map_tab F tp) k = map_option (map_option F) (tab_lookup sc tp k)"
proof (cases "k = []")
  case False
  note i' = tab_inv_map[of F, OF F i]
  obtain r where r: "tab_lookup sc tp k = Some r" using tab_lookup_find[OF i False] by blast
  have "tab_lookup sc (map_tab F tp) k = Some (map_option F r)"
  proof (cases r)
    case None
    then show ?thesis using tab_lookup_entry(2)[OF i False] tab_lookup_entry(2)[OF i' False] r F by auto
  next
    case (Some sp)
    then show ?thesis using tab_lookup_entry(1)[OF i False] tab_lookup_entry(1)[OF i' False, of "F sp"] r F by auto
  qed
  then show ?thesis using r by simp
qed simp

lemma distinct_concat_nth:
  "(\<forall>i<length xss. distinct (xss ! i)) \<Longrightarrow> (\<forall>i j. i < j \<and> j < length xss \<longrightarrow> set (xss ! i) \<inter> set (xss ! j) = {}) \<Longrightarrow> distinct (concat xss)"
proof (induction xss)
  case (Cons xs xss)
  have "distinct (concat xss)"
  proof (rule Cons.IH)
    show "\<forall>i<length xss. distinct (xss ! i)" using Cons.prems(1) by (metis Suc_less_eq length_Cons nth_Cons_Suc)
    show "\<forall>i j. i < j \<and> j < length xss \<longrightarrow> set (xss ! i) \<inter> set (xss ! j) = {}"
      using Cons.prems(2) by (metis Suc_less_eq length_Cons nth_Cons_Suc)
  qed
  moreover have "set xs \<inter> set (xss ! j) = {}" if "j < length xss" for j using Cons.prems(2)[rule_format, of 0 "Suc j"] that by simp
  then have "set xs \<inter> set (concat xss) = {}" by (fastforce simp: in_set_conv_nth)
  moreover have "distinct xs" using Cons.prems(1)[rule_format, of 0] by simp
  ultimately show ?case by simp
qed simp

lemma distinct_entries: "tab_inv sc tp \<Longrightarrow> distinct (map sym_key (entries tp))"
proof -
  assume i: "tab_inv sc tp"
  have "distinct (concat (map (map sym_key) (hash_table tp)))"
  proof (rule distinct_concat_nth)
    show "\<forall>j<length (map (map sym_key) (hash_table tp)). distinct (map (map sym_key) (hash_table tp) ! j)"
      using i by (auto simp: tab_inv_def)
    show "\<forall>a b. a < b \<and> b < length (map (map sym_key) (hash_table tp)) \<longrightarrow>
        set (map (map sym_key) (hash_table tp) ! a) \<inter> set (map (map sym_key) (hash_table tp) ! b) = {}"
    proof (intro allI impI)
      fix a b assume ab: "a < b \<and> b < length (map (map sym_key) (hash_table tp))"
      have H: "hashIndex sc tp k = int j" if "Some k \<in> sym_key ` set (hash_table tp ! j)" "j < length (hash_table tp)" for k j
        using i that by (force simp: tab_inv_def)
      have N: "c \<noteq> None" if "c \<in> sym_key ` set (hash_table tp ! j)" "j < length (hash_table tp)" for c j
        using i that by (auto simp: tab_inv_def)
      have l: "a < length (hash_table tp)" "b < length (hash_table tp)" using ab by auto
      have "c \<notin> sym_key ` set (hash_table tp ! b)" if c: "c \<in> sym_key ` set (hash_table tp ! a)" for c
      proof
        assume cb: "c \<in> sym_key ` set (hash_table tp ! b)"
        obtain k where "c = Some k" using N[OF c l(1)] by auto
        then show False using H[of k a] H[of k b] c cb l ab by simp
      qed
      then show "set (map (map sym_key) (hash_table tp) ! a) \<inter> set (map (map sym_key) (hash_table tp) ! b) = {}" using ab by auto
    qed
  qed
  then show "distinct (map sym_key (entries tp))" by (simp add: entries_def map_concat)
qed

text \<open>Deleting and entering change at most one entry.\<close>

lemma tab_delete_entries:
  assumes i: "tab_inv sc tp" and d: "tab_delete sc tp nm = Some (tp', rc)"
  shows "set (entries tp') \<subseteq> set (entries tp)" and "length (entries tp') \<le> length (entries tp)"
proof -
  obtain pre post where r: "chain_find (bucket sc tp nm) nm = Some (pre, post)" "bucket sc tp nm = pre @ post"
    using bucket_split[OF i, of nm] by metis
  let ?h = "nat (hashIndex sc tp nm)"
  have h: "?h < length (hash_table tp)" by (rule tab_inv_index(1)[OF i])
  have tp': "hash_table tp' = (if post = [] then hash_table tp else (hash_table tp)[?h := pre @ tl post])"
    using d r(1) tab_inv_index(2)[OF i, of nm] by (auto simp: tab_delete_def Let_def split: list.splits)
  have e: "hash_table tp = take ?h (hash_table tp) @ (pre @ post) # drop (Suc ?h) (hash_table tp)"
    using id_take_nth_drop[OF h] r(2) by simp
  have u: "(hash_table tp)[?h := pre @ tl post] = take ?h (hash_table tp) @ (pre @ tl post) # drop (Suc ?h) (hash_table tp)"
    by (rule upd_conv_take_nth_drop[OF h])
  have st: "set (tl post) \<subseteq> set post" by (cases post) auto
  show "set (entries tp') \<subseteq> set (entries tp)"
    unfolding entries_def tp' using st by (cases "post = []") (simp, subst (3) e, unfold u, auto)
  show "length (entries tp') \<le> length (entries tp)"
    unfolding entries_def tp' by (cases "post = []") (simp, subst (3) e, unfold u, simp)
qed

section \<open>Well-formed session tables\<close>

text \<open>A session symbol holds a number, and its name fits the deletion buffer.\<close>

definition entry_ok :: "sym_t \<Rightarrow> bool" where
  "entry_ok q \<longleftrightarrow> sym_int q \<noteq> None \<and> (\<exists>k. sym_key q = Some k \<and> k \<noteq> [] \<and> length k < MAX_LENGTH_OF_ITEMNAME)"

definition key_of :: "sym_t \<Rightarrow> cstring" where
  "key_of q = (case sym_key q of Some k \<Rightarrow> k | None \<Rightarrow> [])"

definition int_of :: "sym_t \<Rightarrow> int" where
  "int_of q = (case sym_int q of Some i \<Rightarrow> i | None \<Rightarrow> 0)"

lemma entry_okD:
  assumes "entry_ok q"
  shows "sym_int q = Some (int_of q)" "sym_key q = Some (key_of q)" "del_name q = Some (key_of q)" "key_of q \<noteq> []"
  using assms by (auto simp: entry_ok_def int_of_def key_of_def del_name_def sess_consts)

lemma with_int_simps [simp]:
  "name (with_int i q) = name q" "arg (with_int i q) = arg q" "sym_int (with_int i q) = Some i" "int_of (with_int i q) = i" "key_of (with_int i q) = key_of q"
  by (simp_all add: with_int_def sym_int_def int_of_def key_of_def)

lemma entry_ok_with_int [simp]: "entry_ok q \<Longrightarrow> entry_ok (with_int i q)"
  by (simp add: entry_ok_def)

definition ticked :: "sym_t \<Rightarrow> sym_t" where
  "ticked q = with_int (sess_tick (int_of q)) q"

definition expired :: "sym_t \<Rightarrow> bool" where
  "expired q \<longleftrightarrow> SESSION_TIMEOUT_COUNT \<le> int_of q div 256 mod 256 + 1"

definition tick_if :: "cstring option set \<Rightarrow> sym_t \<Rightarrow> sym_t" where
  "tick_if K q = (if sym_key q \<in> K then ticked q else q)"

lemma ticked_name [simp]: "name (ticked q) = name q" "name (tick_if K q) = name q"
  by (simp_all add: ticked_def tick_if_def)

lemma sym_set_int_spec:
  assumes i: "sym_inv sc s" and t: "sym_tab s sd = Some tp"
  shows "\<exists>s1. sym_set_int s sd p v = Some s1 \<and> sym_inv sc s1 \<and>
     sym_tab s1 = (sym_tab s)(sd \<mapsto> map_tab (\<lambda>q. if name q = name p then with_int v q else q) tp) \<and>
     nextp s1 = nextp s \<and> htIndex s1 = htIndex s"
proof -
  let ?F = "\<lambda>q. if name q = name p then with_int v q else q"
  have "tab_inv sc tp" using i t by (simp add: sym_inv_def sym_tab_def)
  then have "tab_inv sc (map_tab ?F tp)" by (intro tab_inv_map) simp_all
  note st = sym_inv_store[OF i t this]
  have "sym_set_int s sd p v = Some (s\<lparr>sym := h_store (sym s) sd (map_tab ?F tp)\<rparr>)"
    using t by (simp add: sym_set_int_def sym_tab_def map_tab_def)
  then show ?thesis using st by simp
qed

text \<open>The cursor of a traversal does not notice changes to symbols it has passed.\<close>

lemma sym_todo_map:
  assumes "nextp s1 = nextp s" "htIndex s1 = htIndex s" "\<forall>q\<in>set (sym_todo tp s). F q = q"
  shows "sym_todo (map_tab F tp) s1 = sym_todo tp s" and "sym_cursor (map_tab F tp) s1 = sym_cursor tp s"
proof -
  have "sym_todo (map_tab F tp) s1 =
      (if htIndex s < hash_size tp then nextp s @ map F (concat (drop (nat (htIndex s) + 1) (hash_table tp))) else [])"
    using assms(1,2) by (simp add: sym_todo_def sym_rest_def drop_map map_concat)
  also have "\<dots> = sym_todo tp s"
    using assms(3) by (auto simp: sym_todo_def sym_rest_def intro!: map_idI split: if_splits)
  finally show "sym_todo (map_tab F tp) s1 = sym_todo tp s" .
  show "sym_cursor (map_tab F tp) s1 = sym_cursor tp s" using assms(2) by (simp add: sym_cursor_def)
qed

lemma timeout_scan_spec:
  "sym_inv sc s \<Longrightarrow> sym_tab s sd = Some tp \<Longrightarrow> set rest \<subseteq> set (entries tp) \<Longrightarrow> distinct (map sym_key rest) \<Longrightarrow>
   \<forall>q\<in>set rest. entry_ok q \<Longrightarrow> (rest \<noteq> [] \<longrightarrow> sym_cursor tp s \<and> sym_todo tp s = tl rest) \<Longrightarrow> length dels + length rest \<le> MAX_COUNT_FOR_DELETE_ITEM \<Longrightarrow>
   \<exists>s'. timeout_scan (Some x) s sd (head_of rest) dels = Some (s', dels @ map key_of (filter expired rest)) \<and> sym_inv sc s' \<and>
     sym_tab s' = (sym_tab s)(sd \<mapsto> map_tab (tick_if (sym_key ` set rest)) tp)"
proof (induction rest arbitrary: s tp dels)
  case Nil
  have "map_tab (tick_if {}) tp = map_tab (\<lambda>q. q) tp" by (rule map_tab_cong) (simp add: tick_if_def)
  also have "\<dots> = tp" by (simp add: map_tab_def)
  finally show ?case using Nil by (auto simp: timeout_scan.simps[of _ _ _ None])
next
  case (Cons p rest)
  have p: "p \<in> set (entries tp)" "entry_ok p" and it: "tab_inv sc tp" using Cons.prems by (auto simp: sym_inv_def sym_tab_def)
  let ?F = "\<lambda>q. if name q = name p then with_int (sess_tick (int_of p)) q else q"
  obtain s1 where s1: "sym_set_int s sd p (sess_tick (int_of p)) = Some s1" "sym_inv sc s1" "sym_tab s1 = (sym_tab s)(sd \<mapsto> map_tab ?F tp)"
    "nextp s1 = nextp s" "htIndex s1 = htIndex s" using sym_set_int_spec[OF Cons.prems(1,2), of p] by blast
  have fx: "\<forall>q\<in>set rest. ?F q = q" using Cons.prems(4) by (auto simp: image_iff)
  have todo: "sym_todo (map_tab ?F tp) s1 = rest" "sym_cursor (map_tab ?F tp) s1"
    using sym_todo_map[OF s1(4,5), of tp ?F] Cons.prems(6) fx by auto
  have t1: "sym_tab s1 sd = Some (map_tab ?F tp)" using s1(3) by simp
  obtain s2 where s2: "symNext (Some x) s1 sd = Some (s2, head_of rest)" "sym s2 = sym s1"
    "rest \<noteq> [] \<longrightarrow> sym_cursor (map_tab ?F tp) s2 \<and> sym_todo (map_tab ?F tp) s2 = tl rest"
    using symNext_over[OF s1(2) t1 todo(2), of x] todo(1) by auto
  have i2: "sym_inv sc s2" "sym_tab s2 = sym_tab s1" using s1(2) s2(2) by (auto simp: sym_inv_def sym_tab_def fun_eq_iff)
  define dels1 where "dels1 = (if expired p then dels @ [key_of p] else dels)"
  have sub: "set rest \<subseteq> set (entries (map_tab ?F tp))"
  proof
    fix q assume q: "q \<in> set rest"
    then have "q \<in> set (entries tp)" using Cons.prems(3) by auto
    then have "?F q \<in> set (map ?F (entries tp))" unfolding set_map by (rule imageI)
    moreover have "?F q = q" using fx q by blast
    ultimately show "q \<in> set (entries (map_tab ?F tp))" by simp
  qed
  have "\<exists>s'. timeout_scan (Some x) s2 sd (head_of rest) dels1 = Some (s', dels1 @ map key_of (filter expired rest)) \<and> sym_inv sc s' \<and>
     sym_tab s' = (sym_tab s2)(sd \<mapsto> map_tab (tick_if (sym_key ` set rest)) (map_tab ?F tp))"
    using Cons.prems(4,5,7) s2(3) sub t1 i2 by (intro Cons.IH) (auto simp: dels1_def)
  then obtain s' where s': "timeout_scan (Some x) s2 sd (head_of rest) dels1 = Some (s', dels1 @ map key_of (filter expired rest))" "sym_inv sc s'"
    "sym_tab s' = (sym_tab s)(sd \<mapsto> map_tab (tick_if (sym_key ` set rest)) (map_tab ?F tp))" using i2(2) s1(3) by auto
  have "map_tab (tick_if (sym_key ` set rest)) (map_tab ?F tp) = map_tab (tick_if (sym_key ` set (p # rest))) tp"
    unfolding map_tab_comp
  proof (rule map_tab_cong)
    fix q assume q: "q \<in> set (entries tp)"
    have "name q = name p \<longleftrightarrow> q = p" "sym_key q = sym_key p \<longleftrightarrow> q = p" using entry_unique[OF it q p(1)] by auto
    then show "tick_if (sym_key ` set rest) (?F q) = tick_if (sym_key ` set (p # rest)) q"
      using Cons.prems(4) by (auto simp: tick_if_def ticked_def)
  qed
  moreover have "length dels < MAX_COUNT_FOR_DELETE_ITEM" using Cons.prems(7) by simp
  then have "timeout_scan (Some x) s sd (Some p) dels = timeout_scan (Some x) s2 sd (head_of rest) dels1"
    using entry_okD[OF p(2)] s1(1) s2(1) by (simp add: timeout_scan.simps[of _ s] dels1_def expired_def)
  ultimately show ?case using s' by (auto simp: dels1_def fun_upd_def)
qed


section \<open>Sessions as a map\<close>

definition sess_tab :: "sess_state \<Rightarrow> sym_tabent option" where
  "sess_tab st = sym_tab (symtab st) (g_sessionsTable st)"

text \<open>At most as many sessions as one scan can remove.\<close>

definition sess_inv :: "bool \<Rightarrow> sess_state \<Rightarrow> bool" where
  "sess_inv sc st \<longleftrightarrow> sym_inv sc (symtab st) \<and> g_sessionsTable st \<noteq> INVALID_SYM_FD \<and>
     (\<exists>tp. sess_tab st = Some tp \<and> (\<forall>q\<in>set (entries tp). entry_ok q) \<and> length (entries tp) \<le> MAX_COUNT_FOR_DELETE_ITEM)"

text \<open>The number and the failure count of a client.\<close>

definition sess_of :: "bool \<Rightarrow> sess_state \<Rightarrow> cstring \<Rightarrow> (int \<times> int) option" where
  "sess_of sc st k = (case sess_lookup sc st k of Some (Some sp) \<Rightarrow> Some (int_of sp, arg sp) | _ \<Rightarrow> None)"

lemma sess_lookup_tab: "sess_tab st = Some tp \<Longrightarrow> sess_lookup sc st k = tab_lookup sc tp k"
  by (simp add: sess_lookup_def sess_tab_def symLookup_tab)

lemma sess_lookup_total:
  assumes "sess_inv sc st"
  shows "\<exists>r. sess_lookup sc st k = Some r \<and> (\<forall>sp. r = Some sp \<longrightarrow> entry_ok sp \<and> sym_key sp = Some k)"
proof -
  obtain tp where tp: "sess_tab st = Some tp" "\<forall>q\<in>set (entries tp). entry_ok q" "tab_inv sc tp"
    using assms by (auto simp: sess_inv_def sess_tab_def sym_inv_def sym_tab_def)
  show ?thesis
  proof (cases "k = []")
    case False
    obtain r where "tab_lookup sc tp k = Some r" using tab_lookup_find[OF tp(3) False] by blast
    then show ?thesis using tab_lookup_entry(1)[OF tp(3) False] tp(1,2) by (auto simp: sess_lookup_tab)
  qed (simp add: sess_lookup_tab[OF tp(1)])
qed

lemma sess_of_Some:
  assumes "sess_inv sc st"
  shows "sess_of sc st k = Some (i, a) \<longleftrightarrow> (\<exists>sp. sess_lookup sc st k = Some (Some sp) \<and> sym_int sp = Some i \<and> arg sp = a)"
    and "sess_of sc st k = None \<longleftrightarrow> sess_lookup sc st k = Some None"
proof -
  obtain r where r: "sess_lookup sc st k = Some r" "\<forall>sp. r = Some sp \<longrightarrow> entry_ok sp" using sess_lookup_total[OF assms] by blast
  then show "sess_of sc st k = Some (i, a) \<longleftrightarrow> (\<exists>sp. sess_lookup sc st k = Some (Some sp) \<and> sym_int sp = Some i \<and> arg sp = a)"
    using entry_okD(1) by (cases r) (auto simp: sess_of_def)
  show "sess_of sc st k = None \<longleftrightarrow> sess_lookup sc st k = Some None" using r by (cases r) (auto simp: sess_of_def)
qed

lemma sess_delete_spec:
  assumes i: "sess_inv sc st" and k: "k \<noteq> []"
  shows "\<exists>st'. sess_delete sc st k = Some (st', if sess_of sc st k = None then -1 else 0) \<and> sess_inv sc st' \<and>
     sess_of sc st' = (sess_of sc st)(k := None) \<and> login_timer st' = login_timer st \<and> g_sessionsTable st' = g_sessionsTable st"
proof -
  obtain tp where tp: "sess_tab st = Some tp" "\<forall>q\<in>set (entries tp). entry_ok q" "length (entries tp) \<le> MAX_COUNT_FOR_DELETE_ITEM"
    "sym_inv sc (symtab st)" "tab_inv sc tp" using i by (auto simp: sess_inv_def sess_tab_def sym_inv_def sym_tab_def)
  obtain tp' rc where d: "tab_delete sc tp k = Some (tp', rc)" "tab_inv sc tp'" "rc = (if tab_lookup sc tp k = Some None then -1 else 0)"
    "\<forall>j. j \<noteq> [] \<longrightarrow> tab_lookup sc tp' j = (if j = k then Some None else tab_lookup sc tp j)" using tab_delete_spec[OF tp(5) k] by blast
  define st' where "st' = st\<lparr>symtab := (symtab st)\<lparr>sym := h_store (sym (symtab st)) (g_sessionsTable st) tp'\<rparr>\<rparr>"
  have r: "sess_delete sc st k = Some (st', rc)"
    using d(1) tp(1) by (simp add: sess_delete_def symDelete_def sess_tab_def sym_tab_def st'_def)
  have s: "sym_inv sc (symtab st')" "sess_tab st' = Some tp'"
    using sym_inv_store[OF tp(4) _ d(2), of "g_sessionsTable st" tp] tp(1) by (simp_all add: st'_def sess_tab_def)
  have "sess_inv sc st'" using i s tab_delete_entries[OF tp(5) d(1)] tp(2,3) by (auto simp: sess_inv_def st'_def)
  moreover have "sess_of sc st' j = ((sess_of sc st)(k := None)) j" for j
    using d(4) k by (cases "j = []") (auto simp: sess_of_def sess_lookup_tab[OF s(2)] sess_lookup_tab[OF tp(1)])
  moreover have "rc = (if sess_of sc st k = None then -1 else 0)"
    using d(3) sess_of_Some(2)[OF i, of k] by (simp add: sess_lookup_tab[OF tp(1)])
  ultimately show ?thesis using r by (intro exI[of _ st']) (auto simp: st'_def)
qed

lemma sess_delete_all_spec:
  "sess_inv sc st \<Longrightarrow> \<forall>n\<in>set ns. n \<noteq> [] \<Longrightarrow> \<exists>st'. sess_delete_all sc st ns = Some st' \<and> sess_inv sc st' \<and>
     sess_of sc st' = (\<lambda>k. if k \<in> set ns then None else sess_of sc st k) \<and> login_timer st' = login_timer st \<and> g_sessionsTable st' = g_sessionsTable st"
proof (induction ns arbitrary: st)
  case Nil
  then show ?case by simp
next
  case (Cons n ns)
  obtain st1 rc where s1: "sess_delete sc st n = Some (st1, rc)" "sess_inv sc st1" "sess_of sc st1 = (sess_of sc st)(n := None)"
    "login_timer st1 = login_timer st" "g_sessionsTable st1 = g_sessionsTable st" using sess_delete_spec[OF Cons.prems(1), of n] Cons.prems(2) by auto
  obtain st' where "sess_delete_all sc st1 ns = Some st'" "sess_inv sc st'" "sess_of sc st' = (\<lambda>k. if k \<in> set ns then None else sess_of sc st1 k)"
    "login_timer st' = login_timer st1" "g_sessionsTable st' = g_sessionsTable st1" using Cons.IH[OF s1(2)] Cons.prems(2) by auto
  then show ?case using s1 by (intro exI[of _ st']) (auto simp: fun_eq_iff)
qed

text \<open>A traversal starts with all the entries before it.\<close>

lemma symFirst_entries:
  assumes "sym_inv sc s" "sym_tab s sd = Some tp"
  shows "\<exists>s'. symFirst (Some x) s sd = Some (s', head_of (entries tp)) \<and> sym_inv sc s' \<and> sym_tab s' = sym_tab s \<and>
     (entries tp \<noteq> [] \<longrightarrow> sym_cursor tp s' \<and> sym_todo tp s' = tl (entries tp))"
  using symFirst_over[OF assms, of x] assms(1) by (auto simp: entries_def sym_inv_def sym_tab_def fun_eq_iff)

lemma filter_keys:
  assumes i: "sess_inv sc st" and t: "sess_tab st = Some tp"
  shows "set (map key_of (filter (\<lambda>q. R (int_of q)) (entries tp))) = {k. \<exists>n a. sess_of sc st k = Some (n, a) \<and> R n}"
proof -
  have tp: "\<forall>q\<in>set (entries tp). entry_ok q" "tab_inv sc tp" using i t by (auto simp: sess_inv_def sess_tab_def sym_inv_def sym_tab_def)
  have "k \<in> key_of ` {q \<in> set (entries tp). R (int_of q)} \<longleftrightarrow> (\<exists>q. tab_lookup sc tp k = Some (Some q) \<and> R (int_of q))" for k
  proof (cases "k = []")
    case True
    have "k \<notin> key_of ` set (entries tp)" using tp(1) entry_okD(4) True by fastforce
    then show ?thesis using True by auto
  next
    case False
    have "q \<in> set (entries tp) \<Longrightarrow> key_of q = k \<longleftrightarrow> sym_key q = Some k" for q using tp(1) entry_okD(2) by auto
    then show ?thesis using tab_lookup_entry(1)[OF tp(2) False] by auto
  qed
  then have "set (map key_of (filter (\<lambda>q. R (int_of q)) (entries tp))) = {k. \<exists>q. tab_lookup sc tp k = Some (Some q) \<and> R (int_of q)}" by auto
  moreover have "(\<exists>q. tab_lookup sc tp k = Some (Some q) \<and> R (int_of q)) \<longleftrightarrow> (\<exists>n a. sess_of sc st k = Some (n, a) \<and> R n)" for k
    by (auto simp: sess_of_def sess_lookup_tab[OF t] split: option.splits)
  ultimately show ?thesis by simp
qed

lemma timeout_spec:
  assumes i: "sess_inv sc st"
  shows "\<exists>st'. EGOSM_processSessionTimeOut (Some x) sc st = Some st' \<and> sess_inv sc st' \<and>
     (\<forall>k. sess_of sc st' k = (case sess_of sc st k of None \<Rightarrow> None
        | Some (n, a) \<Rightarrow> if n div 256 mod 256 + 1 < SESSION_TIMEOUT_COUNT then Some (sess_tick n, a) else None))"
proof -
  obtain tp where tp: "sess_tab st = Some tp" "\<forall>q\<in>set (entries tp). entry_ok q" "length (entries tp) \<le> MAX_COUNT_FOR_DELETE_ITEM"
    "sym_inv sc (symtab st)" "tab_inv sc tp" "sym_tab (symtab st) (g_sessionsTable st) = Some tp"
    using i by (auto simp: sess_inv_def sess_tab_def sym_inv_def sym_tab_def)
  let ?sd = "g_sessionsTable st" and ?dels = "map key_of (filter expired (entries tp))"
  obtain s1 where s1: "symFirst (Some x) (symtab st) ?sd = Some (s1, head_of (entries tp))" "sym_inv sc s1" "sym_tab s1 = sym_tab (symtab st)"
    "entries tp \<noteq> [] \<longrightarrow> sym_cursor tp s1 \<and> sym_todo tp s1 = tl (entries tp)" using symFirst_entries[OF tp(4,6), of x] by blast
  have t1: "sym_tab s1 ?sd = Some tp" using s1(3) tp(6) by simp
  obtain s2 where s2: "timeout_scan (Some x) s1 ?sd (head_of (entries tp)) [] = Some (s2, ?dels)" "sym_inv sc s2"
    "sym_tab s2 = (sym_tab s1)(?sd \<mapsto> map_tab (tick_if (sym_key ` set (entries tp))) tp)"
    using timeout_scan_spec[OF s1(2) t1 subset_refl distinct_entries[OF tp(5)] tp(2) s1(4), of "[]" x] tp(3) by auto
  have mt: "map_tab (tick_if (sym_key ` set (entries tp))) tp = map_tab ticked tp" by (rule map_tab_cong) (simp add: tick_if_def)
  define st2 where "st2 = st\<lparr>symtab := s2\<rparr>"
  have tab2: "sess_tab st2 = Some (map_tab ticked tp)" using s2(3) mt by (simp add: st2_def sess_tab_def)
  have "entry_ok (ticked q)" if "entry_ok q" for q using that by (auto simp: entry_ok_def ticked_def)
  then have i2: "sess_inv sc st2" using tab2 s2(2) tp(2,3) i by (auto simp: sess_inv_def st2_def)
  have of2: "sess_of sc st2 k = map_option (\<lambda>(n, a). (sess_tick n, a)) (sess_of sc st k)" for k
    unfolding sess_of_def sess_lookup_tab[OF tab2] sess_lookup_tab[OF tp(1)] using tab_lookup_map[of ticked, OF _ tp(5), of k]
    by (auto simp: ticked_def split: option.splits)
  have "\<forall>n\<in>set ?dels. n \<noteq> []" using tp(2) entry_okD(4) by auto
  then obtain st3 where st3: "sess_delete_all sc st2 ?dels = Some st3" "sess_inv sc st3"
    "sess_of sc st3 = (\<lambda>k. if k \<in> set ?dels then None else sess_of sc st2 k)" using sess_delete_all_spec[OF i2] by blast
  have "set ?dels = {k. \<exists>n a. sess_of sc st k = Some (n, a) \<and> SESSION_TIMEOUT_COUNT \<le> n div 256 mod 256 + 1}"
    using filter_keys[OF i tp(1), of "\<lambda>n. SESSION_TIMEOUT_COUNT \<le> n div 256 mod 256 + 1"] by (simp add: expired_def[abs_def])
  then have fin: "sess_of sc st3 k = (case sess_of sc st k of None \<Rightarrow> None
        | Some (n, a) \<Rightarrow> if n div 256 mod 256 + 1 < SESSION_TIMEOUT_COUNT then Some (sess_tick n, a) else None)" for k
    unfolding st3(3) of2 by (cases "sess_of sc st k") auto
  define st4 where "st4 = (if ?dels = [] then st3 else set_timer_clean st3)"
  have "EGOSM_processSessionTimeOut (Some x) sc st = Some st4"
    using i s1(1) s2(1) st3(1) by (simp add: EGOSM_processSessionTimeOut_def sess_inv_def st2_def st4_def)
  moreover have "sess_inv sc st4" "sess_of sc st4 = sess_of sc st3"
    using st3(2) by (auto simp: st4_def set_timer_clean_def sess_inv_def sess_tab_def sess_of_def sess_lookup_def)
  ultimately show ?thesis using fin by auto
qed


section \<open>Logging in and out\<close>

lemma tab_enter_entries:
  assumes i: "tab_inv sc tp" and e: "tab_enter sc True True tp nm v a = Some (tp', Some sp)"
  shows "set (entries tp') \<subseteq> insert sp (set (entries tp))"
    and "length (entries tp') \<le> length (entries tp) + (if \<exists>q\<in>set (entries tp). sym_key q = Some nm then 0 else 1)"
proof -
  obtain pre post where r: "chain_find (bucket sc tp nm) nm = Some (pre, post)" "bucket sc tp nm = pre @ post"
    "post \<noteq> [] \<longrightarrow> sym_key (hd post) = Some nm" "\<forall>sp\<in>set pre. sym_key sp \<noteq> Some nm"
    using bucket_split[OF i, of nm] by metis
  let ?h = "nat (hashIndex sc tp nm)"
  have h: "?h < length (hash_table tp)" by (rule tab_inv_index(1)[OF i])
  have tp': "hash_table tp' = (hash_table tp)[?h := pre @ sp # tl post]"
    using e r(1) tab_inv_index(2)[OF i, of nm] by (auto simp: tab_enter_def Let_def bind_eq_Some_conv split: list.splits)
  have t: "hash_table tp = take ?h (hash_table tp) @ (pre @ post) # drop (Suc ?h) (hash_table tp)"
    using id_take_nth_drop[OF h] r(2) by simp
  have u: "(hash_table tp)[?h := pre @ sp # tl post] = take ?h (hash_table tp) @ (pre @ sp # tl post) # drop (Suc ?h) (hash_table tp)"
    by (rule upd_conv_take_nth_drop[OF h])
  have st: "set (tl post) \<subseteq> set post" by (cases post) auto
  show "set (entries tp') \<subseteq> insert sp (set (entries tp))"
    unfolding entries_def tp' u using st by (subst (3) t) auto
  have "length (entries tp') + length post = length (entries tp) + Suc (length (tl post))"
    unfolding entries_def tp' u by (subst (3) t) simp
  moreover have "post \<noteq> []" if "q \<in> set (entries tp)" "sym_key q = Some nm" for q
    using entry_bucket[OF i that(1)] that(2) r(2,4) by auto
  ultimately show "length (entries tp') \<le> length (entries tp) + (if \<exists>q\<in>set (entries tp). sym_key q = Some nm then 0 else 1)"
    by (cases post) auto
qed

text \<open>There is room for a session of the client.\<close>

definition sess_room :: "bool \<Rightarrow> sess_state \<Rightarrow> cstring \<Rightarrow> bool" where
  "sess_room sc st k \<longleftrightarrow> k \<noteq> [] \<and> length k < MAX_LENGTH_OF_ITEMNAME \<and>
     (sess_of sc st k \<noteq> None \<or> (\<exists>tp. sess_tab st = Some tp \<and> length (entries tp) < MAX_COUNT_FOR_DELETE_ITEM))"

lemma sess_enter_spec:
  assumes i: "sess_inv sc st" and k: "sess_room sc st k"
  shows "\<exists>st'. sess_enter sc True True st k n a = Some st' \<and> sess_inv sc st' \<and> sess_of sc st' = (sess_of sc st)(k \<mapsto> (n, a)) \<and>
     login_timer st' = login_timer st \<and> g_sessionsTable st' = g_sessionsTable st"
proof -
  obtain tp where tp: "sess_tab st = Some tp" "\<forall>q\<in>set (entries tp). entry_ok q" "length (entries tp) \<le> MAX_COUNT_FOR_DELETE_ITEM"
    "sym_inv sc (symtab st)" "tab_inv sc tp" using i by (auto simp: sess_inv_def sess_tab_def sym_inv_def sym_tab_def)
  have kn: "k \<noteq> []" "length k < MAX_LENGTH_OF_ITEMNAME" using k by (simp_all add: sess_room_def)
  obtain tp' sp where e: "tab_enter sc True True tp k (valueInteger n) a = Some (tp', Some sp)" "tab_inv sc tp'" "sym_key sp = Some k"
    "content sp = valueInteger n" "arg sp = a"
    "\<forall>j. j \<noteq> [] \<longrightarrow> tab_lookup sc tp' j = (if j = k then Some (Some sp) else tab_lookup sc tp j)"
    using tab_enter_spec[OF tp(5), of k "valueInteger n" a] by blast
  have si: "sym_int sp = Some n" using e(4) by (simp add: sym_int_def valueInteger_def)
  define st' where "st' = st\<lparr>symtab := (symtab st)\<lparr>sym := h_store (sym (symtab st)) (g_sessionsTable st) tp'\<rparr>\<rparr>"
  have r: "sess_enter sc True True st k n a = Some st'"
    using e(1) tp(1) by (simp add: sess_enter_def symEnter_def sess_tab_def sym_tab_def st'_def)
  have s: "sym_inv sc (symtab st')" "sess_tab st' = Some tp'"
    using sym_inv_store[OF tp(4) _ e(2), of "g_sessionsTable st" tp] tp(1) by (simp_all add: st'_def sess_tab_def)
  have ok: "\<forall>q\<in>set (entries tp'). entry_ok q"
    using tab_enter_entries(1)[OF tp(5) e(1)] tp(2) e(3) si kn by (auto simp: entry_ok_def)
  have "length (entries tp') \<le> MAX_COUNT_FOR_DELETE_ITEM"
  proof (cases "\<exists>q\<in>set (entries tp). sym_key q = Some k")
    case True
    then show ?thesis using tab_enter_entries(2)[OF tp(5) e(1)] tp(3) by simp
  next
    case False
    then have "sess_lookup sc st k = Some None" using tab_lookup_entry(2)[OF tp(5) kn(1)] by (auto simp: sess_lookup_tab[OF tp(1)])
    then have "sess_of sc st k = None" by (simp add: sess_of_def)
    then show ?thesis using tab_enter_entries(2)[OF tp(5) e(1)] False k tp(1) by (auto simp: sess_room_def)
  qed
  then have "sess_inv sc st'" using i s ok by (auto simp: sess_inv_def st'_def)
  moreover have "sess_of sc st' j = ((sess_of sc st)(k \<mapsto> (n, a))) j" for j
    using e(5,6) kn(1) si by (cases "j = []") (auto simp: sess_of_def sess_lookup_tab[OF s(2)] sess_lookup_tab[OF tp(1)] int_of_def)
  ultimately show ?thesis using r by (intro exI[of _ st']) (auto simp: st'_def)
qed

lemma collect_logins_spec:
  "sym_inv sc s \<Longrightarrow> sym_tab s sd = Some tp \<Longrightarrow> \<forall>q\<in>set rest. entry_ok q \<Longrightarrow>
   (rest \<noteq> [] \<longrightarrow> sym_cursor tp s \<and> sym_todo tp s = tl rest) \<Longrightarrow> length dels + length rest \<le> MAX_COUNT_FOR_DELETE_ITEM \<Longrightarrow>
   \<exists>s'. collect_logins (Some x) s sd (head_of rest) dels =
       Some (s', dels @ map key_of (filter (\<lambda>q. int_of q mod 256 = SESSIONID_FOR_LOGIN_SUCCESS) rest)) \<and> sym_inv sc s' \<and> sym_tab s' = sym_tab s"
proof (induction rest arbitrary: s dels)
  case Nil
  then show ?case by (auto simp: collect_logins.simps[of _ _ _ None])
next
  case (Cons p rest)
  have p: "entry_ok p" using Cons.prems(3) by simp
  have cur: "sym_cursor tp s" "sym_todo tp s = rest" using Cons.prems(4) by auto
  obtain s2 where s2: "symNext (Some x) s sd = Some (s2, head_of rest)" "sym s2 = sym s"
    "rest \<noteq> [] \<longrightarrow> sym_cursor tp s2 \<and> sym_todo tp s2 = tl rest"
    using symNext_over[OF Cons.prems(1,2) cur(1), of x] cur(2) by auto
  have i2: "sym_inv sc s2" "sym_tab s2 = sym_tab s" using Cons.prems(1) s2(2) by (auto simp: sym_inv_def sym_tab_def fun_eq_iff)
  define dels1 where "dels1 = (if int_of p mod 256 = SESSIONID_FOR_LOGIN_SUCCESS then dels @ [key_of p] else dels)"
  have l: "length dels1 + length rest \<le> MAX_COUNT_FOR_DELETE_ITEM" using Cons.prems(5) by (simp add: dels1_def)
  have t2: "sym_tab s2 sd = Some tp" "\<forall>q\<in>set rest. entry_ok q" using i2(2) Cons.prems(2,3) by auto
  obtain s' where "collect_logins (Some x) s2 sd (head_of rest) dels1 =
      Some (s', dels1 @ map key_of (filter (\<lambda>q. int_of q mod 256 = SESSIONID_FOR_LOGIN_SUCCESS) rest))" "sym_inv sc s'" "sym_tab s' = sym_tab s"
    using Cons.IH[OF i2(1) t2 s2(3) l] i2(2) by auto
  moreover have "collect_logins (Some x) s sd (Some p) dels = collect_logins (Some x) s2 sd (head_of rest) dels1"
    using Cons.prems(5) entry_okD[OF p] s2(1) by (simp add: collect_logins.simps[of _ s] dels1_def)
  ultimately show ?case by (auto simp: dels1_def)
qed

text \<open>What the queries say of a client's symbol.\<close>

definition login_id :: "(int \<times> int) option \<Rightarrow> int" where
  "login_id e =
     (case e of
        None \<Rightarrow> SESSIONID_FOR_LOGOUT
      | Some (n, _) \<Rightarrow>
          if n mod 256 = SESSIONID_FOR_LOGIN_FAILED then SESSIONID_FOR_LOGIN_FAILED
          else if n mod 256 = SESSIONID_FOR_HAS_LOGIN then SESSIONID_FOR_HAS_LOGIN
          else SESSIONID_FOR_LOGIN_SUCCESS)"

lemma EGOSM_getters:
  assumes i: "sess_inv sc st"
  shows "EGOSM_getSessionID sc st wp = Some (login_id (sess_of sc st (SM_getSessionKey wp)))"
    and "EGOSM_getLoginFailCnt sc st wp = Some (case sess_of sc st (SM_getSessionKey wp) of Some (_, a) \<Rightarrow> a | None \<Rightarrow> 0)"
proof -
  have g: "g_sessionsTable st \<noteq> INVALID_SYM_FD" using i by (simp add: sess_inv_def)
  obtain r where r: "sess_lookup sc st (SM_getSessionKey wp) = Some r" "\<forall>sp. r = Some sp \<longrightarrow> entry_ok sp"
    using sess_lookup_total[OF i] by blast
  show "EGOSM_getSessionID sc st wp = Some (login_id (sess_of sc st (SM_getSessionKey wp)))"
    using g r entry_okD(1) by (cases r) (auto simp: EGOSM_getSessionID_def login_id_def sess_of_def)
  show "EGOSM_getLoginFailCnt sc st wp = Some (case sess_of sc st (SM_getSessionKey wp) of Some (_, a) \<Rightarrow> a | None \<Rightarrow> 0)"
    using g r by (cases r) (auto simp: EGOSM_getLoginFailCnt_def sess_of_def)
qed

lemma EGOSM_isUserLogined_spec:
  assumes i: "sess_inv sc st"
  shows "\<exists>st'. EGOSM_isUserLogined sc st wp =
       Some (st', if login_id (sess_of sc st (SM_getSessionKey wp)) = SESSIONID_FOR_LOGIN_SUCCESS then 1 else 0) \<and> sess_inv sc st' \<and>
     sess_of sc st' = (if login_id (sess_of sc st (SM_getSessionKey wp)) = SESSIONID_FOR_LOGIN_SUCCESS then sess_of sc st
                       else (sess_of sc st)(SM_getSessionKey wp := None))"
proof -
  let ?k = "SM_getSessionKey wp"
  have g: "g_sessionsTable st \<noteq> INVALID_SYM_FD" using i by (simp add: sess_inv_def)
  obtain r where r: "sess_lookup sc st ?k = Some r" "\<forall>sp. r = Some sp \<longrightarrow> entry_ok sp" using sess_lookup_total[OF i] by blast
  obtain st1 rc where d: "sess_delete sc st ?k = Some (st1, rc)" "sess_inv sc st1" "sess_of sc st1 = (sess_of sc st)(?k := None)"
    using sess_delete_spec[OF i, of ?k] by (auto simp: SM_getSessionKey_def)
  show ?thesis
  proof (cases r)
    case None
    then have "sess_of sc st ?k = None" using r(1) by (simp add: sess_of_def)
    then show ?thesis using None g r(1) i by (auto simp: EGOSM_isUserLogined_def login_id_def sess_consts fun_upd_idem)
  next
    case (Some sp)
    then have "sess_of sc st ?k = Some (int_of sp, arg sp)" "sym_int sp = Some (int_of sp)" using r entry_okD(1) by (auto simp: sess_of_def)
    then show ?thesis using Some g r(1) i d by (auto simp: EGOSM_isUserLogined_def login_id_def sess_consts)
  qed
qed

lemma EGOSM_resetSessionHeartbeat_spec:
  assumes i: "sess_inv sc st" and k: "sess_of sc st (SM_getSessionKey wp) = Some (n, a)"
  shows "\<exists>st'. EGOSM_resetSessionHeartbeat sc st wp = Some (st', 1) \<and> sess_inv sc st' \<and>
     sess_of sc st' = (sess_of sc st)(SM_getSessionKey wp \<mapsto> (SESSIONID_FOR_LOGIN_SUCCESS, a))"
proof -
  let ?k = "SM_getSessionKey wp"
  obtain tp where tp: "sess_tab st = Some tp" "\<forall>q\<in>set (entries tp). entry_ok q" "length (entries tp) \<le> MAX_COUNT_FOR_DELETE_ITEM"
    "sym_inv sc (symtab st)" "tab_inv sc tp" "sym_tab (symtab st) (g_sessionsTable st) = Some tp" "g_sessionsTable st \<noteq> INVALID_SYM_FD"
    using i by (auto simp: sess_inv_def sess_tab_def sym_inv_def sym_tab_def)
  have kn: "?k \<noteq> []" by (simp add: SM_getSessionKey_def)
  obtain sp where sp: "sess_lookup sc st ?k = Some (Some sp)" "arg sp = a" using k sess_of_Some(1)[OF i] by blast
  then have se: "sp \<in> set (entries tp)" "sym_key sp = Some ?k" using tab_lookup_entry(1)[OF tp(5) kn] by (auto simp: sess_lookup_tab[OF tp(1)])
  let ?F = "\<lambda>q. if name q = name sp then with_int SESSIONID_FOR_LOGIN_SUCCESS q else q"
  obtain s1 where s1: "sym_set_int (symtab st) (g_sessionsTable st) sp SESSIONID_FOR_LOGIN_SUCCESS = Some s1" "sym_inv sc s1"
    "sym_tab s1 = (sym_tab (symtab st))(g_sessionsTable st \<mapsto> map_tab ?F tp)" using sym_set_int_spec[OF tp(4,6), of sp] by blast
  define st' where "st' = st\<lparr>symtab := s1\<rparr>"
  have t': "sess_tab st' = Some (map_tab ?F tp)" using s1(3) by (simp add: st'_def sess_tab_def)
  have "sess_inv sc st'" using t' s1(2) tp(2,3,7) by (auto simp: sess_inv_def st'_def)
  moreover have "sess_of sc st' j = ((sess_of sc st)(?k \<mapsto> (SESSIONID_FOR_LOGIN_SUCCESS, a))) j" for j
  proof -
    have l: "sess_lookup sc st' j = map_option (map_option ?F) (sess_lookup sc st j)"
      unfolding sess_lookup_tab[OF t'] sess_lookup_tab[OF tp(1)] by (rule tab_lookup_map[OF _ tp(5)]) simp
    show ?thesis
    proof (cases "j = ?k")
      case True
      then show ?thesis using l sp by (simp add: sess_of_def)
    next
      case False
      have "name q \<noteq> name sp" if "sess_lookup sc st j = Some (Some q)" for q
        using that sess_lookup_total[OF i, of j] se(2) False by auto
      then show ?thesis using l False by (auto simp: sess_of_def split: option.splits)
    qed
  qed
  moreover have "EGOSM_resetSessionHeartbeat sc st wp = Some (st', 1)"
    using tp(7) sp(1) s1(1) by (simp add: EGOSM_resetSessionHeartbeat_def st'_def)
  ultimately show ?thesis by (intro exI[of _ st']) (auto simp: fun_eq_iff)
qed

text \<open>Room depends on the clients only.\<close>

lemma sess_count:
  assumes i: "sess_inv sc st" and t: "sess_tab st = Some tp"
  shows "length (entries tp) = card (dom (sess_of sc st))"
proof -
  have tp: "\<forall>q\<in>set (entries tp). entry_ok q" "tab_inv sc tp" using i t by (auto simp: sess_inv_def sess_tab_def sym_inv_def sym_tab_def)
  have "map sym_key (entries tp) = map Some (map key_of (entries tp))" using tp(1) entry_okD(2) by auto
  then have "distinct (map Some (map key_of (entries tp)))" using distinct_entries[OF tp(2)] by metis
  then have "distinct (map key_of (entries tp))" by (simp only: distinct_map)
  then have "length (entries tp) = card (set (map key_of (entries tp)))" by (metis distinct_card length_map)
  also have "set (map key_of (entries tp)) = dom (sess_of sc st)" using filter_keys[OF i t, of "\<lambda>_. True"] by auto
  finally show ?thesis .
qed

lemma sess_room_iff:
  assumes "sess_inv sc st"
  shows "sess_room sc st k \<longleftrightarrow> k \<noteq> [] \<and> length k < MAX_LENGTH_OF_ITEMNAME \<and>
     (sess_of sc st k \<noteq> None \<or> card (dom (sess_of sc st)) < MAX_COUNT_FOR_DELETE_ITEM)"
proof -
  obtain tp where "sess_tab st = Some tp" using assms by (auto simp: sess_inv_def)
  then show ?thesis using sess_count[OF assms] by (auto simp: sess_room_def)
qed

lemma sess_finite:
  assumes "sess_inv sc st"
  shows "finite (dom (sess_of sc st))" "card (dom (sess_of sc st)) \<le> MAX_COUNT_FOR_DELETE_ITEM"
proof -
  obtain tp where tp: "sess_tab st = Some tp" "length (entries tp) \<le> MAX_COUNT_FOR_DELETE_ITEM" using assms by (auto simp: sess_inv_def)
  have "dom (sess_of sc st) = set (map key_of (filter (\<lambda>q. True) (entries tp)))" using filter_keys[OF assms tp(1), of "\<lambda>_. True"] by auto
  then show "finite (dom (sess_of sc st))" by simp
  show "card (dom (sess_of sc st)) \<le> MAX_COUNT_FOR_DELETE_ITEM" using sess_count[OF assms tp(1)] tp(2) by simp
qed

lemma sess_room_sub:
  assumes i: "sess_inv sc st" "sess_inv sc st'" and s: "dom (sess_of sc st') \<subseteq> dom (sess_of sc st)" and r: "sess_room sc st k"
  shows "sess_room sc st' k"
proof (cases "k \<in> dom (sess_of sc st) - dom (sess_of sc st')")
  case True
  then have "dom (sess_of sc st') \<subset> dom (sess_of sc st)" using s by auto
  then have "card (dom (sess_of sc st')) < card (dom (sess_of sc st))" by (rule psubset_card_mono[OF sess_finite(1)[OF i(1)]])
  then show ?thesis using r sess_finite(2)[OF i(1)] by (auto simp: sess_room_iff[OF i(1)] sess_room_iff[OF i(2)])
next
  case False
  have "card (dom (sess_of sc st')) \<le> card (dom (sess_of sc st))" by (rule card_mono[OF sess_finite(1)[OF i(1)] s])
  then show ?thesis using r False by (auto simp: sess_room_iff[OF i(1)] sess_room_iff[OF i(2)])
qed

text \<open>The sessions a forced login leaves.\<close>

definition without_logins :: "(cstring \<Rightarrow> (int \<times> int) option) \<Rightarrow> cstring \<Rightarrow> (int \<times> int) option" where
  "without_logins m k = (case m k of None \<Rightarrow> None | Some (n, a) \<Rightarrow> if n mod 256 = SESSIONID_FOR_LOGIN_SUCCESS then None else Some (n, a))"

lemma remove_logins:
  assumes i: "sess_inv sc st"
  shows "\<exists>s1 sp s2 dels st'. symFirst (Some x) (symtab st) (g_sessionsTable st) = Some (s1, sp) \<and>
     collect_logins (Some x) s1 (g_sessionsTable st) sp [] = Some (s2, dels) \<and> sess_delete_all sc (st\<lparr>symtab := s2\<rparr>) dels = Some st' \<and>
     sess_inv sc st' \<and> sess_of sc st' = without_logins (sess_of sc st) \<and> login_timer st' = login_timer st \<and> g_sessionsTable st' = g_sessionsTable st"
proof -
  obtain tp where tp: "sess_tab st = Some tp" "\<forall>q\<in>set (entries tp). entry_ok q" "length (entries tp) \<le> MAX_COUNT_FOR_DELETE_ITEM"
    "sym_inv sc (symtab st)" "sym_tab (symtab st) (g_sessionsTable st) = Some tp" "g_sessionsTable st \<noteq> INVALID_SYM_FD"
    using i by (auto simp: sess_inv_def sess_tab_def sym_inv_def sym_tab_def)
  let ?sd = "g_sessionsTable st" and ?dels = "map key_of (filter (\<lambda>q. int_of q mod 256 = SESSIONID_FOR_LOGIN_SUCCESS) (entries tp))"
  obtain s1 where s1: "symFirst (Some x) (symtab st) ?sd = Some (s1, head_of (entries tp))" "sym_inv sc s1" "sym_tab s1 = sym_tab (symtab st)"
    "entries tp \<noteq> [] \<longrightarrow> sym_cursor tp s1 \<and> sym_todo tp s1 = tl (entries tp)" using symFirst_entries[OF tp(4,5), of x] by blast
  have t1: "sym_tab s1 ?sd = Some tp" using s1(3) tp(5) by simp
  obtain s2 where s2: "collect_logins (Some x) s1 ?sd (head_of (entries tp)) [] = Some (s2, ?dels)" "sym_inv sc s2" "sym_tab s2 = sym_tab s1"
    using collect_logins_spec[OF s1(2) t1 tp(2) s1(4), of "[]" x] tp(3) by auto
  define st2 where "st2 = st\<lparr>symtab := s2\<rparr>"
  have t2: "sess_tab st2 = Some tp" using s2(3) s1(3) tp(5) by (simp add: st2_def sess_tab_def)
  have i2: "sess_inv sc st2" using t2 s2(2) tp(2,3,6) by (simp add: sess_inv_def st2_def)
  have of2: "sess_of sc st2 = sess_of sc st" by (simp add: sess_of_def sess_lookup_tab[OF t2] sess_lookup_tab[OF tp(1)] fun_eq_iff)
  have tt: "login_timer st2 = login_timer st" "g_sessionsTable st2 = ?sd" by (simp_all add: st2_def)
  have "\<forall>n\<in>set ?dels. n \<noteq> []" using tp(2) entry_okD(4) by auto
  then obtain st3 where st3: "sess_delete_all sc st2 ?dels = Some st3" "sess_inv sc st3" "login_timer st3 = login_timer st" "g_sessionsTable st3 = ?sd"
    "sess_of sc st3 = (\<lambda>k. if k \<in> set ?dels then None else sess_of sc st2 k)"
    using sess_delete_all_spec[OF i2, of ?dels] unfolding tt by blast
  have "sess_of sc st3 k = without_logins (sess_of sc st) k" for k
    unfolding st3(5) of2 filter_keys[OF i tp(1), of "\<lambda>n. n mod 256 = SESSIONID_FOR_LOGIN_SUCCESS"]
    by (cases "sess_of sc st k") (auto simp: without_logins_def)
  then have "sess_of sc st3 = without_logins (sess_of sc st)" by (simp add: fun_eq_iff)
  then show ?thesis using s1(1) s2(1) st3(1-4) unfolding st2_def by blast
qed

lemma EGOSM_setSessionInfo_spec:
  assumes i: "sess_inv sc st" and r: "sess_room sc st (SM_getSessionKey wp)"
  shows "\<exists>st'. EGOSM_setSessionInfo (Some x) sc True True st wp status = Some st' \<and> sess_inv sc st' \<and>
     login_timer st' = login_timer st \<and> g_sessionsTable st' = g_sessionsTable st \<and>
     sess_of sc st' = ((if status = E_LOGIN_FORCE_LOGIN_SUCCESS then without_logins (sess_of sc st) else sess_of sc st)
       (SM_getSessionKey wp \<mapsto>
         (case status of E_LOGIN_FAIL \<Rightarrow> SESSIONID_FOR_LOGIN_FAILED | E_LOGIN_OTHER_HAS_LOGIN \<Rightarrow> SESSIONID_FOR_HAS_LOGIN
            | _ \<Rightarrow> SESSIONID_FOR_LOGIN_SUCCESS,
          case sess_of sc st (SM_getSessionKey wp) of Some (_, a) \<Rightarrow> a | None \<Rightarrow> 0)))"
proof -
  have g: "g_sessionsTable st \<noteq> INVALID_SYM_FD" using i by (simp add: sess_inv_def)
  let ?k = "SM_getSessionKey wp" and ?cnt = "case sess_of sc st (SM_getSessionKey wp) of Some (_, a) \<Rightarrow> a | None \<Rightarrow> 0"
  show ?thesis
  proof (cases "status = E_LOGIN_FORCE_LOGIN_SUCCESS")
    case False
    have "\<exists>st'. sess_enter sc True True st ?k n ?cnt = Some st' \<and> sess_inv sc st' \<and> login_timer st' = login_timer st \<and>
        g_sessionsTable st' = g_sessionsTable st \<and> sess_of sc st' = (sess_of sc st)(?k \<mapsto> (n, ?cnt))" for n
      using sess_enter_spec[OF i r] by blast
    then show ?thesis using False g EGOSM_getters(2)[OF i, of wp] by (cases status) (simp_all add: EGOSM_setSessionInfo_def)
  next
    case True
    obtain s1 sp s2 dels st1 where rm: "symFirst (Some x) (symtab st) (g_sessionsTable st) = Some (s1, sp)"
      "collect_logins (Some x) s1 (g_sessionsTable st) sp [] = Some (s2, dels)" "sess_delete_all sc (st\<lparr>symtab := s2\<rparr>) dels = Some st1"
      "sess_inv sc st1" "sess_of sc st1 = without_logins (sess_of sc st)" "login_timer st1 = login_timer st" "g_sessionsTable st1 = g_sessionsTable st"
      using remove_logins[OF i, of x] by blast
    have "dom (sess_of sc st1) \<subseteq> dom (sess_of sc st)" unfolding rm(5) by (auto simp: without_logins_def split: option.splits)
    then have "sess_room sc st1 ?k" by (rule sess_room_sub[OF i rm(4) _ r])
    then obtain st2 where "sess_enter sc True True st1 ?k SESSIONID_FOR_LOGIN_SUCCESS ?cnt = Some st2" "sess_inv sc st2"
      "sess_of sc st2 = (sess_of sc st1)(?k \<mapsto> (SESSIONID_FOR_LOGIN_SUCCESS, ?cnt))" "login_timer st2 = login_timer st1"
      "g_sessionsTable st2 = g_sessionsTable st1" using sess_enter_spec[OF rm(4)] by blast
    then show ?thesis using True g EGOSM_getters(2)[OF i, of wp] rm by (simp add: EGOSM_setSessionInfo_def)
  qed
qed

section \<open>Timers\<close>

text \<open>\<open>t\<close> calls of the timer, and a client that sends a heartbeat after each of the given numbers of calls.\<close>

fun ticks :: "sym_t list option \<Rightarrow> bool \<Rightarrow> nat \<Rightarrow> sess_state \<Rightarrow> sess_state option" where
  "ticks ov sc 0 st = Some st"
| "ticks ov sc (Suc t) st = do { st1 \<leftarrow> EGOSM_processSessionTimeOut ov sc st; ticks ov sc t st1 }"

fun heartbeats :: "sym_t list option \<Rightarrow> bool \<Rightarrow> webs \<Rightarrow> nat list \<Rightarrow> sess_state \<Rightarrow> sess_state option" where
  "heartbeats ov sc wp [] st = Some st"
| "heartbeats ov sc wp (g # gs) st = do {
     st1 \<leftarrow> ticks ov sc g st;
     (st2, _) \<leftarrow> EGOSM_resetSessionHeartbeat sc st1 wp;
     heartbeats ov sc wp gs st2 }"

text \<open>The number of a client that has missed \<open>m\<close> heartbeats since its login.\<close>

definition missed :: "nat \<Rightarrow> int" where
  "missed m = int m * 256 + SESSIONID_FOR_LOGIN_SUCCESS"

lemma missed_simps [simp]: "missed 0 = SESSIONID_FOR_LOGIN_SUCCESS" "missed m mod 256 = SESSIONID_FOR_LOGIN_SUCCESS" "missed m div 256 = int m"
  by (simp_all add: missed_def sess_consts)

lemma sess_tick_missed: "m < 255 \<Longrightarrow> sess_tick (missed m) = missed (Suc m)"
  by (simp add: sess_tick_def) (simp add: missed_def)

lemma ticks_spec:
  "sess_inv sc st \<Longrightarrow> sess_of sc st k = (if m < 6 then Some (missed m, a) else None) \<Longrightarrow>
   \<exists>st'. ticks (Some x) sc t st = Some st' \<and> sess_inv sc st' \<and> sess_of sc st' k = (if m + t < 6 then Some (missed (m + t), a) else None)"
proof (induction t arbitrary: st m)
  case 0
  then show ?case by simp
next
  case (Suc t)
  obtain st1 where st1: "EGOSM_processSessionTimeOut (Some x) sc st = Some st1" "sess_inv sc st1"
    "\<forall>k. sess_of sc st1 k = (case sess_of sc st k of None \<Rightarrow> None
        | Some (n, a) \<Rightarrow> if n div 256 mod 256 + 1 < SESSION_TIMEOUT_COUNT then Some (sess_tick n, a) else None)"
    using timeout_spec[OF Suc.prems(1), of x] by blast
  have "sess_of sc st1 k = (if Suc m < 6 then Some (missed (Suc m), a) else None)"
    using st1(3) Suc.prems(2) sess_tick_missed[of m] by (auto simp: SESSION_TIMEOUT_COUNT_def)
  then obtain st' where "ticks (Some x) sc t st1 = Some st'" "sess_inv sc st'"
    "sess_of sc st' k = (if Suc m + t < 6 then Some (missed (Suc m + t), a) else None)" using Suc.IH[OF st1(2), of "Suc m"] by blast
  then show ?case using st1(1) by simp
qed

lemma heartbeats_spec:
  "sess_inv sc st \<Longrightarrow> sess_of sc st (SM_getSessionKey wp) = Some (missed 0, a) \<Longrightarrow> \<forall>g\<in>set gs. g < 6 \<Longrightarrow>
   \<exists>st'. heartbeats (Some x) sc wp gs st = Some st' \<and> sess_inv sc st' \<and> sess_of sc st' (SM_getSessionKey wp) = Some (missed 0, a)"
proof (induction gs arbitrary: st)
  case Nil
  then show ?case by simp
next
  case (Cons g gs)
  obtain st1 where st1: "ticks (Some x) sc g st = Some st1" "sess_inv sc st1" "sess_of sc st1 (SM_getSessionKey wp) = Some (missed g, a)"
    using ticks_spec[OF Cons.prems(1), of "SM_getSessionKey wp" 0 a x g] Cons.prems(2,3) by auto
  obtain st2 where "EGOSM_resetSessionHeartbeat sc st1 wp = Some (st2, 1)" "sess_inv sc st2"
    "sess_of sc st2 (SM_getSessionKey wp) = Some (missed 0, a)"
    using EGOSM_resetSessionHeartbeat_spec[OF st1(2,3)] by auto
  then show ?case using Cons.IH[of st2] Cons.prems(3) st1(1) by simp
qed


text \<open>A fresh table.\<close>

lemma EGOSM_Init_spec:
  assumes i: "sym_inv sc (symtab st)" and m: "\<not> refuses m"
  shows "\<exists>st'. EGOSM_Init m True True st = Some st' \<and> sess_inv sc st' \<and> sess_of sc st' = Map.empty"
proof -
  obtain s sd tp where s: "symOpen m True True (symtab st) MAX_COUNT_OF_SESSION = Some (s, sd)" "0 \<le> sd" "sym_inv sc s"
    "sym_tab s sd = Some tp" "concat (hash_table tp) = []" "\<forall>k. symLookup sc s sd (Some k) = Some None"
    using symOpen_spec[OF i, of MAX_COUNT_OF_SESSION m] m by (auto simp: MAX_COUNT_OF_SESSION_def)
  define st' where "st' = st\<lparr>symtab := s, g_sessionsTable := sd\<rparr>"
  have "EGOSM_Init m True True st = Some st'" using s(1) by (simp add: EGOSM_Init_def st'_def)
  moreover have "entries tp = []" using s(5) by (simp add: entries_def)
  then have "sess_inv sc st'" using s(2-4) by (simp add: sess_inv_def st'_def sess_tab_def INVALID_SYM_FD_def)
  moreover have "sess_of sc st' k = None" for k using s(6) by (simp add: sess_of_def sess_lookup_def st'_def)
  ultimately show ?thesis by (auto simp: fun_eq_iff)
qed

text \<open>A server with an empty session table, and one where a client is logged in.\<close>

abbreviation plenty :: balloc_env where
  "plenty \<equiv> \<lambda>_. Some (\<lambda>_. CHR 0x00)"

definition demo_sessions :: sess_state where
  "demo_sessions = \<lparr>symtab = sym_sample, g_sessionsTable = INVALID_SYM_FD, login_timer = True\<rparr>"

definition demo_rival :: webs where
  "demo_rival = demo_request\<lparr>ipaddr := ''10.0.0.3'', userAgent := Some ''Mozilla/5.0 Firefox/99''\<rparr>"

lemma demo_keys: "SM_getSessionKey demo_request = ''10.0.0.2_0''" "SM_getSessionKey demo_rival = ''10.0.0.3_3''"
  by (simp_all add: SM_getSessionKey_def SM_getBrowserType_def demo_request_def demo_rival_def c_has.simps)

lemma demo_sessions_init:
  "\<exists>st. EGOSM_Init plenty True True demo_sessions = Some st \<and> sess_inv sc st \<and> sess_of sc st = Map.empty"
  using EGOSM_Init_spec[of sc demo_sessions plenty] sym_sample_inv(1) by (simp add: demo_sessions_def refuses_def)

lemma demo_room: "sess_inv sc st \<Longrightarrow> card (dom (sess_of sc st)) < 32 \<Longrightarrow> wp \<in> {demo_request, demo_rival} \<Longrightarrow> sess_room sc st (SM_getSessionKey wp)"
  by (auto simp: sess_room_iff demo_keys sess_consts)




end
