(* ===== verification/Security.thy ===== *)
theory Security
  imports Sessions
begin

unbundle bit_operations_syntax

text \<open>
  The access control handler of \<^verbatim>\<open>security.c\<close>, the first handler a request meets: the lists of
  pages, directories and API methods that need no login, the cookie functions, the stored
  password and \<^verbatim>\<open>websSecurityHandler\<close>. The JSON library is not part of the sources: its three
  functions are the record \<open>json_api\<close>, an argument of the handler. The answers written through
  the HTTP core are recorded as \<open>reply\<close> values. The handler ends at its last \<^verbatim>\<open>return 1\<close>; the
  user management and password checks after it cannot be reached.
\<close>

section \<open>State\<close>

record 'j json_api =
  json_tokener_parse :: "cstring option \<Rightarrow> 'j option"
  json_object_object_get :: "'j \<Rightarrow> cstring \<Rightarrow> 'j option"
  json_object_get_string :: "'j \<Rightarrow> cstring"

datatype reply = json_webs_rsp_err int "byte list" | websResponse int cstring

record sec_state =
  sess :: sess_state
  g_sessionids :: "int list"
  g_cSessionPC :: int
  g_freeAccessDirs :: "(cstring \<times> nat) list"
  g_freeAccessPages :: "(cstring \<times> nat) list"
  websPassword :: "byte list"
  json_method_login_check :: int
  json_method_token_check :: int
  webs_uipwstate :: int
  websIpaddr :: cstring
  websHost :: cstring
  jrd_webs_token_str_extern :: "cstring option"

definition WEBS_COOKIE :: int where "WEBS_COOKIE = 8"
definition MAX_SESSION_COUNT :: int where "MAX_SESSION_COUNT = 256"
definition MAX_ID_LENGTH :: nat where "MAX_ID_LENGTH = 10"
definition WEBS_TOKEN_ERROR :: int where "WEBS_TOKEN_ERROR = -32699"
definition WEBS_NEED_LOGIN :: int where "WEBS_NEED_LOGIN = -32698"
definition WEBS_REFERER_ERROR :: int where "WEBS_REFERER_ERROR = -32697"
definition E_WEBS_UI_PW_NOT_NEEDED :: int where "E_WEBS_UI_PW_NOT_NEEDED = 1"

lemmas sec_consts = WEBS_COOKIE_def MAX_SESSION_COUNT_def WEBS_TOKEN_ERROR_def WEBS_NEED_LOGIN_def WEBS_REFERER_ERROR_def

definition STR_URL_HEARTBEAT_ASP :: cstring where "STR_URL_HEARTBEAT_ASP = ''/heartBeat.asp''"
definition STR_COOKIE_KEY :: cstring where "STR_COOKIE_KEY = ''egoid''"

definition jrd_certification_key :: cstring where
  "jrd_certification_key = ''KSDHSDFOGQ5WERYTUIQWERTYUISDFG1HJZXCVCXBN2GDSMNDHKVKFsVBNf''"

definition freeAccessDirs :: "cstring list" where
  "freeAccessDirs = [''/images/'', ''/js/'', ''/css/'', ''/resource'', ''/help/'', ''/comm_help/'', ''/mobile/css/'', ''/mobile/js/'',
     ''/mobile/images/'', ''/files/'', ''/app/'', ''/lib/'', ''/html/'', ''/usermanual/'', ''/res/'', ''/language/'', ''/usermanual/'', ''/dist/'']"

definition freeAccessPages :: "cstring list" where
  "freeAccessPages = [''/index.asp'', ''/login.asp'', ''/comm_help.html'', ''/default.asp'', ''/gettestdata.asp'', ''/index.html'',
     ''/login.html'', ''/default.html'', ''/mobile/index.html'', ''/faq.html'', ''/favicon.ico'', ''/connection/homePinManage.html'',
     ''/home.html'', ''/Legal_Mentions.html'']"

definition g_freeAccessMethods :: "cstring list" where
  "g_freeAccessMethods = [''GetCurrentLanguage'', ''SetLanguage'', ''Login'', ''Logout'', ''GetLoginState'', ''GetSimStatus'',
     ''GetSystemStatus'', ''GetDeviceNewVersion'', ''GetUsageRecord'', ''GetSystemInfo'', ''GetNetworkInfo'']"

section \<open>Cookies and the password\<close>

definition websInitSessionInfo :: "sec_state \<Rightarrow> sec_state" where
  "websInitSessionInfo st =
     st\<lparr>g_sessionids := replicate (nat (MAX_SESSION_COUNT + 4)) 0,
        g_freeAccessDirs := map (\<lambda>(s, _). (s, length s)) (g_freeAccessDirs st),
        g_freeAccessPages := map (\<lambda>(s, _). (s, length s)) (g_freeAccessPages st)\<rparr>"

text \<open>The text \<^verbatim>\<open>sprintf\<close> makes of a session id.\<close>

definition cookie_text :: "int \<Rightarrow> cstring" where
  "cookie_text i = STR_COOKIE_KEY @ ''='' @ int_text i @ ''; Path=/; ego''"

definition forget_id :: "sec_state \<Rightarrow> webs \<Rightarrow> sec_state option" where
  "forget_id st wp =
     (if nSessionid wp < MAX_SESSION_COUNT + 2 then do {
        ids \<leftarrow> mem_write (g_sessionids st) (nSessionid wp) 0;
        Some (st\<lparr>g_sessionids := ids\<rparr>) }
      else Some st)"

definition set_cookie_flag :: "webs \<Rightarrow> webs" where
  "set_cookie_flag wp = wp\<lparr>wflags := wflags wp OR WEBS_COOKIE\<rparr>"

definition clear_cookie_flag :: "webs \<Rightarrow> webs" where
  "clear_cookie_flag wp = wp\<lparr>wflags := wflags wp AND NOT WEBS_COOKIE\<rparr>"

definition next_id :: "int \<Rightarrow> int" where
  "next_id pc = (let n = (pc mod MAX_SESSION_COUNT + 1) mod 256 in if n = 1 then n + 1 else n)"

definition websSetCookie :: "sec_state \<Rightarrow> webs \<Rightarrow> int \<Rightarrow> (sec_state \<times> webs) option" where
  "websSetCookie st wp bloginFailed =
     (if bloginFailed = 1 then do {
        b \<leftarrow> c_strcpy (cookiebuf wp) (cookie_text 1);
        Some (st, set_cookie_flag (wp\<lparr>cookiebuf := b\<rparr>)) }
      else do {
        st1 \<leftarrow> forget_id st wp;
        let pc = next_id (g_cSessionPC st1);
        ids \<leftarrow> mem_write (g_sessionids st1) pc 1;
        b \<leftarrow> c_strcpy (cookiebuf wp) (cookie_text pc);
        Some (st1\<lparr>g_cSessionPC := pc, g_sessionids := ids\<rparr>, set_cookie_flag (wp\<lparr>cookiebuf := b\<rparr>)) })"

definition websClearCookie :: "sec_state \<Rightarrow> webs \<Rightarrow> (sec_state \<times> webs) option" where
  "websClearCookie st wp = do {
     st1 \<leftarrow> forget_id st wp;
     b \<leftarrow> c_strcpy (cookiebuf wp) (cookie_text 0);
     Some (st1, set_cookie_flag (wp\<lparr>cookiebuf := b\<rparr>)) }"

definition websGetSessionid :: "webs \<Rightarrow> int" where
  "websGetSessionid wp = nSessionid wp"

text \<open>The offset and the length of the value; \<open>Some None\<close> for the return value 1. \<open>c_strncmp0\<close> is \<^verbatim>\<open>0 == strncmp\<close>.\<close>

definition c_strncmp0 :: "cstring \<Rightarrow> cstring \<Rightarrow> nat \<Rightarrow> bool" where
  "c_strncmp0 a b n \<longleftrightarrow> take n a = take n b"

definition websGetcookie :: "webs \<Rightarrow> cstring \<Rightarrow> (nat \<times> nat) option option" where
  "websGetcookie wp nm =
     (if wflags wp AND WEBS_COOKIE = 0 then Some None
      else do {
        s \<leftarrow> str_at (cookiebuf wp) 0;
        let start = (if CHR '';'' \<in> set s then length (takeWhile (\<lambda>c. c \<noteq> CHR '';'') s) + 2 else 0);
        s1 \<leftarrow> str_at (cookiebuf wp) start;
        if CHR ''='' \<notin> set s1 then Some None
        else do {
          let tmpLen1 = length (takeWhile (\<lambda>c. c \<noteq> CHR ''='') s1);
          if \<not> c_strncmp0 nm s1 tmpLen1 then Some None
          else do {
            let tmpLen2 = length (drop (tmpLen1 + 1) s1);
            Some (if tmpLen2 = 0 then None else Some (start + tmpLen1 + 1, tmpLen2)) } } })"

definition websSetPassword :: "sec_state \<Rightarrow> cstring \<Rightarrow> sec_state option" where
  "websSetPassword st pw = do {
     b \<leftarrow> c_strncpy (websPassword st) pw (int (length (websPassword st)));
     Some (st\<lparr>websPassword := b\<rparr>) }"

definition websGetPassword :: "sec_state \<Rightarrow> cstring option" where
  "websGetPassword st = str_at (websPassword st) 0"

section \<open>The handler\<close>

text \<open>The body of the error answer: the request's \<^verbatim>\<open>id\<close>, cut to a buffer of ten bytes.\<close>

definition json_webs_get_id :: "'j json_api \<Rightarrow> webs \<Rightarrow> byte list \<Rightarrow> int \<Rightarrow> (byte list \<times> bool) option" where
  "json_webs_get_id js wp ident id_len =
     (case json_tokener_parse js (postData wp) of
        None \<Rightarrow> Some (ident, False)
      | Some ob \<Rightarrow>
          (case json_object_object_get js ob ''id'' of
             None \<Rightarrow> Some (ident, False)
           | Some object_id \<Rightarrow> do {
               b \<leftarrow> c_strncpy ident (json_object_get_string js object_id) id_len;
               Some (b, True) }))"

definition deny :: "'j json_api \<Rightarrow> sec_state \<Rightarrow> webs \<Rightarrow> int \<Rightarrow> (sec_state \<times> webs \<times> reply list \<times> int) option" where
  "deny js st wp code = do {
     (b, _) \<leftarrow> json_webs_get_id js wp (replicate MAX_ID_LENGTH CHR 0x00) (int MAX_ID_LENGTH);
     Some (st, wp, [json_webs_rsp_err code b], 1) }"

text \<open>
  Whether the address after \<^verbatim>\<open>http://\<close> in the referer is the given host, followed by a slash. A
  referer of fewer than seven characters is read past its end.
\<close>

definition referer_host :: "cstring \<Rightarrow> cstring \<Rightarrow> bool option" where
  "referer_host r host =
     (if length r < length ''http://'' then None
      else Some (c_strncmp0 (drop 7 r) host (length host) \<and> (drop 7 r @ [CHR 0x00]) ! length host = CHR ''/''))"

definition referer_bad :: "sec_state \<Rightarrow> webs \<Rightarrow> bool option" where
  "referer_bad st wp =
     (case referer wp of
        None \<Rightarrow> Some True
      | Some r \<Rightarrow> do {
          a \<leftarrow> referer_host r (websIpaddr st);
          b \<leftarrow> referer_host r (websHost st);
          Some (\<not> a \<and> \<not> b) })"

definition logined :: "bool \<Rightarrow> sec_state \<Rightarrow> webs \<Rightarrow> (sec_state \<times> int) option" where
  "logined sc st wp = do {
     (s, rc) \<leftarrow> EGOSM_isUserLogined sc (sess st) wp;
     Some (st\<lparr>sess := s\<rparr>, rc) }"

definition webapi_login :: "'j json_api \<Rightarrow> bool \<Rightarrow> sec_state \<Rightarrow> webs \<Rightarrow> (sec_state \<times> webs \<times> reply list \<times> int) option" where
  "webapi_login js sc st wp = do {
     (st1, rc) \<leftarrow> (if webs_uipwstate st = E_WEBS_UI_PW_NOT_NEEDED then Some (st, 1) else logined sc st wp);
     if rc = 1 then do {
       let wp1 = clear_cookie_flag wp;
       if json_method_token_check st1 \<noteq> 0 then
         (case token wp1 of
            None \<Rightarrow> deny js st1 wp1 WEBS_TOKEN_ERROR
          | Some tk \<Rightarrow> do {
              ref \<leftarrow> jrd_webs_token_str_extern st1;
              if ref \<noteq> tk then deny js st1 wp1 WEBS_TOKEN_ERROR else Some (st1, wp1, [], 0) })
       else Some (st1, wp1, [], 0) }
     else deny js st1 wp WEBS_NEED_LOGIN }"

definition webapi_handler :: "'j json_api \<Rightarrow> bool \<Rightarrow> sec_state \<Rightarrow> webs \<Rightarrow> (sec_state \<times> webs \<times> reply list \<times> int) option" where
  "webapi_handler js sc st wp = do {
     bad \<leftarrow> referer_bad st wp;
     if bad then deny js st wp WEBS_REFERER_ERROR
     else if json_method_login_check st = 0 \<and> json_method_token_check st = 0 then Some (st, wp, [], 0)
     else (case json_tokener_parse js (postData wp) of
         None \<Rightarrow> Some (st, wp, [], 0)
       | Some ob \<Rightarrow>
           (case json_object_object_get js ob ''method'' of
              None \<Rightarrow> Some (st, wp, [], 0)
            | Some object_method \<Rightarrow>
                (let meth = json_object_get_string js object_method in
                 if meth = ''ActiveSimlock'' \<or> meth = ''SetTelnetSwitch'' then Some (st, wp, [], 0)
                 else if json_method_token_check st \<noteq> 0 \<and> cer_key wp \<noteq> Some jrd_certification_key then deny js st wp WEBS_TOKEN_ERROR
                 else if meth \<in> set g_freeAccessMethods then Some (st, clear_cookie_flag wp, [], 0)
                 else if json_method_login_check st \<noteq> 0 then webapi_login js sc st wp
                 else Some (st, wp, [], 0)))) }"

text \<open>
  \<^verbatim>\<open>0 == memcmp(url, name, nlen)\<close>, comparing byte by byte up to the first difference, which is
  at the latest the end of the shorter string.
\<close>

definition free_url :: "(cstring \<times> nat) list \<Rightarrow> cstring \<Rightarrow> bool" where
  "free_url items u \<longleftrightarrow> (\<exists>(s, n) \<in> set items. take n u = take n s)"

definition page_handler :: "bool \<Rightarrow> sec_state \<Rightarrow> webs \<Rightarrow> cstring \<Rightarrow> (sec_state \<times> webs \<times> reply list \<times> int) option" where
  "page_handler sc st wp u =
     (if free_url (g_freeAccessDirs st) u then Some (st, clear_cookie_flag wp, [], 0)
      else if free_url (g_freeAccessPages st) u then Some (st, clear_cookie_flag wp, [], 0)
      else do {
        (st1, rc) \<leftarrow> logined sc st wp;
        if rc = 1 then do {
          let wp1 = clear_cookie_flag wp;
          if take 14 u = STR_URL_HEARTBEAT_ASP then do {
            (s, _) \<leftarrow> EGOSM_resetSessionHeartbeat sc (sess st1) wp1;
            Some (st1\<lparr>sess := s\<rparr>, wp1, [], 0) }
          else Some (st1, wp1, [], 0) }
        else do {
          (st2, wp2) \<leftarrow> websClearCookie st1 ((clear_cookie_flag wp)\<lparr>nSessionid := 0\<rparr>);
          Some (st2, wp2,
            if b_default_unredirect wp2 then []
            else [websResponse 200 (''<script>top.location.href='' @ CHR 0x27 # ''../index.html'' @ CHR 0x27 # '';</script>'' @ [CHR 0x0D, CHR 0x0A])], 1) } })"

definition websSecurityHandler :: "'j json_api \<Rightarrow> bool \<Rightarrow> sec_state \<Rightarrow> webs \<Rightarrow> cstring \<Rightarrow> cstring \<Rightarrow> (sec_state \<times> webs \<times> reply list \<times> int) option" where
  "websSecurityHandler js sc st wp u path = do {
     let wp1 = (if c_has u ''/cfgbak'' \<or> c_has u ''/help'' \<or> c_has u ''/sdcardDownload'' then wp\<lparr>isDownloadfile := 1\<rparr> else wp);
     if take 11 path = ''/jrd/webapi'' then webapi_handler js sc st wp1
     else if take 7 path = ''/goform'' \<or> take 7 path = ''/cfgbak'' then do {
       bad \<leftarrow> referer_bad st wp1;
       if bad then deny js st wp1 WEBS_REFERER_ERROR else page_handler sc st wp1 u }
     else page_handler sc st wp1 u }"

section \<open>Well-formed servers and requests\<close>

text \<open>The lists with their lengths filled in, a well-formed session table, and the id flags.\<close>

definition sec_ready :: "bool \<Rightarrow> sec_state \<Rightarrow> bool" where
  "sec_ready sc st \<longleftrightarrow> sess_inv sc (sess st) \<and> length (g_sessionids st) = 260 \<and>
     g_freeAccessDirs st = map (\<lambda>s. (s, length s)) freeAccessDirs \<and> g_freeAccessPages st = map (\<lambda>s. (s, length s)) freeAccessPages"

text \<open>A request: the cookie buffer has its 32 bytes, and a referer has at least a scheme.\<close>

definition req_ok :: "webs \<Rightarrow> bool" where
  "req_ok wp \<longleftrightarrow> 0 \<le> nSessionid wp \<and> length (cookiebuf wp) = 32 \<and> (\<forall>r. referer wp = Some r \<longrightarrow> 7 \<le> length r)"

text \<open>What the handler is to decide: whether a page is free, who the client is, where the request comes from.\<close>

definition free_prefix :: "cstring \<Rightarrow> bool" where
  "free_prefix u \<longleftrightarrow> (\<exists>s \<in> set (freeAccessDirs @ freeAccessPages). take (length s) u = s)"

definition client_in :: "bool \<Rightarrow> sec_state \<Rightarrow> webs \<Rightarrow> bool" where
  "client_in sc st wp \<longleftrightarrow> login_id (sess_of sc (sess st) (SM_getSessionKey wp)) = SESSIONID_FOR_LOGIN_SUCCESS"

definition own_referer :: "sec_state \<Rightarrow> webs \<Rightarrow> bool" where
  "own_referer st wp \<longleftrightarrow> (\<exists>r rest. referer wp = Some r \<and> (\<exists>h \<in> {websIpaddr st, websHost st}. drop 7 r = h @ CHR ''/'' # rest))"

definition form_path :: "cstring \<Rightarrow> bool" where
  "form_path path \<longleftrightarrow> take 7 path = ''/goform'' \<or> take 7 path = ''/cfgbak''"

lemma websInitSessionInfo_ready:
  assumes "sess_inv sc (sess st)" and "map fst (g_freeAccessDirs st) = freeAccessDirs" and "map fst (g_freeAccessPages st) = freeAccessPages"
  shows "sec_ready sc (websInitSessionInfo st)"
proof -
  have e: "map (\<lambda>(s, _). (s, length s)) xs = map (\<lambda>s. (s, length s)) ys" if "map fst xs = ys" for xs :: "(cstring \<times> nat) list" and ys
    using that by (induction xs arbitrary: ys) auto
  then show ?thesis using assms e[OF assms(2)] e[OF assms(3)] by (simp add: sec_ready_def websInitSessionInfo_def MAX_SESSION_COUNT_def)
qed

section \<open>Parts of the handler\<close>

lemma flag_simps [simp]:
  "req_ok (clear_cookie_flag wp) = req_ok wp" "SM_getSessionKey (clear_cookie_flag wp) = SM_getSessionKey wp"
  "token (clear_cookie_flag wp) = token wp" "b_default_unredirect (clear_cookie_flag wp) = b_default_unredirect wp"
  "cookiebuf (clear_cookie_flag wp) = cookiebuf wp" "referer (clear_cookie_flag wp) = referer wp"
  by (simp_all add: clear_cookie_flag_def req_ok_def SM_getSessionKey_def SM_getBrowserType_def)

lemma download_simps [simp]:
  "req_ok (wp\<lparr>isDownloadfile := d\<rparr>) = req_ok wp" "SM_getSessionKey (wp\<lparr>isDownloadfile := d\<rparr>) = SM_getSessionKey wp"
  "client_in sc st (wp\<lparr>isDownloadfile := d\<rparr>) = client_in sc st wp" "own_referer st (wp\<lparr>isDownloadfile := d\<rparr>) = own_referer st wp"
  by (simp_all add: req_ok_def SM_getSessionKey_def SM_getBrowserType_def client_in_def own_referer_def)

lemma deny_spec: "\<exists>b. deny js st wp code = Some (st, wp, [json_webs_rsp_err code b], 1)"
  by (auto simp: deny_def json_webs_get_id_def MAX_ID_LENGTH_def c_strncpy_def mem_copy_def split: option.splits)

lemma referer_host_spec:
  assumes "7 \<le> length r"
  shows "referer_host r h = Some (\<exists>rest. drop 7 r = h @ CHR ''/'' # rest)"
proof -
  have "take (length h) s = h \<and> (s @ [CHR 0x00]) ! length h = CHR ''/'' \<longleftrightarrow> (\<exists>rest. s = h @ CHR ''/'' # rest)" for s
  proof
    assume a: "take (length h) s = h \<and> (s @ [CHR 0x00]) ! length h = CHR ''/''"
    then obtain t where t: "s = h @ t" by (metis append_take_drop_id)
    then obtain c rest where "t = c # rest" using a by (cases t) auto
    then show "\<exists>rest. s = h @ CHR ''/'' # rest" using a t by auto
  qed auto
  then show ?thesis using assms by (simp add: referer_host_def c_strncmp0_def)
qed

lemma referer_bad_spec: "req_ok wp \<Longrightarrow> referer_bad st wp = Some (\<not> own_referer st wp)"
  by (cases "referer wp") (auto simp: referer_bad_def own_referer_def req_ok_def referer_host_spec)

lemma free_url_spec:
  assumes "sec_ready sc st"
  shows "free_prefix u \<longleftrightarrow> free_url (g_freeAccessDirs st) u \<or> free_url (g_freeAccessPages st) u"
  using assms unfolding sec_ready_def free_prefix_def free_url_def by auto

lemma logined_spec:
  assumes "sec_ready sc st"
  shows "\<exists>st'. logined sc st wp = Some (st', if client_in sc st wp then 1 else 0) \<and> sec_ready sc st' \<and>
     (client_in sc st wp \<longrightarrow> sess_of sc (sess st') = sess_of sc (sess st)) \<and>
     json_method_token_check st' = json_method_token_check st \<and> jrd_webs_token_str_extern st' = jrd_webs_token_str_extern st"
proof -
  obtain s where "EGOSM_isUserLogined sc (sess st) wp = Some (s, if client_in sc st wp then 1 else 0)" "sess_inv sc s"
    "client_in sc st wp \<longrightarrow> sess_of sc s = sess_of sc (sess st)"
    using EGOSM_isUserLogined_spec[of sc "sess st" wp] assms by (auto simp: client_in_def sec_ready_def)
  then show ?thesis using assms by (intro exI[of _ "st\<lparr>sess := s\<rparr>"]) (simp add: logined_def sec_ready_def)
qed

lemma cookie_fits: "length (cookiebuf wp) = 32 \<Longrightarrow> length (int_text i) \<le> 10 \<Longrightarrow>
  \<exists>b. c_strcpy (cookiebuf wp) (cookie_text i) = Some b \<and> length b = 32"
  by (simp add: c_strcpy_def mem_copy_def cookie_text_def STR_COOKIE_KEY_def)

lemma forget_id_spec:
  "sec_ready sc st \<Longrightarrow> req_ok wp \<Longrightarrow> \<exists>st1. forget_id st wp = Some st1 \<and> sec_ready sc st1 \<and> sess st1 = sess st"
  by (cases "nSessionid wp < 258") (simp_all add: forget_id_def sec_ready_def req_ok_def mem_write_def MAX_SESSION_COUNT_def)

lemma websClearCookie_spec:
  assumes "sec_ready sc st" "req_ok wp"
  shows "\<exists>st' wp'. websClearCookie st wp = Some (st', wp') \<and> sec_ready sc st' \<and> req_ok wp' \<and> sess st' = sess st \<and>
     b_default_unredirect wp' = b_default_unredirect wp"
proof -
  have "length (int_text 0) \<le> 10" by (simp add: int_text_def num_text_def radix_single)
  then obtain b where b: "c_strcpy (cookiebuf wp) (cookie_text 0) = Some b" "length b = 32"
    using cookie_fits[of wp 0] assms(2) by (auto simp: req_ok_def)
  obtain st1 where "forget_id st wp = Some st1" "sec_ready sc st1" "sess st1 = sess st"
    using forget_id_spec[OF assms] by blast
  then show ?thesis using b assms(2) by (auto simp: websClearCookie_def set_cookie_flag_def req_ok_def)
qed

lemma page_handler_spec:
  assumes i: "sec_ready sc st" and w: "req_ok wp"
  shows "\<exists>st' wp' rs rc. page_handler sc st wp u = Some (st', wp', rs, rc) \<and> sec_ready sc st' \<and> req_ok wp' \<and>
     rc = (if free_prefix u \<or> client_in sc st wp then 0 else 1) \<and> (rc = 0 \<longrightarrow> rs = []) \<and> (rc = 1 \<longrightarrow> rs \<noteq> [] \<or> b_default_unredirect wp) \<and>
     (rc = 0 \<longrightarrow> (\<forall>n a. sess_of sc (sess st) (SM_getSessionKey wp) = Some (n, a) \<longrightarrow> sess_of sc (sess st') = (sess_of sc (sess st))
        (SM_getSessionKey wp \<mapsto> (if \<not> free_prefix u \<and> take 14 u = STR_URL_HEARTBEAT_ASP then SESSIONID_FOR_LOGIN_SUCCESS else n, a))))"
proof (cases "free_prefix u")
  case True
  then show ?thesis using i w by (auto simp: free_url_spec[OF i] page_handler_def fun_upd_idem)
next
  case False
  then have nf: "\<not> free_url (g_freeAccessDirs st) u" "\<not> free_url (g_freeAccessPages st) u" using free_url_spec[OF i] by auto
  obtain st1 where st1: "logined sc st wp = Some (st1, if client_in sc st wp then 1 else 0)" "sec_ready sc st1"
    "client_in sc st wp \<longrightarrow> sess_of sc (sess st1) = sess_of sc (sess st)" using logined_spec[OF i, of wp] by blast
  show ?thesis
  proof (cases "client_in sc st wp")
    case True
    then obtain n a where na: "sess_of sc (sess st1) (SM_getSessionKey wp) = Some (n, a)"
      using st1(3) by (cases "sess_of sc (sess st) (SM_getSessionKey wp)") (auto simp: client_in_def login_id_def sess_consts)
    obtain s where "EGOSM_resetSessionHeartbeat sc (sess st1) (clear_cookie_flag wp) = Some (s, 1)" "sess_inv sc s"
      "sess_of sc s = (sess_of sc (sess st1))(SM_getSessionKey wp \<mapsto> (SESSIONID_FOR_LOGIN_SUCCESS, a))"
      using EGOSM_resetSessionHeartbeat_spec[of sc "sess st1" "clear_cookie_flag wp" n a] na st1(2) by (auto simp: sec_ready_def)
    then show ?thesis using True False nf st1 na w by (auto simp: page_handler_def sec_ready_def fun_upd_idem)
  next
    case out: False
    have "req_ok ((clear_cookie_flag wp)\<lparr>nSessionid := 0\<rparr>)" using w by (simp add: req_ok_def clear_cookie_flag_def)
    then obtain st2 wp2 where "websClearCookie st1 ((clear_cookie_flag wp)\<lparr>nSessionid := 0\<rparr>) = Some (st2, wp2)" "sec_ready sc st2" "req_ok wp2"
      "b_default_unredirect wp2 = b_default_unredirect wp" using websClearCookie_spec[OF st1(2)] by fastforce
    then show ?thesis using out False nf st1 by (auto simp: page_handler_def)
  qed
qed

lemma websSecurityHandler_pages_spec:
  assumes "sec_ready sc st" and "req_ok wp" and "take 11 path \<noteq> ''/jrd/webapi''"
  shows "\<exists>st' wp' rs rc. websSecurityHandler js sc st wp u path = Some (st', wp', rs, rc) \<and> sec_ready sc st' \<and> req_ok wp' \<and>
     rc = (if (free_prefix u \<or> client_in sc st wp) \<and> (form_path path \<longrightarrow> own_referer st wp) then 0 else 1) \<and>
     (rc = 0 \<longrightarrow> rs = []) \<and> (rc = 1 \<longrightarrow> rs \<noteq> [] \<or> b_default_unredirect wp) \<and>
     (rc = 0 \<longrightarrow> (\<forall>n a. sess_of sc (sess st) (SM_getSessionKey wp) = Some (n, a) \<longrightarrow> sess_of sc (sess st') = (sess_of sc (sess st))
        (SM_getSessionKey wp \<mapsto> (if \<not> free_prefix u \<and> take 14 u = STR_URL_HEARTBEAT_ASP then SESSIONID_FOR_LOGIN_SUCCESS else n, a))))"
proof -
  define wp1 where "wp1 = (if c_has u ''/cfgbak'' \<or> c_has u ''/help'' \<or> c_has u ''/sdcardDownload'' then wp\<lparr>isDownloadfile := 1\<rparr> else wp)"
  have w: "req_ok wp1" "SM_getSessionKey wp1 = SM_getSessionKey wp" "client_in sc st wp1 = client_in sc st wp"
    "own_referer st wp1 = own_referer st wp" "b_default_unredirect wp1 = b_default_unredirect wp" using assms(2) by (simp_all add: wp1_def)
  have h: "websSecurityHandler js sc st wp u path =
      (if form_path path \<and> \<not> own_referer st wp then deny js st wp1 WEBS_REFERER_ERROR else page_handler sc st wp1 u)"
    using assms(3) referer_bad_spec[OF w(1)] w(4) by (simp add: websSecurityHandler_def form_path_def flip: wp1_def)
  show ?thesis
  proof (cases "form_path path \<and> \<not> own_referer st wp")
    case True
    then show ?thesis using h deny_spec[of js st wp1 WEBS_REFERER_ERROR] assms(1) w(1) by auto
  next
    case False
    then show ?thesis using h page_handler_spec[OF assms(1) w(1), of u] unfolding w(2-5) by auto
  qed
qed


text \<open>The method of an API request, if its body has one.\<close>

definition method_of :: "'j json_api \<Rightarrow> webs \<Rightarrow> cstring option" where
  "method_of js wp = (case json_tokener_parse js (postData wp) of None \<Rightarrow> None
     | Some ob \<Rightarrow> map_option (json_object_get_string js) (json_object_object_get js ob ''method''))"

definition token_ok :: "sec_state \<Rightarrow> webs \<Rightarrow> bool" where
  "token_ok st wp \<longleftrightarrow> json_method_token_check st \<noteq> 0 \<longrightarrow> token wp \<noteq> None \<and> token wp = jrd_webs_token_str_extern st"

lemma webapi_login_spec:
  assumes i: "sec_ready sc st" and w: "req_ok wp" and t: "jrd_webs_token_str_extern st \<noteq> None"
  shows "\<exists>st' wp' rs rc. webapi_login js sc st wp = Some (st', wp', rs, rc) \<and> sec_ready sc st' \<and> req_ok wp' \<and> (rc = 0 \<longleftrightarrow> rs = []) \<and>
     rc = (if (webs_uipwstate st = E_WEBS_UI_PW_NOT_NEEDED \<or> client_in sc st wp) \<and> token_ok st wp then 0 else 1)"
proof -
  let ?in = "webs_uipwstate st = E_WEBS_UI_PW_NOT_NEEDED \<or> client_in sc st wp"
  obtain st1 where st1: "(if webs_uipwstate st = E_WEBS_UI_PW_NOT_NEEDED then Some (st, 1) else logined sc st wp) = Some (st1, if ?in then 1 else 0)"
    "sec_ready sc st1" "json_method_token_check st1 = json_method_token_check st" "jrd_webs_token_str_extern st1 = jrd_webs_token_str_extern st"
    using logined_spec[OF i, of wp] i by (cases "webs_uipwstate st = E_WEBS_UI_PW_NOT_NEEDED") auto
  obtain ref where ref: "jrd_webs_token_str_extern st = Some ref" using t by blast
  show ?thesis
  proof (cases ?in)
    case False
    then show ?thesis using st1(1,2) w deny_spec[of js st1 wp WEBS_NEED_LOGIN] by (auto simp: webapi_login_def)
  next
    case True
    then have l: "webapi_login js sc st wp =
        (if token_ok st wp then Some (st1, clear_cookie_flag wp, [], 0) else deny js st1 (clear_cookie_flag wp) WEBS_TOKEN_ERROR)"
      using st1(1,3,4) ref by (cases "token wp") (auto simp: webapi_login_def token_ok_def Let_def)
    then show ?thesis using True st1(2) w deny_spec[of js st1 "clear_cookie_flag wp" WEBS_TOKEN_ERROR] by auto
  qed
qed


section \<open>Concrete requests\<close>

text \<open>A server whose clients are those of the given session table, and a library for which the body is the method.\<close>

definition demo_server :: "sess_state \<Rightarrow> sec_state" where
  "demo_server s = websInitSessionInfo
     \<lparr>sess = s, g_sessionids = [], g_cSessionPC = 0, g_freeAccessDirs = map (\<lambda>s. (s, 0)) freeAccessDirs,
      g_freeAccessPages = map (\<lambda>s. (s, 0)) freeAccessPages, websPassword = replicate 32 CHR 0x00, json_method_login_check = 1,
      json_method_token_check = 0, webs_uipwstate = 2, websIpaddr = ''192.168.1.1'', websHost = ''hotspot'', jrd_webs_token_str_extern = Some ''t''\<rparr>"

definition demo_json :: "cstring json_api" where
  "demo_json = \<lparr>json_tokener_parse = (\<lambda>d. d), json_object_object_get = (\<lambda>ob k. if k = ''method'' then Some ob else None),
     json_object_get_string = (\<lambda>ob. ob)\<rparr>"

definition demo_post :: webs where
  "demo_post = demo_request\<lparr>cookiebuf := replicate 32 CHR 0x00, referer := Some ''http://hotspot/x'', postData := Some ''SendSMS''\<rparr>"

lemma demo_server_ready: "sess_inv sc s \<Longrightarrow> sec_ready sc (demo_server s)"
  unfolding demo_server_def by (rule websInitSessionInfo_ready) (simp_all add: comp_def)

lemma demo_server_sess [simp]: "sess (demo_server s) = s" "websHost (demo_server s) = ''hotspot''"
  "json_method_login_check (demo_server s) = 1" "json_method_token_check (demo_server s) = 0" "webs_uipwstate (demo_server s) = 2"
  "jrd_webs_token_str_extern (demo_server s) = Some ''t''"
  by (simp_all add: demo_server_def websInitSessionInfo_def)

lemma demo_post_ok: "req_ok demo_post" "own_referer (demo_server s) demo_post" "SM_getSessionKey demo_post = SM_getSessionKey demo_request"
  "method_of demo_json demo_post = Some ''SendSMS''"
  by (auto simp: req_ok_def own_referer_def demo_post_def demo_request_def SM_getSessionKey_def SM_getBrowserType_def method_of_def demo_json_def)

text \<open>A session table without clients and one where the client of \<open>demo_post\<close> is logged in.\<close>

lemma demo_clients:
  "\<exists>s s1. sess_inv True s \<and> sess_of True s = Map.empty \<and> sess_inv True s1 \<and> client_in True (demo_server s1) demo_post"
proof -
  obtain s where s: "sess_inv True s" "sess_of True s = Map.empty" using demo_sessions_init by blast
  then have "sess_room True s (SM_getSessionKey demo_request)" by (intro demo_room) simp_all
  then obtain s1 where "sess_inv True s1" "sess_of True s1 (SM_getSessionKey demo_request) = Some (SESSIONID_FOR_LOGIN_SUCCESS, 0)"
    using EGOSM_setSessionInfo_spec[OF s(1), of demo_request "[]" E_LOGIN_SUCCESS] s(2) by auto
  moreover from this have "client_in True (demo_server s1) demo_post" by (simp add: client_in_def demo_post_ok(3) login_id_def sess_consts)
  ultimately show ?thesis using s by blast
qed

lemma demo_pages: "free_prefix ''/js/app.js''" "\<not> free_prefix ''/goform/reboot''" "form_path ''/goform/reboot''"
  by (auto simp: free_prefix_def freeAccessDirs_def freeAccessPages_def form_path_def)



text \<open>
  The ids \<^verbatim>\<open>websSetCookie\<close> hands out. They are never 1, the mark of a failed login; but after id 255
  the byte wraps and the next id is 0, the mark of a logged-out client.
\<close>

lemma next_id_marks:
  assumes "0 \<le> pc" "pc < 256"
  shows "next_id pc \<noteq> 1" and "0 \<le> next_id pc \<and> next_id pc < 256" and "next_id pc = 0 \<longleftrightarrow> pc = 255"
  using assms by (auto simp: next_id_def MAX_SESSION_COUNT_def Let_def) presburger+

end
