(* ===== verification/Paths.thy ===== *)
theory Paths
  imports Websda
begin

text \<open>
  URLs and paths: the decoding of escapes (\<^verbatim>\<open>websDecodeUrl\<close> of \<^verbatim>\<open>webs.c\<close>, between two buffers and in
  place), the removal of repeated slashes (\<^verbatim>\<open>websCondenseMultipleChars\<close> of \<^verbatim>\<open>handler.c\<close>), and the
  translation of a request path to a file below the web root (\<^verbatim>\<open>websValidateUrl\<close> of \<^verbatim>\<open>default.c\<close>).
\<close>

section \<open>Decoding\<close>

definition c_isxdigit :: "char \<Rightarrow> bool" where
  "c_isxdigit c \<longleftrightarrow> (let v = c_uchar c in 48 \<le> v \<and> v \<le> 57 \<or> 65 \<le> v \<and> v \<le> 70 \<or> 97 \<le> v \<and> v \<le> 102)"

text \<open>The value of a digit after \<^verbatim>\<open>tolower\<close>.\<close>

definition hex_val :: "char \<Rightarrow> int" where
  "hex_val c = (let v = c_uchar c; l = (if 65 \<le> v \<and> v \<le> 90 then v + 32 else v) in if 97 \<le> l \<and> l \<le> 102 then 10 + l - 97 else l - 48)"

definition hex_char :: "char \<Rightarrow> char \<Rightarrow> char" where
  "hex_char x y = to_char (hex_val x * 16 + hex_val y)"

text \<open>What one round of the loop reads at \<open>ip\<close>: the character to store and the next position, or \<open>None\<close> at the end.\<close>

definition decode_step :: "byte list \<Rightarrow> nat \<Rightarrow> (char \<times> nat) option option" where
  "decode_step b ip = do {
     c \<leftarrow> mem_read b (int ip);
     if c = CHR 0x00 then Some None
     else if c = CHR ''+'' then Some (Some (CHR '' '', ip + 1))
     else if c = CHR ''%'' then do {
       x \<leftarrow> mem_read b (int ip + 1);
       if \<not> c_isxdigit x then Some (Some (c, ip + 1))
       else do {
         y \<leftarrow> mem_read b (int ip + 2);
         Some (Some (if c_isxdigit y then (hex_char x y, ip + 3) else (c, ip + 1))) } }
     else Some (Some (c, ip + 1)) }"

fun decode_loop :: "byte list \<Rightarrow> byte list \<Rightarrow> nat \<Rightarrow> nat \<Rightarrow> nat \<Rightarrow> byte list option" where
  "decode_loop src dst ip op 0 = do { _ \<leftarrow> mem_read src (int ip); mem_write dst (int op) CHR 0x00 }"
| "decode_loop src dst ip op (Suc len) = do {
     r \<leftarrow> decode_step src ip;
     (case r of
        None \<Rightarrow> mem_write dst (int op) CHR 0x00
      | Some (c, ip') \<Rightarrow> do {
          dst' \<leftarrow> mem_write dst (int op) c;
          decode_loop src dst' ip' (op + 1) len }) }"

definition websDecodeUrl :: "byte list \<Rightarrow> byte list \<Rightarrow> nat \<Rightarrow> byte list option" where
  "websDecodeUrl decoded tok len = decode_loop tok decoded 0 0 len"

text \<open>The same call with \<^verbatim>\<open>decoded\<close> and \<^verbatim>\<open>token\<close> the same buffer.\<close>

fun decode_here :: "byte list \<Rightarrow> nat \<Rightarrow> nat \<Rightarrow> nat \<Rightarrow> byte list option" where
  "decode_here b ip op 0 = do { _ \<leftarrow> mem_read b (int ip); mem_write b (int op) CHR 0x00 }"
| "decode_here b ip op (Suc len) = do {
     r \<leftarrow> decode_step b ip;
     (case r of
        None \<Rightarrow> mem_write b (int op) CHR 0x00
      | Some (c, ip') \<Rightarrow> do {
          b' \<leftarrow> mem_write b (int op) c;
          decode_here b' ip' (op + 1) len }) }"

definition websDecodeUrl_insitu :: "byte list \<Rightarrow> nat \<Rightarrow> byte list option" where
  "websDecodeUrl_insitu b len = decode_here b 0 0 len"

section \<open>Repeated slashes\<close>

text \<open>The two loops, with the positions \<open>pStr\<close> and \<open>pScan\<close>.\<close>

partial_function (option) condense_skip :: "byte list \<Rightarrow> char \<Rightarrow> nat \<Rightarrow> nat option" where
  "condense_skip b cc scan = do {
     x \<leftarrow> mem_read b (int scan);
     if x \<noteq> cc then Some scan
     else do {
       y \<leftarrow> mem_read b (int scan + 1);
       if y = cc then condense_skip b cc (scan + 1) else Some scan } }"

partial_function (option) condense_loop :: "byte list \<Rightarrow> char \<Rightarrow> nat \<Rightarrow> nat \<Rightarrow> byte list option" where
  "condense_loop b cc str scan = do {
     x \<leftarrow> mem_read b (int scan);
     y \<leftarrow> mem_read b (int str);
     if x \<noteq> CHR 0x00 \<and> y \<noteq> CHR 0x00 then do {
       scan1 \<leftarrow> condense_skip b cc scan;
       c \<leftarrow> mem_read b (int scan1);
       b1 \<leftarrow> (if str \<noteq> scan1 then mem_write b (int str) c else Some b);
       condense_loop b1 cc (str + 1) (scan1 + 1) }
     else if str \<noteq> scan then mem_write b (int str) CHR 0x00 else Some b }"

definition websCondenseMultipleChars :: "byte list option \<Rightarrow> char \<Rightarrow> byte list option option" where
  "websCondenseMultipleChars s cc =
     (case s of None \<Rightarrow> Some None | Some b \<Rightarrow> map_option Some (condense_loop b cc 0 0))"

section \<open>Files below the root\<close>

definition MAX_URL_DEPTH :: nat where "MAX_URL_DEPTH = 8"
definition JRD_WEBRC_CFGBAK :: cstring where "JRD_WEBRC_CFGBAK = ''/jrd-resource/resource/webs-cfg''"
definition JRD_CFGBAK :: cstring where "JRD_CFGBAK = ''/cfgbak''"

text \<open>The loop over the tokens: the parts and \<^verbatim>\<open>len\<close>; \<open>None\<close> when there are too many.\<close>

fun url_parts :: "cstring list \<Rightarrow> cstring list \<Rightarrow> nat \<Rightarrow> (cstring list \<times> nat) option" where
  "url_parts [] parts len = Some (parts, len)"
| "url_parts (tok # toks) parts len =
     (if length parts \<ge> MAX_URL_DEPTH then None
      else if tok = ''..'' then url_parts toks (if parts \<noteq> [] then butlast parts else parts) len
      else if tok \<noteq> ''.'' then url_parts toks (parts @ [tok]) (len + length tok + 1)
      else url_parts toks parts len)"

text \<open>What is left at the start of the buffer after \<^verbatim>\<open>strtok\<close> has cut it up.\<close>

definition after_tok :: "cstring \<Rightarrow> cstring" where
  "after_tok p = takeWhile (\<lambda>c. c = CHR ''/'') p @ takeWhile (\<lambda>c. c \<noteq> CHR ''/'') (dropWhile (\<lambda>c. c = CHR ''/'') p)"

text \<open>\<^verbatim>\<open>gstrcat\<close> into a block of \<open>n\<close> bytes that holds the string \<open>s\<close>.\<close>

definition c_strcat :: "nat \<Rightarrow> cstring \<Rightarrow> cstring \<Rightarrow> cstring option" where
  "c_strcat n s t = (if length s + length t < n then Some (s @ t) else None)"

fun cat_parts :: "nat \<Rightarrow> cstring \<Rightarrow> cstring list \<Rightarrow> cstring option" where
  "cat_parts n s [] = Some s"
| "cat_parts n s (p # ps) = do { s1 \<leftarrow> c_strcat n s ''/''; s2 \<leftarrow> c_strcat n s1 p; cat_parts n s2 ps }"

definition websSetRequestLpath ::
    "bool \<Rightarrow> bool \<Rightarrow> bool \<Rightarrow> sym_state \<Rightarrow> webs \<Rightarrow> cstring \<Rightarrow> (sym_state \<times> webs) option" where
  "websSetRequestLpath sc ok dup st wp lp = do {
     d \<leftarrow> bstrdup dup (Some lp);
     st1 \<leftarrow> websSetVar sc ok dup st (cgiVars wp) ''PATH_TRANSLATED'' (Some d);
     Some (st1, wp\<lparr>lpath := Some d\<rparr>) }"

definition websSetRequestPath ::
    "bool \<Rightarrow> bool \<Rightarrow> bool \<Rightarrow> sym_state \<Rightarrow> webs \<Rightarrow> cstring option \<Rightarrow> cstring option \<Rightarrow> (sym_state \<times> webs) option" where
  "websSetRequestPath sc ok dup st wp dir path = do {
     wp1 \<leftarrow> (if dir = None then Some wp else do { d \<leftarrow> bstrdup dup dir; Some (wp\<lparr>wdir := Some d\<rparr>) });
     (if path = None then Some (st, wp1)
      else do {
        p \<leftarrow> bstrdup dup path;
        st1 \<leftarrow> websSetVar sc ok dup st (cgiVars wp1) ''PATH_INFO'' (Some p);
        Some (st1, wp1\<lparr>wpath := Some p\<rparr>) }) }"

definition websValidateUrl ::
    "balloc_env \<Rightarrow> bool \<Rightarrow> bool \<Rightarrow> bool \<Rightarrow> sym_state \<Rightarrow> webs \<Rightarrow> cstring \<Rightarrow> (sym_state \<times> webs \<times> int) option" where
  "websValidateUrl m sc ok dup st wp path =
     (case wdir wp of
        None \<Rightarrow> Some (st, wp, -1)
      | Some dir \<Rightarrow>
          if dir = [] then Some (st, wp, -1)
          else do {
            p0 \<leftarrow> bstrdup dup (Some path);
            b \<leftarrow> websDecodeUrl_insitu (p0 @ [CHR 0x00]) (length p0);
            let p1 = map (\<lambda>c. if c = CHR 0x5C then CHR ''/'' else c) (c_str b);
            (case url_parts (c_tokens CHR ''/'' p1) [] 0 of
               None \<Rightarrow> Some (st, wp, -1)
             | Some (parts, len) \<Rightarrow>
                 let p2 = after_tok p1 in
                 if parts \<noteq> [] \<or> p2 = ''/'' \<or> p2 = [] then do {
                   let n = length dir + 1 + len + 1;
                   _ \<leftarrow> balloc m (int n);
                   s \<leftarrow> c_strcat n [] (if c_has p2 JRD_CFGBAK then JRD_WEBRC_CFGBAK else dir);
                   lp \<leftarrow> cat_parts n s parts;
                   (st1, wp1) \<leftarrow> websSetRequestLpath sc ok dup st wp lp;
                   Some (st1, wp1, 0) }
                 else Some (st, wp, -1)) })"

section \<open>What decoding does\<close>

text \<open>The decoding of a string, as a function on strings, and an encoder.\<close>

function url_chars :: "cstring \<Rightarrow> cstring" where
  "url_chars [] = []"
| "url_chars (c # r) =
     (if c = CHR ''+'' then CHR '' '' # url_chars r
      else case r of
        x # y # t \<Rightarrow> if c = CHR ''%'' \<and> c_isxdigit x \<and> c_isxdigit y then hex_char x y # url_chars t else c # url_chars r
      | _ \<Rightarrow> c # url_chars r)"
  by pat_completeness auto
termination by (relation "measure length") auto

declare url_chars.simps(2) [simp del]

definition hex_digit :: "int \<Rightarrow> char" where
  "hex_digit i = to_char (if i < 10 then 48 + i else 87 + i)"

definition url_enc :: "cstring \<Rightarrow> cstring" where
  "url_enc s = concat (map (\<lambda>c. [CHR ''%'', hex_digit (c_uchar c div 16), hex_digit (c_uchar c mod 16)]) s)"

text \<open>One round on a buffer that holds the string \<open>s\<close> from position \<open>ip\<close>.\<close>

lemma mem_read_at [simp]: "mem_read (xs @ y # ys) (int (length xs)) = Some y"
  by (simp add: mem_read_def)

lemma mem_read_at1: "mem_read (xs @ y # z # ys) (int (length xs) + 1) = Some z"
  by (simp add: mem_read_def nth_append nat_add_distrib)

lemma mem_read_at2: "mem_read (xs @ y # z # w # ys) (int (length xs) + 2) = Some w"
  by (simp add: mem_read_def nth_append nat_add_distrib)

lemma mem_write_at [simp]: "mem_write (xs @ y # ys) (int (length xs)) z = Some (xs @ z # ys)"
  by (simp add: mem_write_def)

lemma decode_step_end: "decode_step (pre @ CHR 0x00 # tail) (length pre) = Some None"
  by (simp add: decode_step_def)

lemma decode_step_char:
  assumes "CHR 0x00 \<notin> set (c # r)"
  shows "\<exists>d h s'. c # r = h @ s' \<and> h \<noteq> [] \<and> url_chars (c # r) = d # url_chars s' \<and>
     decode_step (pre @ c # r @ CHR 0x00 # tail) (length pre) = Some (Some (d, length pre + length h))"
proof -
  have n: "c \<noteq> CHR 0x00" "\<not> c_isxdigit CHR 0x00" using assms by (auto simp: c_isxdigit_def c_uchar_def)
  consider "c = CHR ''+''" | "c \<noteq> CHR ''+''" "c \<noteq> CHR ''%''" | "c = CHR ''%''" "r = []" | x where "c = CHR ''%''" "r = [x]"
    | x y t where "c = CHR ''%''" "r = x # y # t" by (metis list.exhaust)
  then show ?thesis
  proof cases
    case 1
    then show ?thesis by (intro exI[of _ "CHR '' ''"] exI[of _ "[c]"] exI[of _ r]) (simp add: decode_step_def url_chars.simps)
  next
    case 2
    then show ?thesis using n by (intro exI[of _ c] exI[of _ "[c]"] exI[of _ r]) (auto simp: decode_step_def url_chars.simps(2)[of c r] split: list.splits)
  next
    case 3
    then show ?thesis using n by (intro exI[of _ c] exI[of _ "[c]"] exI[of _ r]) (simp add: decode_step_def mem_read_at1 url_chars.simps)
  next
    case 4
    then show ?thesis using n by (intro exI[of _ c] exI[of _ "[c]"] exI[of _ r]) (simp add: decode_step_def mem_read_at1 mem_read_at2 url_chars.simps)
  next
    case 5
    show ?thesis
    proof (cases "c_isxdigit x \<and> c_isxdigit y")
      case True
      then show ?thesis using 5
        by (intro exI[of _ "hex_char x y"] exI[of _ "[c, x, y]"] exI[of _ t]) (simp add: decode_step_def mem_read_at1 mem_read_at2 url_chars.simps(2)[of "CHR ''%''" "x # y # t"])
    next
      case False
      then show ?thesis using 5
        by (intro exI[of _ c] exI[of _ "[c]"] exI[of _ r]) (auto simp: decode_step_def mem_read_at1 mem_read_at2 url_chars.simps(2)[of "CHR ''%''" "x # y # t"])
    qed
  qed
qed

lemma decode_here_spec:
  "CHR 0x00 \<notin> set s \<Longrightarrow>
   \<exists>q. decode_here (pre @ mid @ s @ CHR 0x00 # tail) (length pre + length mid) (length pre) n = Some (pre @ take n (url_chars s) @ CHR 0x00 # q) \<and>
     length (take n (url_chars s)) + length q = length mid + length s + length tail"
proof (induction n arbitrary: pre mid s)
  case 0
  obtain y ys where e: "mid @ s @ CHR 0x00 # tail = y # ys" by (cases "mid @ s @ CHR 0x00 # tail") auto
  have "mem_read (pre @ mid @ s @ CHR 0x00 # tail) (int (length pre + length mid)) \<noteq> None" by (simp add: mem_read_def)
  moreover have "length ys = length mid + length s + length tail" using arg_cong[OF e, of length] by simp
  ultimately show ?case unfolding e by auto
next
  case (Suc n)
  show ?case
  proof (cases s)
    case Nil
    obtain y ys where e: "mid @ CHR 0x00 # tail = y # ys" by (cases "mid @ CHR 0x00 # tail") auto
    have "length ys = length mid + length tail" using arg_cong[OF e, of length] by simp
    then show ?thesis using Nil e decode_step_end[of "pre @ mid" tail] by simp
  next
    case (Cons c r)
    obtain d h s' where d: "c # r = h @ s'" "h \<noteq> []" "url_chars (c # r) = d # url_chars s'"
      "decode_step ((pre @ mid) @ c # r @ CHR 0x00 # tail) (length (pre @ mid)) = Some (Some (d, length (pre @ mid) + length h))"
      using decode_step_char[of c r "pre @ mid" tail] Suc.prems Cons by blast
    obtain y ys where e: "mid @ h = y # ys" using d(2) by (cases "mid @ h") auto
    have b: "pre @ mid @ s @ CHR 0x00 # tail = pre @ y # (ys @ s' @ CHR 0x00 # tail)" using Cons d(1) e by (metis append_Cons append_assoc)
    have l: "length mid + length h = Suc (length ys)" using arg_cong[OF e, of length] by simp
    have z: "CHR 0x00 \<notin> set s'" using Suc.prems Cons d(1) by auto
    obtain q where "decode_here ((pre @ [d]) @ ys @ s' @ CHR 0x00 # tail) (length (pre @ [d]) + length ys) (length (pre @ [d])) n =
        Some ((pre @ [d]) @ take n (url_chars s') @ CHR 0x00 # q)"
      "length (take n (url_chars s')) + length q = length ys + length s' + length tail" using Suc.IH[OF z, of "pre @ [d]" ys] by blast
    moreover have "decode_step (pre @ mid @ s @ CHR 0x00 # tail) (length pre + length mid) = Some (Some (d, length pre + Suc (length ys)))"
      using d(4) Cons l by simp
    moreover have "length s = length h + length s'" using Cons d(1) by (metis length_append)
    moreover have "mem_write (pre @ mid @ s @ CHR 0x00 # tail) (int (length pre)) d = Some (pre @ d # ys @ s' @ CHR 0x00 # tail)" unfolding b by simp
    moreover have "url_chars s = d # url_chars s'" using d(3) Cons by simp
    ultimately show ?thesis using l by auto
  qed
qed

text \<open>Decoding into a buffer of its own, large enough for the result.\<close>

lemma decode_loop_spec:
  "CHR 0x00 \<notin> set s \<Longrightarrow> n < length room \<Longrightarrow>
   \<exists>q. decode_loop (seen @ s @ CHR 0x00 # tail) (out @ room) (length seen) (length out) n = Some (out @ take n (url_chars s) @ CHR 0x00 # q) \<and>
     length (take n (url_chars s)) + Suc (length q) = length room"
proof (induction n arbitrary: seen s out room)
  case 0
  then obtain y ys where "room = y # ys" by (cases room) auto
  moreover have "mem_read (seen @ s @ CHR 0x00 # tail) (int (length seen)) \<noteq> None" by (simp add: mem_read_def)
  ultimately show ?case by auto
next
  case (Suc n)
  then obtain y ys where room: "room = y # ys" "n < length ys" by (cases room) auto
  show ?case
  proof (cases s)
    case Nil
    then show ?thesis using room decode_step_end[of seen tail] by simp
  next
    case (Cons c r)
    obtain d h s' where d: "c # r = h @ s'" "url_chars (c # r) = d # url_chars s'"
      "decode_step (seen @ c # r @ CHR 0x00 # tail) (length seen) = Some (Some (d, length seen + length h))"
      using decode_step_char[of c r seen tail] Suc.prems(1) Cons by blast
    have z: "CHR 0x00 \<notin> set s'" using Suc.prems(1) Cons d(1) by auto
    obtain q where "decode_loop ((seen @ h) @ s' @ CHR 0x00 # tail) ((out @ [d]) @ ys) (length (seen @ h)) (length (out @ [d])) n =
        Some ((out @ [d]) @ take n (url_chars s') @ CHR 0x00 # q)" "length (take n (url_chars s')) + Suc (length q) = length ys"
      using Suc.IH[OF z room(2), of "seen @ h" "out @ [d]"] by blast
    moreover have e: "seen @ s @ CHR 0x00 # tail = (seen @ h) @ s' @ CHR 0x00 # tail" "seen @ c # r @ CHR 0x00 # tail = (seen @ h) @ s' @ CHR 0x00 # tail"
      using Cons d(1) by simp_all
    ultimately show ?thesis using d(2) d(3)[unfolded e(2)] Cons room(1) unfolding e(1) by auto
  qed
qed

lemma hex_digit_val: "0 \<le> i \<Longrightarrow> i < 16 \<Longrightarrow> c_isxdigit (hex_digit i) \<and> hex_val (hex_digit i) = i"
  by (cases "i < 10") (auto simp: hex_digit_def c_isxdigit_def hex_val_def Let_def)

lemma nibbles: "0 \<le> c_uchar c div 16" "c_uchar c div 16 < 16" "0 \<le> c_uchar c mod 16" "c_uchar c mod 16 < 16"
proof -
  have "0 \<le> v \<Longrightarrow> v < 256 \<Longrightarrow> 0 \<le> v div 16 \<and> v div 16 < 16" for v :: int by auto
  then show "0 \<le> c_uchar c div 16" "c_uchar c div 16 < 16" "0 \<le> c_uchar c mod 16" "c_uchar c mod 16 < 16" by (simp_all add: c_uchar_range)
qed

lemma url_chars_enc: "url_chars (url_enc s) = s"
proof (induction s)
  case Nil
  then show ?case by (simp add: url_enc_def)
next
  case (Cons c s)
  note d = nibbles[of c]
  have "hex_char (hex_digit (c_uchar c div 16)) (hex_digit (c_uchar c mod 16)) = c"
    using hex_digit_val[OF d(1,2)] hex_digit_val[OF d(3,4)] by (simp add: hex_char_def mult_div_mod_eq)
  moreover have "url_enc (c # s) = CHR ''%'' # hex_digit (c_uchar c div 16) # hex_digit (c_uchar c mod 16) # url_enc s" by (simp add: url_enc_def)
  ultimately show ?case using Cons.IH hex_digit_val[OF d(1,2)] hex_digit_val[OF d(3,4)] by (simp add: url_chars.simps(2)[of "CHR ''%''"])
qed

lemma url_enc_clean: "CHR 0x00 \<notin> set (url_enc s)"
proof -
  have "\<not> c_isxdigit CHR 0x00" by (simp add: c_isxdigit_def c_uchar_def)
  then have "CHR 0x00 \<noteq> hex_digit i" if "0 \<le> i" "i < 16" for i using hex_digit_val[OF that] by metis
  then have "CHR 0x00 \<noteq> hex_digit (c_uchar c div 16)" "CHR 0x00 \<noteq> hex_digit (c_uchar c mod 16)" for c using nibbles[of c] by blast+
  then show ?thesis by (auto simp: url_enc_def)
qed

section \<open>What condensing does\<close>

fun condense :: "char \<Rightarrow> cstring \<Rightarrow> cstring" where
  "condense c [] = []"
| "condense c [x] = [x]"
| "condense c (x # y # r) = (if x = c \<and> y = c then condense c (y # r) else x # condense c (y # r))"

lemma condense_skip_spec:
  assumes "s \<noteq> []" "cc \<noteq> CHR 0x00"
  shows "\<exists>h x s'. s = h @ x # s' \<and> condense cc s = x # condense cc s' \<and>
     condense_skip (pre @ s @ CHR 0x00 # tail) cc (length pre) = Some (length pre + length h)"
  using assms(1)
proof (induction s arbitrary: pre)
  case (Cons x r)
  show ?case
  proof (cases "x = cc \<and> (\<exists>r'. r = cc # r')")
    case True
    then obtain r' where r: "r = cc # r'" "x = cc" by blast
    obtain h y s' where ih: "r = h @ y # s'" "condense cc r = y # condense cc s'"
      "condense_skip ((pre @ [x]) @ r @ CHR 0x00 # tail) cc (length (pre @ [x])) = Some (length (pre @ [x]) + length h)"
      using Cons.IH[of "pre @ [x]"] r(1) by blast
    have "condense_skip (pre @ (x # r) @ CHR 0x00 # tail) cc (length pre) = condense_skip (pre @ (x # r) @ CHR 0x00 # tail) cc (length pre + 1)"
      using r by (subst condense_skip.simps) (simp add: mem_read_at1)
    moreover have "condense cc (x # r) = condense cc r" using r by simp
    ultimately have "x # r = (x # h) @ y # s' \<and> condense cc (x # r) = y # condense cc s' \<and>
        condense_skip (pre @ (x # r) @ CHR 0x00 # tail) cc (length pre) = Some (length pre + length (x # h))"
      using ih by simp
    then show ?thesis by blast
  next
    case False
    have "condense cc (x # r) = x # condense cc r" using False by (cases r) auto
    moreover have "condense_skip (pre @ (x # r) @ CHR 0x00 # tail) cc (length pre) = Some (length pre)"
      using False assms(2) by (cases r) (auto simp: condense_skip.simps mem_read_at1)
    ultimately show ?thesis by (intro exI[of _ "[]"] exI[of _ x] exI[of _ r]) simp
  qed
qed simp

lemma condense_loop_spec:
  "CHR 0x00 \<notin> set (mid @ s) \<Longrightarrow> cc \<noteq> CHR 0x00 \<Longrightarrow>
   \<exists>q. condense_loop (out @ mid @ s @ CHR 0x00 # tail) cc (length out) (length out + length mid) = Some (out @ condense cc s @ CHR 0x00 # q) \<and>
     length (condense cc s) + length q = length mid + length s + length tail"
proof (induction "length s" arbitrary: s out mid rule: less_induct)
  case less
  let ?b = "out @ mid @ s @ CHR 0x00 # tail"
  obtain y ys where y: "mid @ s @ CHR 0x00 # tail = y # ys" by (cases "mid @ s @ CHR 0x00 # tail") auto
  have ly: "length ys = length mid + length s + length tail" using arg_cong[OF y, of length] by simp
  have ry: "mem_read ?b (int (length out)) = Some y" unfolding y by simp
  show ?case
  proof (cases s)
    case Nil
    have "mem_read ?b (int (length out + length mid)) = Some CHR 0x00" using Nil mem_read_at[of "out @ mid" "CHR 0x00" tail] by simp
    then have "condense_loop ?b cc (length out) (length out + length mid) = (if mid = [] then Some ?b else mem_write ?b (int (length out)) CHR 0x00)"
      using ry by (simp add: condense_loop.simps)
    then show ?thesis
    proof (cases "mid = []")
      case False
      then have "mem_write ?b (int (length out)) CHR 0x00 = Some (out @ CHR 0x00 # ys)" unfolding y by simp
      then show ?thesis using \<open>condense_loop ?b cc _ _ = _\<close> Nil ly False by simp
    qed (use Nil in simp)
  next
    case (Cons x r)
    obtain h z s' where z: "s = h @ z # s'" "condense cc s = z # condense cc s'"
      "condense_skip ((out @ mid) @ s @ CHR 0x00 # tail) cc (length (out @ mid)) = Some (length (out @ mid) + length h)"
      using condense_skip_spec[OF _ less.prems(2), of s "out @ mid" tail] Cons append_assoc by blast
    obtain w ws where w: "mid @ h @ [z] = w # ws" by (cases "mid @ h @ [z]") auto
    have b: "?b = out @ w # (ws @ s' @ CHR 0x00 # tail)" using z(1) w by (metis append.assoc append_Cons append_Nil)
    have lw: "length ws = length mid + length h" using arg_cong[OF w, of length] by simp
    have rz: "mem_read ?b (int (length out + length mid + length h)) = Some z"
      using mem_read_at[of "out @ mid @ h" z "s' @ CHR 0x00 # tail"] z(1) by (simp add: add.assoc)
    have rx: "mem_read ?b (int (length out + length mid)) = Some x" using Cons mem_read_at[of "out @ mid" x "r @ CHR 0x00 # tail"] by simp
    have nz: "x \<noteq> CHR 0x00" "y \<noteq> CHR 0x00" using less.prems(1) Cons y by (cases mid; auto)+
    have wr: "(if length out \<noteq> length out + length mid + length h then mem_write ?b (int (length out)) z else Some ?b) =
        Some ((out @ [z]) @ ws @ s' @ CHR 0x00 # tail)"
    proof (cases "mid @ h = []")
      case True
      then show ?thesis using b w by simp
    next
      case False
      then show ?thesis unfolding b by auto
    qed
    have st: "condense_loop ?b cc (length out) (length out + length mid) =
        condense_loop ((out @ [z]) @ ws @ s' @ CHR 0x00 # tail) cc (length (out @ [z])) (length (out @ [z]) + length ws)"
      using rx ry nz z(3) rz wr lw by (subst condense_loop.simps) (simp add: add.assoc)
    have "CHR 0x00 \<notin> set (ws @ s')" "length s' < length s" using less.prems(1) z(1) w by (auto simp: append_eq_Cons_conv)
    then obtain q where "condense_loop ((out @ [z]) @ ws @ s' @ CHR 0x00 # tail) cc (length (out @ [z])) (length (out @ [z]) + length ws) =
        Some ((out @ [z]) @ condense cc s' @ CHR 0x00 # q)" "length (condense cc s') + length q = length ws + length s' + length tail"
      using less.hyps[of s' ws "out @ [z]"] less.prems(2) by blast
    then show ?thesis using st z lw by auto
  qed
qed

section \<open>What validation does\<close>

lemma c_tokens_mem: "t \<in> set (c_tokens d s) \<Longrightarrow> t \<noteq> [] \<and> d \<notin> set t \<and> set t \<subseteq> set s"
proof (induction d s rule: c_tokens.induct)
  case (1 d s)
  show ?case
  proof (cases "dropWhile (\<lambda>c. c = d) s")
    case Nil
    have "c_tokens d s = []" unfolding c_tokens.simps[of d s] Nil by (simp only: list.case)
    then show ?thesis using 1(2) by simp
  next
    case (Cons c r)
    have sub: "set (c # r) \<subseteq> set s" using Cons set_dropWhileD by (metis subsetI)
    have c: "c \<noteq> d" using Cons dropWhile_eq_Cons_conv[of "\<lambda>c. c = d" s c r] by simp
    have "set (takeWhile (\<lambda>c. c \<noteq> d) r) \<subseteq> set r" "d \<notin> set (takeWhile (\<lambda>c. c \<noteq> d) r)" "set (dropWhile (\<lambda>c. c \<noteq> d) r) \<subseteq> set r"
      by (auto dest: set_takeWhileD set_dropWhileD)
    then show ?thesis using 1(1)[OF Cons] 1(2) Cons sub c by (auto simp: c_tokens.simps[of d s])
  qed
qed

text \<open>The length the parts take in the file name.\<close>

definition parts_len :: "cstring list \<Rightarrow> nat" where
  "parts_len ps = sum_list (map (\<lambda>p. length p + 1) ps)"

definition parts_text :: "cstring list \<Rightarrow> cstring" where
  "parts_text ps = concat (map (\<lambda>p. CHR ''/'' # p) ps)"

lemma parts_len_simps [simp]: "parts_len [] = 0" "parts_len (p # ps) = length p + 1 + parts_len ps" "parts_len (ps @ qs) = parts_len ps + parts_len qs"
  by (simp_all add: parts_len_def)

lemma parts_len_butlast: "parts_len (butlast ps) \<le> parts_len ps"
  by (cases ps rule: rev_cases) simp_all

lemma url_parts_spec:
  "url_parts toks parts len = Some (ps, l) \<Longrightarrow> length parts \<le> MAX_URL_DEPTH \<Longrightarrow> \<forall>p\<in>set parts. p \<in> T \<and> p \<noteq> ''.'' \<and> p \<noteq> ''..'' \<Longrightarrow>
   set toks \<subseteq> T \<Longrightarrow> parts_len parts \<le> len \<Longrightarrow>
   length ps \<le> MAX_URL_DEPTH \<and> (\<forall>p\<in>set ps. p \<in> T \<and> p \<noteq> ''.'' \<and> p \<noteq> ''..'') \<and> parts_len ps \<le> l"
proof (induction toks parts len rule: url_parts.induct)
  case (2 tok toks parts len)
  have d: "length parts < MAX_URL_DEPTH" using 2(4) by (auto split: if_splits)
  consider "tok = ''..''" | "tok = ''.''" | "tok \<noteq> ''..''" "tok \<noteq> ''.''" by blast
  then show ?case
  proof cases
    case 1
    let ?q = "if parts \<noteq> [] then butlast parts else parts"
    have q: "\<forall>p\<in>set ?q. p \<in> T \<and> p \<noteq> ''.'' \<and> p \<noteq> ''..''" using "2.prems"(3) by (auto dest: in_set_butlastD)
    have ql: "parts_len ?q \<le> len" "length ?q \<le> MAX_URL_DEPTH" using "2.prems"(5) parts_len_butlast[of parts] d by (auto simp: le_diff_conv)
    have e: "url_parts toks ?q len = Some (ps, l)" using "2.prems"(1) 1 d by simp
    have t: "set toks \<subseteq> T" using "2.prems"(4) by simp
    show ?thesis using "2.IH"(1)[OF _ 1 e ql(2) q t ql(1)] d by simp
  next
    case dot: 2
    have e: "url_parts toks parts len = Some (ps, l)" using "2.prems"(1) dot d by simp
    have t: "set toks \<subseteq> T" using "2.prems"(4) by simp
    show ?thesis using "2.IH"(3)[OF _ _ _ e "2.prems"(2,3) t "2.prems"(5)] d dot by simp
  next
    case 3
    have e: "url_parts toks (parts @ [tok]) (len + length tok + 1) = Some (ps, l)" using "2.prems"(1) 3 d by simp
    have t: "set toks \<subseteq> T" "\<forall>p\<in>set (parts @ [tok]). p \<in> T \<and> p \<noteq> ''.'' \<and> p \<noteq> ''..''" using "2.prems"(3,4) 3 by auto
    have l: "length (parts @ [tok]) \<le> MAX_URL_DEPTH" "parts_len (parts @ [tok]) \<le> len + length tok + 1" using d "2.prems"(5) by simp_all
    show ?thesis using "2.IH"(2)[OF _ 3 e l(1) t(2,1) l(2)] d by simp
  qed
qed simp

lemma cat_parts_spec: "length s + parts_len ps < n \<Longrightarrow> cat_parts n s ps = Some (s @ parts_text ps)"
  by (induction ps arbitrary: s) (simp_all add: parts_text_def c_strcat_def)

lemma url_parts_plain:
  "\<forall>t\<in>set toks. t \<noteq> ''.'' \<and> t \<noteq> ''..'' \<Longrightarrow> length parts + length toks \<le> MAX_URL_DEPTH \<Longrightarrow>
   url_parts toks parts len = Some (parts @ toks, len + parts_len toks)"
  by (induction toks arbitrary: parts len) simp_all

lemma websSetRequestLpath_spec:
  assumes "sym_at sc (cgiVars wp) st"
  shows "\<exists>st'. websSetRequestLpath sc True True st wp lp = Some (st', wp\<lparr>lpath := Some lp\<rparr>) \<and> sym_at sc (cgiVars wp) st' \<and>
     websGetVar sc st' (cgiVars wp) ''PATH_TRANSLATED'' d = Some (Some lp)"
proof -
  obtain st' where "websSetVar sc True True st (cgiVars wp) ''PATH_TRANSLATED'' (Some lp) = Some st'" "sym_at sc (cgiVars wp) st'"
    "sym_find sc (cgiVars wp) st' ''PATH_TRANSLATED'' = Some (str_val lp)" using websSetVar_law[OF assms, of "''PATH_TRANSLATED''" "Some lp"] by auto
  then show ?thesis using websGetVar_str[of sc "cgiVars wp" st'] by (simp add: websSetRequestLpath_def bstrdup_def)
qed

definition root_len :: nat where
  "root_len = length JRD_WEBRC_CFGBAK"

text \<open>A part of a file name that cannot leave its directory.\<close>

definition plain_part :: "cstring \<Rightarrow> bool" where
  "plain_part p \<longleftrightarrow> p \<noteq> [] \<and> p \<noteq> ''.'' \<and> p \<noteq> ''..'' \<and> CHR ''/'' \<notin> set p \<and> CHR 0x5C \<notin> set p \<and> CHR 0x00 \<notin> set p"

text \<open>The path after decoding, with slashes for backslashes.\<close>

definition decoded_path :: "cstring \<Rightarrow> cstring" where
  "decoded_path path = map (\<lambda>c. if c = CHR 0x5C then CHR ''/'' else c) (takeWhile (\<lambda>c. c \<noteq> CHR 0x00) (url_chars path))"

lemma url_chars_length: "length (url_chars s) \<le> length s"
proof (induction s rule: length_induct)
  case (1 s)
  show ?case
  proof (cases s)
    case (Cons c r)
    show ?thesis
    proof (cases "\<exists>x y t. r = x # y # t \<and> c = CHR ''%'' \<and> c_isxdigit x \<and> c_isxdigit y")
      case True
      then obtain x y t where r: "r = x # y # t" "c = CHR ''%''" "c_isxdigit x" "c_isxdigit y" by blast
      then have "length (url_chars t) \<le> length t" using 1 Cons by simp
      then show ?thesis using r Cons by (simp add: url_chars.simps(2)[of "CHR ''%''" "x # y # t"])
    next
      case False
      then have "url_chars (c # r) = (if c = CHR ''+'' then CHR '' '' else c) # url_chars r" by (auto simp: url_chars.simps(2)[of c r] split: list.splits)
      then show ?thesis using 1 Cons by simp
    qed
  qed simp
qed

lemma websDecodeUrl_insitu_path:
  assumes "CHR 0x00 \<notin> set path"
  shows "\<exists>b. websDecodeUrl_insitu (path @ [CHR 0x00]) (length path) = Some b \<and>
     map (\<lambda>c. if c = CHR 0x5C then CHR ''/'' else c) (c_str b) = decoded_path path"
proof -
  obtain q where "websDecodeUrl_insitu (path @ [CHR 0x00]) (length path) = Some (url_chars path @ CHR 0x00 # q)"
    using decode_here_spec[OF assms, of "[]" "[]" "[]" "length path"] url_chars_length[of path] by (auto simp: websDecodeUrl_insitu_def)
  moreover have "c_str (xs @ CHR 0x00 # q) = takeWhile (\<lambda>c. c \<noteq> CHR 0x00) xs" for xs by (induction xs) (auto simp: c_str_def)
  ultimately show ?thesis by (auto simp: decoded_path_def)
qed

lemma websValidateUrl_parts:
  assumes m: "\<forall>k. m k \<noteq> None" and at: "sym_at sc (cgiVars wp) st" and p: "CHR 0x00 \<notin> set path" and d: "wdir wp = Some dir" "root_len \<le> length dir"
  shows "case url_parts (c_tokens CHR ''/'' (decoded_path path)) [] 0 of
      None \<Rightarrow> websValidateUrl m sc True True st wp path = Some (st, wp, -1)
    | Some (parts, _) \<Rightarrow>
        (let p2 = after_tok (decoded_path path); base = (if c_has p2 JRD_CFGBAK then JRD_WEBRC_CFGBAK else dir) in
         if parts \<noteq> [] \<or> p2 = ''/'' \<or> p2 = [] then \<exists>st'. websValidateUrl m sc True True st wp path =
             Some (st', wp\<lparr>lpath := Some (base @ parts_text parts)\<rparr>, 0) \<and> sym_at sc (cgiVars wp) st' \<and>
             websGetVar sc st' (cgiVars wp) ''PATH_TRANSLATED'' None = Some (Some (base @ parts_text parts))
         else websValidateUrl m sc True True st wp path = Some (st, wp, -1))"
proof -
  obtain b where b: "websDecodeUrl_insitu (path @ [CHR 0x00]) (length path) = Some b"
    "map (\<lambda>c. if c = CHR 0x5C then CHR ''/'' else c) (c_str b) = decoded_path path" using websDecodeUrl_insitu_path[OF p] by blast
  have dn: "dir \<noteq> []" using d(2) by (auto simp: root_len_def JRD_WEBRC_CFGBAK_def)
  let ?p2 = "after_tok (decoded_path path)"
  let ?base = "if c_has ?p2 JRD_CFGBAK then JRD_WEBRC_CFGBAK else dir"
  show ?thesis
  proof (cases "url_parts (c_tokens CHR ''/'' (decoded_path path)) [] 0")
    case None
    then show ?thesis using b d(1) dn by (simp add: websValidateUrl_def bstrdup_def)
  next
    case (Some r)
    then obtain parts len where r: "url_parts (c_tokens CHR ''/'' (decoded_path path)) [] 0 = Some (parts, len)" by (cases r) auto
    have pl: "parts_len parts \<le> len" using url_parts_spec[OF r, of UNIV] by simp
    let ?n = "length dir + 1 + len + 1"
    have bl: "length ?base \<le> length dir" using d(2) by (simp add: root_len_def)
    have c: "c_strcat ?n [] ?base = Some ?base" "cat_parts ?n ?base parts = Some (?base @ parts_text parts)"
      using bl pl by (auto simp: c_strcat_def intro!: cat_parts_spec)
    have "balloc m (int ?n) \<noteq> None" using m balloc_None by blast
    then obtain bb where bb: "balloc m (int ?n) = Some bb" by blast
    obtain st' where st': "websSetRequestLpath sc True True st wp (?base @ parts_text parts) = Some (st', wp\<lparr>lpath := Some (?base @ parts_text parts)\<rparr>)"
      "sym_at sc (cgiVars wp) st'" "websGetVar sc st' (cgiVars wp) ''PATH_TRANSLATED'' None = Some (Some (?base @ parts_text parts))"
      using websSetRequestLpath_spec[OF at] by blast
    have v: "websValidateUrl m sc True True st wp path = (if parts \<noteq> [] \<or> ?p2 = ''/'' \<or> ?p2 = []
        then Some (st', wp\<lparr>lpath := Some (?base @ parts_text parts)\<rparr>, 0) else Some (st, wp, -1))"
      using b d(1) dn r bb c st'(1) unfolding websValidateUrl_def bstrdup_def by (simp add: Let_def)
    show ?thesis using r st'(2,3) unfolding v by (simp add: Let_def)
  qed
qed

section \<open>Properties\<close>

text \<open>
  C23. \<^verbatim>\<open>websDecodeUrl\<close> on a string, with at most \<open>n\<close> characters of output: decoding in place and
  decoding into a second buffer with room for the characters and a NUL both return and store the
  same characters, the first \<open>n\<close> of the decoded string, followed by a NUL; and the decoded string of
  the percent encoding of any bytes is those bytes.
\<close>

theorem websDecodeUrl_decodes:
  assumes "CHR 0x00 \<notin> set s" and "n < length room"
  shows "\<exists>q q'. websDecodeUrl_insitu (s @ CHR 0x00 # tail) n = Some (take n (url_chars s) @ CHR 0x00 # q) \<and>
     websDecodeUrl room (s @ CHR 0x00 # tail) n = Some (take n (url_chars s) @ CHR 0x00 # q') \<and>
     length (url_chars s) \<le> length s \<and> url_chars (url_enc t) = t"
proof -
  obtain q where "websDecodeUrl_insitu (s @ CHR 0x00 # tail) n = Some (take n (url_chars s) @ CHR 0x00 # q)"
    using decode_here_spec[OF assms(1), of "[]" "[]" tail n] by (auto simp: websDecodeUrl_insitu_def)
  moreover obtain q' where "websDecodeUrl room (s @ CHR 0x00 # tail) n = Some (take n (url_chars s) @ CHR 0x00 # q')"
    using decode_loop_spec[OF assms, of "[]" tail "[]"] by (auto simp: websDecodeUrl_def)
  ultimately show ?thesis using url_chars_length[of s] url_chars_enc[of t] by blast
qed

theorem websDecodeUrl_decodes_witness:
  "\<exists>q q'. websDecodeUrl_insitu (''a%2fb+c'' @ [CHR 0x00]) 8 = Some (''a/b c'' @ CHR 0x00 # q) \<and>
     websDecodeUrl (replicate 9 CHR 0x00) (''a%2fb+c'' @ [CHR 0x00]) 8 = Some (''a/b c'' @ CHR 0x00 # q')"
proof -
  have "CHR 0x00 \<notin> set ''a%2fb+c''" "8 < length (replicate 9 CHR 0x00)" by simp_all
  moreover have "hex_char CHR ''2'' CHR ''f'' = CHR ''/''" by code_simp
  moreover from this have "url_chars ''a%2fb+c'' = ''a/b c''" by (simp add: url_chars.simps c_isxdigit_def c_uchar_def)
  ultimately show ?thesis using websDecodeUrl_decodes[of "''a%2fb+c''" 8 "replicate 9 CHR 0x00" "[]"] by auto
qed

lemma condense_plain: "x \<noteq> c \<Longrightarrow> condense c (x # s) = x # condense c s"
  by (cases s) simp_all

lemma condense_runs: "condense c s \<noteq> pre @ c # c # post"
proof (induction c s arbitrary: pre rule: condense.induct)
  case (3 c x y r)
  show ?case
  proof (cases "x = c \<and> y = c")
    case True
    then show ?thesis using 3(1) by simp
  next
    case False
    then show ?thesis using 3(2) by (cases pre; cases "y = c") (auto simp: condense_plain)
  qed
qed (auto simp: Cons_eq_append_conv)

lemma condense_while:
  "dropWhile (\<lambda>d. d = c) (condense c s) = condense c (dropWhile (\<lambda>d. d = c) s)"
  "dropWhile (\<lambda>d. d \<noteq> c) (condense c s) = condense c (dropWhile (\<lambda>d. d \<noteq> c) s)"
  "takeWhile (\<lambda>d. d \<noteq> c) (condense c s) = takeWhile (\<lambda>d. d \<noteq> c) s"
  by (induction c s rule: condense.induct) auto

lemma condense_tokens: "c_tokens c (condense c s) = c_tokens c s"
proof (induction c s rule: c_tokens.induct)
  case (1 c s)
  show ?case
  proof (cases "dropWhile (\<lambda>d. d = c) s")
    case Nil
    show ?thesis unfolding c_tokens.simps[of c s] c_tokens.simps[of c "condense c s"] condense_while(1) Nil by simp
  next
    case (Cons x r)
    have "x \<noteq> c" using Cons dropWhile_eq_Cons_conv[of "\<lambda>d. d = c" s x r] by simp
    then show ?thesis
      using 1[OF Cons] unfolding c_tokens.simps[of c s] c_tokens.simps[of c "condense c s"] condense_while(1) Cons
      by (simp add: condense_plain condense_while(2,3))
  qed
qed



text \<open>
  C9. \<^verbatim>\<open>websValidateUrl\<close> cannot be led out of the web root. For every request path, with memory
  granted and a root name of at least the length of the backup directory's name, the call returns
  within its buffers. If it accepts the path, the file name is the root (or the directory of
  configuration backups) followed by at most eight parts, each preceded by a slash and none of
  them empty, \<open>.\<close> or \<open>..\<close>, or containing a slash, a backslash or a NUL, whatever escapes the
  path uses; \<^verbatim>\<open>PATH_TRANSLATED\<close> is set to it. If it refuses the path, nothing is changed.
\<close>

theorem websValidateUrl_confined:
  assumes "\<forall>k. m k \<noteq> None" and "sym_at sc (cgiVars wp) st" and "CHR 0x00 \<notin> set path" and "wdir wp = Some dir" and "root_len \<le> length dir"
  shows "\<exists>st' wp' rc. websValidateUrl m sc True True st wp path = Some (st', wp', rc) \<and>
     (rc = -1 \<and> st' = st \<and> wp' = wp \<or>
      rc = 0 \<and> (\<exists>base parts. base \<in> {dir, JRD_WEBRC_CFGBAK} \<and> length parts \<le> 8 \<and> (\<forall>p\<in>set parts. plain_part p) \<and>
        wp' = wp\<lparr>lpath := Some (base @ parts_text parts)\<rparr> \<and>
        websGetVar sc st' (cgiVars wp) ''PATH_TRANSLATED'' None = Some (Some (base @ parts_text parts))))"
proof (cases "url_parts (c_tokens CHR ''/'' (decoded_path path)) [] 0")
  case None
  then show ?thesis using websValidateUrl_parts[OF assms] by simp
next
  case (Some r)
  then obtain parts len where r: "url_parts (c_tokens CHR ''/'' (decoded_path path)) [] 0 = Some (parts, len)" by (cases r) auto
  have "CHR 0x5C \<notin> set (decoded_path path)" "CHR 0x00 \<notin> set (decoded_path path)"
    by (auto simp: decoded_path_def dest: set_takeWhileD)
  then have "length parts \<le> 8" "\<forall>p\<in>set parts. plain_part p"
    using url_parts_spec[OF r, of "set (c_tokens CHR ''/'' (decoded_path path))"] c_tokens_mem[of _ "CHR ''/''" "decoded_path path"]
    by (fastforce simp: plain_part_def MAX_URL_DEPTH_def)+
  moreover define base where "base = (if c_has (after_tok (decoded_path path)) JRD_CFGBAK then JRD_WEBRC_CFGBAK else dir)"
  moreover have "base \<in> {dir, JRD_WEBRC_CFGBAK}" by (simp add: base_def)
  ultimately show ?thesis
    using websValidateUrl_parts[OF assms] unfolding r by (simp add: Let_def flip: base_def split: if_splits) blast+
qed

theorem websValidateUrl_confined_witness:
  "\<exists>st wp' rc. websValidateUrl (\<lambda>_. Some (\<lambda>_. CHR 0x00)) True True True sym_sample demo_request ''/..%5c../etc/passwd'' = Some (st, wp', rc) \<and>
     (rc = 0 \<longrightarrow> (\<exists>parts. (\<forall>p\<in>set parts. plain_part p) \<and>
        (lpath wp' = Some (''/ipq-resource/resource/webrc/www'' @ parts_text parts) \<or> lpath wp' = Some (JRD_WEBRC_CFGBAK @ parts_text parts))))"
proof -
  have "sym_at True (cgiVars demo_request) sym_sample" using sym_sample_inv by (simp add: sym_at_def demo_request_def)
  moreover have "wdir demo_request = Some ''/ipq-resource/resource/webrc/www''" by (simp add: demo_request_def)
  moreover have "root_len \<le> length ''/ipq-resource/resource/webrc/www''" by (simp add: root_len_def JRD_WEBRC_CFGBAK_def)
  moreover have "\<forall>k :: int. (\<lambda>_. Some (\<lambda>_. CHR 0x00)) k \<noteq> None" "CHR 0x00 \<notin> set ''/..%5c../etc/passwd''" by simp_all
  ultimately show ?thesis
    using websValidateUrl_confined[of "\<lambda>_. Some (\<lambda>_. CHR 0x00)" True demo_request sym_sample "''/..%5c../etc/passwd''"] by fastforce
qed

end
