(* ===== verification/Uemf.thy ===== *)
theory Uemf
  imports Fmt
begin

text \<open>
  The string helpers of \<^verbatim>\<open>uemf.c\<close>: conversion to lower and upper case, \<^verbatim>\<open>stritoa\<close>, the search in a
  memory block \<^verbatim>\<open>xmemstr\<close>, and \<^verbatim>\<open>jrd_trim\<close>; and its error and trace handlers.
\<close>

section \<open>Case\<close>

definition c_isupper :: "char \<Rightarrow> bool" where
  "c_isupper c \<longleftrightarrow> 65 \<le> c_uchar c \<and> c_uchar c \<le> 90"

definition c_islower :: "char \<Rightarrow> bool" where
  "c_islower c \<longleftrightarrow> 97 \<le> c_uchar c \<and> c_uchar c \<le> 122"

fun strlower :: "cstring \<Rightarrow> cstring" where
  "strlower [] = []"
| "strlower (c # s) = (if c_isupper c then to_char (c_uchar c + 32) else c) # strlower s"

fun strupper :: "cstring \<Rightarrow> cstring" where
  "strupper [] = []"
| "strupper (c # s) = (if c_islower c then to_char (c_uchar c - 32) else c) # strupper s"

section \<open>Integers as text\<close>

text \<open>The loop that stores the digits, lowest first, in \<^verbatim>\<open>buf[16]\<close>; \<open>ds\<close> is what has been stored.\<close>

function stritoa_digits :: "int \<Rightarrow> int \<Rightarrow> byte list \<Rightarrow> (int \<times> byte list) option" where
  "stritoa_digits n lim ds =
     (if n > 9 \<and> int (length ds) < lim then
        if length ds < 16 then stritoa_digits (n div 10) lim (ds @ [to_char (n - n div 10 * 10 + 48)]) else None
      else Some (n, ds))"
  by pat_completeness auto
termination by (relation "measure (\<lambda>(n, lim, ds). nat n)") auto

declare stritoa_digits.simps [simp del]

definition stritoa :: "balloc_env \<Rightarrow> int \<Rightarrow> byte list option \<Rightarrow> int \<Rightarrow> byte list option option" where
  "stritoa m n string width =
     (case (case string of None \<Rightarrow> balloc m ((if width = 0 then 10 else width) + 1) | Some b \<Rightarrow> Some b) of
        None \<Rightarrow> Some None
      | Some b \<Rightarrow> do {
          let w0 = (if string = None \<and> width = 0 then 10 else width);
          n1 \<leftarrow> c_int \<bar>n\<bar>;
          let w = (if n < 0 then w0 - 1 else w0);
          (n2, ds) \<leftarrow> stritoa_digits n1 (w - 1) [];
          ds' \<leftarrow> (if int (length ds) < w - 1 then (if length ds < 16 then Some (ds @ [to_char (n2 + 48)]) else None) else Some ds);
          b' \<leftarrow> c_strcpy b ((if n < 0 then ''-'' else []) @ rev ds');
          Some (Some b') })"

section \<open>Searching a block\<close>

text \<open>
  The comparison with the rest of the pattern: \<open>Some None\<close> when the block ends first, else whether
  the whole pattern was found.
\<close>

fun xmem_match :: "cstring \<Rightarrow> byte list \<Rightarrow> int \<Rightarrow> bool option option" where
  "xmem_match [] locMem szMem = Some (Some True)"
| "xmem_match (f # fs) locMem szMem =
     (if szMem \<le> 0 then Some None
      else case locMem of
        [] \<Rightarrow> None
      | c # r \<Rightarrow> if c \<noteq> f then Some (Some False) else xmem_match fs r (szMem - 1))"

fun xmemstr_loop :: "char \<Rightarrow> cstring \<Rightarrow> byte list \<Rightarrow> nat \<Rightarrow> nat \<Rightarrow> nat option option" where
  "xmemstr_loop f fs memBlk 0 i = Some None"
| "xmemstr_loop f fs memBlk (Suc memSize) i =
     (case memBlk of
        [] \<Rightarrow> None
      | c # r \<Rightarrow>
          if c = f then do {
            q \<leftarrow> xmem_match fs r (int memSize);
            (case q of
               None \<Rightarrow> Some None
             | Some found \<Rightarrow> if found then Some (Some i) else xmemstr_loop f fs r memSize (i + 1)) }
          else xmemstr_loop f fs r memSize (i + 1))"

text \<open>The offset of the first occurrence; \<open>Some None\<close> is the null pointer.\<close>

definition xmemstr :: "byte list \<Rightarrow> cstring \<Rightarrow> int \<Rightarrow> nat option option" where
  "xmemstr memBlk pat memSize =
     (case pat of [] \<Rightarrow> Some (Some 0) | f # fs \<Rightarrow> xmemstr_loop f fs memBlk (nat memSize) 0)"

section \<open>Trimming\<close>

fun trim_move :: "byte list \<Rightarrow> nat \<Rightarrow> nat \<Rightarrow> nat \<Rightarrow> byte list option" where
  "trim_move t i s 0 = Some t"
| "trim_move t i s (Suc n) = do {
     c \<leftarrow> mem_read t (int (s + i));
     t' \<leftarrow> mem_write t (int s) c;
     trim_move t' i (s + 1) n }"

text \<open>\<open>trim_tail t n\<close> runs the last loop from position \<open>n - 1\<close> down.\<close>

fun trim_tail :: "byte list \<Rightarrow> nat \<Rightarrow> byte list option" where
  "trim_tail t 0 = Some t"
| "trim_tail t (Suc i) = do {
     c \<leftarrow> mem_read t (int i);
     if \<not> c_isspace c then Some t
     else do { t' \<leftarrow> mem_write t (int i) CHR 0x00; trim_tail t' i } }"

definition jrd_trim :: "byte list \<Rightarrow> byte list option" where
  "jrd_trim t = do {
     len \<leftarrow> c_strlen t;
     if len \<le> 0 then Some t
     else do {
       let i = length (takeWhile c_isspace (c_str t));
       let len1 = nat len - i;
       if len1 = 0 then mem_write t 0 CHR 0x00
       else do {
         t1 \<leftarrow> trim_move t i 0 len1;
         trim_tail t1 len1 } } }"

section \<open>Error and trace handlers\<close>

text \<open>The two handler pointers; \<open>'f\<close> are the functions they point to.\<close>

record 'f emf_handlers =
  errorHandler :: "'f option"
  traceHandler :: "'f option"

definition errorSetHandler :: "'f emf_handlers \<Rightarrow> 'f option \<Rightarrow> 'f emf_handlers \<times> 'f option" where
  "errorSetHandler st f = (st\<lparr>errorHandler := f\<rparr>, errorHandler st)"

definition traceSetHandler :: "'f emf_handlers \<Rightarrow> 'f option \<Rightarrow> 'f emf_handlers \<times> 'f option" where
  "traceSetHandler st f = (if f = None then st else st\<lparr>traceHandler := f\<rparr>, traceHandler st)"

section \<open>Case conversion\<close>

lemma strlower_length [simp]: "length (strlower s) = length s"
  by (induction s) auto

lemma case_chars:
  "c_isupper c \<Longrightarrow> c_islower (to_char (c_uchar c + 32))" "c_islower c \<Longrightarrow> c_isupper (to_char (c_uchar c - 32))"
  "c_isupper c \<Longrightarrow> \<not> c_islower c" "c_isupper c \<Longrightarrow> \<not> c_isupper (to_char (c_uchar c + 32))"
  "c_islower c \<Longrightarrow> (c_uchar c - 32) mod 256 = c_uchar c - 32"
  by (auto simp: c_isupper_def c_islower_def)

lemma strlower_idem: "strlower (strlower s) = strlower s"
  by (induction s) (auto simp: case_chars)

lemma strlower_strupper: "strlower (strupper s) = strlower s"
  by (induction s) (auto simp: case_chars)

lemma strlower_lower: "\<forall>c \<in> set s. \<not> c_isupper c \<Longrightarrow> strlower s = s"
  by (induction s) auto

section \<open>Numbers\<close>

lemma stritoa_digits_text:
  assumes "length ds + length (num_text 10 False n) \<le> 16" "int (length ds + length (num_text 10 False n)) \<le> lim"
  shows "\<exists>k ds'. stritoa_digits (int n) lim ds = Some (int k, ds') \<and> k < 10 \<and>
     rev (ds' @ [to_char (int k + 48)]) = num_text 10 False n @ rev ds"
  using assms
proof (induction n arbitrary: ds rule: less_induct)
  case (less n)
  have dc: "digit_char False k = to_char (int k + 48)" if "k < 10" for k
    using digit_char_uchar[OF that, of False] to_char_c_uchar[of "digit_char False k"] by (simp add: add.commute)
  show ?case
  proof (cases "n < 10")
    case True
    then show ?thesis by (simp add: stritoa_digits.simps num_text_def radix_single dc)
  next
    case False
    let ?d = "digit_char False (n mod 10)"
    have nt: "num_text 10 False n = num_text 10 False (n div 10) @ [?d]"
      using False by (simp add: num_text_def radix_step)
    have "int n - int n div 10 * 10 = int (n mod 10)"
      by (simp add: minus_div_mult_eq_mod zmod_int)
    then have st: "stritoa_digits (int n) lim ds = stritoa_digits (int (n div 10)) lim (ds @ [?d])"
      using False less.prems nt dc[of "n mod 10"] by (subst stritoa_digits.simps) (auto simp: zdiv_int)
    show ?thesis
      unfolding st using less.IH[of "n div 10" "ds @ [?d]"] less.prems False nt by simp
  qed
qed

lemma strcpy_text: "length s < length b \<Longrightarrow> c_strcpy b s = Some (s @ CHR 0x00 # drop (Suc (length s)) b)"
  by (simp add: c_strcpy_def mem_copy_def nat_add_distrib)

lemma stritoa_text:
  assumes "\<bar>n\<bar> < 2 ^ 31" "int (length (int_text n)) < width" "length (num_text 10 False (nat \<bar>n\<bar>)) \<le> 16" "length (int_text n) < length b"
  shows "stritoa m n (Some b) width = Some (Some (int_text n @ CHR 0x00 # drop (Suc (length (int_text n))) b))"
proof -
  let ?w = "if n < 0 then width - 1 else width"
  obtain k ds where d: "stritoa_digits \<bar>n\<bar> (?w - 1) [] = Some (int k, ds)"
      "rev (ds @ [to_char (int k + 48)]) = num_text 10 False (nat \<bar>n\<bar>)"
    using stritoa_digits_text[of "[]" "nat \<bar>n\<bar>" "?w - 1"] assms(2,3) by (auto simp: int_text_def split: if_splits)
  have l: "length ds + 1 = length (num_text 10 False (nat \<bar>n\<bar>))" using d(2) by (metis length_append length_rev list.size(3,4) add.commute One_nat_def plus_nat.add_0)
  then have "int (length ds) < ?w - 1" "length ds < 16" using assms(2,3) by (auto simp: int_text_def split: if_splits)
  moreover have "c_strcpy b (int_text n) = Some (int_text n @ CHR 0x00 # drop (Suc (length (int_text n))) b)"
    by (rule strcpy_text[OF assms(4)])
  moreover have "(if n < 0 then ''-'' else []) @ rev (ds @ [to_char (int k + 48)]) = int_text n" using d(2) by (simp add: int_text_def)
  moreover have "c_int \<bar>n\<bar> = Some \<bar>n\<bar>" using assms(1) by (simp add: c_int_def)
  ultimately show ?thesis using d(1) by (simp add: stritoa_def split: if_splits)
qed

section \<open>The search\<close>

definition occurs_at :: "cstring \<Rightarrow> byte list \<Rightarrow> nat \<Rightarrow> bool" where
  "occurs_at p b i \<longleftrightarrow> i + length p \<le> length b \<and> take (length p) (drop i b) = p"

lemma xmem_match_spec:
  "n \<le> length b \<Longrightarrow> xmem_match fs b (int n) =
     Some (if take (min n (length fs)) b = take (min n (length fs)) fs then (if n < length fs then None else Some True) else Some False)"
proof (induction fs arbitrary: b n)
  case Nil
  then show ?case by simp
next
  case (Cons f fs)
  show ?case
  proof (cases n)
    case 0
    then show ?thesis by simp
  next
    case (Suc k)
    then obtain c r where b: "b = c # r" using Cons.prems by (cases b) auto
    have "xmem_match fs r (int k) =
        Some (if take (min k (length fs)) r = take (min k (length fs)) fs then (if k < length fs then None else Some True) else Some False)"
      by (rule Cons.IH) (use Cons.prems Suc b in simp)
    then show ?thesis using Suc b by simp
  qed
qed

text \<open>Within the first \<open>n\<close> bytes.\<close>

lemma xmemstr_loop_spec:
  "n \<le> length b \<Longrightarrow> xmemstr_loop f fs b n i =
     Some (if \<exists>j. occurs_at (f # fs) (take n b) j then Some (i + (LEAST j. occurs_at (f # fs) (take n b) j)) else None)"
proof (induction n arbitrary: b i)
  case 0
  then show ?case by (simp add: occurs_at_def)
next
  case (Suc n)
  then obtain c r where b: "b = c # r" "n \<le> length r" by (cases b) auto
  let ?p = "f # fs"
  have suc: "occurs_at ?p (take (Suc n) b) (Suc j) \<longleftrightarrow> occurs_at ?p (take n r) j" for j using b by (simp add: occurs_at_def)
  have zero: "occurs_at ?p (take (Suc n) b) 0 \<longleftrightarrow> c = f \<and> length fs \<le> n \<and> take (length fs) r = fs"
    using b by (auto simp: occurs_at_def min_def)
  note m = xmem_match_spec[OF b(2), of fs]
  have next_: "xmemstr_loop f fs r n (i + 1) =
      Some (if \<exists>j. occurs_at ?p (take (Suc n) b) j then Some (i + (LEAST j. occurs_at ?p (take (Suc n) b) j)) else None)"
    if no: "\<not> occurs_at ?p (take (Suc n) b) 0"
  proof -
    have ex: "(\<exists>j. occurs_at ?p (take (Suc n) b) j) \<longleftrightarrow> (\<exists>j. occurs_at ?p (take n r) j)"
      using no suc by (metis not0_implies_Suc)
    have "(LEAST j. occurs_at ?p (take (Suc n) b) j) = Suc (LEAST j. occurs_at ?p (take n r) j)" if "occurs_at ?p (take n r) j" for j
      using Least_Suc[of "occurs_at ?p (take (Suc n) b)" "Suc j"] no suc that by simp
    then show ?thesis using Suc.IH[OF b(2), of "i + 1"] ex by auto
  qed
  show ?case
  proof (cases "occurs_at ?p (take (Suc n) b) 0")
    case True
    then have "(LEAST j. occurs_at ?p (take (Suc n) b) j) = 0" by (intro Least_equality) auto
    then show ?thesis using True zero m b by (auto simp: min_absorb2)
  next
    case False
    show ?thesis
    proof (cases "c = f \<and> n < length fs \<and> take n r = take n fs")
      case True
      then have "\<not> occurs_at ?p (take (Suc n) b) j" for j by (auto simp: occurs_at_def b)
      then show ?thesis using True m b by (simp add: min_absorb1)
    next
      case nt: False
      then have "c = f \<longrightarrow> xmem_match fs r (int n) = Some (Some False)"
        using m False zero by (auto simp: min_def split: if_splits)
      then show ?thesis using next_[OF False] b by auto
    qed
  qed
qed

section \<open>Trimming in place\<close>

lemma trim_move_spec:
  "length t = s + i + n + k \<Longrightarrow> trim_move t i s n = Some (take s t @ take n (drop (s + i) t) @ drop (s + n) t)"
proof (induction n arbitrary: t s k)
  case 0
  then show ?case by simp
next
  case (Suc n)
  let ?t = "t[s := t ! (s + i)]"
  have "trim_move ?t i (s + 1) n = Some (take (s + 1) ?t @ take n (drop (s + 1 + i) ?t) @ drop (s + 1 + n) ?t)"
    by (rule Suc.IH[where k = k]) (use Suc.prems in simp)
  moreover have "take (s + 1) ?t = take s t @ [t ! (s + i)]" using Suc.prems by (simp add: take_Suc_conv_app_nth)
  moreover have "t ! (s + i) # drop (Suc (s + i)) t = drop (s + i) t" using Suc.prems by (simp add: Cons_nth_drop_Suc)
  moreover have "nat (int s + int i) = s + i" "nat (int s) = s" by linarith+
  ultimately show ?case using Suc.prems by (simp add: mem_read_def mem_write_def flip: \<open>_ # _ = _\<close>)
qed

lemma trim_tail_spec:
  "n \<le> length t \<Longrightarrow> trim_tail t n = Some (let k = length (takeWhile c_isspace (rev (take n t))) in take (n - k) t @ replicate k CHR 0x00 @ drop n t)"
proof (induction n arbitrary: t)
  case 0
  then show ?case by simp
next
  case (Suc n)
  then have r: "mem_read t (int n) = Some (t ! n)" "mem_write t (int n) CHR 0x00 = Some (t[n := CHR 0x00])"
    by (simp_all add: mem_read_def mem_write_def)
  have tk: "take (Suc n) t = take n t @ [t ! n]" using Suc.prems by (simp add: take_Suc_conv_app_nth)
  show ?case
  proof (cases "c_isspace (t ! n)")
    case False
    then show ?thesis using r tk append_take_drop_id[of "Suc n" t] by simp
  next
    case True
    define k where "k = length (takeWhile c_isspace (rev (take n t)))"
    have k: "k \<le> n" using length_takeWhile_le[of c_isspace "rev (take n t)"] Suc.prems by (simp add: k_def)
    have "trim_tail (t[n := CHR 0x00]) n = Some (take (n - k) t @ replicate k CHR 0x00 @ CHR 0x00 # drop (Suc n) t)"
      using Suc.IH[of "t[n := CHR 0x00]"] Suc.prems by (simp add: Let_def drop_update_here flip: k_def)
    then show ?thesis using True r tk by (simp add: Let_def replicate_app_Cons_same flip: k_def)
  qed
qed

text \<open>
  C30. \<^verbatim>\<open>xmemstr\<close> on a block of at least \<^verbatim>\<open>memSize\<close> bytes never reads past them and returns the offset of
  the first occurrence of the pattern within them, or the null pointer when there is none.
\<close>

theorem xmemstr_first:
  assumes "0 \<le> memSize" "nat memSize \<le> length memBlk"
  shows "\<exists>r. xmemstr memBlk pat memSize = Some r \<and>
     (case r of None \<Rightarrow> \<forall>i. \<not> occurs_at pat (take (nat memSize) memBlk) i
      | Some i \<Rightarrow> occurs_at pat (take (nat memSize) memBlk) i \<and> (\<forall>j<i. \<not> occurs_at pat (take (nat memSize) memBlk) j))"
proof (cases pat)
  case Nil
  then show ?thesis by (simp add: xmemstr_def occurs_at_def)
next
  case (Cons f fs)
  then show ?thesis using xmemstr_loop_spec[OF assms(2), of f fs 0]
    by (auto simp: xmemstr_def intro: LeastI_ex dest: not_less_Least)
qed

theorem xmemstr_first_witness:
  "xmemstr ''aab--ab--x'' ''--x'' 10 = Some (Some 7) \<and> occurs_at ''--x'' (take 10 ''aab--ab--x'') 7 \<and>
   xmemstr ''aab--ab--x'' ''--x'' 9 = Some None \<and> \<not> occurs_at ''--x'' (take 9 ''aab--ab--x'') 3"
proof -
  have v: "xmemstr ''aab--ab--x'' ''--x'' 10 = Some (Some 7)" "xmemstr ''aab--ab--x'' ''--x'' 9 = Some None"
    by (simp_all add: xmemstr_def numeral_eq_Suc)
  then show ?thesis
    using xmemstr_first[of 10 "''aab--ab--x''" "''--x''"] xmemstr_first[of 9 "''aab--ab--x''" "''--x''"] by simp
qed

lemma rev_trim: "take (length r - length (takeWhile c_isspace (rev r))) r = rev (dropWhile c_isspace (rev r))"
  by (metis append_eq_conv_conj length_append length_rev rev_append rev_rev_ident takeWhile_dropWhile_id diff_add_inverse)

text \<open>
  \<^verbatim>\<open>jrd_trim\<close> on every string: without leading blanks, or with trailing ones, it removes the white
  space at both ends; with leading blanks only, it moves the text to the front and leaves the old
  tail behind it, because it does not store a NUL after the moved text.
\<close>

theorem jrd_trim_result:
  assumes "CHR 0x00 \<notin> set s"
  defines "r \<equiv> dropWhile c_isspace s" and "core \<equiv> rev (dropWhile c_isspace (rev (dropWhile c_isspace s)))"
  shows "\<exists>t. jrd_trim (s @ [CHR 0x00]) = Some t \<and> length t = length s + 1 \<and>
     c_str t = (if r = s \<or> core \<noteq> r \<or> r = [] then core else r @ drop (length r) s)"
proof -
  define i where "i = length (takeWhile c_isspace s)"
  have s: "r = drop i s" "length r = length s - i" "i \<le> length s" "CHR 0x00 \<notin> set r"
    using assms(1) set_dropWhileD[of _ c_isspace s] length_takeWhile_le[of c_isspace s] by (auto simp: r_def i_def dropWhile_eq_drop)
  have cs: "c_str (x @ CHR 0x00 # y) = x" if "CHR 0x00 \<notin> set x" for x y using c_str_NUL[OF that] by simp
  have st: "c_strlen (s @ [CHR 0x00]) = Some (int (length s))" "c_str (s @ [CHR 0x00]) = s"
    using cs[OF assms(1), of "[]"] assms(1) by (auto simp: c_strlen_def c_str_def)
  have jr: "jrd_trim (s @ [CHR 0x00]) =
      (if s = [] then Some [CHR 0x00] else if length s - i = 0 then mem_write (s @ [CHR 0x00]) 0 CHR 0x00
       else do { t1 \<leftarrow> trim_move (s @ [CHR 0x00]) i 0 (length s - i); trim_tail t1 (length s - i) })"
    by (simp add: jrd_trim_def st i_def Let_def)
  show ?thesis
  proof (cases "r = []")
    case True
    then have c: "core = []" unfolding core_def by (simp add: r_def[symmetric])
    show ?thesis
    proof (cases s)
      case Nil
      then show ?thesis using jr cs[of "[]" "[]"] c by simp
    next
      case (Cons a s')
      then have "jrd_trim (s @ [CHR 0x00]) = Some (CHR 0x00 # s' @ [CHR 0x00])"
        using jr True s(2) by (simp add: mem_write_def)
      then show ?thesis using Cons c cs[of "[]" "s' @ [CHR 0x00]"] True by simp
    qed
  next
    case False
    define n where "n = length r"
    define t1 where "t1 = r @ drop n s @ [CHR 0x00]"
    define k where "k = length (takeWhile c_isspace (rev r))"
    have n: "n = length s - i" "0 < n" "n \<le> length s" using s False by (auto simp: n_def)
    have "trim_move (s @ [CHR 0x00]) i 0 n = Some (take n (drop i (s @ [CHR 0x00])) @ drop n (s @ [CHR 0x00]))"
      using trim_move_spec[of "s @ [CHR 0x00]" 0 i n 1] n s(3) by simp
    then have m: "trim_move (s @ [CHR 0x00]) i 0 n = Some t1" using n s by (simp add: t1_def)
    have "take n t1 = r" by (simp add: t1_def n_def)
    then have tt: "trim_tail t1 n = Some (take (n - k) r @ replicate k CHR 0x00 @ drop n s @ [CHR 0x00])"
      using trim_tail_spec[of n t1] by (simp add: t1_def n_def k_def Let_def)
    have core: "take (n - k) r = core" unfolding n_def k_def rev_trim core_def r_def ..
    have kl: "k \<le> n" using length_takeWhile_le[of c_isspace "rev r"] by (simp add: k_def n_def)
    have j: "jrd_trim (s @ [CHR 0x00]) = Some (core @ replicate k CHR 0x00 @ drop n s @ [CHR 0x00])"
      using jr n m tt core by (cases s) simp_all
    have rs: "r = s \<longleftrightarrow> i = 0" using s(1-3) n(1,2) by (cases "i = 0") (auto dest: arg_cong[of _ _ length])
    have k0: "k = 0 \<longleftrightarrow> core = r" using kl n(2) unfolding core[symmetric] n_def by auto
    have cl: "CHR 0x00 \<notin> set core" using s(4) set_take_subset[of "n - k" r] by (auto simp: core[symmetric])
    have len: "length core = n - k" using kl by (simp add: core[symmetric] n_def)
    show ?thesis
    proof (cases k)
      case 0
      have "CHR 0x00 \<notin> set (r @ drop n s)" using s(4) assms(1) set_drop_subset[of n s] by auto
      then have "c_str (core @ drop n s @ [CHR 0x00]) = r @ drop n s" using cs[of "r @ drop n s" "[]"] 0 k0 by simp
      then show ?thesis using j 0 k0 n False rs len kl by (auto simp: n_def)
    next
      case (Suc k')
      then have "c_str (core @ replicate k CHR 0x00 @ drop n s @ [CHR 0x00]) = core" using cs[OF cl] by simp
      then show ?thesis using j Suc k0 n len kl by auto
    qed
  qed
qed

theorem jrd_trim_result_witness:
  "map_option c_str (jrd_trim (''  ab'' @ [CHR 0x00])) = Some ''abab'' \<and> map_option c_str (jrd_trim (''ab  '' @ [CHR 0x00])) = Some ''ab''"
  using jrd_trim_result[of "''  ab''"] jrd_trim_result[of "''ab  ''"] by (auto simp: c_isspace_def c_uchar_def)

text \<open>
  \<^verbatim>\<open>stritoa\<close> writes the decimal text of the number with its NUL and nothing else, for every number
  whose text is shorter than the width and than the buffer.
\<close>

theorem stritoa_writes:
  assumes "\<bar>n\<bar> < 2 ^ 31" "int (length (int_text n)) < width" "width \<le> 16" "width \<le> int (length b)"
  shows "stritoa m n (Some b) width = Some (Some (int_text n @ CHR 0x00 # drop (Suc (length (int_text n))) b))"
  using assms by (intro stritoa_text) (auto simp: int_text_def split: if_splits)

theorem stritoa_writes_witness:
  "stritoa (\<lambda>_. None) (-8080) (Some (replicate 8 CHR ''x'')) 8 = Some (Some (int_text (-8080) @ CHR 0x00 # ''xx'')) \<and> int_text (-8080) = ''-8080''"
proof -
  have "to_char 56 = CHR ''8''" "to_char 48 = CHR ''0''" using to_char_c_uchar[of "CHR ''8''"] to_char_c_uchar[of "CHR ''0''"] by (simp_all add: c_uchar_def)
  then have "int_text (-8080) = ''-8080''" by (simp add: int_text_def num_text_def radix.simps digit_char_def)
  then show ?thesis using stritoa_writes[of "-8080" 8 "replicate 8 CHR ''x''"] by (simp add: numeral_eq_Suc)
qed

end
