(* ===== verification/Url.thy ===== *)
theory Url
  imports Paths Uemf Mime
begin

text \<open>
  URL parsing, \<^verbatim>\<open>url.c\<close>. \<^verbatim>\<open>websUrlParse\<close> decodes the URL into a block, cuts it up in place and returns
  pointers into the block or to literals; a third of the block holds copies of the host and the port.
  \<^verbatim>\<open>websUrlType\<close> looks the extension up in the table of MIME types.
\<close>

section \<open>Pointers\<close>

datatype url_ptr = InBuf nat | Lit cstring

definition url_read :: "byte list \<Rightarrow> url_ptr \<Rightarrow> cstring option" where
  "url_read b p = (case p of InBuf i \<Rightarrow> str_at b i | Lit s \<Rightarrow> Some s)"

text \<open>\<^verbatim>\<open>gstrchr\<close> from an offset: the position found, \<open>Some None\<close> at the end of the string.\<close>

definition strchr_at :: "byte list \<Rightarrow> nat \<Rightarrow> char \<Rightarrow> nat option option" where
  "strchr_at b i c =
     (let j = i + length (takeWhile (\<lambda>x. x \<noteq> c \<and> x \<noteq> CHR 0x00) (drop i b))
      in if j < length b then Some (if b ! j = c then Some j else None) else None)"

record url_fields =
  ubuf :: "byte list"
  uhost :: url_ptr
  upath :: url_ptr
  uport :: url_ptr
  uquery :: url_ptr
  uproto :: url_ptr
  utag :: url_ptr
  uext :: url_ptr

definition MAX_PORT_LEN :: nat where "MAX_PORT_LEN = 10"

definition htmExt :: cstring where "htmExt = ''.htm''"

section \<open>The parser\<close>

text \<open>The loop over the host; after a colon it steps over the character that follows.\<close>

function url_colons :: "byte list \<Rightarrow> nat \<Rightarrow> nat \<Rightarrow> url_ptr \<Rightarrow> (byte list \<times> nat \<times> url_ptr) option" where
  "url_colons b cp tok port =
     (if cp < length b then
        if b ! cp = CHR 0x00 \<or> b ! cp = CHR ''/'' then Some (b, tok, port)
        else if b ! cp = CHR '':'' then url_colons (b[cp := CHR 0x00]) (cp + 2) (cp + 1) (InBuf (cp + 1))
        else url_colons b (cp + 1) tok port
      else None)"
  by pat_completeness auto
termination by (relation "measure (\<lambda>(b, cp, tok, port). length b - cp)") auto

declare url_colons.simps [simp del]

text \<open>A URL that starts with \<^verbatim>\<open>http://\<close>: host, port and path; the last component is \<^verbatim>\<open>tok\<close>.\<close>

definition url_absolute :: "byte list \<Rightarrow> nat \<Rightarrow> nat \<Rightarrow> nat \<Rightarrow> (url_fields \<times> nat) option" where
  "url_absolute b0 ulen hostbuf portbuf = do {
     b1 \<leftarrow> mem_write b0 4 CHR 0x00;
     (b2, tok, port) \<leftarrow> url_colons b1 7 7 (InBuf portbuf);
     sl \<leftarrow> strchr_at b2 tok CHR ''/'';
     let f = \<lparr>ubuf = b2, uhost = InBuf 7, upath = Lit ''/'', uport = port, uquery = Lit [], uproto = InBuf 0, utag = Lit [], uext = Lit htmExt\<rparr>;
     (case sl of
        None \<Rightarrow> Some (f, tok)
      | Some cp \<Rightarrow> do {
          let b3 = b2[cp := CHR 0x00];
          h \<leftarrow> str_at b3 7;
          b4 \<leftarrow> c_strncpy (drop hostbuf b3) h (int ulen);
          let b5 = take hostbuf b3 @ b4;
          p \<leftarrow> url_read b5 port;
          b6 \<leftarrow> c_strncpy (drop portbuf b5) p (int MAX_PORT_LEN);
          let b7 = take portbuf b5 @ b6;
          Some (f\<lparr>ubuf := b7[cp := CHR ''/''], uhost := InBuf hostbuf, uport := InBuf portbuf, upath := InBuf cp\<rparr>, cp) }) }"

definition url_relative :: "byte list \<Rightarrow> nat \<Rightarrow> (url_fields \<times> nat) option" where
  "url_relative b portbuf =
     Some (\<lparr>ubuf = b, uhost = Lit ''localhost'', upath = InBuf 0, uport = InBuf portbuf, uquery = Lit [], uproto = Lit ''http'', utag = Lit [],
            uext = Lit htmExt\<rparr>, 0)"

text \<open>The fragment, then the query.\<close>

definition url_frag :: "url_fields \<Rightarrow> nat \<Rightarrow> url_fields option" where
  "url_frag f tok = do {
     h \<leftarrow> strchr_at (ubuf f) tok CHR ''#'';
     (case h of
        None \<Rightarrow> Some f
      | Some cp \<Rightarrow> do {
          let b = (ubuf f)[cp := CHR 0x00];
          qs \<leftarrow> url_read b (uquery f);
          Some (f\<lparr>ubuf := b, upath := (if qs = [] then InBuf tok else upath f)\<rparr>) }) }"

definition url_tail :: "url_fields \<Rightarrow> nat \<Rightarrow> url_fields option" where
  "url_tail f tok = do {
     q \<leftarrow> strchr_at (ubuf f) tok CHR ''?'';
     (case q of
        None \<Rightarrow> url_frag f tok
      | Some cp \<Rightarrow> url_frag (f\<lparr>ubuf := (ubuf f)[cp := CHR 0x00], uquery := InBuf (cp + 1), upath := InBuf tok\<rparr>) (cp + 1)) }"

text \<open>The length of the extension at the start of \<open>s\<close> when only slashes follow it.\<close>

definition ext_len :: "cstring \<Rightarrow> nat option" where
  "ext_len s =
     (let g = [CHR ''/'', CHR 0x5C];
          len = length (takeWhile (\<lambda>c. c \<notin> set g) s);
          garbageLength = length (takeWhile (\<lambda>c. c \<in> set g) (drop len s))
      in if len + garbageLength = length s then Some len else None)"

definition url_ext :: "url_fields \<Rightarrow> url_fields option" where
  "url_ext f = do {
     p \<leftarrow> url_read (ubuf f) (upath f);
     (case c_strrchr p CHR ''.'' of
        None \<Rightarrow> Some f
      | Some cp \<Rightarrow>
          (case ext_len (drop cp p) of
             None \<Rightarrow> Some f
           | Some len \<Rightarrow>
               (case upath f of
                  Lit _ \<Rightarrow> None
                | InBuf i \<Rightarrow> do {
                    b \<leftarrow> mem_write (ubuf f) (int (i + cp + len)) CHR 0x00;
                    Some (f\<lparr>ubuf := b, uext := InBuf (i + cp)\<rparr>) }))) }"

text \<open>
  \<^verbatim>\<open>websPort\<close> is the listen port, \<open>pext\<close> whether the caller asks for the extension; \<open>Some None\<close> is the
  result -1.
\<close>

definition websUrlParse :: "balloc_env \<Rightarrow> int \<Rightarrow> bool \<Rightarrow> cstring \<Rightarrow> url_fields option option" where
  "websUrlParse m websPort pext u =
     (let ulen = length u;
          len = ulen * 2 + MAX_PORT_LEN + 3;
          portbuf = len - MAX_PORT_LEN - 1;
          hostbuf = ulen + 1
      in case balloc m (int len) of
        None \<Rightarrow> Some None
      | Some b0 \<Rightarrow> do {
          b1 \<leftarrow> websDecodeUrl b0 (u @ [CHR 0x00]) ulen;
          pb \<leftarrow> stritoa m websPort (Some (drop portbuf b1)) (int MAX_PORT_LEN);
          pb1 \<leftarrow> pb;
          let b2 = take portbuf b1 @ pb1;
          (f, tok) \<leftarrow> (if take 7 (c_str b2) = ''http://'' then url_absolute b2 ulen hostbuf portbuf else url_relative b2 portbuf);
          f1 \<leftarrow> url_tail f tok;
          f2 \<leftarrow> (if pext then url_ext f1 else Some f1);
          Some (Some f2) })"

text \<open>
  The MIME type of a URL, stored in \<open>b\<close>; \<open>st\<close> and \<open>websMime\<close> are the symbol tables and the handle of the
  table of types.
\<close>

definition websUrlType :: "balloc_env \<Rightarrow> bool \<Rightarrow> sym_state \<Rightarrow> int \<Rightarrow> int \<Rightarrow> cstring \<Rightarrow> byte list \<Rightarrow> int \<Rightarrow> byte list option" where
  "websUrlType m sc st websMime websPort u b charCnt =
     (if u = [] then c_strcpy b ''text/plain''
      else do {
        r \<leftarrow> websUrlParse m websPort True u;
        (case r of
           None \<Rightarrow> c_strcpy b ''text/plain''
         | Some f \<Rightarrow> do {
             e \<leftarrow> url_read (ubuf f) (uext f);
             sp \<leftarrow> symLookup sc st websMime (Some (strlower e));
             (case sp of
                None \<Rightarrow> c_strcpy b ''text/plain''
              | Some sy \<Rightarrow> do {
                  s \<leftarrow> value_string (content sy);
                  c_strncpy b s charCnt }) }) })"

section \<open>Strings in the block\<close>

lemma str_at_here: "CHR 0x00 \<notin> set s \<Longrightarrow> str_at (x @ s @ CHR 0x00 # q) (length x) = Some s"
  by (simp add: str_at_def takeWhile_append)

lemma strchr_at_here:
  assumes "CHR 0x00 \<notin> set s" "c \<noteq> CHR 0x00"
  shows "strchr_at (x @ s @ CHR 0x00 # q) (length x) c = Some (if c \<in> set s then Some (length x + length (takeWhile (\<lambda>y. y \<noteq> c) s)) else None)"
proof -
  have "takeWhile (\<lambda>y. y \<noteq> c \<and> y \<noteq> CHR 0x00) (s @ CHR 0x00 # q) = takeWhile (\<lambda>y. y \<noteq> c) s"
    using assms(1) by (induction s) auto
  moreover have "(s @ CHR 0x00 # q) ! length (takeWhile (\<lambda>y. y \<noteq> c) s) = (if c \<in> set s then c else CHR 0x00)"
    using assms(1) by (induction s) auto
  moreover have "length (takeWhile (\<lambda>y. y \<noteq> c) s) \<le> length s" by (rule length_takeWhile_le)
  ultimately show ?thesis using assms(2) by (simp add: strchr_at_def nth_append Let_def)
qed

lemma split_char: "c \<in> set s \<Longrightarrow> s = takeWhile (\<lambda>y. y \<noteq> c) s @ c # tl (dropWhile (\<lambda>y. y \<noteq> c) s)"
  by (induction s) auto

lemma cut_here: "(x @ p @ c # s)[length x + length p := d] = x @ p @ d # s"
  by (simp add: list_update_append)

section \<open>What the parser returns\<close>

text \<open>Path and query of the part of the URL from the path on.\<close>

definition url_query :: "cstring \<Rightarrow> cstring" where
  "url_query t = takeWhile (\<lambda>c. c \<noteq> CHR ''#'') (tl (dropWhile (\<lambda>c. c \<noteq> CHR ''?'') t))"

definition url_path :: "cstring \<Rightarrow> cstring" where
  "url_path t =
     (if CHR ''?'' \<in> set t then
        if CHR ''#'' \<in> set (tl (dropWhile (\<lambda>c. c \<noteq> CHR ''?'') t)) \<and> url_query t = [] then [] else takeWhile (\<lambda>c. c \<noteq> CHR ''?'') t
      else takeWhile (\<lambda>c. c \<noteq> CHR ''#'') t)"

text \<open>A path and its extension.\<close>

definition path_ext :: "cstring \<Rightarrow> cstring \<times> cstring" where
  "path_ext p =
     (case c_strrchr p CHR ''.'' of
        None \<Rightarrow> (p, htmExt)
      | Some cp \<Rightarrow> (case ext_len (drop cp p) of None \<Rightarrow> (p, htmExt) | Some l \<Rightarrow> (take (cp + l) p, take l (drop cp p))))"

text \<open>What \<open>url_tail\<close> leaves: the path and, behind it, the query.\<close>

definition tail_shape :: "byte list \<Rightarrow> cstring \<Rightarrow> url_fields \<Rightarrow> url_fields \<Rightarrow> bool" where
  "tail_shape x t f f' \<longleftrightarrow> (\<exists>i y r. upath f' = InBuf i \<and> i = length y \<and> length x \<le> i \<and> take (length x) y = x \<and> i + length (url_path t) \<le> length x + length t \<and>
     ubuf f' = y @ url_path t @ CHR 0x00 # r \<and>
     (uquery f' = Lit [] \<and> url_query t = [] \<or>
      (\<exists>j. uquery f' = InBuf j \<and> (i + length (url_path t) < j \<or> url_path t = []) \<and> str_at (ubuf f') j = Some (url_query t))) \<and>
     uhost f' = uhost f \<and> uport f' = uport f \<and> uproto f' = uproto f \<and> uext f' = uext f)"

lemma url_no_query: "CHR ''?'' \<notin> set t \<Longrightarrow> url_query t = [] \<and> url_path t = takeWhile (\<lambda>c. c \<noteq> CHR ''#'') t"
proof -
  assume n: "CHR ''?'' \<notin> set t"
  then have "dropWhile (\<lambda>c. c \<noteq> CHR ''?'') t = []" by (induction t) auto
  then show ?thesis using n unfolding url_query_def url_path_def by (simp only: if_False simp_thms list.sel takeWhile.simps)
qed

lemma tail_shapeI:
  assumes "upath f' = InBuf (length y)" "length x \<le> length y" "take (length x) y = x" "ubuf f' = y @ url_path t @ CHR 0x00 # r"
    "uquery f' = Lit [] \<and> url_query t = [] \<or>
     uquery f' = InBuf j \<and> (length y + length (url_path t) < j \<or> url_path t = []) \<and> str_at (ubuf f') j = Some (url_query t)"
    "uhost f' = uhost f" "uport f' = uport f" "uproto f' = uproto f" "uext f' = uext f" "length y + length (url_path t) \<le> length x + length t"
  shows "tail_shape x t f f'"
  unfolding tail_shape_def using assms by (intro exI[of _ "length y"] exI[of _ y] exI[of _ r] conjI) auto

lemma url_tail_spec:
  assumes z: "CHR 0x00 \<notin> set t" and f: "ubuf f = x @ t @ CHR 0x00 # q" "upath f = InBuf (length x)" "uquery f = Lit []"
  shows "\<exists>f'. url_tail f (length x) = Some f' \<and> tail_shape x t f f' \<and>
     (\<exists>t'. length t' = length t \<and> ubuf f' = x @ t' @ CHR 0x00 # q)"
proof (cases "CHR ''?'' \<in> set t")
  case False
  note tw = url_no_query[OF False]
  show ?thesis
  proof (cases "CHR ''#'' \<in> set t")
    case h: False
    have "takeWhile (\<lambda>c. c \<noteq> CHR ''#'') t = t" using h by (induction t) auto
    then have "url_path t = t" using tw by (simp only: simp_thms)
    then have "tail_shape x t f f" using f conjunct1[OF tw] by (intro tail_shapeI[where y = x and r = q]) simp_all
    moreover have "url_tail f (length x) = Some f" using f False h z by (simp add: url_tail_def url_frag_def strchr_at_here)
    ultimately show ?thesis using f by blast
  next
    case h: True
    define p where "p = takeWhile (\<lambda>c. c \<noteq> CHR ''#'') t"
    define s where "s = tl (dropWhile (\<lambda>c. c \<noteq> CHR ''#'') t)"
    have t: "t = p @ CHR ''#'' # s" unfolding p_def s_def by (rule split_char[OF h])
    let ?f = "f\<lparr>ubuf := x @ p @ CHR 0x00 # s @ CHR 0x00 # q, upath := InBuf (length x)\<rparr>"
    have cut: "(x @ t @ CHR 0x00 # q)[length x + length p := CHR 0x00] = x @ p @ CHR 0x00 # s @ CHR 0x00 # q"
      using cut_here[of x p "CHR ''#''" "s @ CHR 0x00 # q"] by (simp add: t)
    have "url_tail f (length x) = Some ?f"
      using f False h z by (simp add: url_tail_def url_frag_def strchr_at_here Let_def url_read_def cut flip: p_def)
    moreover have "tail_shape x t f ?f"
      by (rule tail_shapeI[where y = x and r = "s @ CHR 0x00 # q"]) (use f tw[folded p_def] arg_cong[OF t, of length] in \<open>simp_all\<close>)
    moreover have "length (p @ CHR 0x00 # s) = length t" using t by simp
    ultimately show ?thesis by (intro exI[of _ ?f]) (auto intro!: exI[of _ "p @ CHR 0x00 # s"])
  qed
next
  case True
  define p where "p = takeWhile (\<lambda>c. c \<noteq> CHR ''?'') t"
  define s where "s = tl (dropWhile (\<lambda>c. c \<noteq> CHR ''?'') t)"
  have t: "t = p @ CHR ''?'' # s" unfolding p_def s_def by (rule split_char[OF True])
  have zs: "CHR 0x00 \<notin> set s" "CHR 0x00 \<notin> set p" using z t by auto
  let ?x = "x @ p @ [CHR 0x00]"
  define f1 where "f1 = f\<lparr>ubuf := x @ p @ CHR 0x00 # s @ CHR 0x00 # q, uquery := InBuf (length ?x), upath := InBuf (length x)\<rparr>"
  have b1: "ubuf f1 = ?x @ s @ CHR 0x00 # q" "uquery f1 = InBuf (length ?x)" by (simp_all add: f1_def)
  have cut: "(x @ t @ CHR 0x00 # q)[length x + length p := CHR 0x00] = x @ p @ CHR 0x00 # s @ CHR 0x00 # q"
    using cut_here[of x p "CHR ''?''" "s @ CHR 0x00 # q"] by (simp add: t)
  have step: "url_tail f (length x) = url_frag f1 (length ?x)"
    using f True z by (simp add: url_tail_def strchr_at_here cut f1_def flip: p_def)
  have ul: "url_query t = takeWhile (\<lambda>c. c \<noteq> CHR ''#'') s" by (simp add: url_query_def s_def)
  show ?thesis
  proof (cases "CHR ''#'' \<in> set s")
    case False
    then have qs: "takeWhile (\<lambda>c. c \<noteq> CHR ''#'') s = s" by (induction s) auto
    have "url_tail f (length x) = Some f1"
      unfolding step url_frag_def b1(1) using False strchr_at_here[OF zs(1), of "CHR ''#''" ?x q] by simp
    moreover have "str_at (ubuf f1) (length ?x) = Some (url_query t)" unfolding b1 ul qs by (rule str_at_here[OF zs(1)])
    then have "tail_shape x t f f1"
      by (intro tail_shapeI[where y = x and r = "s @ CHR 0x00 # q" and j = "length ?x"]) (use False True arg_cong[OF t, of length] in \<open>simp_all add: url_path_def f1_def flip: p_def s_def\<close>)
    moreover have "length (p @ CHR 0x00 # s) = length t" using t by simp
    ultimately show ?thesis by (intro exI[of _ f1]) (auto simp: f1_def intro!: exI[of _ "p @ CHR 0x00 # s"])
  next
    case h: True
    define qs where "qs = takeWhile (\<lambda>c. c \<noteq> CHR ''#'') s"
    define w where "w = tl (dropWhile (\<lambda>c. c \<noteq> CHR ''#'') s)"
    have s: "s = qs @ CHR ''#'' # w" unfolding qs_def w_def by (rule split_char[OF h])
    have zq: "CHR 0x00 \<notin> set qs" using zs s by auto
    define b where "b = ?x @ qs @ CHR 0x00 # w @ CHR 0x00 # q"
    have cb: "(ubuf f1)[length ?x + length qs := CHR 0x00] = b"
      unfolding b1 b_def s using cut_here[of ?x qs "CHR ''#''" "w @ CHR 0x00 # q"] by simp
    have rd: "str_at b (length ?x) = Some qs" unfolding b_def by (rule str_at_here[OF zq])
    define f2 where "f2 = f1\<lparr>ubuf := b, upath := (if qs = [] then InBuf (length ?x) else InBuf (length x))\<rparr>"
    have "strchr_at (ubuf f1) (length ?x) CHR ''#'' = Some (Some (length ?x + length qs))"
      unfolding b1 using strchr_at_here[OF zs(1), of "CHR ''#''" ?x q] h by (simp add: qs_def)
    then have "url_tail f (length x) = Some f2"
      unfolding step url_frag_def using cb rd b1(2) by (simp add: url_read_def f2_def Let_def) (simp add: f1_def)
    moreover have "tail_shape x t f f2"
    proof (cases "qs = []")
      case True
      then have "url_path t = []" using h \<open>CHR ''?'' \<in> set t\<close> by (simp add: url_path_def ul qs_def flip: s_def)
      then show ?thesis
        by (intro tail_shapeI[where y = ?x and r = "w @ CHR 0x00 # q" and j = "length ?x"])
          (use True rd ul qs_def arg_cong[OF t, of length] in \<open>simp_all add: f2_def f1_def b_def\<close>)
    next
      case False
      then have "url_path t = p" using \<open>CHR ''?'' \<in> set t\<close> by (simp add: url_path_def ul qs_def p_def)
      then show ?thesis
        by (intro tail_shapeI[where y = x and r = "qs @ CHR 0x00 # w @ CHR 0x00 # q" and j = "length ?x"])
          (use False rd ul qs_def arg_cong[OF t, of length] in \<open>simp_all add: f2_def f1_def b_def\<close>)
    qed
    moreover have "length (p @ CHR 0x00 # qs @ CHR 0x00 # w) = length t" using t s by simp
    ultimately show ?thesis by (intro exI[of _ f2]) (auto simp: f2_def b_def intro!: exI[of _ "p @ CHR 0x00 # qs @ CHR 0x00 # w"])
  qed
qed

lemma c_strrchr_less: "c_strrchr s c = Some i \<Longrightarrow> i < length s"
proof -
  assume a: "c_strrchr s c = Some i"
  then have "0 < length s" by (auto simp: c_strrchr_def split: if_splits)
  then show ?thesis using a by (auto simp: c_strrchr_def split: if_splits)
qed

lemma ext_len_le: "ext_len s = Some l \<Longrightarrow> l \<le> length s"
  using length_takeWhile_le by (auto simp: ext_len_def Let_def split: if_splits)

lemma url_path_chars: "c \<in> set (url_path t) \<Longrightarrow> c \<in> set t"
  by (auto simp: url_path_def dest: set_takeWhileD split: if_splits)

text \<open>The extension; only bytes of the path change.\<close>

lemma url_ext_spec:
  assumes z: "CHR 0x00 \<notin> set t" and s: "tail_shape x t f f'" and e: "uext f = Lit htmExt"
  shows "\<exists>f2. url_ext f' = Some f2 \<and> url_read (ubuf f2) (upath f2) = Some (fst (path_ext (url_path t))) \<and>
     url_read (ubuf f2) (uext f2) = Some (snd (path_ext (url_path t))) \<and> url_read (ubuf f2) (uquery f2) = Some (url_query t) \<and>
     uhost f2 = uhost f \<and> uport f2 = uport f \<and> uproto f2 = uproto f \<and>
     (ubuf f2 = ubuf f' \<or> (\<exists>k. length x \<le> k \<and> k \<le> length x + length t \<and> ubuf f2 = (ubuf f')[k := CHR 0x00]))"
proof -
  define p where "p = url_path t"
  obtain y r where y: "upath f' = InBuf (length y)" "length x \<le> length y" "ubuf f' = y @ p @ CHR 0x00 # r"
      "length y + length p \<le> length x + length t" "uhost f' = uhost f" "uport f' = uport f" "uproto f' = uproto f" "uext f' = Lit htmExt"
    and q: "uquery f' = Lit [] \<and> url_query t = [] \<or>
      (\<exists>j. uquery f' = InBuf j \<and> (length y + length p < j \<or> p = []) \<and> str_at (ubuf f') j = Some (url_query t))"
    using s unfolding tail_shape_def p_def e by metis
  have zp: "CHR 0x00 \<notin> set p" using z url_path_chars p_def by blast
  have rp: "url_read (ubuf f') (upath f') = Some p" using str_at_here[OF zp, of y r] y by (simp add: url_read_def)
  have rq: "url_read (ubuf f') (uquery f') = Some (url_query t)" using q by (auto simp: url_read_def)
  show ?thesis
  proof (cases "\<exists>cp l. c_strrchr p CHR ''.'' = Some cp \<and> ext_len (drop cp p) = Some l")
    case False
    then have "url_ext f' = Some f'" "path_ext p = (p, htmExt)" using rp by (auto simp: url_ext_def path_ext_def split: option.splits)
    then show ?thesis using rp rq y(5-8) by (simp add: url_read_def flip: p_def)
  next
    case True
    then obtain cp l where c: "c_strrchr p CHR ''.'' = Some cp" "ext_len (drop cp p) = Some l" by blast
    have l: "cp + l \<le> length p" "p \<noteq> []" using c_strrchr_less[OF c(1)] ext_len_le[OF c(2)] by auto
    define k where "k = length y + cp + l"
    define b where "b = (ubuf f')[k := CHR 0x00]"
    obtain c0 r' where r': "drop (cp + l) p @ CHR 0x00 # r = c0 # r'" by (cases "drop (cp + l) p") auto
    have sp: "p @ CHR 0x00 # r = take cp p @ take l (drop cp p) @ c0 # r'"
      unfolding r'[symmetric] by (metis append_assoc append_take_drop_id take_add)
    have tk: "take (cp + l) p = take cp p @ take l (drop cp p)" by (rule take_add)
    have "b = (y @ (take cp p @ take l (drop cp p)) @ c0 # r')[length y + length (take cp p @ take l (drop cp p)) := CHR 0x00]"
      using l by (simp add: b_def y(3) sp k_def min_absorb2 add.assoc)
    then have b: "b = y @ (take cp p @ take l (drop cp p)) @ CHR 0x00 # r'" by (simp only: cut_here)
    have u: "url_ext f' = Some (f'\<lparr>ubuf := b, uext := InBuf (length y + cp)\<rparr>)"
      using rp c y(1) l by (simp add: url_ext_def mem_write_def b_def k_def y(3) add.assoc nat_add_distrib)
    have px: "path_ext p = (take (cp + l) p, take l (drop cp p))" using c by (simp add: path_ext_def)
    have z1: "CHR 0x00 \<notin> set (take cp p @ take l (drop cp p))" "CHR 0x00 \<notin> set (take l (drop cp p))"
      using zp by (auto dest: in_set_takeD in_set_dropD)
    have "str_at b (length y) = Some (take (cp + l) p)" unfolding b tk by (rule str_at_here[OF z1(1)])
    moreover have "str_at b (length (y @ take cp p)) = Some (take l (drop cp p))" using str_at_here[OF z1(2), of "y @ take cp p" r'] b by simp
    moreover have "str_at b j = str_at (ubuf f') j" if "length y + length p < j" for j
      using that l by (simp add: str_at_def b_def k_def)
    then have "url_read b (uquery f') = Some (url_query t)" using q l(2) by (auto simp: url_read_def)
    moreover have "length x \<le> k" "k \<le> length x + length t" using y(2,4) l by (auto simp: k_def)
    ultimately show ?thesis using u px y l(1) b_def
      by (intro exI[of _ "f'\<lparr>ubuf := b, uext := InBuf (length y + cp)\<rparr>"]) (auto simp: url_read_def min_absorb2 simp flip: p_def)
  qed
qed

section \<open>The block\<close>

lemma port_text:
  assumes "0 \<le> p" "p < 65536"
  shows "length (int_text p) \<le> 5" "CHR 0x00 \<notin> set (int_text p)"
proof -
  have r: "length (radix 10 n) \<le> Suc k" if "n < 10 ^ Suc k" for n k :: nat using that
  proof (induction k arbitrary: n)
    case (Suc k)
    then show ?case by (cases "n < 10") (simp_all add: radix_single radix_step)
  qed (simp add: radix_single)
  have "nat p < 10 ^ Suc 4" using assms by simp
  then show "length (int_text p) \<le> 5" using r[of "nat p" 4] assms by (simp add: int_text_def num_text_def)
  show "CHR 0x00 \<notin> set (int_text p)" using num_text_clean[of 10 False] assms by (simp add: int_text_def)
qed

text \<open>The block after decoding and printing the port: the URL, then free space, then the port.\<close>

lemma url_block:
  assumes m: "\<forall>n. m n \<noteq> None" and z: "CHR 0x00 \<notin> set u" and p: "0 \<le> p" "p < 65536"
  defines "d \<equiv> c_str (url_chars u)" and "pb \<equiv> 2 * length u + 2"
  shows "\<exists>w v. length (d @ CHR 0x00 # w) = pb \<and> length v = 10 - length (int_text p) \<and>
     websUrlParse m p ext u = do {
       (f, tok) \<leftarrow> (if take 7 d = ''http://'' then url_absolute (d @ CHR 0x00 # w @ int_text p @ CHR 0x00 # v) (length u) (length u + 1) pb
                    else url_relative (d @ CHR 0x00 # w @ int_text p @ CHR 0x00 # v) pb);
       f1 \<leftarrow> url_tail f tok;
       f2 \<leftarrow> (if ext then url_ext f1 else Some f1);
       Some (Some f2) }"
proof -
  define len where "len = length u * 2 + 13"
  obtain b0 where b0: "balloc m (int len) = Some b0" "length b0 = len" using m[rule_format, of "int len"] balloc_length[of m "int len"] by (cases "balloc m (int len)") auto
  obtain q where q: "websDecodeUrl b0 (u @ [CHR 0x00]) (length u) = Some (url_chars u @ CHR 0x00 # q)" "length (url_chars u) + Suc (length q) = len"
    using decode_loop_spec[OF z, of "length u" b0 "[]" "[]" "[]"] b0(2) url_chars_length[of u] by (auto simp: websDecodeUrl_def len_def)
  define b1 where "b1 = url_chars u @ CHR 0x00 # q"
  have nz: "CHR 0x00 \<in> set (take pb b1)" using url_chars_length[of u] q(2) by (simp add: b1_def pb_def min_def take_Cons')
  have cd: "c_str (take pb b1 @ z) = d" for z
  proof -
    have "take pb b1 = url_chars u @ CHR 0x00 # take (pb - length (url_chars u) - 1) q" using url_chars_length[of u] by (simp add: b1_def pb_def take_Cons')
    then show ?thesis by (simp add: d_def c_str_def takeWhile_tail del: takeWhile_append)
  qed
  obtain w where w: "take pb b1 = d @ CHR 0x00 # w"
    using split_char[OF nz] cd[of "[]"] by (auto simp: c_str_def)
  have lb: "length b1 = len" "pb + 11 = len" using q(2) by (simp_all add: b1_def pb_def len_def)
  define v where "v = drop (Suc (length (int_text p))) (drop pb b1)"
  have "stritoa m p (Some (drop pb b1)) 10 = Some (Some (int_text p @ CHR 0x00 # v))"
    unfolding v_def by (rule stritoa_text) (use p port_text(1)[OF p] lb in \<open>auto simp: int_text_def\<close>)
  moreover have "len = length u * 2 + MAX_PORT_LEN + 3" "pb = length u * 2 + MAX_PORT_LEN + 3 - MAX_PORT_LEN - 1"
    by (simp_all add: len_def pb_def MAX_PORT_LEN_def)
  moreover have "c_str (take pb b1 @ int_text p @ CHR 0x00 # v) = d" by (rule cd)
  moreover have "length v = 10 - length (int_text p)" using lb by (simp add: v_def)
  moreover have "length (d @ CHR 0x00 # w) = pb" using lb by (simp flip: w)
  ultimately show ?thesis using b0(1) q(1)[folded b1_def] w
    by (intro exI[of _ w] exI[of _ v]) (simp add: websUrlParse_def Let_def MAX_PORT_LEN_def)
qed

section \<open>Absolute URLs\<close>

lemma url_colons_skip:
  "CHR 0x00 \<notin> set s \<Longrightarrow> CHR ''/'' \<notin> set s \<Longrightarrow> CHR '':'' \<notin> set s \<Longrightarrow> r \<noteq> [] \<Longrightarrow>
     url_colons (x @ s @ r) (length x) tok port = url_colons (x @ s @ r) (length x + length s) tok port"
proof (induction s arbitrary: x)
  case (Cons c s)
  have "url_colons ((x @ [c]) @ s @ r) (length (x @ [c])) tok port = url_colons ((x @ [c]) @ s @ r) (length (x @ [c]) + length s) tok port"
    by (rule Cons.IH) (use Cons.prems in auto)
  then show ?case using Cons.prems by (subst url_colons.simps) (auto simp: nth_append)
qed simp

lemma url_colons_stop: "url_colons (x @ CHR ''/'' # r) (length x) tok port = Some (x @ CHR ''/'' # r, tok, port)"
  by (subst url_colons.simps) simp

text \<open>Host and optional port in front of the slash at which the path starts.\<close>

lemma url_colons_host:
  assumes "CHR 0x00 \<notin> set h" "CHR ''/'' \<notin> set h" "CHR '':'' \<notin> set h"
  shows "url_colons (x @ h @ CHR ''/'' # r) (length x) (length x) port = Some (x @ h @ CHR ''/'' # r, length x, port)"
  using url_colons_skip[OF assms, of "CHR ''/'' # r" x] url_colons_stop[of "x @ h" r] by simp

lemma url_colons_port:
  assumes h: "CHR 0x00 \<notin> set h" "CHR ''/'' \<notin> set h" "CHR '':'' \<notin> set h" and p: "CHR 0x00 \<notin> set p" "CHR ''/'' \<notin> set p" "CHR '':'' \<notin> set p" "p \<noteq> []"
  shows "url_colons (x @ h @ CHR '':'' # p @ CHR ''/'' # r) (length x) (length x) port =
     Some (x @ h @ CHR 0x00 # p @ CHR ''/'' # r, length x + length h + 1, InBuf (length x + length h + 1))"
proof -
  let ?y = "x @ h @ [CHR 0x00]"
  obtain c s where c: "p = c # s" using p(4) by (cases p) auto
  have s: "CHR 0x00 \<notin> set s" "CHR ''/'' \<notin> set s" "CHR '':'' \<notin> set s" using p c by auto
  have "url_colons (x @ h @ CHR '':'' # p @ CHR ''/'' # r) (length x) (length x) port =
      url_colons (x @ h @ CHR '':'' # p @ CHR ''/'' # r) (length x + length h) (length x) port"
    using url_colons_skip[OF h, of "CHR '':'' # p @ CHR ''/'' # r" x] by simp
  also have "\<dots> = url_colons ((?y @ [c]) @ s @ CHR ''/'' # r) (length (?y @ [c])) (length ?y) (InBuf (length ?y))"
    by (subst url_colons.simps) (simp add: nth_append list_update_append c)
  also have "\<dots> = Some ((?y @ [c]) @ s @ CHR ''/'' # r, length ?y, InBuf (length ?y))"
    using url_colons_skip[OF s, of "CHR ''/'' # r" "?y @ [c]"] url_colons_stop[of "(?y @ [c]) @ s" r] by (simp add: add.assoc)
  finally show ?thesis by (simp add: c)
qed

lemma strcpy_str: "length s < length b \<Longrightarrow> CHR 0x00 \<notin> set s \<Longrightarrow> \<exists>b'. c_strcpy b s = Some b' \<and> length b' = length b \<and> c_str b' = s"
  by (simp add: strcpy_text c_str_NUL)

lemma strncpy_text:
  assumes "length s < n" "n \<le> length b"
  shows "c_strncpy b s (int n) = Some (s @ replicate (n - length s) CHR 0x00 @ drop n b)"
  using assms by (simp add: c_strncpy_def mem_copy_def min_def)

text \<open>The two forms of the authority: what the loop leaves of it, the start of the last part, the port.\<close>

inductive url_authority :: "cstring \<Rightarrow> byte list \<Rightarrow> nat \<Rightarrow> cstring \<Rightarrow> cstring option \<Rightarrow> bool" where
  host_only: "url_authority h h 0 h None"
| host_port: "p \<noteq> [] \<Longrightarrow> length p < 10 \<Longrightarrow> CHR 0x00 \<notin> set p \<Longrightarrow> CHR ''/'' \<notin> set p \<Longrightarrow> CHR '':'' \<notin> set p \<Longrightarrow>
    url_authority (h @ CHR '':'' # p) (h @ CHR 0x00 # p) (length h + 1) h (Some p)"

lemma url_authority_split:
  assumes "url_authority a y o1 h p" and h: "CHR 0x00 \<notin> set h" "CHR ''/'' \<notin> set h" "CHR '':'' \<notin> set h"
  shows "length y = length a \<and> o1 \<le> length y \<and> length h \<le> length a \<and> CHR 0x00 \<notin> set (drop o1 y) \<and> CHR ''/'' \<notin> set (drop o1 y)"
    and "url_colons (x @ a @ CHR ''/'' # r) (length x) (length x) q =
       Some (x @ y @ CHR ''/'' # r, length x + o1, case p of None \<Rightarrow> q | Some _ \<Rightarrow> InBuf (length x + o1))"
    and "str_at (x @ y @ CHR 0x00 # r) (length x) = Some h"
    and "p = Some ps \<Longrightarrow> str_at (x @ y @ CHR 0x00 # r) (length x + o1) = Some ps \<and> length ps < 10 \<and> CHR 0x00 \<notin> set ps"
proof -
  consider "a = h" "y = h" "o1 = 0" "p = None"
    | p0 where "a = h @ CHR '':'' # p0" "y = h @ CHR 0x00 # p0" "o1 = length h + 1" "p = Some p0" "p0 \<noteq> []" "length p0 < 10"
        "CHR 0x00 \<notin> set p0" "CHR ''/'' \<notin> set p0" "CHR '':'' \<notin> set p0"
    using assms(1) by (auto elim: url_authority.cases)
  note c = this
  show "length y = length a \<and> o1 \<le> length y \<and> length h \<le> length a \<and> CHR 0x00 \<notin> set (drop o1 y) \<and> CHR ''/'' \<notin> set (drop o1 y)"
    by (cases rule: c) (use h in simp_all)
  show "url_colons (x @ a @ CHR ''/'' # r) (length x) (length x) q =
       Some (x @ y @ CHR ''/'' # r, length x + o1, case p of None \<Rightarrow> q | Some _ \<Rightarrow> InBuf (length x + o1))"
    by (cases rule: c) (use url_colons_host[OF h] url_colons_port[OF h] in \<open>simp_all add: add.assoc\<close>)
  show "str_at (x @ y @ CHR 0x00 # r) (length x) = Some h"
  proof (cases rule: c)
    case 1
    then show ?thesis using str_at_here[OF h(1)] by simp
  next
    case (2 p0)
    then show ?thesis using str_at_here[OF h(1), of x "p0 @ CHR 0x00 # r"] by simp
  qed
  show "p = Some ps \<Longrightarrow> str_at (x @ y @ CHR 0x00 # r) (length x + o1) = Some ps \<and> length ps < 10 \<and> CHR 0x00 \<notin> set ps"
    by (cases rule: c) (use str_at_here[of ps "x @ h @ [CHR 0x00]" r] in \<open>simp_all add: add.assoc\<close>)
qed

lemma url_absolute_spec:
  assumes a: "url_authority a y o1 h p" "CHR 0x00 \<notin> set h" "CHR ''/'' \<notin> set h" "CHR '':'' \<notin> set h"
    and t: "CHR 0x00 \<notin> set t" and dp: "CHR 0x00 \<notin> set P" "length P < 10" "length v = 10 - length P"
    and n: "7 + length a + Suc (length t) \<le> n" "7 + length a + Suc (length t) + Suc (length w) = 2 * n + 2"
  defines "x \<equiv> ''http'' @ CHR 0x00 # ''//'' @ y" and "ps \<equiv> (case p of None \<Rightarrow> P | Some s \<Rightarrow> s)"
  shows "\<exists>f Q. url_absolute (''http://'' @ a @ CHR ''/'' # t @ CHR 0x00 # w @ P @ CHR 0x00 # v) n (n + 1) (2 * n + 2) = Some (f, length x) \<and>
     ubuf f = x @ (CHR ''/'' # t) @ CHR 0x00 # Q \<and> upath f = InBuf (length x) \<and> uquery f = Lit [] \<and> uext f = Lit htmExt \<and>
     uproto f = InBuf 0 \<and> uhost f = InBuf (n + 1) \<and> uport f = InBuf (2 * n + 2) \<and>
     str_at (ubuf f) (n + 1) = Some h \<and> str_at (ubuf f) (2 * n + 2) = Some ps"
proof -
  note s = url_authority_split[OF a]
  define X where "X = ''http'' @ CHR 0x00 # ''//''"
  have X: "length X = 7" "x = X @ y" by (simp_all add: X_def x_def)
  define PP where "PP = P @ CHR 0x00 # v"
  define D where "D = x @ CHR 0x00 # t"
  have lx: "length x = 7 + length a" using s(1) X by simp
  have b1: "mem_write (''http://'' @ a @ CHR ''/'' # t @ CHR 0x00 # w @ PP) 4 CHR 0x00 = Some (X @ a @ CHR ''/'' # t @ CHR 0x00 # w @ PP)"
    by (simp add: mem_write_def numeral_eq_Suc X_def)
  define port where "port = (case p of None \<Rightarrow> InBuf (2 * n + 2) | Some _ \<Rightarrow> InBuf (7 + o1))"
  have b2: "url_colons (X @ a @ CHR ''/'' # t @ CHR 0x00 # w @ PP) 7 7 (InBuf (2 * n + 2)) =
      Some (x @ CHR ''/'' # t @ CHR 0x00 # w @ PP, 7 + o1, port)"
    using s(2)[of X "t @ CHR 0x00 # w @ PP" "InBuf (2 * n + 2)"] X by (cases p) (simp_all add: port_def)
  have sp: "x @ CHR ''/'' # t @ CHR 0x00 # w @ PP = (X @ take o1 y) @ (drop o1 y @ CHR ''/'' # t) @ CHR 0x00 # w @ PP" by (simp add: X)
  have "takeWhile (\<lambda>c. c \<noteq> CHR ''/'') (drop o1 y @ CHR ''/'' # t) = drop o1 y" using s(1) by (subst takeWhile_append2) auto
  then have sl: "strchr_at (x @ CHR ''/'' # t @ CHR 0x00 # w @ PP) (7 + o1) CHR ''/'' = Some (Some (length x))"
    unfolding sp using strchr_at_here[of "drop o1 y @ CHR ''/'' # t" "CHR ''/''" "X @ take o1 y" "w @ PP"] s(1) t X lx by simp
  have b3: "(x @ CHR ''/'' # t @ CHR 0x00 # w @ PP)[length x := CHR 0x00] = D @ CHR 0x00 # w @ PP" by (simp add: D_def)
  have h3: "str_at (D @ CHR 0x00 # w @ PP) 7 = Some h" using s(3)[of X "t @ CHR 0x00 # w @ PP"] X by (simp add: D_def)
  define w1 where "w1 = take (n - length D) w"
  define w2 where "w2 = drop (n - length D) w"
  have lD: "length D = 8 + length a + length t" using lx by (simp add: D_def)
  have lw: "length (D @ CHR 0x00 # w1) = n + 1" "length w2 = n + 1" using n lD by (simp_all add: w1_def w2_def)
  have w: "w = w1 @ w2" by (simp add: w1_def w2_def)
  have lh: "length h < n" using s(1) n by simp
  define z where "z = replicate (n - length h) CHR 0x00"
  have dr: "drop (n + 1) (D @ CHR 0x00 # w @ PP) = w2 @ PP" "take (n + 1) (D @ CHR 0x00 # w @ PP) = D @ CHR 0x00 # w1"
    using lw(1) append_eq_conv_conj[of "D @ CHR 0x00 # w1" "w2 @ PP" "D @ CHR 0x00 # w @ PP"] by (simp_all add: w)
  define w3 where "w3 = h @ z @ drop n w2"
  have b4: "c_strncpy (w2 @ PP) h (int n) = Some (w3 @ PP)"
    using strncpy_text[OF lh, of "w2 @ PP"] lw(2) by (simp add: z_def w3_def)
  have l3: "length w3 = n + 1" using lw(2) lh by (simp add: w3_def z_def)
  have pr: "url_read (D @ CHR 0x00 # w1 @ w3 @ PP) port = Some ps"
  proof (cases p)
    case None
    have "length (D @ CHR 0x00 # w1 @ w3) = 2 * n + 2" using lw(1) l3 by simp
    then have "str_at (D @ CHR 0x00 # w1 @ w3 @ PP) (2 * n + 2) = Some P"
      using str_at_here[OF dp(1), of "D @ CHR 0x00 # w1 @ w3" v] by (simp add: PP_def)
    then show ?thesis using None by (simp add: port_def ps_def url_read_def)
  next
    case (Some q)
    then show ?thesis using s(4)[OF Some, of X "t @ CHR 0x00 # w1 @ w3 @ PP"] X by (simp add: port_def ps_def url_read_def D_def)
  qed
  have lp: "length ps < 10" "CHR 0x00 \<notin> set ps" using s(4) dp by (auto simp: ps_def split: option.splits)
  define z1 where "z1 = replicate (10 - length ps) CHR 0x00 @ drop 10 PP"
  have l5: "length (D @ CHR 0x00 # w1 @ w3) = 2 * n + 2" using lw(1) l3 by simp
  have d5: "drop (2 * n + 2) (D @ CHR 0x00 # w1 @ w3 @ PP) = PP" "take (2 * n + 2) (D @ CHR 0x00 # w1 @ w3 @ PP) = D @ CHR 0x00 # w1 @ w3"
    using l5 append_eq_conv_conj[of "D @ CHR 0x00 # w1 @ w3" PP "D @ CHR 0x00 # w1 @ w3 @ PP"] by simp_all
  have b6: "c_strncpy PP ps (int MAX_PORT_LEN) = Some (ps @ z1)"
    using strncpy_text[OF lp(1), of PP] dp by (simp add: PP_def z1_def MAX_PORT_LEN_def)
  define b where "b = x @ (CHR ''/'' # t) @ CHR 0x00 # w1 @ w3 @ ps @ z1"
  have b7: "(D @ CHR 0x00 # w1 @ w3 @ ps @ z1)[length x := CHR ''/''] = b" by (simp add: D_def b_def)
  let ?f = "\<lparr>ubuf = b, uhost = InBuf (n + 1), upath = InBuf (length x), uport = InBuf (2 * n + 2), uquery = Lit [], uproto = InBuf 0, utag = Lit [], uext = Lit htmExt\<rparr>"
  have "url_absolute (''http://'' @ a @ CHR ''/'' # t @ CHR 0x00 # w @ P @ CHR 0x00 # v) n (n + 1) (2 * n + 2) = Some (?f, length x)"
    unfolding url_absolute_def PP_def[symmetric] b1
    by (simp only: b2 sl b3 h3 dr b4 pr d5 b6 b7 Option.bind.simps prod.case option.case Let_def append_assoc append_Cons
        url_fields.update_convs url_fields.select_convs)
  moreover have lens: "length (x @ (CHR ''/'' # t) @ CHR 0x00 # w1) = n + 1" "length (x @ (CHR ''/'' # t) @ CHR 0x00 # w1 @ w3) = 2 * n + 2"
    using lw(1) l5 by (simp_all add: D_def)
  obtain z' z1' where zz: "z = CHR 0x00 # z'" "z1 = CHR 0x00 # z1'" using lh lp(1)
    by (cases "n - length h"; cases "10 - length ps") (auto simp: z_def z1_def)
  have "str_at b (n + 1) = Some h"
    using str_at_here[OF a(2), of "x @ (CHR ''/'' # t) @ CHR 0x00 # w1" "z' @ drop n w2 @ ps @ z1"] lens(1) zz by (simp add: b_def w3_def)
  moreover have "str_at b (2 * n + 2) = Some ps"
    using str_at_here[OF lp(2), of "x @ (CHR ''/'' # t) @ CHR 0x00 # w1 @ w3" z1'] lens(2) zz by (simp add: b_def)
  ultimately show ?thesis by (intro exI[of _ ?f] exI[of _ "w1 @ w3 @ ps @ z1"]) (simp add: b_def)
qed

section \<open>Properties\<close>

text \<open>
  The forms of a decoded URL \<open>d\<close>: a local one, with the defaults of the server, or one that names a
  host and possibly a port; \<open>t\<close> is the part from the path on.
\<close>

inductive url_form :: "int \<Rightarrow> cstring \<Rightarrow> cstring \<Rightarrow> cstring \<Rightarrow> cstring \<Rightarrow> bool" where
  local: "take 7 d \<noteq> ''http://'' \<Longrightarrow> url_form n d ''localhost'' (int_text n) d"
| remote: "url_authority a y o1 h p \<Longrightarrow> CHR ''/'' \<notin> set h \<Longrightarrow> CHR '':'' \<notin> set h \<Longrightarrow>
    url_form n (''http://'' @ a @ CHR ''/'' # t) h (case p of None \<Rightarrow> int_text n | Some s \<Rightarrow> s) (CHR ''/'' # t)"

lemma str_at_beyond: "drop k b = drop k b' \<Longrightarrow> k \<le> j \<Longrightarrow> str_at b j = str_at b' j"
  by (metis str_at_def drop_drop le_add_diff_inverse2)

text \<open>Query, fragment and extension leave what lies before the path and behind the URL.\<close>

lemma url_finish:
  assumes z: "CHR 0x00 \<notin> set t" and f: "ubuf f = x @ t @ CHR 0x00 # q" "upath f = InBuf (length x)" "uquery f = Lit []" "uext f = Lit htmExt"
  shows "\<exists>f1 f2. url_tail f (length x) = Some f1 \<and> url_ext f1 = Some f2 \<and>
     url_read (ubuf f2) (upath f2) = Some (fst (path_ext (url_path t))) \<and> url_read (ubuf f2) (uext f2) = Some (snd (path_ext (url_path t))) \<and>
     url_read (ubuf f2) (uquery f2) = Some (url_query t) \<and> uhost f2 = uhost f \<and> uport f2 = uport f \<and> uproto f2 = uproto f \<and>
     (\<exists>r. ubuf f2 = x @ r) \<and> (\<forall>j. length x + length t < j \<longrightarrow> str_at (ubuf f2) j = str_at (ubuf f) j)"
proof -
  obtain f1 t' where f1: "url_tail f (length x) = Some f1" "tail_shape x t f f1" "length t' = length t" "ubuf f1 = x @ t' @ CHR 0x00 # q"
    using url_tail_spec[OF z f(1-3)] by blast
  obtain f2 where f2: "url_ext f1 = Some f2" "url_read (ubuf f2) (upath f2) = Some (fst (path_ext (url_path t)))"
     "url_read (ubuf f2) (uext f2) = Some (snd (path_ext (url_path t)))" "url_read (ubuf f2) (uquery f2) = Some (url_query t)"
     "uhost f2 = uhost f" "uport f2 = uport f" "uproto f2 = uproto f"
     and k: "ubuf f2 = ubuf f1 \<or> (\<exists>k. length x \<le> k \<and> k \<le> length x + length t \<and> ubuf f2 = (ubuf f1)[k := CHR 0x00])"
    using url_ext_spec[OF z f1(2) f(4)] by blast
  have "\<exists>r. ubuf f2 = x @ r" using k f1(4) by (auto simp: list_update_append)
  moreover have "drop (length x + length t + 1) (ubuf f2) = drop (length x + length t + 1) (ubuf f)" using k f1(3,4) f(1) by auto
  then have "\<forall>j. length x + length t < j \<longrightarrow> str_at (ubuf f2) j = str_at (ubuf f) j" using str_at_beyond by auto
  ultimately show ?thesis using f1(1) f2 by blast
qed

lemma websUrlParse_spec:
  assumes "\<forall>n. m n \<noteq> None" and "CHR 0x00 \<notin> set u" and "0 \<le> n" "n < 65536"
    and "url_form n (c_str (url_chars u)) h p t"
  shows "\<exists>f. websUrlParse m n True u = Some (Some f) \<and> url_read (ubuf f) (uhost f) = Some h \<and> url_read (ubuf f) (uport f) = Some p \<and>
     url_read (ubuf f) (uproto f) = Some ''http'' \<and> url_read (ubuf f) (upath f) = Some (fst (path_ext (url_path t))) \<and>
     url_read (ubuf f) (uext f) = Some (snd (path_ext (url_path t))) \<and> url_read (ubuf f) (uquery f) = Some (url_query t)"
proof -
  define d where "d = c_str (url_chars u)"
  have zd: "CHR 0x00 \<notin> set d" by (auto simp: d_def c_str_def dest: set_takeWhileD)
  have ld: "length d \<le> length u" using url_chars_length[of u] length_takeWhile_le[of "\<lambda>c. c \<noteq> CHR 0x00" "url_chars u"] by (simp add: d_def c_str_def)
  let ?pb = "2 * length u + 2"
  obtain w v where w: "length (d @ CHR 0x00 # w) = ?pb" "length v = 10 - length (int_text n)"
    and parse: "websUrlParse m n True u = do {
       (f, tok) \<leftarrow> (if take 7 d = ''http://'' then url_absolute (d @ CHR 0x00 # w @ int_text n @ CHR 0x00 # v) (length u) (length u + 1) ?pb
                    else url_relative (d @ CHR 0x00 # w @ int_text n @ CHR 0x00 # v) ?pb);
       f1 \<leftarrow> url_tail f tok; f2 \<leftarrow> url_ext f1; Some (Some f2) }"
    using url_block[OF assms(1-4), of True] unfolding d_def by (simp only: if_True) blast
  note pt = port_text[OF assms(3,4)]
  from assms(5)[folded d_def] show ?thesis
  proof (cases rule: url_form.cases)
    case local
    define f where "f = fst (the (url_relative (d @ CHR 0x00 # w @ int_text n @ CHR 0x00 # v) ?pb))"
    have f: "url_relative (d @ CHR 0x00 # w @ int_text n @ CHR 0x00 # v) ?pb = Some (f, 0)" "ubuf f = [] @ d @ CHR 0x00 # w @ int_text n @ CHR 0x00 # v"
       "upath f = InBuf (length ([] :: byte list))" "uquery f = Lit []" "uext f = Lit htmExt" "uhost f = Lit ''localhost''" "uport f = InBuf ?pb" "uproto f = Lit ''http''"
      by (simp_all add: f_def url_relative_def)
    have "str_at (ubuf f) ?pb = Some (int_text n)"
      using str_at_here[OF pt(2), of "d @ CHR 0x00 # w" v] w(1) f(2) by simp
    then show ?thesis using url_finish[OF zd f(2-5)] parse f local ld by (auto simp: url_read_def)
  next
    case (remote a y o1 po t0)
    have zh: "CHR 0x00 \<notin> set h" using remote(4) zd remote(1) by (auto elim: url_authority.cases)
    have zt: "CHR 0x00 \<notin> set (CHR ''/'' # t0)" using zd remote(1) by auto
    let ?x = "''http'' @ CHR 0x00 # ''//'' @ y"
    have ex: "d @ CHR 0x00 # w @ int_text n @ CHR 0x00 # v = ''http://'' @ a @ CHR ''/'' # t0 @ CHR 0x00 # w @ int_text n @ CHR 0x00 # v"
      using remote(1) by simp
    have n7: "take 7 d = ''http://''" using remote(1) by (simp add: numeral_eq_Suc)
    have sz: "7 + length a + Suc (length t0) \<le> length u" "7 + length a + Suc (length t0) + Suc (length w) = 2 * length u + 2"
      using ld w(1) remote(1) by auto
    obtain f Q where f: "url_absolute (d @ CHR 0x00 # w @ int_text n @ CHR 0x00 # v) (length u) (length u + 1) ?pb = Some (f, length ?x)"
       "ubuf f = ?x @ (CHR ''/'' # t0) @ CHR 0x00 # Q" "upath f = InBuf (length ?x)" "uquery f = Lit []" "uext f = Lit htmExt"
       "uproto f = InBuf 0" "uhost f = InBuf (length u + 1)" "uport f = InBuf ?pb" "str_at (ubuf f) (length u + 1) = Some h" "str_at (ubuf f) ?pb = Some p"
      using url_absolute_spec[OF remote(4) zh remote(5,6), of t0 "int_text n" v "length u" w] zt pt w(2) sz remote(2)
      unfolding ex by auto
    have "length ?x + length (CHR ''/'' # t0) < length u + 1" "length ?x + length (CHR ''/'' # t0) < ?pb"
      using sz url_authority_split(1)[OF remote(4) zh remote(5,6)] by auto
    moreover have "str_at (?x @ r) 0 = Some ''http''" for r using str_at_here[of "''http''" "[]" "''//'' @ y @ r"] by simp
    ultimately show ?thesis
      using url_finish[OF zt f(2-5)] parse f(1,6-10) n7 remote(3) by (auto simp: url_read_def simp del: append.simps)
  qed
qed


lemma url_chars_plain: "CHR ''+'' \<notin> set s \<Longrightarrow> CHR ''%'' \<notin> set s \<Longrightarrow> url_chars s = s"
proof (induction s)
  case (Cons c s)
  then have "url_chars (c # s) = c # url_chars s" by (subst url_chars.simps(2)) (auto split: list.splits)
  then show ?case using Cons by simp
qed simp


text \<open>The extension of a path that ends in a name with a dot, whatever slashes follow.\<close>

lemma path_ext_dot:
  assumes "\<forall>c \<in> set e. c \<notin> {CHR ''.'', CHR ''/'', CHR 0x5C}" "\<forall>c \<in> set g. c \<in> {CHR ''/'', CHR 0x5C}"
  shows "path_ext (q @ CHR ''.'' # e @ g) = (q @ CHR ''.'' # e, CHR ''.'' # e)"
proof -
  have "CHR ''.'' \<noteq> c" if "c \<in> set (rev (e @ g))" for c using assms that by auto
  then have tw: "takeWhile (\<lambda>c. c \<noteq> CHR ''.'') (rev (e @ g) @ CHR ''.'' # rev q) = rev (e @ g)"
    by (subst takeWhile_append2) fastforce+
  have "rev (q @ CHR ''.'' # e @ g) = rev (e @ g) @ CHR ''.'' # rev q" by simp
  then have r: "c_strrchr (q @ CHR ''.'' # e @ g) CHR ''.'' = Some (length q)"
    unfolding c_strrchr_def by (simp only: tw) simp
  have "takeWhile (\<lambda>c. c \<notin> set [CHR ''/'', CHR 0x5C]) (CHR ''.'' # e @ g) = CHR ''.'' # e" 
    using assms by (cases g) (auto simp: takeWhile_append)
  moreover have "takeWhile (\<lambda>c. c \<in> set [CHR ''/'', CHR 0x5C]) g = g" using assms(2) by (subst takeWhile_eq_all_conv) simp
  moreover have "drop (length (CHR ''.'' # e)) (CHR ''.'' # e @ g) = g" by simp
  ultimately have "ext_len (CHR ''.'' # e @ g) = Some (Suc (length e))" unfolding ext_len_def Let_def by (simp only:) simp
  then show ?thesis using r by (simp add: path_ext_def)
qed

text \<open>The table of content types as \<^verbatim>\<open>websOpenServer\<close> loads it.\<close>

definition mime_table :: "bool \<Rightarrow> sym_state \<Rightarrow> int \<Rightarrow> bool" where
  "mime_table sc st h \<longleftrightarrow> sym_at sc h st \<and> (\<forall>k. sym_find sc h st k = map_option mime_val (mime_type_of k))"

lemma websUrlType_spec:
  assumes mt: "mime_table sc st websMime" and "\<forall>n. m n \<noteq> None" and "CHR 0x00 \<notin> set u" and "u \<noteq> []"
    and "0 \<le> n" "n < 65536" and "url_form n (c_str (url_chars u)) h p t" and "length b = 64"
  shows "\<exists>b'. websUrlType m sc st websMime n u b 64 = Some b' \<and> length b' = 64 \<and>
     c_str b' = (case mime_type_of (strlower (snd (path_ext (url_path t)))) of None \<Rightarrow> ''text/plain'' | Some ty \<Rightarrow> ty)"
proof -
  have st: "sym_at sc websMime st" "\<And>k. sym_find sc websMime st k = map_option mime_val (mime_type_of k)" using mt by (auto simp: mime_table_def)
  define e where "e = snd (path_ext (url_path t))"
  obtain f where f: "websUrlParse m n True u = Some (Some f)" "url_read (ubuf f) (uext f) = Some e"
    using websUrlParse_spec[OF assms(2,3,5,6,7)] by (auto simp: e_def)
  have tl: "length ty < 64 \<and> CHR 0x00 \<notin> set ty" if "mime_type_of k = Some ty" for k ty
  proof -
    have "(k, ty) \<in> set (map prod.swap websMimeList)" using map_of_SomeD[OF that[unfolded mime_type_of_def]] by simp
    moreover have "\<forall>(ty, k) \<in> set websMimeList. length ty < 64 \<and> CHR 0x00 \<notin> set ty" by (simp add: websMimeList_def)
    ultimately show ?thesis by auto
  qed
  have plain: "\<exists>b'. c_strcpy b ''text/plain'' = Some b' \<and> length b' = 64 \<and> c_str b' = ''text/plain''"
    using strcpy_str[of "''text/plain''" b] assms(8) by simp
  define z where "z = (\<lambda>k. tl (replicate (64 - k) CHR 0x00))"
  have lz: "length (z k) = 63 - k" for k by (simp add: z_def)
  have z: "replicate (64 - k) CHR 0x00 = CHR 0x00 # z k" if "k < 64" for k using that by (cases "64 - k") (simp_all add: z_def)
  have typed: "\<exists>b'. c_strncpy b ty 64 = Some b' \<and> length b' = 64 \<and> c_str b' = ty" if "length ty < 64 \<and> CHR 0x00 \<notin> set ty" for ty
    using strncpy_text[of ty 64 b] that assms(8) c_str_NUL[of ty "z (length ty)"] z[of "length ty"] lz[of "length ty"] by simp
  obtain r where r: "symLookup sc st websMime (Some (strlower e)) = Some r" "map_option mime_val (mime_type_of (strlower e)) = map_option content r"
    using symLookup_total[OF st(1), of "strlower e"] st(2) by metis
  show ?thesis
  proof (cases "mime_type_of (strlower e)")
    case None
    then show ?thesis using plain r f assms(4) by (simp add: websUrlType_def flip: e_def)
  next
    case (Some ty)
    then obtain sp where "r = Some sp" "content sp = mime_val ty" using r(2) by (cases r) auto
    then have "r = Some sp" "value_string (content sp) = Some ty" by (simp_all add: mime_val_def value_string_def)
    then show ?thesis using Some typed[OF tl[OF Some]] r(1) f assms(4) by (simp add: websUrlType_def flip: e_def)
  qed
qed

text \<open>
  After \<^verbatim>\<open>websOpenServer\<close> has loaded the content types, \<^verbatim>\<open>websUrlType\<close> stores in the 64 bytes of a
  request's \<^verbatim>\<open>type\<close> the type listed for the extension of the URL in lower case, and \<^verbatim>\<open>text/plain\<close> for
  an extension that is not listed.
\<close>

theorem websUrlType_listed:
  assumes "sym_inv sc st0" and "websOpenMime sc m st0 = Some (st, websMime)" and "\<forall>n. m n \<noteq> None" and "CHR 0x00 \<notin> set u" and "u \<noteq> []"
    and "0 \<le> n" "n < 65536" and "url_form n (c_str (url_chars u)) h p t" and "length b = 64"
  shows "\<exists>b'. websUrlType m sc st websMime n u b 64 = Some b' \<and> length b' = 64 \<and>
     c_str b' = (case mime_type_of (strlower (snd (path_ext (url_path t)))) of None \<Rightarrow> ''text/plain'' | Some ty \<Rightarrow> ty)"
proof -
  have "\<not> refuses m" using assms(3) by (simp add: refuses_def)
  then have "mime_table sc st websMime" using websOpenMime_types[OF assms(1), of m] assms(2) by (auto simp: mime_table_def)
  then show ?thesis by (rule websUrlType_spec[OF _ assms(3-9)])
qed

theorem websUrlType_listed_witness:
  "\<exists>st websMime b'. websOpenMime True (\<lambda>_. Some (\<lambda>_. CHR 0x00)) sym_sample = Some (st, websMime) \<and>
     websUrlType (\<lambda>_. Some (\<lambda>_. CHR 0x00)) True st websMime 80 ''/a.HTML/?x'' (replicate 64 CHR 0x00) 64 = Some b' \<and> c_str b' = ''text/html''"
proof -
  let ?m = "\<lambda>_. Some (\<lambda>_. CHR 0x00)"
  have "\<not> refuses ?m" by (simp add: refuses_def)
  then obtain st d where o: "websOpenMime True ?m sym_sample = Some (st, d)" using websOpenMime_types[OF sym_sample_inv(1), of ?m True] by auto
  have "c_str (url_chars ''/a.HTML/?x'') = ''/a.HTML/?x''" by (subst url_chars_plain) (simp_all add: c_str_def)
  then have f: "url_form 80 (c_str (url_chars ''/a.HTML/?x'')) ''localhost'' (int_text 80) ''/a.HTML/?x''" by (simp add: url_form.local)
  have "url_path ''/a.HTML/?x'' = ''/a'' @ CHR ''.'' # ''HTML'' @ ''/''" by (simp add: url_path_def url_query_def)
  moreover have "path_ext (''/a'' @ CHR ''.'' # ''HTML'' @ ''/'') = (''/a'' @ CHR ''.'' # ''HTML'', CHR ''.'' # ''HTML'')" by (rule path_ext_dot) simp_all
  ultimately have "snd (path_ext (url_path ''/a.HTML/?x'')) = ''.HTML''" by simp
  moreover have "strlower ''.HTML'' = ''.html''"
    using to_char_c_uchar[of "CHR ''h''"] to_char_c_uchar[of "CHR ''t''"] to_char_c_uchar[of "CHR ''m''"] to_char_c_uchar[of "CHR ''l''"]
    by (simp add: c_isupper_def c_uchar_def)
  moreover have "mime_type_of ''.html'' = Some ''text/html''" by (simp add: mime_type_of_def websMimeList_def)
  ultimately show ?thesis
    using websUrlType_listed[OF sym_sample_inv(1) o _ _ _ _ _ f, of "replicate 64 CHR 0x00"] o by auto
qed

end
