(* ===== verification/Query.thy ===== *)
theory Query
  imports Url
begin

text \<open>
  The variables of a request: \<^verbatim>\<open>websSetEnv\<close> of \<^verbatim>\<open>webs.c\<close> enters the CGI variables and one variable per
  keyword of the query, to which it appends the posted data; for multipart forms
  \<^verbatim>\<open>extractUploadedFileContent\<close> takes the parts out of the posted data. Positions in the posted data
  are offsets; the block has no terminating NUL of its own.
\<close>

section \<open>Searching the posted data\<close>

text \<open>\<^verbatim>\<open>gstrstr\<close> in the bytes \<open>l\<close> from position \<open>i\<close>: \<open>Some None\<close> when a NUL comes first.\<close>

fun strstr_from :: "byte list \<Rightarrow> cstring \<Rightarrow> nat \<Rightarrow> nat option option" where
  "strstr_from l pat i =
     (if take (length pat) l = pat then Some (Some i)
      else case l of
        [] \<Rightarrow> None
      | c # r \<Rightarrow> if c = CHR 0x00 then Some None else strstr_from r pat (i + 1))"

declare strstr_from.simps [simp del]

definition strstr_at :: "byte list \<Rightarrow> nat \<Rightarrow> cstring \<Rightarrow> nat option option" where
  "strstr_at b i pat = strstr_from (drop i b) pat i"

definition MAX_LINE :: nat where "MAX_LINE = 1024"

text \<open>The loop that looks for the empty line after the header of a part: the start of the body.\<close>

function part_body :: "byte list \<Rightarrow> nat \<Rightarrow> nat option option" where
  "part_body b i =
     (case strchr_at b i CHR 0x0A of
        None \<Rightarrow> None
      | Some None \<Rightarrow> Some None
      | Some (Some j) \<Rightarrow>
          if j < i then None
          else do {
            c \<leftarrow> mem_read b (int (j + 1));
            if c = CHR 0x0A then Some (Some (j + 2))
            else if c = CHR 0x0D then do {
              d \<leftarrow> mem_read b (int (j + 2));
              if d = CHR 0x0A then Some (Some (j + 3)) else part_body b (j + 1) }
            else part_body b (j + 1) })"
  by pat_completeness auto
termination
  by (relation "measure (\<lambda>(b, i). length b - i)")
    (auto simp: strchr_at_def Let_def mem_read_def split: if_splits)

declare part_body.simps [simp del]

section \<open>The query\<close>

text \<open>\<open>s\<close> appended to the query, after an ampersand when it is not empty; a null pointer when memory is refused.\<close>

definition query_append :: "balloc_env \<Rightarrow> cstring option \<Rightarrow> byte list \<Rightarrow> cstring option" where
  "query_append m q s =
     (case q of
        None \<Rightarrow> map_option (\<lambda>_. c_str (s @ [CHR 0x00])) (balloc m (int (length s) + 1))
      | Some t \<Rightarrow>
          if t \<noteq> [] then map_option (\<lambda>_. c_str (t @ CHR ''&'' # s @ [CHR 0x00])) (balloc m (int (length t) + int (length s) + 2))
          else map_option (\<lambda>_. c_str (s @ [CHR 0x00])) (balloc m (int (length t) + int (length s) + 1)))"

definition append_post :: "balloc_env \<Rightarrow> webs \<Rightarrow> webs option" where
  "append_post m wp =
     (case postData wp of
        None \<Rightarrow> Some wp
      | Some b \<Rightarrow> do {
          s \<leftarrow> mem_slice b 0 (lenPostData wp);
          Some (wp\<lparr>wquery := query_append m (wquery wp) s\<rparr>) })"

section \<open>Multipart forms\<close>

text \<open>
  The first line of a part in \<^verbatim>\<open>buf[MAX_LINE]\<close>; \<open>u\<close> are the bytes of the stack behind it.
\<close>

definition part_line :: "(nat \<Rightarrow> byte) \<Rightarrow> byte list \<Rightarrow> nat \<Rightarrow> nat \<Rightarrow> byte list" where
  "part_line u b part endLine =
     (let lineLen = min (endLine - part) (MAX_LINE - 1);
          s = takeWhile (\<lambda>c. c \<noteq> CHR 0x00) (take lineLen (drop part b))
      in s @ replicate (Suc lineLen - length s) CHR 0x00 @ map u [Suc lineLen..<MAX_LINE])"

text \<open>The quoted value that starts at offset \<open>k\<close> of the line, when there is one and it is not empty.\<close>

definition quoted_value :: "byte list \<Rightarrow> nat \<Rightarrow> cstring option option" where
  "quoted_value line k = do {
     e \<leftarrow> strchr_at line k CHR 0x22;
     Some (case e of None \<Rightarrow> None | Some j \<Rightarrow> if k < j then Some (take (min (j - k) (MAX_LINE - 1)) (drop k line)) else None) }"

text \<open>
  \<^verbatim>\<open>tmpNameStr\<close>, the file's content when the part is the first upload, for a part whose body is
  \<open>part..<endPart\<close>; \<open>None\<close> in the first component when the part is neither kind.
\<close>

definition part_value ::
    "balloc_env \<Rightarrow> byte list \<Rightarrow> byte list \<Rightarrow> nat \<Rightarrow> nat \<Rightarrow> bool \<Rightarrow> (cstring option \<times> byte list option) option" where
  "part_value m line b part endPart firstUploadFile = do {
     fn \<leftarrow> strstr_at line 0 ''filename='';
     (case fn of
        Some k \<Rightarrow>
          if firstUploadFile then Some (Some [], None)
          else do {
            v \<leftarrow> quoted_value line (k + 10);
            let n = int endPart - int part - 2;
            s \<leftarrow> mem_slice b (int part) n;
            _ \<leftarrow> balloc m n;
            Some (Some (case v of None \<Rightarrow> [] | Some t \<Rightarrow> ''filename='' @ t), Some s) }
      | None \<Rightarrow> do {
          nm \<leftarrow> strstr_at line 0 ''form-data; name='';
          (case nm of
             None \<Rightarrow> Some (None, None)
           | Some k \<Rightarrow> do {
               v \<leftarrow> quoted_value line (k + 17);
               (case v of
                  None \<Rightarrow> Some (Some [], None)
                | Some t \<Rightarrow>
                    let nme = t @ ''='';
                        n = int endPart - int part - 2;
                        k1 = (if n > 0 then min (nat n) (MAX_LINE - length nme - 1) else 0)
                    in if length nme < MAX_LINE
                       then Some (Some (nme @ takeWhile (\<lambda>c. c \<noteq> CHR 0x00) (take k1 (drop part b))), None)
                       else None) }) }) }"

text \<open>
  The loop over the parts, from \<open>endPart\<close>: the request with its new query and the content of the
  first uploaded file. When a line is not ended, the code goes round without end: the model does not
  return either.
\<close>

partial_function (option) extract_parts ::
    "balloc_env \<Rightarrow> (nat \<Rightarrow> byte) \<Rightarrow> cstring \<Rightarrow> byte list \<Rightarrow> int \<Rightarrow> nat \<Rightarrow> cstring option \<Rightarrow> bool \<Rightarrow> byte list option \<Rightarrow>
     (cstring option \<times> byte list option) option" where
  [code]: "extract_parts m u bnd b lenPost endPart q first file = do {
     p0 \<leftarrow> strstr_at b endPart bnd;
     (case p0 of
        None \<Rightarrow> Some (q, file)
      | Some p1 \<Rightarrow> do {
          nl \<leftarrow> strchr_at b p1 CHR 0x0A;
          (case nl of
             None \<Rightarrow> Some (q, file)
           | Some p2 \<Rightarrow> do {
               let part = p2 + 1;
               cd \<leftarrow> strstr_at b part ''Content-Disposition'';
               (case cd of
                  None \<Rightarrow> extract_parts m u bnd b lenPost part q first file
                | Some _ \<Rightarrow> do {
                    el \<leftarrow> strchr_at b part CHR 0x0A;
                    (case el of
                       None \<Rightarrow> extract_parts m u bnd b lenPost endPart q first file
                     | Some endLine \<Rightarrow> do {
                         body \<leftarrow> part_body b part;
                         (case body of
                            None \<Rightarrow> Some (q, file)
                          | Some bd \<Rightarrow> do {
                              ep \<leftarrow> xmemstr (drop bd b) bnd (lenPost - int bd);
                              (case ep of
                                 None \<Rightarrow> Some (q, file)
                               | Some off \<Rightarrow> do {
                                   let e = bd + off;
                                   (nme, content) \<leftarrow> part_value m (part_line u b part endLine) b bd e first;
                                   extract_parts m u bnd b lenPost e
                                     (if nme = None \<or> nme = Some [] then q else query_append m q (the nme))
                                     (first \<or> content \<noteq> None)
                                     (if content = None then file else content) }) }) }) }) }) }) }"

definition extractUploadedFileContent :: "balloc_env \<Rightarrow> (nat \<Rightarrow> byte) \<Rightarrow> webs \<Rightarrow> (webs \<times> byte list option) option" where
  "extractUploadedFileContent m u wp =
     (case multiPartBoundary wp of
        None \<Rightarrow> map_option (\<lambda>w. (w, None)) (append_post m wp)
      | Some bnd \<Rightarrow>
          (case postData wp of
             None \<Rightarrow> Some (wp, None)
           | Some b \<Rightarrow> do {
               (q, file) \<leftarrow> extract_parts m u bnd b (lenPostData wp) 0 (wquery wp) False None;
               Some (wp\<lparr>wquery := q\<rparr>, file) }))"

section \<open>The variables\<close>

fun set_vars :: "bool \<Rightarrow> bool \<Rightarrow> bool \<Rightarrow> sym_state \<Rightarrow> int \<Rightarrow> (cstring \<times> cstring option) list \<Rightarrow> sym_state option" where
  "set_vars sc ok dup st sd [] = Some st"
| "set_vars sc ok dup st sd ((k, v) # kvs) = do { st1 \<leftarrow> websSetVar sc ok dup st sd k v; set_vars sc ok dup st1 sd kvs }"

text \<open>One keyword of the query, up to the next ampersand: decoded name and value.\<close>

definition query_pair :: "cstring \<Rightarrow> (cstring \<times> cstring) option" where
  "query_pair kw =
     (if CHR ''='' \<in> set kw then do {
        let k = takeWhile (\<lambda>c. c \<noteq> CHR ''='') kw;
        let v = tl (dropWhile (\<lambda>c. c \<noteq> CHR ''='') kw);
        k1 \<leftarrow> websDecodeUrl_insitu (k @ [CHR 0x00]) (length k);
        v1 \<leftarrow> websDecodeUrl_insitu (v @ [CHR 0x00]) (length v);
        Some (c_str k1, c_str v1) }
      else Some (kw, []))"

fun query_vars :: "balloc_env \<Rightarrow> bool \<Rightarrow> bool \<Rightarrow> bool \<Rightarrow> sym_state \<Rightarrow> int \<Rightarrow> cstring list \<Rightarrow> sym_state option" where
  "query_vars m sc ok dup st sd [] = Some st"
| "query_vars m sc ok dup st sd (kw # kws) = do {
     (k, v) \<leftarrow> query_pair kw;
     st1 \<leftarrow> (if k = [] then Some st
             else do {
               old \<leftarrow> websGetVar sc st sd k None;
               (case old of
                  Some w \<Rightarrow> do {
                    (p, _, _) \<leftarrow> fmtAlloc m sc 256 ''%s %s'' [VStr (Some w), VStr (Some v)];
                    websSetVar sc ok dup st sd k (map_option c_str p) }
                | None \<Rightarrow> websSetVar sc ok dup st sd k (Some v)) });
     query_vars m sc ok dup st1 sd kws }"

definition WEBS_MULTIPART_FORM :: int where "WEBS_MULTIPART_FORM = 0x80000"
definition WEBS_NAME :: cstring where "WEBS_NAME = ''GoAhead-Webs''"
definition WEBS_VERSION :: cstring where "WEBS_VERSION = ''2.5.0''"

text \<open>The globals of \<^verbatim>\<open>webs.c\<close> that \<^verbatim>\<open>websSetEnv\<close> reads.\<close>

record webs_globals =
  gHost :: cstring
  gHostUrl :: cstring
  gPort :: int

definition cgi_vars :: "webs_globals \<Rightarrow> webs \<Rightarrow> cstring \<Rightarrow> cstring option \<Rightarrow> (cstring \<times> cstring option) list" where
  "cgi_vars g wp prt software =
     [(''QUERY_STRING'', wquery wp), (''GATEWAY_INTERFACE'', Some ''CGI/1.1''), (''SERVER_HOST'', Some (gHost g)), (''SERVER_NAME'', Some (gHost g)),
      (''SERVER_URL'', Some (gHostUrl g)), (''REMOTE_HOST'', Some (ipaddr wp)), (''REMOTE_ADDR'', Some (ipaddr wp)), (''PATH_INFO'', wpath wp),
      (''SERVER_PORT'', Some prt), (''SERVER_ADDR'', Some (ifaddr wp)), (''SERVER_SOFTWARE'', software), (''SERVER_PROTOCOL'', protoVersion wp)]"

definition websSetEnv ::
    "balloc_env \<Rightarrow> bool \<Rightarrow> bool \<Rightarrow> bool \<Rightarrow> (nat \<Rightarrow> byte) \<Rightarrow> webs_globals \<Rightarrow> sym_state \<Rightarrow> webs \<Rightarrow> (sym_state \<times> webs) option" where
  "websSetEnv m sc ok dup u g st wp = do {
     pb \<leftarrow> stritoa m (gPort g) (Some (map u [0..<8])) 8;
     portBuf \<leftarrow> pb;
     (p, _, _) \<leftarrow> fmtAlloc m sc FNAMESIZE ''%s/%s'' [VStr (Some WEBS_NAME), VStr (Some WEBS_VERSION)];
     st1 \<leftarrow> set_vars sc ok dup st (cgiVars wp) (cgi_vars g wp (c_str portBuf) (map_option c_str p));
     wp1 \<leftarrow> (if wflags wp AND WEBS_MULTIPART_FORM \<noteq> 0 then do {
               (w, file) \<leftarrow> extractUploadedFileContent m u wp;
               Some (case file of None \<Rightarrow> w | Some s \<Rightarrow> w\<lparr>postData := Some s, lenPostData := int (length s)\<rparr>) }
             else append_post m wp);
     dq \<leftarrow> bstrdup dup (wquery wp1);
     st2 \<leftarrow> query_vars m sc ok dup st1 (cgiVars wp1) (c_tokens CHR ''&'' dq);
     Some (st2, wp1\<lparr>decodedQuery := Some dq\<rparr>) }"

section \<open>The table of variables as a map\<close>

text \<open>The table \<open>sd\<close> holds the variables \<open>e\<close>.\<close>

definition vars_are :: "bool \<Rightarrow> int \<Rightarrow> sym_state \<Rightarrow> (cstring \<rightharpoonup> cstring) \<Rightarrow> bool" where
  "vars_are sc sd st e \<longleftrightarrow> sym_at sc sd st \<and> (\<forall>k. sym_find sc sd st k = map_option str_val (e k)) \<and> (\<forall>v \<in> ran e. CHR 0x00 \<notin> set v)"

lemma vars_are_set:
  assumes "vars_are sc sd st e" "k \<noteq> []" "CHR 0x00 \<notin> set (case v of Some s \<Rightarrow> s | None \<Rightarrow> [])"
  shows "\<exists>st'. websSetVar sc True True st sd k v = Some st' \<and> vars_are sc sd st' (e(k \<mapsto> (case v of Some s \<Rightarrow> s | None \<Rightarrow> [])))"
  using websSetVar_law[of sc sd st k v] assms by (fastforce simp: vars_are_def ran_def)

lemma vars_are_get: "vars_are sc sd st e \<Longrightarrow> websGetVar sc st sd k d = Some (case e k of Some w \<Rightarrow> Some w | None \<Rightarrow> d)"
  by (auto simp: vars_are_def websGetVar_find str_val_def value_string_def split: option.splits)

definition opt_str :: "cstring option \<Rightarrow> cstring" where
  "opt_str v = (case v of Some s \<Rightarrow> s | None \<Rightarrow> [])"

lemma set_vars_spec:
  "vars_are sc sd st e \<Longrightarrow> \<forall>(k, v) \<in> set kvs. k \<noteq> [] \<and> CHR 0x00 \<notin> set (opt_str v) \<Longrightarrow>
     \<exists>st'. set_vars sc True True st sd kvs = Some st' \<and> vars_are sc sd st' (e ++ map_of (rev (map (\<lambda>(k, v). (k, opt_str v)) kvs)))"
proof (induction kvs arbitrary: st e)
  case (Cons kv kvs)
  obtain k v where kv: "kv = (k, v)" by fastforce
  obtain st1 where s1: "websSetVar sc True True st sd k v = Some st1" "vars_are sc sd st1 (e(k \<mapsto> opt_str v))"
    using vars_are_set[OF Cons.prems(1), of k v] Cons.prems(2) kv by (auto simp: opt_str_def)
  let ?m = "map_of (rev (map (\<lambda>(k, v). (k, opt_str v)) kvs))"
  have "\<forall>(k, v) \<in> set kvs. k \<noteq> [] \<and> CHR 0x00 \<notin> set (opt_str v)" using Cons.prems(2) by simp
  from Cons.IH[OF s1(2) this] obtain st2 where "set_vars sc True True st1 sd kvs = Some st2" "vars_are sc sd st2 (e(k \<mapsto> opt_str v) ++ ?m)" by blast
  moreover have "e(k \<mapsto> opt_str v) ++ ?m = e ++ map_of (rev (map (\<lambda>(k, v). (k, opt_str v)) (kv # kvs)))"
    by (simp add: kv map_of_append)
  ultimately show ?case using s1(1) kv by (simp only: set_vars.simps Option.bind.simps) blast
qed simp

section \<open>The query as assignments\<close>

definition pair_of :: "cstring \<Rightarrow> cstring \<times> cstring" where
  "pair_of kw =
     (if CHR ''='' \<in> set kw then
        (c_str (url_chars (takeWhile (\<lambda>c. c \<noteq> CHR ''='') kw)), c_str (url_chars (tl (dropWhile (\<lambda>c. c \<noteq> CHR ''='') kw))))
      else (kw, []))"

text \<open>A keyword that has a value already gets the new one appended, cut at 255 characters.\<close>

definition assign :: "(cstring \<rightharpoonup> cstring) \<Rightarrow> cstring \<times> cstring \<Rightarrow> (cstring \<rightharpoonup> cstring)" where
  "assign e kv = (case kv of (k, v) \<Rightarrow>
     if k = [] then e else e(k \<mapsto> (case e k of Some w \<Rightarrow> take 255 (w @ CHR '' '' # v) | None \<Rightarrow> v)))"

definition assign_query :: "cstring \<Rightarrow> (cstring \<rightharpoonup> cstring) \<Rightarrow> (cstring \<rightharpoonup> cstring)" where
  "assign_query q e = foldl assign e (map pair_of (c_tokens CHR ''&'' q))"

lemma decode_whole:
  assumes "CHR 0x00 \<notin> set s"
  shows "\<exists>b. websDecodeUrl_insitu (s @ [CHR 0x00]) (length s) = Some b \<and> c_str b = c_str (url_chars s)"
proof -
  obtain q where "websDecodeUrl_insitu (s @ [CHR 0x00]) (length s) = Some (url_chars s @ CHR 0x00 # q)"
    using decode_here_spec[OF assms, of "[]" "[]" "[]" "length s"] url_chars_length[of s] by (auto simp: websDecodeUrl_insitu_def)
  then show ?thesis by (simp add: c_str_def takeWhile_tail del: takeWhile_append)
qed

lemma c_str_clean [simp]: "CHR 0x00 \<notin> set (c_str b)"
  by (auto simp: c_str_def dest: set_takeWhileD)

lemma query_pair_spec: "CHR 0x00 \<notin> set kw \<Longrightarrow> query_pair kw = Some (pair_of kw)"
  using decode_whole[of "takeWhile (\<lambda>c. c \<noteq> CHR ''='') kw"] decode_whole[of "tl (dropWhile (\<lambda>c. c \<noteq> CHR ''='') kw)"]
  by (fastforce simp: query_pair_def pair_of_def Let_def dest: set_takeWhileD set_dropWhileD list.set_sel(2)[rotated])

lemma pair_of_clean: "CHR 0x00 \<notin> set kw \<Longrightarrow> CHR 0x00 \<notin> set (fst (pair_of kw)) \<and> CHR 0x00 \<notin> set (snd (pair_of kw))"
  by (simp add: pair_of_def)

lemma query_vars_spec:
  "\<forall>n. m n \<noteq> None \<Longrightarrow> vars_are sc sd st e \<Longrightarrow> \<forall>kw \<in> set kws. CHR 0x00 \<notin> set kw \<Longrightarrow>
     \<exists>st'. query_vars m sc True True st sd kws = Some st' \<and> vars_are sc sd st' (foldl assign e (map pair_of kws))"
proof (induction kws arbitrary: st e)
  case (Cons kw kws)
  obtain k v where kv: "pair_of kw = (k, v)" by fastforce
  have q: "query_pair kw = Some (k, v)" "CHR 0x00 \<notin> set v" using query_pair_spec[of kw] pair_of_clean[of kw] kv Cons.prems(3) by auto
  let ?step = "\<lambda>st. if k = [] then Some st else do { old \<leftarrow> websGetVar sc st sd k None;
       (case old of Some w \<Rightarrow> do { (p, _, _) \<leftarrow> fmtAlloc m sc 256 ''%s %s'' [VStr (Some w), VStr (Some v)]; websSetVar sc True True st sd k (map_option c_str p) }
        | None \<Rightarrow> websSetVar sc True True st sd k (Some v)) }"
  have "\<exists>st1. ?step st = Some st1 \<and> vars_are sc sd st1 (assign e (k, v))"
  proof (cases "k = [] \<or> e k = None")
    case True
    then show ?thesis
      using Cons.prems(2) vars_are_set[OF Cons.prems(2), of k "Some v"] vars_are_get[OF Cons.prems(2), of k None] q(2) by (auto simp: assign_def)
  next
    case False
    then obtain w where w: "e k = Some w" "k \<noteq> []" by auto
    then have cw: "CHR 0x00 \<notin> set w" using Cons.prems(2) by (auto simp: vars_are_def ran_def)
    have "fmt_text (''%s %s'' @ [CHR 0x00]) [VStr (Some w), VStr (Some v)] = Some (w @ CHR '' '' # v)"
      using cw q(2) by (simp add: fmt_text_s fmt_text_plain fmt_text_nul)
    from fmtAlloc_spec[OF Cons.prems(1) _ _ this, of 256 sc]
    obtain b r where b: "fmtAlloc m sc 256 ''%s %s'' [VStr (Some w), VStr (Some v)] = Some (Some b, r, [])" "c_str b = take 255 (w @ CHR '' '' # v)"
      by (auto simp: fmt_cap_def)
    have "assign e (k, v) = e(k \<mapsto> c_str b)" unfolding b(2) using w by (simp add: assign_def)
    then show ?thesis
      using vars_are_set[OF Cons.prems(2) w(2), of "Some (c_str b)"] vars_are_get[OF Cons.prems(2), of k None] w b(1) by simp
  qed
  then obtain st1 where s1: "?step st = Some st1" "vars_are sc sd st1 (assign e (k, v))" by blast
  obtain st2 where "query_vars m sc True True st1 sd kws = Some st2" "vars_are sc sd st2 (foldl assign (assign e (k, v)) (map pair_of kws))"
    using Cons.IH[OF Cons.prems(1) s1(2)] Cons.prems(3) by auto
  then show ?case using q(1) s1(1) kv by simp
qed simp

section \<open>Properties\<close>

text \<open>The query after the posted data has been appended.\<close>

definition full_query :: "webs \<Rightarrow> cstring" where
  "full_query wp =
     (case postData wp of
        None \<Rightarrow> opt_str (wquery wp)
      | Some b \<Rightarrow> c_str (if opt_str (wquery wp) = [] then b else opt_str (wquery wp) @ CHR ''&'' # b))"

definition req_strings :: "webs \<Rightarrow> bool" where
  "req_strings wp \<longleftrightarrow> CHR 0x00 \<notin> set (opt_str (wquery wp)) \<and> CHR 0x00 \<notin> set (opt_str (wpath wp)) \<and> CHR 0x00 \<notin> set (opt_str (protoVersion wp)) \<and>
     CHR 0x00 \<notin> set (ipaddr wp) \<and> CHR 0x00 \<notin> set (ifaddr wp)"

text \<open>The CGI variables of a request.\<close>

definition cgi_map :: "webs_globals \<Rightarrow> webs \<Rightarrow> (cstring \<rightharpoonup> cstring)" where
  "cgi_map g wp = map_of (map (\<lambda>(k, v). (k, opt_str v)) (cgi_vars g wp (int_text (gPort g)) (Some ''GoAhead-Webs/2.5.0'')))"

lemma c_tokens_sub: "t \<in> set (c_tokens d s) \<Longrightarrow> set t \<subseteq> set s"
  using c_tokens_mem by blast

lemma append_post_spec:
  assumes "\<forall>n. m n \<noteq> None" "CHR 0x00 \<notin> set (opt_str (wquery wp))" "\<forall>b. postData wp = Some b \<longrightarrow> lenPostData wp = int (length b)"
  shows "\<exists>q. append_post m wp = Some (wp\<lparr>wquery := q\<rparr>) \<and> opt_str q = full_query wp"
proof (cases "postData wp")
  case None
  then show ?thesis by (intro exI[of _ "wquery wp"]) (simp add: append_post_def full_query_def)
next
  case (Some b)
  have "mem_slice b 0 (lenPostData wp) = Some b" using assms(3) Some by (simp add: mem_slice_def)
  moreover have c: "c_str (s @ [CHR 0x00]) = c_str s" for s by (simp add: c_str_def takeWhile_tail)
  have c2: "c_str (t @ CHR ''&'' # s @ [CHR 0x00]) = c_str (t @ CHR ''&'' # s)" for t s
    using c[of "t @ CHR ''&'' # s"] by simp
  have gr: "map_option (\<lambda>_. x) (balloc m n) = Some x" for x :: cstring and n using assms(1)[rule_format, of n] by (cases "balloc m n") auto
  have "query_append m (wquery wp) b = Some (full_query wp)"
    unfolding query_append_def full_query_def Some gr c c2 by (auto simp: opt_str_def split: option.split)
  ultimately show ?thesis using Some by (intro exI[of _ "Some (full_query wp)"]) (simp add: append_post_def opt_str_def)
qed

lemma websSetEnv_spec:
  assumes "\<forall>n. m n \<noteq> None" and "vars_are sc (cgiVars wp) st e" and "req_strings wp" and "wflags wp AND WEBS_MULTIPART_FORM = 0"
    and "0 \<le> gPort g" "gPort g < 65536" and "CHR 0x00 \<notin> set (gHost g)" and "CHR 0x00 \<notin> set (gHostUrl g)"
    and "\<forall>b. postData wp = Some b \<longrightarrow> lenPostData wp = int (length b)"
  shows "\<exists>st' wp'. websSetEnv m sc True True u g st wp = Some (st', wp') \<and> opt_str (wquery wp') = full_query wp \<and>
     wp' = wp\<lparr>wquery := wquery wp', decodedQuery := Some (full_query wp)\<rparr> \<and>
     vars_are sc (cgiVars wp) st' (assign_query (full_query wp) (e ++ cgi_map g wp))"
proof -
  note pt = port_text[OF assms(5,6)]
  define vs where "vs = cgi_vars g wp (int_text (gPort g)) (Some ''GoAhead-Webs/2.5.0'')"
  have "stritoa m (gPort g) (Some (map u [0..<8])) 8 = Some (Some (int_text (gPort g) @ CHR 0x00 # drop (Suc (length (int_text (gPort g)))) (map u [0..<8])))"
    by (rule stritoa_text) (use assms(5,6) pt(1) in \<open>auto simp: int_text_def\<close>)
  then obtain pb where pb: "stritoa m (gPort g) (Some (map u [0..<8])) 8 = Some (Some pb)" "c_str pb = int_text (gPort g)"
    using c_str_NUL[OF pt(2)] by auto
  have "fmt_text (''%s/%s'' @ [CHR 0x00]) [VStr (Some WEBS_NAME), VStr (Some WEBS_VERSION)] = Some ''GoAhead-Webs/2.5.0''"
    by (simp add: fmt_text_s fmt_text_plain fmt_text_nul WEBS_NAME_def WEBS_VERSION_def)
  then obtain b r where b: "fmtAlloc m sc FNAMESIZE ''%s/%s'' [VStr (Some WEBS_NAME), VStr (Some WEBS_VERSION)] = Some (Some b, r, [])"
      "c_str b = ''GoAhead-Webs/2.5.0''"
    using fmtAlloc_str[OF assms(1), of FNAMESIZE "''GoAhead-Webs/2.5.0''" "''%s/%s''"] by (fastforce simp: FNAMESIZE_def fmt_cap_def)
  have dist: "distinct (map fst vs)" by (simp add: vs_def cgi_vars_def)
  have "\<forall>(k, v) \<in> set vs. k \<noteq> [] \<and> CHR 0x00 \<notin> set (opt_str v)"
    using assms(3,7,8) pt(2) by (simp add: vs_def cgi_vars_def req_strings_def) (simp add: opt_str_def)
  from set_vars_spec[OF assms(2) this] obtain st1 where st1: "set_vars sc True True st (cgiVars wp) vs = Some st1"
     "vars_are sc (cgiVars wp) st1 (e ++ map_of (rev (map (\<lambda>(k, v). (k, opt_str v)) vs)))" by blast
  have "map_of (rev (map (\<lambda>(k, v). (k, opt_str v)) vs)) = cgi_map g wp"
    unfolding cgi_map_def vs_def[symmetric] by (subst map_of_inject_set) (use dist in \<open>simp_all add: rev_map[symmetric] comp_def case_prod_beta\<close>)
  then have v1: "vars_are sc (cgiVars wp) st1 (e ++ cgi_map g wp)" using st1(2) by simp
  obtain q where q: "append_post m wp = Some (wp\<lparr>wquery := q\<rparr>)" "opt_str q = full_query wp"
    using append_post_spec[OF assms(1) _ assms(9)] assms(3) by (auto simp: req_strings_def)
  have d: "bstrdup True q = Some (full_query wp)" using q(2) by (cases q) (simp_all add: bstrdup_def opt_str_def)
  have "CHR 0x00 \<notin> set (full_query wp)" using assms(3) by (auto simp: full_query_def req_strings_def split: option.splits)
  then have "\<forall>kw \<in> set (c_tokens CHR ''&'' (full_query wp)). CHR 0x00 \<notin> set kw" using c_tokens_sub by fastforce
  from query_vars_spec[OF assms(1) v1 this] obtain st2 where "query_vars m sc True True st1 (cgiVars wp) (c_tokens CHR ''&'' (full_query wp)) = Some st2"
     "vars_are sc (cgiVars wp) st2 (assign_query (full_query wp) (e ++ cgi_map g wp))" unfolding assign_query_def by blast
  then show ?thesis using pb b st1(1) q d assms(4) by (simp add: websSetEnv_def flip: vs_def)
qed


text \<open>Other tables keep their contents.\<close>

definition same_but :: "int \<Rightarrow> sym_state \<Rightarrow> sym_state \<Rightarrow> bool" where
  "same_but sd st st' \<longleftrightarrow> (\<forall>d. d \<noteq> sd \<longrightarrow> sym_tab st' d = sym_tab st d)"

lemma same_but_refl [simp]: "same_but sd st st"
  by (simp add: same_but_def)

lemma same_but_trans: "same_but sd st st1 \<Longrightarrow> same_but sd st1 st2 \<Longrightarrow> same_but sd st st2"
  by (simp add: same_but_def)

lemma websSetVar_frame: "websSetVar sc ok dup st sd k v = Some st' \<Longrightarrow> same_but sd st st'"
  by (auto simp: websSetVar_def symEnter_def same_but_def sym_tab_def h_get_def h_store_def bind_eq_Some_conv nth_list_update
      split: option.splits if_splits prod.splits)

lemma set_vars_frame: "set_vars sc ok dup st sd kvs = Some st' \<Longrightarrow> same_but sd st st'"
  by (induction sc ok dup st sd kvs rule: set_vars.induct) (auto simp: bind_eq_Some_conv dest: websSetVar_frame intro: same_but_trans)

lemma query_vars_frame: "query_vars m sc ok dup st sd kws = Some st' \<Longrightarrow> same_but sd st st'"
proof (induction m sc ok dup st sd kws rule: query_vars.induct)
  case (2 m sc ok dup st sd kw kws)
  obtain k v st1 where k: "query_pair kw = Some (k, v)" and s1: "(if k = [] then Some st
             else do { old \<leftarrow> websGetVar sc st sd k None;
               (case old of Some w \<Rightarrow> do { (p, _, _) \<leftarrow> fmtAlloc m sc 256 ''%s %s'' [VStr (Some w), VStr (Some v)]; websSetVar sc ok dup st sd k (map_option c_str p) }
                | None \<Rightarrow> websSetVar sc ok dup st sd k (Some v)) }) = Some st1"
    and s2: "query_vars m sc ok dup st1 sd kws = Some st'"
    using "2.prems" by (auto simp: bind_eq_Some_conv split: prod.splits)
  have "same_but sd st st1" using s1 by (auto simp: bind_eq_Some_conv dest: websSetVar_frame split: if_splits option.splits)
  moreover have "same_but sd st1 st'" using "2.IH"[OF k _ s1 s2] by simp
  ultimately show ?case by (rule same_but_trans)
qed simp

lemma websSetEnv_frame:
  assumes "websSetEnv m sc ok dup u g st wp = Some (st', wp')" "wflags wp AND WEBS_MULTIPART_FORM = 0"
  shows "same_but (cgiVars wp) st st'"
proof -
  have "cgiVars w = cgiVars wp" if "append_post m wp = Some w" for w using that by (auto simp: append_post_def bind_eq_Some_conv split: option.splits)
  then show ?thesis using assms
    by (auto simp: websSetEnv_def bind_eq_Some_conv split: prod.splits dest!: set_vars_frame query_vars_frame intro: same_but_trans)
qed

lemma empty_vars:
  assumes "sym_inv sc st" "\<not> refuses m" "0 < hsize"
  shows "\<exists>st' sd. symOpen m True True st hsize = Some (st', sd) \<and> vars_are sc sd st' Map.empty"
  using symOpen_spec[OF assms(1,3), of m] assms(2) by (fastforce simp: vars_are_def sym_at_def sym_find_def)

definition demo_query :: "int \<Rightarrow> webs" where
  "demo_query sd = demo_request\<lparr>cgiVars := sd, wquery := Some ''a=1&b=%41'', postData := Some ''a=2&REMOTE_ADDR=x'', lenPostData := 17\<rparr>"

definition demo_globals :: webs_globals where
  "demo_globals = \<lparr>gHost = ''hotspot'', gHostUrl = ''hotspot'', gPort = 80\<rparr>"


text \<open>
  A part whose \<^verbatim>\<open>Content-Disposition\<close> line has no line feed before the terminating NUL: the loop over
  the parts goes round without moving on and never returns.
\<close>

lemma extract_parts_hangs:
  assumes "strstr_at b e bnd = Some (Some p1)" "strchr_at b p1 CHR 0x0A = Some (Some p2)"
    "strstr_at b (p2 + 1) ''Content-Disposition'' = Some (Some k)" "strchr_at b (p2 + 1) CHR 0x0A = Some None"
  shows "extract_parts m u bnd b n e q fu file = None"
proof (rule ccontr)
  assume "extract_parts m u bnd b n e q fu file \<noteq> None"
  then obtain r where r: "extract_parts m u bnd b n e q fu file = Some r" by blast
  have "bnd = bnd \<and> b = b \<and> e = e \<longrightarrow> False"
    by (rule extract_parts.raw_induct[where P = "\<lambda>_ _ x y _ z _ _ _ _. x = bnd \<and> y = b \<and> z = e \<longrightarrow> False", OF _ r]) (use assms in \<open>force simp: Let_def\<close>)
  then show False by blast
qed

lemma extract_parts_hangs_example:
  "extract_parts (\<lambda>_. None) (\<lambda>_. CHR 0x00) ''--B'' (''--B'' @ CHR 0x0A # ''Content-Disposition'' @ [CHR 0x00]) 24 0 None False None = None"
  by (rule extract_parts_hangs[of _ _ _ 0 3 4])
    (simp_all add: strstr_at_def strstr_from.simps strchr_at_def Let_def)

end
