(* ===== verification/Handlers.thy ===== *)
theory Handlers
  imports Query Security "HOL-Library.Multiset"
begin

text \<open>
  URL handlers, \<^verbatim>\<open>handler.c\<close>: the table of handlers, sorted after each definition, and the dispatch of
  a request to the handlers whose prefix its path has; the table of script functions that \<^verbatim>\<open>asp.c\<close>
  opens with it; and the handlers \<^verbatim>\<open>initWebs\<close> of \<^verbatim>\<open>main.c\<close> defines. \<^verbatim>\<open>qsort\<close> is the merge sort of the C
  library of this build.

  The access control handler and the handler for published directories are the modelled ones; the
  others are a parameter of the dispatch, so the theorems hold whatever they do.
\<close>

section \<open>The table\<close>

datatype url_handler = websSecurityHandler_fn | websFormHandler_fn | websJRDtnHandler_fn | websJRDJsonHandler_fn | websJRDXMLHandler_fn
  | websCgiHandler_fn | websDefaultHandler_fn | websHomePageHandler_fn | websPublishHandler_fn

record websUrlHandlerType =
  handler :: "url_handler option"
  webDir :: cstring
  urlPrefix :: cstring
  plen :: nat
  harg :: int
  hflags :: int

definition WEBS_HANDLER_FIRST :: int where "WEBS_HANDLER_FIRST = 1"
definition WEBS_HANDLER_LAST :: int where "WEBS_HANDLER_LAST = 2"

text \<open>The array: the null pointer, a pointer to freed memory, or a block.\<close>

datatype hblock = HNull | HFreed | HBlock "websUrlHandlerType list"

text \<open>The server: access control with all symbol tables, and the globals of \<^verbatim>\<open>handler.c\<close>, \<^verbatim>\<open>asp.c\<close> and \<^verbatim>\<open>default.c\<close>.\<close>

record server =
  secs :: sec_state
  websUrlHandler :: hblock
  websUrlHandlerMax :: int
  urlHandlerOpenCount :: int
  aspOpenCount :: int
  websAspFunctions :: int
  websDefaultDir :: "cstring option"
  handlerHits :: int
  globals :: webs_globals

definition syms :: "server \<Rightarrow> sym_state" where
  "syms st = symtab (sess (secs st))"

definition set_syms :: "server \<Rightarrow> sym_state \<Rightarrow> server" where
  "set_syms st s = st\<lparr>secs := (secs st)\<lparr>sess := (sess (secs st))\<lparr>symtab := s\<rparr>\<rparr>\<rparr>"

section \<open>Script functions\<close>

text \<open>\<open>fn\<close> is the address of a C function.\<close>

definition ejSetGlobalFunctionDirect :: "bool \<Rightarrow> bool \<Rightarrow> bool \<Rightarrow> sym_state \<Rightarrow> int \<Rightarrow> cstring \<Rightarrow> int \<Rightarrow> (sym_state \<times> int) option" where
  "ejSetGlobalFunctionDirect sc ok dup s functions nm fn = do {
     (s1, r) \<leftarrow> symEnter sc ok dup s functions nm (valueInteger fn) 0;
     Some (s1, if r = None then -1 else 0) }"

definition websAspDefine :: "bool \<Rightarrow> bool \<Rightarrow> bool \<Rightarrow> server \<Rightarrow> cstring \<Rightarrow> int \<Rightarrow> (server \<times> int) option" where
  "websAspDefine sc ok dup st nm fn = do {
     (s1, rc) \<leftarrow> ejSetGlobalFunctionDirect sc ok dup (syms st) (websAspFunctions st) nm fn;
     Some (set_syms st s1, rc) }"

definition websAspOpen :: "balloc_env \<Rightarrow> bool \<Rightarrow> bool \<Rightarrow> bool \<Rightarrow> int \<Rightarrow> server \<Rightarrow> server option" where
  "websAspOpen m sc ok dup websAspWrite st =
     (let st1 = st\<lparr>aspOpenCount := aspOpenCount st + 1\<rparr>
      in if aspOpenCount st1 = 1 then do {
           (s, fd) \<leftarrow> symOpen m ok dup (syms st1) (WEBS_SYM_INIT * 2);
           (st2, _) \<leftarrow> websAspDefine sc ok dup ((set_syms st1 s)\<lparr>websAspFunctions := fd\<rparr>) ''write'' websAspWrite;
           Some st2 }
         else Some st1)"

definition websAspClose :: "server \<Rightarrow> server option" where
  "websAspClose st =
     (let st1 = st\<lparr>aspOpenCount := aspOpenCount st - 1\<rparr>
      in if aspOpenCount st1 \<le> 0 \<and> websAspFunctions st1 \<noteq> -1 then do {
           s \<leftarrow> symClose (syms st1) (websAspFunctions st1);
           Some ((set_syms st1 s)\<lparr>websAspFunctions := -1\<rparr>) }
         else Some st1)"

section \<open>Opening and closing\<close>

definition websUrlHandlerOpen :: "balloc_env \<Rightarrow> bool \<Rightarrow> bool \<Rightarrow> bool \<Rightarrow> int \<Rightarrow> server \<Rightarrow> (server \<times> int) option" where
  "websUrlHandlerOpen m sc ok dup websAspWrite st =
     (let st1 = st\<lparr>urlHandlerOpenCount := urlHandlerOpenCount st + 1\<rparr>
      in if urlHandlerOpenCount st1 = 1 then do {
           st2 \<leftarrow> websAspOpen m sc ok dup websAspWrite st1;
           Some (st2\<lparr>websUrlHandler := HNull, websUrlHandlerMax := 0\<rparr>, 0) }
         else Some (st1, 0))"

definition websUrlHandlerClose :: "server \<Rightarrow> server option" where
  "websUrlHandlerClose st =
     (let st1 = st\<lparr>urlHandlerOpenCount := urlHandlerOpenCount st - 1\<rparr>
      in if urlHandlerOpenCount st1 \<le> 0 then do {
           st2 \<leftarrow> websAspClose st1;
           (case websUrlHandler st2 of
              HNull \<Rightarrow> if websUrlHandlerMax st2 > 0 then None else Some (st2\<lparr>websUrlHandlerMax := 0\<rparr>)
            | HFreed \<Rightarrow> None
            | HBlock _ \<Rightarrow> Some (st2\<lparr>websUrlHandler := HFreed, websUrlHandlerMax := 0\<rparr>)) }
         else Some st1)"

section \<open>Sorting\<close>

text \<open>\<^verbatim>\<open>strcmp\<close>: the difference of the first bytes that differ, as unsigned characters.\<close>

fun c_strcmp :: "cstring \<Rightarrow> cstring \<Rightarrow> int" where
  "c_strcmp [] [] = 0"
| "c_strcmp [] (d # t) = - c_uchar d"
| "c_strcmp (c # s) [] = c_uchar c"
| "c_strcmp (c # s) (d # t) = (if c = d then c_strcmp s t else c_uchar c - c_uchar d)"

definition websUrlHandlerSort :: "websUrlHandlerType \<Rightarrow> websUrlHandlerType \<Rightarrow> int" where
  "websUrlHandlerSort s1 s2 =
     (if hflags s1 AND WEBS_HANDLER_FIRST \<noteq> 0 \<or> hflags s2 AND WEBS_HANDLER_LAST \<noteq> 0 then -1
      else if hflags s2 AND WEBS_HANDLER_FIRST \<noteq> 0 \<or> hflags s1 AND WEBS_HANDLER_LAST \<noteq> 0 then 1
      else let rc = c_strcmp (urlPrefix s1) (urlPrefix s2)
        in if rc = 0 then (if plen s1 < plen s2 then 1 else if plen s1 > plen s2 then -1 else - rc) else - rc)"

text \<open>\<^verbatim>\<open>qsort\<close> of the C library: both halves sorted, then merged, the first half first on a tie.\<close>

fun qmerge :: "('a \<Rightarrow> 'a \<Rightarrow> int) \<Rightarrow> 'a list \<Rightarrow> 'a list \<Rightarrow> 'a list" where
  "qmerge cmp [] ys = ys"
| "qmerge cmp (x # xs) [] = x # xs"
| "qmerge cmp (x # xs) (y # ys) = (if cmp x y \<le> 0 then x # qmerge cmp xs (y # ys) else y # qmerge cmp (x # xs) ys)"

function c_qsort :: "('a \<Rightarrow> 'a \<Rightarrow> int) \<Rightarrow> 'a list \<Rightarrow> 'a list" where
  "c_qsort cmp xs =
     (if length xs \<le> 1 then xs
      else let n1 = length xs div 2 in qmerge cmp (c_qsort cmp (take n1 xs)) (c_qsort cmp (drop n1 xs)))"
  by pat_completeness auto
termination by (relation "measure (\<lambda>(cmp, xs). length xs)") auto

declare c_qsort.simps [simp del]

section \<open>Definitions\<close>

text \<open>The size of a table entry: six words.\<close>

definition sizeof_handler :: int where "sizeof_handler = 24"

definition websUrlHandlerDefine ::
    "balloc_env \<Rightarrow> bool \<Rightarrow> server \<Rightarrow> cstring \<Rightarrow> cstring option \<Rightarrow> int \<Rightarrow> url_handler \<Rightarrow> int \<Rightarrow> (server \<times> int) option" where
  "websUrlHandlerDefine m dup st prefix dir ar fn fl =
     (if websUrlHandler st = HFreed then None
      else case balloc m ((websUrlHandlerMax st + 1) * sizeof_handler) of
        None \<Rightarrow> Some (st\<lparr>websUrlHandler := HNull\<rparr>, -1)
      | Some _ \<Rightarrow> do {
          old \<leftarrow> (case websUrlHandler st of HBlock hs \<Rightarrow> Some hs | _ \<Rightarrow> if websUrlHandlerMax st = 0 then Some [] else None);
          p \<leftarrow> bstrdup dup (Some prefix);
          d \<leftarrow> bstrdup dup dir;
          let sp = \<lparr>handler = Some fn, webDir = d, urlPrefix = p, plen = length p, harg = ar, hflags = fl\<rparr>;
          Some (st\<lparr>websUrlHandler := HBlock (c_qsort websUrlHandlerSort (old @ [sp])), websUrlHandlerMax := websUrlHandlerMax st + 1\<rparr>, 0) })"

text \<open>An entry of the table; a fault on a null or freed table.\<close>

definition handler_at :: "server \<Rightarrow> int \<Rightarrow> websUrlHandlerType option" where
  "handler_at st i = (case websUrlHandler st of HBlock hs \<Rightarrow> mem_read hs i | _ \<Rightarrow> None)"

fun delete_scan :: "websUrlHandlerType list \<Rightarrow> url_handler \<Rightarrow> websUrlHandlerType list option" where
  "delete_scan [] fn = None"
| "delete_scan (h # hs) fn = (if handler h = Some fn then Some (h\<lparr>handler := None\<rparr> # hs) else map_option (Cons h) (delete_scan hs fn))"

definition websUrlHandlerDelete :: "server \<Rightarrow> url_handler \<Rightarrow> (server \<times> int) option" where
  "websUrlHandlerDelete st fn =
     (if websUrlHandlerMax st \<le> 0 then Some (st, -1)
      else case websUrlHandler st of
        HBlock hs \<Rightarrow> Some (case delete_scan hs fn of None \<Rightarrow> (st, -1) | Some hs' \<Rightarrow> (st\<lparr>websUrlHandler := HBlock hs'\<rparr>, 0))
      | _ \<Rightarrow> None)"

definition websPublish :: "balloc_env \<Rightarrow> bool \<Rightarrow> server \<Rightarrow> cstring \<Rightarrow> cstring \<Rightarrow> (server \<times> int) option" where
  "websPublish m dup st prefix path = websUrlHandlerDefine m dup st prefix (Some path) 0 websPublishHandler_fn 0"

text \<open>Whether the code takes the entry for a path.\<close>

definition serves :: "websUrlHandlerType \<Rightarrow> cstring \<Rightarrow> bool" where
  "serves h path \<longleftrightarrow> handler h \<noteq> None \<and> c_strncmp0 (urlPrefix h) path (plen h)"

text \<open>The directory and the prefix of the first entry with a prefix of its own.\<close>

definition websGetPublishDir :: "server \<Rightarrow> cstring \<Rightarrow> (cstring \<times> cstring) option option" where
  "websGetPublishDir st path =
     (if websUrlHandlerMax st \<le> 0 then Some None
      else case websUrlHandler st of
        HBlock hs \<Rightarrow> Some (map_option (\<lambda>h. (webDir h, urlPrefix h)) (find (\<lambda>h. urlPrefix h \<noteq> [] \<and> serves h path) hs))
      | _ \<Rightarrow> None)"

definition websPublishHandler :: "bool \<Rightarrow> bool \<Rightarrow> bool \<Rightarrow> server \<Rightarrow> webs \<Rightarrow> cstring \<Rightarrow> cstring \<Rightarrow> cstring \<Rightarrow> (server \<times> webs \<times> int) option" where
  "websPublishHandler sc ok dup st wp prefix dir path = do {
     let len = length prefix + 1;
     p \<leftarrow> str_at (path @ [CHR 0x00]) len;
     (s, wp1) \<leftarrow> websSetRequestPath sc ok dup (syms st) wp (Some dir) (Some p);
     Some (set_syms st s, wp1, 0) }"

section \<open>Dispatch\<close>

text \<open>What is written to the browser: answers of the access control handler and \<^verbatim>\<open>websError\<close>.\<close>

datatype http_reply = SecReply reply | WebsError int cstring

text \<open>
  A handler: it gets the server, the request, the prefix, the directory and the argument of its
  entry, and returns with the request, \<open>None\<close> when it has called \<^verbatim>\<open>websDone\<close>, and its return value.
\<close>

type_synonym handler_call =
  "url_handler \<Rightarrow> server \<Rightarrow> webs \<Rightarrow> cstring \<Rightarrow> cstring \<Rightarrow> int \<Rightarrow> (server \<times> webs option \<times> http_reply list \<times> int) option"

definition run_handler :: "'j json_api \<Rightarrow> bool \<Rightarrow> bool \<Rightarrow> bool \<Rightarrow> handler_call \<Rightarrow> handler_call" where
  "run_handler js sc ok dup other fn st wp prefix dir ar =
     (case fn of
        websSecurityHandler_fn \<Rightarrow> do {
          u \<leftarrow> url wp; p \<leftarrow> wpath wp;
          (s, wp1, rs, rc) \<leftarrow> websSecurityHandler js sc (secs st) wp u p;
          Some (st\<lparr>secs := s\<rparr>, Some wp1, map SecReply rs, rc) }
      | websPublishHandler_fn \<Rightarrow> do {
          p \<leftarrow> wpath wp;
          (st1, wp1, rc) \<leftarrow> websPublishHandler sc ok dup st wp prefix dir p;
          Some (st1, Some wp1, [], rc) }
      | _ \<Rightarrow> other fn st wp prefix dir ar)"

definition set_env :: "balloc_env \<Rightarrow> bool \<Rightarrow> bool \<Rightarrow> bool \<Rightarrow> (nat \<Rightarrow> byte) \<Rightarrow> server \<Rightarrow> webs \<Rightarrow> (server \<times> webs) option" where
  "set_env m sc ok dup u st wp = do {
     (s, wp1) \<leftarrow> websSetEnv m sc ok dup u (globals st) (syms st) wp;
     Some (set_syms st s, wp1) }"

text \<open>The loop over the table. It reads the table anew in each round, since a handler may change it.\<close>

partial_function (option) handler_loop ::
    "balloc_env \<Rightarrow> bool \<Rightarrow> bool \<Rightarrow> bool \<Rightarrow> (nat \<Rightarrow> byte) \<Rightarrow> handler_call \<Rightarrow> server \<Rightarrow> webs \<Rightarrow> int \<Rightarrow> bool \<Rightarrow> http_reply list \<Rightarrow>
     (server \<times> webs option \<times> http_reply list \<times> int) option" where
  [code]: "handler_loop m sc ok dup u run st wp i first out =
     (if i \<ge> websUrlHandlerMax st then Some (st, None, out @ [WebsError 200 ''No handler for this URL''], 0)
      else do {
        sp \<leftarrow> handler_at st i;
        path \<leftarrow> wpath wp;
        if \<not> serves sp path then handler_loop m sc ok dup u run st wp (i + 1) first out
        else do {
          (st1, wp1) \<leftarrow> (if first then set_env m sc ok dup u st wp else Some (st, wp));
          (st2, wp2, rs, rc) \<leftarrow> run (the (handler sp)) st1 wp1 (urlPrefix sp) (webDir sp) (harg sp);
          if rc \<noteq> 0 then Some (st2, wp2, out @ rs, 1)
          else (case wp2 of
                  None \<Rightarrow> Some (st2, None, out @ rs, 1)
                | Some w \<Rightarrow> handler_loop m sc ok dup u run st2 w (i + 1) False (out @ rs)) } })"

definition WEBS_PROCESSING :: int where "WEBS_PROCESSING = 0x10"

text \<open>A string of the request with repeated slashes removed in place.\<close>

definition condensed :: "cstring option \<Rightarrow> cstring option option" where
  "condensed s = do {
     r \<leftarrow> websCondenseMultipleChars (map_option (\<lambda>t. t @ [CHR 0x00]) s) CHR ''/'';
     Some (map_option c_str r) }"

definition websUrlHandlerRequest ::
    "balloc_env \<Rightarrow> bool \<Rightarrow> bool \<Rightarrow> bool \<Rightarrow> (nat \<Rightarrow> byte) \<Rightarrow> handler_call \<Rightarrow> server \<Rightarrow> webs \<Rightarrow>
     (server \<times> webs option \<times> http_reply list \<times> int) option" where
  "websUrlHandlerRequest m sc ok dup u run st wp = do {
     let st0 = st\<lparr>handlerHits := handlerHits st + 1\<rparr>;
     (s1, wp1) \<leftarrow> websSetRequestPath sc ok dup (syms st0) (wp\<lparr>wstate := WEBS_PROCESSING\<rparr>) (websDefaultDir st0) None;
     let st1 = set_syms st0 s1;
     p \<leftarrow> condensed (wpath wp1);
     ur \<leftarrow> condensed (url wp1);
     let wp2 = wp1\<lparr>wpath := p, url := ur\<rparr>;
     path \<leftarrow> p;
     if take 1 path \<noteq> ''/'' \<or> CHR 0x5C \<in> set path then Some (st1, None, [WebsError 400 ''Bad request''], 0)
     else handler_loop m sc ok dup u run st1 wp2 0 True [] }"

section \<open>The handlers of the product\<close>

fun define_all :: "balloc_env \<Rightarrow> bool \<Rightarrow> server \<Rightarrow> (cstring \<times> url_handler \<times> int) list \<Rightarrow> server option" where
  "define_all m dup st [] = Some st"
| "define_all m dup st ((p, fn, fl) # ds) = do { (st1, _) \<leftarrow> websUrlHandlerDefine m dup st p None 0 fn fl; define_all m dup st1 ds }"

definition initWebs_handlers :: "(cstring \<times> url_handler \<times> int) list" where
  "initWebs_handlers =
     [([], websSecurityHandler_fn, WEBS_HANDLER_FIRST), ([], websFormHandler_fn, WEBS_HANDLER_FIRST), (''/goform'', websJRDtnHandler_fn, 0),
      (''/jrd/webapi'', websJRDJsonHandler_fn, 0), (''/vodafoneapi'', websJRDXMLHandler_fn, 0), (''/cgi-bin'', websCgiHandler_fn, 0),
      ([], websDefaultHandler_fn, WEBS_HANDLER_LAST), (''/'', websHomePageHandler_fn, 0)]"

section \<open>What a comparator has to promise\<close>

lemma qsort_step:
  assumes "\<not> length xs \<le> 1"
  shows "c_qsort cmp xs = qmerge cmp (c_qsort cmp (take (length xs div 2) xs)) (c_qsort cmp (drop (length xs div 2) xs))"
    and "length (take (length xs div 2) xs) < length xs" and "length (drop (length xs div 2) xs) < length xs"
  using assms by (auto simp: c_qsort.simps[of cmp xs] Let_def)

text \<open>
  The contract of \<^verbatim>\<open>qsort\<close>'s comparator, on the elements \<open>ok\<close>: a total preorder. Then the result is a
  sorted permutation in which elements that are level keep their order.
\<close>

locale qsort_comparator =
  fixes cmp :: "'a \<Rightarrow> 'a \<Rightarrow> int" and ok :: "'a \<Rightarrow> bool"
  assumes total: "ok x \<Longrightarrow> ok y \<Longrightarrow> cmp x y \<le> 0 \<or> cmp y x \<le> 0"
    and trans: "ok x \<Longrightarrow> ok y \<Longrightarrow> ok z \<Longrightarrow> cmp x y \<le> 0 \<Longrightarrow> cmp y z \<le> 0 \<Longrightarrow> cmp x z \<le> 0"
begin

lemma mset_qmerge: "mset (qmerge cmp xs ys) = mset xs + mset ys"
  by (induction cmp xs ys rule: qmerge.induct) auto

lemma mset_qsort: "mset (c_qsort cmp xs) = mset xs"
proof (induction cmp xs rule: c_qsort.induct)
  case (1 cmp xs)
  have "mset (take (length xs div 2) xs) + mset (drop (length xs div 2) xs) = mset xs" by (metis append_take_drop_id mset_append)
  moreover have "mset (qmerge cmp as bs) = mset as + mset bs" for as bs by (induction cmp as bs rule: qmerge.induct) auto
  ultimately show ?case using 1 by (subst c_qsort.simps) (simp add: Let_def)
qed

lemma set_qsort [simp]: "set (c_qsort cmp xs) = set xs"
  using mset_qsort mset_eq_setD by blast

lemma set_qmerge: "set (qmerge cmp xs ys) = set xs \<union> set ys"
  using arg_cong[OF mset_qmerge, of set_mset] by simp

lemma sorted_qmerge:
  "sorted_wrt (\<lambda>x y. cmp x y \<le> 0) xs \<Longrightarrow> sorted_wrt (\<lambda>x y. cmp x y \<le> 0) ys \<Longrightarrow> \<forall>x \<in> set xs \<union> set ys. ok x \<Longrightarrow>
     sorted_wrt (\<lambda>x y. cmp x y \<le> 0) (qmerge cmp xs ys)"
proof (induction xs arbitrary: ys)
  case (Cons x xs)
  show ?case using Cons.prems
  proof (induction ys)
    case (Cons y ys)
    show ?case
    proof (cases "cmp x y \<le> 0")
      case True
      have "cmp x z \<le> 0" if "z \<in> set (y # ys)" for z
        using that True Cons.prems trans[of x y z] by auto
      then show ?thesis using True Cons.prems \<open>\<And>ys. _ \<Longrightarrow> _ \<Longrightarrow> _ \<Longrightarrow> sorted_wrt _ (qmerge cmp xs ys)\<close>[of "y # ys"] by (auto simp: set_qmerge)
    next
      case False
      then have "cmp y x \<le> 0" using total[of x y] Cons.prems by auto
      then have "cmp y z \<le> 0" if "z \<in> set (x # xs)" for z using that Cons.prems trans[of y x z] by auto
      then show ?thesis using False Cons.prems Cons.IH by (auto simp: set_qmerge)
    qed
  qed simp
qed simp

lemma sorted_qsort: "\<forall>x \<in> set xs. ok x \<Longrightarrow> sorted_wrt (\<lambda>x y. cmp x y \<le> 0) (c_qsort cmp xs)"
proof (induction "length xs" arbitrary: xs rule: less_induct)
  case less
  show ?case
  proof (cases "length xs \<le> 1")
    case True
    then show ?thesis by (subst c_qsort.simps) (cases xs; simp)
  next
    case False
    let ?n = "length xs div 2"
    have "\<forall>x \<in> set (take ?n xs). ok x" "\<forall>x \<in> set (drop ?n xs). ok x" using less.prems by (auto dest: in_set_takeD in_set_dropD)
    then show ?thesis unfolding qsort_step(1)[OF False]
      using less.hyps[OF qsort_step(2)[OF False]] less.hyps[OF qsort_step(3)[OF False]] less.prems by (intro sorted_qmerge) auto
  qed
qed

text \<open>Stability: a predicate whose elements are level with each other selects the same list.\<close>

lemma filter_qmerge:
  assumes level: "\<And>x y. P x \<Longrightarrow> P y \<Longrightarrow> cmp x y \<le> 0"
  shows "sorted_wrt (\<lambda>x y. cmp x y \<le> 0) xs \<Longrightarrow> \<forall>x \<in> set xs \<union> set ys. ok x \<Longrightarrow> filter P (qmerge cmp xs ys) = filter P xs @ filter P ys"
proof (induction xs arbitrary: ys)
  case (Cons x xs)
  show ?case using Cons.prems
  proof (induction ys)
    case (Cons y ys)
    show ?case
    proof (cases "cmp x y \<le> 0")
      case True
      then show ?thesis using Cons.prems \<open>\<And>ys. _ \<Longrightarrow> _ \<Longrightarrow> filter P (qmerge cmp xs ys) = _\<close>[of "y # ys"] by auto
    next
      case False
      have "\<not> P z" if "P y" "z \<in> set (x # xs)" for z
        using that False Cons.prems level[of z y] trans[of x z y] by auto
      then have "P y \<Longrightarrow> filter P (x # xs) = []" by (auto simp: filter_empty_conv)
      then show ?thesis using False Cons.prems Cons.IH by (cases "P y") auto
    qed
  qed simp
qed simp

lemma filter_qsort:
  assumes level: "\<And>x y. P x \<Longrightarrow> P y \<Longrightarrow> cmp x y \<le> 0"
  shows "\<forall>x \<in> set xs. ok x \<Longrightarrow> filter P (c_qsort cmp xs) = filter P xs"
proof (induction "length xs" arbitrary: xs rule: less_induct)
  case less
  show ?case
  proof (cases "length xs \<le> 1")
    case True
    then show ?thesis by (subst c_qsort.simps) simp
  next
    case False
    let ?n = "length xs div 2"
    have o: "\<forall>x \<in> set (take ?n xs). ok x" "\<forall>x \<in> set (drop ?n xs). ok x" using less.prems by (auto dest: in_set_takeD in_set_dropD)
    have "filter P (take ?n xs) @ filter P (drop ?n xs) = filter P xs" by (simp flip: filter_append)
    moreover have "filter P (c_qsort cmp xs) = filter P (c_qsort cmp (take ?n xs)) @ filter P (c_qsort cmp (drop ?n xs))"
      unfolding qsort_step(1)[OF False] by (rule filter_qmerge[OF level sorted_qsort[OF o(1)]]) (use o in auto)
    ultimately show ?thesis using less.hyps[OF qsort_step(2)[OF False] o(1)] less.hyps[OF qsort_step(3)[OF False] o(2)] by simp
  qed
qed

end

section \<open>The order of handlers\<close>

definition handler_ok :: "websUrlHandlerType \<Rightarrow> bool" where
  "handler_ok h \<longleftrightarrow> hflags h \<in> {0, WEBS_HANDLER_FIRST, WEBS_HANDLER_LAST} \<and> plen h = length (urlPrefix h) \<and> CHR 0x00 \<notin> set (urlPrefix h)"

definition is_first :: "websUrlHandlerType \<Rightarrow> bool" where "is_first h \<longleftrightarrow> hflags h = WEBS_HANDLER_FIRST"
definition is_last :: "websUrlHandlerType \<Rightarrow> bool" where "is_last h \<longleftrightarrow> hflags h = WEBS_HANDLER_LAST"

lemma strcmp_anti: "c_strcmp a b = - c_strcmp b a"
  by (induction a b rule: c_strcmp.induct) auto

lemma strcmp_refl [simp]: "c_strcmp a a = 0"
  by (induction a) auto

lemma uchar_pos: "c \<noteq> CHR 0x00 \<Longrightarrow> 0 < c_uchar c"
  using c_uchar_inject[of c "CHR 0x00"] c_uchar_range(1)[of c] by (simp add: c_uchar_def)

lemma uchar_zero: "c_uchar c = 0 \<longleftrightarrow> c = CHR 0x00"
proof (cases "c = CHR 0x00")
  case False
  then show ?thesis using uchar_pos[OF False] by simp
qed (simp add: c_uchar_def)

lemma strcmp_zero: "CHR 0x00 \<notin> set a \<Longrightarrow> CHR 0x00 \<notin> set b \<Longrightarrow> c_strcmp a b = 0 \<longleftrightarrow> a = b"
  by (induction a b rule: c_strcmp.induct) (auto simp: uchar_zero)

lemma strcmp_trans:
  "CHR 0x00 \<notin> set a \<Longrightarrow> CHR 0x00 \<notin> set b \<Longrightarrow> CHR 0x00 \<notin> set c \<Longrightarrow> c_strcmp a b \<ge> 0 \<Longrightarrow> c_strcmp b c \<ge> 0 \<Longrightarrow> c_strcmp a c \<ge> 0"
proof (induction a b arbitrary: c rule: c_strcmp.induct)
  case (2 d t)
  then show ?case using uchar_pos[of d] by auto
next
  case (3 d s)
  show ?case
  proof (cases c)
    case (Cons e u)
    then show ?thesis using 3 uchar_pos[of e] by auto
  qed (use 3 in simp)
next
  case (4 x s d t)
  show ?case
  proof (cases c)
    case (Cons e u)
    then show ?thesis using 4 by (auto split: if_splits)
  qed (use 4 in simp)
qed (simp add: le_antisym)

lemma strcmp_prefix: "take (length a) b = a \<Longrightarrow> CHR 0x00 \<notin> set b \<Longrightarrow> c_strcmp a b \<le> 0"
  by (induction a b rule: c_strcmp.induct) auto

lemma handler_cmp:
  assumes "handler_ok a" "handler_ok b"
  shows "websUrlHandlerSort a b \<le> 0 \<longleftrightarrow>
     is_first a \<or> is_last b \<or> \<not> is_first b \<and> \<not> is_last a \<and> c_strcmp (urlPrefix a) (urlPrefix b) \<ge> 0"
proof -
  have "c_strcmp (urlPrefix a) (urlPrefix b) = 0 \<longleftrightarrow> urlPrefix a = urlPrefix b" using assms strcmp_zero by (auto simp: handler_ok_def)
  then show ?thesis using assms
    by (auto simp: websUrlHandlerSort_def handler_ok_def is_first_def is_last_def WEBS_HANDLER_FIRST_def WEBS_HANDLER_LAST_def Let_def)
qed

interpretation hsort: qsort_comparator websUrlHandlerSort handler_ok
proof
  fix a b c
  show "websUrlHandlerSort a b \<le> 0 \<or> websUrlHandlerSort b a \<le> 0" if "handler_ok a" "handler_ok b"
    using that strcmp_anti[of "urlPrefix a" "urlPrefix b"] by (auto simp: handler_cmp)
  show "websUrlHandlerSort a c \<le> 0" if o: "handler_ok a" "handler_ok b" "handler_ok c" and s: "websUrlHandlerSort a b \<le> 0" "websUrlHandlerSort b c \<le> 0"
  proof -
    have "c_strcmp (urlPrefix a) (urlPrefix c) \<ge> 0" if "c_strcmp (urlPrefix a) (urlPrefix b) \<ge> 0" "c_strcmp (urlPrefix b) (urlPrefix c) \<ge> 0"
      using strcmp_trans[OF _ _ _ that] o by (simp add: handler_ok_def)
    moreover have "\<not> (is_first x \<and> is_last x)" for x by (simp add: is_first_def is_last_def WEBS_HANDLER_FIRST_def WEBS_HANDLER_LAST_def)
    ultimately show ?thesis using s o by (auto simp: handler_cmp)
  qed
qed

text \<open>
  A well-ordered table: first the entries that asked to be first, in the order of their definition,
  then the others, then those that asked to be last; of two other entries for the same path the one
  with the longer prefix comes first.
\<close>

definition table_order :: "websUrlHandlerType list \<Rightarrow> websUrlHandlerType list \<Rightarrow> bool" where
  "table_order defs hs \<longleftrightarrow> mset hs = mset defs \<and>
     hs = filter is_first defs @ filter (\<lambda>h. \<not> is_first h \<and> \<not> is_last h) hs @ filter is_last defs \<and>
     (\<forall>i j path. i < j \<and> j < length hs \<and> \<not> is_first (hs ! i) \<and> \<not> is_last (hs ! j) \<and> CHR 0x00 \<notin> set path \<and>
        take (plen (hs ! i)) path = urlPrefix (hs ! i) \<and> take (plen (hs ! j)) path = urlPrefix (hs ! j) \<longrightarrow> plen (hs ! j) \<le> plen (hs ! i))"

lemma sorted_classes:
  assumes "sorted_wrt (\<lambda>x y. websUrlHandlerSort x y \<le> 0) hs" "\<forall>h \<in> set hs. handler_ok h"
  shows "hs = filter is_first hs @ filter (\<lambda>h. \<not> is_first h \<and> \<not> is_last h) hs @ filter is_last hs"
  using assms
proof (induction hs)
  case (Cons h hs)
  let ?mid = "\<lambda>h. \<not> is_first h \<and> \<not> is_last h"
  have IH: "hs = filter is_first hs @ filter ?mid hs @ filter is_last hs" using Cons by simp
  have fl: "\<not> (is_first x \<and> is_last x)" for x by (simp add: is_first_def is_last_def WEBS_HANDLER_FIRST_def WEBS_HANDLER_LAST_def)
  have le: "\<forall>y \<in> set hs. is_first h \<or> is_last y \<or> \<not> is_first y \<and> \<not> is_last h" using Cons.prems handler_cmp by auto
  consider "is_first h" | "?mid h" | "is_last h" by blast
  then show ?case
  proof cases
    case 1
    then show ?thesis using IH fl by auto
  next
    case 2
    then have "filter is_first hs = []" using le fl by (auto simp: filter_empty_conv)
    then show ?thesis using IH 2 by auto
  next
    case 3
    then have "\<forall>y \<in> set hs. is_last y" using le fl by auto
    then have "filter is_first hs = []" "filter ?mid hs = []" "filter is_last hs = hs" using fl by (auto simp: filter_empty_conv filter_id_conv)
    then show ?thesis using 3 fl by auto
  qed
qed simp

lemma sorted_longest:
  assumes "sorted_wrt (\<lambda>x y. websUrlHandlerSort x y \<le> 0) hs" "\<forall>h \<in> set hs. handler_ok h" "i < j" "j < length hs" "\<not> is_first (hs ! i)" "\<not> is_last (hs ! j)"
    "CHR 0x00 \<notin> set path" "take (plen (hs ! i)) path = urlPrefix (hs ! i)" "take (plen (hs ! j)) path = urlPrefix (hs ! j)"
  shows "plen (hs ! j) \<le> plen (hs ! i)"
proof (rule ccontr)
  let ?a = "hs ! i" and ?b = "hs ! j"
  assume n: "\<not> plen ?b \<le> plen ?a"
  have o: "handler_ok ?a" "handler_ok ?b" using assms(2-4) by auto
  have "websUrlHandlerSort ?a ?b \<le> 0" using sorted_wrt_nth_less[OF assms(1,3,4)] .
  then have ge: "c_strcmp (urlPrefix ?a) (urlPrefix ?b) \<ge> 0" using o assms(5,6) by (simp add: handler_cmp)
  have "take (length (urlPrefix ?a)) (urlPrefix ?b) = take (plen ?a) (take (plen ?b) path)" using o assms(9) by (simp add: handler_ok_def)
  also have "\<dots> = urlPrefix ?a" using n assms(8) by (simp add: min_absorb1)
  finally have "c_strcmp (urlPrefix ?a) (urlPrefix ?b) \<le> 0" using strcmp_prefix o(2) by (simp add: handler_ok_def)
  then have "urlPrefix ?a = urlPrefix ?b" using ge o strcmp_zero[of "urlPrefix ?a" "urlPrefix ?b"] by (simp add: handler_ok_def)
  then show False using n o by (simp add: handler_ok_def)
qed

lemma qsort_order:
  assumes "table_order defs hs" "\<forall>h \<in> set (defs @ [h]). handler_ok h"
  shows "table_order (defs @ [h]) (c_qsort websUrlHandlerSort (hs @ [h]))"
proof -
  have ms: "mset hs = mset defs" using assms(1) by (simp add: table_order_def)
  then have ok: "\<forall>x \<in> set (hs @ [h]). handler_ok x" using assms(2) mset_eq_setD[OF ms] by auto
  let ?r = "c_qsort websUrlHandlerSort (hs @ [h])"
  have okr: "\<forall>x \<in> set ?r. handler_ok x" using ok by simp
  note s = hsort.sorted_qsort[OF ok]
  have fl: "\<not> (is_first x \<and> is_last x)" for x by (simp add: is_first_def is_last_def WEBS_HANDLER_FIRST_def WEBS_HANDLER_LAST_def)
  have hf: "filter is_first hs = filter is_first defs" "filter is_last hs = filter is_last defs"
  proof -
    have e: "hs = filter is_first defs @ filter (\<lambda>h. \<not> is_first h \<and> \<not> is_last h) hs @ filter is_last defs" using assms(1) by (simp add: table_order_def)
    have "filter is_first hs = filter is_first defs @ [] @ []" by (subst e) (use fl in \<open>simp add: filter_empty_conv conj_commute\<close>)
    then show "filter is_first hs = filter is_first defs" by simp
    have "filter is_last hs = [] @ [] @ filter is_last defs" by (subst e) (use fl in \<open>auto simp: filter_empty_conv\<close>)
    then show "filter is_last hs = filter is_last defs" by simp
  qed
  have f: "filter is_first ?r = filter is_first (defs @ [h])" "filter is_last ?r = filter is_last (defs @ [h])"
  proof -
    have "websUrlHandlerSort x y \<le> 0" if "is_first x" for x y using that by (simp add: websUrlHandlerSort_def is_first_def WEBS_HANDLER_FIRST_def)
    then show "filter is_first ?r = filter is_first (defs @ [h])" using hsort.filter_qsort[of is_first, OF _ ok] hf by simp
    have "websUrlHandlerSort x y \<le> 0" if "is_last y" for x y using that by (simp add: websUrlHandlerSort_def is_last_def WEBS_HANDLER_LAST_def)
    then show "filter is_last ?r = filter is_last (defs @ [h])" using hsort.filter_qsort[of is_last, OF _ ok] hf by simp
  qed
  show ?thesis
    unfolding table_order_def
  proof (intro conjI)
    show "mset ?r = mset (defs @ [h])" using hsort.mset_qsort[of "hs @ [h]"] ms by simp
    show "?r = filter is_first (defs @ [h]) @ filter (\<lambda>h. \<not> is_first h \<and> \<not> is_last h) ?r @ filter is_last (defs @ [h])"
      using sorted_classes[OF s okr] unfolding f .
  qed (use sorted_longest[OF s okr] in blast)
qed

section \<open>Dispatch of a request\<close>

lemma condensed_spec: "CHR 0x00 \<notin> set s \<Longrightarrow> condensed (Some s) = Some (Some (condense CHR ''/'' s))"
proof -
  assume z: "CHR 0x00 \<notin> set s"
  obtain q where "condense_loop (s @ [CHR 0x00]) CHR ''/'' 0 0 = Some (condense CHR ''/'' s @ CHR 0x00 # q)"
    using condense_loop_spec[of "[]" s "CHR ''/''" "[]" "[]"] z by auto
  moreover have "set (condense CHR ''/'' s) \<subseteq> set s" by (induction "CHR ''/''" s rule: condense.induct) auto
  ultimately show ?thesis using z c_str_NUL[of "condense CHR ''/'' s" q] by (auto simp: condensed_def websCondenseMultipleChars_def)
qed

lemma secs_set_syms [simp]: "secs (set_syms st s) = (secs st)\<lparr>sess := (sess (secs st))\<lparr>symtab := s\<rparr>\<rparr>"
  "websUrlHandler (set_syms st s) = websUrlHandler st" "websUrlHandlerMax (set_syms st s) = websUrlHandlerMax st"
  "syms (set_syms st s) = s" "globals (set_syms st s) = globals st" "set_syms st (syms st) = st"
  by (simp_all add: set_syms_def syms_def)

text \<open>Access control does not see changes to other symbol tables.\<close>

lemma sec_frame:
  assumes "sec_ready sc st" "same_but sd (symtab (sess st)) s" "sd \<noteq> g_sessionsTable (sess st)" "sym_inv sc s"
  shows "sec_ready sc (st\<lparr>sess := (sess st)\<lparr>symtab := s\<rparr>\<rparr>)"
    and "client_in sc (st\<lparr>sess := (sess st)\<lparr>symtab := s\<rparr>\<rparr>) wp = client_in sc st wp"
    and "own_referer (st\<lparr>sess := (sess st)\<lparr>symtab := s\<rparr>\<rparr>) wp = own_referer st wp"
proof -
  have t: "sym_tab s (g_sessionsTable (sess st)) = sym_tab (symtab (sess st)) (g_sessionsTable (sess st))"
    using assms(2,3) by (simp add: same_but_def)
  then show "sec_ready sc (st\<lparr>sess := (sess st)\<lparr>symtab := s\<rparr>\<rparr>)"
    using assms(1,4) by (simp add: sec_ready_def sess_inv_def sess_tab_def)
  have "sym_tab (symtab (sess st)) (g_sessionsTable (sess st)) \<noteq> None" using assms(1) by (auto simp: sec_ready_def sess_inv_def sess_tab_def)
  then have "symLookup sc s (g_sessionsTable (sess st)) k = symLookup sc (symtab (sess st)) (g_sessionsTable (sess st)) k" for k
    using symLookup_same_tab[of s "g_sessionsTable (sess st)" "symtab (sess st)" sc k] t by simp
  then have "sess_of sc ((sess st)\<lparr>symtab := s\<rparr>) = sess_of sc (sess st)" by (simp add: sess_of_def sess_lookup_def fun_eq_iff)
  then show "client_in sc (st\<lparr>sess := (sess st)\<lparr>symtab := s\<rparr>\<rparr>) wp = client_in sc st wp" by (simp add: client_in_def)
  show "own_referer (st\<lparr>sess := (sess st)\<lparr>symtab := s\<rparr>\<rparr>) wp = own_referer st wp" by (simp add: own_referer_def)
qed

text \<open>The entry of the access control handler.\<close>

definition security_entry :: "websUrlHandlerType \<Rightarrow> bool" where
  "security_entry h \<longleftrightarrow> handler h = Some websSecurityHandler_fn \<and> urlPrefix h = [] \<and> plen h = 0"

text \<open>A server whose table starts with access control, and a request it can take up.\<close>

definition server_ready :: "bool \<Rightarrow> server \<Rightarrow> bool" where
  "server_ready sc st \<longleftrightarrow> sec_ready sc (secs st) \<and> (\<exists>h hs. websUrlHandler st = HBlock (h # hs) \<and> security_entry h \<and> websUrlHandlerMax st = int (length hs) + 1) \<and>
     0 \<le> gPort (globals st) \<and> gPort (globals st) < 65536 \<and> CHR 0x00 \<notin> set (gHost (globals st)) \<and> CHR 0x00 \<notin> set (gHostUrl (globals st))"

definition request_ready :: "bool \<Rightarrow> server \<Rightarrow> webs \<Rightarrow> bool" where
  "request_ready sc st wp \<longleftrightarrow> req_ok wp \<and> req_strings wp \<and> (\<exists>e. vars_are sc (cgiVars wp) (syms st) e) \<and> cgiVars wp \<noteq> g_sessionsTable (sess (secs st)) \<and>
     wflags wp AND WEBS_MULTIPART_FORM = 0 \<and> (\<forall>b. postData wp = Some b \<longrightarrow> lenPostData wp = int (length b))"

definition page_allowed :: "bool \<Rightarrow> server \<Rightarrow> webs \<Rightarrow> cstring \<Rightarrow> cstring \<Rightarrow> bool" where
  "page_allowed sc st wp u p \<longleftrightarrow> (free_prefix u \<or> client_in sc (secs st) wp) \<and> (form_path p \<longrightarrow> own_referer (secs st) wp)"

lemma request_start:
  assumes "url wp = Some u" "wpath wp = Some p" "CHR 0x00 \<notin> set u" "CHR 0x00 \<notin> set p"
  defines "p' \<equiv> condense CHR ''/'' p" and "u' \<equiv> condense CHR ''/'' u"
  shows "\<exists>wd. \<forall>run. websUrlHandlerRequest m sc True True bs run st wp =
     (if take 1 p' \<noteq> ''/'' \<or> CHR 0x5C \<in> set p' then Some (st\<lparr>handlerHits := handlerHits st + 1\<rparr>, None, [WebsError 400 ''Bad request''], 0)
      else handler_loop m sc True True bs run (st\<lparr>handlerHits := handlerHits st + 1\<rparr>)
             (wp\<lparr>wstate := WEBS_PROCESSING, wdir := wd, wpath := Some p', url := Some u'\<rparr>) 0 True [])"
proof -
  define w where "w = wp\<lparr>wstate := WEBS_PROCESSING\<rparr>"
  define wd where "wd = (case websDefaultDir st of None \<Rightarrow> wdir wp | Some d \<Rightarrow> Some d)"
  have "websSetRequestPath sc True True s w (websDefaultDir st) None = Some (s, w\<lparr>wdir := wd\<rparr>)" for s
    by (cases "websDefaultDir st") (simp_all add: websSetRequestPath_def bstrdup_def w_def wd_def)
  moreover have "set_syms (st\<lparr>handlerHits := n\<rparr>) (syms (st\<lparr>handlerHits := n\<rparr>)) = st\<lparr>handlerHits := n\<rparr>" for n by simp
  ultimately show ?thesis
    using assms condensed_spec[OF assms(3)] condensed_spec[OF assms(4)]
    by (intro exI[of _ wd]) (simp add: websUrlHandlerRequest_def w_def[symmetric] Let_def del: secs_set_syms, simp add: w_def)
qed

lemma set_env_ready:
  assumes s: "server_ready sc st" and r: "request_ready sc st wp" and m: "\<forall>n. m n \<noteq> None"
  shows "\<exists>st1 q. set_env m sc True True bs st wp = Some (st1, wp\<lparr>wquery := q, decodedQuery := Some (full_query wp)\<rparr>) \<and>
     websUrlHandler st1 = websUrlHandler st \<and> websUrlHandlerMax st1 = websUrlHandlerMax st \<and> sec_ready sc (secs st1) \<and>
     client_in sc (secs st1) wp = client_in sc (secs st) wp \<and> own_referer (secs st1) wp = own_referer (secs st) wp"
proof -
  obtain e where e: "vars_are sc (cgiVars wp) (syms st) e" using r by (auto simp: request_ready_def)
  obtain s' wp' where w: "websSetEnv m sc True True bs (globals st) (syms st) wp = Some (s', wp')"
     "wp' = wp\<lparr>wquery := wquery wp', decodedQuery := Some (full_query wp)\<rparr>"
     "vars_are sc (cgiVars wp) s' (assign_query (full_query wp) (e ++ cgi_map (globals st) wp))"
    using websSetEnv_spec[OF m e, of "globals st" bs] s r by (auto simp: server_ready_def request_ready_def)
  have f: "same_but (cgiVars wp) (symtab (sess (secs st))) s'"
    using websSetEnv_frame[OF w(1)] r by (simp add: request_ready_def syms_def)
  have i: "sym_inv sc s'" using w(3) by (simp add: vars_are_def sym_at_def)
  have g: "cgiVars wp \<noteq> g_sessionsTable (sess (secs st))" using r by (simp add: request_ready_def)
  have "sec_ready sc (secs st)" using s by (simp add: server_ready_def)
  note fr = sec_frame[OF this f g i]
  have "set_env m sc True True bs st wp = Some (set_syms st s', wp\<lparr>wquery := wquery wp', decodedQuery := Some (full_query wp)\<rparr>)"
    using w(1,2) by (simp add: set_env_def)
  then show ?thesis using fr by (intro exI[of _ "set_syms st s'"] exI[of _ "wquery wp'"]) simp
qed

lemma request_same [simp]:
  "client_in sc s (w\<lparr>wquery := q, decodedQuery := d\<rparr>) = client_in sc s w" "own_referer s (w\<lparr>wquery := q, decodedQuery := d\<rparr>) = own_referer s w"
  "client_in sc s (w\<lparr>wstate := a, wdir := b, wpath := c, url := f\<rparr>) = client_in sc s w"
  "own_referer s (w\<lparr>wstate := a, wdir := b, wpath := c, url := f\<rparr>) = own_referer s w"
  "req_ok (w\<lparr>wquery := q, decodedQuery := d\<rparr>) = req_ok w" "req_ok (w\<lparr>wstate := a, wdir := b, wpath := c, url := f\<rparr>) = req_ok w"
  by (simp_all add: client_in_def own_referer_def req_ok_def SM_getSessionKey_def SM_getBrowserType_def)

lemma condense_clean: "CHR 0x00 \<notin> set s \<Longrightarrow> CHR 0x00 \<notin> set (condense c s)"
proof -
  have "set (condense c s) \<subseteq> set s" by (induction c s rule: condense.induct) auto
  then show "CHR 0x00 \<notin> set s \<Longrightarrow> CHR 0x00 \<notin> set (condense c s)" by blast
qed

lemma websUrlHandlerRequest_guarded_spec:
  assumes "server_ready sc st" and "request_ready sc st wp" and "\<forall>n. m n \<noteq> None"
    and "url wp = Some u" and "wpath wp = Some p" and "CHR 0x00 \<notin> set u"
    and "take 11 (condense CHR ''/'' p) \<noteq> ''/jrd/webapi''"
  shows "\<exists>st1 wp1 rs. (page_allowed sc st wp (condense CHR ''/'' u) (condense CHR ''/'' p) \<or> rs \<noteq> [] \<or> b_default_unredirect wp) \<and>
     (\<forall>other. websUrlHandlerRequest m sc True True bs (run_handler js sc True True other) st wp =
     (if take 1 (condense CHR ''/'' p) \<noteq> ''/'' \<or> CHR 0x5C \<in> set (condense CHR ''/'' p)
      then Some (st\<lparr>handlerHits := handlerHits st + 1\<rparr>, None, [WebsError 400 ''Bad request''], 0)
      else if page_allowed sc st wp (condense CHR ''/'' u) (condense CHR ''/'' p)
      then handler_loop m sc True True bs (run_handler js sc True True other) st1 wp1 1 False []
      else Some (st1, Some wp1, map SecReply rs, 1)))"
proof -
  define p' where "p' = condense CHR ''/'' p"
  define u' where "u' = condense CHR ''/'' u"
  have zp: "CHR 0x00 \<notin> set p" using assms(2,5) by (simp add: request_ready_def req_strings_def opt_str_def)
  define st0 where "st0 = st\<lparr>handlerHits := handlerHits st + 1\<rparr>"
  obtain wd where start: "\<And>run. websUrlHandlerRequest m sc True True bs run st wp =
     (if take 1 p' \<noteq> ''/'' \<or> CHR 0x5C \<in> set p' then Some (st0, None, [WebsError 400 ''Bad request''], 0)
      else handler_loop m sc True True bs run st0 (wp\<lparr>wstate := WEBS_PROCESSING, wdir := wd, wpath := Some p', url := Some u'\<rparr>) 0 True [])"
    using request_start[OF assms(4,5,6) zp, of m sc bs st] unfolding p'_def u'_def st0_def by blast
  define w where "w = wp\<lparr>wstate := WEBS_PROCESSING, wdir := wd, wpath := Some p', url := Some u'\<rparr>"
  have s0: "server_ready sc st0" "secs st0 = secs st" using assms(1) by (simp_all add: server_ready_def st0_def)
  have rw: "request_ready sc st0 w"
    using assms(2) condense_clean[OF zp, of "CHR ''/''"]
    by (simp add: request_ready_def w_def s0(2) syms_def) (simp add: req_strings_def opt_str_def p'_def)
  obtain st1 q where e: "set_env m sc True True bs st0 w = Some (st1, w\<lparr>wquery := q, decodedQuery := Some (full_query w)\<rparr>)"
     "websUrlHandler st1 = websUrlHandler st0" "websUrlHandlerMax st1 = websUrlHandlerMax st0" "sec_ready sc (secs st1)"
     "client_in sc (secs st1) w = client_in sc (secs st0) w" "own_referer (secs st1) w = own_referer (secs st0) w"
    using set_env_ready[OF s0(1) rw assms(3), of bs] by blast
  define w1 where "w1 = w\<lparr>wquery := q, decodedQuery := Some (full_query w)\<rparr>"
  have w1: "req_ok w1" "url w1 = Some u'" "wpath w1 = Some p'" using rw by (simp_all add: w1_def request_ready_def) (simp_all add: w_def)
  have same: "client_in sc (secs st1) w1 = client_in sc (secs st) wp" "own_referer (secs st1) w1 = own_referer (secs st) wp"
    using e(5,6) s0(2) by (simp_all add: w1_def) (simp_all add: w_def)
  obtain s2 w2 rs rc where sec: "websSecurityHandler js sc (secs st1) w1 u' p' = Some (s2, w2, rs, rc)"
     "rc = (if (free_prefix u' \<or> client_in sc (secs st) wp) \<and> (form_path p' \<longrightarrow> own_referer (secs st) wp) then 0 else 1)"
     "rc = 0 \<longrightarrow> rs = []" "rc = 1 \<longrightarrow> rs \<noteq> [] \<or> b_default_unredirect w1"
    using websSecurityHandler_pages_spec[OF e(4) w1(1), of p' js u'] assms(7) unfolding same p'_def by auto
  obtain h hs where h: "websUrlHandler st0 = HBlock (h # hs)" "security_entry h" "websUrlHandlerMax st0 = int (length hs) + 1"
    using s0(1) by (auto simp: server_ready_def)
  define st2 where "st2 = st1\<lparr>secs := s2\<rparr>"
  have run: "run_handler js sc True True other websSecurityHandler_fn st1 w1 [] dir ar = Some (st2, Some w2, map SecReply rs, rc)" for other dir ar
    using sec(1) w1(2,3) by (simp add: run_handler_def st2_def)
  have "handler_loop m sc True True bs (run_handler js sc True True other) st0 w 0 True [] =
      (if rc \<noteq> 0 then Some (st2, Some w2, map SecReply rs, 1)
       else handler_loop m sc True True bs (run_handler js sc True True other) st2 w2 1 False [])" for other
    using h e(1)[folded w1_def] run sec(3) w1(3)
    by (subst handler_loop.simps) (simp add: handler_at_def mem_read_def security_entry_def serves_def c_strncmp0_def w_def)
  moreover have "page_allowed sc st wp u' p' \<or> rs \<noteq> [] \<or> b_default_unredirect wp" using sec(2,4) by (auto simp: page_allowed_def w1_def w_def split: if_splits)
  ultimately show ?thesis
    unfolding start using sec(2)
    by (intro exI[of _ st2] exI[of _ w2] exI[of _ rs]) (simp add: page_allowed_def w_def p'_def u'_def st0_def)
qed


definition new_entry :: "cstring \<Rightarrow> cstring option \<Rightarrow> int \<Rightarrow> url_handler \<Rightarrow> int \<Rightarrow> websUrlHandlerType" where
  "new_entry prefix dir ar fn fl =
     \<lparr>handler = Some fn, webDir = opt_str dir, urlPrefix = prefix, plen = length prefix, harg = ar, hflags = fl\<rparr>"

lemma websUrlHandlerDefine_spec:
  assumes "websUrlHandler st = HBlock hs \<or> websUrlHandler st = HNull \<and> hs = []" and "websUrlHandlerMax st = int (length hs)"
    and "table_order defs hs" and "\<forall>h \<in> set defs. handler_ok h"
    and "fl \<in> {0, WEBS_HANDLER_FIRST, WEBS_HANDLER_LAST}" and "CHR 0x00 \<notin> set prefix" and "\<forall>n. m n \<noteq> None"
  shows "\<exists>hs'. websUrlHandlerDefine m True st prefix dir ar fn fl =
       Some (st\<lparr>websUrlHandler := HBlock hs', websUrlHandlerMax := int (length hs')\<rparr>, 0) \<and> table_order (defs @ [new_entry prefix dir ar fn fl]) hs' \<and> handler_ok (new_entry prefix dir ar fn fl)"
proof -
  define sp where "sp = new_entry prefix dir ar fn fl"
  let ?hs = "c_qsort websUrlHandlerSort (hs @ [sp])"
  have ok: "handler_ok sp" using assms(5,6) by (simp add: sp_def new_entry_def handler_ok_def)
  obtain bk where "balloc m ((int (length hs) + 1) * sizeof_handler) = Some bk"
    using assms(7)[rule_format, of "(int (length hs) + 1) * sizeof_handler"] by (cases "balloc m ((int (length hs) + 1) * sizeof_handler)") auto
  then have "websUrlHandlerDefine m True st prefix dir ar fn fl = Some (st\<lparr>websUrlHandler := HBlock ?hs, websUrlHandlerMax := int (length hs) + 1\<rparr>, 0)"
    using assms(1,2) by (auto simp: websUrlHandlerDefine_def bstrdup_def sp_def new_entry_def opt_str_def)
  moreover have "length ?hs = length hs + 1" using arg_cong[OF hsort.mset_qsort[of "hs @ [sp]"], of size] by simp
  moreover have "table_order (defs @ [sp]) ?hs" by (rule qsort_order[OF assms(3)]) (use assms(4) ok in auto)
  ultimately show ?thesis using ok by (intro exI[of _ ?hs]) (simp add: add.commute flip: sp_def)
qed

lemma define_all_spec:
  assumes "\<forall>n. m n \<noteq> None"
  shows "websUrlHandler st = HBlock hs \<or> websUrlHandler st = HNull \<and> hs = [] \<Longrightarrow> websUrlHandlerMax st = int (length hs) \<Longrightarrow>
     table_order defs hs \<Longrightarrow> \<forall>h \<in> set defs. handler_ok h \<Longrightarrow>
     \<forall>(p, fn, fl) \<in> set ds. fl \<in> {0, WEBS_HANDLER_FIRST, WEBS_HANDLER_LAST} \<and> CHR 0x00 \<notin> set p \<Longrightarrow> ds \<noteq> [] \<Longrightarrow>
     \<exists>hs'. define_all m True st ds = Some (st\<lparr>websUrlHandler := HBlock hs', websUrlHandlerMax := int (length hs')\<rparr>) \<and>
       table_order (defs @ map (\<lambda>(p, fn, fl). new_entry p None 0 fn fl) ds) hs'"
proof (induction ds arbitrary: st hs defs)
  case (Cons d ds)
  obtain p fn fl where d: "d = (p, fn, fl)" by (cases d)
  obtain hs1 where h: "websUrlHandlerDefine m True st p None 0 fn fl = Some (st\<lparr>websUrlHandler := HBlock hs1, websUrlHandlerMax := int (length hs1)\<rparr>, 0)"
     "table_order (defs @ [new_entry p None 0 fn fl]) hs1" "handler_ok (new_entry p None 0 fn fl)"
    using websUrlHandlerDefine_spec[OF Cons.prems(1-4) _ _ assms, of fl p None 0 fn] Cons.prems(5) d by auto
  show ?case
  proof (cases "ds = []")
    case True
    then show ?thesis using h d by (intro exI[of _ hs1]) simp
  next
    case False
    show ?thesis
      using Cons.IH[of "st\<lparr>websUrlHandler := HBlock hs1, websUrlHandlerMax := int (length hs1)\<rparr>" hs1 "defs @ [new_entry p None 0 fn fl]"]
        h Cons.prems(4,5) False d by auto
  qed
qed simp

text \<open>The table of the product starts with access control and ends with the default handler.\<close>

lemma initWebs_table:
  assumes "\<forall>n. m n \<noteq> None" and "websUrlHandler st = HNull" and "websUrlHandlerMax st = 0"
  shows "\<exists>h hs. define_all m True st initWebs_handlers = Some (st\<lparr>websUrlHandler := HBlock (h # hs), websUrlHandlerMax := int (length hs) + 1\<rparr>) \<and>
     security_entry h \<and> hs \<noteq> [] \<and> last hs = new_entry [] None 0 websDefaultHandler_fn WEBS_HANDLER_LAST"
proof -
  let ?ds = "map (\<lambda>(p, fn, fl). new_entry p None 0 fn fl) initWebs_handlers"
  obtain hs where h: "define_all m True st initWebs_handlers = Some (st\<lparr>websUrlHandler := HBlock hs, websUrlHandlerMax := int (length hs)\<rparr>)" "table_order ?ds hs"
    using define_all_spec[OF assms(1), of st "[]" "[]" initWebs_handlers] assms(2,3)
    by (auto simp: table_order_def) (auto simp: initWebs_handlers_def)
  have "filter is_first ?ds = [new_entry [] None 0 websSecurityHandler_fn WEBS_HANDLER_FIRST, new_entry [] None 0 websFormHandler_fn WEBS_HANDLER_FIRST]"
    "filter is_last ?ds = [new_entry [] None 0 websDefaultHandler_fn WEBS_HANDLER_LAST]"
    by (simp_all add: initWebs_handlers_def is_first_def is_last_def new_entry_def WEBS_HANDLER_FIRST_def WEBS_HANDLER_LAST_def)
  then obtain mid where "hs = new_entry [] None 0 websSecurityHandler_fn WEBS_HANDLER_FIRST # new_entry [] None 0 websFormHandler_fn WEBS_HANDLER_FIRST # mid @
      [new_entry [] None 0 websDefaultHandler_fn WEBS_HANDLER_LAST]"
    using h(2) unfolding table_order_def by auto
  then show ?thesis using h(1)
    by (intro exI[of _ "hd hs"] exI[of _ "tl hs"]) (simp, simp add: security_entry_def new_entry_def)
qed


text \<open>A server with the handlers of the product, over given sessions.\<close>

definition demo_site :: "sess_state \<Rightarrow> server" where
  "demo_site s = \<lparr>secs = demo_server s, websUrlHandler = HNull, websUrlHandlerMax = 0, urlHandlerOpenCount = 1, aspOpenCount = 1, websAspFunctions = -1,
     websDefaultDir = None, handlerHits = 0, globals = demo_globals\<rparr>"


lemma demo_site_ready:
  assumes i: "sess_inv True s" and g: "sess_of True s = Map.empty"
  shows "\<exists>st sd. server_ready True st \<and> vars_are True sd (syms st) Map.empty \<and> sd \<noteq> g_sessionsTable (sess (secs st)) \<and>
     (\<forall>wp. \<not> client_in True (secs st) wp) \<and> same_but sd (symtab s) (syms st) \<and> sym_tab (symtab s) sd = None"
proof -
  let ?m = "\<lambda>_. Some (\<lambda>_. CHR 0x00)"
  have inv: "sym_inv True (symtab s)" using i by (simp add: sess_inv_def)
  obtain t sd where t: "symOpen ?m True True (symtab s) 64 = Some (t, sd)" "vars_are True sd t Map.empty"
    using empty_vars[OF inv, of ?m 64] by (auto simp: refuses_def)
  obtain tp where f: "sym_tab t = (sym_tab (symtab s))(sd \<mapsto> tp)" "sym_tab (symtab s) sd = None" "sym_inv True t"
    using symOpen_spec[OF inv, of 64 ?m] t(1) by (auto simp: refuses_def)
  have sd: "sd \<noteq> g_sessionsTable s" using f(2) i by (auto simp: sess_inv_def sess_tab_def)
  have sb: "same_but sd (symtab (sess (demo_server s))) t" using f(1) by (simp add: same_but_def)
  note fr = sec_frame[OF demo_server_ready[OF i] sb _ f(3)]
  obtain h hs where h: "define_all ?m True (set_syms (demo_site s) t) initWebs_handlers =
      Some ((set_syms (demo_site s) t)\<lparr>websUrlHandler := HBlock (h # hs), websUrlHandlerMax := int (length hs) + 1\<rparr>)" "security_entry h"
    using initWebs_table[of ?m "set_syms (demo_site s) t"] by (auto simp: demo_site_def)
  have nc: "\<not> client_in True (demo_server s) wp" for wp using g by (simp add: client_in_def login_id_def sess_consts)
  let ?st = "(set_syms (demo_site s) t)\<lparr>websUrlHandler := HBlock (h # hs), websUrlHandlerMax := int (length hs) + 1\<rparr>"
  have "secs (demo_site s) = demo_server s" "globals (demo_site s) = demo_globals" by (simp_all add: demo_site_def)
  then have "server_ready True ?st" "vars_are True sd (syms ?st) Map.empty" "sd \<noteq> g_sessionsTable (sess (secs ?st))" "\<forall>wp. \<not> client_in True (secs ?st) wp" "same_but sd (symtab s) (syms ?st)"
    using h(2) fr sd t(2) nc sb by (simp_all add: server_ready_def syms_def demo_globals_def)
  then show ?thesis using f(2) by blast
qed


end
