(* ===== verification/Sock.thy ===== *)
theory Sock
  imports Ringq Handles Fmt
begin

unbundle bit_operations_syntax

text \<open>
  Buffered sockets, \<^verbatim>\<open>sock.c\<close> and the parts of \<^verbatim>\<open>sockGen.c\<close> it calls: the table of open sockets, reading
  blocks and lines, writing and flushing.

  The operating system's side of a connection is part of the state: what arrives, in the pieces and
  with the errors in which \<^verbatim>\<open>recv\<close> will deliver it, how much each \<^verbatim>\<open>send\<close> will take, and what has been
  sent. A blocking call for which nothing is scripted never returns and is \<open>None\<close>. The theorems hold
  for every script.
\<close>

section \<open>The operating system\<close>

datatype net_event = Data "byte list" | NetErr int | NetEof
datatype send_event = Takes nat | SendErr int

record conn =
  rx :: "net_event list"
  tx :: "send_event list"
  sent :: "byte list"
  dgrams :: "(cstring \<times> int \<times> byte list) list"
  nonblock :: bool
  fin :: bool
  closed :: bool

definition EWOULDBLOCK :: int where "EWOULDBLOCK = 11"
definition EINTR :: int where "EINTR = 4"
definition ECONNRESET :: int where "ECONNRESET = 104"

text \<open>\<^verbatim>\<open>recv\<close> and \<^verbatim>\<open>recvfrom\<close>: what is left of the connection, the bytes, the result and \<^verbatim>\<open>errno\<close>.\<close>

definition c_recv :: "bool \<Rightarrow> conn \<Rightarrow> int \<Rightarrow> (conn \<times> byte list \<times> int \<times> int) option" where
  "c_recv dgram k n =
     (case rx k of
        [] \<Rightarrow> if nonblock k then Some (k, [], -1, EWOULDBLOCK) else None
      | NetErr e # es \<Rightarrow> Some (k\<lparr>rx := es\<rparr>, [], -1, e)
      | NetEof # es \<Rightarrow> Some (k, [], 0, 0)
      | Data d # es \<Rightarrow>
          if int (length d) \<le> n \<or> dgram then let d' = take (nat n) d in Some (k\<lparr>rx := es\<rparr>, d', int (length d'), 0)
          else Some (k\<lparr>rx := Data (drop (nat n) d) # es\<rparr>, take (nat n) d, int (length (take (nat n) d)), 0))"

text \<open>\<^verbatim>\<open>send\<close> and \<^verbatim>\<open>sendto\<close>.\<close>

definition c_send :: "conn \<Rightarrow> (cstring \<times> int) option \<Rightarrow> byte list \<Rightarrow> (conn \<times> int \<times> int) option" where
  "c_send k to d =
     (case tx k of
        [] \<Rightarrow> if nonblock k then Some (k, -1, EWOULDBLOCK) else None
      | SendErr e # es \<Rightarrow> Some (k\<lparr>tx := es\<rparr>, -1, e)
      | Takes n # es \<Rightarrow>
          (case to of
             None \<Rightarrow> Some (k\<lparr>tx := es, sent := sent k @ take n d\<rparr>, int (length (take n d)), 0)
           | Some (h, p) \<Rightarrow> Some (k\<lparr>tx := es, dgrams := dgrams k @ [(h, p, d)]\<rparr>, int (length d), 0)))"

section \<open>State\<close>

definition SOCKET_EOF :: int where "SOCKET_EOF = 1"
definition SOCKET_BROADCAST :: int where "SOCKET_BROADCAST = 4"
definition SOCKET_FLUSHING :: int where "SOCKET_FLUSHING = 0x10"
definition SOCKET_DATAGRAM :: int where "SOCKET_DATAGRAM = 0x20"
definition SOCKET_BLOCK :: int where "SOCKET_BLOCK = 0x80"
definition SOCKET_LISTENING :: int where "SOCKET_LISTENING = 0x100"
definition SOCKET_CONNRESET :: int where "SOCKET_CONNRESET = 0x400"
definition SOCKET_MYOWNBUFFERS :: int where "SOCKET_MYOWNBUFFERS = 0x800"
definition SOCKET_READABLE :: int where "SOCKET_READABLE = 2"
definition SOCKET_WRITABLE :: int where "SOCKET_WRITABLE = 4"
definition SOCKET_BUFSIZ :: int where "SOCKET_BUFSIZ = 1024"
definition E_MAX_REQUEST :: int where "E_MAX_REQUEST = 2048"

text \<open>Callbacks are addresses, zero the null pointer.\<close>

record socket_t =
  shost :: "byte list"
  inBuf :: ringq
  outBuf :: ringq
  lineBuf :: ringq
  saccept :: int
  shandler :: int
  handler_data :: int
  handlerMask :: int
  ssid :: int
  sport :: int
  sflags :: int
  sock :: int
  fileHandle :: int
  currentEvents :: int
  saveMask :: int

record sock_state =
  socketList :: "socket_t hmap option"
  socketMax :: int
  socketHighestFd :: int
  socketOpenCount :: int
  net :: "int \<Rightarrow> conn"

definition set_net :: "sock_state \<Rightarrow> int \<Rightarrow> conn \<Rightarrow> sock_state" where
  "set_net st fd k = st\<lparr>net := (net st)(fd := k)\<rparr>"

text \<open>Writing through the pointer to a socket.\<close>

definition put_socket :: "sock_state \<Rightarrow> int \<Rightarrow> socket_t \<Rightarrow> sock_state" where
  "put_socket st sid sp = st\<lparr>socketList := h_store (socketList st) sid sp\<rparr>"

definition has_flag :: "socket_t \<Rightarrow> int \<Rightarrow> bool" where
  "has_flag sp f \<longleftrightarrow> sflags sp AND f \<noteq> 0"

definition socketPtr :: "sock_state \<Rightarrow> int \<Rightarrow> socket_t option option" where
  "socketPtr st sid = (if sid < 0 \<or> sid \<ge> socketMax st then Some None else h_entry (socketList st) sid)"

section \<open>Small operations\<close>

definition socketRegisterInterest :: "socket_t \<Rightarrow> int \<Rightarrow> socket_t" where
  "socketRegisterInterest sp mk = sp\<lparr>handlerMask := mk\<rparr>"

text \<open>An operation on the socket of a handle, with its result when there is none.\<close>

definition on_socket :: "sock_state \<Rightarrow> int \<Rightarrow> 'a \<Rightarrow> (socket_t \<Rightarrow> socket_t \<times> 'a) \<Rightarrow> (sock_state \<times> 'a) option" where
  "on_socket st sid none f = do {
     s \<leftarrow> socketPtr st sid;
     (case s of None \<Rightarrow> Some (st, none) | Some sp \<Rightarrow> Some (put_socket st sid (fst (f sp)), snd (f sp))) }"

definition socketCreateHandler :: "sock_state \<Rightarrow> int \<Rightarrow> int \<Rightarrow> int \<Rightarrow> int \<Rightarrow> sock_state option" where
  "socketCreateHandler st sid mk fn dt =
     map_option fst (on_socket st sid () (\<lambda>sp. (socketRegisterInterest (sp\<lparr>shandler := fn, handler_data := dt\<rparr>) mk, ())))"

definition socketDeleteHandler :: "sock_state \<Rightarrow> int \<Rightarrow> sock_state option" where
  "socketDeleteHandler st sid = map_option fst (on_socket st sid () (\<lambda>sp. (socketRegisterInterest (sp\<lparr>shandler := 0\<rparr>) 0, ())))"

definition socketEof :: "sock_state \<Rightarrow> int \<Rightarrow> int option" where
  "socketEof st sid = map_option snd (on_socket st sid (-1) (\<lambda>sp. (sp, sflags sp AND SOCKET_EOF)))"

definition socketInputBuffered :: "sock_state \<Rightarrow> int \<Rightarrow> int option" where
  "socketInputBuffered st sid = do {
     s \<leftarrow> socketPtr st sid;
     (case s of None \<Rightarrow> Some (-1)
      | Some sp \<Rightarrow> do { e \<leftarrow> socketEof st sid; Some (if e \<noteq> 0 then -1 else ringqLen (inBuf sp)) }) }"

definition socketCanWrite :: "sock_state \<Rightarrow> int \<Rightarrow> int option" where
  "socketCanWrite st sid = map_option snd (on_socket st sid (-1) (\<lambda>sp. (sp, buflen (outBuf sp) - ringqLen (outBuf sp) - 1)))"

definition socketGetHandle :: "sock_state \<Rightarrow> int \<Rightarrow> int option" where
  "socketGetHandle st sid = map_option snd (on_socket st sid (-1) (\<lambda>sp. (sp, sock sp)))"

definition socketGetBlock :: "sock_state \<Rightarrow> int \<Rightarrow> int option" where
  "socketGetBlock st sid = map_option snd (on_socket st sid 0 (\<lambda>sp. (sp, sflags sp AND SOCKET_BLOCK)))"

definition socketGetMode :: "sock_state \<Rightarrow> int \<Rightarrow> int option" where
  "socketGetMode st sid = map_option snd (on_socket st sid 0 (\<lambda>sp. (sp, sflags sp)))"

definition socketSetMode :: "sock_state \<Rightarrow> int \<Rightarrow> int \<Rightarrow> sock_state option" where
  "socketSetMode st sid mode = map_option fst (on_socket st sid () (\<lambda>sp. (sp\<lparr>sflags := mode\<rparr>, ())))"

definition socketGetPort :: "sock_state \<Rightarrow> int \<Rightarrow> int option" where
  "socketGetPort st sid = map_option snd (on_socket st sid (-1) (\<lambda>sp. (sp, sport sp)))"

text \<open>A queue replaced by one of another size, when the size is not negative.\<close>

definition resize_queue :: "balloc_env \<Rightarrow> ringq \<Rightarrow> int \<Rightarrow> ringq option" where
  "resize_queue m rq n = (if n \<ge> 0 then do { q \<leftarrow> ringqClose rq; (q1, _) \<leftarrow> ringqOpen m q (n + 1) (n + 1); Some q1 } else Some rq)"

definition socketSetBufferSize :: "balloc_env \<Rightarrow> sock_state \<Rightarrow> int \<Rightarrow> int \<Rightarrow> int \<Rightarrow> int \<Rightarrow> sock_state option" where
  "socketSetBufferSize m st sid inn line out = do {
     s \<leftarrow> socketPtr st sid;
     (case s of None \<Rightarrow> Some st
      | Some sp \<Rightarrow> do {
          i \<leftarrow> resize_queue m (inBuf sp) inn;
          l \<leftarrow> resize_queue m (lineBuf sp) line;
          u \<leftarrow> resize_queue m (outBuf sp) out;
          Some (put_socket st sid (sp\<lparr>inBuf := i, lineBuf := l, outBuf := u\<rparr>)) }) }"

definition socketSetBlock :: "sock_state \<Rightarrow> int \<Rightarrow> bool \<Rightarrow> (sock_state \<times> int) option" where
  "socketSetBlock st sid on = do {
     s \<leftarrow> socketPtr st sid;
     (case s of None \<Rightarrow> Some (st, 0)
      | Some sp \<Rightarrow>
          let f = sflags sp AND NOT SOCKET_BLOCK;
              sp1 = sp\<lparr>sflags := (if on then f OR SOCKET_BLOCK else f)\<rparr>;
              k = net st (sock sp)
          in Some (set_net (put_socket st sid sp1) (sock sp) (k\<lparr>nonblock := \<not> on\<rparr>), sflags sp AND SOCKET_BLOCK)) }"

section \<open>Opening and closing\<close>

definition zero_ringq :: ringq where
  "zero_ringq = \<lparr>buf = [], servp = 0, endp = 0, endbuf = 0, buflen = 0, maxsize = 0, increment = 0\<rparr>"

definition sizeof_socket :: int where "sizeof_socket = 204"

definition zero_socket :: socket_t where
  "zero_socket = \<lparr>shost = replicate 64 CHR 0x00, inBuf = zero_ringq, outBuf = zero_ringq, lineBuf = zero_ringq, saccept = 0, shandler = 0,
     handler_data = 0, handlerMask = 0, ssid = 0, sport = 0, sflags = 0, sock = 0, fileHandle = 0, currentEvents = 0, saveMask = 0\<rparr>"

definition socketAlloc ::
    "balloc_env \<Rightarrow> balloc_env \<Rightarrow> sock_state \<Rightarrow> cstring option \<Rightarrow> int \<Rightarrow> int \<Rightarrow> int \<Rightarrow> (sock_state \<times> int) option" where
  "socketAlloc m mo st host port acc flags = do {
     (l, mx, sid) \<leftarrow> hAllocEntry m mo (socketList st) (socketMax st) sizeof_socket zero_socket;
     let st1 = st\<lparr>socketList := l, socketMax := mx\<rparr>;
     if sid < 0 then Some (st1, -1)
     else do {
       s \<leftarrow> h_entry l sid;
       sp \<leftarrow> s;
       let h = (case host of None \<Rightarrow> shost sp | Some h \<Rightarrow> take 64 (h @ replicate 64 CHR 0x00));
       let sp1 = sp\<lparr>ssid := sid, saccept := acc, sport := port, fileHandle := -1, saveMask := -1, shost := h,
         sflags := flags AND (SOCKET_BROADCAST OR SOCKET_DATAGRAM OR SOCKET_BLOCK OR SOCKET_LISTENING OR SOCKET_MYOWNBUFFERS)\<rparr>;
       sp2 \<leftarrow> (if flags AND SOCKET_MYOWNBUFFERS = 0 then do {
           (i, _) \<leftarrow> ringqOpen m (inBuf sp1) SOCKET_BUFSIZ SOCKET_BUFSIZ;
           (u, _) \<leftarrow> ringqOpen m (outBuf sp1) (SOCKET_BUFSIZ + 1) (SOCKET_BUFSIZ + 1);
           Some (sp1\<lparr>inBuf := i, outBuf := u\<rparr>) }
         else Some (sp1\<lparr>inBuf := zero_ringq, outBuf := zero_ringq\<rparr>));
       (l3, _) \<leftarrow> ringqOpen m (lineBuf sp2) SOCKET_BUFSIZ (-1);
       Some (put_socket st1 sid (sp2\<lparr>lineBuf := l3\<rparr>), sid) } }"

text \<open>The greatest descriptor of the first \<open>n\<close> handles; a fault when a handle lies outside the table.\<close>

fun highest_fd :: "sock_state \<Rightarrow> nat \<Rightarrow> int option" where
  "highest_fd st 0 = Some (-1)"
| "highest_fd st (Suc n) = do {
     hi \<leftarrow> highest_fd st n;
     s \<leftarrow> h_entry (socketList st) (int n);
     Some (case s of None \<Rightarrow> hi | Some sp \<Rightarrow> max hi (sock sp)) }"

definition socketFree :: "sock_state \<Rightarrow> int \<Rightarrow> sock_state option" where
  "socketFree st sid = do {
     s \<leftarrow> socketPtr st sid;
     (case s of None \<Rightarrow> Some st
      | Some sp0 \<Rightarrow> do {
          let st0 = put_socket st sid (socketRegisterInterest sp0 0);
          st1 \<leftarrow> (if sock sp0 \<ge> 0 then do {
              (st1, _) \<leftarrow> socketSetBlock st0 sid False;
              let k = (net st1 (sock sp0))\<lparr>fin := True\<rparr>;
              (k1, _, _, _) \<leftarrow> c_recv False k 256;
              Some (set_net st1 (sock sp0) (k1\<lparr>closed := True\<rparr>)) }
            else Some st0);
          sp \<leftarrow> h_get (socketList st1) sid;
          _ \<leftarrow> (if has_flag sp SOCKET_MYOWNBUFFERS then Some () else do { _ \<leftarrow> ringqClose (inBuf sp); _ \<leftarrow> ringqClose (outBuf sp); Some () });
          _ \<leftarrow> ringqClose (lineBuf sp);
          (l, mx) \<leftarrow> hFree (socketList st1) sid;
          let st2 = st1\<lparr>socketList := l, socketMax := mx\<rparr>;
          hi \<leftarrow> highest_fd st2 (nat mx);
          Some (st2\<lparr>socketHighestFd := hi\<rparr>) }) }"

definition socketCloseConnection :: "sock_state \<Rightarrow> int \<Rightarrow> sock_state option" where
  "socketCloseConnection st sid = do {
     s \<leftarrow> socketPtr st sid;
     (case s of None \<Rightarrow> Some st | Some _ \<Rightarrow> socketFree st sid) }"

definition socketOpen :: "sock_state \<Rightarrow> sock_state \<times> int" where
  "socketOpen st =
     (let st1 = st\<lparr>socketOpenCount := socketOpenCount st + 1\<rparr>
      in if socketOpenCount st1 > 1 then (st1, 0) else (st1\<lparr>socketList := None, socketMax := 0, socketHighestFd := -1\<rparr>, 0))"

text \<open>The loop runs from \<^verbatim>\<open>socketMax\<close> itself downwards.\<close>

fun close_all :: "sock_state \<Rightarrow> nat \<Rightarrow> sock_state option" where
  "close_all st n = do {
     s \<leftarrow> (if socketList st = None then Some None else h_entry (socketList st) (int n));
     st1 \<leftarrow> (if s = None then Some st else socketCloseConnection st (int n));
     (case n of 0 \<Rightarrow> Some st1 | Suc k \<Rightarrow> close_all st1 k) }"

declare close_all.simps [simp del]

definition socketClose :: "sock_state \<Rightarrow> sock_state option" where
  "socketClose st =
     (let st1 = st\<lparr>socketOpenCount := socketOpenCount st - 1\<rparr>
      in if socketOpenCount st1 \<le> 0 then do {
           st2 \<leftarrow> (if socketMax st1 < 0 then Some st1 else close_all st1 (nat (socketMax st1)));
           Some (st2\<lparr>socketOpenCount := 0\<rparr>) }
         else Some st1)"

section \<open>Reading\<close>

text \<open>The bytes, the result and \<^verbatim>\<open>errCode\<close>.\<close>

definition socketGetInput :: "sock_state \<Rightarrow> int \<Rightarrow> int \<Rightarrow> (sock_state \<times> byte list \<times> int \<times> int) option" where
  "socketGetInput st sid toRead = do {
     s \<leftarrow> socketPtr st sid;
     (case s of None \<Rightarrow> Some (st, [], -1, 0)
      | Some sp \<Rightarrow>
          if has_flag sp SOCKET_EOF then Some (st, [], 0, 0)
          else do {
            (k, d, rc, e) \<leftarrow> c_recv (has_flag sp SOCKET_DATAGRAM) (net st (sock sp)) toRead;
            let st1 = set_net st (sock sp) k;
            if rc < 0 then
              (if e = ECONNRESET then Some (put_socket st1 sid (sp\<lparr>sflags := sflags sp OR SOCKET_CONNRESET\<rparr>), [], 0, e)
               else Some (st1, [], -1, e))
            else Some (st1, d, rc, 0) }) }"

text \<open>Copying out of the input queue in one piece.\<close>

definition take_input :: "sock_state \<Rightarrow> int \<Rightarrow> int \<Rightarrow> (sock_state \<times> byte list) option" where
  "take_input st sid n = do {
     sp \<leftarrow> h_get (socketList st) sid;
     d \<leftarrow> mem_slice (buf (inBuf sp)) (servp (inBuf sp)) n;
     q \<leftarrow> ringqGetBlkAdj (inBuf sp) n;
     Some (put_socket st sid (sp\<lparr>inBuf := q\<rparr>), d) }"

text \<open>Storing what \<^verbatim>\<open>recv\<close> wrote at the end of the input queue.\<close>

definition put_input :: "sock_state \<Rightarrow> int \<Rightarrow> byte list \<Rightarrow> int \<Rightarrow> sock_state option" where
  "put_input st sid d n = do {
     sp \<leftarrow> h_get (socketList st) sid;
     b \<leftarrow> mem_copy (buf (inBuf sp)) (endp (inBuf sp)) d n;
     q \<leftarrow> ringqPutBlkAdj ((inBuf sp)\<lparr>buf := b\<rparr>) n;
     Some (put_socket st sid (sp\<lparr>inBuf := q\<rparr>)) }"

text \<open>The loop: \<open>acc\<close> is what has been stored in the caller's buffer, \<open>n\<close> the room left there.\<close>

partial_function (option) read_loop :: "sock_state \<Rightarrow> int \<Rightarrow> int \<Rightarrow> byte list \<Rightarrow> (sock_state \<times> byte list \<times> int) option" where
  [code]: "read_loop st sid n acc =
     (if n \<le> 0 then Some (st, acc, int (length acc))
      else do {
        sp \<leftarrow> h_get (socketList st) sid;
        let len = min (ringqLen (inBuf sp)) n;
        if len > 0 then do {
          (st1, d) \<leftarrow> take_input st sid len;
          read_loop st1 sid (n - len) (acc @ d) }
        else if has_flag sp SOCKET_BLOCK \<and> acc \<noteq> [] then Some (st, acc, int (length acc))
        else do {
          q \<leftarrow> ringqFlush (inBuf sp);
          (st1, d, rc, e) \<leftarrow> socketGetInput (put_socket st sid (sp\<lparr>inBuf := q\<rparr>)) sid (ringqPutBlkMax q);
          sp1 \<leftarrow> h_get (socketList st1) sid;
          if rc < 0 then
            (if e = EWOULDBLOCK then
               (if has_flag sp1 SOCKET_BLOCK \<and> acc = [] then read_loop st1 sid n acc else Some (st1, acc, int (length acc)))
             else Some (st1, acc, -1))
          else if rc = 0 then
            Some (if acc = [] then put_socket st1 sid (sp1\<lparr>sflags := sflags sp1 OR SOCKET_EOF\<rparr>) else st1, acc, int (length acc))
          else do {
            st2 \<leftarrow> put_input st1 sid d rc;
            (st3, d1) \<leftarrow> take_input st2 sid (min rc n);
            read_loop st3 sid (n - min rc n) (acc @ d1) } } })"

definition socketRead :: "sock_state \<Rightarrow> int \<Rightarrow> int \<Rightarrow> (sock_state \<times> byte list \<times> int) option" where
  "socketRead st sid bufsize = do {
     s \<leftarrow> socketPtr st sid;
     (case s of None \<Rightarrow> Some (st, [], -1)
      | Some sp \<Rightarrow> if has_flag sp SOCKET_EOF then Some (st, [], 0) else read_loop st sid bufsize []) }"

text \<open>The end of a line: its text, null for an empty one, and its length.\<close>

definition end_line :: "balloc_env \<Rightarrow> sock_state \<Rightarrow> int \<Rightarrow> (sock_state \<times> byte list option \<times> int) option" where
  "end_line m st sid = do {
     sp \<leftarrow> h_get (socketList st) sid;
     let lq = lineBuf sp;
     let len = ringqLen lq;
     text \<leftarrow> (if len > 0 then ballocAscToUni m (drop (nat (servp lq)) (buf lq)) len else Some None);
     q \<leftarrow> ringqFlush lq;
     Some (put_socket st sid (sp\<lparr>lineBuf := q\<rparr>), text, len) }"

partial_function (option) gets_loop :: "balloc_env \<Rightarrow> sock_state \<Rightarrow> int \<Rightarrow> (sock_state \<times> byte list option \<times> int) option" where
  [code]: "gets_loop m st sid = do {
     (st1, d, rc) \<leftarrow> socketRead st sid 1;
     if rc < 0 then Some (st1, None, rc)
     else do {
       sp \<leftarrow> h_get (socketList st1) sid;
       if rc = 0 \<and> \<not> (ringqLen (lineBuf sp) > 0 \<and> has_flag sp SOCKET_EOF) then Some (st1, None, -1)
       else let c = (if rc = 0 \<or> ringqLen (lineBuf sp) > E_MAX_REQUEST then CHR 0x0A else hd d)
         in if c = CHR 0x0A then end_line m st1 sid
            else if c = CHR 0x0D then gets_loop m st1 sid
            else do {
              (q, _) \<leftarrow> ringqPutc m (lineBuf sp) c;
              gets_loop m (put_socket st1 sid (sp\<lparr>lineBuf := q\<rparr>)) sid } } }"

definition socketGets :: "balloc_env \<Rightarrow> sock_state \<Rightarrow> int \<Rightarrow> (sock_state \<times> byte list option \<times> int) option" where
  "socketGets m st sid = do {
     s \<leftarrow> socketPtr st sid;
     (case s of None \<Rightarrow> Some (st, None, -1) | Some _ \<Rightarrow> gets_loop m st sid) }"

section \<open>Writing\<close>

definition tryAlternateSendTo :: int where "tryAlternateSendTo = -1"

definition socketDoOutput :: "sock_state \<Rightarrow> socket_t \<Rightarrow> byte list \<Rightarrow> (sock_state \<times> int \<times> int) option" where
  "socketDoOutput st sp d = do {
     let to = (if has_flag sp SOCKET_BROADCAST then Some (''255.255.255.255'', sport sp AND 0xFFFF)
               else if has_flag sp SOCKET_DATAGRAM then Some (c_str (shost sp), sport sp AND 0xFFFF) else None);
     (k, n, e) \<leftarrow> c_send (net st (sock sp)) to d;
     let bytes = (if n < 0 \<and> has_flag sp SOCKET_BROADCAST then tryAlternateSendTo else n);
     let st1 = set_net st (sock sp) k;
     if bytes < 0 then Some (st1, -1, e)
     else if bytes = 0 \<and> bytes \<noteq> int (length d) then Some (st1, -1, EWOULDBLOCK)
     else Some (st1, bytes, 0) }"

partial_function (option) flush_loop :: "sock_state \<Rightarrow> int \<Rightarrow> (sock_state \<times> int) option" where
  [code]: "flush_loop st sid = do {
     sp \<leftarrow> h_get (socketList st) sid;
     if ringqLen (outBuf sp) > 0 then do {
       d \<leftarrow> mem_slice (buf (outBuf sp)) (servp (outBuf sp)) (ringqGetBlkMax (outBuf sp));
       (st1, n, e) \<leftarrow> socketDoOutput st sp d;
       if n < 0 then
         (if e = EINTR then flush_loop st1 sid
          else if e = EWOULDBLOCK then
            Some (if saveMask sp < 0 then put_socket st1 sid (socketRegisterInterest (sp\<lparr>saveMask := handlerMask sp\<rparr>) (handlerMask sp OR SOCKET_WRITABLE)) else st1, 0)
          else Some (st1, -1))
       else do {
         q \<leftarrow> ringqGetBlkAdj (outBuf sp) n;
         flush_loop (put_socket st1 sid (sp\<lparr>outBuf := q\<rparr>)) sid } }
     else do {
       q \<leftarrow> (if ringqLen (outBuf sp) = 0 then ringqFlush (outBuf sp) else Some (outBuf sp));
       let sp1 = (if saveMask sp \<ge> 0 then (socketRegisterInterest sp (saveMask sp))\<lparr>saveMask := -1\<rparr> else sp);
       Some (put_socket st sid (sp1\<lparr>outBuf := q, sflags := sflags sp AND NOT SOCKET_FLUSHING\<rparr>), 0) } }"

definition socketFlush :: "sock_state \<Rightarrow> int \<Rightarrow> (sock_state \<times> int) option" where
  "socketFlush st sid = do {
     s \<leftarrow> socketPtr st sid;
     (case s of None \<Rightarrow> Some (st, -1)
      | Some sp \<Rightarrow>
          flush_loop (if has_flag sp SOCKET_BLOCK then st else put_socket st sid (sp\<lparr>sflags := sflags sp OR SOCKET_FLUSHING\<rparr>)) sid) }"

partial_function (option) write_loop :: "balloc_env \<Rightarrow> sock_state \<Rightarrow> int \<Rightarrow> byte list \<Rightarrow> int \<Rightarrow> (sock_state \<times> int) option" where
  [code]: "write_loop m st sid d written =
     (if d = [] then Some (st, written)
      else do {
        sp \<leftarrow> h_get (socketList st) sid;
        let room = ringqPutBlkMax (outBuf sp);
        if room = 0 then do {
          (st1, rc) \<leftarrow> socketFlush st sid;
          if rc < 0 then Some (st1, -1)
          else do {
            sp1 \<leftarrow> h_get (socketList st1) sid;
            if ringqPutBlkMax (outBuf sp1) = 0 \<and> \<not> has_flag sp1 SOCKET_BLOCK then Some (st1, written)
            else write_loop m st1 sid d written } }
        else do {
          let len = min room (int (length d));
          (q, _) \<leftarrow> ringqPutBlk m (outBuf sp) (take (nat len) d);
          write_loop m (put_socket st sid (sp\<lparr>outBuf := q\<rparr>)) sid (drop (nat len) d) (written + len) } })"

definition socketWrite :: "balloc_env \<Rightarrow> sock_state \<Rightarrow> int \<Rightarrow> byte list \<Rightarrow> (sock_state \<times> int) option" where
  "socketWrite m st sid d = do {
     s \<leftarrow> socketPtr st sid;
     (case s of None \<Rightarrow> Some (st, -1) | Some _ \<Rightarrow> write_loop m st sid d 0) }"

definition socketWriteString :: "balloc_env \<Rightarrow> sock_state \<Rightarrow> int \<Rightarrow> cstring \<Rightarrow> (sock_state \<times> int) option" where
  "socketWriteString m st sid s = socketWrite m st sid s"

section \<open>Reading a stream\<close>

text \<open>What \<^verbatim>\<open>recv\<close> will deliver before it first reports something else, and what follows.\<close>

fun avail :: "net_event list \<Rightarrow> byte list" where
  "avail (Data d # es) = d @ avail es"
| "avail es = []"

fun beyond :: "net_event list \<Rightarrow> net_event list" where
  "beyond (Data d # es) = beyond es"
| "beyond es = es"

definition conn_ok :: "conn \<Rightarrow> bool" where
  "conn_ok k \<longleftrightarrow> nonblock k \<and> Data [] \<notin> set (rx k)"

text \<open>An open socket with valid queues; the input and the line queue never wrap.\<close>

definition queues_ok :: "socket_t \<Rightarrow> bool" where
  "queues_ok sp \<longleftrightarrow> rq_inv (inBuf sp) \<and> servp (inBuf sp) \<le> endp (inBuf sp) \<and> 1 < buflen (inBuf sp) \<and> rq_inv (outBuf sp) \<and>
     rq_inv (lineBuf sp) \<and> servp (lineBuf sp) = 0"

definition sock_at :: "sock_state \<Rightarrow> int \<Rightarrow> socket_t \<Rightarrow> bool" where
  "sock_at st sid sp \<longleftrightarrow> h_inv (socketList st) \<and> h_get (socketList st) sid = Some sp \<and> 0 \<le> sid \<and> sid < socketMax st \<and> queues_ok sp"

definition plain :: "socket_t \<Rightarrow> bool" where
  "plain sp \<longleftrightarrow> \<not> has_flag sp SOCKET_EOF \<and> \<not> has_flag sp SOCKET_BLOCK \<and> \<not> has_flag sp SOCKET_DATAGRAM"

text \<open>The bytes a reader has still to see.\<close>

definition pending :: "sock_state \<Rightarrow> socket_t \<Rightarrow> byte list" where
  "pending st sp = rq_data (inBuf sp) @ avail (rx (net st (sock sp)))"

text \<open>Reading changes the input queue of one socket and the arrivals of its connection.\<close>

definition reads :: "sock_state \<Rightarrow> int \<Rightarrow> socket_t \<Rightarrow> sock_state \<Rightarrow> socket_t \<Rightarrow> bool" where
  "reads st sid sp st' sp' \<longleftrightarrow> sock_at st' sid sp' \<and> (\<exists>q. sp' = sp\<lparr>inBuf := q\<rparr>) \<and>
     (\<exists>es. net st' = (net st)(sock sp := (net st (sock sp))\<lparr>rx := es\<rparr>) \<and> Data [] \<notin> set es \<and> beyond es = beyond (rx (net st (sock sp)))) \<and>
     (\<forall>i. i \<noteq> sid \<longrightarrow> h_get (socketList st') i = h_get (socketList st) i) \<and> socketMax st' = socketMax st"

lemma socketPtr_at: "sock_at st sid sp \<Longrightarrow> socketPtr st sid = Some (Some sp)"
  by (simp add: sock_at_def socketPtr_def h_entry_get)

lemma put_socket_at:
  assumes "sock_at st sid sp" "queues_ok sp'"
  shows "sock_at (put_socket st sid sp') sid sp'" "h_get (socketList (put_socket st sid sp')) = (h_get (socketList st))(sid \<mapsto> sp')"
    "net (put_socket st sid sp') = net st" "socketMax (put_socket st sid sp') = socketMax st"
  using assms h_store_inuse[of "socketList st" sid sp sp'] by (simp_all add: sock_at_def put_socket_def)

lemma sock_at_get: "sock_at st sid sp \<Longrightarrow> h_get (socketList st) sid = Some sp" "sock_at st sid sp \<Longrightarrow> queues_ok sp"
  by (simp_all add: sock_at_def)

lemma set_net_at [simp]: "sock_at (set_net st fd k) sid sp = sock_at st sid sp" "socketList (set_net st fd k) = socketList st"
  "net (set_net st fd k) = (net st)(fd := k)" "socketMax (set_net st fd k) = socketMax st"
  by (simp_all add: set_net_def sock_at_def)

lemma put_set_net [simp]: "put_socket (set_net st fd k) sid sp = set_net (put_socket st sid sp) fd k"
  by (simp add: set_net_def put_socket_def)

lemma put_put_socket [simp]: "put_socket (put_socket st sid sp) sid sp' = put_socket st sid sp'"
  by (cases "socketList st") (simp_all add: put_socket_def h_store_def)

lemma reads_refl: "sock_at st sid sp \<Longrightarrow> Data [] \<notin> set (rx (net st (sock sp))) \<Longrightarrow> reads st sid sp st sp"
  unfolding reads_def by (intro conjI exI[of _ "rx (net st (sock sp))"] exI[of _ "inBuf sp"]) simp_all

lemma reads_trans:
  assumes a: "reads st sid sp st1 sp1" and b: "reads st1 sid sp1 st2 sp2"
  shows "reads st sid sp st2 sp2"
proof -
  obtain q1 es where q1: "sp1 = sp\<lparr>inBuf := q1\<rparr>" and es: "net st1 = (net st)(sock sp := (net st (sock sp))\<lparr>rx := es\<rparr>)" "beyond es = beyond (rx (net st (sock sp)))"
    using a by (auto simp: reads_def)
  obtain q2 fs where q2: "sp2 = sp1\<lparr>inBuf := q2\<rparr>" and fs: "net st2 = (net st1)(sock sp1 := (net st1 (sock sp1))\<lparr>rx := fs\<rparr>)" "Data [] \<notin> set fs"
     "beyond fs = beyond (rx (net st1 (sock sp1)))"
    using b by (auto simp: reads_def)
  have "sp2 = sp\<lparr>inBuf := q2\<rparr>" using q1 q2 by simp
  moreover have "net st2 = (net st)(sock sp := (net st (sock sp))\<lparr>rx := fs\<rparr>)" using es(1) fs(1) q1 by simp
  moreover have "beyond fs = beyond (rx (net st (sock sp)))" using es fs(3) q1 by simp
  moreover have "sock_at st2 sid sp2" "\<forall>i. i \<noteq> sid \<longrightarrow> h_get (socketList st2) i = h_get (socketList st) i" "socketMax st2 = socketMax st"
    using a b by (simp_all add: reads_def)
  ultimately show ?thesis using fs(2) unfolding reads_def by blast
qed

lemma take_input_spec:
  assumes "sock_at st sid sp" "0 \<le> n" "n \<le> int (length (rq_data (inBuf sp)))"
  shows "\<exists>q. take_input st sid n = Some (put_socket st sid (sp\<lparr>inBuf := q\<rparr>), take (nat n) (rq_data (inBuf sp))) \<and>
     queues_ok (sp\<lparr>inBuf := q\<rparr>) \<and> rq_data q = drop (nat n) (rq_data (inBuf sp))"
proof -
  have i: "rq_inv (inBuf sp)" "servp (inBuf sp) \<le> endp (inBuf sp)" using assms(1) by (simp_all add: sock_at_def queues_ok_def)
  obtain q where q: "ringqGetBlkAdj (inBuf sp) n = Some q" "rq_inv q" "rq_data q = drop (nat n) (rq_data (inBuf sp))"
    using ringqGetBlkAdj_spec[OF i(1) assms(2,3)] by blast
  have len: "n \<le> endp (inBuf sp) - servp (inBuf sp)" using assms(3) i by (simp add: rq_data_def rq_inv_def)
  have "q = (inBuf sp)\<lparr>servp := servp (inBuf sp) + n\<rparr>"
    using q(1) len i by (simp add: ringqGetBlkAdj_def rq_inv_def Let_def)
  then have l: "servp q \<le> endp q" "buflen q = buflen (inBuf sp)" using len by simp_all
  have "mem_slice (buf (inBuf sp)) (servp (inBuf sp)) n = Some (take (nat n) (rq_data (inBuf sp)))"
    using i len assms(2) by (simp add: mem_slice_def rq_inv_def rq_data_def min_absorb1)
  then show ?thesis using assms(1) q l by (auto simp: take_input_def sock_at_def queues_ok_def)
qed

lemma put_input_spec:
  assumes at: "sock_at st sid sp" and z: "servp (inBuf sp) = 0" "endp (inBuf sp) = 0"
    and n: "n = int (length d)" "n \<le> ringqPutBlkMax (inBuf sp)"
  shows "\<exists>q. put_input st sid d n = Some (put_socket st sid (sp\<lparr>inBuf := q\<rparr>)) \<and> queues_ok (sp\<lparr>inBuf := q\<rparr>) \<and> rq_data q = d"
proof -
  have i: "rq_inv (inBuf sp)" using at by (simp add: sock_at_def queues_ok_def)
  have r: "n < buflen (inBuf sp)" "buflen (inBuf sp) = int (length (buf (inBuf sp)))" "endbuf (inBuf sp) = buflen (inBuf sp)"
    using n i z by (auto simp: ringqPutBlkMax_def RINGQ_LEN_def rq_inv_def)
  define q where "q = (inBuf sp)\<lparr>buf := d @ drop (length d) (buf (inBuf sp)), endp := n\<rparr>"
  have "mem_copy (buf (inBuf sp)) 0 d n = Some (d @ drop (length d) (buf (inBuf sp)))"
    using n r by (simp add: mem_copy_def)
  then have "put_input st sid d n = Some (put_socket st sid (sp\<lparr>inBuf := q\<rparr>))"
    using at r z n(1) by (simp add: put_input_def sock_at_def ringqPutBlkAdj_def q_def Let_def)
  moreover have "rq_inv q" "servp q \<le> endp q" "rq_data q = d" "buflen q = buflen (inBuf sp)"
    using i r n(1) z by (auto simp: q_def rq_inv_def rq_data_def)
  ultimately show ?thesis using at by (auto simp: sock_at_def queues_ok_def)
qed

lemma inBuf_update_flags [simp]: "has_flag (sp\<lparr>inBuf := q\<rparr>) f = has_flag sp f" "plain (sp\<lparr>inBuf := q\<rparr>) = plain sp"
  by (simp_all add: has_flag_def plain_def)

text \<open>One \<^verbatim>\<open>recv\<close> on a connection with something to deliver.\<close>

lemma c_recv_avail:
  assumes "conn_ok k" "0 < n"
  shows "(\<exists>es d. c_recv False k n = Some (k\<lparr>rx := es\<rparr>, d, int (length d), 0) \<and> d \<noteq> [] \<and> int (length d) \<le> n \<and> avail (rx k) = d @ avail es \<and>
       Data [] \<notin> set es \<and> beyond es = beyond (rx k)) \<or> avail (rx k) = [] \<and> beyond (rx k) = rx k"
proof (cases "rx k")
  case (Cons ev es)
  show ?thesis
  proof (cases ev)
    case (Data d)
    then have ne: "d \<noteq> []" "Data [] \<notin> set es" using assms(1) Cons by (auto simp: conn_ok_def)
    show ?thesis
    proof (cases "int (length d) \<le> n")
      case True
      then show ?thesis using Data Cons ne by (auto simp: c_recv_def Let_def)
    next
      case False
      then have "drop (nat n) d \<noteq> []" "take (nat n) d \<noteq> []" "int (length (take (nat n) d)) \<le> n" using assms(2) ne(1) by auto
      then show ?thesis using False Data Cons ne
        by (intro disjI1 exI[of _ "Data (drop (nat n) d) # es"] exI[of _ "take (nat n) d"]) (simp add: c_recv_def)
    qed
  qed (use Cons in auto)
qed simp

lemma take_input_reads:
  assumes at: "sock_at st sid sp" and n: "0 \<le> n" "n \<le> int (length (rq_data (inBuf sp)))" and c: "Data [] \<notin> set (rx (net st (sock sp)))"
  shows "\<exists>st' sp'. take_input st sid n = Some (st', take (nat n) (rq_data (inBuf sp))) \<and> reads st sid sp st' sp' \<and>
     rq_data (inBuf sp') = drop (nat n) (rq_data (inBuf sp)) \<and> rx (net st' (sock sp)) = rx (net st (sock sp))"
proof -
  obtain q where q: "take_input st sid n = Some (put_socket st sid (sp\<lparr>inBuf := q\<rparr>), take (nat n) (rq_data (inBuf sp)))" "queues_ok (sp\<lparr>inBuf := q\<rparr>)"
     "rq_data q = drop (nat n) (rq_data (inBuf sp))"
    using take_input_spec[OF at n] by blast
  have "reads st sid sp (put_socket st sid (sp\<lparr>inBuf := q\<rparr>)) (sp\<lparr>inBuf := q\<rparr>)"
    unfolding reads_def using put_socket_at[OF at q(2)] c by (intro conjI exI[of _ q] exI[of _ "rx (net st (sock sp))"]) auto
  then show ?thesis using q put_socket_at(3)[OF at q(2)] by (intro exI[of _ "put_socket st sid (sp\<lparr>inBuf := q\<rparr>)"] exI[of _ "sp\<lparr>inBuf := q\<rparr>"]) simp
qed

text \<open>An empty input queue is filled by one \<^verbatim>\<open>recv\<close>.\<close>

lemma fill_reads:
  assumes at: "sock_at st sid sp" and p: "plain sp" and k: "conn_ok (net st (sock sp))" and a: "avail (rx (net st (sock sp))) \<noteq> []"
    and q: "ringqFlush (inBuf sp) = Some q"
  shows "\<exists>st1 d st2 sp2. socketGetInput (put_socket st sid (sp\<lparr>inBuf := q\<rparr>)) sid (ringqPutBlkMax q) = Some (st1, d, int (length d), 0) \<and>
     0 < length d \<and> h_get (socketList st1) sid = Some (sp\<lparr>inBuf := q\<rparr>) \<and>
     put_input st1 sid d (int (length d)) = Some st2 \<and> reads st sid sp st2 sp2 \<and> rq_data (inBuf sp2) = d \<and>
     avail (rx (net st (sock sp))) = d @ avail (rx (net st2 (sock sp)))"
proof -
  have i: "rq_inv (inBuf sp)" "1 < buflen (inBuf sp)" using at by (simp_all add: sock_at_def queues_ok_def)
  have fl: "rq_inv q" "rq_data q = []" "servp q = 0" "endp q = 0" "buflen q = buflen (inBuf sp)"
    using ringqFlush_spec[OF i(1)] q by (auto simp: rq_same_shape_def) (auto simp: ringqFlush_def bind_eq_Some_conv split: if_splits)
  have room: "0 < ringqPutBlkMax q" using ringqPutBlkMax_pos[OF fl(1)] fl i(2) by simp
  let ?sp = "sp\<lparr>inBuf := q\<rparr>"
  have qk: "queues_ok ?sp" using at fl i by (simp add: sock_at_def queues_ok_def)
  note at0 = put_socket_at[OF at qk]
  obtain es d where r: "c_recv False (net st (sock sp)) (ringqPutBlkMax q) = Some ((net st (sock sp))\<lparr>rx := es\<rparr>, d, int (length d), 0)"
     "d \<noteq> []" "int (length d) \<le> ringqPutBlkMax q" "avail (rx (net st (sock sp))) = d @ avail es" "Data [] \<notin> set es" "beyond es = beyond (rx (net st (sock sp)))"
    using c_recv_avail[OF k room] a by blast
  define st1 where "st1 = set_net (put_socket st sid ?sp) (sock sp) ((net st (sock sp))\<lparr>rx := es\<rparr>)"
  have g: "socketGetInput (put_socket st sid ?sp) sid (ringqPutBlkMax q) = Some (st1, d, int (length d), 0)"
    using socketPtr_at[OF at0(1)] p r(1) at0(3) by (simp add: socketGetInput_def plain_def st1_def)
  have at1: "sock_at st1 sid ?sp" using at0(1) by (simp add: st1_def)
  obtain q2 where q2: "put_input st1 sid d (int (length d)) = Some (put_socket st1 sid (?sp\<lparr>inBuf := q2\<rparr>))" "queues_ok (?sp\<lparr>inBuf := q2\<rparr>)" "rq_data q2 = d"
    using put_input_spec[OF at1, of "int (length d)" d] fl r(3) by auto
  note at2 = put_socket_at[OF at1 q2(2)]
  have "reads st sid sp (put_socket st1 sid (?sp\<lparr>inBuf := q2\<rparr>)) (?sp\<lparr>inBuf := q2\<rparr>)"
    unfolding reads_def using at2 r(5,6) at0
    by (intro conjI exI[of _ q2] exI[of _ es]) (auto simp: st1_def)
  moreover have "net (put_socket st1 sid (?sp\<lparr>inBuf := q2\<rparr>)) (sock sp) = (net st (sock sp))\<lparr>rx := es\<rparr>" using at2(3) by (simp add: st1_def)
  ultimately show ?thesis using g q2 r(2,4) sock_at_get(1)[OF at1]
    by (intro exI[of _ st1] exI[of _ d] exI[of _ "put_socket st1 sid (?sp\<lparr>inBuf := q2\<rparr>)"] exI[of _ "?sp\<lparr>inBuf := q2\<rparr>"]) simp
qed

lemma reads_keeps:
  assumes "reads st sid sp st' sp'"
  shows "sock_at st' sid sp'" "sock sp' = sock sp" "plain sp' = plain sp" "lineBuf sp' = lineBuf sp" "outBuf sp' = outBuf sp" "sflags sp' = sflags sp"
    "nonblock (net st' (sock sp)) = nonblock (net st (sock sp))" "Data [] \<notin> set (rx (net st' (sock sp)))"
    "beyond (rx (net st' (sock sp))) = beyond (rx (net st (sock sp)))"
  using assms by (auto simp: reads_def)

lemma read_loop_spec:
  "sock_at st sid sp \<Longrightarrow> plain sp \<Longrightarrow> conn_ok (net st (sock sp)) \<Longrightarrow> n \<le> length (pending st sp) \<or> beyond (rx (net st (sock sp))) = [] \<Longrightarrow>
     \<exists>st' sp'. read_loop st sid (int n) acc = Some (st', acc @ take n (pending st sp), int (length (acc @ take n (pending st sp)))) \<and>
       reads st sid sp st' sp' \<and> pending st' sp' = drop n (pending st sp)"
proof (induction n arbitrary: st sp acc rule: less_induct)
  case (less n)
  note at = less.prems(1) and k = less.prems(3)
  have nd: "Data [] \<notin> set (rx (net st (sock sp)))" using k by (simp add: conn_ok_def)
  have go: "\<exists>st' sp'. read_loop st1 sid (int n - int l) (acc @ d) = Some (st', acc @ take n (pending st sp), int (length (acc @ take n (pending st sp)))) \<and>
       reads st sid sp st' sp' \<and> pending st' sp' = drop n (pending st sp)"
    if r: "reads st sid sp st1 sp1" "pending st sp = d @ pending st1 sp1" "length d = l" "0 < l" "l \<le> n" for st1 sp1 d l
  proof -
    have c1: "conn_ok (net st1 (sock sp1))" using reads_keeps[OF r(1)] k by (simp add: conn_ok_def)
    have "\<exists>st' sp'. read_loop st1 sid (int (n - l)) (acc @ d) = Some (st', (acc @ d) @ take (n - l) (pending st1 sp1), int (length ((acc @ d) @ take (n - l) (pending st1 sp1)))) \<and>
        reads st1 sid sp1 st' sp' \<and> pending st' sp' = drop (n - l) (pending st1 sp1)"
      by (rule less.IH) (use r reads_keeps[OF r(1)] c1 less.prems in auto)
    moreover have "take n (pending st sp) = d @ take (n - l) (pending st1 sp1)" "drop n (pending st sp) = drop (n - l) (pending st1 sp1)"
      using r(2,3,5) by simp_all
    ultimately show ?thesis using r(5) reads_trans[OF r(1)] by (fastforce simp: of_nat_diff)
  qed
  show ?case
  proof (cases "n = 0")
    case True
    then show ?thesis using reads_refl[OF at nd] by (subst read_loop.simps) auto
  next
    case n0: False
    have rl: "ringqLen (inBuf sp) = int (length (rq_data (inBuf sp)))" using at ringqLen_data by (simp add: sock_at_def queues_ok_def)
    show ?thesis
    proof (cases "rq_data (inBuf sp) = []")
      case False
      let ?l = "min (length (rq_data (inBuf sp))) n"
      obtain st1 sp1 where t: "take_input st sid (int ?l) = Some (st1, take ?l (rq_data (inBuf sp)))" "reads st sid sp st1 sp1"
         "rq_data (inBuf sp1) = drop ?l (rq_data (inBuf sp))" "rx (net st1 (sock sp)) = rx (net st (sock sp))"
        using take_input_reads[OF at _ _ nd, of "int ?l"] by auto
      have len: "min (ringqLen (inBuf sp)) (int n) = int ?l" "0 < ?l" using rl False n0 by auto
      have "read_loop st sid (int n) acc = read_loop st1 sid (int n - int ?l) (acc @ take ?l (rq_data (inBuf sp)))"
        using n0 sock_at_get(1)[OF at] len t(1) rl False by (subst read_loop.simps) (simp add: Let_def)
      moreover have "pending st sp = take ?l (rq_data (inBuf sp)) @ pending st1 sp1"
        using t(3,4) reads_keeps(2)[OF t(2)] by (simp add: pending_def)
      ultimately show ?thesis using go[OF t(2), of "take ?l (rq_data (inBuf sp))" ?l] len by simp
    next
      case True
      then have z: "ringqLen (inBuf sp) = 0" using rl by simp
      obtain q where q: "ringqFlush (inBuf sp) = Some q" using ringqFlush_spec[of "inBuf sp"] at by (auto simp: sock_at_def queues_ok_def)
      have pl: "\<not> has_flag sp SOCKET_BLOCK" using less.prems(2) by (simp add: plain_def)
      show ?thesis
      proof (cases "avail (rx (net st (sock sp))) = []")
        case ne: False
        obtain st1 d st2 sp2 where f: "socketGetInput (put_socket st sid (sp\<lparr>inBuf := q\<rparr>)) sid (ringqPutBlkMax q) = Some (st1, d, int (length d), 0)"
           "0 < length d" "h_get (socketList st1) sid = Some (sp\<lparr>inBuf := q\<rparr>)" "put_input st1 sid d (int (length d)) = Some st2" "reads st sid sp st2 sp2"
           "rq_data (inBuf sp2) = d" "avail (rx (net st (sock sp))) = d @ avail (rx (net st2 (sock sp)))"
          using fill_reads[OF at less.prems(2) k ne q] by blast
        let ?l = "min (length d) n"
        obtain st3 sp3 where t: "take_input st2 sid (int ?l) = Some (st3, take ?l d)" "reads st2 sid sp2 st3 sp3"
           "rq_data (inBuf sp3) = drop ?l d" "rx (net st3 (sock sp2)) = rx (net st2 (sock sp2))"
          using take_input_reads[OF reads_keeps(1)[OF f(5)], of "int ?l"] f(6) reads_keeps(2,8)[OF f(5)] by auto
        have "min (int (length d)) (int n) = int ?l" by simp
        then have "read_loop st sid (int n) acc = read_loop st3 sid (int n - int ?l) (acc @ take ?l d)"
          using n0 sock_at_get(1)[OF at] z q pl f(1-4) t(1) by (subst read_loop.simps) simp
        moreover have "pending st sp = take ?l d @ pending st3 sp3"
          using True f(7) t(3,4) reads_keeps(2)[OF f(5)] reads_keeps(2)[OF t(2)] by (simp add: pending_def)
        ultimately show ?thesis using go[OF reads_trans[OF f(5) t(2)], of "take ?l d" ?l] f(2) n0 by simp
      next
        case em: True
        then have p0: "pending st sp = []" using True by (simp add: pending_def)
        then have "beyond (rx (net st (sock sp))) = []" using less.prems(4) n0 by auto
        moreover have "beyond es = []  \<Longrightarrow> avail es = [] \<Longrightarrow> Data [] \<notin> set es \<Longrightarrow> es = []" for es by (cases es rule: beyond.cases) auto
        ultimately have e: "rx (net st (sock sp)) = []" using em nd by blast
        have qk: "queues_ok (sp\<lparr>inBuf := q\<rparr>)"
          using at ringqFlush_spec[of "inBuf sp"] q by (auto simp: sock_at_def queues_ok_def rq_same_shape_def) (auto simp: ringqFlush_def bind_eq_Some_conv split: if_splits)
        note at0 = put_socket_at[OF at qk]
        have sn: "set_net (put_socket st sid (sp\<lparr>inBuf := q\<rparr>)) (sock sp) (net st (sock sp)) = put_socket st sid (sp\<lparr>inBuf := q\<rparr>)"
          using at0(3) by (simp add: set_net_def)
        have "socketGetInput (put_socket st sid (sp\<lparr>inBuf := q\<rparr>)) sid (ringqPutBlkMax q) = Some (put_socket st sid (sp\<lparr>inBuf := q\<rparr>), [], -1, EWOULDBLOCK)"
          using socketPtr_at[OF at0(1)] less.prems(2) k e at0(3) sn
          by (simp add: socketGetInput_def c_recv_def plain_def conn_ok_def EWOULDBLOCK_def ECONNRESET_def)
        then have rd: "read_loop st sid (int n) acc = Some (put_socket st sid (sp\<lparr>inBuf := q\<rparr>), acc, int (length acc))"
          using n0 sock_at_get(1)[OF at] sock_at_get(1)[OF at0(1)] z q pl by (subst read_loop.simps) simp
        have "reads st sid sp (put_socket st sid (sp\<lparr>inBuf := q\<rparr>)) (sp\<lparr>inBuf := q\<rparr>)"
          unfolding reads_def using at0 nd by (intro conjI exI[of _ q] exI[of _ "rx (net st (sock sp))"]) auto
        moreover have "rq_data q = []" using at ringqFlush_spec[of "inBuf sp"] q by (auto simp: sock_at_def queues_ok_def)
        then have "pending (put_socket st sid (sp\<lparr>inBuf := q\<rparr>)) (sp\<lparr>inBuf := q\<rparr>) = []" using at0(3) e by (simp add: pending_def)
        ultimately show ?thesis using rd p0
          by (intro exI[of _ "put_socket st sid (sp\<lparr>inBuf := q\<rparr>)"] exI[of _ "sp\<lparr>inBuf := q\<rparr>"]) simp
      qed
    qed
  qed
qed

section \<open>Reading lines\<close>

lemma put_grow_servp:
  "ringqPutBlk_fuel f m rq src = Some (rq', n) \<Longrightarrow> servp rq = 0 \<Longrightarrow> servp rq' = 0"
  "ringqGrow_fuel f m rq = Some (rq1, g) \<Longrightarrow> g \<or> servp rq = 0 \<Longrightarrow> servp rq1 = 0"
proof (induction f m rq src and f m rq arbitrary: rq' n and rq1 g rule: ringqPutBlk_fuel_ringqGrow_fuel.induct)
  case (2 f m rq src)
  show ?case
  proof (cases "src = []")
    case False
    let ?tn = "min (ringqPutBlkMax rq) (int (length src))"
    show ?thesis
    proof (cases "?tn \<le> 0")
      case True
      then obtain rq1 g where g: "ringqGrow_fuel f m rq = Some (rq1, g)" using 2(4) False by (auto simp: Let_def bind_eq_Some_conv)
      have z: "servp rq1 = 0" using 2(1)[OF False refl True g] 2(5) by simp
      show ?thesis
      proof (cases g)
        case gt: True
        then obtain rq2 k where "ringq_copy_in rq1 src (min (ringqPutBlkMax rq1) (int (length src))) = Some rq2"
           "ringqPutBlk_fuel f m rq2 (drop (nat (min (ringqPutBlkMax rq1) (int (length src)))) src) = Some (rq', k)"
          using 2(4) False True g by (auto simp: Let_def bind_eq_Some_conv)
        moreover from this(1) have "servp rq2 = 0" using z by (auto simp: ringq_copy_in_def Let_def bind_eq_Some_conv)
        ultimately show ?thesis using 2(2)[OF False refl True g refl _ refl] gt by blast
      next
        case gf: False
        then show ?thesis using 2(4) False True g z by (auto simp: Let_def bind_eq_Some_conv)
      qed
    next
      case False2: False
      then obtain rq2 k where "ringq_copy_in rq src ?tn = Some rq2" "ringqPutBlk_fuel f m rq2 (drop (nat ?tn) src) = Some (rq', k)"
        using 2(4) False by (auto simp: Let_def bind_eq_Some_conv)
      moreover from this(1) have "servp rq2 = 0" using 2(5) by (auto simp: ringq_copy_in_def Let_def bind_eq_Some_conv)
      ultimately show ?thesis using 2(3)[OF False refl False2] by blast
    qed
  next
    case True
    then show ?thesis using 2(4,5) by simp
  qed
next
  case (4 f m rq)
  show ?case
  proof (cases g)
    case True
    have lim: "\<not> (maxsize rq \<ge> 0 \<and> buflen rq \<ge> maxsize rq)" using 4(2) True by auto
    then obtain nl where c: "c_int (buflen rq + increment rq) = Some nl" using 4(2) by (cases "c_int (buflen rq + increment rq)") (auto simp: Let_def)
    then obtain nb where nb: "balloc m nl = Some nb" using 4(2) lim True by (cases "balloc m nl") (auto simp: Let_def)
    obtain rq0 d nb2 rq3 put i where g: "ringqGetBlk rq (ringqLen rq) = Some (rq0, d)" "mem_copy nb 0 d (int (length d)) = Some nb2"
       and p: "ringqPutBlk_fuel f m (rq0\<lparr>buflen := nl, endp := 0, servp := 0, buf := nb2, endbuf := nl\<rparr>) (take (nat (ringqLen rq)) nb2) = Some (rq3, put)"
       and r: "rq1 = rq3\<lparr>increment := i\<rparr>"
      using 4(2) lim c nb by (simp add: Let_def bind_eq_Some_conv) blast
    then have "servp rq3 = 0"
      using 4(1)[OF lim refl c nb g(1) refl g(2) refl p] by simp
    then show ?thesis using r by simp
  next
    case False
    then show ?thesis using 4(2,3) by (auto simp: Let_def bind_eq_Some_conv split: if_splits option.splits)
  qed
qed auto

text \<open>Memory for a request, and a line queue that can hold the longest line \<^verbatim>\<open>socketGets\<close> lets through.\<close>

definition ample :: "balloc_env \<Rightarrow> bool" where
  "ample m \<longleftrightarrow> small_heap m \<and> (\<forall>n. n \<le> 2 ^ 16 \<longrightarrow> m n \<noteq> None)"

definition line_room :: "balloc_env \<Rightarrow> ringq \<Rightarrow> bool" where
  "line_room m lq \<longleftrightarrow> maxsize lq = -1 \<and> (buflen lq > E_MAX_REQUEST + 2 \<or> buflen lq + increment lq > E_MAX_REQUEST + 2 \<and> m (buflen lq + increment lq) \<noteq> None)"

lemma ringqPutc_line:
  assumes i: "rq_inv lq" "servp lq = 0" and m: "small_heap m" and r: "line_room m lq" and l: "int (length (rq_data lq)) \<le> E_MAX_REQUEST"
  shows "\<exists>q. ringqPutc m lq c = Some (q, 0) \<and> rq_inv q \<and> servp q = 0 \<and> line_room m q \<and> rq_data q = rq_data lq @ [c]"
proof -
  obtain rq1 ok where g: "(if ringqPutBlkMax lq < 1 then ringqGrow m lq else Some (lq, True)) = Some (rq1, ok)"
    "rq_inv rq1" "rq_data rq1 = rq_data lq" "maxsize rq1 = maxsize lq"
    "if ok then 0 < ringqPutBlkMax rq1 else rq1 = lq \<and> rq_full m lq \<and> int (length (rq_data lq)) = buflen lq - 1"
    using ringqGrow_if_full[OF i(1) m] by blast
  have ok using g(5) r l by (auto simp: rq_full_def line_room_def split: if_splits)
  have z: "servp rq1 = 0 \<and> line_room m rq1"
  proof (cases "ringqPutBlkMax lq < 1")
    case True
    then have gr: "ringqGrow m lq = Some (rq1, True)" using g(1) \<open>ok\<close> by simp
    then have "buflen rq1 = buflen lq + increment lq" using ringqGrow_total[OF i(1) m] by fastforce
    moreover have "0 < increment lq" using i(1) by (auto simp: rq_inv_def)
    ultimately show ?thesis using put_grow_servp(2)[of 4 m lq rq1 True] gr g(4) r by (auto simp: ringqGrow_def line_room_def)
  qed (use g(1) i r in auto)
  obtain b e' where b: "mem_write (buf rq1) (endp rq1) c = Some b" "(if endp rq1 + 1 \<ge> endbuf rq1 then 0 else endp rq1 + 1) = e'"
     "rq_inv (rq1\<lparr>buf := b, endp := e'\<rparr>)" "rq_data (rq1\<lparr>buf := b, endp := e'\<rparr>) = rq_data rq1 @ [c]"
    using ringq_write_end[OF g(2), of c] g(5) \<open>ok\<close> by auto
  then show ?thesis using g(1,3) \<open>ok\<close> z
    by (intro exI[of _ "rq1\<lparr>buf := b, endp := e'\<rparr>"]) (simp add: ringqPutc_def Let_def line_room_def)
qed

text \<open>A socket ready to read lines from.\<close>

definition sock_ready :: "balloc_env \<Rightarrow> sock_state \<Rightarrow> int \<Rightarrow> socket_t \<Rightarrow> bool" where
  "sock_ready m st sid sp \<longleftrightarrow> sock_at st sid sp \<and> plain sp \<and> conn_ok (net st (sock sp)) \<and> line_room m (lineBuf sp)"

text \<open>Reading lines changes the input and the line queue of one socket and the arrivals of its connection.\<close>

definition reads_line :: "balloc_env \<Rightarrow> sock_state \<Rightarrow> int \<Rightarrow> socket_t \<Rightarrow> sock_state \<Rightarrow> socket_t \<Rightarrow> bool" where
  "reads_line m st sid sp st' sp' \<longleftrightarrow> sock_ready m st' sid sp' \<and> (\<exists>q l. sp' = sp\<lparr>inBuf := q, lineBuf := l\<rparr>) \<and>
     (\<exists>es. net st' = (net st)(sock sp := (net st (sock sp))\<lparr>rx := es\<rparr>) \<and> beyond es = beyond (rx (net st (sock sp)))) \<and>
     (\<forall>i. i \<noteq> sid \<longrightarrow> h_get (socketList st') i = h_get (socketList st) i) \<and> socketMax st' = socketMax st"

lemma reads_line_trans:
  assumes a: "reads_line m st sid sp st1 sp1" and b: "reads_line m st1 sid sp1 st2 sp2"
  shows "reads_line m st sid sp st2 sp2"
proof -
  obtain q1 l1 es where q1: "sp1 = sp\<lparr>inBuf := q1, lineBuf := l1\<rparr>" and es: "net st1 = (net st)(sock sp := (net st (sock sp))\<lparr>rx := es\<rparr>)"
     "beyond es = beyond (rx (net st (sock sp)))"
    using a by (auto simp: reads_line_def)
  obtain q2 l2 fs where q2: "sp2 = sp1\<lparr>inBuf := q2, lineBuf := l2\<rparr>" and fs: "net st2 = (net st1)(sock sp1 := (net st1 (sock sp1))\<lparr>rx := fs\<rparr>)"
     "beyond fs = beyond (rx (net st1 (sock sp1)))"
    using b by (auto simp: reads_line_def)
  have "sp2 = sp\<lparr>inBuf := q2, lineBuf := l2\<rparr>" using q1 q2 by simp
  moreover have "net st2 = (net st)(sock sp := (net st (sock sp))\<lparr>rx := fs\<rparr>)" using es(1) fs(1) q1 by simp
  moreover have "beyond fs = beyond (rx (net st (sock sp)))" using es fs(2) q1 by simp
  moreover have "sock_ready m st2 sid sp2" "\<forall>i. i \<noteq> sid \<longrightarrow> h_get (socketList st2) i = h_get (socketList st) i" "socketMax st2 = socketMax st"
    using a b by (simp_all add: reads_line_def)
  ultimately show ?thesis unfolding reads_line_def by blast
qed

lemma reads_line_from_reads:
  assumes "reads st sid sp st' sp'" "plain sp" "nonblock (net st (sock sp))" "line_room m (lineBuf sp)"
  shows "reads_line m st sid sp st' sp'"
proof -
  obtain q where q: "sp' = sp\<lparr>inBuf := q\<rparr>" using assms(1) by (auto simp: reads_def)
  have "sock_ready m st' sid sp'" using assms reads_keeps[OF assms(1)] by (simp add: sock_ready_def conn_ok_def)
  moreover have "sp' = sp\<lparr>inBuf := q, lineBuf := lineBuf sp\<rparr>" using q by simp
  ultimately show ?thesis using assms(1) unfolding reads_line_def reads_def by blast
qed

lemma put_line_reads:
  assumes "sock_ready m st sid sp" "rq_inv l" "servp l = 0" "line_room m l"
  shows "reads_line m st sid sp (put_socket st sid (sp\<lparr>lineBuf := l\<rparr>)) (sp\<lparr>lineBuf := l\<rparr>)"
proof -
  have at: "sock_at st sid sp" using assms(1) by (simp add: sock_ready_def)
  have qk: "queues_ok (sp\<lparr>lineBuf := l\<rparr>)" using at assms(2,3) by (simp add: sock_at_def queues_ok_def)
  note p = put_socket_at[OF at qk]
  have "sock_ready m (put_socket st sid (sp\<lparr>lineBuf := l\<rparr>)) sid (sp\<lparr>lineBuf := l\<rparr>)"
    using p assms(1,4) by (simp add: sock_ready_def plain_def has_flag_def)
  then show ?thesis using p(2-4) unfolding reads_line_def
    by (intro conjI exI[of _ "inBuf sp"] exI[of _ l] exI[of _ "rx (net st (sock sp))"]) simp_all
qed

lemma end_line_spec:
  assumes r: "sock_ready m st sid sp" and m: "ample m" and l: "int (length (rq_data (lineBuf sp))) \<le> E_MAX_REQUEST"
  shows "\<exists>st' sp'. end_line m st sid = Some (st', if rq_data (lineBuf sp) = [] then None else Some (rq_data (lineBuf sp) @ [CHR 0x00]), int (length (rq_data (lineBuf sp)))) \<and>
     reads_line m st sid sp st' sp' \<and> rq_data (lineBuf sp') = [] \<and> pending st' sp' = pending st sp"
proof -
  have at: "sock_at st sid sp" using r by (simp add: sock_ready_def)
  let ?lq = "lineBuf sp" and ?d = "rq_data (lineBuf sp)"
  have i: "rq_inv ?lq" "servp ?lq = 0" using at by (simp_all add: sock_at_def queues_ok_def)
  have len: "ringqLen ?lq = int (length ?d)" by (rule ringqLen_data[OF i(1)])
  have d: "take (length ?d) (buf ?lq) = ?d" "length ?d < length (buf ?lq)"
    using i by (auto simp: rq_data_def rq_inv_def)
  have "ballocAscToUni m (buf ?lq) (int (length ?d)) = Some (Some (?d @ [CHR 0x00]))"
  proof -
    have "m (int (length ?d) + 1) \<noteq> None" using m l by (simp add: ample_def E_MAX_REQUEST_def)
    then obtain u where u: "balloc m (int (length ?d) + 1) = Some u" by (cases "balloc m (int (length ?d) + 1)") auto
    then have lu: "length u = length ?d + 1" using balloc_length[OF u] by simp
    have "mem_copy u 0 (buf ?lq) (int (length ?d) + 1) = Some (take (length ?d + 1) (buf ?lq))"
      using lu d(2) by (simp add: mem_copy_def nat_add_distrib)
    moreover have "mem_write (take (length ?d + 1) (buf ?lq)) (int (length ?d)) CHR 0x00 = Some (?d @ [CHR 0x00])"
    proof -
      have "(take (length ?d + 1) (buf ?lq))[length ?d := CHR 0x00] = take (length ?d) (buf ?lq) @ [CHR 0x00]"
        using d(2) by (simp add: take_Suc_conv_app_nth list_update_append)
      then show ?thesis using d by (simp add: mem_write_def)
    qed
    ultimately show ?thesis using u by (simp add: ballocAscToUni_def ascToUni_def)
  qed
  moreover obtain q where q: "ringqFlush ?lq = Some q" "rq_inv q" "rq_data q = []" "rq_same_shape ?lq q" using ringqFlush_spec[OF i(1)] by blast
  moreover have z: "servp q = 0" "line_room m q" using q(1,4) r by (auto simp: ringqFlush_def bind_eq_Some_conv sock_ready_def line_room_def rq_same_shape_def split: if_splits)
  ultimately have "end_line m st sid = Some (put_socket st sid (sp\<lparr>lineBuf := q\<rparr>), if ?d = [] then None else Some (?d @ [CHR 0x00]), int (length ?d))"
    using sock_at_get(1)[OF at] i(2) len by (simp add: end_line_def Let_def)
  moreover have "net (put_socket st sid (sp\<lparr>lineBuf := q\<rparr>)) = net st" by (simp add: put_socket_def)
  ultimately show ?thesis using put_line_reads[OF r q(2) z] q(3)
    by (intro exI[of _ "put_socket st sid (sp\<lparr>lineBuf := q\<rparr>)"] exI[of _ "sp\<lparr>lineBuf := q\<rparr>"]) (simp add: pending_def)
qed

lemma socketRead_ready:
  assumes "sock_ready m st sid sp" "0 < n" "n \<le> length (pending st sp) \<or> beyond (rx (net st (sock sp))) = []"
  shows "\<exists>st' sp'. socketRead st sid (int n) = Some (st', take n (pending st sp), int (length (take n (pending st sp)))) \<and>
     reads_line m st sid sp st' sp' \<and> pending st' sp' = drop n (pending st sp) \<and> lineBuf sp' = lineBuf sp"
proof -
  have at: "sock_at st sid sp" "plain sp" "conn_ok (net st (sock sp))" "line_room m (lineBuf sp)" using assms(1) by (simp_all add: sock_ready_def)
  obtain st' sp' where r: "read_loop st sid (int n) [] = Some (st', take n (pending st sp), int (length (take n (pending st sp))))"
     "reads st sid sp st' sp'" "pending st' sp' = drop n (pending st sp)"
    using read_loop_spec[OF at(1-3) assms(3), of "[]"] by auto
  have "socketRead st sid (int n) = read_loop st sid (int n) []"
    using socketPtr_at[OF at(1)] at(2) by (simp add: socketRead_def plain_def)
  then show ?thesis using r reads_line_from_reads[OF r(2) at(2) _ at(4)] reads_keeps(4)[OF r(2)] at(3) by (auto simp: conn_ok_def)
qed

text \<open>The line a stream starts with: what comes before the first line feed, without carriage returns.\<close>

definition first_line :: "byte list \<Rightarrow> byte list" where
  "first_line p = filter (\<lambda>c. c \<noteq> CHR 0x0D) (takeWhile (\<lambda>c. c \<noteq> CHR 0x0A) p)"

lemma gets_loop_spec:
  assumes m: "ample m"
  shows "sock_ready m st sid sp \<Longrightarrow> int (length (rq_data (lineBuf sp) @ first_line (pending st sp))) \<le> E_MAX_REQUEST \<Longrightarrow>
     CHR 0x0A \<in> set (pending st sp) \<or> beyond (rx (net st (sock sp))) = [] \<Longrightarrow>
     \<exists>st' sp'. gets_loop m st sid =
         (if CHR 0x0A \<in> set (pending st sp)
          then Some (st', if rq_data (lineBuf sp) @ first_line (pending st sp) = [] then None else Some (rq_data (lineBuf sp) @ first_line (pending st sp) @ [CHR 0x00]),
                 int (length (rq_data (lineBuf sp) @ first_line (pending st sp))))
          else Some (st', None, -1)) \<and> reads_line m st sid sp st' sp' \<and>
       rq_data (lineBuf sp') = (if CHR 0x0A \<in> set (pending st sp) then [] else rq_data (lineBuf sp) @ first_line (pending st sp)) \<and>
       pending st' sp' = tl (dropWhile (\<lambda>c. c \<noteq> CHR 0x0A) (pending st sp))"
proof (induction "pending st sp" arbitrary: st sp)
  case Nil
  have "beyond (rx (net st (sock sp))) = []" using Nil by auto
  then obtain st1 sp1 where r: "socketRead st sid 1 = Some (st1, [], 0)" "reads_line m st sid sp st1 sp1" "pending st1 sp1 = []" "lineBuf sp1 = lineBuf sp"
    using socketRead_ready[OF Nil(2), of 1] Nil(1)[symmetric] by auto
  have "h_get (socketList st1) sid = Some sp1" "\<not> has_flag sp1 SOCKET_EOF" using r(2) by (simp_all add: reads_line_def sock_ready_def sock_at_def plain_def)
  then have "gets_loop m st sid = Some (st1, None, -1)" using r(1) by (subst gets_loop.simps) simp
  then show ?case using r Nil(1)[symmetric] by (auto simp: first_line_def)
next
  case (Cons c p)
  note p = Cons.hyps(2)[symmetric]
  obtain st1 sp1 where r: "socketRead st sid 1 = Some (st1, [c], 1)" "reads_line m st sid sp st1 sp1" "pending st1 sp1 = p" "lineBuf sp1 = lineBuf sp"
    using socketRead_ready[OF Cons.prems(1), of 1] p by auto
  have s1: "sock_ready m st1 sid sp1" using r(2) by (simp add: reads_line_def)
  then have g1: "h_get (socketList st1) sid = Some sp1" and q1: "rq_inv (lineBuf sp1)" "servp (lineBuf sp1) = 0"
    by (simp_all add: sock_ready_def sock_at_def queues_ok_def)
  have l1: "int (length (rq_data (lineBuf sp1))) \<le> E_MAX_REQUEST" using Cons.prems(2) r(4) by simp
  then have ll: "\<not> ringqLen (lineBuf sp1) > E_MAX_REQUEST" using ringqLen_data[OF q1(1)] by simp
  have b1: "beyond (rx (net st1 (sock sp1))) = beyond (rx (net st (sock sp)))" using r(2) by (auto simp: reads_line_def)
  have step: "gets_loop m st sid =
      (if c = CHR 0x0A then end_line m st1 sid else if c = CHR 0x0D then gets_loop m st1 sid
       else do { (q, _) \<leftarrow> ringqPutc m (lineBuf sp1) c; gets_loop m (put_socket st1 sid (sp1\<lparr>lineBuf := q\<rparr>)) sid })"
    using r(1) g1 ll by (subst gets_loop.simps) simp
  consider "c = CHR 0x0A" | "c = CHR 0x0D" | "c \<noteq> CHR 0x0A" "c \<noteq> CHR 0x0D" by blast
  then show ?case
  proof cases
    case 1
    obtain st2 sp2 where e: "end_line m st1 sid = Some (st2, if rq_data (lineBuf sp1) = [] then None else Some (rq_data (lineBuf sp1) @ [CHR 0x00]), int (length (rq_data (lineBuf sp1))))"
       "reads_line m st1 sid sp1 st2 sp2" "rq_data (lineBuf sp2) = []" "pending st2 sp2 = pending st1 sp1"
      using end_line_spec[OF s1 m l1] by blast
    then show ?thesis using 1 step p r(3,4) reads_line_trans[OF r(2) e(2)]
      by (intro exI[of _ st2] exI[of _ sp2]) (simp add: first_line_def)
  next
    case 2
    have "\<exists>st' sp'. gets_loop m st1 sid =
         (if CHR 0x0A \<in> set (pending st1 sp1)
          then Some (st', if rq_data (lineBuf sp1) @ first_line (pending st1 sp1) = [] then None else Some (rq_data (lineBuf sp1) @ first_line (pending st1 sp1) @ [CHR 0x00]),
                 int (length (rq_data (lineBuf sp1) @ first_line (pending st1 sp1))))
          else Some (st', None, -1)) \<and> reads_line m st1 sid sp1 st' sp' \<and>
       rq_data (lineBuf sp') = (if CHR 0x0A \<in> set (pending st1 sp1) then [] else rq_data (lineBuf sp1) @ first_line (pending st1 sp1)) \<and>
       pending st' sp' = tl (dropWhile (\<lambda>c. c \<noteq> CHR 0x0A) (pending st1 sp1))"
      by (rule Cons.hyps(1)[OF _ s1]) (use r(3,4) Cons.prems(2,3) p 2 b1 in \<open>auto simp: first_line_def\<close>)
    then obtain st2 sp2 where i: "gets_loop m st1 sid =
         (if CHR 0x0A \<in> set p then Some (st2, if rq_data (lineBuf sp) @ first_line p = [] then None else Some (rq_data (lineBuf sp) @ first_line p @ [CHR 0x00]),
                 int (length (rq_data (lineBuf sp) @ first_line p))) else Some (st2, None, -1))"
       "reads_line m st1 sid sp1 st2 sp2" "rq_data (lineBuf sp2) = (if CHR 0x0A \<in> set p then [] else rq_data (lineBuf sp) @ first_line p)"
       "pending st2 sp2 = tl (dropWhile (\<lambda>c. c \<noteq> CHR 0x0A) p)" unfolding r(3,4) by blast
    have fl: "first_line (c # p) = first_line p" using 2 by (simp add: first_line_def)
    show ?thesis using 2 step p i reads_line_trans[OF r(2) i(2)] fl by (intro exI[of _ st2] exI[of _ sp2]) simp
  next
    case 3
    have lr: "line_room m (lineBuf sp1)" "small_heap m" using s1 m by (simp_all add: sock_ready_def ample_def)
    obtain q where q: "ringqPutc m (lineBuf sp1) c = Some (q, 0)" "rq_inv q" "servp q = 0" "line_room m q" "rq_data q = rq_data (lineBuf sp) @ [c]"
      using ringqPutc_line[OF q1 lr(2,1) l1, of c] r(4) by auto
    let ?st = "put_socket st1 sid (sp1\<lparr>lineBuf := q\<rparr>)" and ?sp = "sp1\<lparr>lineBuf := q\<rparr>"
    have r2: "reads_line m st1 sid sp1 ?st ?sp" by (rule put_line_reads[OF s1 q(2-4)])
    have p2: "pending ?st ?sp = p" using r(3) by (simp add: pending_def put_socket_def)
    have fl: "first_line (c # p) = c # first_line p" using 3 by (simp add: first_line_def)
    have "\<exists>st' sp'. gets_loop m ?st sid =
         (if CHR 0x0A \<in> set (pending ?st ?sp)
          then Some (st', if rq_data (lineBuf ?sp) @ first_line (pending ?st ?sp) = [] then None else Some (rq_data (lineBuf ?sp) @ first_line (pending ?st ?sp) @ [CHR 0x00]),
                 int (length (rq_data (lineBuf ?sp) @ first_line (pending ?st ?sp))))
          else Some (st', None, -1)) \<and> reads_line m ?st sid ?sp st' sp' \<and>
       rq_data (lineBuf sp') = (if CHR 0x0A \<in> set (pending ?st ?sp) then [] else rq_data (lineBuf ?sp) @ first_line (pending ?st ?sp)) \<and>
       pending st' sp' = tl (dropWhile (\<lambda>c. c \<noteq> CHR 0x0A) (pending ?st ?sp))"
    proof (rule Cons.hyps(1))
      show "sock_ready m ?st sid ?sp" using r2 by (simp add: reads_line_def)
      show "int (length (rq_data (lineBuf ?sp) @ first_line (pending ?st ?sp))) \<le> E_MAX_REQUEST" unfolding p2 using Cons.prems(2) q(5) p fl by simp
      show "CHR 0x0A \<in> set (pending ?st ?sp) \<or> beyond (rx (net ?st (sock ?sp))) = []"
        unfolding p2 using Cons.prems(3) p 3 b1 by (auto simp: put_socket_def)
    qed (simp add: p2)
    then obtain st2 sp2 where i: "gets_loop m ?st sid =
         (if CHR 0x0A \<in> set p then Some (st2, Some (rq_data (lineBuf sp) @ (c # first_line p) @ [CHR 0x00]),
                 int (length (rq_data (lineBuf sp) @ c # first_line p))) else Some (st2, None, -1))"
       "reads_line m ?st sid ?sp st2 sp2" "rq_data (lineBuf sp2) = (if CHR 0x0A \<in> set p then [] else rq_data (lineBuf sp) @ c # first_line p)"
       "pending st2 sp2 = tl (dropWhile (\<lambda>c. c \<noteq> CHR 0x0A) p)" unfolding p2 using q(5) by auto
    show ?thesis using 3 step p q(1) i reads_line_trans[OF r(2) reads_line_trans[OF r2 i(2)]] fl
      by (intro exI[of _ st2] exI[of _ sp2]) simp
  qed
qed

lemma socketGets_spec:
  assumes "ample m" "sock_ready m st sid sp" "int (length (rq_data (lineBuf sp) @ first_line (pending st sp))) \<le> E_MAX_REQUEST"
    "CHR 0x0A \<in> set (pending st sp) \<or> beyond (rx (net st (sock sp))) = []"
  shows "\<exists>st' sp'. socketGets m st sid =
         (if CHR 0x0A \<in> set (pending st sp)
          then Some (st', if rq_data (lineBuf sp) @ first_line (pending st sp) = [] then None else Some (rq_data (lineBuf sp) @ first_line (pending st sp) @ [CHR 0x00]),
                 int (length (rq_data (lineBuf sp) @ first_line (pending st sp))))
          else Some (st', None, -1)) \<and> reads_line m st sid sp st' sp' \<and>
       rq_data (lineBuf sp') = (if CHR 0x0A \<in> set (pending st sp) then [] else rq_data (lineBuf sp) @ first_line (pending st sp)) \<and>
       pending st' sp' = tl (dropWhile (\<lambda>c. c \<noteq> CHR 0x0A) (pending st sp))"
  using gets_loop_spec[OF assms] socketPtr_at[of st sid sp] assms(2) by (simp add: socketGets_def sock_ready_def)

section \<open>Writing\<close>

text \<open>What has been written: the bytes sent, followed by those still in the output queue.\<close>

definition outgoing :: "sock_state \<Rightarrow> socket_t \<Rightarrow> byte list" where
  "outgoing st sp = sent (net st (sock sp)) @ rq_data (outBuf sp)"

definition stream_socket :: "socket_t \<Rightarrow> bool" where
  "stream_socket sp \<longleftrightarrow> \<not> has_flag sp SOCKET_BROADCAST \<and> \<not> has_flag sp SOCKET_DATAGRAM"

text \<open>What writing leaves alone.\<close>

definition writes :: "sock_state \<Rightarrow> int \<Rightarrow> socket_t \<Rightarrow> sock_state \<Rightarrow> socket_t \<Rightarrow> bool" where
  "writes st sid sp st' sp' \<longleftrightarrow> sock_at st' sid sp' \<and> sock sp' = sock sp \<and> inBuf sp' = inBuf sp \<and> lineBuf sp' = lineBuf sp \<and>
     (stream_socket sp' = stream_socket sp) \<and> (has_flag sp' SOCKET_BLOCK = has_flag sp SOCKET_BLOCK) \<and> buflen (outBuf sp') = buflen (outBuf sp) \<and>
     (\<exists>ts d. net st' = (net st)(sock sp := (net st (sock sp))\<lparr>tx := ts, sent := d\<rparr>)) \<and>
     (\<forall>i. i \<noteq> sid \<longrightarrow> h_get (socketList st') i = h_get (socketList st) i) \<and> socketMax st' = socketMax st"

lemma writes_trans:
  assumes a: "writes st sid sp st1 sp1" and b: "writes st1 sid sp1 st2 sp2"
  shows "writes st sid sp st2 sp2"
proof -
  obtain t1 d1 t2 d2 where n: "net st1 = (net st)(sock sp := (net st (sock sp))\<lparr>tx := t1, sent := d1\<rparr>)"
     "net st2 = (net st1)(sock sp := (net st1 (sock sp))\<lparr>tx := t2, sent := d2\<rparr>)"
    using a b unfolding writes_def by metis
  then have "net st2 = (net st)(sock sp := (net st (sock sp))\<lparr>tx := t2, sent := d2\<rparr>)" by simp
  then show ?thesis using a b unfolding writes_def by (intro conjI exI[of _ t2] exI[of _ d2]) simp_all
qed

lemma put_writes:
  assumes at: "sock_at st sid sp" and q: "queues_ok sp'" and s: "sock sp' = sock sp" "inBuf sp' = inBuf sp" "lineBuf sp' = lineBuf sp"
    "stream_socket sp' = stream_socket sp" "has_flag sp' SOCKET_BLOCK = has_flag sp SOCKET_BLOCK" "buflen (outBuf sp') = buflen (outBuf sp)"
  shows "writes st sid sp (set_net (put_socket st sid sp') (sock sp) ((net st (sock sp))\<lparr>tx := ts, sent := d\<rparr>)) sp'"
  unfolding writes_def using put_socket_at[OF at q] s by (intro conjI exI[of _ ts] exI[of _ d]) simp_all

lemma conn_tx_sent [simp]: "k\<lparr>tx := tx k, sent := sent k\<rparr> = k" "nonblock (k\<lparr>tx := ts, sent := d\<rparr>) = nonblock k"
  by simp_all

lemma set_net_same [simp]: "set_net st fd (net st fd) = st"
  by (simp add: set_net_def)

lemma put_socket_same: "sock_at st sid sp \<Longrightarrow> put_socket st sid sp = st"
proof -
  assume "sock_at st sid sp"
  then obtain mp where mp: "socketList st = Some mp" "slots mp ! nat sid = Some sp"
    by (auto simp: sock_at_def h_get_def split: option.splits if_splits)
  then have "(slots mp)[nat sid := Some sp] = slots mp" using list_update_id[of "slots mp" "nat sid"] by simp
  then show ?thesis using mp(1) by (simp add: put_socket_def h_store_def)
qed

lemma put_only_writes:
  assumes "sock_at st sid sp" "queues_ok sp'" "sock sp' = sock sp" "inBuf sp' = inBuf sp" "lineBuf sp' = lineBuf sp"
    "stream_socket sp' = stream_socket sp" "has_flag sp' SOCKET_BLOCK = has_flag sp SOCKET_BLOCK" "buflen (outBuf sp') = buflen (outBuf sp)"
  shows "writes st sid sp (put_socket st sid sp') sp'"
proof -
  have "set_net (put_socket st sid sp') (sock sp) (net st (sock sp)) = put_socket st sid sp'" by (simp add: set_net_def put_socket_def)
  then show ?thesis using put_writes[OF assms, where ts = "tx (net st (sock sp))" and d = "sent (net st (sock sp))"] by simp
qed

lemma flush_flags: "stream_socket (sp\<lparr>sflags := sflags sp AND NOT SOCKET_FLUSHING\<rparr>) = stream_socket sp"
  "has_flag (sp\<lparr>sflags := sflags sp AND NOT SOCKET_FLUSHING\<rparr>) SOCKET_BLOCK = has_flag sp SOCKET_BLOCK"
  "stream_socket (sp\<lparr>sflags := sflags sp OR SOCKET_FLUSHING\<rparr>) = stream_socket sp"
  "has_flag (sp\<lparr>sflags := sflags sp OR SOCKET_FLUSHING\<rparr>) SOCKET_BLOCK = has_flag sp SOCKET_BLOCK"
proof -
  have "(f AND NOT 0x10) AND b = f AND b" "(f OR 0x10) AND b = f AND b" if "b \<in> {4, 0x20, 0x80}" for f b :: int
  proof -
    have n: "b AND 0x10 = 0" using that by auto
    have z: "bit b 4 = False" using that by auto
    have s16: "bit (0x10 :: int) i \<longleftrightarrow> i = 4" for i using bit_exp_iff[of 4 i, where 'a = int] by simp
    show "(f AND NOT 0x10) AND b = f AND b" by (rule bit_eqI) (use z s16 in \<open>auto simp: bit_simps\<close>)
    show "(f OR 0x10) AND b = f AND b" by (rule bit_eqI) (use z s16 in \<open>auto simp: bit_simps\<close>)
  qed
  then show "stream_socket (sp\<lparr>sflags := sflags sp AND NOT SOCKET_FLUSHING\<rparr>) = stream_socket sp"
    "has_flag (sp\<lparr>sflags := sflags sp AND NOT SOCKET_FLUSHING\<rparr>) SOCKET_BLOCK = has_flag sp SOCKET_BLOCK"
    "stream_socket (sp\<lparr>sflags := sflags sp OR SOCKET_FLUSHING\<rparr>) = stream_socket sp"
    "has_flag (sp\<lparr>sflags := sflags sp OR SOCKET_FLUSHING\<rparr>) SOCKET_BLOCK = has_flag sp SOCKET_BLOCK"
    by (simp_all add: stream_socket_def has_flag_def SOCKET_FLUSHING_def SOCKET_BLOCK_def SOCKET_BROADCAST_def SOCKET_DATAGRAM_def)
qed

lemma ringqPutBlk_fits:
  assumes i: "rq_inv rq" and l: "int (length src) \<le> ringqPutBlkMax rq"
  shows "\<exists>q. ringqPutBlk m rq src = Some (q, int (length src)) \<and> rq_inv q \<and> rq_data q = rq_data rq @ src \<and> buflen q = buflen rq"
proof (cases "src = []")
  case True
  then show ?thesis using i by (simp add: ringqPutBlk_def numeral_eq_Suc)
next
  case False
  obtain q where "ringq_copy_in rq src (int (length src)) = Some q" "rq_inv q" "rq_data q = rq_data rq @ src" "rq_same_shape rq q"
    using ringq_copy_in_spec[OF i, of "int (length src)" src] l by auto
  then show ?thesis using False l by (simp add: ringqPutBlk_def numeral_eq_Suc rq_same_shape_def Let_def)
qed

text \<open>One \<^verbatim>\<open>send\<close> of the front of the output queue.\<close>

lemma do_output_spec:
  assumes at: "sock_at st sid sp" and s: "stream_socket sp" and k: "nonblock (net st (sock sp))" and d: "d \<noteq> []"
  shows "\<exists>ts n e. socketDoOutput st sp d = Some (set_net st (sock sp) ((net st (sock sp))\<lparr>tx := ts, sent := sent (net st (sock sp)) @ take (nat n) d\<rparr>), n, e) \<and>
     n \<le> int (length d) \<and> n \<noteq> 0 \<and> -1 \<le> n \<and> (n < 0 \<and> e = EWOULDBLOCK \<or> length ts < length (tx (net st (sock sp))))"
proof (cases "tx (net st (sock sp))")
  case Nil
  then have e: "(net st (sock sp))\<lparr>tx := []\<rparr> = net st (sock sp)" by (cases "net st (sock sp)") simp
  have "set_net st (sock sp) ((net st (sock sp))\<lparr>tx := []\<rparr>) = st" unfolding e by simp
  then show ?thesis using Nil s k
    apply -
    apply (rule exI[of _ "[]"], rule exI[of _ "-1"], rule exI[of _ EWOULDBLOCK])
    by (simp add: socketDoOutput_def c_send_def stream_socket_def)
next
  case (Cons ev es)
  show ?thesis
  proof (cases ev)
    case (SendErr e)
    have "(net st (sock sp))\<lparr>tx := es, sent := sent (net st (sock sp))\<rparr> = (net st (sock sp))\<lparr>tx := es\<rparr>" by (cases "net st (sock sp)") simp
    then show ?thesis using Cons s SendErr
      apply -
      apply (rule exI[of _ es], rule exI[of _ "-1"], rule exI[of _ e])
      by (simp add: socketDoOutput_def c_send_def stream_socket_def)
  next
    case (Takes j)
    show ?thesis
    proof (cases "j = 0")
      case True
      then show ?thesis using Cons Takes s d
        apply -
        apply (rule exI[of _ es], rule exI[of _ "-1"], rule exI[of _ EWOULDBLOCK])
        by (simp add: socketDoOutput_def c_send_def stream_socket_def)
    next
      case False
      moreover have "take (min j (length d)) d = take j d" by (simp add: min_def)
      ultimately show ?thesis using Cons Takes s d
        apply -
        apply (rule exI[of _ es], rule exI[of _ "int (min j (length d))"], rule exI[of _ 0])
        by (simp add: socketDoOutput_def c_send_def stream_socket_def min.commute Let_def)
    qed
  qed
qed

lemma queues_ok_out: "queues_ok sp \<Longrightarrow> rq_inv q \<Longrightarrow> queues_ok (sp\<lparr>outBuf := q\<rparr>)"
  by (simp add: queues_ok_def)

lemma queues_ok_same [simp]: "queues_ok (sp\<lparr>sflags := f\<rparr>) = queues_ok sp" "queues_ok (sp\<lparr>saveMask := s\<rparr>) = queues_ok sp" "queues_ok (sp\<lparr>handlerMask := mk\<rparr>) = queues_ok sp"
  "stream_socket (sp\<lparr>outBuf := q\<rparr>) = stream_socket sp" "has_flag (sp\<lparr>outBuf := q\<rparr>) f = has_flag sp f"
  by (simp_all add: queues_ok_def socketRegisterInterest_def stream_socket_def has_flag_def)

lemma flush_loop_spec:
  "sock_at st sid sp \<Longrightarrow> stream_socket sp \<Longrightarrow> nonblock (net st (sock sp)) \<Longrightarrow>
     \<exists>st' sp' rc. flush_loop st sid = Some (st', rc) \<and> writes st sid sp st' sp' \<and> outgoing st' sp' = outgoing st sp \<and> (rc = 0 \<or> rc = -1)"
proof (induction "length (tx (net st (sock sp)))" arbitrary: st sp rule: less_induct)
  case less
  note at = less.prems(1)
  let ?q = "outBuf sp"
  have i: "rq_inv ?q" using at by (simp add: sock_at_def queues_ok_def)
  have len: "ringqLen ?q = int (length (rq_data ?q))" by (rule ringqLen_data[OF i])
  show ?case
  proof (cases "rq_data ?q = []")
    case True
    obtain q where q: "ringqFlush ?q = Some q" "rq_inv q" "rq_data q = []" "rq_same_shape ?q q" using ringqFlush_spec[OF i] by blast
    define sp1 where "sp1 = (if saveMask sp \<ge> 0 then (socketRegisterInterest sp (saveMask sp))\<lparr>saveMask := -1\<rparr> else sp)"
    define sp2 where "sp2 = sp1\<lparr>outBuf := q, sflags := sflags sp AND NOT SOCKET_FLUSHING\<rparr>"
    have f: "flush_loop st sid = Some (put_socket st sid sp2, 0)"
      using sock_at_get(1)[OF at] True len q(1) by (subst flush_loop.simps) (simp add: sp2_def sp1_def)
    have s1: "sock sp1 = sock sp" "inBuf sp1 = inBuf sp" "lineBuf sp1 = lineBuf sp" "sflags sp1 = sflags sp" "queues_ok sp1"
      using sock_at_get(2)[OF at] by (simp_all add: sp1_def socketRegisterInterest_def)
    have "writes st sid sp (put_socket st sid sp2) sp2"
      by (rule put_only_writes[OF at])
        (use s1 q flush_flags(1,2)[of sp] queues_ok_out[OF s1(5) q(2)] in
          \<open>simp_all add: sp2_def stream_socket_def has_flag_def rq_same_shape_def\<close>)
    moreover have "outgoing (put_socket st sid sp2) sp2 = outgoing st sp"
      using True q(3) s1(1) by (simp add: outgoing_def sp2_def put_socket_def)
    ultimately show ?thesis using f by blast
  next
    case False
    let ?n = "ringqGetBlkMax ?q"
    have n: "0 < ?n" "?n \<le> int (length (rq_data ?q))"
      using ringqGetBlkMax_pos[OF i] False RINGQ_LEN_data[OF i] by (auto simp: ringqGetBlkMax_def Let_def)
    obtain rq' where "ringq_copy_out ?q ?n = Some (rq', take (nat ?n) (rq_data ?q))" using ringq_copy_out_spec[OF i, of ?n] n by auto
    then have d: "mem_slice (buf ?q) (servp ?q) ?n = Some (take (nat ?n) (rq_data ?q))" by (auto simp: ringq_copy_out_def Let_def bind_eq_Some_conv)
    let ?d = "take (nat ?n) (rq_data ?q)"
    have dne: "?d \<noteq> []" using n False by auto
    obtain ts k e where o: "socketDoOutput st sp ?d = Some (set_net st (sock sp) ((net st (sock sp))\<lparr>tx := ts, sent := sent (net st (sock sp)) @ take (nat k) ?d\<rparr>), k, e)"
       "k \<le> int (length ?d)" "k \<noteq> 0" "-1 \<le> k" "k < 0 \<and> e = EWOULDBLOCK \<or> length ts < length (tx (net st (sock sp)))"
      using do_output_spec[OF at less.prems(2,3) dne] by blast
    define st1 where "st1 = set_net st (sock sp) ((net st (sock sp))\<lparr>tx := ts, sent := sent (net st (sock sp)) @ take (nat k) ?d\<rparr>)"
    have step: "flush_loop st sid = (if k < 0 then
         (if e = EINTR then flush_loop st1 sid
          else if e = EWOULDBLOCK then
            Some (if saveMask sp < 0 then put_socket st1 sid (socketRegisterInterest (sp\<lparr>saveMask := handlerMask sp\<rparr>) (handlerMask sp OR SOCKET_WRITABLE)) else st1, 0)
          else Some (st1, -1))
       else do { q \<leftarrow> ringqGetBlkAdj ?q k; flush_loop (put_socket st1 sid (sp\<lparr>outBuf := q\<rparr>)) sid })"
      using sock_at_get(1)[OF at] False len d o(1) by (subst flush_loop.simps) (simp add: st1_def)
    have w1: "writes st sid sp st1 sp" and st1: "st1 = set_net (put_socket st sid sp) (sock sp) ((net st (sock sp))\<lparr>tx := ts, sent := sent (net st (sock sp)) @ take (nat k) ?d\<rparr>)"
      using put_writes[OF at sock_at_get(2)[OF at]] by (simp_all add: st1_def put_socket_same[OF at])
    have at1: "sock_at st1 sid sp" using at by (simp add: st1_def)
    have nb: "nonblock (net st1 (sock sp))" using less.prems(3) by (simp add: st1_def)
    show ?thesis
    proof (cases "k < 0")
      case neg: True
      then have out1: "outgoing st1 sp = outgoing st sp" by (simp add: outgoing_def st1_def)
      show ?thesis
      proof (cases "e = EINTR")
        case True
        then have "length (tx (net st1 (sock sp))) < length (tx (net st (sock sp)))" using o(5) by (simp add: st1_def EINTR_def EWOULDBLOCK_def)
        then show ?thesis using less.hyps[OF _ at1 less.prems(2) nb] step neg True out1 writes_trans[OF w1] by simp metis
      next
        case ne: False
        show ?thesis
        proof (cases "e = EWOULDBLOCK \<and> saveMask sp < 0")
          case True
          let ?sp = "socketRegisterInterest (sp\<lparr>saveMask := handlerMask sp\<rparr>) (handlerMask sp OR SOCKET_WRITABLE)"
          have f: "flush_loop st sid = Some (put_socket st1 sid ?sp, 0)" using step neg ne True by simp
          have "writes st1 sid sp (put_socket st1 sid ?sp) ?sp"
            by (rule put_only_writes[OF at1]) (use sock_at_get(2)[OF at] in \<open>simp_all add: socketRegisterInterest_def queues_ok_def stream_socket_def has_flag_def\<close>)
          moreover have "outgoing (put_socket st1 sid ?sp) ?sp = outgoing st sp"
            using out1 by (simp add: outgoing_def put_socket_def socketRegisterInterest_def)
          ultimately show ?thesis using f writes_trans[OF w1] by blast
        next
          case False
          then show ?thesis using step neg ne out1 w1 by auto
        qed
      qed
    next
      case pos: False
      have kk: "0 \<le> k" "k \<le> int (length (rq_data ?q))" using pos o(2) by auto
      obtain q where q: "ringqGetBlkAdj ?q k = Some q" "rq_inv q" "rq_data q = drop (nat k) (rq_data ?q)" "buflen q = buflen ?q"
        using ringqGetBlkAdj_spec[OF i kk] i by (auto simp: rq_inv_def)
      let ?st = "put_socket st1 sid (sp\<lparr>outBuf := q\<rparr>)" and ?sp = "sp\<lparr>outBuf := q\<rparr>"
      have w: "writes st1 sid sp ?st ?sp"
        by (rule put_only_writes[OF at1]) (use sock_at_get(2)[OF at] q in \<open>simp_all add: queues_ok_out\<close>)
      have nt: "net ?st = net st1" by (simp add: put_socket_def)
      have "nat k \<le> nat ?n" using o(2) by simp
      then have "take (nat k) ?d = take (nat k) (rq_data ?q)" by (simp add: min_absorb1)
      then have out: "outgoing ?st ?sp = outgoing st sp" using q(3) nt by (simp add: outgoing_def st1_def)
      have "\<exists>st' sp' rc. flush_loop ?st sid = Some (st', rc) \<and> writes ?st sid ?sp st' sp' \<and> outgoing st' sp' = outgoing ?st ?sp \<and> (rc = 0 \<or> rc = -1)"
        by (rule less.hyps) (use o(5) pos nt w nb less.prems(2) in \<open>simp_all add: st1_def writes_def\<close>)
      then show ?thesis using step pos q(1) out writes_trans[OF w1 writes_trans[OF w]] by simp metis
    qed
  qed
qed

lemma socketFlush_spec:
  assumes at: "sock_at st sid sp" and s: "stream_socket sp" and k: "nonblock (net st (sock sp))"
  shows "\<exists>st' sp' rc. socketFlush st sid = Some (st', rc) \<and> writes st sid sp st' sp' \<and> outgoing st' sp' = outgoing st sp \<and> (rc = 0 \<or> rc = -1)"
proof (cases "has_flag sp SOCKET_BLOCK")
  case True
  then show ?thesis using flush_loop_spec[OF assms] socketPtr_at[OF at] by (simp add: socketFlush_def)
next
  case False
  let ?sp = "sp\<lparr>sflags := sflags sp OR SOCKET_FLUSHING\<rparr>"
  have w: "writes st sid sp (put_socket st sid ?sp) ?sp"
    by (rule put_only_writes[OF at]) (use sock_at_get(2)[OF at] flush_flags(3,4)[of sp] in simp_all)
  have n: "net (put_socket st sid ?sp) = net st" "outgoing (put_socket st sid ?sp) ?sp = outgoing st sp" by (simp_all add: put_socket_def outgoing_def)
  have at1: "sock_at (put_socket st sid ?sp) sid ?sp" using w by (simp add: writes_def)
  obtain st' sp' rc where "flush_loop (put_socket st sid ?sp) sid = Some (st', rc)" "writes (put_socket st sid ?sp) sid ?sp st' sp'"
     "outgoing st' sp' = outgoing st sp" "rc = 0 \<or> rc = -1"
    using flush_loop_spec[OF at1] s k flush_flags(3)[of sp] n by auto
  then show ?thesis using False socketPtr_at[OF at] writes_trans[OF w] by (auto simp: socketFlush_def)
qed

lemma put_block_writes:
  assumes at: "sock_at st sid sp" and l: "int (length d) \<le> ringqPutBlkMax (outBuf sp)"
  shows "\<exists>q. ringqPutBlk m (outBuf sp) d = Some (q, int (length d)) \<and> writes st sid sp (put_socket st sid (sp\<lparr>outBuf := q\<rparr>)) (sp\<lparr>outBuf := q\<rparr>) \<and>
     outgoing (put_socket st sid (sp\<lparr>outBuf := q\<rparr>)) (sp\<lparr>outBuf := q\<rparr>) = outgoing st sp @ d"
proof -
  have i: "rq_inv (outBuf sp)" using at by (simp add: sock_at_def queues_ok_def)
  obtain q where q: "ringqPutBlk m (outBuf sp) d = Some (q, int (length d))" "rq_inv q" "rq_data q = rq_data (outBuf sp) @ d" "buflen q = buflen (outBuf sp)"
    using ringqPutBlk_fits[OF i l, of m] by blast
  have "writes st sid sp (put_socket st sid (sp\<lparr>outBuf := q\<rparr>)) (sp\<lparr>outBuf := q\<rparr>)"
    by (rule put_only_writes[OF at]) (use sock_at_get(2)[OF at] q in \<open>simp_all add: queues_ok_out\<close>)
  then show ?thesis using q by (auto simp: outgoing_def put_socket_def)
qed

lemma writes_keeps:
  assumes "writes st sid sp st' sp'"
  shows "sock_at st' sid sp'" "sock sp' = sock sp" "stream_socket sp' = stream_socket sp" "has_flag sp' SOCKET_BLOCK = has_flag sp SOCKET_BLOCK"
    "nonblock (net st' (sock sp')) = nonblock (net st (sock sp))" "buflen (outBuf sp') = buflen (outBuf sp)"
  using assms by (auto simp: writes_def)

lemma write_loop_spec:
  "sock_at st sid sp \<Longrightarrow> stream_socket sp \<Longrightarrow> nonblock (net st (sock sp)) \<Longrightarrow> \<not> has_flag sp SOCKET_BLOCK \<Longrightarrow>
     \<exists>st' sp' rc n. write_loop m st sid d w = Some (st', rc) \<and> writes st sid sp st' sp' \<and> n \<le> length d \<and> outgoing st' sp' = outgoing st sp @ take n d \<and>
       (rc = -1 \<or> rc = w + int n)"
proof (induction "length d" arbitrary: st sp d w rule: less_induct)
  case less
  note at = less.prems(1)
  show ?case
  proof (cases "d = []")
    case True
    then show ?thesis using writes_trans[OF put_only_writes[OF at sock_at_get(2)[OF at]]] put_only_writes[OF at sock_at_get(2)[OF at]] put_socket_same[OF at]
      by (subst write_loop.simps) auto
  next
    case False
    have put: "\<exists>st' sp' rc n. write_loop m st1 sid d w = Some (st', rc) \<and> writes st1 sid sp1 st' sp' \<and> n \<le> length d \<and>
        outgoing st' sp' = outgoing st1 sp1 @ take n d \<and> (rc = -1 \<or> rc = w + int n)"
      if at1: "sock_at st1 sid sp1" "stream_socket sp1" "nonblock (net st1 (sock sp1))" "\<not> has_flag sp1 SOCKET_BLOCK" and room: "0 < ringqPutBlkMax (outBuf sp1)" for st1 sp1
    proof -
      let ?l = "min (nat (ringqPutBlkMax (outBuf sp1))) (length d)"
      have l: "min (ringqPutBlkMax (outBuf sp1)) (int (length d)) = int ?l" "0 < ?l" using room False by auto
      have "int (length (take ?l d)) \<le> ringqPutBlkMax (outBuf sp1)" using room by auto
      then obtain q where q: "ringqPutBlk m (outBuf sp1) (take ?l d) = Some (q, int (length (take ?l d)))"
         "writes st1 sid sp1 (put_socket st1 sid (sp1\<lparr>outBuf := q\<rparr>)) (sp1\<lparr>outBuf := q\<rparr>)"
         "outgoing (put_socket st1 sid (sp1\<lparr>outBuf := q\<rparr>)) (sp1\<lparr>outBuf := q\<rparr>) = outgoing st1 sp1 @ take ?l d"
        using put_block_writes[OF at1(1), of "take ?l d" m] by blast
      let ?st = "put_socket st1 sid (sp1\<lparr>outBuf := q\<rparr>)" and ?sp = "sp1\<lparr>outBuf := q\<rparr>"
      have "length (drop ?l d) < length d" using l(2) False by simp
      then obtain st' sp' rc n where r: "write_loop m ?st sid (drop ?l d) (w + int ?l) = Some (st', rc)" "writes ?st sid ?sp st' sp'" "n \<le> length (drop ?l d)"
         "outgoing st' sp' = outgoing ?st ?sp @ take n (drop ?l d)" "rc = -1 \<or> rc = w + int ?l + int n"
        using less.hyps[of "drop ?l d" ?st ?sp "w + int ?l"] writes_keeps[OF q(2)] at1 by auto
      have "write_loop m st1 sid d w = write_loop m ?st sid (drop ?l d) (w + int ?l)"
        using False sock_at_get(1)[OF at1(1)] room l q(1) by (subst write_loop.simps) (simp add: Let_def)
      moreover have "outgoing st' sp' = outgoing st1 sp1 @ take (?l + n) d" using r(4) q(3) by (simp add: take_add)
      moreover have "?l + n \<le> length d" using r(3) by auto
      ultimately show ?thesis using r(1,5) writes_trans[OF q(2) r(2)]
        by (intro exI[of _ st'] exI[of _ sp'] exI[of _ rc] exI[of _ "?l + n"]) auto
    qed
    have i: "rq_inv (outBuf sp)" using at by (simp add: sock_at_def queues_ok_def)
    show ?thesis
    proof (cases "ringqPutBlkMax (outBuf sp) = 0")
      case nz: False
      then have "0 < ringqPutBlkMax (outBuf sp)" using rq_data_less[OF i] i by (auto simp: ringqPutBlkMax_def RINGQ_LEN_data rq_inv_def Let_def min_def split: if_splits)
      then show ?thesis by (rule put[OF less.prems])
    next
      case True
      obtain st1 sp1 rc where f: "socketFlush st sid = Some (st1, rc)" "writes st sid sp st1 sp1" "outgoing st1 sp1 = outgoing st sp" "rc = 0 \<or> rc = -1"
        using socketFlush_spec[OF less.prems(1-3)] by blast
      note k = writes_keeps[OF f(2)]
      have i1: "rq_inv (outBuf sp1)" using k(1) by (simp add: sock_at_def queues_ok_def)
      have step: "write_loop m st sid d w = (if rc < 0 then Some (st1, -1)
          else if ringqPutBlkMax (outBuf sp1) = 0 \<and> \<not> has_flag sp1 SOCKET_BLOCK then Some (st1, w) else write_loop m st1 sid d w)"
        using False sock_at_get(1)[OF at] True f(1) sock_at_get(1)[OF k(1)] by (subst write_loop.simps) simp
      show ?thesis
      proof (cases "rc < 0 \<or> ringqPutBlkMax (outBuf sp1) = 0")
        case True
        then show ?thesis using step f k(4) less.prems(4) by (intro exI[of _ st1] exI[of _ sp1] exI[of _ "if rc < 0 then -1 else w"] exI[of _ 0]) auto
      next
        case ok: False
        then have "0 < ringqPutBlkMax (outBuf sp1)" using rq_data_less[OF i1] i1 by (auto simp: ringqPutBlkMax_def RINGQ_LEN_data rq_inv_def Let_def min_def split: if_splits)
        then show ?thesis using put[OF k(1)] k less.prems step ok f(3) writes_trans[OF f(2)] by simp blast
      qed
    qed
  qed
qed

section \<open>Properties\<close>


text \<open>A socket on a connection with given arrivals, its three queues empty.\<close>

definition empty_queue :: ringq where
  "empty_queue = \<lparr>buf = replicate 16 CHR 0x00, servp = 0, endp = 0, endbuf = 16, buflen = 16, maxsize = -1, increment = 4096\<rparr>"

definition demo_socket :: socket_t where
  "demo_socket = zero_socket\<lparr>inBuf := empty_queue, outBuf := empty_queue, lineBuf := empty_queue, sock := 5, saveMask := -1\<rparr>"

definition demo_net :: "net_event list \<Rightarrow> send_event list \<Rightarrow> sock_state" where
  "demo_net es ts = \<lparr>socketList = Some \<lparr>H_LEN = 16, H_USED = 1, slots = Some demo_socket # replicate 15 None\<rparr>, socketMax = 1, socketHighestFd = 5, socketOpenCount = 1,
     net = (\<lambda>_. \<lparr>rx = es, tx = ts, sent = [], dgrams = [], nonblock = True, fin = False, closed = False\<rparr>)\<rparr>"

lemma empty_queue_ok: "rq_inv empty_queue" "rq_data empty_queue = []" "buflen empty_queue = 16" "servp empty_queue = 0" "endp empty_queue = 0"
  by (auto simp: rq_inv_def empty_queue_def rq_data_def intro!: bexI[of _ 12])

lemma ample_256M: "ample heap_256M"
proof -
  have "n \<le> 2 ^ 16 \<Longrightarrow> n \<le> 2 ^ 28" for n :: int by simp
  then show ?thesis by (simp add: ample_def small_heap_256M) (simp add: heap_256M_def)
qed

lemma demo_at: "sock_at (demo_net es ts) 0 demo_socket"
  using empty_queue_ok by (simp add: sock_at_def demo_net_def h_inv_def h_ok_def h_count_def H_INCR_def h_get_def queues_ok_def demo_socket_def)

lemma demo_ready: "Data [] \<notin> set es \<Longrightarrow> sock_ready heap_256M (demo_net es ts) 0 demo_socket"
  using demo_at[of es ts]
  by (simp add: sock_ready_def plain_def has_flag_def demo_socket_def zero_socket_def conn_ok_def demo_net_def line_room_def empty_queue_def E_MAX_REQUEST_def heap_256M_def)

lemma demo_pending: "pending (demo_net es ts) demo_socket = avail es"
  using empty_queue_ok by (simp add: pending_def demo_net_def demo_socket_def)




end
