(* ===== verification/Crypt.thy ===== *)
theory Crypt
  imports Fmt
begin

unbundle bit_operations_syntax

text \<open>
  The obfuscation of tokens and passwords in \<^verbatim>\<open>webs_define.c\<close>: \<^verbatim>\<open>jrd_encrypt\<close> spreads a character over
  the low halves of two, masked with a fixed key, and \<^verbatim>\<open>jrd_decrypt\<close> puts it together again.
\<close>

definition jrd_key :: cstring where "jrd_key = ''e5dl12XYVggihggafXWf0f2YSf2Xngd1''"

text \<open>The key character for a position, as an \<^verbatim>\<open>int\<close>.\<close>

definition key_at :: "bool \<Rightarrow> nat \<Rightarrow> int" where
  "key_at sc i = c_char sc (jrd_key ! (i mod length jrd_key))"

definition enc_low :: "bool \<Rightarrow> nat \<Rightarrow> char \<Rightarrow> char" where
  "enc_low sc i c = to_char ((key_at sc i AND 0xF0) OR ((c_char sc c AND 0xF) XOR (key_at sc i AND 0xF)))"

definition enc_high :: "bool \<Rightarrow> nat \<Rightarrow> char \<Rightarrow> char" where
  "enc_high sc i c = to_char ((key_at sc i AND 0xF0) OR (drop_bit 4 (c_char sc c) XOR (key_at sc i AND 0xF)))"

fun encrypt_loop :: "bool \<Rightarrow> nat \<Rightarrow> cstring \<Rightarrow> byte list" where
  "encrypt_loop sc i [] = []"
| "encrypt_loop sc i (c # s) = enc_low sc i c # enc_high sc i c # encrypt_loop sc (Suc i) s"

text \<open>\<open>ok\<close> says whether \<^verbatim>\<open>malloc\<close> succeeds; its result is not tested. The block ends in two NULs.\<close>

definition jrd_encrypt :: "bool \<Rightarrow> bool \<Rightarrow> cstring \<Rightarrow> byte list option" where
  "jrd_encrypt sc ok source = (if ok then Some (encrypt_loop sc 0 source @ replicate 2 CHR 0x00) else None)"

definition dec_char :: "bool \<Rightarrow> nat \<Rightarrow> char \<Rightarrow> char \<Rightarrow> char" where
  "dec_char sc i c0 c1 = to_char (push_bit 4 (c_char sc c1 XOR key_at sc i) OR ((c_char sc c0 XOR key_at sc i) AND 0xF))"

text \<open>The loop takes two characters at a time, the terminating NUL for the second of an odd last one.\<close>

fun decrypt_loop :: "bool \<Rightarrow> nat \<Rightarrow> cstring \<Rightarrow> byte list" where
  "decrypt_loop sc i [] = []"
| "decrypt_loop sc i [c] = [dec_char sc i c CHR 0x00]"
| "decrypt_loop sc i (c0 # c1 # s) = dec_char sc i c0 c1 # decrypt_loop sc (Suc i) s"

definition jrd_decrypt :: "bool \<Rightarrow> bool \<Rightarrow> cstring option \<Rightarrow> byte list option option" where
  "jrd_decrypt sc ok source =
     (case source of None \<Rightarrow> Some None
      | Some s \<Rightarrow> if ok then let d = decrypt_loop sc 0 s in Some (Some (d @ replicate (length s + 1 - length d) CHR 0x00)) else None)"

section \<open>Bits of characters\<close>

lemma bit_15_240: "bit (0xF :: int) n \<longleftrightarrow> n < 4" "bit (0xF0 :: int) n \<longleftrightarrow> 4 \<le> n \<and> n < 8"
proof -
  have a: "(0xF :: int) = mask 4" by (simp add: mask_eq_exp_minus_1)
  show "bit (0xF :: int) n \<longleftrightarrow> n < 4" unfolding a by (simp only: bit_mask_iff) simp
  have b: "(0xF0 :: int) = push_bit 4 (mask 4)" by (simp add: mask_eq_exp_minus_1 push_bit_eq_mult)
  show "bit (0xF0 :: int) n \<longleftrightarrow> 4 \<le> n \<and> n < 8" unfolding b by (simp only: bit_push_bit_iff bit_mask_iff) auto
qed

lemma bit_c_char: "n < 8 \<Longrightarrow> bit (c_char sc c) n = bit (c_uchar c) n"
proof -
  assume n: "n < 8"
  have "take_bit 8 (c_char sc c) = take_bit 8 (c_uchar c)"
    using of_char_bounds[of c] by (auto simp: c_char_def c_uchar_def Let_def take_bit_eq_mod)
  then show ?thesis using n by (metis bit_take_bit_iff)
qed

lemma bit_to_char: "n < 8 \<Longrightarrow> bit (c_uchar (to_char v)) n = bit v n"
proof -
  assume n: "n < 8"
  have "c_uchar (to_char v) = take_bit 8 v" by (simp add: take_bit_eq_mod)
  then show ?thesis using n by (simp add: bit_take_bit_iff)
qed

lemma to_char_eqI: "(\<And>n. n < 8 \<Longrightarrow> bit v n = bit (c_uchar c) n) \<Longrightarrow> to_char v = c"
proof -
  assume "\<And>n. n < 8 \<Longrightarrow> bit v n = bit (c_uchar c) n"
  then have "take_bit 8 v = take_bit 8 (c_uchar c)" by (intro bit_eqI) (auto simp: bit_take_bit_iff)
  then have "v mod 256 = c_uchar c mod 256" by (simp add: take_bit_eq_mod)
  then have "to_char v = to_char (c_uchar c)" by (simp add: to_char_def)
  then show ?thesis by simp
qed

lemma dec_enc_char: "dec_char sc i (enc_low sc i c) (enc_high sc i c) = c"
  unfolding dec_char_def
proof (rule to_char_eqI)
  fix n :: nat
  assume n: "n < 8"
  show "bit (push_bit 4 (c_char sc (enc_high sc i c) XOR key_at sc i) OR ((c_char sc (enc_low sc i c) XOR key_at sc i) AND 0xF)) n = bit (c_uchar c) n"
  proof (cases "n < 4")
    case True
    then show ?thesis
      by (auto simp: bit_or_iff bit_and_iff bit_xor_iff bit_push_bit_iff bit_15_240 bit_c_char bit_to_char enc_low_def simp del: c_uchar_to_char)
  next
    case False
    then show ?thesis using n
      by (auto simp: bit_or_iff bit_and_iff bit_xor_iff bit_push_bit_iff bit_drop_bit_eq bit_15_240 bit_c_char bit_to_char enc_high_def simp del: c_uchar_to_char)
  qed
qed

text \<open>The key has no character below 16, so no encrypted character is NUL.\<close>

lemma enc_not_NUL: "enc_low sc i c \<noteq> CHR 0x00" "enc_high sc i c \<noteq> CHR 0x00"
proof -
  have "jrd_key ! (i mod length jrd_key) \<in> set jrd_key" by (rule nth_mem) (simp add: jrd_key_def)
  moreover have "\<forall>k \<in> set jrd_key. bit (c_uchar k) 5 \<or> bit (c_uchar k) 4 \<or> bit (c_uchar k) 6" by code_simp
  ultimately have "bit (key_at sc i) 5 \<or> bit (key_at sc i) 4 \<or> bit (key_at sc i) 6" by (simp add: key_at_def bit_c_char)
  then obtain n :: nat where n: "n \<in> {4, 5, 6}" "bit (key_at sc i) n" by blast
  then have b: "bit (c_uchar (enc_low sc i c)) n" "bit (c_uchar (enc_high sc i c)) n"
    by (auto simp: enc_low_def enc_high_def bit_to_char bit_or_iff bit_and_iff bit_15_240 simp del: c_uchar_to_char)
  have "\<not> bit (c_uchar CHR 0x00) n" by (simp add: c_uchar_def)
  then show "enc_low sc i c \<noteq> CHR 0x00" "enc_high sc i c \<noteq> CHR 0x00" using b by metis+
qed

lemma encrypt_loop_clean: "CHR 0x00 \<notin> set (encrypt_loop sc i s)"
proof (induction sc i s rule: encrypt_loop.induct)
  case (2 sc i c s)
  then show ?case using enc_not_NUL[of sc i c] by (metis encrypt_loop.simps(2) set_ConsD)
qed simp

lemma decrypt_encrypt_loop: "decrypt_loop sc i (encrypt_loop sc i s) = s"
  by (induction sc i s rule: encrypt_loop.induct) (simp_all add: dec_enc_char)

text \<open>
  C21. \<^verbatim>\<open>jrd_decrypt\<close> undoes \<^verbatim>\<open>jrd_encrypt\<close>: for every string, with plain \<^verbatim>\<open>char\<close> signed or unsigned, the
  encrypted block is a string of twice the length, and decrypting that string gives the original back.
\<close>

theorem jrd_decrypt_encrypt:
  assumes "CHR 0x00 \<notin> set s"
  shows "\<exists>e d. jrd_encrypt sc True s = Some e \<and> length (c_str e) = 2 * length s \<and> jrd_decrypt sc True (Some (c_str e)) = Some (Some d) \<and> c_str d = s"
proof -
  let ?e = "encrypt_loop sc 0 s"
  have e: "c_str (?e @ replicate 2 CHR 0x00) = ?e" using c_str_NUL[OF encrypt_loop_clean] by (simp add: numeral_eq_Suc)
  have l: "length (encrypt_loop sc i s) = 2 * length s" for i by (induction sc i s rule: encrypt_loop.induct) auto
  have "c_str (s @ replicate (Suc n) CHR 0x00) = s" for n using c_str_NUL[OF assms] by simp
  then have "c_str (s @ replicate (length ?e + 1 - length s) CHR 0x00) = s" using l[of 0] by (metis Suc_diff_le Suc_eq_plus1 le_add2 mult_2)
  then show ?thesis using e l[of 0] by (simp add: jrd_encrypt_def jrd_decrypt_def decrypt_encrypt_loop Let_def)
qed

theorem jrd_decrypt_encrypt_witness:
  "\<exists>e d. jrd_encrypt True True ''admin'' = Some e \<and> length (c_str e) = 10 \<and> jrd_decrypt True True (Some (c_str e)) = Some (Some d) \<and> c_str d = ''admin''"
  using jrd_decrypt_encrypt[of "''admin''" True] by simp

end
