(* ===== verification/Parse.thy ===== *)
theory Parse
  imports Handlers Crypt Mime64 Emfdb
begin

text \<open>
  Parsing of a request in \<^verbatim>\<open>webs.c\<close>: \<^verbatim>\<open>websParseFirst\<close> for the request line and \<^verbatim>\<open>websParseRequest\<close> for
  the header, which it cuts up in place in the header queue's buffer, with the parsers of basic and
  digest credentials.
\<close>

section \<open>Flags\<close>

definition WEBS_POST_REQUEST :: int where "WEBS_POST_REQUEST = 0x20"
definition WEBS_ASP :: int where "WEBS_ASP = 0x100"
definition WEBS_HEAD_REQUEST :: int where "WEBS_HEAD_REQUEST = 0x200"
definition WEBS_CLEN :: int where "WEBS_CLEN = 0x400"
definition WEBS_CGI_REQUEST :: int where "WEBS_CGI_REQUEST = 0x4000"
definition WEBS_AUTH_BASIC :: int where "WEBS_AUTH_BASIC = 0x10000"
definition WEBS_AUTH_DIGEST :: int where "WEBS_AUTH_DIGEST = 0x20000"
definition WEBS_GET_REQUEST :: int where "WEBS_GET_REQUEST = 0x100000"
definition CGI_BIN :: cstring where "CGI_BIN = ''cgi-bin''"

definition set_flag :: "int \<Rightarrow> webs \<Rightarrow> webs" where
  "set_flag f wp = wp\<lparr>wflags := wflags wp OR f\<rparr>"

section \<open>The request line\<close>

text \<open>\<^verbatim>\<open>strtok\<close> on a string: the token and what follows the delimiter behind it.\<close>

definition c_strtok :: "char list \<Rightarrow> cstring \<Rightarrow> (cstring \<times> cstring) option" where
  "c_strtok ds s =
     (case dropWhile (\<lambda>c. c \<in> set ds) s of
        [] \<Rightarrow> None
      | r \<Rightarrow> Some (takeWhile (\<lambda>c. c \<notin> set ds) r, drop 1 (dropWhile (\<lambda>c. c \<notin> set ds) r)))"

text \<open>
  What the parser takes from its surroundings: the handle of the MIME types, the listen port, the
  setting \<^verbatim>\<open>webs_unconnected_redirect\<close>, the result of \<^verbatim>\<open>socketGetPort\<close> for the listening socket, and the
  name \<^verbatim>\<open>websGetCgiCommName\<close> makes up.
\<close>

record parse_env =
  websMime :: int
  websPort :: int
  unconnected_redirect :: int
  testPort :: int
  cgiCommName :: cstring

text \<open>The flags of a method; \<open>None\<close> for one that is not served.\<close>

definition method_flags :: "parse_env \<Rightarrow> cstring \<Rightarrow> int option" where
  "method_flags g op =
     (if op = ''GET'' then Some (if unconnected_redirect g = 1 then WEBS_GET_REQUEST else 0)
      else if op = ''POST'' then Some WEBS_POST_REQUEST
      else if op = ''HEAD'' then Some WEBS_HEAD_REQUEST
      else None)"

text \<open>The fields of the request from the parsed URL; \<open>u\<close> is the URL, \<open>p\<close> its path and so on.\<close>

definition first_record :: "parse_env \<Rightarrow> webs \<Rightarrow> cstring \<Rightarrow> cstring \<Rightarrow> cstring \<Rightarrow> cstring \<Rightarrow> cstring \<Rightarrow> cstring \<Rightarrow> int \<Rightarrow> cstring \<Rightarrow> webs" where
  "first_record g wp u q h p pr pv pn ext =
     (let cgi = c_has u CGI_BIN;
          wp1 = (if cgi then set_flag WEBS_CGI_REQUEST wp else wp);
          wp2 = (if cgi \<and> wflags wp AND WEBS_POST_REQUEST \<noteq> 0 then wp1\<lparr>cgiStdin := Some (cgiCommName g)\<rparr> else wp1);
          wp3 = wp2\<lparr>url := Some u, wquery := Some q, whost := Some h, wpath := Some p, wprotocol := Some pr, protoVersion := Some pv,
            postData := None, lenPostData := 0, wport := pn\<rparr>
      in if ext = ''.asp'' then set_flag WEBS_ASP wp3 else wp3)"

definition first_fields :: "balloc_env \<Rightarrow> bool \<Rightarrow> bool \<Rightarrow> parse_env \<Rightarrow> sym_state \<Rightarrow> webs \<Rightarrow> cstring \<Rightarrow> cstring option \<Rightarrow> url_fields \<Rightarrow> webs option" where
  "first_fields m sc dup g st wp u protoVer f = do {
     let rd = url_read (ubuf f);
     query \<leftarrow> rd (uquery f); host \<leftarrow> rd (uhost f); path \<leftarrow> rd (upath f); proto \<leftarrow> rd (uproto f); port \<leftarrow> rd (uport f); ext \<leftarrow> rd (uext f);
     u' \<leftarrow> bstrdup dup (Some u);
     q \<leftarrow> bstrdup dup (Some query); h \<leftarrow> bstrdup dup (Some host); p \<leftarrow> bstrdup dup (Some path); pr \<leftarrow> bstrdup dup (Some proto); pv \<leftarrow> bstrdup dup protoVer;
     pn \<leftarrow> (if testPort g \<ge> 0 then Some (testPort g) else c_atoi port);
     t \<leftarrow> websUrlType m sc st (websMime g) (websPort g) u (wtype wp) 64;
     hd \<leftarrow> ringqFlush (wheader wp);
     Some ((first_record g wp u' q h p pr pv pn ext)\<lparr>wtype := t, wheader := hd\<rparr>) }"

text \<open>The last component is the error answered, \<open>None\<close> for the result 0.\<close>

definition websParseFirst ::
    "balloc_env \<Rightarrow> bool \<Rightarrow> bool \<Rightarrow> bool \<Rightarrow> parse_env \<Rightarrow> sym_state \<Rightarrow> webs \<Rightarrow> cstring \<Rightarrow> (sym_state \<times> webs \<times> http_reply option) option" where
  "websParseFirst m sc ok dup g st wp text =
     (case c_strtok [CHR '' '', CHR 0x09] text of
        None \<Rightarrow> Some (st, wp, Some (WebsError 400 ''Bad HTTP request''))
      | Some (op, r1) \<Rightarrow>
          (case method_flags g op of
             None \<Rightarrow> Some (st, wp, Some (WebsError 400 ''Bad request type''))
           | Some fl \<Rightarrow> do {
               let wp1 = set_flag fl wp;
               st1 \<leftarrow> websSetVar sc ok dup st (cgiVars wp) ''REQUEST_METHOD'' (Some op);
               (case c_strtok [CHR '' '', CHR 0x09, CHR 0x0A] r1 of
                  None \<Rightarrow> Some (st1, wp1, Some (WebsError 400 ''Bad HTTP request''))
                | Some (u, r2) \<Rightarrow> do {
                    let protoVer = map_option fst (c_strtok [CHR '' '', CHR 0x09, CHR 0x0A] r2);
                    r \<leftarrow> websUrlParse m (websPort g) True u;
                    (case r of
                       None \<Rightarrow> Some (st1, wp1, Some (WebsError 400 ''Bad URL format''))
                     | Some f \<Rightarrow> do { wp2 \<leftarrow> first_fields m sc dup g st1 wp1 u protoVer f; Some (st1, wp2, None) }) }) }))"

section \<open>Credentials\<close>

definition c_isalpha :: "char \<Rightarrow> bool" where "c_isalpha c \<longleftrightarrow> c_isupper c \<or> c_islower c"

definition isgoodchar :: "char \<Rightarrow> bool" where
  "isgoodchar c \<longleftrightarrow> c_isalpha c \<or> 48 \<le> c_uchar c \<and> c_uchar c \<le> 57 \<or> c \<in> {CHR ''/'', CHR ''_'', CHR ''.'', CHR ''-''}"

text \<open>\<open>k\<close> is the block of stack memory \<^verbatim>\<open>userAuth\<close>; \<open>v\<close> the value.\<close>

definition basic_auth :: "bool \<Rightarrow> bool \<Rightarrow> byte list \<Rightarrow> webs \<Rightarrow> cstring \<Rightarrow> webs option" where
  "basic_auth sc dup k wp v = do {
     let (ty, enc) = (if CHR '' '' \<in> set v then (Some (takeWhile (\<lambda>c. c \<noteq> CHR '' '') v), drop 1 (dropWhile (\<lambda>c. c \<noteq> CHR '' '') v)) else (None, v));
     at \<leftarrow> (case ty of None \<Rightarrow> Some (authType wp) | Some t \<Rightarrow> map_option Some (bstrdup dup (Some t)));
     (b, _) \<leftarrow> websDecode64 sc k enc FNAMESIZE;
     userAuth \<leftarrow> str_at b 0;
     let up = (if CHR '':'' \<in> set userAuth then (takeWhile (\<lambda>c. c \<noteq> CHR '':'') userAuth, drop 1 (dropWhile (\<lambda>c. c \<noteq> CHR '':'') userAuth)) else ([], []));
     un \<leftarrow> bstrdup dup (Some (fst up));
     pw \<leftarrow> bstrdup dup (Some (snd up));
     Some (set_flag WEBS_AUTH_BASIC (wp\<lparr>authType := at, userName := Some un, password := Some pw\<rparr>)) }"

text \<open>The first position from \<open>i\<close> on where the condition fails; a fault when the block ends before.\<close>

definition skip_at :: "(char \<Rightarrow> bool) \<Rightarrow> byte list \<Rightarrow> nat \<Rightarrow> nat option" where
  "skip_at P b i = (let j = i + length (takeWhile P (drop i b)) in if j < length b then Some j else None)"

definition digest_field :: "bool \<Rightarrow> webs \<Rightarrow> cstring \<Rightarrow> cstring \<Rightarrow> webs" where
  "digest_field sc wp nm v =
     (let eq = (\<lambda>k. strcmpci sc nm k = 0)
      in if eq ''username'' then wp\<lparr>userName := Some v\<rparr>
         else if eq ''response'' then wp\<lparr>digest := Some v\<rparr>
         else if eq ''opaque'' then wp\<lparr>opaque := Some v\<rparr>
         else if eq ''uri'' then wp\<lparr>uri := Some v\<rparr>
         else if eq ''realm'' then wp\<lparr>realm := Some v\<rparr>
         else if eq ''nonce'' then wp\<lparr>nonce := Some v\<rparr>
         else if eq ''nc'' then wp\<lparr>nc := Some v\<rparr>
         else if eq ''cnonce'' then wp\<lparr>cnonce := Some v\<rparr>
         else if eq ''qop'' then wp\<lparr>qop := Some v\<rparr>
         else wp)"

text \<open>The loop over the fields: \<open>cp\<close> is at the name, \<open>vp\<close> at the equals sign. The NULs it stores are taken back.\<close>

partial_function (option) digest_loop :: "bool \<Rightarrow> bool \<Rightarrow> byte list \<Rightarrow> webs \<Rightarrow> nat \<Rightarrow> nat \<Rightarrow> webs option" where
  [code]: "digest_loop sc dup b wp cp vp = do {
     np \<leftarrow> skip_at isgoodchar b cp;
     let b1 = b[np := CHR 0x00];
     vp1 \<leftarrow> skip_at (\<lambda>c. \<not> isgoodchar c) b1 (vp + 1);
     npv \<leftarrow> skip_at isgoodchar b1 vp1;
     let b2 = b1[npv := CHR 0x00];
     nm \<leftarrow> str_at b2 cp;
     v \<leftarrow> str_at b2 vp1;
     v' \<leftarrow> bstrdup dup (Some v);
     let wp1 = digest_field sc wp nm v';
     let b3 = b2[np := b ! np, npv := b1 ! npv];
     cp1 \<leftarrow> skip_at (\<lambda>c. c \<noteq> CHR 0x00 \<and> isgoodchar c) b3 npv;
     cp2 \<leftarrow> skip_at (\<lambda>c. c \<noteq> CHR 0x00 \<and> \<not> isgoodchar c) b3 cp1;
     if b3 ! cp2 = CHR 0x00 then Some wp1
     else do {
       e \<leftarrow> strchr_at b3 cp2 CHR ''='';
       (case e of None \<Rightarrow> Some wp1 | Some vp2 \<Rightarrow> digest_loop sc dup b3 wp1 cp2 vp2) } }"

text \<open>A value that is the literal empty string is left at once by the first two loops, past its end.\<close>

definition digest_auth :: "bool \<Rightarrow> bool \<Rightarrow> byte list \<Rightarrow> webs \<Rightarrow> url_ptr \<Rightarrow> webs option" where
  "digest_auth sc dup b wp v =
     (case v of
        Lit _ \<Rightarrow> None
      | InBuf i \<Rightarrow> do {
          c1 \<leftarrow> skip_at isgoodchar b i;
          cp \<leftarrow> skip_at (\<lambda>c. \<not> isgoodchar c) b c1;
          e \<leftarrow> strchr_at b cp CHR ''='';
          (case e of None \<Rightarrow> Some (set_flag WEBS_AUTH_DIGEST wp) | Some vp \<Rightarrow> digest_loop sc dup b (set_flag WEBS_AUTH_DIGEST wp) cp vp) })"

text \<open>The header buffer is changed where the type ends in a blank; the change is returned.\<close>

definition parse_auth :: "bool \<Rightarrow> bool \<Rightarrow> byte list \<Rightarrow> byte list \<Rightarrow> webs \<Rightarrow> url_ptr \<Rightarrow> cstring \<Rightarrow> (byte list \<times> webs) option" where
  "parse_auth sc dup k b wp v vs = do {
     ty \<leftarrow> bstrdup dup (Some (takeWhile c_isalpha vs));
     let wp1 = wp\<lparr>authType := Some ty\<rparr>;
     if strcmpci sc ty ''basic'' = 0 then do {
       wp2 \<leftarrow> basic_auth sc dup k wp1 vs;
       let b1 = (case v of InBuf i \<Rightarrow> (if CHR '' '' \<in> set vs then b[i + length (takeWhile (\<lambda>c. c \<noteq> CHR '' '') vs) := CHR 0x00] else b) | Lit _ \<Rightarrow> b);
       Some (b1, wp2) }
     else do { wp2 \<leftarrow> digest_auth sc dup b wp1 v; Some (b, wp2) } }"

section \<open>The header\<close>

definition CTYPE_MULTIPART :: cstring where "CTYPE_MULTIPART = ''multipart/form-data''"
definition BOUNDARY_KWD :: cstring where "BOUNDARY_KWD = ''boundary=''"

text \<open>The text behind the first occurrence of a string.\<close>

fun after_str :: "cstring \<Rightarrow> cstring \<Rightarrow> cstring option" where
  "after_str s k = (if take (length k) s = k then Some (drop (length k) s) else case s of [] \<Rightarrow> None | _ # r \<Rightarrow> after_str r k)"

declare after_str.simps [simp del]

text \<open>The boundary with its two dashes is printed into a block sized for the boundary and two bytes.\<close>

definition content_type :: "balloc_env \<Rightarrow> webs \<Rightarrow> cstring \<Rightarrow> webs option" where
  "content_type m wp v =
     (if take (length CTYPE_MULTIPART) v = CTYPE_MULTIPART then
        let wp1 = set_flag WEBS_MULTIPART_FORM wp
        in case after_str v BOUNDARY_KWD of
             None \<Rightarrow> Some wp1
           | Some p \<Rightarrow> do {
               blk \<leftarrow> balloc m (int (length p) + 2);
               b \<leftarrow> c_strcpy blk (''--'' @ p);
               Some (wp1\<lparr>multiPartBoundary := Some (c_str b)\<rparr>) }
      else Some wp)"

definition content_length :: "bool \<Rightarrow> bool \<Rightarrow> bool \<Rightarrow> sym_state \<Rightarrow> webs \<Rightarrow> cstring \<Rightarrow> (sym_state \<times> webs) option" where
  "content_length sc ok dup st wp v = do {
     n \<leftarrow> c_atoi v;
     if n > 0 then do {
       st1 \<leftarrow> websSetVar sc ok dup st (cgiVars wp) ''CONTENT_LENGTH'' (Some v);
       Some (st1, set_flag WEBS_CLEN (wp\<lparr>clen := n\<rparr>)) }
     else Some (st, set_flag WEBS_CLEN (wp\<lparr>clen := 0\<rparr>)) }"

text \<open>What a header line does to the request, by its name in lower case.\<close>

definition header_field ::
    "balloc_env \<Rightarrow> bool \<Rightarrow> bool \<Rightarrow> bool \<Rightarrow> byte list \<Rightarrow> byte list \<Rightarrow> sym_state \<Rightarrow> webs \<Rightarrow> cstring \<Rightarrow> url_ptr \<Rightarrow> cstring \<Rightarrow> (byte list \<times> sym_state \<times> webs) option" where
  "header_field m sc ok dup k b st wp key v vs =
     (if key = ''user-agent'' then do { s \<leftarrow> bstrdup dup (Some vs); Some (b, st, wp\<lparr>userAgent := Some s\<rparr>) }
      else if strcmpci sc key ''_TclRequestVerificationToken'' = 0 then do { t \<leftarrow> jrd_decrypt sc dup (Some vs); Some (b, st, wp\<lparr>token := map_option c_str t\<rparr>) }
      else if strcmpci sc key ''_TclRequestVerificationKey'' = 0 then do { s \<leftarrow> bstrdup dup (Some vs); Some (b, st, wp\<lparr>cer_key := Some s\<rparr>) }
      else if key = ''referer'' then do { s \<leftarrow> bstrdup dup (Some vs); Some (b, st, wp\<lparr>referer := Some s\<rparr>) }
      else if strcmpci sc key ''authorization'' = 0 then do { (b1, wp1) \<leftarrow> parse_auth sc dup k b wp v vs; Some (b1, st, wp1) }
      else if key = ''content-length'' then do { (st1, wp1) \<leftarrow> content_length sc ok dup st wp vs; Some (b, st1, wp1) }
      else if key = ''content-type'' then do {
        st1 \<leftarrow> websSetVar sc ok dup st (cgiVars wp) ''CONTENT_TYPE'' (Some vs);
        wp1 \<leftarrow> content_type m wp vs;
        Some (b, st1, wp1) }
      else if key = ''cookie'' then do { s \<leftarrow> bstrdup dup (Some vs); Some (b, st, (set_flag WEBS_COOKIE wp)\<lparr>wcookie := Some s\<rparr>) }
      else Some (b, st, wp))"

text \<open>\<^verbatim>\<open>strtok\<close> inside a block: the block, the token and the place where the next call goes on.\<close>

definition strtok_at :: "byte list \<Rightarrow> nat \<Rightarrow> char list \<Rightarrow> (byte list \<times> nat option \<times> nat) option" where
  "strtok_at b i ds = do {
     j \<leftarrow> skip_at (\<lambda>c. c \<in> set ds) b i;
     if b ! j = CHR 0x00 then Some (b, None, j)
     else do {
       e \<leftarrow> skip_at (\<lambda>c. c \<notin> set ds \<and> c \<noteq> CHR 0x00) b j;
       Some (if b ! e = CHR 0x00 then (b, Some j, e) else (b[e := CHR 0x00], Some j, e + 1)) } }"

text \<open>The name of the variable for a header.\<close>

definition upper_key :: "balloc_env \<Rightarrow> bool \<Rightarrow> cstring \<Rightarrow> cstring option" where
  "upper_key m sc key = do {
     (p, _, _) \<leftarrow> fmtAlloc m sc (int (length key) + 6) ''HTTP_%s'' [VStr (Some key)];
     b \<leftarrow> p;
     s \<leftarrow> str_at b 0;
     Some (strupper (map (\<lambda>c. if c = CHR ''-'' then CHR ''_'' else c) s)) }"

definition header_line ::
    "balloc_env \<Rightarrow> bool \<Rightarrow> bool \<Rightarrow> bool \<Rightarrow> byte list \<Rightarrow> byte list \<Rightarrow> sym_state \<Rightarrow> webs \<Rightarrow> nat \<Rightarrow> (byte list \<times> sym_state \<times> webs) option" where
  "header_line m sc ok dup k b st wp cp = do {
     (b1, key, s1) \<leftarrow> strtok_at b cp [CHR '':'', CHR '' '', CHR 0x09, CHR 0x0A];
     (case key of
        None \<Rightarrow> Some (b1, st, wp)
      | Some kp \<Rightarrow> do {
          (b2, v, s2) \<leftarrow> strtok_at b1 s1 [CHR 0x0A];
          v1 \<leftarrow> (case v of None \<Rightarrow> Some (Lit []) | Some i \<Rightarrow> map_option InBuf (skip_at c_isspace b2 i));
          ks \<leftarrow> str_at b2 kp;
          let b3 = take kp b2 @ strlower ks @ drop (kp + length ks) b2;
          vs \<leftarrow> url_read b3 v1;
          up \<leftarrow> upper_key m sc (strlower ks);
          st1 \<leftarrow> websSetVar sc ok dup st (cgiVars wp) up (Some vs);
          header_field m sc ok dup k b3 st1 wp (strlower ks) v1 vs }) }"

partial_function (option) header_loop ::
    "balloc_env \<Rightarrow> bool \<Rightarrow> bool \<Rightarrow> bool \<Rightarrow> byte list \<Rightarrow> byte list \<Rightarrow> sym_state \<Rightarrow> webs \<Rightarrow> nat \<Rightarrow> (byte list \<times> sym_state \<times> webs) option" where
  [code]: "header_loop m sc ok dup k b st wp lp = do {
     c \<leftarrow> mem_read b (int lp);
     if c = CHR 0x00 then Some (b, st, wp)
     else do {
       nl \<leftarrow> strchr_at b lp CHR 0x0A;
       (b1, st1, wp1) \<leftarrow> header_line m sc ok dup k b st wp lp;
       (case nl of None \<Rightarrow> Some (b1, st1, wp1) | Some j \<Rightarrow> header_loop m sc ok dup k b1 st1 wp1 (j + 1)) } }"

definition websParseRequest :: "balloc_env \<Rightarrow> bool \<Rightarrow> bool \<Rightarrow> bool \<Rightarrow> byte list \<Rightarrow> sym_state \<Rightarrow> webs \<Rightarrow> (sym_state \<times> webs) option" where
  "websParseRequest m sc ok dup k st wp = do {
     st1 \<leftarrow> websSetVar sc ok dup st (cgiVars wp) ''HTTP_AUTHORIZATION'' (Some []);
     (b, st2, wp1) \<leftarrow> header_loop m sc ok dup k (buf (wheader wp)) st1 wp (nat (servp (wheader wp)));
     Some (st2, wp1\<lparr>wheader := (wheader wp1)\<lparr>buf := b\<rparr>\<rparr>) }"

section \<open>Lines of a header\<close>

definition header_delims :: "char list" where "header_delims = [CHR '':'', CHR '' '', CHR 0x09, CHR 0x0A]"

text \<open>The name, in lower case, and the value of a line; a line as every client sends it: a name, a delimiter and something behind it.\<close>

definition line_name :: "cstring \<Rightarrow> cstring" where "line_name l = takeWhile (\<lambda>c. c \<notin> set header_delims) l"
definition line_rest :: "cstring \<Rightarrow> cstring" where "line_rest l = drop 1 (dropWhile (\<lambda>c. c \<notin> set header_delims) l)"

definition header_pair :: "cstring \<Rightarrow> cstring \<times> cstring" where
  "header_pair l = (strlower (line_name l), dropWhile c_isspace (line_rest l))"

definition wf_line :: "cstring \<Rightarrow> bool" where
  "wf_line l \<longleftrightarrow> line_name l \<noteq> [] \<and> line_rest l \<noteq> [] \<and> CHR 0x00 \<notin> set l \<and> CHR 0x0A \<notin> set l"

fun header_text :: "cstring list \<Rightarrow> cstring" where
  "header_text [] = []"
| "header_text [l] = l"
| "header_text (l # ls) = l @ CHR 0x0A # header_text ls"

lemma skip_at_here:
  assumes "\<forall>c \<in> set s. P c" "\<not> P d"
  shows "skip_at P (x @ s @ d # r) (length x) = Some (length x + length s)"
  using assms by (simp add: skip_at_def takeWhile_append)

lemma strtok_at_here:
  assumes "s \<noteq> []" "\<forall>c \<in> set s. c \<notin> set ds \<and> c \<noteq> CHR 0x00" "d \<in> set ds \<or> d = CHR 0x00" "CHR 0x00 \<notin> set ds"
  shows "strtok_at (x @ s @ d # r) (length x) ds =
     Some (x @ s @ CHR 0x00 # r, Some (length x), if d = CHR 0x00 then length x + length s else length x + length s + 1)"
proof -
  obtain c t where s: "s = c # t" using assms(1) by (cases s) auto
  have "skip_at (\<lambda>c. c \<in> set ds) (x @ s @ d # r) (length x) = Some (length x)"
    using assms(2) s skip_at_here[of "[]" "\<lambda>c. c \<in> set ds" c x "t @ d # r"] by simp
  moreover have "skip_at (\<lambda>c. c \<notin> set ds \<and> c \<noteq> CHR 0x00) (x @ s @ d # r) (length x) = Some (length x + length s)"
    by (rule skip_at_here) (use assms in auto)
  moreover have "(x @ s @ d # r) ! (length x + length s) = d" "(x @ s @ d # r)[length x + length s := CHR 0x00] = x @ s @ CHR 0x00 # r"
    "(x @ s @ d # r) ! length x = c"
    using s by (simp_all add: nth_append list_update_append)
  ultimately show ?thesis using assms(2) s by (auto simp: strtok_at_def)
qed

lemma strlower_len [simp]: "length (strlower s) = length s"
  by (induction s rule: strlower.induct) auto

lemma wf_line_split:
  assumes "wf_line l"
  obtains c where "l = line_name l @ c # line_rest l" "c \<in> set header_delims" "c \<noteq> CHR 0x0A" "c \<noteq> CHR 0x00"
    "\<forall>c \<in> set (line_name l). c \<notin> set header_delims \<and> c \<noteq> CHR 0x00" "CHR 0x00 \<notin> set (line_rest l)" "CHR 0x0A \<notin> set (line_rest l)"
proof -
  let ?d = "dropWhile (\<lambda>c. c \<notin> set header_delims) l"
  have "?d \<noteq> []" using assms unfolding wf_line_def line_rest_def by (metis drop_Nil)
  then obtain c r where d: "?d = c # r" by (cases ?d) auto
  have l: "l = line_name l @ c # line_rest l" using takeWhile_dropWhile_id[of "\<lambda>c. c \<notin> set header_delims" l] d by (simp add: line_name_def line_rest_def)
  have c: "c \<in> set header_delims" using hd_dropWhile[of "\<lambda>c. c \<notin> set header_delims" l] d by simp
  have n: "\<forall>c \<in> set (line_name l). c \<notin> set header_delims" by (auto simp: line_name_def dest: set_takeWhileD)
  have s: "set l = set (line_name l) \<union> {c} \<union> set (line_rest l)" by (subst l) auto
  show ?thesis using that[OF l c] assms s n unfolding wf_line_def by blast
qed

lemma header_line_cut:
  assumes ne: "n \<noteq> []" "v \<noteq> []" and n: "\<forall>c \<in> set n. c \<notin> set header_delims \<and> c \<noteq> CHR 0x00" and c: "c \<in> set header_delims" "c \<noteq> CHR 0x00"
    and z: "CHR 0x00 \<notin> set v" "CHR 0x0A \<notin> set v" and t: "t = CHR 0x0A \<or> t = CHR 0x00"
  shows "header_line m sc ok dup k (x @ n @ c # v @ t # r) st wp (length x) = (do {
     up \<leftarrow> upper_key m sc (strlower n);
     st1 \<leftarrow> websSetVar sc ok dup st (cgiVars wp) up (Some (dropWhile c_isspace v));
     header_field m sc ok dup k (x @ strlower n @ CHR 0x00 # v @ CHR 0x00 # r) st1 wp (strlower n)
       (InBuf (length x + length n + 1 + length (takeWhile c_isspace v))) (dropWhile c_isspace v) })"
proof -
  have "CHR 0x00 \<notin> set header_delims" by (simp add: header_delims_def)
  then have t1: "strtok_at (x @ n @ c # v @ t # r) (length x) header_delims = Some (x @ n @ CHR 0x00 # v @ t # r, Some (length x), length x + length n + 1)"
    using strtok_at_here[OF ne(1) n, of c x "v @ t # r"] c by simp
  have t2: "strtok_at (x @ n @ CHR 0x00 # v @ t # r) (length x + length n + 1) [CHR 0x0A] =
      Some (x @ n @ CHR 0x00 # v @ CHR 0x00 # r, Some (length x + length n + 1), if t = CHR 0x00 then length x + length n + 1 + length v else length x + length n + 1 + length v + 1)"
  proof -
    have "\<forall>c \<in> set v. c \<notin> set [CHR 0x0A] \<and> c \<noteq> CHR 0x00" "t \<in> set [CHR 0x0A] \<or> t = CHR 0x00" "CHR 0x00 \<notin> set [CHR 0x0A]" using z t by auto
    from strtok_at_here[OF ne(2) this, of "x @ n @ [CHR 0x00]" r] show ?thesis by simp
  qed
  let ?w = "takeWhile c_isspace v" and ?vs = "dropWhile c_isspace v"
  have nsp: "\<not> c_isspace CHR 0x00" by (simp add: c_isspace_def c_uchar_def)
  have wsp: "\<forall>c \<in> set ?w. c_isspace c" by (auto dest: set_takeWhileD)
  have split: "v @ CHR 0x00 # r = ?w @ ?vs @ CHR 0x00 # r" by (metis append_assoc takeWhile_dropWhile_id)
  have s: "skip_at c_isspace (x @ n @ CHR 0x00 # v @ CHR 0x00 # r) (length x + length n + 1) = Some (length x + length n + 1 + length ?w)"
  proof -
    obtain a q where a: "?vs @ CHR 0x00 # r = a # q" "\<not> c_isspace a" using nsp hd_dropWhile[of c_isspace v] by (cases ?vs) auto
    have "skip_at c_isspace ((x @ n @ [CHR 0x00]) @ ?w @ a # q) (length (x @ n @ [CHR 0x00])) = Some (length (x @ n @ [CHR 0x00]) + length ?w)"
      by (rule skip_at_here[of ?w c_isspace a "x @ n @ [CHR 0x00]" q, OF wsp a(2)])
    then show ?thesis unfolding a(1)[symmetric] split[symmetric] by simp
  qed
  have "CHR 0x00 \<notin> set n" using n by blast
  then have k: "str_at (x @ n @ CHR 0x00 # v @ CHR 0x00 # r) (length x) = Some n" by (rule str_at_here)
  have b3: "take (length x) (x @ n @ CHR 0x00 # v @ CHR 0x00 # r) @ strlower n @ drop (length x + length n) (x @ n @ CHR 0x00 # v @ CHR 0x00 # r) =
      x @ strlower n @ CHR 0x00 # v @ CHR 0x00 # r" by simp
  have "CHR 0x00 \<notin> set ?vs" using z(1) by (auto dest: set_dropWhileD)
  from str_at_here[OF this, of "x @ strlower n @ CHR 0x00 # ?w" r]
  have "str_at (x @ strlower n @ CHR 0x00 # v @ CHR 0x00 # r) (length x + length n + 1 + length ?w) = Some ?vs" by (simp add: split[symmetric] add.assoc)
  then have rd: "url_read (x @ strlower n @ CHR 0x00 # v @ CHR 0x00 # r) (InBuf (length x + length n + 1 + length ?w)) = Some ?vs"
    by (simp add: url_read_def)
  show ?thesis
    unfolding header_line_def header_delims_def[symmetric] t1 using t2 s k b3 rd by simp
qed

section \<open>What a header does\<close>

definition http_name :: "cstring \<Rightarrow> cstring" where
  "http_name key = strupper (map (\<lambda>c. if c = CHR ''-'' then CHR ''_'' else c) (''HTTP_'' @ key))"

definition is_name :: "bool \<Rightarrow> cstring \<Rightarrow> cstring \<Rightarrow> bool" where
  "is_name sc key nm \<longleftrightarrow> strcmpci sc key nm = 0"

text \<open>The variables a line sets.\<close>

definition field_env :: "(cstring \<rightharpoonup> cstring) \<Rightarrow> cstring \<times> cstring \<Rightarrow> (cstring \<rightharpoonup> cstring)" where
  "field_env e kv =
     (let e1 = e(http_name (fst kv) \<mapsto> snd kv)
      in if fst kv = ''content-length'' \<and> c_atoi (snd kv) \<noteq> None \<and> the (c_atoi (snd kv)) > 0 then e1(''CONTENT_LENGTH'' \<mapsto> snd kv)
         else if fst kv = ''content-type'' then e1(''CONTENT_TYPE'' \<mapsto> snd kv) else e1)"

text \<open>The fields of the request it sets.\<close>

definition field_wp :: "bool \<Rightarrow> webs \<Rightarrow> cstring \<times> cstring \<Rightarrow> webs" where
  "field_wp sc wp kv =
     (let key = fst kv; v = snd kv
      in if key = ''user-agent'' then wp\<lparr>userAgent := Some v\<rparr>
         else if is_name sc key ''_TclRequestVerificationToken'' then wp\<lparr>token := Some (c_str (decrypt_loop sc 0 v))\<rparr>
         else if is_name sc key ''_TclRequestVerificationKey'' then wp\<lparr>cer_key := Some v\<rparr>
         else if key = ''referer'' then wp\<lparr>referer := Some v\<rparr>
         else if key = ''content-length'' then set_flag WEBS_CLEN (wp\<lparr>clen := max 0 (the (c_atoi v))\<rparr>)
         else if key = ''cookie'' then (set_flag WEBS_COOKIE wp)\<lparr>wcookie := Some v\<rparr>
         else wp)"

text \<open>Lines covered here: no credentials and no multipart form, a content length that fits an \<^verbatim>\<open>int\<close>, and a name short enough for its variable.\<close>

definition header_ok :: "bool \<Rightarrow> cstring \<times> cstring \<Rightarrow> bool" where
  "header_ok sc kv \<longleftrightarrow> \<not> is_name sc (fst kv) ''authorization'' \<and> (fst kv = ''content-length'' \<longrightarrow> c_atoi (snd kv) \<noteq> None) \<and>
     (fst kv = ''content-type'' \<longrightarrow> take (length CTYPE_MULTIPART) (snd kv) \<noteq> CTYPE_MULTIPART) \<and> length (fst kv) \<le> 58"

lemma set_flag_same [simp]: "cgiVars (set_flag f wp) = cgiVars wp" "wheader (set_flag f wp) = wheader wp" "postData (set_flag f wp) = postData wp"
  "(set_flag f wp)\<lparr>wheader := h\<rparr> = set_flag f (wp\<lparr>wheader := h\<rparr>)"
  by (simp_all add: set_flag_def)

lemma field_wp_same [simp]: "cgiVars (field_wp sc wp kv) = cgiVars wp" "wheader (field_wp sc wp kv) = wheader wp"
  by (simp_all add: field_wp_def Let_def)

lemma strlower_clean: "CHR 0x00 \<notin> set s \<Longrightarrow> CHR 0x00 \<notin> set (strlower s)"
proof (induction s rule: strlower.induct)
  case (2 c s)
  have "to_char (c_uchar c + 32) \<noteq> CHR 0x00" if "c_isupper c"
  proof
    assume "to_char (c_uchar c + 32) = CHR 0x00"
    then have "(c_uchar c + 32) mod 256 = 0" using c_uchar_to_char[of "c_uchar c + 32"] by (simp add: c_uchar_def)
    then show False using that by (simp add: c_isupper_def)
  qed
  then have "CHR 0x00 \<noteq> (if c_isupper c then to_char (c_uchar c + 32) else c)" using 2(2) by (cases "c_isupper c") (fastforce, simp)
  then show ?case using 2 by simp
qed simp

lemma upper_key_spec:
  assumes "\<forall>n. m n \<noteq> None" "CHR 0x00 \<notin> set key" "length key \<le> 58"
  shows "upper_key m sc key = Some (http_name key)"
proof -
  have t: "fmt_text (''HTTP_%s'' @ [CHR 0x00]) [VStr (Some key)] = Some (''HTTP_'' @ key)"
    using assms(2) by (simp add: fmt_text_s fmt_text_plain fmt_text_nul)
  have "length (''HTTP_'' @ key) \<le> fmt_cap (int (length key) + 6)" using assms(3) fmt_cap_range(1)[of "int (length key) + 6"] by simp
  then obtain b r where b: "fmtAlloc m sc (int (length key) + 6) ''HTTP_%s'' [VStr (Some key)] = Some (Some b, r, [])" "c_str b = ''HTTP_'' @ key" "CHR 0x00 \<in> set b"
    using fmtAlloc_str[OF assms(1) _ _ _ t, of "int (length key) + 6" sc] assms(3) by auto
  have "str_at b 0 = Some (''HTTP_'' @ key)" using b(2,3) by (simp add: str_at_def c_str_def)
  then show ?thesis using b(1) by (simp add: upper_key_def http_name_def)
qed

lemma http_name_ne: "http_name key \<noteq> []"
  by (simp add: http_name_def)

lemma decrypt_str: "CHR 0x00 \<notin> set v \<Longrightarrow> \<exists>d. jrd_decrypt sc True (Some v) = Some (Some d) \<and> c_str d = c_str (decrypt_loop sc 0 v)"
proof -
  have "c_str (d @ replicate n CHR 0x00) = c_str d" for d n by (induction d) (simp_all add: c_str_def)
  then show ?thesis by (simp add: jrd_decrypt_def Let_def)
qed

lemma header_field_spec:
  assumes e: "vars_are sc (cgiVars wp) st (e(http_name (fst kv) \<mapsto> snd kv))" and o: "header_ok sc kv" and z: "CHR 0x00 \<notin> set (snd kv)"
  shows "\<exists>st'. header_field m sc True True k b st wp (fst kv) p (snd kv) = Some (b, st', field_wp sc wp kv) \<and> vars_are sc (cgiVars wp) st' (field_env e kv)"
proof -
  obtain key v where kv: "kv = (key, v)" by (cases kv)
  consider "key = ''content-length''" | "key = ''content-type''" | "key \<noteq> ''content-length''" "key \<noteq> ''content-type''" by blast
  then show ?thesis
  proof cases
    case 1
    have nn: "strcmpci sc ''content-length'' ''_TclRequestVerificationToken'' \<noteq> 0" "strcmpci sc ''content-length'' ''_TclRequestVerificationKey'' \<noteq> 0"
      by (simp_all add: c_tolower_def c_char_def c_uchar_def)
    obtain n where n: "c_atoi v = Some n" using o 1 kv by (auto simp: header_ok_def)
    obtain st' where s: "websSetVar sc True True st (cgiVars wp) ''CONTENT_LENGTH'' (Some v) = Some st'"
       "vars_are sc (cgiVars wp) st' ((e(http_name key \<mapsto> v))(''CONTENT_LENGTH'' \<mapsto> v))"
      using vars_are_set[OF e, of "''CONTENT_LENGTH''" "Some v"] z kv by auto
    show ?thesis using 1 n s e o kv nn
      by (auto simp: header_field_def content_length_def field_wp_def field_env_def is_name_def header_ok_def Let_def max_def)
  next
    case 2
    have nn: "strcmpci sc ''content-type'' ''_TclRequestVerificationToken'' \<noteq> 0" "strcmpci sc ''content-type'' ''_TclRequestVerificationKey'' \<noteq> 0"
      by (simp_all add: c_tolower_def c_char_def c_uchar_def)
    obtain st' where s: "websSetVar sc True True st (cgiVars wp) ''CONTENT_TYPE'' (Some v) = Some st'"
       "vars_are sc (cgiVars wp) st' ((e(http_name key \<mapsto> v))(''CONTENT_TYPE'' \<mapsto> v))"
      using vars_are_set[OF e, of "''CONTENT_TYPE''" "Some v"] z kv by auto
    show ?thesis using 2 s o kv nn
      by (auto simp: header_field_def content_type_def field_wp_def field_env_def is_name_def header_ok_def Let_def)
  next
    case 3
    obtain d where "jrd_decrypt sc True (Some v) = Some (Some d)" "c_str d = c_str (decrypt_loop sc 0 v)" using decrypt_str[of v sc] z kv by auto
    then show ?thesis using 3 e o kv
      by (auto simp: header_field_def field_wp_def field_env_def is_name_def header_ok_def bstrdup_def Let_def)
  qed
qed

lemma header_line_spec:
  assumes m: "\<forall>n. m n \<noteq> None" and e: "vars_are sc (cgiVars wp) st e" and w: "wf_line l" and o: "header_ok sc (header_pair l)" and t: "t = CHR 0x0A \<or> t = CHR 0x00"
  shows "\<exists>y st'. length y = length l \<and> header_line m sc True True k (x @ l @ t # r) st wp (length x) = Some (x @ y @ CHR 0x00 # r, st', field_wp sc wp (header_pair l)) \<and>
     vars_are sc (cgiVars wp) st' (field_env e (header_pair l))"
proof -
  obtain c where c: "l = line_name l @ c # line_rest l" "c \<in> set header_delims" "c \<noteq> CHR 0x00"
    "\<forall>c \<in> set (line_name l). c \<notin> set header_delims \<and> c \<noteq> CHR 0x00" "CHR 0x00 \<notin> set (line_rest l)" "CHR 0x0A \<notin> set (line_rest l)"
    using wf_line_split[OF w] by metis
  have ne: "line_name l \<noteq> []" "line_rest l \<noteq> []" using w by (simp_all add: wf_line_def)
  let ?n = "line_name l" and ?v = "line_rest l"
  have hp: "header_pair l = (strlower ?n, dropWhile c_isspace ?v)" by (simp add: header_pair_def)
  have zv: "CHR 0x00 \<notin> set (snd (header_pair l))" using c(5) by (auto simp: hp dest: set_dropWhileD)
  have "CHR 0x00 \<notin> set ?n" using c(4) by blast
  then have up: "upper_key m sc (strlower ?n) = Some (http_name (strlower ?n))"
    using upper_key_spec[OF m strlower_clean, of ?n sc] o by (simp add: header_ok_def hp)
  obtain st1 where s1: "websSetVar sc True True st (cgiVars wp) (http_name (strlower ?n)) (Some (dropWhile c_isspace ?v)) = Some st1"
     "vars_are sc (cgiVars wp) st1 (e(http_name (fst (header_pair l)) \<mapsto> snd (header_pair l)))"
    using vars_are_set[OF e http_name_ne, of "Some (dropWhile c_isspace ?v)" "strlower ?n"] zv by (auto simp: hp)
  let ?b = "x @ strlower ?n @ CHR 0x00 # ?v @ CHR 0x00 # r" and ?p = "InBuf (length x + length ?n + 1 + length (takeWhile c_isspace ?v))"
  obtain st' where s2: "header_field m sc True True k ?b st1 wp (fst (header_pair l)) ?p (snd (header_pair l)) = Some (?b, st', field_wp sc wp (header_pair l))"
     "vars_are sc (cgiVars wp) st' (field_env e (header_pair l))"
    using header_field_spec[OF s1(2) o zv] by blast
  have len: "length (strlower ?n @ CHR 0x00 # ?v) = length l" using arg_cong[OF c(1), of length] by simp
  have eq: "x @ l @ t # r = x @ ?n @ c # ?v @ t # r" using c(1) by (metis append_Cons append_assoc)
  have "header_line m sc True True k (x @ ?n @ c # ?v @ t # r) st wp (length x) = Some (?b, st', field_wp sc wp (header_pair l))"
    using header_line_cut[OF ne c(4,2,3,5,6) t, of m sc True True k x r st wp] up s1(1) s2(1) by (simp add: hp)
  then have "header_line m sc True True k (x @ l @ t # r) st wp (length x) = Some (?b, st', field_wp sc wp (header_pair l))"
    by (simp only: eq)
  then show ?thesis using len s2(2) by (intro exI[of _ "strlower ?n @ CHR 0x00 # ?v"] exI[of _ st']) simp
qed

lemma header_text_clean: "\<forall>l \<in> set ls. wf_line l \<Longrightarrow> CHR 0x00 \<notin> set (header_text ls)"
  by (induction ls rule: header_text.induct) (auto simp: wf_line_def)

lemma header_loop_spec:
  assumes m: "\<forall>n. m n \<noteq> None"
  shows "vars_are sc (cgiVars wp) st e \<Longrightarrow> \<forall>l \<in> set ls. wf_line l \<and> header_ok sc (header_pair l) \<Longrightarrow>
     \<exists>b' st'. header_loop m sc True True k (x @ header_text ls @ CHR 0x00 # r) st wp (length x) = Some (b', st', foldl (field_wp sc) wp (map header_pair ls)) \<and>
       length b' = length (x @ header_text ls @ CHR 0x00 # r) \<and> vars_are sc (cgiVars wp) st' (foldl field_env e (map header_pair ls))"
proof (induction ls arbitrary: x st wp e rule: header_text.induct)
  case 1
  then show ?case by (subst header_loop.simps) (simp add: mem_read_def nth_append)
next
  case (2 l)
  have w: "wf_line l" "header_ok sc (header_pair l)" using 2 by auto
  then have ne: "l \<noteq> []" "CHR 0x00 \<notin> set l" "CHR 0x0A \<notin> set l" by (auto simp: wf_line_def line_name_def)
  obtain y st' where h: "length y = length l" "header_line m sc True True k (x @ l @ CHR 0x00 # r) st wp (length x) = Some (x @ y @ CHR 0x00 # r, st', field_wp sc wp (header_pair l))"
     "vars_are sc (cgiVars wp) st' (field_env e (header_pair l))"
    using header_line_spec[OF m 2(1) w, of "CHR 0x00" k x r] by auto
  have r: "mem_read (x @ l @ CHR 0x00 # r) (int (length x)) = Some (hd l)" "hd l \<noteq> CHR 0x00"
    using ne by (cases l; auto simp: mem_read_def nth_append)+
  have s: "strchr_at (x @ l @ CHR 0x00 # r) (length x) CHR 0x0A = Some None" using strchr_at_here[OF ne(2), of "CHR 0x0A" x r] ne(3) by simp
  show ?case using r s h by (subst header_loop.simps) simp
next
  case (3 l l2 ls)
  let ?t = "header_text (l2 # ls)"
  have w: "wf_line l" "header_ok sc (header_pair l)" using 3(3) by auto
  then have ne: "l \<noteq> []" "CHR 0x00 \<notin> set l" "CHR 0x0A \<notin> set l" by (auto simp: wf_line_def line_name_def)
  obtain y st1 where h: "length y = length l" "header_line m sc True True k (x @ l @ CHR 0x0A # ?t @ CHR 0x00 # r) st wp (length x) =
      Some (x @ y @ CHR 0x00 # ?t @ CHR 0x00 # r, st1, field_wp sc wp (header_pair l))" "vars_are sc (cgiVars wp) st1 (field_env e (header_pair l))"
    using header_line_spec[OF m 3(2) w, of "CHR 0x0A" k x "?t @ CHR 0x00 # r"] by auto
  have r: "mem_read (x @ l @ CHR 0x0A # ?t @ CHR 0x00 # r) (int (length x)) = Some (hd l)" "hd l \<noteq> CHR 0x00"
    using ne by (cases l; auto simp: mem_read_def nth_append)+
  have zt: "CHR 0x00 \<notin> set (l @ CHR 0x0A # ?t)" using ne(2) header_text_clean[of "l2 # ls"] 3(3) by auto
  have "takeWhile (\<lambda>y. y \<noteq> CHR 0x0A) (l @ CHR 0x0A # ?t) = l" using ne(3) by (subst takeWhile_append2) auto
  then have s: "strchr_at (x @ l @ CHR 0x0A # ?t @ CHR 0x00 # r) (length x) CHR 0x0A = Some (Some (length x + length l))"
    using strchr_at_here[OF zt, of "CHR 0x0A" x r] by simp
  have "\<exists>b' st'. header_loop m sc True True k ((x @ y @ [CHR 0x00]) @ ?t @ CHR 0x00 # r) st1 (field_wp sc wp (header_pair l)) (length (x @ y @ [CHR 0x00])) =
        Some (b', st', foldl (field_wp sc) (field_wp sc wp (header_pair l)) (map header_pair (l2 # ls))) \<and>
      length b' = length ((x @ y @ [CHR 0x00]) @ ?t @ CHR 0x00 # r) \<and>
      vars_are sc (cgiVars (field_wp sc wp (header_pair l))) st' (foldl field_env (field_env e (header_pair l)) (map header_pair (l2 # ls)))"
    by (rule 3(1)) (use h(3) 3(3) in auto)
  then show ?case using r s h by (subst header_loop.simps) simp
qed

section \<open>What parsing leaves alone\<close>

lemma digest_field_cgi [simp]: "cgiVars (digest_field sc w nm v) = cgiVars w"
  by (simp add: digest_field_def Let_def)

lemma digest_loop_frame: "digest_loop sc dup b wp cp vp = Some wp' \<Longrightarrow> cgiVars wp' = cgiVars wp"
  by (rule digest_loop.raw_induct[where P = "\<lambda>sc dup b wp cp vp r. cgiVars r = cgiVars wp", rotated], assumption)
    (auto simp: Let_def bind_eq_Some_conv split: if_splits option.splits)

lemma parse_auth_frame: "parse_auth sc dup k b wp v vs = Some (b', wp') \<Longrightarrow> cgiVars wp' = cgiVars wp"
  by (auto simp: parse_auth_def basic_auth_def digest_auth_def Let_def bind_eq_Some_conv split: if_splits option.splits prod.splits url_ptr.splits dest!: digest_loop_frame)

lemma content_frame:
  "content_length sc ok dup st wp v = Some (st', wp') \<Longrightarrow> same_but (cgiVars wp) st st' \<and> cgiVars wp' = cgiVars wp"
  "content_type m wp v = Some wp' \<Longrightarrow> cgiVars wp' = cgiVars wp"
  by (auto simp: content_length_def content_type_def Let_def bind_eq_Some_conv dest!: websSetVar_frame split: if_splits option.splits)

lemma header_field_frame: "header_field m sc ok dup k b st wp key v vs = Some (b', st', wp') \<Longrightarrow> same_but (cgiVars wp) st st' \<and> cgiVars wp' = cgiVars wp"
  unfolding header_field_def
  by (simp only: bind_eq_Some_conv split: if_splits) (auto dest!: websSetVar_frame parse_auth_frame content_frame)

lemma header_line_frame: "header_line m sc ok dup k b st wp cp = Some (b', st', wp') \<Longrightarrow> same_but (cgiVars wp) st st' \<and> cgiVars wp' = cgiVars wp"
  by (auto simp: header_line_def Let_def bind_eq_Some_conv dest!: websSetVar_frame header_field_frame split: option.splits intro: same_but_trans)

text \<open>Parsing the header changes the variables of its own request only.\<close>

lemma header_loop_frame: "header_loop m sc ok dup k b st wp lp = Some (b', st', wp') \<Longrightarrow> same_but (cgiVars wp) st st' \<and> cgiVars wp' = cgiVars wp"
  by (rule header_loop.raw_induct[where P = "\<lambda>m sc ok dup k b st wp lp r. same_but (cgiVars wp) st (fst (snd r)) \<and> cgiVars (snd (snd r)) = cgiVars wp"
        and y = "(b', st', wp')", unfolded fst_conv snd_conv, rotated], assumption)
    (fastforce simp: bind_eq_Some_conv dest!: header_line_frame split: if_splits option.splits intro: same_but_trans)

lemma websParseRequest_frame: "websParseRequest m sc ok dup k st wp = Some (st', wp') \<Longrightarrow> same_but (cgiVars wp) st st'"
  by (auto simp: websParseRequest_def bind_eq_Some_conv dest!: websSetVar_frame header_loop_frame intro: same_but_trans)

section \<open>Parsing a header\<close>

lemma websParseRequest_spec:
  assumes "\<forall>n. m n \<noteq> None" and "vars_are sc (cgiVars wp) st e" and "servp (wheader wp) = 0" and "buf (wheader wp) = header_text ls @ CHR 0x00 # r"
    and "\<forall>l \<in> set ls. wf_line l \<and> header_ok sc (header_pair l)"
  shows "\<exists>st' b. websParseRequest m sc True True k st wp = Some (st', (foldl (field_wp sc) wp (map header_pair ls))\<lparr>wheader := (wheader wp)\<lparr>buf := b\<rparr>\<rparr>) \<and>
     length b = length (buf (wheader wp)) \<and> vars_are sc (cgiVars wp) st' (foldl field_env (e(''HTTP_AUTHORIZATION'' \<mapsto> [])) (map header_pair ls))"
proof -
  obtain st1 where s1: "websSetVar sc True True st (cgiVars wp) ''HTTP_AUTHORIZATION'' (Some []) = Some st1" "vars_are sc (cgiVars wp) st1 (e(''HTTP_AUTHORIZATION'' \<mapsto> []))"
    using vars_are_set[OF assms(2), of "''HTTP_AUTHORIZATION''" "Some []"] by auto
  have "wheader (foldl (field_wp sc) w kvs) = wheader w" for w kvs by (induction kvs arbitrary: w) auto
  then show ?thesis using header_loop_spec[OF assms(1) s1(2) assms(5), of k "[]" r] s1(1) assms(3,4) by (auto simp: websParseRequest_def)
qed

text \<open>
  C8. Parsing the header in place is the same as treating its lines one by one: for lines that have a
  name and a value, \<^verbatim>\<open>websParseRequest\<close> stays inside the header buffer, sets for every line a variable
  with the name in upper case behind \<^verbatim>\<open>HTTP_\<close>, and the agent, token, key, referer, content length
  and cookie of the request as the lines say, later lines winning. Lines with credentials or a
  multipart form are not covered.
\<close>

theorem websParseRequest_headers:
  assumes "\<forall>n. m n \<noteq> None" and "vars_are sc (cgiVars wp) st e" and "servp (wheader wp) = 0" and "buf (wheader wp) = header_text ls @ CHR 0x00 # r"
    and "\<forall>l \<in> set ls. wf_line l \<and> header_ok sc (header_pair l)"
  shows "\<exists>st' b. websParseRequest m sc True True k st wp = Some (st', (foldl (field_wp sc) wp (map header_pair ls))\<lparr>wheader := (wheader wp)\<lparr>buf := b\<rparr>\<rparr>) \<and>
     length b = length (buf (wheader wp)) \<and> vars_are sc (cgiVars wp) st' (foldl field_env (e(''HTTP_AUTHORIZATION'' \<mapsto> [])) (map header_pair ls))"
  by (rule websParseRequest_spec[OF assms])

definition demo_header :: "int \<Rightarrow> webs" where
  "demo_header sd = demo_request\<lparr>cgiVars := sd,
     wheader := \<lparr>buf = ''Host: h'' @ CHR 0x0A # ''User-Agent:  x y'' @ [CHR 0x00], servp = 0, endp = 24, endbuf = 25, buflen = 25, maxsize = 25, increment = 25\<rparr>\<rparr>"

theorem websParseRequest_headers_witness:
  "\<exists>sd st st' wp'. websParseRequest (\<lambda>_. Some (\<lambda>_. CHR 0x00)) True True True [] st (demo_header sd) = Some (st', wp') \<and>
     websGetVar True st' sd ''HTTP_HOST'' None = Some (Some ''h'') \<and> websGetVar True st' sd ''HTTP_USER_AGENT'' None = Some (Some ''x y'') \<and> userAgent wp' = Some ''x y''"
proof -
  let ?m = "\<lambda>_. Some (\<lambda>_. CHR 0x00)" and ?ls = "[''Host: h'', ''User-Agent:  x y'']"
  have "\<not> refuses ?m" by (simp add: refuses_def)
  then obtain st sd where st: "vars_are True sd st Map.empty" using empty_vars[OF sym_sample_inv(1), of ?m 64 True] by auto
  have hp: "header_pair ''Host: h'' = (''host'', ''h'')" "header_pair ''User-Agent:  x y'' = (''user-agent'', ''x y'')" by code_simp+
  have ok: "\<forall>l \<in> set ?ls. wf_line l \<and> header_ok True (header_pair l)" unfolding hp by code_simp
  have nm: "http_name ''host'' = ''HTTP_HOST''" "http_name ''user-agent'' = ''HTTP_USER_AGENT''" by code_simp+
  have ag: "userAgent (field_wp True (field_wp True w (''host'', ''h'')) (''user-agent'', ''x y'')) = Some ''x y''" for w by (simp add: field_wp_def)
  obtain st' b where s: "websParseRequest ?m True True True [] st (demo_header sd) =
       Some (st', (foldl (field_wp True) (demo_header sd) (map header_pair ?ls))\<lparr>wheader := (wheader (demo_header sd))\<lparr>buf := b\<rparr>\<rparr>)"
     "vars_are True sd st' (foldl field_env ([''HTTP_AUTHORIZATION'' \<mapsto> []]) (map header_pair ?ls))"
    using websParseRequest_headers[of ?m True "demo_header sd" st Map.empty ?ls "[]" "[]"] st ok by (auto simp: demo_header_def)
  have "foldl field_env ([''HTTP_AUTHORIZATION'' \<mapsto> []]) (map header_pair ?ls) = [''HTTP_AUTHORIZATION'' \<mapsto> [], ''HTTP_HOST'' \<mapsto> ''h'', ''HTTP_USER_AGENT'' \<mapsto> ''x y'']"
    by (simp add: hp field_env_def nm)
  then show ?thesis using s(1) vars_are_get[OF s(2)] ag
    by (intro exI[of _ sd] exI[of _ st] exI[of _ st'] exI) (auto simp: hp)
qed

end
