(* ===== verification/Request.thy ===== *)
theory Request
  imports Parse Sock
begin

text \<open>
  Reading a request, \<^verbatim>\<open>websReadEvent\<close> and \<^verbatim>\<open>websGetInput\<close> of \<^verbatim>\<open>webs.c\<close>: the state machine that takes lines
  and posted data from the socket, parses them and dispatches the request.

  A request for which \<^verbatim>\<open>websDone\<close> has been called is \<open>None\<close>; the answers written to it are recorded as
  in \<open>Handlers\<close>. Its connection is closed with it, so the sockets returned with a finished request
  are those from before its answer was written. \<open>m\<close> is the allocator of the queues and of
  the text read, \<open>mp\<close> that of the parsers and handlers: the calls of \<^verbatim>\<open>malloc\<close> of the two may fare differently.
\<close>

section \<open>Constants\<close>

definition WEBS_BEGIN :: int where "WEBS_BEGIN = 1"
definition WEBS_HEADER :: int where "WEBS_HEADER = 2"
definition WEBS_POST :: int where "WEBS_POST = 4"
definition WEBS_POST_CLEN :: int where "WEBS_POST_CLEN = 8"
definition WEBS_POST_DATA :: int where "WEBS_POST_DATA = 0x2000"
definition WEBS_SOCKET_BUFSIZ :: int where "WEBS_SOCKET_BUFSIZ = 256"
definition WEBS_MAX_HEADER :: int where "WEBS_MAX_HEADER = 5 * 1024"

section \<open>State\<close>

text \<open>
  What the reader takes from its surroundings: the signedness of \<^verbatim>\<open>char\<close>, whether \<^verbatim>\<open>symEnter\<close> and \<^verbatim>\<open>bstrdup\<close>
  get memory, the settings of the parser, the stack memory of the credential parser and of \<^verbatim>\<open>websSetEnv\<close>,
  the handlers, the clock, and whether the file for the input of a CGI program can be opened.
\<close>

record read_env =
  qmem :: balloc_env
  pmem :: balloc_env
  signed_char :: bool
  sym_ok :: bool
  dup_ok :: bool
  penv :: parse_env
  auth_stack :: "byte list"
  env_stack :: "nat \<Rightarrow> byte"
  run_fn :: handler_call
  now :: int
  cgi_opens :: bool

text \<open>The server, its sockets, the input file of the CGI program, the request and the answers.\<close>

record reader =
  rsrv :: server
  rsock :: sock_state
  rcgi :: "byte list"
  rreq :: "webs option"
  rout :: "http_reply list"

definition finish :: "reader \<Rightarrow> http_reply list \<Rightarrow> reader" where
  "finish r rs = r\<lparr>rreq := None, rout := rout r @ rs\<rparr>"

definition dispatch :: "read_env \<Rightarrow> reader \<Rightarrow> webs \<Rightarrow> reader option" where
  "dispatch v r wp = do {
     (srv, w, rs, _) \<leftarrow> websUrlHandlerRequest (pmem v) (signed_char v) (sym_ok v) (dup_ok v) (env_stack v) (run_fn v) (rsrv r) wp;
     Some (r\<lparr>rsrv := srv, rreq := w, rout := rout r @ rs\<rparr>) }"

section \<open>Input\<close>

text \<open>The results are the state, the return value, the text and its length.\<close>

definition get_block :: "read_env \<Rightarrow> reader \<Rightarrow> webs \<Rightarrow> int \<Rightarrow> (reader \<times> int \<times> byte list option \<times> int) option" where
  "get_block v r wp len = do {
     (ss, d, n) \<leftarrow> socketRead (rsock r) (wsid wp) len;
     let r1 = r\<lparr>rsock := ss\<rparr>;
     if n < 0 then Some (finish r1 [], -1, None, 0)
     else if n = 0 then do {
       e \<leftarrow> socketEof ss (wsid wp);
       Some (if e \<noteq> 0 then finish r1 [] else r1, -1, None, 0) }
     else do {
       t \<leftarrow> ballocAscToUni (qmem v) (d @ [CHR 0x00]) n;
       Some (case t of None \<Rightarrow> (finish r1 [WebsError 503 ''Insufficient memory''], -1, None, 0) | Some text \<Rightarrow> (r1, 1, Some text, n)) } }"

text \<open>An empty line ends the header.\<close>

definition end_header :: "read_env \<Rightarrow> reader \<Rightarrow> webs \<Rightarrow> (reader \<times> int \<times> byte list option \<times> int) option" where
  "end_header v r wp = do {
     (s, wp1) \<leftarrow> websParseRequest (pmem v) (signed_char v) (sym_ok v) (dup_ok v) (auth_stack v) (syms (rsrv r)) (wp\<lparr>token_flag := 0\<rparr>);
     let r1 = r\<lparr>rsrv := set_syms (rsrv r) s\<rparr>;
     if wflags wp1 AND WEBS_POST_REQUEST \<noteq> 0 then
       (if wflags wp1 AND WEBS_CLEN \<noteq> 0 then Some (r1\<lparr>rreq := Some (wp1\<lparr>wstate := WEBS_POST_CLEN\<rparr>)\<rparr>, if clen wp1 > 0 then 0 else 1, None, 0)
        else Some (r1\<lparr>rreq := Some (wp1\<lparr>wstate := WEBS_POST\<rparr>)\<rparr>, 0, None, 0))
     else do { r2 \<leftarrow> dispatch v r1 wp1; Some (r2, -1, None, 0) } }"

definition get_text :: "read_env \<Rightarrow> reader \<Rightarrow> webs \<Rightarrow> (reader \<times> int \<times> byte list option \<times> int) option" where
  "get_text v r wp = do {
     (ss, text, n) \<leftarrow> socketGets (qmem v) (rsock r) (wsid wp);
     let r1 = r\<lparr>rsock := ss\<rparr>;
     if n > E_MAX_REQUEST \<and> wstate wp = WEBS_BEGIN then Some (finish r1 [WebsError 404 ''Cannot open URL''], -1, None, 0)
     else if n > E_MAX_REQUEST \<and> wstate wp = WEBS_HEADER then Some (finish r1 [WebsError 404 ''HEADER invalid''], -1, None, 0)
     else if n < 0 then do {
       e \<leftarrow> socketEof ss (wsid wp);
       r2 \<leftarrow> (if e = 0 then Some r1 else if wstate wp = WEBS_POST then dispatch v r1 wp else Some (finish r1 []));
       Some (r2, -1, None, 0) }
     else if n = 0 then (if wstate wp = WEBS_HEADER then end_header v r1 wp else Some (r1, -1, None, 0))
     else Some (r1, 1, text, n) }"

definition websGetInput :: "read_env \<Rightarrow> reader \<Rightarrow> webs \<Rightarrow> (reader \<times> int \<times> byte list option \<times> int) option" where
  "websGetInput v r wp =
     (let len = (if wstate wp = WEBS_POST_CLEN then min (clen wp) WEBS_SOCKET_BUFSIZ else 0)
      in if len > 0 then get_block v r wp len else get_text v r wp)"

section \<open>States\<close>

text \<open>Writing at the offset \<open>fd\<close> of the CGI input file; every call opens the file anew, without truncating it.\<close>

definition cgi_write :: "byte list \<Rightarrow> int \<Rightarrow> byte list \<Rightarrow> byte list \<times> int" where
  "cgi_write f fd d =
     (if fd < 0 then (f, fd)
      else (take (nat fd) (f @ replicate (nat fd - length f) CHR 0x00) @ d @ drop (nat fd + length d) f, fd + int (length d)))"

definition cgi_open :: "read_env \<Rightarrow> int \<Rightarrow> int" where
  "cgi_open v fd = (if fd = -1 \<and> cgi_opens v then 0 else fd)"

text \<open>The text of a line or block as a string.\<close>

definition text_str :: "byte list option \<Rightarrow> cstring option" where
  "text_str t = map_option c_str t"

definition add_header :: "read_env \<Rightarrow> webs \<Rightarrow> byte list option \<Rightarrow> webs option" where
  "add_header v wp text = do {
     t \<leftarrow> text_str text;
     q \<leftarrow> (if ringqLen (wheader wp) > 0 then map_option fst (ringqPutStr (qmem v) (wheader wp) [CHR 0x0A]) else Some (wheader wp));
     (q1, _) \<leftarrow> ringqPutStr (qmem v) q t;
     Some (wp\<lparr>wheader := q1\<rparr>) }"

text \<open>
  A further block of posted data is appended to the query, up to its first NUL, and to the data. The
  last byte of the grown block of data is never written and is left out.
\<close>

definition more_post :: "read_env \<Rightarrow> webs \<Rightarrow> byte list \<Rightarrow> byte list option \<Rightarrow> int \<Rightarrow> webs option" where
  "more_post v wp old text n = do {
     wp1 \<leftarrow> (case text_str text of
        None \<Rightarrow> Some wp
      | Some t \<Rightarrow> do {
          q \<leftarrow> wquery wp;
          Some (wp\<lparr>wquery := (case balloc (qmem v) (int (length q) + int (length t) + 1) of None \<Rightarrow> None | Some _ \<Rightarrow> Some (q @ t))\<rparr>) });
     (case brealloc (qmem v) old (lenPostData wp + n + 1) of
        None \<Rightarrow> Some (wp1\<lparr>postData := None\<rparr>)
      | Some b \<Rightarrow> do {
          t \<leftarrow> (if n = 0 then Some [] else text);
          b1 \<leftarrow> mem_copy b (lenPostData wp) t n;
          Some (wp1\<lparr>postData := Some (take (nat (lenPostData wp + n)) b1), lenPostData := lenPostData wp + n\<rparr>) }) }"

definition bmemdup :: "balloc_env \<Rightarrow> byte list option \<Rightarrow> int \<Rightarrow> byte list option option" where
  "bmemdup m s n =
     (case balloc m n of
        None \<Rightarrow> Some None
      | Some b \<Rightarrow> map_option Some (case s of None \<Rightarrow> Some (replicate (nat n) CHR 0x00) | Some t \<Rightarrow> mem_copy b 0 t n))"

definition post_block :: "read_env \<Rightarrow> webs \<Rightarrow> byte list option \<Rightarrow> int \<Rightarrow> webs option" where
  "post_block v wp text n =
     (case postData wp of
        Some old \<Rightarrow> more_post v wp old text n
      | None \<Rightarrow> do { p \<leftarrow> bmemdup (qmem v) text n; Some (wp\<lparr>postData := p, lenPostData := n\<rparr>) })"

text \<open>A line of posted data without a content length.\<close>

definition post_line :: "read_env \<Rightarrow> webs \<Rightarrow> byte list option \<Rightarrow> webs option" where
  "post_line v wp text =
     (case wquery wp of
        Some (c # q) \<Rightarrow>
          if wflags wp AND WEBS_POST_DATA = 0 then do {
            t \<leftarrow> text_str text;
            Some (wp\<lparr>wquery := (case balloc (qmem v) (int (length (c # q)) + int (length t) + 2) of None \<Rightarrow> None | Some _ \<Rightarrow> Some ((c # q) @ CHR ''&'' # t))\<rparr>) }
          else do { t \<leftarrow> bstrdup (dup_ok v) (text_str text); Some (wp\<lparr>wquery := Some t\<rparr>) }
      | _ \<Rightarrow> do { t \<leftarrow> bstrdup (dup_ok v) (text_str text); Some (wp\<lparr>wquery := Some t\<rparr>) })"

text \<open>The body of the switch: the state, the descriptor of the CGI input and whether the loop ends.\<close>

definition event_step :: "read_env \<Rightarrow> reader \<Rightarrow> webs \<Rightarrow> int \<Rightarrow> byte list option \<Rightarrow> int \<Rightarrow> (reader \<times> int \<times> bool) option" where
  "event_step v r wp fd text n =
     (if wstate wp = WEBS_BEGIN then do {
        t \<leftarrow> text_str text;
        (s, wp1, err) \<leftarrow> websParseFirst (pmem v) (signed_char v) (sym_ok v) (dup_ok v) (penv v) (syms (rsrv r)) wp t;
        let r1 = r\<lparr>rsrv := set_syms (rsrv r) s\<rparr>;
        Some (case err of Some e \<Rightarrow> (finish r1 [e], fd, True) | None \<Rightarrow> (r1\<lparr>rreq := Some (wp1\<lparr>wstate := WEBS_HEADER\<rparr>)\<rparr>, fd, False)) }
      else if wstate wp = WEBS_HEADER then do { wp1 \<leftarrow> add_header v wp text; Some (r\<lparr>rreq := Some wp1\<rparr>, fd, False) }
      else if wstate wp = WEBS_POST_CLEN then do {
        (r1, fd1, wp1) \<leftarrow> (if wflags wp AND WEBS_CGI_REQUEST \<noteq> 0
           then let (f, fd1) = cgi_write (rcgi r) (cgi_open v fd) (take (nat n) (case text of None \<Rightarrow> [] | Some t \<Rightarrow> t)) in Some (r\<lparr>rcgi := f\<rparr>, fd1, wp)
           else do { w \<leftarrow> post_block v wp text n; Some (r, fd, w) });
        left \<leftarrow> c_int (clen wp1 - n);
        let wp2 = set_flag WEBS_POST_DATA (wp1\<lparr>clen := left\<rparr>);
        if left > 0 then Some (r1\<lparr>rreq := Some wp2\<rparr>, fd1, n \<le> 0)
        else do { r2 \<leftarrow> dispatch v r1 wp2; Some (r2, -1, True) } }
      else if wstate wp = WEBS_POST then do {
        (r1, fd1, wp1) \<leftarrow> (if wflags wp AND WEBS_CGI_REQUEST \<noteq> 0
           then let (f, fd1) = cgi_write (rcgi r) (cgi_open v fd) (take (nat n) (case text of None \<Rightarrow> [] | Some t \<Rightarrow> t) @ [CHR 0x0A]) in Some (r\<lparr>rcgi := f\<rparr>, fd1, wp)
           else do { w \<leftarrow> post_line v wp text; Some (r, fd, w) });
        Some (r1\<lparr>rreq := Some (set_flag WEBS_POST_DATA wp1)\<rparr>, fd1, True) }
      else Some (finish r [WebsError 404 ''Bad state''], fd, True))"

partial_function (option) input_loop :: "read_env \<Rightarrow> reader \<Rightarrow> (reader \<times> int \<times> byte list option \<times> int) option" where
  [code]: "input_loop v r = do {
     wp \<leftarrow> rreq r;
     (r1, rc, t, n) \<leftarrow> websGetInput v r wp;
     if rc = 0 then input_loop v r1 else Some (r1, rc, t, n) }"

partial_function (option) event_loop :: "read_env \<Rightarrow> reader \<Rightarrow> int \<Rightarrow> reader option" where
  [code]: "event_loop v r fd = do {
     (r1, rc, t, n) \<leftarrow> input_loop v r;
     if rc < 0 then Some r1
     else do {
       wp \<leftarrow> rreq r1;
       (r2, fd2, done) \<leftarrow> event_step v r1 wp fd t n;
       if done then Some r2 else event_loop v r2 fd2 } }"

definition websReadEvent :: "read_env \<Rightarrow> reader \<Rightarrow> reader option" where
  "websReadEvent v r = do {
     wp \<leftarrow> rreq r;
     event_loop v (r\<lparr>rreq := Some (wp\<lparr>timestamp := now v\<rparr>)\<rparr>) (-1) }"

section \<open>The header queue\<close>

text \<open>The growth increment of a queue stays within four times its size.\<close>

lemma ringqPutBlk_incr:
  "rq_inv rq \<Longrightarrow> small_heap m \<Longrightarrow> length src + 4 \<le> f \<Longrightarrow> ringqPutBlk_fuel f m rq src = Some (rq', n) \<Longrightarrow> increment rq \<le> 4 * buflen rq \<Longrightarrow>
     increment rq' \<le> 4 * buflen rq'"
proof (induction f arbitrary: rq src n)
  case (Suc f)
  show ?case
  proof (cases "src = []")
    case False
    then obtain l where l: "length src = Suc l" by (cases src) auto
    let ?t = "\<lambda>q. min (ringqPutBlkMax q) (int (length src))"
    have step: "increment rq' \<le> 4 * buflen rq'"
      if q: "rq_inv q" "0 < ?t q" "increment q \<le> 4 * buflen q" "ringq_copy_in q src (?t q) = Some q2" "ringqPutBlk_fuel f m q2 (drop (nat (?t q)) src) = Some (rq', k)" for q q2 k
    proof -
      have "rq_inv q2 \<and> rq_same_shape q q2" using ringq_copy_in_spec[OF q(1), of "?t q" src] q(2,4) by auto
      moreover have "length (drop (nat (?t q)) src) + 4 \<le> f" using q(2) Suc.prems(3) l by (simp add: min_def split: if_splits)
      ultimately show ?thesis using Suc.IH[OF _ Suc.prems(2) _ q(5)] q(3) by (simp add: rq_same_shape_def)
    qed
    show ?thesis
    proof (cases "?t rq \<le> 0")
      case True
      have "3 \<le> f" using Suc.prems(3) by simp
      then obtain rq1 g where g: "ringqGrow_fuel f m rq = Some (rq1, g)" "rq_inv rq1" "rq_data rq1 = rq_data rq"
         "if g then buflen rq1 = buflen rq + increment rq \<and> increment rq1 = 4 * increment rq else rq1 = rq \<and> rq_full m rq"
        using ringqGrow_spec[OF Suc.prems(1,2)] by blast
      show ?thesis
      proof (cases g)
        case gt: True
        have "0 < ?t rq1" "increment rq1 \<le> 4 * buflen rq1"
          using True g gt l ringqPutBlkMax_pos[OF g(2)] rq_data_less[OF Suc.prems(1)] rq_inv_dims[OF Suc.prems(1)] Suc.prems(5)
          by (auto simp: min_def split: if_splits)
        then show ?thesis using step[OF g(2)] Suc.prems(4) False True g(1) gt by (auto simp: Let_def bind_eq_Some_conv)
      next
        case False2: False
        then show ?thesis using Suc.prems(4,5) False True g by (auto simp: Let_def bind_eq_Some_conv)
      qed
    next
      case False2: False
      then show ?thesis using step[OF Suc.prems(1) _ Suc.prems(5)] Suc.prems(4) False by (auto simp: Let_def bind_eq_Some_conv)
    qed
  qed (use Suc.prems in simp)
qed simp

text \<open>A header queue with room for a header of the greatest length.\<close>

definition header_room :: "ringq \<Rightarrow> bool" where
  "header_room q \<longleftrightarrow> rq_inv q \<and> servp q = 0 \<and> maxsize q = WEBS_MAX_HEADER \<and> increment q \<le> 4 * buflen q"

lemma ringqPutStr_header:
  assumes m: "ample m" and h: "header_room q" and l: "int (length (rq_data q) + length s) < WEBS_MAX_HEADER - 1"
  shows "\<exists>q' n. ringqPutStr m q s = Some (q', n) \<and> header_room q' \<and> rq_data q' = rq_data q @ s \<and> (\<exists>r. buf q' = rq_data q' @ CHR 0x00 # r)"
proof -
  have i: "rq_inv q" "small_heap m" using m h by (simp_all add: ample_def header_room_def)
  obtain q1 n where p: "ringqPutBlk m q s = Some (q1, n)" "put_post m q s (q1, n)" using ringqPutBlk_spec[OF i] by fastforce
  obtain q' where q': "ringqPutStr m q s = Some (q', n)" "put_post m q s (q', n)" "mem_read (buf q') (endp q') = Some (CHR 0x00)"
    using ringqPutStr_spec[OF i, of s] p(1) by (auto simp: ringqPutStr_def bind_eq_Some_conv)
  have sh: "servp q' = servp q1" "buflen q' = buflen q1" "increment q' = increment q1" "maxsize q' = maxsize q1"
    using q'(1) p(1) by (auto simp: ringqPutStr_def bind_eq_Some_conv)
  have z: "servp q1 = 0" "increment q1 \<le> 4 * buflen q1"
    using put_grow_servp(1)[of _ m q s q1 n] ringqPutBlk_incr[OF i, of s _ q1 n] p(1) h by (auto simp: ringqPutBlk_def header_room_def)
  have inv: "rq_inv q'" "maxsize q' = WEBS_MAX_HEADER" using q'(2) h by (auto simp: put_post_def header_room_def)
  have "n = int (length s)"
  proof (rule ccontr)
    assume "n \<noteq> int (length s)"
    then have f: "rq_full m q'" "int (length (rq_data q')) = buflen q' - 1" "int (length (rq_data q')) < WEBS_MAX_HEADER - 1"
      using q'(2) l by (auto simp: put_post_def)
    then have "buflen q' + increment q' \<le> 2 ^ 16" using z(2) sh by (simp add: WEBS_MAX_HEADER_def)
    then show False using f m inv(2) by (auto simp: rq_full_def ample_def)
  qed
  then have d: "rq_data q' = rq_data q @ s" using q'(2) by (simp add: put_post_def)
  have e: "0 \<le> endp q'" "nat (endp q') < length (buf q')" "rq_data q' = take (nat (endp q')) (buf q')"
    using inv(1) sh z(1) by (auto simp: rq_inv_def rq_data_def)
  have "buf q' ! nat (endp q') = CHR 0x00" using q'(3) e by (simp add: mem_read_def split: if_splits)
  then have "buf q' = rq_data q' @ CHR 0x00 # drop (Suc (nat (endp q'))) (buf q')" using id_take_nth_drop[OF e(2)] e(3) by simp
  then show ?thesis using q'(1) d inv sh z unfolding header_room_def by auto
qed

section \<open>The stream a reader sees\<close>

text \<open>
  The stream of a socket ready for reading, without carriage returns: what \<^verbatim>\<open>socketGets\<close> has collected of
  the current line, followed by what has arrived. Where it ends with the last line of a header, what has
  arrived of the data after it is given as it is.
\<close>

definition strip :: "byte list \<Rightarrow> byte list" where "strip p = filter (\<lambda>c. c \<noteq> CHR 0x0D) p"

definition sees_to :: "balloc_env \<Rightarrow> sock_state \<Rightarrow> int \<Rightarrow> byte list \<Rightarrow> byte list option \<Rightarrow> bool" where
  "sees_to m ss sid x b \<longleftrightarrow> (\<exists>sp p. sock_ready m ss sid sp \<and> beyond (rx (net ss (sock sp))) = [] \<and> CHR 0x0A \<notin> set (rq_data (lineBuf sp)) \<and>
     x = rq_data (lineBuf sp) @ strip p \<and> pending ss sp = p @ (case b of None \<Rightarrow> [] | Some d \<Rightarrow> d) \<and> (b \<noteq> None \<longrightarrow> p = [] \<or> last p = CHR 0x0A))"

abbreviation sees :: "balloc_env \<Rightarrow> sock_state \<Rightarrow> int \<Rightarrow> byte list \<Rightarrow> bool" where
  "sees m ss sid x \<equiv> sees_to m ss sid x None"

text \<open>A connection at the start of a line, with the bytes that have arrived.\<close>

definition at_body :: "balloc_env \<Rightarrow> sock_state \<Rightarrow> int \<Rightarrow> byte list \<Rightarrow> bool" where
  "at_body m ss sid p \<longleftrightarrow> (\<exists>sp. sock_ready m ss sid sp \<and> beyond (rx (net ss (sock sp))) = [] \<and> rq_data (lineBuf sp) = [] \<and> pending ss sp = p)"

definition arrive :: "sock_state \<Rightarrow> int \<Rightarrow> byte list \<Rightarrow> sock_state" where
  "arrive ss sid d = (case h_get (socketList ss) sid of None \<Rightarrow> ss
     | Some sp \<Rightarrow> set_net ss (sock sp) ((net ss (sock sp))\<lparr>rx := rx (net ss (sock sp)) @ [Data d]\<rparr>))"

lemma strip_append [simp]: "strip (a @ b) = strip a @ strip b" "strip [] = []" by (simp_all add: strip_def)

lemma strip_lines:
  "takeWhile (\<lambda>c. c \<noteq> CHR 0x0A) (strip p) = first_line p" "strip (tl (dropWhile (\<lambda>c. c \<noteq> CHR 0x0A) p)) = tl (dropWhile (\<lambda>c. c \<noteq> CHR 0x0A) (strip p))"
  "CHR 0x0A \<in> set (strip p) \<longleftrightarrow> CHR 0x0A \<in> set p"
  by (induction p) (auto simp: strip_def first_line_def)

lemma strip_no_line: "CHR 0x0A \<notin> set p \<Longrightarrow> first_line p = strip p \<and> tl (dropWhile (\<lambda>c. c \<noteq> CHR 0x0A) p) = []"
  by (induction p) (auto simp: strip_def first_line_def)

lemma avail_snoc: "beyond es = [] \<Longrightarrow> avail (es @ [Data d]) = avail es @ d \<and> beyond (es @ [Data d]) = []"
  by (induction es rule: avail.induct) auto

lemma ready_arrive:
  assumes "sock_ready m ss sid sp" "beyond (rx (net ss (sock sp))) = []" "d \<noteq> []"
  shows "sock_ready m (arrive ss sid d) sid sp" "beyond (rx (net (arrive ss sid d) (sock sp))) = []" "pending (arrive ss sid d) sp = pending ss sp @ d"
proof -
  have g: "h_get (socketList ss) sid = Some sp" using assms(1) by (simp add: sock_ready_def sock_at_def)
  then have a: "arrive ss sid d = set_net ss (sock sp) ((net ss (sock sp))\<lparr>rx := rx (net ss (sock sp)) @ [Data d]\<rparr>)" by (simp add: arrive_def)
  show "sock_ready m (arrive ss sid d) sid sp" using assms(1,3) by (simp add: a sock_ready_def conn_ok_def)
  show "beyond (rx (net (arrive ss sid d) (sock sp))) = []" "pending (arrive ss sid d) sp = pending ss sp @ d"
    using avail_snoc[OF assms(2), of d] by (auto simp: a pending_def)
qed

lemma sees_arrive:
  assumes "sees m ss sid x" "h @ (case b of None \<Rightarrow> [] | Some d \<Rightarrow> d) \<noteq> []" "b \<noteq> None \<longrightarrow> h \<noteq> [] \<and> last h = CHR 0x0A"
  shows "sees_to m (arrive ss sid (h @ (case b of None \<Rightarrow> [] | Some d \<Rightarrow> d))) sid (x @ strip h) b"
proof -
  obtain sp p where sp: "sock_ready m ss sid sp" "beyond (rx (net ss (sock sp))) = []" "CHR 0x0A \<notin> set (rq_data (lineBuf sp))"
     "x = rq_data (lineBuf sp) @ strip p" "pending ss sp = p"
    using assms(1) by (auto simp: sees_to_def)
  note a = ready_arrive[OF sp(1,2) assms(2)]
  show ?thesis unfolding sees_to_def by (intro exI[of _ sp] exI[of _ "p @ h"]) (use a sp assms(3) in auto)
qed

lemma first_line_tail:
  assumes "CHR 0x0A \<in> set p"
  shows "first_line (p @ b) = first_line p" "tl (dropWhile (\<lambda>c. c \<noteq> CHR 0x0A) (p @ b)) = tl (dropWhile (\<lambda>c. c \<noteq> CHR 0x0A) p) @ b"
    "last p = CHR 0x0A \<Longrightarrow> tl (dropWhile (\<lambda>c. c \<noteq> CHR 0x0A) p) = [] \<or> last (tl (dropWhile (\<lambda>c. c \<noteq> CHR 0x0A) p)) = CHR 0x0A"
  using assms by (induction p) (auto simp: first_line_def split: if_splits)

lemma socketGets_sees:
  assumes m: "ample m" and s: "sees_to m ss sid x b" and l: "int (length (takeWhile (\<lambda>c. c \<noteq> CHR 0x0A) x)) \<le> E_MAX_REQUEST" and b: "CHR 0x0A \<in> set x \<or> b = None"
  shows "\<exists>ss'. socketEof ss' sid = Some 0 \<and>
     (if CHR 0x0A \<in> set x
      then socketGets m ss sid = (let line = takeWhile (\<lambda>c. c \<noteq> CHR 0x0A) x in Some (ss', if line = [] then None else Some (line @ [CHR 0x00]), int (length line))) \<and>
        sees_to m ss' sid (tl (dropWhile (\<lambda>c. c \<noteq> CHR 0x0A) x)) b
      else socketGets m ss sid = Some (ss', None, -1) \<and> sees_to m ss' sid x b)"
proof -
  obtain sp p where sp: "sock_ready m ss sid sp" "beyond (rx (net ss (sock sp))) = []" "CHR 0x0A \<notin> set (rq_data (lineBuf sp))"
     "x = rq_data (lineBuf sp) @ strip p" "pending ss sp = p @ (case b of None \<Rightarrow> [] | Some d \<Rightarrow> d)" "b \<noteq> None \<longrightarrow> p = [] \<or> last p = CHR 0x0A"
    using s by (auto simp: sees_to_def)
  let ?l = "rq_data (lineBuf sp)" and ?b = "case b of None \<Rightarrow> [] | Some d \<Rightarrow> d"
  have w: "takeWhile (\<lambda>c. c \<noteq> CHR 0x0A) x = ?l @ first_line p" "dropWhile (\<lambda>c. c \<noteq> CHR 0x0A) x = dropWhile (\<lambda>c. c \<noteq> CHR 0x0A) (strip p)"
    "CHR 0x0A \<in> set x \<longleftrightarrow> CHR 0x0A \<in> set p"
    using sp(3) by (auto simp: sp(4) takeWhile_append dropWhile_append strip_lines)
  have t: "first_line (p @ ?b) = first_line p" "tl (dropWhile (\<lambda>c. c \<noteq> CHR 0x0A) (p @ ?b)) = tl (dropWhile (\<lambda>c. c \<noteq> CHR 0x0A) p) @ ?b" "CHR 0x0A \<in> set (p @ ?b) \<longleftrightarrow> CHR 0x0A \<in> set p"
    using b first_line_tail(1,2)[of p ?b] by (auto simp: w(3))
  have "int (length (?l @ first_line (pending ss sp))) \<le> E_MAX_REQUEST" using l w(1) t(1) sp(5) by simp
  then obtain ss' sp' where r: "socketGets m ss sid =
         (if CHR 0x0A \<in> set p then Some (ss', if ?l @ first_line p = [] then None else Some (?l @ first_line p @ [CHR 0x00]), int (length (?l @ first_line p))) else Some (ss', None, -1))"
     "reads_line m ss sid sp ss' sp'" "rq_data (lineBuf sp') = (if CHR 0x0A \<in> set p then [] else ?l @ first_line p)"
     "pending ss' sp' = tl (dropWhile (\<lambda>c. c \<noteq> CHR 0x0A) p) @ ?b"
    using socketGets_spec[OF m sp(1)] sp(2) unfolding sp(5) t by auto
  have rd: "sock_ready m ss' sid sp'" "beyond (rx (net ss' (sock sp'))) = []" using r(2) sp(2) by (auto simp: reads_line_def)
  have e: "socketEof ss' sid = Some 0"
    using rd(1) socketPtr_at[of ss' sid sp'] by (simp add: sock_ready_def socketEof_def on_socket_def Sock.plain_def has_flag_def)
  have "sees_to m ss' sid (if CHR 0x0A \<in> set p then tl (dropWhile (\<lambda>c. c \<noteq> CHR 0x0A) (strip p)) else x) b"
    unfolding sees_to_def
  proof (intro exI[of _ sp'] exI[of _ "tl (dropWhile (\<lambda>c. c \<noteq> CHR 0x0A) p)"] conjI rd r(4))
    show "CHR 0x0A \<notin> set (rq_data (lineBuf sp'))" using r(3) sp(3) strip_no_line[of p] strip_lines(3)[of p] by auto
    show "(if CHR 0x0A \<in> set p then tl (dropWhile (\<lambda>c. c \<noteq> CHR 0x0A) (strip p)) else x) = rq_data (lineBuf sp') @ strip (tl (dropWhile (\<lambda>c. c \<noteq> CHR 0x0A) p))"
      using r(3) strip_lines(2)[of p] strip_no_line[of p] sp(4) by auto
    show "b \<noteq> None \<longrightarrow> tl (dropWhile (\<lambda>c. c \<noteq> CHR 0x0A) p) = [] \<or> last (tl (dropWhile (\<lambda>c. c \<noteq> CHR 0x0A) p)) = CHR 0x0A"
      using first_line_tail(3)[of p] sp(6) b w(3) by auto
  qed
  then show ?thesis using e r(1) by (intro exI[of _ ss']) (auto simp: w Let_def)
qed

lemma sees_at_body: "sees_to m ss sid [] (Some b) \<Longrightarrow> at_body m ss sid b"
proof -
  assume "sees_to m ss sid [] (Some b)"
  then obtain sp p where sp: "sock_ready m ss sid sp" "beyond (rx (net ss (sock sp))) = []" "rq_data (lineBuf sp) = []" "strip p = []" "pending ss sp = p @ b" "p = [] \<or> last p = CHR 0x0A"
    by (auto simp: sees_to_def)
  have "p = []"
  proof (rule ccontr)
    assume p: "p \<noteq> []"
    then have "CHR 0x0A \<in> set p" using sp(6) last_in_set[OF p] by auto
    then show False using sp(4) by (auto simp: strip_def filter_empty_conv)
  qed
  then show ?thesis using sp by (auto simp: at_body_def)
qed

lemma at_body_sees: "at_body m ss sid b \<Longrightarrow> sees m ss sid (strip b)"
  unfolding at_body_def sees_to_def by fastforce

section \<open>Lines of a request\<close>

definition in_header :: "webs \<Rightarrow> bool" where "in_header wp \<longleftrightarrow> wstate wp = WEBS_BEGIN \<or> wstate wp = WEBS_HEADER"

lemma state_consts [simp]: "WEBS_BEGIN \<noteq> WEBS_POST_CLEN" "WEBS_HEADER \<noteq> WEBS_POST_CLEN" "WEBS_HEADER \<noteq> WEBS_BEGIN" "WEBS_BEGIN \<noteq> WEBS_HEADER"
  "WEBS_POST_CLEN \<noteq> WEBS_BEGIN" "WEBS_POST_CLEN \<noteq> WEBS_HEADER" "WEBS_BEGIN \<noteq> WEBS_POST" "WEBS_HEADER \<noteq> WEBS_POST"
  by (simp_all add: WEBS_BEGIN_def WEBS_HEADER_def WEBS_POST_CLEN_def WEBS_POST_def)

lemma websGetInput_line:
  assumes m: "ample (qmem v)" and r: "rreq r = Some wp" "in_header wp" and s: "sees_to (qmem v) (rsock r) (wsid wp) (l @ CHR 0x0A # x) b"
    and l: "CHR 0x0A \<notin> set l" "int (length l) \<le> E_MAX_REQUEST"
  shows "\<exists>ss. sees_to (qmem v) ss (wsid wp) x b \<and>
     websGetInput v r wp = (if l \<noteq> [] then Some (r\<lparr>rsock := ss\<rparr>, 1, Some (l @ [CHR 0x00]), int (length l))
       else if wstate wp = WEBS_HEADER then end_header v (r\<lparr>rsock := ss\<rparr>) wp else Some (r\<lparr>rsock := ss\<rparr>, -1, None, 0))"
proof -
  have w: "takeWhile (\<lambda>c. c \<noteq> CHR 0x0A) (l @ CHR 0x0A # x) = l" "tl (dropWhile (\<lambda>c. c \<noteq> CHR 0x0A) (l @ CHR 0x0A # x)) = x"
    using l(1) by (auto simp: takeWhile_append dropWhile_append)
  obtain ss where g: "socketGets (qmem v) (rsock r) (wsid wp) = Some (ss, if l = [] then None else Some (l @ [CHR 0x00]), int (length l))" "sees_to (qmem v) ss (wsid wp) x b"
    using socketGets_sees[OF m s] l(2) by (auto simp: w Let_def)
  have "websGetInput v r wp = get_text v r wp" using r(2) by (auto simp: websGetInput_def in_header_def)
  then show ?thesis using g l(2) by (intro exI[of _ ss]) (auto simp: get_text_def Let_def)
qed

lemma websGetInput_waits:
  assumes m: "ample (qmem v)" and r: "rreq r = Some wp" "in_header wp" and s: "sees (qmem v) (rsock r) (wsid wp) x"
    and l: "CHR 0x0A \<notin> set x" "int (length x) \<le> E_MAX_REQUEST"
  shows "\<exists>ss. sees (qmem v) ss (wsid wp) x \<and> websGetInput v r wp = Some (r\<lparr>rsock := ss\<rparr>, -1, None, 0)"
proof -
  have "int (length (takeWhile (\<lambda>c. c \<noteq> CHR 0x0A) x)) \<le> E_MAX_REQUEST" using l(2) length_takeWhile_le[of "\<lambda>c. c \<noteq> CHR 0x0A" x] by linarith
  then obtain ss where g: "socketGets (qmem v) (rsock r) (wsid wp) = Some (ss, None, -1)" "sees (qmem v) ss (wsid wp) x" "socketEof ss (wsid wp) = Some 0"
    using socketGets_sees[OF m s] l(1) by (simp only: if_False) blast
  have "websGetInput v r wp = get_text v r wp" using r(2) by (auto simp: websGetInput_def in_header_def)
  then show ?thesis using g by (intro exI[of _ ss]) (auto simp: get_text_def Let_def E_MAX_REQUEST_def)
qed

text \<open>A header queue that holds given lines.\<close>

definition holds_lines :: "ringq \<Rightarrow> cstring list \<Rightarrow> bool" where
  "holds_lines q ls \<longleftrightarrow> header_room q \<and> rq_data q = header_text ls \<and> (\<exists>r. buf q = header_text ls @ CHR 0x00 # r)"

lemma header_text_snoc: "header_text (ls @ [l]) = (if ls = [] then l else header_text ls @ CHR 0x0A # l)"
  by (induction ls rule: header_text.induct) auto

lemma header_text_prefix: "length (header_text ls) \<le> length (header_text (ls @ us))"
  by (induction ls rule: header_text.induct) (cases us; simp)+

lemma header_text_ne: "\<forall>l \<in> set ls. l \<noteq> [] \<Longrightarrow> header_text ls = [] \<longleftrightarrow> ls = []"
  by (cases ls rule: header_text.cases) auto

lemma add_header_spec:
  assumes m: "ample (qmem v)" and h: "holds_lines (wheader wp) ls" and l: "CHR 0x00 \<notin> set l" and ne: "\<forall>k \<in> set ls. k \<noteq> []"
    and n: "int (length (header_text (ls @ [l]))) < WEBS_MAX_HEADER - 1"
  shows "\<exists>q. add_header v wp (Some (l @ [CHR 0x00])) = Some (wp\<lparr>wheader := q\<rparr>) \<and> holds_lines q (ls @ [l])"
proof -
  let ?q = "wheader wp"
  have i: "header_room ?q" "rq_data ?q = header_text ls" "ringqLen ?q = int (length (rq_data ?q))"
    using h ringqLen_data[of ?q] by (auto simp: holds_lines_def header_room_def)
  have t: "text_str (Some (l @ [CHR 0x00])) = Some l" using l by (auto simp: text_str_def c_str_def takeWhile_append)
  show ?thesis
  proof (cases "ls = []")
    case True
    obtain q k where "ringqPutStr (qmem v) ?q l = Some (q, k)" "header_room q" "rq_data q = l" "\<exists>r. buf q = rq_data q @ CHR 0x00 # r"
      using ringqPutStr_header[OF m i(1), of l] i(2) n True by auto
    then show ?thesis using True i t by (auto simp: add_header_def holds_lines_def)
  next
    case False
    have e: "header_text (ls @ [l]) = (header_text ls @ [CHR 0x0A]) @ l" using False by (simp add: header_text_snoc)
    have "header_text ls \<noteq> []" using False header_text_ne[OF ne] by simp
    moreover obtain q1 k1 where q1: "ringqPutStr (qmem v) ?q [CHR 0x0A] = Some (q1, k1)" "header_room q1" "rq_data q1 = header_text ls @ [CHR 0x0A]"
      using ringqPutStr_header[OF m i(1), of "[CHR 0x0A]"] i(2) n e by auto
    moreover obtain q k where "ringqPutStr (qmem v) q1 l = Some (q, k)" "header_room q" "rq_data q = header_text (ls @ [l])" "\<exists>r. buf q = rq_data q @ CHR 0x00 # r"
      using ringqPutStr_header[OF m q1(2), of l] q1(3) n by (auto simp: e)
    ultimately show ?thesis using i t by (auto simp: add_header_def holds_lines_def)
  qed
qed

definition rest_text :: "cstring list \<Rightarrow> byte list" where "rest_text us = concat (map (\<lambda>l. l @ [CHR 0x0A]) us) @ [CHR 0x0A]"

definition good_line :: "cstring \<Rightarrow> bool" where
  "good_line l \<longleftrightarrow> l \<noteq> [] \<and> CHR 0x0A \<notin> set l \<and> CHR 0x0D \<notin> set l \<and> CHR 0x00 \<notin> set l \<and> int (length l) \<le> E_MAX_REQUEST"

lemma rest_text_simps [simp]: "rest_text [] = [CHR 0x0A]" "rest_text (l # us) = l @ CHR 0x0A # rest_text us"
  by (simp_all add: rest_text_def)

lemma prefix_line:
  assumes "y @ z = l @ c # x" "c \<notin> set l"
  shows "if c \<in> set y then \<exists>y2. y = l @ c # y2 \<and> y2 @ z = x else z \<noteq> [] \<and> length y \<le> length l"
  using assms
proof (induction l arbitrary: y)
  case (Cons d l)
  then show ?case by (cases y) (auto split: if_splits)
qed (auto simp: Cons_eq_append_conv append_eq_Cons_conv)

lemma reader_eta: "rreq r = Some wp \<Longrightarrow> r\<lparr>rreq := Some wp\<rparr> = r"
  by (cases r) simp

lemma event_loop_line:
  assumes m: "ample (qmem v)" and r: "rreq r = Some wp" "in_header wp" and s: "sees_to (qmem v) (rsock r) (wsid wp) (l @ CHR 0x0A # x) b" and l: "good_line l"
  shows "\<exists>ss. sees_to (qmem v) ss (wsid wp) x b \<and> event_loop v r fd = do {
     (r2, fd2, done) \<leftarrow> event_step v (r\<lparr>rsock := ss\<rparr>) wp fd (Some (l @ [CHR 0x00])) (int (length l));
     if done then Some r2 else event_loop v r2 fd2 }"
proof -
  obtain ss where "sees_to (qmem v) ss (wsid wp) x b" "websGetInput v r wp = Some (r\<lparr>rsock := ss\<rparr>, 1, Some (l @ [CHR 0x00]), int (length l))"
    using websGetInput_line[OF m r s] l by (auto simp: good_line_def)
  then show ?thesis using r(1) by (intro exI[of _ ss]) (simp add: event_loop.simps[of v r] input_loop.simps[of v r])
qed

lemma event_loop_waits:
  assumes m: "ample (qmem v)" and r: "rreq r = Some wp" "in_header wp" and s: "sees (qmem v) (rsock r) (wsid wp) x"
    and l: "CHR 0x0A \<notin> set x" "int (length x) \<le> E_MAX_REQUEST"
  shows "\<exists>ss. sees (qmem v) ss (wsid wp) x \<and> event_loop v r fd = Some (r\<lparr>rsock := ss\<rparr>)"
proof -
  obtain ss where "sees (qmem v) ss (wsid wp) x" "websGetInput v r wp = Some (r\<lparr>rsock := ss\<rparr>, -1, None, 0)"
    using websGetInput_waits[OF m r s l] by blast
  then show ?thesis using r(1) by (intro exI[of _ ss]) (simp add: event_loop.simps[of v r] input_loop.simps[of v r])
qed

lemma event_loop_header:
  assumes m: "ample (qmem v)"
  shows "rreq r = Some wp \<Longrightarrow> wstate wp = WEBS_HEADER \<Longrightarrow> sees_to (qmem v) (rsock r) (wsid wp) y b \<Longrightarrow> y @ z = rest_text us \<Longrightarrow> holds_lines (wheader wp) hs \<Longrightarrow>
     \<forall>l \<in> set (hs @ us). good_line l \<Longrightarrow> int (length (header_text (hs @ us))) < WEBS_MAX_HEADER - 1 \<Longrightarrow>
     \<exists>us1 us2 x ss q. us = us1 @ us2 \<and> event_loop v r fd = event_loop v (r\<lparr>rsock := ss, rreq := Some (wp\<lparr>wheader := q\<rparr>)\<rparr>) fd \<and>
       sees_to (qmem v) ss (wsid wp) x b \<and> holds_lines q (hs @ us1) \<and> x @ z = rest_text us2 \<and> (if z = [] then us2 = [] else CHR 0x0A \<notin> set x)"
proof (induction us arbitrary: r wp hs y)
  case Nil
  have "if z = [] then [] = ([] :: cstring list) else CHR 0x0A \<notin> set y" using Nil.prems(4) by (auto simp: append_eq_Cons_conv)
  then show ?case using Nil.prems
    by - (rule exI[of _ "[]"], rule exI[of _ "[]"], rule exI[of _ y], rule exI[of _ "rsock r"], rule exI[of _ "wheader wp"], simp add: reader_eta)
next
  case (Cons l us)
  have g: "good_line l" "CHR 0x0A \<notin> set l" "CHR 0x00 \<notin> set l" using Cons.prems(6) by (auto simp: good_line_def)
  have yz: "y @ z = l @ CHR 0x0A # rest_text us" using Cons.prems(4) by simp
  show ?case
  proof (cases "CHR 0x0A \<in> set y")
    case False
    then have "z \<noteq> []" using prefix_line[OF yz g(2)] by simp
    then show ?thesis using False Cons.prems
      by - (rule exI[of _ "[]"], rule exI[of _ "l # us"], rule exI[of _ y], rule exI[of _ "rsock r"], rule exI[of _ "wheader wp"], simp add: reader_eta)
  next
    case True
    then obtain y2 where y2: "y = l @ CHR 0x0A # y2" "y2 @ z = rest_text us" using prefix_line[OF yz g(2)] by auto
    have ih: "in_header wp" using Cons.prems(2) by (simp add: in_header_def)
    obtain ss where ss: "sees_to (qmem v) ss (wsid wp) y2 b" "event_loop v r fd = do {
       (r2, fd2, done) \<leftarrow> event_step v (r\<lparr>rsock := ss\<rparr>) wp fd (Some (l @ [CHR 0x00])) (int (length l)); if done then Some r2 else event_loop v r2 fd2 }"
      using event_loop_line[OF m Cons.prems(1) ih _ g(1)] Cons.prems(3) y2(1) by blast
    have ne: "\<forall>k \<in> set hs. k \<noteq> []" using Cons.prems(6) by (auto simp: good_line_def)
    have "int (length (header_text (hs @ [l]))) < WEBS_MAX_HEADER - 1" using Cons.prems(7) header_text_prefix[of "hs @ [l]" us] by simp
    then obtain q where q: "add_header v wp (Some (l @ [CHR 0x00])) = Some (wp\<lparr>wheader := q\<rparr>)" "holds_lines q (hs @ [l])"
      using add_header_spec[OF m Cons.prems(5) g(3) ne] by blast
    let ?r = "r\<lparr>rsock := ss, rreq := Some (wp\<lparr>wheader := q\<rparr>)\<rparr>"
    have e: "event_loop v r fd = event_loop v ?r fd" using ss(2) q(1) Cons.prems(2) by (simp add: event_step_def)
    have "\<exists>us1 us2 x ss q'. us = us1 @ us2 \<and> event_loop v ?r fd = event_loop v (?r\<lparr>rsock := ss, rreq := Some (wp\<lparr>wheader := q, wheader := q'\<rparr>)\<rparr>) fd \<and>
       sees_to (qmem v) ss (wsid (wp\<lparr>wheader := q\<rparr>)) x b \<and> holds_lines q' ((hs @ [l]) @ us1) \<and> x @ z = rest_text us2 \<and> (if z = [] then us2 = [] else CHR 0x0A \<notin> set x)"
      by (rule Cons.IH[where y = y2]) (use ss(1) y2(2) q(2) Cons.prems in auto)
    then obtain us1 us2 x ss' q' where i: "us = us1 @ us2" "event_loop v ?r fd = event_loop v (r\<lparr>rsock := ss', rreq := Some (wp\<lparr>wheader := q'\<rparr>)\<rparr>) fd"
       "sees_to (qmem v) ss' (wsid wp) x b" "holds_lines q' ((hs @ [l]) @ us1)" "x @ z = rest_text us2" "if z = [] then us2 = [] else CHR 0x0A \<notin> set x"
      by auto
    show ?thesis using i e
      by - (rule exI[of _ "l # us1"], rule exI[of _ us2], rule exI[of _ x], rule exI[of _ ss'], rule exI[of _ q'], simp)
  qed
qed

section \<open>The request line and the end of the header\<close>

lemma first_record_same [simp]: "wheader (first_record g wp u q h p pr pv pn ext) = wheader wp" "wsid (first_record g wp u q h p pr pv pn ext) = wsid wp"
  "cgiVars (first_record g wp u q h p pr pv pn ext) = cgiVars wp"
  "first_record g (wp\<lparr>timestamp := t\<rparr>) u q h p pr pv pn ext = (first_record g wp u q h p pr pv pn ext)\<lparr>timestamp := t\<rparr>"
  by (simp_all add: first_record_def set_flag_def Let_def)

lemma first_fields_keeps:
  assumes "first_fields m sc dup g st wp u pv f = Some w"
  shows "ringqFlush (wheader wp) = Some (wheader w) \<and> wsid w = wsid wp \<and> cgiVars w = cgiVars wp"
  using assms by (auto simp: first_fields_def Let_def bind_eq_Some_conv)

lemma websParseFirst_keeps:
  assumes "websParseFirst m sc ok dup g st wp text = Some (s1, wp1, None)"
  shows "ringqFlush (wheader wp) = Some (wheader wp1)" "wsid wp1 = wsid wp" "cgiVars wp1 = cgiVars wp" "same_but (cgiVars wp) st s1"
proof -
  show "same_but (cgiVars wp) st s1"
    using assms by (auto simp: websParseFirst_def Let_def bind_eq_Some_conv split: option.splits dest!: websSetVar_frame)
  obtain fl u pv f where "first_fields m sc dup g s1 (set_flag fl wp) u pv f = Some wp1"
    using assms by (auto simp: websParseFirst_def Let_def bind_eq_Some_conv split: option.splits)
  then show "ringqFlush (wheader wp) = Some (wheader wp1)" "wsid wp1 = wsid wp" "cgiVars wp1 = cgiVars wp"
    using first_fields_keeps by (fastforce simp: set_flag_def)+
qed

lemma set_flag_time: "set_flag f (wp\<lparr>timestamp := t\<rparr>) = (set_flag f wp)\<lparr>timestamp := t\<rparr>" "wflags (wp\<lparr>timestamp := t\<rparr>) = wflags wp"
  by (simp_all add: set_flag_def)

lemma map_bind: "map_option f (bind x h) = bind x (\<lambda>y. map_option f (h y))" by (cases x) auto

lemma type_header_time: "w\<lparr>timestamp := t, wtype := a, wheader := h\<rparr> = w\<lparr>wtype := a, wheader := h, timestamp := t\<rparr>" for w :: webs by (cases w) simp

lemma state_header_time: "w\<lparr>wstate := a, wheader := h, timestamp := t\<rparr> = w\<lparr>timestamp := t, wstate := a, wheader := h\<rparr>" for w :: webs by (cases w) simp

lemma first_fields_time:
  "first_fields m sc dup g st (wp\<lparr>timestamp := t\<rparr>) u pv f = map_option (\<lambda>w. w\<lparr>timestamp := t\<rparr>) (first_fields m sc dup g st wp u pv f)"
  by (simp add: first_fields_def Let_def map_bind type_header_time)

lemma websParseFirst_time:
  "websParseFirst m sc ok dup g st (wp\<lparr>timestamp := t\<rparr>) text = map_option (\<lambda>(s, w, e). (s, w\<lparr>timestamp := t\<rparr>, e)) (websParseFirst m sc ok dup g st wp text)"
proof -
  have o: "(case x of None \<Rightarrow> map_option f a | Some y \<Rightarrow> map_option f (h y)) = map_option f (case x of None \<Rightarrow> a | Some y \<Rightarrow> h y)" for x f a h by (cases x) auto
  have p: "(case x of (y, z) \<Rightarrow> map_option f (h y z)) = map_option f (case x of (y, z) \<Rightarrow> h y z)" for x f h by (cases x) auto
  show ?thesis
    by (auto simp: websParseFirst_def Let_def set_flag_time first_fields_time map_bind bind_map_option comp_def o[symmetric] p[symmetric]
        split: option.split intro!: Option.bind_cong)
qed

lemma syms_set [simp]: "syms (set_syms srv s) = s" "set_syms (set_syms srv s) s' = set_syms srv s'"
  by (simp_all add: syms_def set_syms_def)

lemma field_wp_post [simp]: "wflags (field_wp sc wp kv) AND WEBS_POST_REQUEST = wflags wp AND WEBS_POST_REQUEST"
  by (simp add: field_wp_def set_flag_def Let_def WEBS_POST_REQUEST_def WEBS_CLEN_def WEBS_COOKIE_def and.commute[of _ 32] bit.conj_disj_distrib)

lemma fold_field_post: "wflags (foldl (field_wp sc) wp kvs) AND WEBS_POST_REQUEST = wflags wp AND WEBS_POST_REQUEST"
  by (induction kvs arbitrary: wp) auto

text \<open>What follows the empty line at the end of a header: posted data are read, any other request is dispatched.\<close>

definition after_header :: "read_env \<Rightarrow> reader \<Rightarrow> webs \<Rightarrow> reader option" where
  "after_header v r w =
     (if wflags w AND WEBS_POST_REQUEST = 0 then dispatch v r w
      else let w1 = w\<lparr>wstate := (if wflags w AND WEBS_CLEN \<noteq> 0 then WEBS_POST_CLEN else WEBS_POST)\<rparr>; r1 = r\<lparr>rreq := Some w1\<rparr>
        in if wflags w AND WEBS_CLEN \<noteq> 0 \<and> clen w \<le> 0
           then do { (r2, fd, done) \<leftarrow> event_step v r1 w1 (-1) None 0; if done then Some r2 else event_loop v r2 fd }
           else event_loop v r1 (-1))"

lemma end_header_spec:
  assumes "\<forall>n. pmem v n \<noteq> None" "sym_ok v" "dup_ok v" and h: "holds_lines (wheader wp) ls" and e: "vars_are (signed_char v) (cgiVars wp) (syms (rsrv r)) e"
    and l: "\<forall>l \<in> set ls. wf_line l \<and> header_ok (signed_char v) (header_pair l)"
  shows "\<exists>s q. websParseRequest (pmem v) (signed_char v) True True (auth_stack v) (syms (rsrv r)) (wp\<lparr>token_flag := 0\<rparr>) =
       Some (s, (foldl (field_wp (signed_char v)) (wp\<lparr>token_flag := 0\<rparr>) (map header_pair ls))\<lparr>wheader := q\<rparr>) \<and>
     same_but (cgiVars wp) (syms (rsrv r)) s \<and> vars_are (signed_char v) (cgiVars wp) s (foldl field_env (e(''HTTP_AUTHORIZATION'' \<mapsto> [])) (map header_pair ls))"
proof -
  let ?w = "wp\<lparr>token_flag := 0\<rparr>"
  obtain rr where b: "servp (wheader ?w) = 0" "buf (wheader ?w) = header_text ls @ CHR 0x00 # rr" using h by (auto simp: holds_lines_def header_room_def)
  obtain s q where s: "websParseRequest (pmem v) (signed_char v) True True (auth_stack v) (syms (rsrv r)) ?w =
       Some (s, (foldl (field_wp (signed_char v)) ?w (map header_pair ls))\<lparr>wheader := q\<rparr>)"
     "vars_are (signed_char v) (cgiVars wp) s (foldl field_env (e(''HTTP_AUTHORIZATION'' \<mapsto> [])) (map header_pair ls))"
    using websParseRequest_spec[OF assms(1) _ b l, of "syms (rsrv r)" e "auth_stack v"] e by auto
  then show ?thesis using websParseRequest_frame[OF s(1)] by (intro exI[of _ s] exI[of _ q]) simp
qed

lemma event_loop_after:
  assumes r: "rreq r = Some wp" and g: "websGetInput v r wp = end_header v r1 wp"
    and p: "websParseRequest (pmem v) (signed_char v) (sym_ok v) (dup_ok v) (auth_stack v) (syms (rsrv r1)) (wp\<lparr>token_flag := 0\<rparr>) = Some (s, w)"
  shows "event_loop v r (-1) = after_header v (r1\<lparr>rsrv := set_syms (rsrv r1) s\<rparr>) w"
proof -
  let ?w = "w\<lparr>wstate := (if wflags w AND WEBS_CLEN \<noteq> 0 then WEBS_POST_CLEN else WEBS_POST)\<rparr>"
  let ?r = "r1\<lparr>rsrv := set_syms (rsrv r1) s, rreq := Some ?w\<rparr>"
  have e: "end_header v r1 wp = (if wflags w AND WEBS_POST_REQUEST \<noteq> 0
      then Some (?r, if wflags w AND WEBS_CLEN \<noteq> 0 \<and> clen w \<le> 0 then 1 else 0, None, 0)
      else do { r2 \<leftarrow> dispatch v (r1\<lparr>rsrv := set_syms (rsrv r1) s\<rparr>) w; Some (r2, -1, None, 0) })"
    using p by (simp add: end_header_def Let_def)
  show ?thesis
  proof (cases "wflags w AND WEBS_POST_REQUEST \<noteq> 0 \<and> \<not> (wflags w AND WEBS_CLEN \<noteq> 0 \<and> clen w \<le> 0)")
    case True
    then have "input_loop v r = input_loop v ?r" using r g e by (subst input_loop.simps) auto
    then have "event_loop v r (-1) = event_loop v ?r (-1)" by (subst (1 2) event_loop.simps) simp
    then show ?thesis using True by (auto simp: after_header_def Let_def)
  next
    case False
    then show ?thesis using r g e by (subst event_loop.simps, subst input_loop.simps) (auto simp: after_header_def Let_def)
  qed
qed

text \<open>What the lines of a header make of a request, apart from its queue.\<close>

definition with_headers :: "bool \<Rightarrow> webs \<Rightarrow> cstring list \<Rightarrow> webs" where
  "with_headers sc wp ls = foldl (field_wp sc) (wp\<lparr>token_flag := 0\<rparr>) (map header_pair ls)"

definition header_env :: "(cstring \<rightharpoonup> cstring) \<Rightarrow> cstring list \<Rightarrow> (cstring \<rightharpoonup> cstring)" where
  "header_env e ls = foldl field_env (e(''HTTP_AUTHORIZATION'' \<mapsto> [])) (map header_pair ls)"

lemma dispatch_same [simp]: "dispatch (v\<lparr>now := t\<rparr>) r wp = dispatch v r wp" "dispatch v (r\<lparr>rreq := w\<rparr>) wp = dispatch v r wp"
  by (simp_all add: dispatch_def)

lemma event_loop_end:
  assumes m: "ample (qmem v)" and mp: "\<forall>n. pmem v n \<noteq> None" "sym_ok v" "dup_ok v" and r: "rreq r = Some wp" "wstate wp = WEBS_HEADER"
    and s: "sees_to (qmem v) (rsock r) (wsid wp) [CHR 0x0A] (Some b)" and h: "holds_lines (wheader wp) ls" and e: "vars_are (signed_char v) (cgiVars wp) (syms (rsrv r)) e"
    and l: "\<forall>l \<in> set ls. wf_line l \<and> header_ok (signed_char v) (header_pair l)"
  shows "\<exists>ss s q. event_loop v r (-1) = after_header v (r\<lparr>rsock := ss, rsrv := set_syms (rsrv r) s\<rparr>) ((with_headers (signed_char v) wp ls)\<lparr>wheader := q\<rparr>) \<and>
     at_body (qmem v) ss (wsid wp) b \<and> same_but (cgiVars wp) (syms (rsrv r)) s \<and> vars_are (signed_char v) (cgiVars wp) s (header_env e ls)"
proof -
  have ih: "in_header wp" using r(2) by (simp add: in_header_def)
  obtain ss where ss: "sees_to (qmem v) ss (wsid wp) [] (Some b)" "websGetInput v r wp = end_header v (r\<lparr>rsock := ss\<rparr>) wp"
    using websGetInput_line[OF m r(1) ih, of "[]" "[]"] s r(2) by (auto simp: E_MAX_REQUEST_def)
  obtain s q where p: "websParseRequest (pmem v) (signed_char v) True True (auth_stack v) (syms (rsrv r)) (wp\<lparr>token_flag := 0\<rparr>) = Some (s, (with_headers (signed_char v) wp ls)\<lparr>wheader := q\<rparr>)"
     "same_but (cgiVars wp) (syms (rsrv r)) s" "vars_are (signed_char v) (cgiVars wp) s (header_env e ls)"
    using end_header_spec[OF mp h e l] by (auto simp: with_headers_def header_env_def)
  have "event_loop v r (-1) = after_header v (r\<lparr>rsock := ss, rsrv := set_syms (rsrv r) s\<rparr>) ((with_headers (signed_char v) wp ls)\<lparr>wheader := q\<rparr>)"
    using event_loop_after[OF r(1) ss(2)] p(1) mp by simp
  then show ?thesis using sees_at_body[OF ss(1)] p(2,3) by blast
qed

text \<open>The reader between two read events: \<open>z\<close> is what is still to come of the request, without carriage returns.\<close>

definition hears :: "read_env \<Rightarrow> server \<Rightarrow> webs \<Rightarrow> cstring \<Rightarrow> sym_state \<Rightarrow> webs \<Rightarrow> cstring list \<Rightarrow> reader \<Rightarrow> byte list \<Rightarrow> bool" where
  "hears v srv W u s1 W1 us r z \<longleftrightarrow> (\<exists>x t. sees (qmem v) (rsock r) (wsid W) x \<and> CHR 0x0A \<notin> set x \<and>
     (rsrv r = srv \<and> rreq r = Some (W\<lparr>timestamp := t\<rparr>) \<and> x @ z = u @ CHR 0x0A # rest_text us \<or>
      (\<exists>q us1 us2. rsrv r = set_syms srv s1 \<and> rreq r = Some (W1\<lparr>timestamp := t, wstate := WEBS_HEADER, wheader := q\<rparr>) \<and>
         us = us1 @ us2 \<and> holds_lines q us1 \<and> x @ z = rest_text us2)))"

definition reads_request :: "read_env \<Rightarrow> server \<Rightarrow> webs \<Rightarrow> cstring \<Rightarrow> sym_state \<Rightarrow> webs \<Rightarrow> cstring list \<Rightarrow> (cstring \<rightharpoonup> cstring) \<Rightarrow> bool" where
  "reads_request v srv W u s1 W1 us e \<longleftrightarrow> ample (qmem v) \<and> (\<forall>n. pmem v n \<noteq> None) \<and> sym_ok v \<and> dup_ok v \<and>
     wstate W = WEBS_BEGIN \<and> header_room (wheader W) \<and> good_line u \<and>
     websParseFirst (pmem v) (signed_char v) True True (penv v) (syms srv) W u = Some (s1, W1, None) \<and> vars_are (signed_char v) (cgiVars W) s1 e \<and>
     (\<forall>l \<in> set us. good_line l \<and> wf_line l \<and> header_ok (signed_char v) (header_pair l)) \<and>
     int (length (header_text us)) < WEBS_MAX_HEADER - 1"

text \<open>
  What one read event does in the header: it waits, or goes on after the header when nothing of it is left to
  come; \<open>b\<close> is then what has arrived after it.
\<close>

definition event_result :: "read_env \<Rightarrow> server \<Rightarrow> webs \<Rightarrow> cstring \<Rightarrow> sym_state \<Rightarrow> webs \<Rightarrow> cstring list \<Rightarrow> (cstring \<rightharpoonup> cstring) \<Rightarrow> reader \<Rightarrow> int \<Rightarrow> byte list \<Rightarrow> byte list \<Rightarrow> reader option \<Rightarrow> bool" where
  "event_result v srv W u s1 W1 us e r t z b res \<longleftrightarrow>
     (if z \<noteq> [] then \<exists>r'. res = Some r' \<and> hears v srv W u s1 W1 us r' z \<and> rcgi r' = rcgi r \<and> rout r' = rout r
      else \<exists>ss s q. res = after_header (v\<lparr>now := t\<rparr>) (r\<lparr>rsock := ss, rsrv := set_syms srv s\<rparr>)
             ((with_headers (signed_char v) (W1\<lparr>timestamp := t, wstate := WEBS_HEADER\<rparr>) us)\<lparr>wheader := q\<rparr>) \<and>
           at_body (qmem v) ss (wsid W) b \<and> same_but (cgiVars W) (syms srv) s \<and> vars_are (signed_char v) (cgiVars W) s (header_env e us))"

lemma field_wp_header: "field_wp sc (wp\<lparr>wheader := q\<rparr>) kv = (field_wp sc wp kv)\<lparr>wheader := q\<rparr>"
  by (cases wp) (auto simp: field_wp_def set_flag_def Let_def)

lemma with_headers_header [simp]: "with_headers sc (wp\<lparr>wheader := q\<rparr>) ls = (with_headers sc wp ls)\<lparr>wheader := q\<rparr>"
proof -
  have f: "foldl (field_wp sc) (w\<lparr>wheader := q\<rparr>) kvs = (foldl (field_wp sc) w kvs)\<lparr>wheader := q\<rparr>" for w kvs
    by (induction kvs arbitrary: w) (auto simp: field_wp_header)
  have "wp\<lparr>wheader := q, token_flag := 0\<rparr> = wp\<lparr>token_flag := 0, wheader := q\<rparr>" by (cases wp) simp
  then show ?thesis by (simp only: with_headers_def f)
qed

lemma short_prefix:
  assumes "x @ z = rest_text us" "CHR 0x0A \<notin> set x" "\<forall>l \<in> set us. good_line l"
  shows "int (length x) \<le> E_MAX_REQUEST"
proof (cases us)
  case Nil
  then show ?thesis using assms(1,2) by (auto simp: append_eq_Cons_conv E_MAX_REQUEST_def)
next
  case (Cons l us')
  then have "length x \<le> length l" using prefix_line[of x z l "CHR 0x0A" "rest_text us'"] assms by (auto simp: good_line_def)
  then show ?thesis using assms(3) Cons by (auto simp: good_line_def)
qed

lemma after_same: "after_header v (r\<lparr>rreq := w\<rparr>) wp = after_header v r wp"
  by (simp add: after_header_def Let_def)

lemma header_event:
  assumes q: "reads_request v srv W u s1 W1 us e" and r: "rsrv r = set_syms srv s1" "rreq r = Some (W1\<lparr>timestamp := t, wstate := WEBS_HEADER, wheader := q\<rparr>)"
    and us: "us = us1 @ us2" "holds_lines q us1" and y: "sees_to (qmem v) (rsock r) (wsid W) y (if z = [] then Some b else None)" "y @ z = rest_text us2"
    and nw: "now v = t"
  shows "event_result v srv W u s1 W1 us e r t z b (event_loop v r (-1))"
proof -
  let ?wp = "W1\<lparr>timestamp := t, wstate := WEBS_HEADER, wheader := q\<rparr>"
  have m: "ample (qmem v)" and mp: "\<forall>n. pmem v n \<noteq> None" "sym_ok v" "dup_ok v"
    and gl: "\<forall>l \<in> set us. good_line l" and ln: "int (length (header_text us)) < WEBS_MAX_HEADER - 1"
    and wl: "\<forall>l \<in> set us. wf_line l \<and> header_ok (signed_char v) (header_pair l)" and e: "vars_are (signed_char v) (cgiVars W) s1 e"
    using q by (auto simp: reads_request_def)
  have k: "wsid W1 = wsid W" "cgiVars W1 = cgiVars W" "same_but (cgiVars W) (syms srv) s1" using websParseFirst_keeps q by (auto simp: reads_request_def)
  have "\<exists>us3 us4 x ss q'. us2 = us3 @ us4 \<and> event_loop v r (-1) = event_loop v (r\<lparr>rsock := ss, rreq := Some (?wp\<lparr>wheader := q'\<rparr>)\<rparr>) (-1) \<and>
       sees_to (qmem v) ss (wsid ?wp) x (if z = [] then Some b else None) \<and> holds_lines q' (us1 @ us3) \<and> x @ z = rest_text us4 \<and> (if z = [] then us4 = [] else CHR 0x0A \<notin> set x)"
    by (rule event_loop_header[OF m r(2) _ _ y(2)]) (use y us gl ln k in auto)
  then obtain us3 us4 x ss q' where h: "us2 = us3 @ us4" "event_loop v r (-1) = event_loop v (r\<lparr>rsock := ss, rreq := Some (?wp\<lparr>wheader := q'\<rparr>)\<rparr>) (-1)"
     "sees_to (qmem v) ss (wsid W) x (if z = [] then Some b else None)" "holds_lines q' (us1 @ us3)" "x @ z = rest_text us4" "if z = [] then us4 = [] else CHR 0x0A \<notin> set x"
    using k by auto
  let ?w = "W1\<lparr>timestamp := t, wstate := WEBS_HEADER, wheader := q'\<rparr>"
  let ?r = "r\<lparr>rsock := ss, rreq := Some ?w\<rparr>"
  have ev: "event_loop v r (-1) = event_loop v ?r (-1)" using h(2) by simp
  show ?thesis
  proof (cases "z = []")
    case True
    then have x: "x = [CHR 0x0A]" "us = us1 @ us3" using h(1,5,6) us(1) by auto
    obtain ss' s q'' where d: "event_loop v ?r (-1) = after_header v (?r\<lparr>rsock := ss', rsrv := set_syms (rsrv ?r) s\<rparr>) ((with_headers (signed_char v) ?w us)\<lparr>wheader := q''\<rparr>)"
       "at_body (qmem v) ss' (wsid ?w) b" "vars_are (signed_char v) (cgiVars ?w) s (header_env e us)" "same_but (cgiVars ?w) s1 s"
      using event_loop_end[OF m mp, of ?r ?w b us e] h(3,4) e k r(1) wl x True by auto
    have "?r\<lparr>rsock := ss', rsrv := set_syms (rsrv ?r) s\<rparr> = r\<lparr>rsock := ss', rsrv := set_syms srv s, rreq := Some ?w\<rparr>" using r(1) by (cases r) simp
    then have "event_loop v r (-1) = after_header v (r\<lparr>rsock := ss', rsrv := set_syms srv s\<rparr>)
        ((with_headers (signed_char v) (W1\<lparr>timestamp := t, wstate := WEBS_HEADER\<rparr>) us)\<lparr>wheader := q''\<rparr>)" using d(1) ev by (simp add: after_same)
    moreover have "same_but (cgiVars W) (syms srv) s" using same_but_trans[OF k(3)] d(4) k(2) by simp
    moreover have "v\<lparr>now := t\<rparr> = v" using nw by (cases v) simp
    ultimately show ?thesis using d(2,3) True k unfolding event_result_def by auto
  next
    case False
    have nl: "CHR 0x0A \<notin> set x" using h(6) False by simp
    have "int (length x) \<le> E_MAX_REQUEST" using short_prefix[OF h(5) nl] gl us(1) h(1) by auto
    then obtain ss' where w: "sees (qmem v) ss' (wsid W) x" "event_loop v ?r (-1) = Some (?r\<lparr>rsock := ss'\<rparr>)"
      using event_loop_waits[OF m, of ?r ?w x "-1"] nl h(3) k False by (auto simp: in_header_def)
    have "hears v srv W u s1 W1 us (?r\<lparr>rsock := ss'\<rparr>) z" unfolding hears_def
      by (intro exI[of _ x] exI[of _ t] conjI disjI2 exI[of _ q'] exI[of _ "us1 @ us3"] exI[of _ us4]) (use w nl r us h in auto)
    then show ?thesis using ev w(2) False unfolding event_result_def by simp
  qed
qed

lemma flush_holds:
  assumes "header_room q" "ringqFlush q = Some q'"
  shows "holds_lines q' []"
proof -
  have i: "rq_inv q" using assms(1) by (simp add: header_room_def)
  then have ne: "buf q \<noteq> []" by (auto simp: rq_inv_def)
  have q: "rq_inv q'" "rq_data q' = []" "rq_same_shape q q'" using ringqFlush_spec[OF i] assms(2) by auto
  obtain b where b: "mem_write (buf q) 0 CHR 0x00 = Some b" "q' = q\<lparr>servp := 0, endp := 0, buf := b\<rparr>"
    using assms(2) ne by (auto simp: ringqFlush_def bind_eq_Some_conv)
  have "\<exists>r. b = CHR 0x00 # r" using b(1) ne by (cases "buf q") (auto simp: mem_write_def split: if_splits)
  then show ?thesis using q b assms(1) by (auto simp: holds_lines_def header_room_def rq_same_shape_def)
qed

lemma after_other:
  assumes "rcgi r' = rcgi r" "rout r' = rout r"
  shows "after_header v (r'\<lparr>rsock := ss, rsrv := sv\<rparr>) wp = after_header v (r\<lparr>rsock := ss, rsrv := sv\<rparr>) wp"
proof -
  have "r'\<lparr>rsock := ss, rsrv := sv\<rparr> = r\<lparr>rsock := ss, rsrv := sv, rreq := rreq r'\<rparr>" using assms by (cases r; cases r') simp
  then show ?thesis by (simp add: after_same)
qed

lemma event_result_same:
  assumes "rcgi r' = rcgi r" "rout r' = rout r" and "event_result v srv W u s1 W1 us e r' t z b res"
  shows "event_result v srv W u s1 W1 us e r t z b res"
  using assms after_other[OF assms(1,2)] by (auto simp: event_result_def)

lemma read_event:
  assumes q: "reads_request v srv W u s1 W1 us e" and h: "hears v srv W u s1 W1 us r (strip h @ z)" and d: "h @ b \<noteq> []" "if z = [] then h \<noteq> [] \<and> last h = CHR 0x0A else b = []"
  shows "event_result v srv W u s1 W1 us e r t z b (do { wp \<leftarrow> rreq r; websReadEvent (v\<lparr>now := t\<rparr>) (r\<lparr>rsock := arrive (rsock r) (wsid wp) (h @ b)\<rparr>) })"
proof -
  let ?v = "v\<lparr>now := t\<rparr>" and ?ss = "arrive (rsock r) (wsid W) (h @ b)"
  have q': "reads_request ?v srv W u s1 W1 us e" using q by (simp add: reads_request_def)
  have er: "event_result ?v = event_result v" by (intro ext) (simp add: event_result_def hears_def)
  have m: "ample (qmem ?v)" and pf: "websParseFirst (pmem v) (signed_char v) True True (penv v) (syms srv) W u = Some (s1, W1, None)"
    and gu: "good_line u" and st: "wstate W = WEBS_BEGIN" and hr: "header_room (wheader W)" and ok: "sym_ok v" "dup_ok v"
    using q by (auto simp: reads_request_def)
  have k: "wsid W1 = wsid W" "cgiVars W1 = cgiVars W" "ringqFlush (wheader W) = Some (wheader W1)" using websParseFirst_keeps[OF pf] by auto
  obtain x t0 where x: "sees (qmem v) (rsock r) (wsid W) x" "CHR 0x0A \<notin> set x" and ab:
     "rsrv r = srv \<and> rreq r = Some (W\<lparr>timestamp := t0\<rparr>) \<and> x @ strip h @ z = u @ CHR 0x0A # rest_text us \<or>
      (\<exists>q us1 us2. rsrv r = set_syms srv s1 \<and> rreq r = Some (W1\<lparr>timestamp := t0, wstate := WEBS_HEADER, wheader := q\<rparr>) \<and>
         us = us1 @ us2 \<and> holds_lines q us1 \<and> x @ strip h @ z = rest_text us2)"
    using h unfolding hears_def by blast
  have y: "sees_to (qmem ?v) ?ss (wsid W) (x @ strip h) (if z = [] then Some b else None)"
    using sees_arrive[OF x(1), of h "if z = [] then Some b else None"] d by (auto split: if_splits)
  from ab show ?thesis
  proof (elim disjE exE conjE)
    fix qq us1 us2 assume bb: "rsrv r = set_syms srv s1" "rreq r = Some (W1\<lparr>timestamp := t0, wstate := WEBS_HEADER, wheader := qq\<rparr>)"
      "us = us1 @ us2" "holds_lines qq us1" "x @ strip h @ z = rest_text us2"
    let ?r = "r\<lparr>rsock := ?ss, rreq := Some (W1\<lparr>timestamp := t, wstate := WEBS_HEADER, wheader := qq\<rparr>)\<rparr>"
    have "event_result ?v srv W u s1 W1 us e ?r t z b (event_loop ?v ?r (-1))"
      by (rule header_event[OF q' _ _ bb(3,4), where y = "x @ strip h"]) (use bb y in auto)
    then have "event_result v srv W u s1 W1 us e r t z b (event_loop ?v ?r (-1))" unfolding er by (rule event_result_same[rotated 2]) simp_all
    then show ?thesis using bb(2) k by (simp add: websReadEvent_def state_header_time)
  next
    assume a: "rsrv r = srv" "rreq r = Some (W\<lparr>timestamp := t0\<rparr>)" "x @ strip h @ z = u @ CHR 0x0A # rest_text us"
    let ?w = "W\<lparr>timestamp := t\<rparr>"
    let ?r = "r\<lparr>rsock := ?ss, rreq := Some ?w\<rparr>"
    have w: "websReadEvent ?v (r\<lparr>rsock := ?ss\<rparr>) = event_loop ?v ?r (-1)" using a(2) by (simp add: websReadEvent_def)
    have ih: "rreq ?r = Some ?w" "in_header ?w" using st by (simp_all add: in_header_def)
    have yz: "(x @ strip h) @ z = u @ CHR 0x0A # rest_text us" using a(3) by simp
    have nu: "CHR 0x0A \<notin> set u" using gu by (simp add: good_line_def)
    show ?thesis
    proof (cases "CHR 0x0A \<in> set (x @ strip h)")
      case False
      then have z: "z \<noteq> []" "int (length (x @ strip h)) \<le> E_MAX_REQUEST" using prefix_line[OF yz nu] gu by (auto simp: good_line_def)
      obtain ss where s: "sees (qmem v) ss (wsid W) (x @ strip h)" "event_loop ?v ?r (-1) = Some (?r\<lparr>rsock := ss\<rparr>)"
        using event_loop_waits[OF m ih, of "x @ strip h" "-1"] y False z by auto
      have "hears v srv W u s1 W1 us (?r\<lparr>rsock := ss\<rparr>) z" unfolding hears_def
        by (intro exI[of _ "x @ strip h"] exI[of _ t] conjI disjI1) (use s(1) False a(1) yz in auto)
      then show ?thesis using s(2) w z(1) a(2) by (simp add: event_result_def)
    next
      case True
      then obtain y2 where y2: "x @ strip h = u @ CHR 0x0A # y2" "y2 @ z = rest_text us" using prefix_line[OF yz nu] by auto
      have sy: "sees_to (qmem ?v) (rsock ?r) (wsid ?w) (u @ CHR 0x0A # y2) (if z = [] then Some b else None)" using y y2(1) by simp
      obtain ss where ss: "sees_to (qmem ?v) ss (wsid ?w) y2 (if z = [] then Some b else None)" "event_loop ?v ?r (-1) = do {
         (r2, fd2, done) \<leftarrow> event_step ?v (?r\<lparr>rsock := ss\<rparr>) ?w (-1) (Some (u @ [CHR 0x00])) (int (length u)); if done then Some r2 else event_loop ?v r2 fd2 }"
        using event_loop_line[OF m ih sy gu] by blast
      let ?r2 = "r\<lparr>rsock := ss, rsrv := set_syms srv s1, rreq := Some (W1\<lparr>timestamp := t, wstate := WEBS_HEADER, wheader := wheader W1\<rparr>)\<rparr>"
      have tx: "text_str (Some (u @ [CHR 0x00])) = Some u" using gu by (auto simp: text_str_def c_str_def good_line_def takeWhile_append)
      have "event_step ?v (?r\<lparr>rsock := ss\<rparr>) ?w (-1) (Some (u @ [CHR 0x00])) (int (length u)) = Some (?r2, -1, False)"
        using st tx pf ok a(1) by (simp add: event_step_def websParseFirst_time)
      then have ev: "event_loop ?v ?r (-1) = event_loop ?v ?r2 (-1)" using ss(2) by simp
      have "event_result ?v srv W u s1 W1 us e ?r2 t z b (event_loop ?v ?r2 (-1))"
        by (rule header_event[OF q' _ _ _ flush_holds[OF hr k(3)] _ y2(2)]) (use ss(1) in auto)
      then have "event_result v srv W u s1 W1 us e r t z b (event_loop ?v ?r2 (-1))" unfolding er by (rule event_result_same[rotated 2]) simp_all
      then show ?thesis using w ev a(2) by simp
    qed
  qed
qed

section \<open>A request in pieces\<close>

text \<open>The pieces of a request arrive one by one, each with a read event at its time.\<close>

fun deliver :: "read_env \<Rightarrow> reader \<Rightarrow> (int \<times> byte list) list \<Rightarrow> reader option" where
  "deliver v r [] = Some r"
| "deliver v r ((t, d) # ps) = do {
     r1 \<leftarrow> do { wp \<leftarrow> rreq r; websReadEvent (v\<lparr>now := t\<rparr>) (r\<lparr>rsock := arrive (rsock r) (wsid wp) d\<rparr>) };
     deliver v r1 ps }"

definition request_text :: "cstring \<Rightarrow> cstring list \<Rightarrow> byte list" where
  "request_text u us = concat (map (\<lambda>l. l @ [CHR 0x0D, CHR 0x0A]) (u # us)) @ [CHR 0x0D, CHR 0x0A]"

lemma strip_clean: "CHR 0x0D \<notin> set l \<Longrightarrow> strip l = l" by (auto simp: strip_def filter_id_conv)

lemma strip_request: "\<forall>l \<in> set (u # us). good_line l \<Longrightarrow> strip (request_text u us) = u @ CHR 0x0A # rest_text us"
proof -
  have "\<forall>l \<in> set ls. good_line l \<Longrightarrow> strip (concat (map (\<lambda>l. l @ [CHR 0x0D, CHR 0x0A]) ls) @ [CHR 0x0D, CHR 0x0A]) = rest_text ls" for ls
  proof (induction ls)
    case (Cons l ls)
    then have "strip l = l" by (auto simp: good_line_def strip_clean)
    then show ?case using Cons by simp (simp add: strip_def)
  qed (simp add: strip_def)
  from this[of "u # us"] show "\<forall>l \<in> set (u # us). good_line l \<Longrightarrow> strip (request_text u us) = u @ CHR 0x0A # rest_text us" by (simp add: request_text_def)
qed

text \<open>The event that ends the header, and the pieces after it.\<close>

lemma deliver_header:
  assumes q: "reads_request v srv W u s1 W1 us e"
  shows "hears v srv W u s1 W1 us r (strip h) \<Longrightarrow> concat (map snd ps) = h @ body \<Longrightarrow> h \<noteq> [] \<Longrightarrow> last h = CHR 0x0A \<Longrightarrow> \<forall>p \<in> set ps. snd p \<noteq> [] \<Longrightarrow>
     \<exists>t b ps2 ss s q. deliver v r ps = do {
         r1 \<leftarrow> after_header (v\<lparr>now := t\<rparr>) (r\<lparr>rsock := ss, rsrv := set_syms srv s\<rparr>)
           ((with_headers (signed_char v) (W1\<lparr>timestamp := t, wstate := WEBS_HEADER\<rparr>) us)\<lparr>wheader := q\<rparr>);
         deliver v r1 ps2 } \<and>
       b @ concat (map snd ps2) = body \<and> set ps2 \<subseteq> set ps \<and> (if ps2 = [] then t = fst (last ps) else last ps2 = last ps) \<and>
       at_body (qmem v) ss (wsid W) b \<and> same_but (cgiVars W) (syms srv) s \<and> vars_are (signed_char v) (cgiVars W) s (header_env e us)"
proof (induction ps arbitrary: r h)
  case (Cons p ps)
  obtain t d where p: "p = (t, d)" by (cases p)
  let ?ev = "do { wp \<leftarrow> rreq r; websReadEvent (v\<lparr>now := t\<rparr>) (r\<lparr>rsock := arrive (rsock r) (wsid wp) d\<rparr>) }"
  have dl: "deliver v r (p # ps) = ?ev \<bind> (\<lambda>r1. deliver v r1 ps)" by (simp add: p)
  have d: "d \<noteq> []" "d @ concat (map snd ps) = h @ body" using Cons.prems p by simp_all
  consider (more) h' where "h = d @ h'" "h' @ body = concat (map snd ps)" "h' \<noteq> []" | (rest) b where "d = h @ b" "b @ concat (map snd ps) = body"
  proof -
    obtain k where k: "d = h @ k \<and> k @ concat (map snd ps) = body \<or> d @ k = h \<and> concat (map snd ps) = k @ body" using d(2) unfolding append_eq_append_conv2 by blast
    then show ?thesis using more[of k] rest[of k] by (cases "k = []") auto
  qed
  then show ?case
  proof cases
    case more
    have l: "last h' = CHR 0x0A" using Cons.prems(4) more by simp
    then have z: "strip h' \<noteq> []" using more(3) last_in_set[OF more(3)] by (auto simp: strip_def filter_empty_conv)
    then obtain r1 where r1: "?ev = Some r1" "hears v srv W u s1 W1 us r1 (strip h')" "rcgi r1 = rcgi r" "rout r1 = rout r"
      using read_event[OF q, of r d "strip h'" "[]" t] Cons.prems(1) more(1) d(1) by (auto simp: event_result_def)
    have ne: "ps \<noteq> []" using more by auto
    have "deliver v r (p # ps) = deliver v r1 ps" using dl r1(1) by simp
    moreover obtain t' b ps2 ss s q' where i: "deliver v r1 ps = do {
         r2 \<leftarrow> after_header (v\<lparr>now := t'\<rparr>) (r\<lparr>rsock := ss, rsrv := set_syms srv s\<rparr>)
           ((with_headers (signed_char v) (W1\<lparr>timestamp := t', wstate := WEBS_HEADER\<rparr>) us)\<lparr>wheader := q'\<rparr>); deliver v r2 ps2 }"
       "b @ concat (map snd ps2) = body" "set ps2 \<subseteq> set ps" "if ps2 = [] then t' = fst (last ps) else last ps2 = last ps"
       "at_body (qmem v) ss (wsid W) b" "same_but (cgiVars W) (syms srv) s" "vars_are (signed_char v) (cgiVars W) s (header_env e us)"
      using Cons.IH[OF r1(2) more(2)[symmetric] more(3) l] Cons.prems(5) unfolding after_other[OF r1(3,4)] by (simp only: list.set ball_simps) blast
    ultimately show ?thesis using ne
      by (intro exI[of _ t'] exI[of _ b] exI[of _ ps2] exI[of _ ss] exI[of _ s] exI[of _ q']) auto
  next
    case rest
    obtain ss s q' where e: "?ev = after_header (v\<lparr>now := t\<rparr>) (r\<lparr>rsock := ss, rsrv := set_syms srv s\<rparr>)
          ((with_headers (signed_char v) (W1\<lparr>timestamp := t, wstate := WEBS_HEADER\<rparr>) us)\<lparr>wheader := q'\<rparr>)"
       "at_body (qmem v) ss (wsid W) b" "same_but (cgiVars W) (syms srv) s" "vars_are (signed_char v) (cgiVars W) s (header_env e us)"
      using read_event[OF q, of r h "[]" b t] Cons.prems(1,3,4) d(1) rest(1) by (auto simp: event_result_def)
    show ?thesis using dl e rest(2) p
      by (intro exI[of _ t] exI[of _ b] exI[of _ ps] exI[of _ ss] exI[of _ s] exI[of _ q']) auto
  qed
qed simp

section \<open>The request line\<close>

text \<open>The three parts of a request line, separated by blanks.\<close>

definition clean_token :: "cstring \<Rightarrow> bool" where
  "clean_token s \<longleftrightarrow> s \<noteq> [] \<and> (\<forall>c \<in> set s. c \<notin> {CHR '' '', CHR 0x09, CHR 0x0A, CHR 0x00})"

lemma c_strtok_first:
  assumes "clean_token s" "set ds \<subseteq> {CHR '' '', CHR 0x09, CHR 0x0A}" "CHR '' '' \<in> set ds"
  shows "c_strtok ds (s @ CHR '' '' # r) = Some (s, r)" "c_strtok ds s = Some (s, [])"
proof -
  have n: "\<forall>c \<in> set s. c \<notin> set ds" using assms(1,2) by (auto simp: clean_token_def)
  obtain c t where s: "s = c # t" using assms(1) by (cases s) (auto simp: clean_token_def)
  have d: "dropWhile (\<lambda>c. c \<in> set ds) (s @ x) = s @ x" for x using n s by simp
  have w: "takeWhile (\<lambda>c. c \<notin> set ds) (s @ CHR '' '' # r) = s" "dropWhile (\<lambda>c. c \<notin> set ds) (s @ CHR '' '' # r) = CHR '' '' # r"
    "takeWhile (\<lambda>c. c \<notin> set ds) s = s" "dropWhile (\<lambda>c. c \<notin> set ds) s = []"
    using n assms(3) by (auto simp: takeWhile_append dropWhile_append takeWhile_eq_all_conv)
  show "c_strtok ds (s @ CHR '' '' # r) = Some (s, r)" using d[of "CHR '' '' # r"] w(1,2) s by (simp add: c_strtok_def)
  show "c_strtok ds s = Some (s, [])" using d[of "[]"] w(3,4) s by (simp add: c_strtok_def)
qed

text \<open>A URL and the parts the parser finds in it.\<close>

definition url_is :: "int \<Rightarrow> cstring \<Rightarrow> cstring \<Rightarrow> cstring \<Rightarrow> bool" where
  "url_is n u h t \<longleftrightarrow> clean_token u \<and> (\<exists>p. url_form n (c_str (url_chars u)) h p t)"

lemma mime_frame:
  assumes "mime_table sc st h" "sym_tab st' h = sym_tab st h" "sym_inv sc st'"
  shows "mime_table sc st' h"
proof -
  obtain tp where tp: "sym_tab st h = Some tp" using assms(1) by (auto simp: mime_table_def sym_at_def)
  then have "sym_find sc h st' k = sym_find sc h st k" for k using assms(2) by (simp add: sym_find_def symLookup_tab[OF tp] symLookup_tab[of st' h tp])
  then show ?thesis using assms tp by (simp add: mime_table_def sym_at_def)
qed

lemma websParseFirst_spec:
  assumes m: "\<forall>n. m n \<noteq> None" and g: "0 \<le> websPort g" "websPort g < 65536" "0 \<le> testPort g" and mt: "mime_table sc st (websMime g)" "websMime g \<noteq> cgiVars wp"
    and e: "vars_are sc (cgiVars wp) st e" and h: "rq_inv (wheader wp)" and ty: "length (wtype wp) = 64"
    and u: "url_is (websPort g) u h t" "clean_token ver" and fl: "method_flags g op = Some fl" "clean_token op"
  shows "\<exists>s1 ty hq. websParseFirst m sc True True g st wp (op @ CHR '' '' # u @ CHR '' '' # ver) =
       Some (s1, (first_record g (set_flag fl wp) u (url_query t) h (fst (path_ext (url_path t))) ''http'' ver (testPort g) (snd (path_ext (url_path t))))\<lparr>wtype := ty, wheader := hq\<rparr>, None) \<and>
     vars_are sc (cgiVars wp) s1 (e(''REQUEST_METHOD'' \<mapsto> op)) \<and> c_str ty = (case mime_type_of (strlower (snd (path_ext (url_path t)))) of None \<Rightarrow> ''text/plain'' | Some ty \<Rightarrow> ty)"
proof -
  have zu: "CHR 0x00 \<notin> set u" "u \<noteq> []" and zo: "CHR 0x00 \<notin> set op" using u(1) fl(2) unfolding url_is_def clean_token_def by blast+
  obtain p where uf: "url_form (websPort g) (c_str (url_chars u)) h p t" using u(1) unfolding url_is_def by blast
  obtain s1 where s1: "websSetVar sc True True st (cgiVars wp) ''REQUEST_METHOD'' (Some op) = Some s1" "vars_are sc (cgiVars wp) s1 (e(''REQUEST_METHOD'' \<mapsto> op))"
    using vars_are_set[OF e, of "''REQUEST_METHOD''" "Some op"] zo by auto
  have sb: "sym_tab s1 (websMime g) = sym_tab st (websMime g)" using websSetVar_frame[OF s1(1)] mt(2) by (simp add: same_but_def)
  have mt1: "mime_table sc s1 (websMime g)" using mime_frame[OF mt(1) sb] s1(2) by (simp add: vars_are_def sym_at_def)
  obtain f where f: "websUrlParse m (websPort g) True u = Some (Some f)" "url_read (ubuf f) (uhost f) = Some h" "url_read (ubuf f) (uport f) = Some p"
     "url_read (ubuf f) (uproto f) = Some ''http''" "url_read (ubuf f) (upath f) = Some (fst (path_ext (url_path t)))"
     "url_read (ubuf f) (uext f) = Some (snd (path_ext (url_path t)))" "url_read (ubuf f) (uquery f) = Some (url_query t)"
    using websUrlParse_spec[OF m zu(1) g(1,2) uf] by blast
  obtain b where b: "websUrlType m sc s1 (websMime g) (websPort g) u (wtype wp) 64 = Some b"
     "c_str b = (case mime_type_of (strlower (snd (path_ext (url_path t)))) of None \<Rightarrow> ''text/plain'' | Some ty \<Rightarrow> ty)"
    using websUrlType_spec[OF mt1 m zu g(1,2) uf ty] by blast
  obtain hq where hq: "ringqFlush (wheader wp) = Some hq" using ringqFlush_spec[OF h] by blast
  have tk: "c_strtok [CHR '' '', CHR 0x09] (op @ CHR '' '' # u @ CHR '' '' # ver) = Some (op, u @ CHR '' '' # ver)"
    "c_strtok [CHR '' '', CHR 0x09, CHR 0x0A] (u @ CHR '' '' # ver) = Some (u, ver)" "c_strtok [CHR '' '', CHR 0x09, CHR 0x0A] ver = Some (ver, [])"
    using c_strtok_first u fl(2) by (auto simp: url_is_def)
  have "first_fields m sc True g s1 (set_flag fl wp) u (Some ver) f = Some ((first_record g (set_flag fl wp) u (url_query t) h (fst (path_ext (url_path t))) ''http'' ver (testPort g) (snd (path_ext (url_path t))))\<lparr>wtype := b, wheader := hq\<rparr>)"
    using f(2-) b(1) hq g(3) by (simp add: first_fields_def bstrdup_def set_flag_def)
  then show ?thesis using tk fl(1) s1 f(1) b(2) by (intro exI[of _ s1] exI[of _ b] exI[of _ hq]) (simp add: websParseFirst_def)
qed

section \<open>Requests without a body\<close>

text \<open>A server with its content types loaded and enough memory, and a request on an idle connection, as \<^verbatim>\<open>websAlloc\<close> makes it.\<close>

definition fresh_request :: "read_env \<Rightarrow> reader \<Rightarrow> webs \<Rightarrow> (cstring \<rightharpoonup> cstring) \<Rightarrow> bool" where
  "fresh_request v r W e \<longleftrightarrow> ample (qmem v) \<and> (\<forall>n. pmem v n \<noteq> None) \<and> sym_ok v \<and> dup_ok v \<and>
     0 \<le> websPort (penv v) \<and> websPort (penv v) < 65536 \<and> 0 \<le> testPort (penv v) \<and>
     mime_table (signed_char v) (syms (rsrv r)) (websMime (penv v)) \<and> websMime (penv v) \<noteq> cgiVars W \<and> vars_are (signed_char v) (cgiVars W) (syms (rsrv r)) e \<and>
     rreq r = Some W \<and> wstate W = WEBS_BEGIN \<and> wflags W = 0 \<and> header_room (wheader W) \<and> length (wtype W) = 64 \<and> sees (qmem v) (rsock r) (wsid W) []"

definition header_lines :: "bool \<Rightarrow> cstring list \<Rightarrow> bool" where
  "header_lines sc us \<longleftrightarrow> (\<forall>l \<in> set us. good_line l \<and> wf_line l \<and> header_ok sc (header_pair l)) \<and> int (length (header_text us)) < WEBS_MAX_HEADER - 1"

definition request_line :: "cstring \<Rightarrow> cstring \<Rightarrow> cstring \<Rightarrow> cstring" where
  "request_line op u ver = op @ CHR '' '' # u @ CHR '' '' # ver"

text \<open>The request its first line makes of a fresh one, for the method \<open>op\<close>, the URL \<open>u\<close> of the host \<open>h\<close> and the local part \<open>t\<close>.\<close>

definition first_request :: "read_env \<Rightarrow> webs \<Rightarrow> cstring \<Rightarrow> cstring \<Rightarrow> cstring \<Rightarrow> cstring \<Rightarrow> cstring \<Rightarrow> webs" where
  "first_request v W op u ver h t =
     first_record (penv v) (set_flag (the (method_flags (penv v) op)) W) u (url_query t) h (fst (path_ext (url_path t))) ''http'' ver (testPort (penv v)) (snd (path_ext (url_path t)))"

lemma first_record_post: "wflags (first_record g wp u q h p pr pv pn ext) AND WEBS_POST_REQUEST = wflags wp AND WEBS_POST_REQUEST"
  by (auto simp: first_record_def set_flag_def Let_def WEBS_POST_REQUEST_def WEBS_CGI_REQUEST_def WEBS_ASP_def and.commute[of _ 32] bit.conj_disj_distrib)

lemma first_header_time: "w\<lparr>wtype := a, wheader := h, timestamp := t, wstate := s\<rparr> = w\<lparr>wtype := a, timestamp := t, wstate := s, wheader := h\<rparr>" for w :: webs
  by (cases w) simp

lemma request_reads:
  assumes f: "fresh_request v r W e" and op: "op \<in> {''GET'', ''HEAD'', ''POST''}" and u: "url_is (websPort (penv v)) u h t" "clean_token ver" "good_line (request_line op u ver)"
    and us: "header_lines (signed_char v) us"
  shows "\<exists>s1 ty hq. reads_request v (rsrv r) W (request_line op u ver) s1 ((first_request v W op u ver h t)\<lparr>wtype := ty, wheader := hq\<rparr>) us (e(''REQUEST_METHOD'' \<mapsto> op)) \<and>
     c_str ty = (case mime_type_of (strlower (snd (path_ext (url_path t)))) of None \<Rightarrow> ''text/plain'' | Some ty \<Rightarrow> ty)"
proof -
  obtain fl where fl: "method_flags (penv v) op = Some fl" using op by (auto simp: method_flags_def)
  have "clean_token op" using op by (auto simp: clean_token_def)
  moreover have "rq_inv (wheader W)" using f by (simp add: fresh_request_def header_room_def)
  ultimately obtain s1 ty hq where p: "websParseFirst (pmem v) (signed_char v) True True (penv v) (syms (rsrv r)) W (request_line op u ver) =
       Some (s1, (first_request v W op u ver h t)\<lparr>wtype := ty, wheader := hq\<rparr>, None)" "vars_are (signed_char v) (cgiVars W) s1 (e(''REQUEST_METHOD'' \<mapsto> op))"
     "c_str ty = (case mime_type_of (strlower (snd (path_ext (url_path t)))) of None \<Rightarrow> ''text/plain'' | Some ty \<Rightarrow> ty)"
    using websParseFirst_spec[of "pmem v" "penv v" "signed_char v" "syms (rsrv r)" W e u h t ver op fl] f u fl
    unfolding fresh_request_def request_line_def first_request_def by auto
  then show ?thesis using f u(3) us unfolding reads_request_def fresh_request_def header_lines_def
    by (intro exI[of _ s1] exI[of _ ty] exI[of _ hq]) auto
qed

lemma get_not_post:
  assumes "fresh_request v r W e" "op \<in> {''GET'', ''HEAD''}"
  shows "wflags (first_request v W op u ver h t) AND WEBS_POST_REQUEST = 0"
proof -
  obtain fl where fl: "method_flags (penv v) op = Some fl" "fl AND WEBS_POST_REQUEST = 0"
    using assms(2) by (cases "unconnected_redirect (penv v) = 1") (auto simp: method_flags_def WEBS_POST_REQUEST_def WEBS_GET_REQUEST_def WEBS_HEAD_REQUEST_def)
  then show ?thesis using assms(1) by (simp add: first_request_def first_record_post set_flag_def fresh_request_def)
qed

lemma request_header:
  assumes f: "fresh_request v r W e" and q: "reads_request v (rsrv r) W l s1 W1 us e1" and ps: "concat (map snd ps) = request_text l us @ body" "\<forall>p \<in> set ps. snd p \<noteq> []"
  shows "\<exists>t b ps2 ss s q. deliver v r ps = do {
         r1 \<leftarrow> after_header (v\<lparr>now := t\<rparr>) (r\<lparr>rsock := ss, rsrv := set_syms (rsrv r) s\<rparr>)
           ((with_headers (signed_char v) (W1\<lparr>timestamp := t, wstate := WEBS_HEADER\<rparr>) us)\<lparr>wheader := q\<rparr>);
         deliver v r1 ps2 } \<and>
       b @ concat (map snd ps2) = body \<and> set ps2 \<subseteq> set ps \<and> (if ps2 = [] then t = fst (last ps) else last ps2 = last ps) \<and>
       at_body (qmem v) ss (wsid W) b \<and> same_but (cgiVars W) (syms (rsrv r)) s \<and> vars_are (signed_char v) (cgiVars W) s (header_env e1 us)"
proof (rule deliver_header[OF q _ ps(1) _ _ ps(2)])
  have "\<forall>k \<in> set (l # us). good_line k" using q by (auto simp: reads_request_def)
  then have "strip (request_text l us) = l @ CHR 0x0A # rest_text us" by (rule strip_request)
  then show "hears v (rsrv r) W l s1 W1 us r (strip (request_text l us))"
    using f unfolding hears_def fresh_request_def by (intro exI[of _ "[]"] exI[of _ "timestamp W"]) simp
qed (simp_all add: request_text_def)

lemma deliver_get:
  assumes "fresh_request v r W e" and "op \<in> {''GET'', ''HEAD''}" and "url_is (websPort (penv v)) u h t" "clean_token ver" "good_line (request_line op u ver)"
    and "header_lines (signed_char v) us" and "concat (map snd ps) = request_text (request_line op u ver) us" and "\<forall>p \<in> set ps. snd p \<noteq> []"
  shows "\<exists>ss s ty q. deliver v r ps = dispatch v (r\<lparr>rsock := ss, rsrv := set_syms (rsrv r) s\<rparr>)
       ((with_headers (signed_char v) ((first_request v W op u ver h t)\<lparr>wtype := ty, timestamp := fst (last ps), wstate := WEBS_HEADER\<rparr>) us)\<lparr>wheader := q\<rparr>) \<and>
     sees (qmem v) ss (wsid W) [] \<and> same_but (cgiVars W) (syms (rsrv r)) s \<and> vars_are (signed_char v) (cgiVars W) s (header_env (e(''REQUEST_METHOD'' \<mapsto> op)) us) \<and>
     c_str ty = (case mime_type_of (strlower (snd (path_ext (url_path t)))) of None \<Rightarrow> ''text/plain'' | Some ty \<Rightarrow> ty)"
proof -
  let ?l = "request_line op u ver" and ?W = "first_request v W op u ver h t"
  obtain s1 ty hq where q: "reads_request v (rsrv r) W ?l s1 (?W\<lparr>wtype := ty, wheader := hq\<rparr>) us (e(''REQUEST_METHOD'' \<mapsto> op))"
     "c_str ty = (case mime_type_of (strlower (snd (path_ext (url_path t)))) of None \<Rightarrow> ''text/plain'' | Some ty \<Rightarrow> ty)"
    using request_reads[OF assms(1) _ assms(3-6)] assms(2) by blast
  note hp = request_header[OF assms(1) q(1), of ps "[]"]
  obtain b ps2 t ss s q' where d: "deliver v r ps = do {
         r1 \<leftarrow> after_header (v\<lparr>now := t\<rparr>) (r\<lparr>rsock := ss, rsrv := set_syms (rsrv r) s\<rparr>)
           ((with_headers (signed_char v) (?W\<lparr>wtype := ty, timestamp := t, wstate := WEBS_HEADER\<rparr>) us)\<lparr>wheader := q'\<rparr>);
         deliver v r1 ps2 }" "b @ concat (map snd ps2) = []" "set ps2 \<subseteq> set ps" "if ps2 = [] then t = fst (last ps) else last ps2 = last ps"
     "at_body (qmem v) ss (wsid W) b" "same_but (cgiVars W) (syms (rsrv r)) s" "vars_are (signed_char v) (cgiVars W) s (header_env (e(''REQUEST_METHOD'' \<mapsto> op)) us)"
    using hp assms(5-8) by (auto simp: first_header_time)
  have ps2: "ps2 = []" "b = []" using d(2,3) assms(8) by (cases ps2; auto)+
  have "wflags (with_headers (signed_char v) (?W\<lparr>wtype := ty, timestamp := t, wstate := WEBS_HEADER\<rparr>) us) AND WEBS_POST_REQUEST = 0"
    using get_not_post[OF assms(1,2)] by (simp add: with_headers_def fold_field_post)
  then have "deliver v r ps = dispatch v (r\<lparr>rsock := ss, rsrv := set_syms (rsrv r) s\<rparr>)
           ((with_headers (signed_char v) (?W\<lparr>wtype := ty, timestamp := fst (last ps), wstate := WEBS_HEADER\<rparr>) us)\<lparr>wheader := q'\<rparr>)"
    using d(1,4) ps2 by (simp add: after_header_def)
  then show ?thesis using d(5-7) at_body_sees[of "qmem v" ss "wsid W" b] ps2(2) q(2) by auto
qed


text \<open>A server with content types and one request, on an idle connection.\<close>

definition demo_env :: "int \<Rightarrow> read_env" where
  "demo_env mime = \<lparr>qmem = heap_256M, pmem = (\<lambda>_. Some (\<lambda>_. CHR 0x00)), signed_char = True, sym_ok = True, dup_ok = True,
     penv = \<lparr>websMime = mime, websPort = 80, unconnected_redirect = 0, testPort = 80, cgiCommName = ''/tmp/cgi0''\<rparr>,
     auth_stack = [], env_stack = (\<lambda>_. CHR 0x00), run_fn = (\<lambda>_ st wp _ _ _. Some (st, None, [], 1)), now = 0, cgi_opens = True\<rparr>"

definition demo_fresh :: "int \<Rightarrow> webs" where
  "demo_fresh sd = demo_request\<lparr>cgiVars := sd, cookiebuf := replicate 32 CHR 0x00, wstate := WEBS_BEGIN, wtype := replicate 64 CHR 0x00,
     wheader := empty_queue\<lparr>maxsize := WEBS_MAX_HEADER, increment := 64\<rparr>\<rparr>"

definition demo_reader :: "server \<Rightarrow> int \<Rightarrow> reader" where
  "demo_reader srv sd = \<lparr>rsrv = srv, rsock = demo_net [] [], rcgi = [], rreq = Some (demo_fresh sd), rout = []\<rparr>"

lemma demo_open_tables:
  "\<exists>st mime sd. mime_table True st mime \<and> mime \<noteq> sd \<and> vars_are True sd st Map.empty"
proof -
  let ?m = "\<lambda>_. Some (\<lambda>_. CHR 0x00)"
  have r: "\<not> refuses ?m" by (simp add: refuses_def)
  obtain t mime where t: "websOpenMime True ?m sym_sample = Some (t, mime)" "sym_at True mime t" "\<forall>ext. sym_find True mime t ext = map_option mime_val (mime_type_of ext)"
    using websOpenMime_types[OF sym_sample_inv(1) r] by blast
  have inv: "sym_inv True t" using t(2) by (simp add: sym_at_def)
  obtain st sd where s: "symOpen ?m True True t 64 = Some (st, sd)" "vars_are True sd st Map.empty" using empty_vars[OF inv r, of 64] by auto
  obtain tp where f: "sym_tab st = (sym_tab t)(sd \<mapsto> tp)" "sym_tab t sd = None" using symOpen_spec[OF inv, of 64 ?m] s(1) r by auto
  have ne: "mime \<noteq> sd" using f(2) t(2) by (auto simp: sym_at_def)
  have "mime_table True t mime" using t(2,3) by (simp add: mime_table_def)
  then have "mime_table True st mime" using mime_frame f(1) ne s(2) by (simp add: vars_are_def sym_at_def)
  then show ?thesis using ne s(2) by blast
qed

lemma demo_fresh_request:
  assumes "mime_table True (syms srv) mime" "mime \<noteq> sd" "vars_are True sd (syms srv) Map.empty"
  shows "fresh_request (demo_env mime) (demo_reader srv sd) (demo_fresh sd) Map.empty"
proof -
  have h: "header_room (wheader (demo_fresh sd))"
    using empty_queue_ok(1) by (auto simp: header_room_def demo_fresh_def rq_inv_def empty_queue_def intro!: bexI[of _ 6])
  have r: "sock_ready heap_256M (demo_net [] []) 0 demo_socket" using demo_ready[of "[]" "[]"] by simp
  have "pending (demo_net [] []) demo_socket = []" "rq_data (lineBuf demo_socket) = []" "rx (net (demo_net [] []) (sock demo_socket)) = []"
    using empty_queue_ok(2) by (simp_all add: pending_def demo_net_def demo_socket_def)
  then have "sees heap_256M (demo_net [] []) 0 []" unfolding sees_to_def by (intro exI[of _ demo_socket] exI[of _ "[]"]) (simp add: r)
  then show ?thesis using assms h ample_256M
    by (simp add: fresh_request_def demo_env_def demo_reader_def) (simp add: demo_fresh_def demo_request_def)
qed


section \<open>Posted data\<close>

lemma at_body_arrive: "at_body m ss sid p \<Longrightarrow> d \<noteq> [] \<Longrightarrow> at_body m (arrive ss sid d) sid (p @ d)"
  unfolding at_body_def using ready_arrive by fastforce

lemma ample_balloc:
  assumes "ample m" "k \<le> 2 ^ 16"
  shows "\<exists>u. balloc m k = Some u \<and> length u = nat k"
proof -
  have "m k \<noteq> None" using assms by (simp add: ample_def)
  then obtain u where u: "balloc m k = Some u" by (cases "balloc m k") auto
  then show ?thesis using balloc_length[OF u] by simp
qed

lemma ballocAscToUni_text:
  assumes "ample m" "length d < 2 ^ 16"
  shows "ballocAscToUni m (d @ [CHR 0x00]) (int (length d)) = Some (Some (d @ [CHR 0x00]))"
proof -
  obtain u where "balloc m (int (length d) + 1) = Some u" "length u = length d + 1"
    using ample_balloc[OF assms(1), of "int (length d) + 1"] assms(2) by (auto simp: nat_add_distrib)
  then show ?thesis by (simp add: ballocAscToUni_def ascToUni_def mem_copy_def mem_write_def nat_add_distrib)
qed

lemma get_block_spec:
  assumes m: "ample (qmem v)" and p: "at_body (qmem v) (rsock r) (wsid wp) p" and n: "0 < n" "n \<le> 256"
  shows "\<exists>ss. at_body (qmem v) ss (wsid wp) (drop n p) \<and>
     get_block v r wp (int n) = Some (if p = [] then (r\<lparr>rsock := ss\<rparr>, -1, None, 0) else (r\<lparr>rsock := ss\<rparr>, 1, Some (take n p @ [CHR 0x00]), int (length (take n p))))"
proof -
  obtain sp where sp: "sock_ready (qmem v) (rsock r) (wsid wp) sp" "beyond (rx (net (rsock r) (sock sp))) = []" "rq_data (lineBuf sp) = []" "pending (rsock r) sp = p"
    using p by (auto simp: at_body_def)
  obtain ss sp' where s: "socketRead (rsock r) (wsid wp) (int n) = Some (ss, take n p, int (length (take n p)))"
     "reads_line (qmem v) (rsock r) (wsid wp) sp ss sp'" "pending ss sp' = drop n p" "lineBuf sp' = lineBuf sp"
    using socketRead_ready[OF sp(1) n(1)] sp(2,4) by auto
  have rd: "sock_ready (qmem v) ss (wsid wp) sp'" "beyond (rx (net ss (sock sp'))) = []" using s(2) sp(2) by (auto simp: reads_line_def)
  have e: "socketEof ss (wsid wp) = Some 0"
    using rd(1) socketPtr_at[of ss "wsid wp" sp'] by (simp add: sock_ready_def socketEof_def on_socket_def Sock.plain_def has_flag_def)
  have b: "at_body (qmem v) ss (wsid wp) (drop n p)" unfolding at_body_def using rd s(3,4) sp(3) by (intro exI[of _ sp']) simp
  have "length (take n p) \<le> 256" using n(2) by simp
  then have t: "ballocAscToUni (qmem v) (take n p @ [CHR 0x00]) (int (length (take n p))) = Some (Some (take n p @ [CHR 0x00]))"
    using ballocAscToUni_text[OF m, of "take n p"] by simp
  show ?thesis
  proof (cases "p = []")
    case True
    then show ?thesis using s(1) e b by (intro exI[of _ ss]) (simp add: get_block_def)
  next
    case False
    then have "min (length p) n \<noteq> 0" using n(1) by simp
    then show ?thesis using s(1) e b t False by (intro exI[of _ ss]) (simp add: get_block_def Let_def)
  qed
qed

text \<open>
  A request of which \<open>b\<close> has been read so far, in the blocks \<open>bs\<close>: the data are \<open>b\<close>, and the texts of all blocks but
  the first have been appended to the query.
\<close>

definition posted :: "webs \<Rightarrow> int \<Rightarrow> cstring \<Rightarrow> byte list list \<Rightarrow> int \<Rightarrow> webs" where
  "posted W n q bs t = (set_flag WEBS_POST_DATA W)\<lparr>wquery := Some (q @ concat (map c_str (tl bs))), postData := Some (concat bs),
     lenPostData := int (length (concat bs)), clen := n - int (length (concat bs)), timestamp := t\<rparr>"

definition blocks_of :: "byte list \<Rightarrow> byte list list \<Rightarrow> bool" where
  "blocks_of b bs \<longleftrightarrow> concat bs = b \<and> (\<forall>d \<in> set bs. d \<noteq> [] \<and> int (length d) \<le> WEBS_SOCKET_BUFSIZ)"

definition gathers :: "webs \<Rightarrow> int \<Rightarrow> byte list \<Rightarrow> int \<Rightarrow> webs \<Rightarrow> bool" where
  "gathers W n b t wp \<longleftrightarrow> (if b = [] then wp = W\<lparr>timestamp := t\<rparr> else \<exists>bs. blocks_of b bs \<and> wp = posted W n (opt_str (wquery W)) bs t)"

lemma c_str_end [simp]: "c_str (d @ [CHR 0x00]) = c_str d"
  by (simp add: c_str_def takeWhile_tail)

lemma block_texts: "length (concat (map c_str bs)) \<le> length (concat bs)"
proof (induction bs)
  case (Cons d bs)
  have "length (c_str d) \<le> length d" by (simp add: c_str_def length_takeWhile_le)
  then show ?case using Cons by simp
qed simp

definition post_ready :: "read_env \<Rightarrow> webs \<Rightarrow> int \<Rightarrow> bool" where
  "post_ready v W n \<longleftrightarrow> ample (qmem v) \<and> wstate W = WEBS_POST_CLEN \<and> wflags W AND WEBS_CGI_REQUEST = 0 \<and> postData W = None \<and> clen W = n \<and>
     wquery W \<noteq> None \<and> 0 < n \<and> int (length (opt_str (wquery W))) + n \<le> 2 ^ 15"

lemma first_block:
  assumes w: "post_ready v W n" and d: "d \<noteq> []" "length d \<le> 256"
  shows "post_block v (W\<lparr>timestamp := t\<rparr>) (Some (d @ [CHR 0x00])) (int (length d)) = Some (W\<lparr>timestamp := t, postData := Some d, lenPostData := int (length d)\<rparr>)"
    "set_flag WEBS_POST_DATA (W\<lparr>timestamp := t, postData := Some d, lenPostData := int (length d), clen := n - int (length d)\<rparr>) = posted W n (opt_str (wquery W)) [d] t"
proof -
  obtain u where u: "balloc (qmem v) (int (length d)) = Some u" "length u = length d"
    using ample_balloc[of "qmem v" "int (length d)"] d(2) w by (auto simp: post_ready_def)
  have "mem_copy u 0 (d @ [CHR 0x00]) (int (length d)) = Some d" using u(2) by (simp add: mem_copy_def)
  then show "post_block v (W\<lparr>timestamp := t\<rparr>) (Some (d @ [CHR 0x00])) (int (length d)) = Some (W\<lparr>timestamp := t, postData := Some d, lenPostData := int (length d)\<rparr>)"
    using w u(1) by (simp add: post_ready_def post_block_def bmemdup_def)
  obtain q0 where "wquery W = Some q0" using w by (auto simp: post_ready_def)
  then show "set_flag WEBS_POST_DATA (W\<lparr>timestamp := t, postData := Some d, lenPostData := int (length d), clen := n - int (length d)\<rparr>) = posted W n (opt_str (wquery W)) [d] t"
    by (cases W) (simp add: posted_def set_flag_def opt_str_def)
qed

lemma next_block:
  assumes w: "post_ready v W n" and wp: "wp = posted W n (opt_str (wquery W)) bs t" "bs \<noteq> []" and d: "d \<noteq> []" "int (length (concat bs @ d)) \<le> n"
  shows "\<exists>w. post_block v wp (Some (d @ [CHR 0x00])) (int (length d)) = Some w \<and>
     set_flag WEBS_POST_DATA (w\<lparr>clen := clen w - int (length d)\<rparr>) = posted W n (opt_str (wquery W)) (bs @ [d]) t \<and> clen w = n - int (length (concat bs))"
proof -
  let ?b = "concat bs" and ?q = "opt_str (wquery W) @ concat (map c_str (tl bs))"
  have "length (concat (tl bs)) \<le> length ?b" using wp(2) by (cases bs) auto
  then have "length (concat (map c_str (tl bs))) \<le> length ?b" using block_texts[of "tl bs"] by linarith
  moreover have "length (c_str d) \<le> length d" by (simp add: c_str_def length_takeWhile_le)
  ultimately have bound: "int (length ?q) + int (length (c_str d)) + 1 \<le> 2 ^ 16" "int (length ?b) + int (length d) + 1 \<le> 2 ^ 16"
    using w d(2) by (auto simp: post_ready_def)
  have m: "ample (qmem v)" using w by (simp add: post_ready_def)
  obtain u1 where u1: "balloc (qmem v) (int (length ?q) + int (length (c_str d)) + 1) = Some u1" using ample_balloc[OF m bound(1)] by blast
  obtain u2 where u2: "balloc (qmem v) (int (length ?b) + int (length d) + 1) = Some u2" "length u2 = length ?b + length d + 1"
    using ample_balloc[OF m bound(2)] by (auto simp: nat_add_distrib)
  let ?B = "?b @ drop (length ?b) u2"
  have rb: "brealloc (qmem v) ?b (int (length ?b) + int (length d) + 1) = Some ?B" using u2 by (simp add: brealloc_def)
  have mc: "mem_copy ?B (int (length ?b)) (d @ [CHR 0x00]) (int (length d)) = Some (?b @ d @ drop (length ?b + length d) u2)"
    using u2(2) by (simp add: mem_copy_def nat_add_distrib add.commute)
  have f: "postData wp = Some ?b" "wquery wp = Some ?q" "lenPostData wp = int (length ?b)" "clen wp = n - int (length ?b)" using wp(1) by (simp_all add: posted_def)
  let ?w = "wp\<lparr>wquery := Some (?q @ c_str d), postData := Some (?b @ d), lenPostData := int (length ?b) + int (length d)\<rparr>"
  have "post_block v wp (Some (d @ [CHR 0x00])) (int (length d)) = Some ?w"
    using f u1 rb mc d(1) by (simp add: post_block_def more_post_def text_str_def nat_add_distrib)
  moreover have "set_flag WEBS_POST_DATA (?w\<lparr>clen := clen ?w - int (length d)\<rparr>) = posted W n (opt_str (wquery W)) (bs @ [d]) t"
    using f(4) wp by (cases W) (simp add: posted_def set_flag_def or.assoc)
  ultimately show ?thesis using f(4) by (intro exI[of _ ?w]) simp
qed

lemma post_block_spec:
  assumes w: "post_ready v W n" and g: "gathers W n b t wp" and d: "d \<noteq> []" "length d \<le> 256" "int (length (b @ d)) \<le> n"
  shows "\<exists>w. post_block v wp (Some (d @ [CHR 0x00])) (int (length d)) = Some w \<and> gathers W n (b @ d) t (set_flag WEBS_POST_DATA (w\<lparr>clen := clen w - int (length d)\<rparr>)) \<and> clen w = n - int (length b)"
proof (cases "b = []")
  case True
  have wp: "wp = W\<lparr>timestamp := t\<rparr>" "clen W = n" using g True w by (simp_all add: gathers_def post_ready_def)
  have "blocks_of d [d]" using d by (simp add: blocks_of_def WEBS_SOCKET_BUFSIZ_def)
  then show ?thesis using first_block[OF w d(1,2), of t] wp True d(1)
    by (intro exI[of _ "W\<lparr>timestamp := t, postData := Some d, lenPostData := int (length d)\<rparr>"]) (auto simp: gathers_def)
next
  case False
  then obtain bs where bs: "blocks_of b bs" "wp = posted W n (opt_str (wquery W)) bs t" using g by (auto simp: gathers_def)
  then have c: "concat bs = b" "bs \<noteq> []" using False by (auto simp: blocks_of_def)
  have "blocks_of (b @ d) (bs @ [d])" using bs(1) d by (auto simp: blocks_of_def WEBS_SOCKET_BUFSIZ_def)
  then show ?thesis using next_block[OF w bs(2) c(2) d(1)] d(3) c(1) False by (auto simp: gathers_def)
qed

lemma gathers_same: "gathers W n b t wp \<Longrightarrow> wsid wp = wsid W \<and> wstate wp = wstate W \<and> wflags wp AND WEBS_CGI_REQUEST = wflags W AND WEBS_CGI_REQUEST"
  by (auto simp: gathers_def posted_def set_flag_def WEBS_CGI_REQUEST_def WEBS_POST_DATA_def and.commute[of _ 16384] bit.conj_disj_distrib split: if_splits)

lemma gathers_clen: "post_ready v W n \<Longrightarrow> gathers W n b t wp \<Longrightarrow> clen wp = n - int (length b)"
  by (auto simp: gathers_def posted_def blocks_of_def post_ready_def split: if_splits)

lemma gathers_time: "gathers W n b t wp \<Longrightarrow> gathers W n b t' (wp\<lparr>timestamp := t'\<rparr>)"
proof -
  have "(posted W n q bs t)\<lparr>timestamp := t'\<rparr> = posted W n q bs t'" for q bs by (simp add: posted_def)
  then show "gathers W n b t wp \<Longrightarrow> gathers W n b t' (wp\<lparr>timestamp := t'\<rparr>)" unfolding gathers_def by (cases "b = []") (simp, metis)
qed

lemma event_step_block:
  assumes w: "post_ready v W n" and g: "gathers W n b t wp" and d: "d \<noteq> []" "length d \<le> 256" "int (length (b @ d)) \<le> n"
  shows "\<exists>wp'. gathers W n (b @ d) t wp' \<and> event_step v r wp fd (Some (d @ [CHR 0x00])) (int (length d)) =
     (if int (length (b @ d)) < n then Some (r\<lparr>rreq := Some wp'\<rparr>, fd, False) else do { r2 \<leftarrow> dispatch v r wp'; Some (r2, -1, True) })"
proof -
  have st: "wstate wp = WEBS_POST_CLEN" "wflags wp AND WEBS_CGI_REQUEST = 0" using gathers_same[OF g] w by (simp_all add: post_ready_def)
  obtain p where p: "post_block v wp (Some (d @ [CHR 0x00])) (int (length d)) = Some p"
     "gathers W n (b @ d) t (set_flag WEBS_POST_DATA (p\<lparr>clen := clen p - int (length d)\<rparr>))" "clen p = n - int (length b)"
    using post_block_spec[OF assms] by blast
  have "c_int (clen p - int (length d)) = Some (n - int (length (b @ d)))" using p(3) d(3) w by (simp add: c_int_def post_ready_def)
  moreover have "\<not> int (length d) \<le> 0" using d(1) by simp
  ultimately show ?thesis using p st by (intro exI[of _ "set_flag WEBS_POST_DATA (p\<lparr>clen := clen p - int (length d)\<rparr>)"]) (simp add: event_step_def Let_def diff_diff_eq)
qed

lemma event_loop_body:
  assumes w: "post_ready v W n"
  shows "rreq r = Some wp \<Longrightarrow> gathers W n b t wp \<Longrightarrow> at_body (qmem v) (rsock r) (wsid W) p \<Longrightarrow> int (length b) < n \<Longrightarrow> int (length (b @ p)) \<le> n \<Longrightarrow>
     \<exists>ss wp'. gathers W n (b @ p) t wp' \<and> at_body (qmem v) ss (wsid W) [] \<and>
       event_loop v r fd = (if int (length (b @ p)) < n then Some (r\<lparr>rsock := ss, rreq := Some wp'\<rparr>) else dispatch v (r\<lparr>rsock := ss\<rparr>) wp')"
proof (induction "length p" arbitrary: p b wp r rule: less_induct)
  case less
  note g = gathers_same[OF less.prems(2)]
  have m: "ample (qmem v)" using w by (simp add: post_ready_def)
  have c: "clen wp = n - int (length b)" "wstate wp = WEBS_POST_CLEN" using gathers_clen[OF w less.prems(2)] g w by (simp_all add: post_ready_def)
  define k where "k = nat (min (clen wp) WEBS_SOCKET_BUFSIZ)"
  have k: "0 < k" "k \<le> 256" "int k = min (clen wp) WEBS_SOCKET_BUFSIZ" using c(1) less.prems(4) by (auto simp: k_def WEBS_SOCKET_BUFSIZ_def)
  obtain ss where ss: "at_body (qmem v) ss (wsid wp) (drop k p)"
     "get_block v r wp (int k) = Some (if p = [] then (r\<lparr>rsock := ss\<rparr>, -1, None, 0) else (r\<lparr>rsock := ss\<rparr>, 1, Some (take k p @ [CHR 0x00]), int (length (take k p))))"
    using get_block_spec[OF m _ k(1,2), of r wp p] less.prems(3) g by auto
  have gi: "websGetInput v r wp = get_block v r wp (int k)" using c(2) k(1) by (simp add: websGetInput_def k(3)[symmetric])
  show ?case
  proof (cases "p = []")
    case True
    then have "event_loop v r fd = Some (r\<lparr>rsock := ss\<rparr>)" using ss(2) gi less.prems(1) by (simp add: event_loop.simps[of v r] input_loop.simps[of v r])
    moreover have "r\<lparr>rsock := ss\<rparr> = r\<lparr>rsock := ss, rreq := Some wp\<rparr>" using less.prems(1) by (cases r) simp
    ultimately show ?thesis using True less.prems(2,4) ss(1) g by (intro exI[of _ ss] exI[of _ wp]) simp
  next
    case False
    let ?d = "take k p"
    have d: "?d \<noteq> []" "length ?d \<le> 256" "int (length (b @ ?d)) \<le> n" using False k less.prems(5) by auto
    obtain wp' where e: "gathers W n (b @ ?d) t wp'" "event_step v (r\<lparr>rsock := ss\<rparr>) wp fd (Some (?d @ [CHR 0x00])) (int (length ?d)) =
       (if int (length (b @ ?d)) < n then Some (r\<lparr>rsock := ss, rreq := Some wp'\<rparr>, fd, False) else do { r2 \<leftarrow> dispatch v (r\<lparr>rsock := ss\<rparr>) wp'; Some (r2, -1, True) })"
      using event_step_block[OF w less.prems(2) d, of "r\<lparr>rsock := ss\<rparr>" fd] by auto
    have il: "input_loop v r = Some (r\<lparr>rsock := ss\<rparr>, 1, Some (?d @ [CHR 0x00]), int (length ?d))" using ss(2) gi less.prems(1) False by (simp add: input_loop.simps[of v r])
    have ev: "event_loop v r fd = do { (r2, fd2, done) \<leftarrow> event_step v (r\<lparr>rsock := ss\<rparr>) wp fd (Some (?d @ [CHR 0x00])) (int (length ?d)); if done then Some r2 else event_loop v r2 fd2 }"
      using il less.prems(1) by (subst event_loop.simps) simp
    show ?thesis
    proof (cases "int (length (b @ ?d)) < n")
      case True
      let ?r = "r\<lparr>rsock := ss, rreq := Some wp'\<rparr>"
      have "\<exists>ss' wp''. gathers W n ((b @ ?d) @ drop k p) t wp'' \<and> at_body (qmem v) ss' (wsid W) [] \<and>
         event_loop v ?r fd = (if int (length ((b @ ?d) @ drop k p)) < n then Some (?r\<lparr>rsock := ss', rreq := Some wp''\<rparr>) else dispatch v (?r\<lparr>rsock := ss'\<rparr>) wp'')"
        by (rule less.hyps) (use False k(1) e(1) ss(1) g True less.prems(5) in auto)
      then obtain ss' wp'' where h: "gathers W n (b @ p) t wp''" "at_body (qmem v) ss' (wsid W) []"
         "event_loop v ?r fd = (if int (length (b @ p)) < n then Some (?r\<lparr>rsock := ss', rreq := Some wp''\<rparr>) else dispatch v (?r\<lparr>rsock := ss'\<rparr>) wp'')"
        by auto
      have "dispatch v (?r\<lparr>rsock := ss'\<rparr>) wp'' = dispatch v (r\<lparr>rsock := ss'\<rparr>) wp''" by (simp add: dispatch_def)
      then show ?thesis using h ev e(2) True by (intro exI[of _ ss'] exI[of _ wp'']) simp
    next
      case eq: False
      then have p: "?d = p" using d(3) less.prems(5) k(3) c(1) by auto
      have "drop k p = []" using p by (metis append_take_drop_id self_append_conv)
      then show ?thesis using ev e eq ss(1) g p by (intro exI[of _ ss] exI[of _ wp']) (simp add: dispatch_def bind_assoc split: prod.split)
    qed
  qed
qed

text \<open>Posted data in any pieces, each followed by a read event.\<close>

lemma deliver_body:
  assumes w: "post_ready v W n"
  shows "rreq r = Some wp \<Longrightarrow> gathers W n b t wp \<Longrightarrow> at_body (qmem v) (rsock r) (wsid W) [] \<Longrightarrow> int (length b) < n \<Longrightarrow> int (length (b @ concat (map snd ps))) = n \<Longrightarrow>
     \<forall>p \<in> set ps. snd p \<noteq> [] \<Longrightarrow>
     \<exists>ss wp'. gathers W n (b @ concat (map snd ps)) (fst (last ps)) wp' \<and> at_body (qmem v) ss (wsid W) [] \<and> deliver v r ps = dispatch v (r\<lparr>rsock := ss\<rparr>) wp'"
proof (induction ps arbitrary: r wp b t)
  case (Cons p ps)
  obtain t' d where p: "p = (t', d)" by (cases p)
  have d: "d \<noteq> []" "concat (map snd (p # ps)) = d @ concat (map snd ps)" using Cons.prems(6) p by simp_all
  let ?v = "v\<lparr>now := t'\<rparr>" and ?wp = "wp\<lparr>timestamp := t'\<rparr>"
  let ?r = "r\<lparr>rsock := arrive (rsock r) (wsid W) d, rreq := Some ?wp\<rparr>"
  have w': "post_ready ?v W n" using w by (simp add: post_ready_def)
  have sid: "wsid wp = wsid W" using gathers_same[OF Cons.prems(2)] by simp
  have ab: "at_body (qmem ?v) (rsock ?r) (wsid W) d" using at_body_arrive[OF Cons.prems(3) d(1)] by simp
  have le: "int (length (b @ d)) \<le> n" using Cons.prems(5) d(2) by simp
  obtain ss wp' where e: "gathers W n (b @ d) t' wp'" "at_body (qmem v) ss (wsid W) []"
     "event_loop ?v ?r (-1) = (if int (length (b @ d)) < n then Some (?r\<lparr>rsock := ss, rreq := Some wp'\<rparr>) else dispatch ?v (?r\<lparr>rsock := ss\<rparr>) wp')"
    using event_loop_body[OF w' _ gathers_time[OF Cons.prems(2)] ab Cons.prems(4) le, of t' "-1"] by auto
  have dl: "deliver v r (p # ps) = event_loop ?v ?r (-1) \<bind> (\<lambda>r1. deliver v r1 ps)"
    using Cons.prems(1) sid p by (simp add: websReadEvent_def)
  have rr: "dispatch v (r\<lparr>rsock := a, rreq := b, rsock := c\<rparr>) x = dispatch v (r\<lparr>rsock := c\<rparr>) x" for a b c x by (simp add: dispatch_def)
  show ?case
  proof (cases "ps = []")
    case True
    then have "\<not> int (length (b @ d)) < n" using Cons.prems(5) d(2) by simp
    then have "deliver v r (p # ps) = dispatch v (r\<lparr>rsock := ss\<rparr>) wp'" using dl e(3) True rr by simp
    then show ?thesis using e(1,2) True p by (intro exI[of _ ss] exI[of _ wp']) simp
  next
    case False
    then have "concat (map snd ps) \<noteq> []" using Cons.prems(6) by (cases ps) auto
    then have "0 < length (concat (map snd ps))" by blast
    moreover have "int (length (b @ d)) + int (length (concat (map snd ps))) = n" using Cons.prems(5) d(2) by simp
    ultimately have lt: "int (length (b @ d)) < n" by linarith
    let ?r1 = "?r\<lparr>rsock := ss, rreq := Some wp'\<rparr>"
    have "\<exists>ss wp'. gathers W n ((b @ d) @ concat (map snd ps)) (fst (last ps)) wp' \<and> at_body (qmem v) ss (wsid W) [] \<and> deliver v ?r1 ps = dispatch v (?r1\<lparr>rsock := ss\<rparr>) wp'"
      by (rule Cons.IH[OF _ e(1)]) (use e(2) lt Cons.prems(5,6) d(2) in auto)
    moreover have "deliver v r (p # ps) = deliver v ?r1 ps" using dl e(3) lt by simp
    ultimately show ?thesis using False d(2) rr by (auto simp: dispatch_def)
  qed
qed simp

section \<open>Requests with posted data\<close>

lemma field_wp_set: "field_wp sc (wp\<lparr>wtype := a, timestamp := t, wstate := c\<rparr>) kv = (field_wp sc wp kv)\<lparr>wtype := a, timestamp := t, wstate := c\<rparr>"
  by (cases wp) (auto simp: field_wp_def set_flag_def Let_def)

lemma with_headers_set: "with_headers sc (wp\<lparr>wtype := a, timestamp := t, wstate := c\<rparr>) ls = (with_headers sc wp ls)\<lparr>wtype := a, timestamp := t, wstate := c\<rparr>"
proof -
  have f: "foldl (field_wp sc) (w\<lparr>wtype := a, timestamp := t, wstate := c\<rparr>) kvs = (foldl (field_wp sc) w kvs)\<lparr>wtype := a, timestamp := t, wstate := c\<rparr>" for w kvs
    by (induction kvs arbitrary: w) (auto simp: field_wp_set)
  have "wp\<lparr>wtype := a, timestamp := t, wstate := c, token_flag := 0\<rparr> = wp\<lparr>token_flag := 0, wtype := a, timestamp := t, wstate := c\<rparr>" by (cases wp) simp
  then show ?thesis by (simp only: with_headers_def f)
qed

lemma field_wp_keeps [simp]: "wquery (field_wp sc wp kv) = wquery wp" "postData (field_wp sc wp kv) = postData wp" "wsid (field_wp sc wp kv) = wsid wp"
  "wflags (field_wp sc wp kv) AND WEBS_CGI_REQUEST = wflags wp AND WEBS_CGI_REQUEST"
  by (simp_all add: field_wp_def set_flag_def Let_def WEBS_CGI_REQUEST_def WEBS_CLEN_def WEBS_COOKIE_def and.commute[of _ 16384] bit.conj_disj_distrib)

lemma with_headers_keeps [simp]: "wquery (with_headers sc wp ls) = wquery wp" "postData (with_headers sc wp ls) = postData wp" "wsid (with_headers sc wp ls) = wsid wp"
  "wflags (with_headers sc wp ls) AND WEBS_CGI_REQUEST = wflags wp AND WEBS_CGI_REQUEST" "wflags (with_headers sc wp ls) AND WEBS_POST_REQUEST = wflags wp AND WEBS_POST_REQUEST"
proof -
  have "wquery (foldl (field_wp sc) w kvs) = wquery w \<and> postData (foldl (field_wp sc) w kvs) = postData w \<and> wsid (foldl (field_wp sc) w kvs) = wsid w \<and>
     wflags (foldl (field_wp sc) w kvs) AND WEBS_CGI_REQUEST = wflags w AND WEBS_CGI_REQUEST" for w kvs by (induction kvs arbitrary: w) auto
  then show "wquery (with_headers sc wp ls) = wquery wp" "postData (with_headers sc wp ls) = postData wp" "wsid (with_headers sc wp ls) = wsid wp"
     "wflags (with_headers sc wp ls) AND WEBS_CGI_REQUEST = wflags wp AND WEBS_CGI_REQUEST" "wflags (with_headers sc wp ls) AND WEBS_POST_REQUEST = wflags wp AND WEBS_POST_REQUEST"
    by (simp_all add: with_headers_def fold_field_post)
qed

lemma post_first:
  assumes "fresh_request v r W e" "\<not> c_has u CGI_BIN"
  shows "wflags (first_request v W ''POST'' u ver h t) AND WEBS_POST_REQUEST \<noteq> 0" "wflags (first_request v W ''POST'' u ver h t) AND WEBS_CGI_REQUEST = 0"
    "wquery (first_request v W ''POST'' u ver h t) = Some (url_query t)" "postData (first_request v W ''POST'' u ver h t) = None" "wsid (first_request v W ''POST'' u ver h t) = wsid W"
  using assms by (auto simp: first_request_def first_record_def method_flags_def set_flag_def Let_def fresh_request_def WEBS_POST_REQUEST_def WEBS_CGI_REQUEST_def WEBS_ASP_def)

text \<open>A header that announces the posted data, of a request that is no CGI program.\<close>

definition announces :: "read_env \<Rightarrow> webs \<Rightarrow> cstring \<Rightarrow> cstring list \<Rightarrow> byte list \<Rightarrow> bool" where
  "announces v W u us body \<longleftrightarrow> \<not> c_has u CGI_BIN \<and> body \<noteq> [] \<and> wflags (with_headers (signed_char v) W us) AND WEBS_CLEN \<noteq> 0 \<and>
     clen (with_headers (signed_char v) W us) = int (length body) \<and> length (opt_str (wquery W)) + length body \<le> 2 ^ 15"

lemma post_ready_request:
  assumes f: "fresh_request v r W e" and a: "announces v (first_request v W ''POST'' u ver h t) u us body"
  shows "post_ready v ((with_headers (signed_char v) ((first_request v W ''POST'' u ver h t)\<lparr>wtype := ty, timestamp := t0, wstate := WEBS_HEADER\<rparr>) us)\<lparr>wheader := q, wstate := WEBS_POST_CLEN\<rparr>) (int (length body))"
  using a f post_first[OF f, of u ver h t] by (auto simp: post_ready_def announces_def with_headers_set fresh_request_def)

lemma after_header_post:
  assumes f: "fresh_request v r W e" and a: "announces v (first_request v W ''POST'' u ver h t) u us body"
  shows "after_header v' r' ((with_headers (signed_char v) ((first_request v W ''POST'' u ver h t)\<lparr>wtype := ty, timestamp := t0, wstate := WEBS_HEADER\<rparr>) us)\<lparr>wheader := q\<rparr>) =
     event_loop v' (r'\<lparr>rreq := Some ((with_headers (signed_char v) ((first_request v W ''POST'' u ver h t)\<lparr>wtype := ty, timestamp := t0, wstate := WEBS_HEADER\<rparr>) us)\<lparr>wheader := q, wstate := WEBS_POST_CLEN\<rparr>)\<rparr>) (-1)"
  using a post_first(1)[OF f, of u ver h t] by (simp add: after_header_def Let_def announces_def with_headers_set)

lemma posted_request:
  "posted (w\<lparr>wtype := ty, timestamp := t0, wheader := q, wstate := WEBS_POST_CLEN\<rparr>) n x bs t =
     posted (w\<lparr>wtype := ty, wheader := q, wstate := WEBS_POST_CLEN\<rparr>) n x bs t"
  by (simp add: posted_def set_flag_def)

lemma body_events:
  assumes w: "post_ready v H n" and r: "rreq r = Some H" "at_body (qmem v) (rsock r) (wsid H) b" and n: "int (length (b @ concat (map snd ps))) = n" and ps: "\<forall>p \<in> set ps. snd p \<noteq> []"
  shows "\<exists>ss wp. gathers H n (b @ concat (map snd ps)) (if ps = [] then timestamp H else fst (last ps)) wp \<and> at_body (qmem v) ss (wsid H) [] \<and>
     event_loop (v\<lparr>now := t\<rparr>) r (-1) \<bind> (\<lambda>r1. deliver v r1 ps) = dispatch v (r\<lparr>rsock := ss\<rparr>) wp"
proof -
  let ?v = "v\<lparr>now := t\<rparr>"
  have w': "post_ready ?v H n" using w by (simp add: post_ready_def)
  have g: "gathers H n [] (timestamp H) H" by (simp add: gathers_def)
  have le: "int (length ([] @ b)) \<le> n" "int (length ([] :: byte list)) < n" using n w by (auto simp: post_ready_def)
  obtain ss1 wp1 where e1: "gathers H n b (timestamp H) wp1" "at_body (qmem v) ss1 (wsid H) []"
     "event_loop ?v r (-1) = (if int (length b) < n then Some (r\<lparr>rsock := ss1, rreq := Some wp1\<rparr>) else dispatch v (r\<lparr>rsock := ss1\<rparr>) wp1)"
    using event_loop_body[OF w' r(1) g _ le(2,1), of "-1"] r(2) by auto
  show ?thesis
  proof (cases "ps = []")
    case True
    then have "\<not> int (length b) < n" using n by simp
    then show ?thesis using e1 True by auto
  next
    case False
    then have "concat (map snd ps) \<noteq> []" using ps by (cases ps) auto
    then have "0 < length (concat (map snd ps))" by blast
    moreover have "int (length b) + int (length (concat (map snd ps))) = n" using n by simp
    ultimately have lt: "int (length b) < n" by linarith
    let ?r1 = "r\<lparr>rsock := ss1, rreq := Some wp1\<rparr>"
    obtain ss2 wp2 where "gathers H n (b @ concat (map snd ps)) (fst (last ps)) wp2" "at_body (qmem v) ss2 (wsid H) []" "deliver v ?r1 ps = dispatch v (?r1\<lparr>rsock := ss2\<rparr>) wp2"
      using deliver_body[OF w _ e1(1) _ lt n ps, of ?r1] e1(2) by auto
    moreover have "dispatch v (?r1\<lparr>rsock := ss2\<rparr>) wp2 = dispatch v (r\<lparr>rsock := ss2\<rparr>) wp2" by (simp add: dispatch_def)
    ultimately show ?thesis using e1(3) lt False by auto
  qed
qed

lemma deliver_post:
  assumes f: "fresh_request v r W e" and u: "url_is (websPort (penv v)) u h t" "clean_token ver" "good_line (request_line ''POST'' u ver)"
    and us: "header_lines (signed_char v) us" and a: "announces v (first_request v W ''POST'' u ver h t) u us body"
    and ps: "concat (map snd ps) = request_text (request_line ''POST'' u ver) us @ body" "\<forall>p \<in> set ps. snd p \<noteq> []"
  shows "\<exists>ss s ty q bs. deliver v r ps = dispatch v (r\<lparr>rsock := ss, rsrv := set_syms (rsrv r) s\<rparr>)
       (posted ((with_headers (signed_char v) (first_request v W ''POST'' u ver h t) us)\<lparr>wtype := ty, wheader := q, wstate := WEBS_POST_CLEN\<rparr>)
          (int (length body)) (url_query t) bs (fst (last ps))) \<and> blocks_of body bs \<and>
     sees (qmem v) ss (wsid W) [] \<and> same_but (cgiVars W) (syms (rsrv r)) s \<and> vars_are (signed_char v) (cgiVars W) s (header_env (e(''REQUEST_METHOD'' \<mapsto> ''POST'')) us) \<and>
     c_str ty = (case mime_type_of (strlower (snd (path_ext (url_path t)))) of None \<Rightarrow> ''text/plain'' | Some ty \<Rightarrow> ty)"
proof -
  let ?l = "request_line ''POST'' u ver" and ?W = "first_request v W ''POST'' u ver h t" and ?n = "int (length body)"
  obtain s1 ty hq where q: "reads_request v (rsrv r) W ?l s1 (?W\<lparr>wtype := ty, wheader := hq\<rparr>) us (e(''REQUEST_METHOD'' \<mapsto> ''POST''))"
     "c_str ty = (case mime_type_of (strlower (snd (path_ext (url_path t)))) of None \<Rightarrow> ''text/plain'' | Some ty \<Rightarrow> ty)"
    using request_reads[OF f _ u us] by blast
  obtain b ps2 t' ss s q' where d: "deliver v r ps = do {
         r1 \<leftarrow> after_header (v\<lparr>now := t'\<rparr>) (r\<lparr>rsock := ss, rsrv := set_syms (rsrv r) s\<rparr>)
           ((with_headers (signed_char v) (?W\<lparr>wtype := ty, timestamp := t', wstate := WEBS_HEADER\<rparr>) us)\<lparr>wheader := q'\<rparr>);
         deliver v r1 ps2 }" "b @ concat (map snd ps2) = body" "set ps2 \<subseteq> set ps" "if ps2 = [] then t' = fst (last ps) else last ps2 = last ps"
     "at_body (qmem v) ss (wsid W) b" "same_but (cgiVars W) (syms (rsrv r)) s" "vars_are (signed_char v) (cgiVars W) s (header_env (e(''REQUEST_METHOD'' \<mapsto> ''POST'')) us)"
    using request_header[OF f q(1) ps] by (auto simp: first_header_time)
  let ?H = "(with_headers (signed_char v) (?W\<lparr>wtype := ty, timestamp := t', wstate := WEBS_HEADER\<rparr>) us)\<lparr>wheader := q', wstate := WEBS_POST_CLEN\<rparr>"
  let ?r = "r\<lparr>rsock := ss, rsrv := set_syms (rsrv r) s, rreq := Some ?H\<rparr>" and ?v = "v\<lparr>now := t'\<rparr>"
  have dl: "deliver v r ps = event_loop ?v ?r (-1) \<bind> (\<lambda>r1. deliver v r1 ps2)" using d(1) after_header_post[OF f a] by simp
  have w: "post_ready v ?H ?n" by (rule post_ready_request[OF f a])
  have H: "wsid ?H = wsid W" "wquery ?H = Some (url_query t)" "timestamp ?H = t'" using post_first[OF f, of u] a by (simp_all add: announces_def with_headers_set)
  have b0: "body \<noteq> []" "\<forall>p \<in> set ps2. snd p \<noteq> []" "int (length (b @ concat (map snd ps2))) = ?n" using a d(2,3) ps(2) by (auto simp: announces_def)
  have tl: "(if ps2 = [] then timestamp ?H else fst (last ps2)) = fst (last ps)" using d(4) unfolding H(3) by simp
  obtain ss2 wp2 where z: "gathers ?H ?n body (fst (last ps)) wp2" "at_body (qmem v) ss2 (wsid W) []" "deliver v r ps = dispatch v (?r\<lparr>rsock := ss2\<rparr>) wp2"
    using body_events[OF w _ _ b0(3,2), of ?r t'] d(5) dl unfolding H(1) tl d(2) by auto
  have z3: "deliver v r ps = dispatch v (r\<lparr>rsock := ss2, rsrv := set_syms (rsrv r) s\<rparr>) wp2" using z(3) by (simp add: dispatch_def)
  obtain bs where bs: "blocks_of body bs" "wp2 = posted ?H ?n (url_query t) bs (fst (last ps))" using z(1) b0(1) H(2) by (auto simp: gathers_def opt_str_def)
  show ?thesis using z3 bs d(6,7) q(2) at_body_sees[OF z(2)]
    by (intro exI[of _ ss2] exI[of _ s] exI[of _ ty] exI[of _ q'] exI[of _ bs]) (simp add: with_headers_set posted_request)
qed



end
