(* ===== verification/Spec2Isabelle.thy ===== *)
theory Spec2Isabelle
  imports Ringq Handles Symtab Mime64 Mime Emfdb UserMgmt Fmt DbFile Md5 Websda Sessions Security Paths Uemf Url Query Handlers Sock Crypt Parse Request
begin

text \<open>
  Verification of the embedded web server under \<^verbatim>\<open>src/webs/src/src\<close>, a GoAhead derivative for
  a mobile router. The other top-level directories of the repository are third-party programs
  (coreutils, iproute2, tar, tcpdump, dhcpcd) and small device tools.

  \<^bold>\<open>Build.\<close> The model follows the LINUX build of the server: no UNICODE, \<^verbatim>\<open>a_assert\<close> compiled
  out, \<^verbatim>\<open>balloc\<close>/\<^verbatim>\<open>brealloc\<close> as \<^verbatim>\<open>malloc\<close>/\<^verbatim>\<open>realloc\<close>, 32-bit \<^verbatim>\<open>int\<close> and \<^verbatim>\<open>long\<close>, digest access
  support. The signedness of plain \<^verbatim>\<open>char\<close> is a parameter (\<open>sc\<close>) wherever the result depends on it.

  \<^bold>\<open>Conventions\<close> (theory \<open>WebsPrelude\<close>). A memory block is a list, a C string the list of the
  characters before its NUL. An operation returns an option: \<open>None\<close> is undefined behaviour (an
  access outside a block, a null pointer dereferenced, signed overflow), so every theorem that
  an operation returns \<open>Some\<close> includes that it stays inside its buffers. Error results of the
  code are values inside \<open>Some\<close>. The allocator is an argument that says which requests are granted.

  \<^bold>\<open>Theories and sources.\<close>
  \<^item> \<open>Ringq\<close> (\<^verbatim>\<open>ringq.c\<close>): growing circular buffers; blocks, characters and strings in and out.
    Refines a list; growth keeps the contents.
  \<^item> \<open>Handles\<close> (\<^verbatim>\<open>h.c\<close>): the table of handles under every open object; the locale
    \<open>handle_table\<close> states its contract.
  \<^item> \<open>Symtab\<close> (\<^verbatim>\<open>sym.c\<close>, \<^verbatim>\<open>value.c\<close>, \<^verbatim>\<open>websSetVar\<close> and its relatives in \<^verbatim>\<open>webs.c\<close>): hash tables of
    values. The locale \<open>string_table\<close> states the map laws, interpreted on the hash table; the
    variables of a request are proved over it.
  \<^item> \<open>Mime64\<close> (\<^verbatim>\<open>mime64.c\<close>), \<open>Mime\<close> (\<^verbatim>\<open>mime.c\<close>): base64 decoding against an encoder, content types.
  \<^item> \<open>Emfdb\<close> and \<open>DbFile\<close> (\<^verbatim>\<open>emfdb.c\<close>, \<^verbatim>\<open>websuemf.c\<close>): the in-memory database and its text files,
    over a map from file names to contents.
  \<^item> \<open>UserMgmt\<close> (\<^verbatim>\<open>um.c\<close>): users, groups and access limits as tables of the database; the access
    decision; sequences of operations keep the database well-formed. \<open>DbFile\<close> adds saving and
    restoring.
  \<^item> \<open>Fmt\<close> (\<^verbatim>\<open>misc.c\<close>): the formatter behind \<^verbatim>\<open>fmtAlloc\<close> and \<^verbatim>\<open>fmtStatic\<close> against a specification of
    the format language, and the number conversions.
  \<^item> \<open>Md5\<close> (\<^verbatim>\<open>md5c.c\<close>): the streaming digest against RFC 1321, for messages fed in any pieces.
  \<^item> \<open>Websda\<close> (\<^verbatim>\<open>websda.c\<close>): the response digests against RFC 2617; also the fields of \<^verbatim>\<open>websRec\<close>
    that the modelled code uses.
  \<^item> \<open>Sessions\<close> (\<^verbatim>\<open>security.c\<close>, the \<^verbatim>\<open>EGOSM_\<close> functions): logins per address and browser in a symbol
    table. The table refines a finite map \<open>sess_of\<close>; logins end six timer calls after the last
    heartbeat; a forced login removes all others.
  \<^item> \<open>Security\<close> (\<^verbatim>\<open>security.c\<close>): the access control handler, which pages and API calls it lets
    through and which it refuses.
  \<^item> \<open>Paths\<close> (\<^verbatim>\<open>websDecodeUrl\<close> and \<^verbatim>\<open>websSetRequestPath\<close> in \<^verbatim>\<open>webs.c\<close>, \<^verbatim>\<open>websCondenseMultipleChars\<close> in
    \<^verbatim>\<open>handler.c\<close>, \<^verbatim>\<open>websValidateUrl\<close> in \<^verbatim>\<open>default.c\<close>): decoding and normalisation of request paths;
    the file of an accepted path lies below the web root.
  \<^item> \<open>Uemf\<close> (\<^verbatim>\<open>uemf.c\<close>): case conversion, \<^verbatim>\<open>stritoa\<close>, the search \<^verbatim>\<open>xmemstr\<close> in binary data, \<^verbatim>\<open>jrd_trim\<close>.
  \<^item> \<open>Url\<close> (\<^verbatim>\<open>url.c\<close>): \<^verbatim>\<open>websUrlParse\<close>, whose results are pointers into one static buffer, against the
    grammar of a URL; the content type of a URL.
  \<^item> \<open>Query\<close> (\<^verbatim>\<open>websSetEnv\<close> and \<^verbatim>\<open>extractUploadedFileContent\<close> in \<^verbatim>\<open>webs.c\<close>): the variables of a request
    refine a map assigned pair by pair from the query and the posted text.
  \<^item> \<open>Handlers\<close> (\<^verbatim>\<open>handler.c\<close>, the handlers of \<^verbatim>\<open>main.c\<close>): the sorted table of handlers and the dispatch of a
    request. A handler runs only after every earlier handler whose prefix matches has declined, so
    the access control handler guards the others. \<open>Query\<close>, \<open>Security\<close> and \<open>Paths\<close> are composed here.
  \<^item> \<open>Sock\<close> (\<^verbatim>\<open>sock.c\<close>, part of \<^verbatim>\<open>sockGen.c\<close>): buffered reading of lines and writing over a connection,
    the three ring queues of a socket, the table of sockets.
  \<^item> \<open>Crypt\<close> (\<^verbatim>\<open>jrd_encrypt\<close> and \<^verbatim>\<open>jrd_decrypt\<close> in \<^verbatim>\<open>webs_define.c\<close>): the encoding of tokens and its inverse.
  \<^item> \<open>Parse\<close> (\<^verbatim>\<open>websParseFirst\<close> and \<^verbatim>\<open>websParseRequest\<close> in \<^verbatim>\<open>webs.c\<close>): the request line and the header,
    cut up in place in the header queue, against a reading of its lines one by one.
  \<^item> \<open>Request\<close> (\<^verbatim>\<open>websReadEvent\<close> and \<^verbatim>\<open>websGetInput\<close> in \<^verbatim>\<open>webs.c\<close>): the state machine of a request over \<open>Sock\<close>,
    \<open>Parse\<close> and \<open>Handlers\<close>: request line, header, posted data, dispatch. The bytes of a request may arrive
    in any pieces; it is dispatched once, with what the whole of its lines says and with its posted data
    byte for byte.
  \<^item> This theory: the property that spans them. A request that access control does not allow is refused from
    the wire on, and no handler behind access control is called.

  \<^bold>\<open>Loops.\<close> Loops over lists are structural recursions. Where the source loops on a condition,
  the model is a \<open>partial_function (option)\<close> or takes fuel, and the theorems show that it returns:
  \<open>ringqPutBlk_fuel\<close> is called with the number of bytes left to store, \<open>ringqGrow_fuel\<close> with one
  step per doubling; the traversals of a hash table are shown to end after its last chain, the
  loops of \<open>Sock\<close> when the script of the connection ends, \<open>handler_loop\<close> at the end of the table and
  \<open>header_loop\<close> at the end of the header; \<open>input_loop\<close> and \<open>event_loop\<close> end when the connection has no
  more to give. \<open>extract_parts\<close> does not end on every input, which a
  lemma shows; \<open>digest_loop\<close> has no theorem of its own.

  \<^bold>\<open>Environment.\<close> Parameters stand for code that is not in the repository: the JSON library
  (\<open>json_api\<close>), the clock, the word a traversal reads past its table (\<open>ov\<close>), the file system of
  \<open>DbFile\<close>, the script of a connection of \<open>Sock\<close> (what each \<^verbatim>\<open>recv\<close> and \<^verbatim>\<open>send\<close> will deliver), the handlers
  of \<open>Handlers\<close> other than the modelled ones, and the settings in \<open>parse_env\<close>. \<open>Request\<close> collects them in
  \<open>read_env\<close>, with one allocator for the queues and one for the parsers and handlers. No theorem assumes more
  of them than its hypotheses say.

  \<^bold>\<open>Not modelled.\<close> \<^verbatim>\<open>select\<close>, \<^verbatim>\<open>accept\<close> and \<^verbatim>\<open>connect\<close>, processes, threads and signals; answers are recorded
  as values where a handler writes them. The embedded JavaScript interpreter, the HTML pages of
  the user management, CGI, and the product glue, which calls device libraries that are not part of
  the repository. Dead code after the last \<^verbatim>\<open>return\<close> of the access control handler.
\<close>

section \<open>From the wire to access control\<close>

text \<open>
  A server on which every handler but access control and the published directories is undefined: a result
  of reading a request with it shows that no other handler has been called.
\<close>

definition sealed :: "'j json_api \<Rightarrow> read_env \<Rightarrow> read_env" where
  "sealed js v = v\<lparr>run_fn := run_handler js (signed_char v) True True (\<lambda>_ _ _ _ _ _. None)\<rparr>"

text \<open>A server with its sessions and handlers, and a new request of a client.\<close>

definition guarded_site :: "bool \<Rightarrow> reader \<Rightarrow> webs \<Rightarrow> bool" where
  "guarded_site sc r W \<longleftrightarrow> server_ready sc (rsrv r) \<and> cgiVars W \<noteq> g_sessionsTable (sess (secs (rsrv r))) \<and>
     0 \<le> nSessionid W \<and> length (cookiebuf W) = 32 \<and> CHR 0x00 \<notin> set (ipaddr W) \<and> CHR 0x00 \<notin> set (ifaddr W)"

lemma field_wp_site [simp]: "nSessionid (field_wp sc wp kv) = nSessionid wp" "cookiebuf (field_wp sc wp kv) = cookiebuf wp" "ipaddr (field_wp sc wp kv) = ipaddr wp"
  "ifaddr (field_wp sc wp kv) = ifaddr wp" "url (field_wp sc wp kv) = url wp" "wpath (field_wp sc wp kv) = wpath wp" "protoVersion (field_wp sc wp kv) = protoVersion wp"
  "b_default_unredirect (field_wp sc wp kv) = b_default_unredirect wp" "wflags (field_wp sc wp kv) AND WEBS_MULTIPART_FORM = wflags wp AND WEBS_MULTIPART_FORM"
  by (simp_all add: field_wp_def set_flag_def Let_def WEBS_MULTIPART_FORM_def WEBS_CLEN_def WEBS_COOKIE_def and.commute[of _ 524288] bit.conj_disj_distrib)

lemma with_headers_site [simp]: "nSessionid (with_headers sc wp ls) = nSessionid wp" "cookiebuf (with_headers sc wp ls) = cookiebuf wp" "ipaddr (with_headers sc wp ls) = ipaddr wp"
  "ifaddr (with_headers sc wp ls) = ifaddr wp" "url (with_headers sc wp ls) = url wp" "wpath (with_headers sc wp ls) = wpath wp" "protoVersion (with_headers sc wp ls) = protoVersion wp"
  "b_default_unredirect (with_headers sc wp ls) = b_default_unredirect wp" "wflags (with_headers sc wp ls) AND WEBS_MULTIPART_FORM = wflags wp AND WEBS_MULTIPART_FORM"
  "cgiVars (with_headers sc wp ls) = cgiVars wp"
proof -
  have i: "f (foldl (field_wp sc) w kvs) = f w" if "\<And>w kv. f (field_wp sc w kv) = f w" for f :: "webs \<Rightarrow> 'a" and w kvs
    using that by (induction kvs arbitrary: w) auto
  show "nSessionid (with_headers sc wp ls) = nSessionid wp" "cookiebuf (with_headers sc wp ls) = cookiebuf wp" "ipaddr (with_headers sc wp ls) = ipaddr wp"
    "ifaddr (with_headers sc wp ls) = ifaddr wp" "url (with_headers sc wp ls) = url wp" "wpath (with_headers sc wp ls) = wpath wp" "protoVersion (with_headers sc wp ls) = protoVersion wp"
    "b_default_unredirect (with_headers sc wp ls) = b_default_unredirect wp" "wflags (with_headers sc wp ls) AND WEBS_MULTIPART_FORM = wflags wp AND WEBS_MULTIPART_FORM"
    "cgiVars (with_headers sc wp ls) = cgiVars wp"
    using i[of nSessionid] i[of cookiebuf] i[of ipaddr] i[of ifaddr] i[of url] i[of wpath] i[of protoVersion] i[of b_default_unredirect]
      i[of "\<lambda>w. wflags w AND WEBS_MULTIPART_FORM"] i[of cgiVars] by (simp_all add: with_headers_def)
qed

lemma url_parts_clean:
  assumes "url_is n u h t"
  shows "CHR 0x00 \<notin> set u" "CHR 0x00 \<notin> set (url_query t)" "CHR 0x00 \<notin> set (fst (path_ext (url_path t)))"
proof -
  show "CHR 0x00 \<notin> set u" using assms by (auto simp: url_is_def clean_token_def)
  obtain p where f: "url_form n (c_str (url_chars u)) h p t" using assms by (auto simp: url_is_def)
  have c: "CHR 0x00 \<notin> set (c_str (url_chars u))" by (auto simp: c_str_def dest: set_takeWhileD)
  from f c have t: "CHR 0x00 \<notin> set t" by cases auto
  have d: "set (tl (dropWhile P t)) \<subseteq> set t" for P
  proof -
    have "set (tl xs) \<subseteq> set xs" for xs :: cstring by (cases xs) auto
    then show ?thesis using set_dropWhileD[of _ P t] by blast
  qed
  show "CHR 0x00 \<notin> set (url_query t)" using t d by (auto simp: url_query_def dest!: set_takeWhileD)
  have "set (url_path t) \<subseteq> set t" by (auto simp: url_path_def dest: set_takeWhileD)
  moreover have "set (fst (path_ext q)) \<subseteq> set q" for q by (auto simp: path_ext_def split: option.splits dest: in_set_takeD)
  ultimately show "CHR 0x00 \<notin> set (fst (path_ext (url_path t)))" using t by blast
qed

lemma first_request_site:
  assumes "fresh_request v r W e" "op \<in> {''GET'', ''HEAD'', ''POST''}"
  shows "url (first_request v W op u ver h t) = Some u" "wpath (first_request v W op u ver h t) = Some (fst (path_ext (url_path t)))"
    "wquery (first_request v W op u ver h t) = Some (url_query t)" "protoVersion (first_request v W op u ver h t) = Some ver"
    "nSessionid (first_request v W op u ver h t) = nSessionid W" "cookiebuf (first_request v W op u ver h t) = cookiebuf W"
    "ipaddr (first_request v W op u ver h t) = ipaddr W" "ifaddr (first_request v W op u ver h t) = ifaddr W"
    "b_default_unredirect (first_request v W op u ver h t) = b_default_unredirect W" "wflags (first_request v W op u ver h t) AND WEBS_MULTIPART_FORM = 0"
    "cgiVars (first_request v W op u ver h t) = cgiVars W" "postData (first_request v W op u ver h t) = None"
  using assms
  by (auto simp: first_request_def first_record_def method_flags_def set_flag_def Let_def fresh_request_def WEBS_MULTIPART_FORM_def WEBS_POST_REQUEST_def WEBS_HEAD_REQUEST_def
      WEBS_GET_REQUEST_def WEBS_CGI_REQUEST_def WEBS_ASP_def)

lemma site_frame:
  assumes g: "guarded_site sc r W" and s: "same_but (cgiVars W) (syms (rsrv r)) s" "vars_are sc (cgiVars W) s e"
  shows "server_ready sc (set_syms (rsrv r) s)" "client_in sc (secs (set_syms (rsrv r) s)) wp = client_in sc (secs (rsrv r)) wp"
    "own_referer (secs (set_syms (rsrv r) s)) wp = own_referer (secs (rsrv r)) wp" "g_sessionsTable (sess (secs (set_syms (rsrv r) s))) = g_sessionsTable (sess (secs (rsrv r)))"
proof -
  have "sec_ready sc (secs (rsrv r))" "same_but (cgiVars W) (symtab (sess (secs (rsrv r)))) s" "cgiVars W \<noteq> g_sessionsTable (sess (secs (rsrv r)))" "sym_inv sc s"
    using g s by (simp_all add: guarded_site_def server_ready_def syms_def vars_are_def sym_at_def)
  note f = sec_frame[OF this]
  show "server_ready sc (set_syms (rsrv r) s)" using f(1) g by (simp add: guarded_site_def server_ready_def set_syms_def)
  show "client_in sc (secs (set_syms (rsrv r) s)) wp = client_in sc (secs (rsrv r)) wp" "own_referer (secs (set_syms (rsrv r) s)) wp = own_referer (secs (rsrv r)) wp"
    using f(2,3) by (simp_all add: set_syms_def)
  show "g_sessionsTable (sess (secs (set_syms (rsrv r) s))) = g_sessionsTable (sess (secs (rsrv r)))" by (simp add: set_syms_def)
qed

text \<open>The data that follow the header: none for GET and HEAD, those a POST request announces.\<close>

definition carries :: "read_env \<Rightarrow> webs \<Rightarrow> cstring \<Rightarrow> cstring \<Rightarrow> cstring list \<Rightarrow> byte list \<Rightarrow> bool" where
  "carries v W op u us body \<longleftrightarrow> op \<in> {''GET'', ''HEAD''} \<and> body = [] \<or> op = ''POST'' \<and> announces v W u us body"

text \<open>What access control reads of a request.\<close>

definition wire_fields :: "webs \<Rightarrow> webs \<Rightarrow> bool" where
  "wire_fields H wp \<longleftrightarrow> url wp = url H \<and> wpath wp = wpath H \<and> referer wp = referer H \<and> SM_getSessionKey wp = SM_getSessionKey H \<and>
     b_default_unredirect wp = b_default_unredirect H \<and> protoVersion wp = protoVersion H \<and> nSessionid wp = nSessionid H \<and> cookiebuf wp = cookiebuf H \<and>
     ipaddr wp = ipaddr H \<and> ifaddr wp = ifaddr H \<and> cgiVars wp = cgiVars H \<and> wflags wp AND WEBS_MULTIPART_FORM = wflags H AND WEBS_MULTIPART_FORM \<and>
     CHR 0x00 \<notin> set (opt_str (wquery wp)) \<and> (\<forall>b. postData wp = Some b \<longrightarrow> lenPostData wp = int (length b))"

lemma wire_ready:
  assumes f: "fresh_request v r W e" and op: "op \<in> {''GET'', ''HEAD'', ''POST''}" and g: "guarded_site (signed_char v) r W" and u: "url_is (websPort (penv v)) u h t" "clean_token ver"
    and rf: "\<forall>x. referer H = Some x \<longrightarrow> 7 \<le> length x" and H: "H = with_headers (signed_char v) (first_request v W op u ver h t) us"
    and w: "wire_fields H wp" and s: "same_but (cgiVars W) (syms (rsrv r)) s" "vars_are (signed_char v) (cgiVars W) s e1"
  shows "request_ready (signed_char v) (set_syms (rsrv r) s) wp"
proof -
  note fr = first_request_site[OF f op, of u ver h t]
  have "CHR 0x00 \<notin> set ver" using u(2) by (auto simp: clean_token_def)
  then have "req_strings wp" using url_parts_clean[OF u(1)] g fr w by (simp add: req_strings_def wire_fields_def H guarded_site_def) (simp add: opt_str_def)
  moreover have "req_ok wp" using g fr rf w by (simp add: req_ok_def guarded_site_def wire_fields_def H)
  moreover have "cgiVars wp = cgiVars W" "wflags wp AND WEBS_MULTIPART_FORM = 0" "\<forall>b. postData wp = Some b \<longrightarrow> lenPostData wp = int (length b)"
    using fr w by (simp_all add: wire_fields_def H)
  ultimately show ?thesis using s(2) g site_frame(4)[OF g s] by (auto simp: request_ready_def guarded_site_def)
qed

lemma wire_dispatch:
  assumes f: "fresh_request v r W e" and u: "url_is (websPort (penv v)) u h t" "clean_token ver" "good_line (request_line op u ver)" and us: "header_lines (signed_char v) us"
    and c: "carries v (first_request v W op u ver h t) op u us body"
    and ps: "concat (map snd ps) = request_text (request_line op u ver) us @ body" "\<forall>p \<in> set ps. snd p \<noteq> []"
    and H: "H = with_headers (signed_char v) (first_request v W op u ver h t) us"
  shows "\<exists>ss s wp e1. deliver v r ps = dispatch v (r\<lparr>rsock := ss, rsrv := set_syms (rsrv r) s\<rparr>) wp \<and>
     wire_fields H wp \<and> same_but (cgiVars W) (syms (rsrv r)) s \<and> vars_are (signed_char v) (cgiVars W) s e1"
proof -
  let ?W = "first_request v W op u ver h t"
  have op: "op \<in> {''GET'', ''HEAD'', ''POST''}" using c by (auto simp: carries_def)
  note fr = first_request_site[OF f op, of u ver h t] and cl = url_parts_clean(2)[OF u(1)]
  show ?thesis
  proof (cases "op = ''POST''")
    case False
    then have g: "op \<in> {''GET'', ''HEAD''}" "body = []" using c by (auto simp: carries_def)
    have tx: "concat (map snd ps) = request_text (request_line op u ver) us" using ps(1) g(2) by simp
    have w: "wire_fields H ((with_headers (signed_char v) (?W\<lparr>wtype := ty, timestamp := t0, wstate := WEBS_HEADER\<rparr>) us)\<lparr>wheader := q\<rparr>)" for ty t0 q
      using fr cl by (simp add: wire_fields_def H with_headers_set SM_getSessionKey_def SM_getBrowserType_def opt_str_def)
    show ?thesis using deliver_get[OF f g(1) u us tx ps(2)] w by blast
  next
    case True
    then have a: "announces v (first_request v W ''POST'' u ver h t) u us body" using c by (auto simp: carries_def)
    have "CHR 0x00 \<notin> set (c_str d)" for d by (auto simp: c_str_def dest: set_takeWhileD)
    then have w: "wire_fields H (posted ((with_headers (signed_char v) ?W us)\<lparr>wtype := ty, wheader := q, wstate := WEBS_POST_CLEN\<rparr>) n (url_query t) bs t0)" for ty t0 q n bs
      using fr cl by (auto simp: wire_fields_def H posted_def set_flag_def SM_getSessionKey_def SM_getBrowserType_def opt_str_def
          WEBS_MULTIPART_FORM_def WEBS_POST_DATA_def and.commute[of _ 524288] bit.conj_disj_distrib)
    show ?thesis using deliver_post[OF f u[unfolded True] us a ps(1)[unfolded True] ps(2)] w[unfolded True] unfolding True by blast
  qed
qed

lemma sealed_refuses:
  assumes "server_ready sc st" "request_ready sc st wp" "\<forall>n. m n \<noteq> None" "url wp = Some u" "wpath wp = Some q" "CHR 0x00 \<notin> set u"
    and p: "p = condense CHR ''/'' q" "take 11 p \<noteq> ''/jrd/webapi''" and no: "\<not> page_allowed sc st wp (condense CHR ''/'' u) p"
  shows "\<exists>st1 wp1 xs. (xs \<noteq> [] \<or> b_default_unredirect wp) \<and> websUrlHandlerRequest m sc True True bs (run_handler js sc True True (\<lambda>_ _ _ _ _ _. None)) st wp =
     (if take 1 p \<noteq> ''/'' \<or> CHR 0x5C \<in> set p then Some (st\<lparr>handlerHits := handlerHits st + 1\<rparr>, None, [WebsError 400 ''Bad request''], 0)
      else Some (st1, Some wp1, map SecReply xs, 1))"
proof -
  obtain st1 wp1 xs where x: "page_allowed sc st wp (condense CHR ''/'' u) p \<or> xs \<noteq> [] \<or> b_default_unredirect wp"
     "\<forall>other. websUrlHandlerRequest m sc True True bs (run_handler js sc True True other) st wp =
     (if take 1 p \<noteq> ''/'' \<or> CHR 0x5C \<in> set p then Some (st\<lparr>handlerHits := handlerHits st + 1\<rparr>, None, [WebsError 400 ''Bad request''], 0)
      else if page_allowed sc st wp (condense CHR ''/'' u) p then handler_loop m sc True True bs (run_handler js sc True True other) st1 wp1 1 False []
      else Some (st1, Some wp1, map SecReply xs, 1))"
    using websUrlHandlerRequest_guarded_spec[OF assms(1-6), of bs js] p(2) unfolding p(1)[symmetric] by blast
  show ?thesis by (rule exI[of _ st1], rule exI[of _ wp1], rule exI[of _ xs]) (use x no in \<open>simp only: if_False simp_thms\<close>)
qed

lemma wire_refused:
  assumes f: "fresh_request v r W e" and g: "guarded_site (signed_char v) r W" and c: "carries v (first_request v W op u ver h t) op u us body"
    and u: "url_is (websPort (penv v)) u h t" "clean_token ver" "good_line (request_line op u ver)" and us: "header_lines (signed_char v) us"
    and ps: "concat (map snd ps) = request_text (request_line op u ver) us @ body" "\<forall>p \<in> set ps. snd p \<noteq> []"
    and p: "p = condense CHR ''/'' (fst (path_ext (url_path t)))" "take 11 p \<noteq> ''/jrd/webapi''"
    and H: "H = with_headers (signed_char v) (first_request v W op u ver h t) us" "\<forall>x. referer H = Some x \<longrightarrow> 7 \<le> length x"
    and no: "\<not> page_allowed (signed_char v) (rsrv r) H (condense CHR ''/'' u) p"
  shows "\<exists>r' rs. deliver (sealed js v) r ps = Some r' \<and> rout r' = rout r @ rs \<and>
     (if take 1 p \<noteq> ''/'' \<or> CHR 0x5C \<in> set p then rs = [WebsError 400 ''Bad request'']
      else \<exists>xs. rs = map SecReply xs \<and> (xs \<noteq> [] \<or> b_default_unredirect W))"
proof -
  let ?v = "sealed js v" and ?W = "first_request v W op u ver h t"
  have v: "fresh_request ?v r W e" "websPort (penv ?v) = websPort (penv v)" "signed_char ?v = signed_char v" "first_request ?v W op u ver h t = ?W"
    "carries ?v ?W op u us body"
    using f c by (simp_all add: sealed_def fresh_request_def first_request_def carries_def announces_def)
  have op: "op \<in> {''GET'', ''HEAD'', ''POST''}" using c by (auto simp: carries_def)
  note fr = first_request_site[OF f op, of u ver h t]
  obtain ss s wp e1 where d: "deliver ?v r ps = dispatch ?v (r\<lparr>rsock := ss, rsrv := set_syms (rsrv r) s\<rparr>) wp" "wire_fields H wp"
     "same_but (cgiVars W) (syms (rsrv r)) s" "vars_are (signed_char v) (cgiVars W) s e1"
    using wire_dispatch[OF v(1), of u h t ver op us body ps H] u us ps H(1) v by auto
  let ?st = "set_syms (rsrv r) s"
  note sf = site_frame[OF g d(3,4)]
  have rr: "request_ready (signed_char v) ?st wp" by (rule wire_ready[OF f op g u(1,2) H(2,1) d(2-4)])
  have na: "\<not> page_allowed (signed_char v) ?st wp (condense CHR ''/'' u) p"
    using no sf(2,3) d(2) by (simp add: page_allowed_def client_in_def own_referer_def wire_fields_def)
  have HH: "url wp = Some u" "wpath wp = Some (fst (path_ext (url_path t)))" "b_default_unredirect wp = b_default_unredirect W" using fr d(2) by (simp_all add: wire_fields_def H(1))
  have m: "\<forall>n. pmem v n \<noteq> None" and ok: "sym_ok v" "dup_ok v" using f by (simp_all add: fresh_request_def)
  have run: "run_fn ?v = run_handler js (signed_char v) True True (\<lambda>_ _ _ _ _ _. None)" by (simp add: sealed_def)
  obtain st1 wp1 xs where x: "xs \<noteq> [] \<or> b_default_unredirect W" "websUrlHandlerRequest (pmem v) (signed_char v) True True (env_stack v) (run_fn ?v) ?st wp =
     (if take 1 p \<noteq> ''/'' \<or> CHR 0x5C \<in> set p then Some (?st\<lparr>handlerHits := handlerHits ?st + 1\<rparr>, None, [WebsError 400 ''Bad request''], 0)
      else Some (st1, Some wp1, map SecReply xs, 1))"
    using sealed_refuses[OF sf(1) rr m HH(1,2) url_parts_clean(1)[OF u(1)] p na, of "env_stack v" js] unfolding HH(3) run by blast
  have e: "deliver ?v r ps = do { (srv, w, rs, _) \<leftarrow> websUrlHandlerRequest (pmem v) (signed_char v) True True (env_stack v) (run_fn ?v) ?st wp;
     Some (r\<lparr>rsock := ss, rsrv := srv, rreq := w, rout := rout r @ rs\<rparr>) }"
    unfolding d(1) dispatch_def using ok by (simp add: sealed_def)
  show ?thesis unfolding e x(2) using x(1) by (cases "take 1 p \<noteq> ''/'' \<or> CHR 0x5C \<in> set p") auto
qed


text \<open>A server with content types, sessions and handlers, and nobody logged in.\<close>

lemma demo_guarded:
  "\<exists>srv mime sd. mime_table True (syms srv) mime \<and> mime \<noteq> sd \<and> vars_are True sd (syms srv) Map.empty \<and> guarded_site True (demo_reader srv sd) (demo_fresh sd) \<and>
     (\<forall>wp. \<not> client_in True (secs srv) wp)"
proof -
  let ?m = "\<lambda>_. Some (\<lambda>_. CHR 0x00)"
  have r: "\<not> refuses ?m" by (simp add: refuses_def)
  obtain t mime where t: "websOpenMime True ?m sym_sample = Some (t, mime)" "sym_at True mime t" "\<forall>ext. sym_find True mime t ext = map_option mime_val (mime_type_of ext)"
    using websOpenMime_types[OF sym_sample_inv(1) r] by blast
  have inv: "sym_inv True t" "mime_table True t mime" using t by (simp_all add: sym_at_def mime_table_def)
  obtain s where s: "EGOSM_Init ?m True True (demo_sessions\<lparr>symtab := t\<rparr>) = Some s" "sess_inv True s" "sess_of True s = Map.empty"
    using EGOSM_Init_spec[of True "demo_sessions\<lparr>symtab := t\<rparr>" ?m] inv r by auto
  obtain sd0 tp where f: "sym_tab (symtab s) = (sym_tab t)(sd0 \<mapsto> tp)" "sym_tab t sd0 = None"
    using s(1) symOpen_spec[OF inv(1), of MAX_COUNT_OF_SESSION ?m] r by (auto simp: EGOSM_Init_def MAX_COUNT_OF_SESSION_def)
  have m1: "sym_tab (symtab s) mime = sym_tab t mime" using f t(2) by (auto simp: sym_at_def)
  obtain srv sd where st: "server_ready True srv" "vars_are True sd (syms srv) Map.empty" "sd \<noteq> g_sessionsTable (sess (secs srv))"
     "\<forall>wp. \<not> client_in True (secs srv) wp" "same_but sd (symtab s) (syms srv)" "sym_tab (symtab s) sd = None"
    using demo_site_ready[OF s(2,3)] by blast
  have ne: "mime \<noteq> sd" using st(6) m1 t(2) by (auto simp: sym_at_def)
  have "sym_tab (syms srv) mime = sym_tab t mime" using st(5) ne m1 by (simp add: same_but_def)
  then have "mime_table True (syms srv) mime" using mime_frame[OF inv(2)] st(2) by (simp add: vars_are_def sym_at_def)
  moreover have "guarded_site True (demo_reader srv sd) (demo_fresh sd)"
    using st(1,3) by (simp add: guarded_site_def demo_reader_def demo_fresh_def demo_request_def)
  ultimately show ?thesis using ne st(2,4) by blast
qed


end
